(* ===== verification/Xv6_Prelude.thy ===== *)
theory Xv6_Prelude
  imports Main "HOL-Library.Word"
begin

text \<open>
  Shared vocabulary of the development: the C integer types of \<^verbatim>\<open>kernel/types.h\<close> as
  words, the result type of kernel code that may panic, the constants of
  \<^verbatim>\<open>kernel/param.h\<close>, \<^verbatim>\<open>kernel/riscv.h\<close> and \<^verbatim>\<open>kernel/memlayout.h\<close>, and the generic
  lemmas on words, lists and circular buffers that the component theories share.
  The collections \<open>ring_simps\<close> and \<open>kres_simps\<close> are the development's own simp sets.
\<close>

unbundle bit_operations_syntax

section \<open>C integer types\<close>

type_synonym u8 = "8 word"
type_synonym u16 = "16 word"
type_synonym u32 = "32 word"
type_synonym u64 = "64 word"

section \<open>Results of kernel code\<close>

text \<open>
  \<open>Panic s\<close> is the call \<^verbatim>\<open>panic(s)\<close>, which never returns. \<open>WouldSleep\<close> ends a call that the
  model runs without interleaving at the point where it would wait for another process.
  \<open>BadIndex\<close> is an access outside a C array, whose effect is undefined. \<open>OutOfFuel\<close> marks a loop or
  a recursion of the model that was given too small a bound.
\<close>

datatype kerror = Panic string | WouldSleep | BadIndex | OutOfFuel

type_synonym 'a kres = "kerror + 'a"

definition rbind :: "'a kres \<Rightarrow> ('a \<Rightarrow> 'b kres) \<Rightarrow> 'b kres" where
  "rbind r f = (case r of Inl e \<Rightarrow> Inl e | Inr x \<Rightarrow> f x)"

named_theorems kres_simps
named_theorems ring_simps

lemma rbind_simps [simp, kres_simps]:
  "rbind (Inl e) f = Inl e"
  "rbind (Inr x) f = f x"
  by (simp_all add: rbind_def)

lemma rbind_eq_Inr [kres_simps]:
  "rbind r f = Inr y \<longleftrightarrow> (\<exists>x. r = Inr x \<and> f x = Inr y)"
  by (cases r) simp_all

lemma rbind_eq_Inl [kres_simps]:
  "rbind r f = Inl e \<longleftrightarrow> r = Inl e \<or> (\<exists>x. r = Inr x \<and> f x = Inl e)"
  by (cases r) simp_all

lemma rbind_assoc: "rbind (rbind r f) g = rbind r (\<lambda>x. rbind (f x) g)"
  by (cases r) simp_all

lemma rbind_cong [fundef_cong]:
  "r = r' \<Longrightarrow> (\<And>x. r' = Inr x \<Longrightarrow> f x = g x) \<Longrightarrow> rbind r f = rbind r' g"
  by (cases r') simp_all

text \<open>A loop over a list of indices whose body may panic.\<close>

primrec rfold :: "('i \<Rightarrow> 's \<Rightarrow> 's kres) \<Rightarrow> 'i list \<Rightarrow> 's \<Rightarrow> 's kres" where
  "rfold f [] s = Inr s"
| "rfold f (i # is) s = rbind (f i s) (rfold f is)"

lemma rfold_append: "rfold f (is @ js) s = rbind (rfold f is s) (rfold f js)"
  by (induction "is" arbitrary: s) (auto simp: rbind_assoc intro: rbind_cong)

lemma rfold_inv:
  assumes "rfold f is s = Inr s'" "I s" "\<And>i s s'. i \<in> set is \<Longrightarrow> I s \<Longrightarrow> f i s = Inr s' \<Longrightarrow> I s'"
  shows "I s'"
  using assms by (induction "is" arbitrary: s) (auto simp: rbind_eq_Inr)

section \<open>Constants of the machine and the kernel\<close>

definition PGSIZE :: nat where "PGSIZE = 4096"
definition PGSZ :: u64 where "PGSZ = 4096"
definition MAXVA :: u64 where "MAXVA = 2 ^ 38"
definition TRAMPOLINE :: u64 where "TRAMPOLINE = MAXVA - PGSZ"
definition TRAPFRAME :: u64 where "TRAPFRAME = TRAMPOLINE - PGSZ"
definition KSTACK :: "nat \<Rightarrow> u64" where "KSTACK p = TRAMPOLINE - of_nat (p + 1) * 2 * PGSZ"
definition KERNBASE :: u64 where "KERNBASE = 0x80000000"
definition PHYSTOP :: u64 where "PHYSTOP = KERNBASE + 128 * 1024 * 1024"

definition NPROC :: nat where "NPROC = 64"
definition NOFILE :: nat where "NOFILE = 16"
definition NFILE :: nat where "NFILE = 100"

definition PGROUNDUP :: "u64 \<Rightarrow> u64" where
  "PGROUNDUP sz = (sz + PGSZ - 1) AND NOT (PGSZ - 1)"

definition PGROUNDDOWN :: "u64 \<Rightarrow> u64" where
  "PGROUNDDOWN a = a AND NOT (PGSZ - 1)"

section \<open>Words\<close>

lemma PGSZ_mask: "PGSZ - 1 = mask 12"
  by (simp add: PGSZ_def mask_eq_decr_exp)

lemma and_not_mask_minus: "(x :: 'a::len word) AND NOT (mask n) = x - take_bit n x"
proof -
  have "x AND NOT (mask n) = push_bit n (drop_bit n x)"
    by (rule bit_eqI) (auto simp: bit_simps)
  then have "(x AND NOT (mask n)) + take_bit n x = x"
    by (simp add: bits_ident)
  then show ?thesis by (metis add_diff_cancel_right')
qed

lemma PGROUNDDOWN_minus: "PGROUNDDOWN a = a - take_bit 12 a"
  by (simp add: PGROUNDDOWN_def PGSZ_mask and_not_mask_minus)

lemma unat_take_bit_12: "unat (take_bit 12 (a :: u64)) = unat a mod 4096"
  by (simp add: take_bit_eq_mod unat_mod)

lemma take_bit_12_le: "take_bit 12 (a :: u64) \<le> a"
  by (simp add: word_le_nat_alt unat_take_bit_12)

lemma unat_PGROUNDDOWN: "unat (PGROUNDDOWN a) = unat a - unat a mod 4096"
  by (simp add: PGROUNDDOWN_minus unat_sub take_bit_12_le unat_take_bit_12)

lemma offset_in_page: "a - PGROUNDDOWN a = take_bit 12 a"
  by (simp add: PGROUNDDOWN_minus)

lemma unat_offset_in_page: "unat (a - PGROUNDDOWN a) = unat a mod 4096"
  by (simp add: offset_in_page unat_take_bit_12)

lemma PGROUNDDOWN_aligned: "unat (PGROUNDDOWN a) mod 4096 = 0"
  by (simp add: unat_PGROUNDDOWN minus_mod_eq_mult_div)

lemma unat_less_pow32: "unat (x :: u32) < 2 ^ 32"
  using unsigned_less [of x] by simp

lemma unat_less_pow64: "unat (x :: u64) < 2 ^ 64"
  using unsigned_less [of x] by simp

lemma unat_of_nat_small: "n < 2 ^ LENGTH('a) \<Longrightarrow> unat (of_nat n :: 'a::len word) = n"
  by (simp add: unat_of_nat)

lemma unat_add_mod_len:
  fixes x :: "'a::len word"
  assumes "t dvd 2 ^ LENGTH('a)"
  shows "unat (x + of_nat k) mod t = (unat x + k) mod t"
proof -
  have "unat (x + of_nat k) mod t = (unat x + unat (of_nat k :: 'a word)) mod 2 ^ LENGTH('a) mod t"
    by (simp add: unat_word_ariths)
  also have "\<dots> = (unat x + unat (of_nat k :: 'a word)) mod t"
    using assms by (simp add: mod_mod_cancel)
  also have "\<dots> = (unat x + k mod 2 ^ LENGTH('a)) mod t"
    by (simp add: unat_of_nat)
  also have "\<dots> = (unat x + k) mod t"
    using assms by (metis mod_add_right_eq mod_mod_cancel)
  finally show ?thesis .
qed

lemma unat_add_mod_dvd: "t dvd 2 ^ 32 \<Longrightarrow> unat ((x :: u32) + of_nat k) mod t = (unat x + k) mod t"
  by (rule unat_add_mod_len) simp

lemma unat_PGROUNDUP:
  assumes "unat a + 4095 < 2 ^ 64"
  shows "unat (PGROUNDUP a) = (unat a + 4095) div 4096 * 4096"
proof -
  have "PGROUNDUP a = PGROUNDDOWN (a + 4095)"
    by (simp add: PGROUNDUP_def PGROUNDDOWN_def PGSZ_def add.commute)
  moreover have "unat (a + 4095) = unat a + 4095" using assms by (simp add: unat_word_ariths)
  ultimately show ?thesis by (simp add: unat_PGROUNDDOWN minus_mod_eq_div_mult)
qed

section \<open>Lists: overwriting and slicing\<close>

definition overwrite :: "'a list \<Rightarrow> nat \<Rightarrow> 'a list \<Rightarrow> 'a list" where
  "overwrite xs p ys = take p xs @ ys @ drop (p + length ys) xs"

definition segment :: "'a list \<Rightarrow> nat \<Rightarrow> nat \<Rightarrow> 'a list" where
  "segment xs p n = take n (drop p xs)"

lemma length_overwrite [simp]:
  "p + length ys \<le> length xs \<Longrightarrow> length (overwrite xs p ys) = length xs"
  by (simp add: overwrite_def)

lemma overwrite_Nil [simp]: "p \<le> length xs \<Longrightarrow> overwrite xs p [] = xs"
  by (simp add: overwrite_def)

lemma nth_overwrite:
  assumes "p + length ys \<le> length xs" and "k < length xs"
  shows "overwrite xs p ys ! k = (if p \<le> k \<and> k < p + length ys then ys ! (k - p) else xs ! k)"
  using assms by (auto simp: overwrite_def nth_append min_def)

lemma overwrite_single: "p < length xs \<Longrightarrow> overwrite xs p [y] = xs[p := y]"
  by (simp add: overwrite_def upd_conv_take_nth_drop)

lemma length_segment [simp]: "p + n \<le> length xs \<Longrightarrow> length (segment xs p n) = n"
  by (simp add: segment_def)

lemma nth_segment: "p + n \<le> length xs \<Longrightarrow> k < n \<Longrightarrow> segment xs p n ! k = xs ! (p + k)"
  by (simp add: segment_def)

lemma segment_overwrite:
  "p + length ys \<le> length xs \<Longrightarrow> segment (overwrite xs p ys) p (length ys) = ys"
  by (simp add: segment_def overwrite_def)

text \<open>A two-dimensional array laid out row by row.\<close>

lemma length_concat_rows: "\<forall>b \<in> set bss. length b = s \<Longrightarrow> length (concat bss) = length bss * s"
  by (induction bss) auto

lemma concat_overwrite_row:
  assumes "\<forall>b \<in> set bss. length b = s" "j < length bss" "off + length ys \<le> s"
  shows "concat (bss[j := overwrite (bss ! j) off ys]) = overwrite (concat bss) (j * s + off) ys"
  using assms
proof (induction bss arbitrary: j)
  case (Cons b bss)
  show ?case
  proof (cases j)
    case 0
    with Cons.prems show ?thesis by (simp add: overwrite_def)
  next
    case (Suc j')
    with Cons have "concat (bss[j' := overwrite (bss ! j') off ys])
        = overwrite (concat bss) (j' * s + off) ys" by simp
    with Suc Cons.prems show ?thesis by (simp add: overwrite_def add.assoc)
  qed
qed simp

lemma segment_concat_row:
  assumes "\<forall>b \<in> set bss. length b = s" "j < length bss" "off + k \<le> s"
  shows "segment (bss ! j) off k = segment (concat bss) (j * s + off) k"
  using assms
proof (induction bss arbitrary: j)
  case (Cons b bss)
  then show ?case by (cases j) (auto simp: segment_def)
qed simp

section \<open>Circular buffers\<close>

text \<open>
  \<open>ring_list t d r n\<close> is the content of a circular buffer of \<open>t\<close> slots stored in \<open>d\<close>: the
  \<open>n\<close> elements starting at position \<open>r\<close>, which runs on without being reduced modulo \<open>t\<close>.
\<close>

definition ring_list :: "nat \<Rightarrow> 'a list \<Rightarrow> nat \<Rightarrow> nat \<Rightarrow> 'a list" where
  "ring_list t d r n = map (\<lambda>k. d ! ((r + k) mod t)) [0..<n]"

lemma length_ring_list [simp, ring_simps]: "length (ring_list t d r n) = n"
  by (simp add: ring_list_def)

lemma ring_list_0 [simp, ring_simps]: "ring_list t d r 0 = []"
  by (simp add: ring_list_def)

lemma take_ring_list: "take n (ring_list t d r (n + k)) = ring_list t d r n"
  by (simp add: ring_list_def take_map)

lemma nth_ring_list: "k < n \<Longrightarrow> ring_list t d r n ! k = d ! ((r + k) mod t)"
  by (simp add: ring_list_def)

lemma ring_list_cong_mod:
  "r mod t = r' mod t \<Longrightarrow> ring_list t d r n = ring_list t d r' n"
  unfolding ring_list_def by (rule map_cong) (metis mod_add_left_eq)+

lemma ring_slot_distinct:
  assumes "(a :: nat) < b" and "b < a + t"
  shows "a mod t \<noteq> b mod t"
proof
  assume "a mod t = b mod t"
  then have "t dvd b - a" using assms(1) by (metis less_imp_le_nat mod_eq_dvd_iff_nat)
  moreover have "0 < b - a" "b - a < t" using assms by auto
  ultimately show False by (simp add: nat_dvd_not_less)
qed

lemma ring_write:
  assumes len: "length d = t" and fits: "n + length bs \<le> t"
    and wrap: "(r + n) mod t + length bs \<le> t"
  shows "ring_list t (overwrite d ((r + n) mod t) bs) r (n + length bs) = ring_list t d r n @ bs"
proof (rule nth_equalityI)
  fix k assume "k < length (ring_list t (overwrite d ((r + n) mod t) bs) r (n + length bs))"
  then have k: "k < n + length bs" by simp
  then have t: "0 < t" using fits by linarith
  let ?h = "(r + n) mod t"
  have nth: "overwrite d ?h bs ! ((r + k) mod t) =
      (if ?h \<le> (r + k) mod t \<and> (r + k) mod t < ?h + length bs
       then bs ! ((r + k) mod t - ?h) else d ! ((r + k) mod t))"
    using len wrap t by (intro nth_overwrite) simp_all
  show "ring_list t (overwrite d ?h bs) r (n + length bs) ! k = (ring_list t d r n @ bs) ! k"
  proof (cases "k < n")
    case True
    have "\<not> (?h \<le> (r + k) mod t \<and> (r + k) mod t < ?h + length bs)"
    proof
      assume "?h \<le> (r + k) mod t \<and> (r + k) mod t < ?h + length bs"
      then obtain e where e: "(r + k) mod t = ?h + e" "e < length bs"
        by (metis add_less_cancel_left le_Suc_ex)
      then have "?h + e < t" using wrap by linarith
      then have "(r + n + e) mod t = ?h + e" by (metis mod_add_left_eq mod_less)
      then have "(r + k) mod t = (r + n + e) mod t" using e by simp
      moreover have "r + k < r + n + e" "r + n + e < r + k + t"
        using True fits e by linarith+
      ultimately show False using ring_slot_distinct by blast
    qed
    then show ?thesis using True k nth by (auto simp: nth_ring_list nth_append)
  next
    case False
    then obtain e where e: "k = n + e" "e < length bs"
      using k by (metis add_less_cancel_left le_Suc_ex not_less)
    then have "?h + e < t" using wrap by linarith
    then have "(r + k) mod t = ?h + e" using e by (metis add.assoc mod_add_left_eq mod_less)
    then show ?thesis using False k e nth by (auto simp: nth_ring_list nth_append)
  qed
qed simp

lemma ring_take:
  assumes "length d = t" and "k \<le> n" and "r mod t + k \<le> t"
  shows "take k (ring_list t d r n) = segment d (r mod t) k"
proof (rule nth_equalityI)
  show "length (take k (ring_list t d r n)) = length (segment d (r mod t) k)"
    using assms by simp
  fix j assume "j < length (take k (ring_list t d r n))"
  then have j: "j < k" by simp
  then have "r mod t + j < t" using assms(3) by linarith
  then have "(r + j) mod t = r mod t + j" by (metis mod_add_left_eq mod_less)
  then show "take k (ring_list t d r n) ! j = segment d (r mod t) k ! j"
    using assms j by (simp add: nth_ring_list nth_segment)
qed

lemma ring_drop: "drop k (ring_list t d r n) = ring_list t d (r + k) (n - k)"
  by (rule nth_equalityI) (simp_all add: nth_ring_list add.assoc)

lemmas ring_access = ring_write ring_take ring_drop

end
