(* ===== verification/Pipe_Code.thy ===== *)
theory Pipe_Code
  imports Xv6_Prelude
begin

text \<open>
  The code of \<^verbatim>\<open>kernel/pipe.c\<close>, version by version (\<^verbatim>\<open>PIPE_VERSION\<close> 1 to 8): the
  \<^verbatim>\<open>struct pipe\<close> of each version with its C layout, and \<^verbatim>\<open>pipewrite\<close> and \<^verbatim>\<open>piperead\<close>, loop
  by loop. One pass of a loop body is one function (\<open>v1_write_iter\<close>, \<open>bulk_write_iter\<close>,
  \<open>v3_write_iter\<close> and their reading counterparts), so that the theory of concurrent pipes
  can interleave passes; \<open>write_loop\<close> and \<open>read_loop\<close> run a body until the loop is left.
  A call that reaches \<^verbatim>\<open>sleep\<close> ends in \<open>Blocked\<close>, with what it needs to go on once it has
  the pipe's lock again.

  The functions of other kernel files that this code calls are collected in the record
  \<open>kops\<close>; the theory of the kernel instance fills it with the models of those functions.
  \<^verbatim>\<open>copyin\<close> returns the bytes that were stored at its destination, also those of a prefix
  when it fails half way.
\<close>

section \<open>The operations of other components\<close>

text \<open>The two wait channels of a pipe: the addresses \<^verbatim>\<open>&pi->nread\<close> and \<^verbatim>\<open>&pi->nwrite\<close>.\<close>

datatype pipe_chan = NreadChan | NwriteChan

record 'm kops =
  op_copyin :: "'m \<Rightarrow> u64 \<Rightarrow> nat \<Rightarrow> (u8 list \<times> bool) \<times> 'm"
  op_copyout :: "'m \<Rightarrow> u64 \<Rightarrow> u8 list \<Rightarrow> bool \<times> 'm"
  op_killed :: "'m \<Rightarrow> bool"
  op_wakeup :: "pipe_chan \<Rightarrow> 'm \<Rightarrow> 'm"

section \<open>struct pipe\<close>

text \<open>
  The fields all versions have, the flat buffer of versions 1, 2 and 4 to 8 (from version 4
  on \<^verbatim>\<open>data\<close> points to a page of its own, whose address is \<open>data_pg\<close>), and the four
  sub-buffers of version 3. The lock is a field of the concurrent system.
\<close>

record pipe_hd =
  nread :: u32
  nwrite :: u32
  readopen :: bool
  writeopen :: bool

record pipe = pipe_hd +
  data :: "u8 list"
  data_pg :: u64

record pipe3 = pipe_hd +
  bufs :: "u8 list list"

definition PIPESIZE :: nat where "PIPESIZE = 512"
definition N_BUFS :: nat where "N_BUFS = 4"
definition BUFSIZE :: nat where "BUFSIZE = 512"
definition PIPE_TOTAL_v3 :: nat where "PIPE_TOTAL_v3 = N_BUFS * BUFSIZE"
definition DATA_PAGES :: nat where "DATA_PAGES = 1"
definition PIPE_TOTAL :: nat where "PIPE_TOTAL = DATA_PAGES * PGSIZE"

definition umin :: "u32 \<Rightarrow> u32 \<Rightarrow> u32" where
  "umin a b = (if a < b then a else b)"

text \<open>Buffer full and buffer empty, as the code tests them on the wrapping counters.\<close>

definition pipe_full :: "nat \<Rightarrow> 'a pipe_hd_scheme \<Rightarrow> bool" where
  "pipe_full tot pi \<longleftrightarrow> nwrite pi = nread pi + of_nat tot"

definition pipe_empty :: "'a pipe_hd_scheme \<Rightarrow> bool" where
  "pipe_empty pi \<longleftrightarrow> nread pi = nwrite pi"

section \<open>pipewrite: loop bodies\<close>

datatype ('q, 'm) witer =
    WDead \<comment> \<open>no reader left or killed: return -1\<close>
  | WFull \<comment> \<open>buffer full: wake the readers and sleep\<close>
  | WBreak 'q 'm \<comment> \<open>copyin failed\<close>
  | WCont 'q 'm int

definition v1_write_iter :: "'m kops \<Rightarrow> u64 \<Rightarrow> pipe \<Rightarrow> 'm \<Rightarrow> int \<Rightarrow> (pipe, 'm) witer" where
  "v1_write_iter K addr pi m i =
     (if \<not> readopen pi \<or> op_killed K m then WDead
      else if pipe_full PIPESIZE pi then WFull
      else case op_copyin K m (addr + word_of_int i) 1 of ((bs, ok), m') \<Rightarrow>
        if \<not> ok then WBreak pi m'
        else WCont (pi\<lparr>nwrite := nwrite pi + 1,
                       data := (data pi)[unat (nwrite pi mod of_nat PIPESIZE) := hd bs]\<rparr>)
               m' (i + 1))"

definition bulk_write_iter ::
  "nat \<Rightarrow> 'm kops \<Rightarrow> u64 \<Rightarrow> int \<Rightarrow> pipe \<Rightarrow> 'm \<Rightarrow> int \<Rightarrow> (pipe, 'm) witer" where
  "bulk_write_iter tot K addr n pi m i =
     (if \<not> readopen pi \<or> op_killed K m then WDead
      else if pipe_full tot pi then WFull
      else
        let free_slots = of_nat tot - (nwrite pi - nread pi);
            head_slot = nwrite pi mod of_nat tot;
            till_wrap = of_nat tot - head_slot;
            to_copy = sint (umin (word_of_int (n - i)) (umin free_slots till_wrap))
        in case op_copyin K m (addr + word_of_int i) (nat to_copy) of ((bs, ok), m') \<Rightarrow>
          let pi' = pi\<lparr>data := overwrite (data pi) (unat head_slot) bs\<rparr>
          in if \<not> ok then WBreak pi' m'
             else WCont (pi'\<lparr>nwrite := nwrite pi + word_of_int to_copy\<rparr>) m' (i + to_copy))"

definition v3_write_iter ::
  "'m kops \<Rightarrow> u64 \<Rightarrow> int \<Rightarrow> pipe3 \<Rightarrow> 'm \<Rightarrow> int \<Rightarrow> (pipe3, 'm) witer" where
  "v3_write_iter K addr n pi m i =
     (if \<not> readopen pi \<or> op_killed K m then WDead
      else if pipe_full PIPE_TOTAL_v3 pi then WFull
      else
        let free_slots = of_nat PIPE_TOTAL_v3 - (nwrite pi - nread pi);
            pos = nwrite pi mod of_nat PIPE_TOTAL_v3;
            buf_idx = pos div of_nat BUFSIZE;
            buf_off = pos mod of_nat BUFSIZE;
            till_buf_end = of_nat BUFSIZE - buf_off;
            to_copy = sint (umin (word_of_int (n - i)) (umin free_slots till_buf_end))
        in case op_copyin K m (addr + word_of_int i) (nat to_copy) of ((bs, ok), m') \<Rightarrow>
          let pi' = pi\<lparr>bufs := (bufs pi)[unat buf_idx :=
                         overwrite (bufs pi ! unat buf_idx) (unat buf_off) bs]\<rparr>
          in if \<not> ok then WBreak pi' m'
             else WCont (pi'\<lparr>nwrite := nwrite pi + word_of_int to_copy\<rparr>) m' (i + to_copy))"

section \<open>piperead: loop bodies\<close>

datatype ('q, 'm) riter = RBreak 'q 'm int | RCont 'q 'm int

definition v1_read_iter :: "'m kops \<Rightarrow> u64 \<Rightarrow> pipe \<Rightarrow> 'm \<Rightarrow> int \<Rightarrow> (pipe, 'm) riter" where
  "v1_read_iter K addr pi m i =
     (if pipe_empty pi then RBreak pi m i
      else
        let ch = data pi ! unat (nread pi mod of_nat PIPESIZE);
            pi' = pi\<lparr>nread := nread pi + 1\<rparr>
        in case op_copyout K m (addr + word_of_int i) [ch] of (ok, m') \<Rightarrow>
          if \<not> ok then RBreak pi' m' i else RCont pi' m' (i + 1))"

definition bulk_read_iter ::
  "nat \<Rightarrow> 'm kops \<Rightarrow> u64 \<Rightarrow> int \<Rightarrow> pipe \<Rightarrow> 'm \<Rightarrow> int \<Rightarrow> (pipe, 'm) riter" where
  "bulk_read_iter tot K addr n pi m i =
     (if pipe_empty pi then RBreak pi m i
      else
        let avail = nwrite pi - nread pi;
            tail_slot = nread pi mod of_nat tot;
            till_wrap = of_nat tot - tail_slot;
            to_copy = sint (umin (word_of_int (n - i)) (umin avail till_wrap))
        in case op_copyout K m (addr + word_of_int i)
                  (segment (data pi) (unat tail_slot) (nat to_copy)) of (ok, m') \<Rightarrow>
          if \<not> ok then RBreak pi m' (if i = 0 then -1 else i)
          else RCont (pi\<lparr>nread := nread pi + word_of_int to_copy\<rparr>) m' (i + to_copy))"

definition v3_read_iter ::
  "'m kops \<Rightarrow> u64 \<Rightarrow> int \<Rightarrow> pipe3 \<Rightarrow> 'm \<Rightarrow> int \<Rightarrow> (pipe3, 'm) riter" where
  "v3_read_iter K addr n pi m i =
     (if pipe_empty pi then RBreak pi m i
      else
        let avail = nwrite pi - nread pi;
            pos = nread pi mod of_nat PIPE_TOTAL_v3;
            buf_idx = pos div of_nat BUFSIZE;
            buf_off = pos mod of_nat BUFSIZE;
            till_buf_end = of_nat BUFSIZE - buf_off;
            to_copy = sint (umin (word_of_int (n - i)) (umin avail till_buf_end))
        in case op_copyout K m (addr + word_of_int i)
                  (segment (bufs pi ! unat buf_idx) (unat buf_off) (nat to_copy)) of (ok, m') \<Rightarrow>
          if \<not> ok then RBreak pi m' (if i = 0 then -1 else i)
          else RCont (pi\<lparr>nread := nread pi + word_of_int to_copy\<rparr>) m' (i + to_copy))"

text \<open>
  One test of the loop with which every version of \<^verbatim>\<open>piperead\<close> waits for data:
  \<^verbatim>\<open>while(pi->nread == pi->nwrite && pi->writeopen)\<close>.
\<close>

datatype rwait = RGo | RDead | RSleep

definition piperead_wait :: "'m kops \<Rightarrow> 'a pipe_hd_scheme \<Rightarrow> 'm \<Rightarrow> rwait" where
  "piperead_wait K pi m =
     (if pipe_empty pi \<and> writeopen pi then (if op_killed K m then RDead else RSleep) else RGo)"

section \<open>The loops\<close>

datatype ('q, 'm) wexit = WDone 'q 'm int | WKilled 'q 'm | WBlock 'q 'm int

partial_function (option) write_loop ::
  "('q \<Rightarrow> 'm \<Rightarrow> int \<Rightarrow> ('q, 'm) witer) \<Rightarrow> int \<Rightarrow> 'q \<Rightarrow> 'm \<Rightarrow> int \<Rightarrow> ('q, 'm) wexit option" where
  "write_loop body n q m i =
     (if i < n then
        (case body q m i of
           WDead \<Rightarrow> Some (WKilled q m)
         | WFull \<Rightarrow> Some (WBlock q m i)
         | WBreak q' m' \<Rightarrow> Some (WDone q' m' i)
         | WCont q' m' i' \<Rightarrow> write_loop body n q' m' i')
      else Some (WDone q m i))"

partial_function (option) read_loop ::
  "('q \<Rightarrow> 'm \<Rightarrow> int \<Rightarrow> ('q, 'm) riter) \<Rightarrow> int \<Rightarrow> 'q \<Rightarrow> 'm \<Rightarrow> int \<Rightarrow> ('q \<times> 'm \<times> int) option" where
  "read_loop body n q m i =
     (if i < n then
        (case body q m i of
           RBreak q' m' i' \<Rightarrow> Some (q', m', i')
         | RCont q' m' i' \<Rightarrow> read_loop body n q' m' i')
      else Some (q, m, i))"

section \<open>pipewrite and piperead, by version\<close>

text \<open>
  \<open>Ret r q m\<close>: the call returned \<open>r\<close>. \<open>Blocked c q m i\<close>: it sleeps on channel \<open>c\<close> with the
  pipe's lock released, \<open>i\<close> bytes into the transfer.
\<close>

datatype ('q, 'm) pcall = Ret int 'q 'm | Blocked pipe_chan 'q 'm int

definition eager_finish :: "'m kops \<Rightarrow> ('q, 'm) wexit \<Rightarrow> ('q, 'm) pcall" where
  "eager_finish K x = (case x of
       WDone q m i \<Rightarrow> Ret i q (op_wakeup K NreadChan m)
     | WKilled q m \<Rightarrow> Ret (-1) q m
     | WBlock q m i \<Rightarrow> Blocked NwriteChan q (op_wakeup K NreadChan m) i)"

definition lazy_finish :: "'m kops \<Rightarrow> bool \<Rightarrow> ('q, 'm) wexit \<Rightarrow> ('q, 'm) pcall" where
  "lazy_finish K need_wakeup x = (case x of
       WDone q m i \<Rightarrow> Ret i q (if need_wakeup \<and> i > 0 then op_wakeup K NreadChan m else m)
     | WKilled q m \<Rightarrow> Ret (-1) q m
     | WBlock q m i \<Rightarrow> Blocked NwriteChan q (op_wakeup K NreadChan m) i)"

definition pipewrite_v1 :: "'m kops \<Rightarrow> u64 \<Rightarrow> int \<Rightarrow> int \<Rightarrow> pipe \<Rightarrow> 'm \<Rightarrow> (pipe, 'm) pcall option" where
  "pipewrite_v1 K addr n i pi m =
     map_option (eager_finish K) (write_loop (v1_write_iter K addr) n pi m i)"

definition pipewrite_v2 :: "'m kops \<Rightarrow> u64 \<Rightarrow> int \<Rightarrow> int \<Rightarrow> pipe \<Rightarrow> 'm \<Rightarrow> (pipe, 'm) pcall option" where
  "pipewrite_v2 K addr n i pi m =
     map_option (eager_finish K) (write_loop (bulk_write_iter PIPESIZE K addr n) n pi m i)"

definition pipewrite_v3 :: "'m kops \<Rightarrow> u64 \<Rightarrow> int \<Rightarrow> int \<Rightarrow> pipe3 \<Rightarrow> 'm \<Rightarrow> (pipe3, 'm) pcall option" where
  "pipewrite_v3 K addr n i pi m =
     map_option (eager_finish K) (write_loop (v3_write_iter K addr n) n pi m i)"

definition pipewrite_v4 :: "'m kops \<Rightarrow> u64 \<Rightarrow> int \<Rightarrow> int \<Rightarrow> pipe \<Rightarrow> 'm \<Rightarrow> (pipe, 'm) pcall option" where
  "pipewrite_v4 K addr n i pi m =
     map_option (eager_finish K) (write_loop (bulk_write_iter PIPE_TOTAL K addr n) n pi m i)"

text \<open>
  Versions 5 to 8: \<open>need_wakeup\<close> is \<open>nwrite = nread\<close> when the call gets the lock for the
  first time (\<open>pipewrite_v5\<close>) and \<open>True\<close> when it goes on after a sleep.
\<close>

definition pipewrite_v5_from ::
  "'m kops \<Rightarrow> u64 \<Rightarrow> int \<Rightarrow> bool \<Rightarrow> int \<Rightarrow> pipe \<Rightarrow> 'm \<Rightarrow> (pipe, 'm) pcall option" where
  "pipewrite_v5_from K addr n need_wakeup i pi m =
     map_option (lazy_finish K need_wakeup)
       (write_loop (bulk_write_iter PIPE_TOTAL K addr n) n pi m i)"

definition pipewrite_v5 :: "'m kops \<Rightarrow> u64 \<Rightarrow> int \<Rightarrow> pipe \<Rightarrow> 'm \<Rightarrow> (pipe, 'm) pcall option" where
  "pipewrite_v5 K addr n pi m = pipewrite_v5_from K addr n (nwrite pi = nread pi) 0 pi m"

definition read_with_wait ::
  "rwait \<Rightarrow> ('q, 'm) pcall option \<Rightarrow> 'q \<Rightarrow> 'm \<Rightarrow> ('q, 'm) pcall option" where
  "read_with_wait w body pi m = (case w of
       RDead \<Rightarrow> Some (Ret (-1) pi m)
     | RSleep \<Rightarrow> Some (Blocked NreadChan pi m 0)
     | RGo \<Rightarrow> body)"

definition eager_read_finish :: "'m kops \<Rightarrow> 'q \<times> 'm \<times> int \<Rightarrow> ('q, 'm) pcall" where
  "eager_read_finish K = (\<lambda>(q, m, i). Ret i q (op_wakeup K NwriteChan m))"

definition lazy_read_finish :: "'m kops \<Rightarrow> bool \<Rightarrow> 'q \<times> 'm \<times> int \<Rightarrow> ('q, 'm) pcall" where
  "lazy_read_finish K was_full =
     (\<lambda>(q, m, i). Ret i q (if was_full \<and> i > 0 then op_wakeup K NwriteChan m else m))"

definition piperead_v1 :: "'m kops \<Rightarrow> u64 \<Rightarrow> int \<Rightarrow> pipe \<Rightarrow> 'm \<Rightarrow> (pipe, 'm) pcall option" where
  "piperead_v1 K addr n pi m = read_with_wait (piperead_wait K pi m)
     (map_option (eager_read_finish K) (read_loop (v1_read_iter K addr) n pi m 0)) pi m"

definition piperead_v2 :: "'m kops \<Rightarrow> u64 \<Rightarrow> int \<Rightarrow> pipe \<Rightarrow> 'm \<Rightarrow> (pipe, 'm) pcall option" where
  "piperead_v2 K addr n pi m = read_with_wait (piperead_wait K pi m)
     (map_option (eager_read_finish K) (read_loop (bulk_read_iter PIPESIZE K addr n) n pi m 0))
     pi m"

definition piperead_v3 :: "'m kops \<Rightarrow> u64 \<Rightarrow> int \<Rightarrow> pipe3 \<Rightarrow> 'm \<Rightarrow> (pipe3, 'm) pcall option" where
  "piperead_v3 K addr n pi m = read_with_wait (piperead_wait K pi m)
     (map_option (eager_read_finish K) (read_loop (v3_read_iter K addr n) n pi m 0)) pi m"

definition piperead_v4 :: "'m kops \<Rightarrow> u64 \<Rightarrow> int \<Rightarrow> pipe \<Rightarrow> 'm \<Rightarrow> (pipe, 'm) pcall option" where
  "piperead_v4 K addr n pi m = read_with_wait (piperead_wait K pi m)
     (map_option (eager_read_finish K) (read_loop (bulk_read_iter PIPE_TOTAL K addr n) n pi m 0))
     pi m"

definition piperead_v5 :: "'m kops \<Rightarrow> u64 \<Rightarrow> int \<Rightarrow> pipe \<Rightarrow> 'm \<Rightarrow> (pipe, 'm) pcall option" where
  "piperead_v5 K addr n pi m = read_with_wait (piperead_wait K pi m)
     (map_option (lazy_read_finish K (pipe_full PIPE_TOTAL pi))
            (read_loop (bulk_read_iter PIPE_TOTAL K addr n) n pi m 0))
     pi m"

end
