(* ===== verification/Pipe_Loops.thy ===== *)
theory Pipe_Loops
  imports Pipe_Code
begin

text \<open>
  Correctness of the sequential pipe code. The content of a pipe is the list of bytes
  between \<open>nread\<close> and \<open>nwrite\<close> (\<open>pipe_bytes\<close>); the counters are 32-bit words that wrap. The
  locales state what a loop body promises (\<open>write_body\<close>, \<open>read_body\<close>) and what the pipe code
  relies on in the kernel operations it calls (\<open>user_copy\<close>); the loops are proved correct
  once, inside them, and every version's body is shown to meet the contract.
\<close>

section \<open>Content and invariant\<close>

definition ring_size :: "nat \<Rightarrow> bool" where
  "ring_size tot \<longleftrightarrow> 0 < tot \<and> tot dvd 2 ^ 32 \<and> tot < 2 ^ 31"

definition pipe_used :: "'a pipe_hd_scheme \<Rightarrow> nat" where
  "pipe_used pi = unat (nwrite pi - nread pi)"

definition pipe_inv :: "nat \<Rightarrow> pipe \<Rightarrow> bool" where
  "pipe_inv tot pi \<longleftrightarrow> length (data pi) = tot \<and> pipe_used pi \<le> tot"

definition pipe_bytes :: "nat \<Rightarrow> pipe \<Rightarrow> u8 list" where
  "pipe_bytes tot pi = ring_list tot (data pi) (unat (nread pi)) (pipe_used pi)"

definition pipe3_inv :: "pipe3 \<Rightarrow> bool" where
  "pipe3_inv pi \<longleftrightarrow> length (bufs pi) = N_BUFS \<and> (\<forall>b \<in> set (bufs pi). length b = BUFSIZE)
     \<and> pipe_used pi \<le> PIPE_TOTAL_v3"

definition flat_of_pipe3 :: "pipe3 \<Rightarrow> pipe" where
  "flat_of_pipe3 pi = \<lparr>nread = nread pi, nwrite = nwrite pi, readopen = readopen pi,
     writeopen = writeopen pi, data = concat (bufs pi), data_pg = 0\<rparr>"

lemma ring_size_512 [simp]: "ring_size 512"
  by (simp add: ring_size_def)

lemma ring_size_2048 [simp]: "ring_size 2048"
  by (simp add: ring_size_def)

lemma ring_size_4096 [simp]: "ring_size 4096"
  by (simp add: ring_size_def)

lemma pipe_sizes [simp]:
  "PIPESIZE = 512" "PIPE_TOTAL = 4096" "PIPE_TOTAL_v3 = 2048" "BUFSIZE = 512" "N_BUFS = 4"
  by (simp_all add: PIPESIZE_def PIPE_TOTAL_def PIPE_TOTAL_v3_def BUFSIZE_def N_BUFS_def
      DATA_PAGES_def PGSIZE_def)

section \<open>Counter arithmetic\<close>

lemma sint_small: "uint (w :: u32) < 2 ^ 31 \<Longrightarrow> sint w = uint w"
  using int_word_sint [of "uint w", where 'a = 32] by simp

lemma uint_umin: "uint (umin a b) = min (uint a) (uint b)"
  by (auto simp: umin_def word_less_def min_def)

text \<open>The chunk size of every bulk version, computed without words.\<close>

lemma to_copy_eq:
  assumes "0 < k" "k < 2 ^ 31" "uint t < 2 ^ 31"
  shows "sint (umin (word_of_int k) (umin f t)) = min k (min (uint f) (uint t))"
proof -
  have k: "uint (word_of_int k :: u32) = k"
    using assms by (simp add: uint_word_of_int)
  have "uint (umin (word_of_int k) (umin f t)) = min k (min (uint f) (uint t))"
    by (simp add: uint_umin k)
  then show ?thesis using assms by (subst sint_small) auto
qed

lemma to_copy_nat:
  assumes "0 < k" "k < 2 ^ 31" "unat f = F" "unat t = T" "T < 2 ^ 31"
  shows "sint (umin (word_of_int k) (umin f t)) = int (min (nat k) (min F T))"
proof -
  have f: "uint f = int F" and t: "uint t = int T" using assms(3,4) by (metis uint_nat)+
  have "uint t < 2 ^ 31" using assms(5) t by simp
  with to_copy_eq [OF assms(1,2)] f t assms(1) show ?thesis by (simp add: of_nat_min)
qed

lemma pipe_full_iff:
  assumes "ring_size tot" shows "pipe_full tot pi \<longleftrightarrow> pipe_used pi = tot"
proof -
  have tot: "tot < 2 ^ 32" using assms by (simp add: ring_size_def)
  have "pipe_full tot pi \<longleftrightarrow> nwrite pi - nread pi = of_nat tot"
    by (auto simp: pipe_full_def algebra_simps)
  also have "\<dots> \<longleftrightarrow> unat (nwrite pi - nread pi) = unat (of_nat tot :: u32)"
    by (simp only: word_unat_eq_iff)
  also have "unat (of_nat tot :: u32) = tot" using tot by (simp add: unat_of_nat)
  finally show ?thesis by (simp add: pipe_used_def)
qed

lemma pipe_empty_iff: "pipe_empty pi \<longleftrightarrow> pipe_used pi = 0"
  by (auto simp: pipe_empty_def pipe_used_def unat_0_iff)

lemma free_slots_eq:
  assumes "ring_size tot" "pipe_used pi \<le> tot"
  shows "unat (of_nat tot - (nwrite pi - nread pi)) = tot - pipe_used pi"
  using assms unat_sub [of "nwrite pi - nread pi" "of_nat tot"]
  by (simp add: ring_size_def pipe_used_def unat_of_nat word_le_nat_alt)

lemma slot_eq:
  assumes "ring_size tot" shows "unat ((x :: u32) mod of_nat tot) = unat x mod tot"
  using assms by (simp add: ring_size_def unat_mod unat_of_nat)

lemma till_wrap_eq:
  assumes "ring_size tot"
  shows "unat (of_nat tot - (x :: u32) mod of_nat tot) = tot - unat x mod tot"
proof -
  have tot: "0 < tot" "tot < 2 ^ 32" using assms by (simp_all add: ring_size_def)
  have "unat (of_nat tot :: u32) = tot" using tot by (simp add: unat_of_nat)
  moreover have "x mod of_nat tot \<le> of_nat tot"
    using tot slot_eq [OF assms, of x] \<open>unat (of_nat tot :: u32) = tot\<close>
    by (simp add: word_le_nat_alt less_imp_le)
  ultimately show ?thesis by (simp add: unat_sub slot_eq [OF assms])
qed

text \<open>The number of bytes a writing pass moves, and a reading pass.\<close>

definition wchunk :: "nat \<Rightarrow> 'a pipe_hd_scheme \<Rightarrow> int \<Rightarrow> nat" where
  "wchunk tot pi k = min (nat k) (min (tot - pipe_used pi) (tot - unat (nwrite pi) mod tot))"

definition rchunk :: "nat \<Rightarrow> 'a pipe_hd_scheme \<Rightarrow> int \<Rightarrow> nat" where
  "rchunk tot pi k = min (nat k) (min (pipe_used pi) (tot - unat (nread pi) mod tot))"

lemma wchunk_eq:
  assumes "ring_size tot" "pipe_used pi \<le> tot" "0 < k" "k < 2 ^ 31"
  shows "sint (umin (word_of_int k) (umin (of_nat tot - (nwrite pi - nread pi))
           (of_nat tot - nwrite pi mod of_nat tot))) = int (wchunk tot pi k)"
  unfolding wchunk_def
  by (rule to_copy_nat [OF assms(3,4) free_slots_eq till_wrap_eq])
    (use assms in \<open>auto simp: ring_size_def\<close>)

lemma rchunk_eq:
  assumes "ring_size tot" "0 < k" "k < 2 ^ 31"
  shows "sint (umin (word_of_int k) (umin (nwrite pi - nread pi)
           (of_nat tot - nread pi mod of_nat tot))) = int (rchunk tot pi k)"
  unfolding rchunk_def
  by (rule to_copy_nat [OF assms(2,3) _ till_wrap_eq])
    (use assms in \<open>auto simp: ring_size_def pipe_used_def\<close>)

lemma wchunk_bounds:
  assumes "ring_size tot" "pipe_used pi < tot" "0 < k"
  shows "0 < wchunk tot pi k" "int (wchunk tot pi k) \<le> k"
    "pipe_used pi + wchunk tot pi k \<le> tot" "unat (nwrite pi) mod tot + wchunk tot pi k \<le> tot"
proof -
  have "unat (nwrite pi) mod tot < tot" using assms(1) by (simp add: ring_size_def)
  then show "0 < wchunk tot pi k" "int (wchunk tot pi k) \<le> k"
    "pipe_used pi + wchunk tot pi k \<le> tot" "unat (nwrite pi) mod tot + wchunk tot pi k \<le> tot"
    using assms(2,3) by (auto simp: wchunk_def min_def)
qed

lemma rchunk_bounds:
  assumes "ring_size tot" "0 < pipe_used pi" "0 < k"
  shows "0 < rchunk tot pi k" "int (rchunk tot pi k) \<le> k"
    "rchunk tot pi k \<le> pipe_used pi" "unat (nread pi) mod tot + rchunk tot pi k \<le> tot"
proof -
  have "unat (nread pi) mod tot < tot" using assms(1) by (simp add: ring_size_def)
  then show "0 < rchunk tot pi k" "int (rchunk tot pi k) \<le> k"
    "rchunk tot pi k \<le> pipe_used pi" "unat (nread pi) mod tot + rchunk tot pi k \<le> tot"
    using assms(2,3) by (auto simp: rchunk_def min_def)
qed

text \<open>Moving the counters: what it does to the number of used bytes and to the content.\<close>

lemma used_advance_write:
  assumes "ring_size tot" "pipe_used pi + k \<le> tot"
  shows "pipe_used (pi\<lparr>nwrite := nwrite pi + of_nat k\<rparr>) = pipe_used pi + k"
proof -
  have lt: "pipe_used pi + k < 2 ^ 32" using assms by (simp add: ring_size_def)
  then have k: "unat (of_nat k :: u32) = k" by (simp add: unat_of_nat)
  have "nwrite pi + of_nat k - nread pi = (nwrite pi - nread pi) + of_nat k" by simp
  moreover have "unat ((nwrite pi - nread pi) + of_nat k) = unat (nwrite pi - nread pi) + unat (of_nat k :: u32)"
    using lt k by (subst unat_add_lem [symmetric]) (simp add: pipe_used_def)
  ultimately show ?thesis by (simp add: pipe_used_def k algebra_simps)
qed

lemma used_advance_read:
  assumes "k \<le> pipe_used pi"
  shows "pipe_used (pi\<lparr>nread := nread pi + of_nat k\<rparr>) = pipe_used pi - k"
proof -
  have lt: "k < 2 ^ 32" using assms unat_less_pow32 [of "nwrite pi - nread pi"]
    by (simp add: pipe_used_def)
  then have k: "unat (of_nat k :: u32) = k" by (simp add: unat_of_nat)
  have "nwrite pi - (nread pi + of_nat k) = (nwrite pi - nread pi) - of_nat k" by simp
  moreover have "unat ((nwrite pi - nread pi) - of_nat k) = unat (nwrite pi - nread pi) - unat (of_nat k :: u32)"
    using assms k by (intro unat_sub) (simp add: word_le_nat_alt pipe_used_def)
  ultimately show ?thesis by (simp add: pipe_used_def k diff_diff_eq)
qed

lemma write_slot:
  assumes "ring_size tot"
  shows "(unat (nread pi) + pipe_used pi) mod tot = unat (nwrite pi) mod tot"
proof -
  have "unat (nread pi + of_nat (pipe_used pi)) mod tot = (unat (nread pi) + pipe_used pi) mod tot"
    using assms by (intro unat_add_mod_dvd) (simp add: ring_size_def)
  moreover have "nread pi + of_nat (pipe_used pi) = nwrite pi"
    by (simp add: pipe_used_def)
  ultimately show ?thesis by simp
qed

section \<open>Storing and fetching a chunk\<close>

lemma pipe_store:
  assumes "ring_size tot" "pipe_inv tot pi" "pipe_used pi + length bs \<le> tot"
    "unat (nwrite pi) mod tot + length bs \<le> tot"
  defines "pi' \<equiv> pi\<lparr>data := overwrite (data pi) (unat (nwrite pi) mod tot) bs\<rparr>"
  shows "pipe_inv tot (pi'\<lparr>nwrite := nwrite pi + of_nat (length bs)\<rparr>)"
    "pipe_bytes tot (pi'\<lparr>nwrite := nwrite pi + of_nat (length bs)\<rparr>) = pipe_bytes tot pi @ bs"
    "pipe_inv tot pi'" "pipe_bytes tot pi' = pipe_bytes tot pi"
proof -
  have len: "length (data pi) = tot" using assms(2) by (simp add: pipe_inv_def)
  have used: "pipe_used (pi'\<lparr>nwrite := nwrite pi + of_nat (length bs)\<rparr>) = pipe_used pi + length bs"
    using used_advance_write [OF assms(1,3)] by (simp add: pi'_def pipe_used_def)
  have ring: "ring_list tot (overwrite (data pi) (unat (nwrite pi) mod tot) bs) (unat (nread pi))
      (pipe_used pi + length bs) = ring_list tot (data pi) (unat (nread pi)) (pipe_used pi) @ bs"
    using ring_write [OF len assms(3), of "unat (nread pi)"] assms(4)
    by (simp only: write_slot [OF assms(1)])
  show "pipe_inv tot (pi'\<lparr>nwrite := nwrite pi + of_nat (length bs)\<rparr>)"
    using used len assms(3,4) by (simp add: pipe_inv_def pi'_def)
  show "pipe_bytes tot (pi'\<lparr>nwrite := nwrite pi + of_nat (length bs)\<rparr>) = pipe_bytes tot pi @ bs"
    using used ring by (simp add: pipe_bytes_def pi'_def)
  have used': "pipe_used pi' = pipe_used pi" by (simp add: pi'_def pipe_used_def)
  show "pipe_inv tot pi'"
    using used' len assms(2,4) by (simp add: pipe_inv_def pi'_def)
  have "ring_list tot (overwrite (data pi) (unat (nwrite pi) mod tot) bs) (unat (nread pi)) (pipe_used pi)
      = ring_list tot (data pi) (unat (nread pi)) (pipe_used pi)"
    by (subst take_ring_list [symmetric, where k = "length bs"]) (simp add: ring)
  then show "pipe_bytes tot pi' = pipe_bytes tot pi"
    using used' by (simp add: pipe_bytes_def pi'_def)
qed

lemma pipe_fetch:
  assumes "ring_size tot" "pipe_inv tot pi" "k \<le> pipe_used pi" "unat (nread pi) mod tot + k \<le> tot"
  defines "pi' \<equiv> pi\<lparr>nread := nread pi + of_nat k\<rparr>"
  shows "segment (data pi) (unat (nread pi) mod tot) k = take k (pipe_bytes tot pi)"
    "pipe_inv tot pi'" "pipe_bytes tot pi' = drop k (pipe_bytes tot pi)"
proof -
  have len: "length (data pi) = tot" using assms(2) by (simp add: pipe_inv_def)
  show "segment (data pi) (unat (nread pi) mod tot) k = take k (pipe_bytes tot pi)"
    using ring_take [OF len assms(3,4)] by (simp add: pipe_bytes_def)
  have used: "pipe_used pi' = pipe_used pi - k"
    using used_advance_read [OF assms(3)] by (simp add: pi'_def)
  show "pipe_inv tot pi'"
    using used assms(2) by (auto simp: pipe_inv_def pi'_def)
  have "unat (nread pi + of_nat k) mod tot = (unat (nread pi) + k) mod tot"
    using assms(1) by (intro unat_add_mod_dvd) (simp add: ring_size_def)
  then have "ring_list tot (data pi) (unat (nread pi + of_nat k)) (pipe_used pi - k)
      = ring_list tot (data pi) (unat (nread pi) + k) (pipe_used pi - k)"
    by (rule ring_list_cong_mod)
  then show "pipe_bytes tot pi' = drop k (pipe_bytes tot pi)"
    using used by (simp add: pipe_bytes_def pi'_def ring_drop)
qed

lemma length_pipe_bytes [simp]: "length (pipe_bytes tot pi) = pipe_used pi"
  by (simp add: pipe_bytes_def)

lemma pipe_bytes_empty [simp]: "pipe_used pi = 0 \<Longrightarrow> pipe_bytes tot pi = []"
  by (simp add: pipe_bytes_def)

section \<open>Contracts\<close>

text \<open>
  \<open>user_copy\<close>: what the pipe code relies on in \<^verbatim>\<open>copyin\<close>, whatever the state of user memory:
  it stores a prefix of the bytes asked for, and all of them when it reports success.
  \<open>user_view\<close> adds what holds for a range of user memory that is resident: \<^verbatim>\<open>copyin\<close> succeeds,
  delivers the user's bytes and changes nothing; and for a range that is also writable:
  \<^verbatim>\<open>copyout\<close> succeeds, and storing two adjacent pieces is storing them at once.
\<close>

locale user_copy =
  fixes K :: "'m kops"
  assumes copyin_len: "op_copyin K m a len = ((bs, ok), m') \<Longrightarrow> length bs \<le> len"
    and copyin_full: "op_copyin K m a len = ((bs, True), m') \<Longrightarrow> length bs = len"

locale user_view = user_copy +
  fixes resident :: "'m \<Rightarrow> u64 \<Rightarrow> nat \<Rightarrow> bool" and ubyte :: "'m \<Rightarrow> u64 \<Rightarrow> u8"
    and writable :: "'m \<Rightarrow> u64 \<Rightarrow> nat \<Rightarrow> bool" and ustore :: "'m \<Rightarrow> u64 \<Rightarrow> u8 list \<Rightarrow> 'm"
  assumes copyin_resident: "resident m a len \<Longrightarrow>
      op_copyin K m a len = ((map (\<lambda>k. ubyte m (a + of_nat k)) [0..<len], True), m)"
    and resident_sub: "resident m a len \<Longrightarrow> j + c \<le> len \<Longrightarrow> resident m (a + of_nat j) c"
    and copyout_writable: "writable m a (length bs) \<Longrightarrow> op_copyout K m a bs = (True, ustore m a bs)"
    and writable_sub: "writable m a len \<Longrightarrow> j + c \<le> len \<Longrightarrow> writable m (a + of_nat j) c"
    and writable_store: "writable m a len \<Longrightarrow> j + length bs \<le> len \<Longrightarrow>
      writable (ustore m (a + of_nat j) bs) a len"
    and store_store: "writable m a (length xs + length ys) \<Longrightarrow>
      ustore (ustore m a xs) (a + of_nat (length xs)) ys = ustore m a (xs @ ys)"
    and store_Nil: "ustore m a [] = m"

text \<open>
  The pipe at the end of a writing loop, and where the loop may end: returning after \<open>j\<close>
  bytes, giving up, or going to sleep after \<open>j\<close> bytes on a full buffer.
\<close>

primrec wexit_pipe :: "('q, 'm) wexit \<Rightarrow> 'q" where
  "wexit_pipe (WDone q m i) = q"
| "wexit_pipe (WKilled q m) = q"
| "wexit_pipe (WBlock q m i) = q"

primrec wexit_at :: "int \<Rightarrow> nat \<Rightarrow> ('q \<Rightarrow> u8 list) \<Rightarrow> int \<Rightarrow> ('q, 'm) wexit \<Rightarrow> bool" where
  "wexit_at n cap content j (WDone q m i) = (i = j)"
| "wexit_at n cap content j (WKilled q m) = True"
| "wexit_at n cap content j (WBlock q m i) = (i = j \<and> j < n \<and> length (content q) = cap)"

text \<open>
  \<open>write_body\<close>: what a pass of a writing loop does to the content of the pipe, for calls
  that stop at \<open>n\<close> bytes.
\<close>

locale write_body =
  fixes body :: "'q \<Rightarrow> 'm \<Rightarrow> int \<Rightarrow> ('q, 'm) witer" and n :: int
    and inv :: "'q \<Rightarrow> bool" and content :: "'q \<Rightarrow> u8 list" and cap :: nat
  assumes cont: "inv q \<Longrightarrow> n < 2 ^ 31 \<Longrightarrow> 0 \<le> i \<Longrightarrow> i < n \<Longrightarrow> body q m i = WCont q' m' i' \<Longrightarrow>
      \<exists>bs. bs \<noteq> [] \<and> inv q' \<and> content q' = content q @ bs \<and> i' = i + int (length bs) \<and> i' \<le> n"
    and brk: "inv q \<Longrightarrow> n < 2 ^ 31 \<Longrightarrow> 0 \<le> i \<Longrightarrow> i < n \<Longrightarrow> body q m i = WBreak q' m' \<Longrightarrow>
      inv q' \<and> content q' = content q"
    and full: "inv q \<Longrightarrow> body q m i = WFull \<Longrightarrow> length (content q) = cap"
    and bound: "inv q \<Longrightarrow> length (content q) \<le> cap"
begin

text \<open>
  A write from byte \<open>i\<close> on ends: it appends some bytes to the content, as many as it
  reports, and goes to sleep only when the buffer is full.
\<close>

lemma loop_outcome:
  assumes "n < 2 ^ 31" "inv q" "0 \<le> i" "i \<le> n"
  shows "\<exists>x bs. write_loop body n q m i = Some x \<and> inv (wexit_pipe x) \<and>
    content (wexit_pipe x) = content q @ bs \<and> i + int (length bs) \<le> n \<and>
    wexit_at n cap content (i + int (length bs)) x"
  using assms(2-)
proof (induction "nat (n - i)" arbitrary: q m i rule: less_induct)
  case less
  show ?case
  proof (cases "i < n")
    case False
    with less.prems have "write_loop body n q m i = Some (WDone q m i)"
      by (simp add: write_loop.simps)
    with less.prems show ?thesis by (intro exI [of _ "WDone q m i"] exI [of _ "[]"]) auto
  next
    case True
    show ?thesis
    proof (cases "body q m i")
      case WDead
      with True have "write_loop body n q m i = Some (WKilled q m)" by (simp add: write_loop.simps)
      with less.prems show ?thesis by (intro exI [of _ "WKilled q m"] exI [of _ "[]"]) auto
    next
      case WFull
      with True have "write_loop body n q m i = Some (WBlock q m i)" by (simp add: write_loop.simps)
      with less.prems True full [OF _ WFull] show ?thesis
        by (intro exI [of _ "WBlock q m i"] exI [of _ "[]"]) auto
    next
      case (WBreak q' m')
      with True have "write_loop body n q m i = Some (WDone q' m' i)" by (simp add: write_loop.simps)
      with less.prems brk [OF _ assms(1) _ True WBreak] show ?thesis
        by (intro exI [of _ "WDone q' m' i"] exI [of _ "[]"]) auto
    next
      case (WCont q1 m1 i1)
      with True have step: "write_loop body n q m i = write_loop body n q1 m1 i1"
        by (simp add: write_loop.simps [of body n q m i])
      from cont [OF _ assms(1) _ True WCont] less.prems obtain bs where bs: "bs \<noteq> []" "inv q1"
        "content q1 = content q @ bs" "i1 = i + int (length bs)" "i1 \<le> n" by blast
      then have "nat (n - i1) < nat (n - i)" using True by (cases bs) auto
      moreover have "0 \<le> i1" using bs(4) less.prems(2) by simp
      ultimately obtain x cs where x: "write_loop body n q1 m1 i1 = Some x" "inv (wexit_pipe x)"
        "content (wexit_pipe x) = content q1 @ cs" "i1 + int (length cs) \<le> n"
        "wexit_at n cap content (i1 + int (length cs)) x"
        using less.hyps bs(2,5) by blast
      have "i1 + int (length cs) = i + int (length (bs @ cs))" using bs(4) by simp
      then show ?thesis using x bs(3) step
        by (intro exI [of _ x] exI [of _ "bs @ cs"]) (simp only: append_assoc simp_thms)
    qed
  qed
qed

end

text \<open>
  \<open>write_feed\<close>: a loop whose passes always find their source bytes (\<open>src k\<close> is the byte
  at offset \<open>k\<close> of the user's buffer) while the pipe has a reader and the writer is not
  killed (\<open>alive\<close>). Then the result of the loop is a function of the free space alone.
\<close>

locale write_feed = write_body +
  fixes alive :: "'q \<Rightarrow> bool" and m0 :: 'm and src :: "nat \<Rightarrow> u8"
  assumes feed: "inv q \<Longrightarrow> n < 2 ^ 31 \<Longrightarrow> 0 \<le> i \<Longrightarrow> i < n \<Longrightarrow> alive q \<Longrightarrow> length (content q) < cap \<Longrightarrow>
      \<exists>q' c. body q m0 i = WCont q' m0 (i + int c) \<and> 0 < c \<and> i + int c \<le> n \<and> inv q' \<and> alive q' \<and>
        content q' = content q @ map src [nat i..<nat i + c]"
    and stop: "inv q \<Longrightarrow> alive q \<Longrightarrow> length (content q) = cap \<Longrightarrow> body q m0 i = WFull"
begin

lemma feed_outcome:
  assumes "n < 2 ^ 31" "inv q" "0 \<le> i" "i \<le> n" "alive q"
  defines "c \<equiv> min (nat (n - i)) (cap - length (content q))"
  shows "\<exists>q'. inv q' \<and> alive q' \<and> content q' = content q @ map src [nat i..<nat i + c] \<and>
    write_loop body n q m0 i =
      Some (if c = nat (n - i) then WDone q' m0 n else WBlock q' m0 (i + int c))"
  using assms(2-5) unfolding c_def
proof (induction "nat (n - i)" arbitrary: q i rule: less_induct)
  case less
  let ?c = "min (nat (n - i)) (cap - length (content q))"
  consider (fin) "i = n" | (full) "i < n" "length (content q) = cap"
    | (more) "i < n" "length (content q) < cap"
    using less.prems(3) bound [OF less.prems(1)] by linarith
  then show ?case
  proof cases
    case fin
    with less.prems show ?thesis
      by (intro exI [of _ q]) (simp add: write_loop.simps)
  next
    case full
    with less.prems stop show ?thesis
      by (intro exI [of _ q]) (simp add: write_loop.simps)
  next
    case more
    from feed [OF less.prems(1) assms(1) less.prems(2) more(1) less.prems(4) more(2)] obtain q1 d where
      d: "body q m0 i = WCont q1 m0 (i + int d)" "0 < d" "i + int d \<le> n" "inv q1" "alive q1"
        "content q1 = content q @ map src [nat i..<nat i + d]" by blast
    have step: "write_loop body n q m0 i = write_loop body n q1 m0 (i + int d)"
      using more(1) d(1) by (simp add: write_loop.simps [of body n q m0 i])
    have i: "nat (i + int d) = nat i + d" using less.prems(2) by simp
    have len: "length (content q1) = length (content q) + d" using d(6) by simp
    then have dle: "d \<le> cap - length (content q)" using bound [OF d(4)] by linarith
    let ?e = "min (nat (n - (i + int d))) (cap - length (content q1))"
    have nat_d: "nat (n - i) = d + nat (n - (i + int d))" using d(3) by linarith
    have c: "?c = d + ?e" unfolding nat_d len using dle by (simp add: min_def) arith
    have "nat (n - (i + int d)) < nat (n - i)" using d(2) more(1) by simp
    from less.hyps [OF this d(4) _ d(3) d(5)] less.prems(2) obtain q' where q':
      "inv q'" "alive q'" "content q' = content q1 @ map src [nat (i + int d)..<nat (i + int d) + ?e]"
      "write_loop body n q1 m0 (i + int d) =
        Some (if ?e = nat (n - (i + int d)) then WDone q' m0 n else WBlock q' m0 (i + int d + int ?e))"
      by auto
    have "content q' = content q @ map src ([nat i..<nat i + d] @ [nat i + d..<nat i + d + ?e])"
      using q'(3) d(6) i by simp
    also have "[nat i..<nat i + d] @ [nat i + d..<nat i + d + ?e] = [nat i..<nat i + ?c]"
      unfolding c using upt_add_eq_append [of "nat i" "nat i + d" ?e] by (simp only: add.assoc)
    finally have "content q' = content q @ map src [nat i..<nat i + ?c]" .
    moreover have "(?c = nat (n - i)) = (?e = nat (n - (i + int d)))"
      by (simp only: c) (simp only: nat_d add_left_cancel)
    moreover have "i + int ?c = i + int d + int ?e"
      by (simp only: c of_nat_add add.assoc)
    ultimately show ?thesis using q'(1,2,4) unfolding step by (intro exI [of _ q']) simp
  qed
qed

end

text \<open>
  \<open>read_body\<close>: what a pass of a reading loop does. \<open>out\<close> is \<^verbatim>\<open>copyout\<close> to offset \<open>i\<close> of the
  user's buffer; a pass that goes on has delivered the bytes it took. \<open>loss\<close> bounds what a
  pass that stops may take from the pipe without delivering it.
\<close>

locale read_body =
  fixes body :: "'q \<Rightarrow> 'm \<Rightarrow> int \<Rightarrow> ('q, 'm) riter" and n :: int
    and inv :: "'q \<Rightarrow> bool" and content :: "'q \<Rightarrow> u8 list"
    and out :: "'m \<Rightarrow> int \<Rightarrow> u8 list \<Rightarrow> bool \<times> 'm" and loss :: nat
  assumes rcont: "inv q \<Longrightarrow> n < 2 ^ 31 \<Longrightarrow> 0 \<le> i \<Longrightarrow> i < n \<Longrightarrow> body q m i = RCont q' m' i' \<Longrightarrow>
      \<exists>c. 0 < c \<and> c \<le> length (content q) \<and> inv q' \<and> content q' = drop c (content q) \<and>
        i' = i + int c \<and> i' \<le> n \<and> out m i (take c (content q)) = (True, m')"
    and rbrk: "inv q \<Longrightarrow> n < 2 ^ 31 \<Longrightarrow> 0 \<le> i \<Longrightarrow> i < n \<Longrightarrow> body q m i = RBreak q' m' i' \<Longrightarrow>
      inv q' \<and> (\<exists>e \<le> loss. content q' = drop e (content q)) \<and> (i' = i \<or> i = 0 \<and> i' = -1)"
begin

text \<open>
  A read ends; it takes the bytes it reports from the front of the content, and at most
  \<open>loss\<close> more. Only a read that got nothing reports an error.
\<close>

lemma loop_result:
  assumes "n < 2 ^ 31" "inv q" "0 \<le> i" "i \<le> n"
  shows "\<exists>q' m' r c e. read_loop body n q m i = Some (q', m', r) \<and> inv q' \<and>
    content q' = drop (c + e) (content q) \<and> c \<le> length (content q) \<and> e \<le> loss \<and>
    i + int c \<le> n \<and> (r = i + int c \<or> i = 0 \<and> c = 0 \<and> r = -1)"
  using assms(2-)
proof (induction "nat (n - i)" arbitrary: q m i rule: less_induct)
  case less
  show ?case
  proof (cases "i < n")
    case False
    with less.prems have "read_loop body n q m i = Some (q, m, i)" by (simp add: read_loop.simps)
    with less.prems show ?thesis
      by (intro exI [of _ q] exI [of _ m] exI [of _ i] exI [of _ 0]) simp
  next
    case True
    show ?thesis
    proof (cases "body q m i")
      case (RBreak q1 m1 i1)
      with True have "read_loop body n q m i = Some (q1, m1, i1)" by (simp add: read_loop.simps)
      moreover from rbrk [OF less.prems(1) assms(1) less.prems(2) True RBreak] obtain e where
        "inv q1" "e \<le> loss" "content q1 = drop e (content q)" "i1 = i \<or> i = 0 \<and> i1 = -1" by blast
      ultimately show ?thesis using less.prems
        by (intro exI [of _ q1] exI [of _ m1] exI [of _ i1] exI [of _ 0] exI [of _ e]) auto
    next
      case (RCont q1 m1 i1)
      with True have step: "read_loop body n q m i = read_loop body n q1 m1 i1"
        by (simp add: read_loop.simps [of body n q m i])
      from rcont [OF less.prems(1) assms(1) less.prems(2) True RCont] obtain c where
        c: "0 < c" "c \<le> length (content q)" "inv q1" "content q1 = drop c (content q)"
          "i1 = i + int c" "i1 \<le> n" by blast
      then have "nat (n - i1) < nat (n - i)" "0 \<le> i1" using True less.prems(2) by auto
      from less.hyps [OF this(1) c(3) this(2) c(6)] obtain q' m' r c' e where
        "read_loop body n q1 m1 i1 = Some (q', m', r)" "inv q'" "content q' = drop (c' + e) (content q1)"
        "c' \<le> length (content q1)" "e \<le> loss" "i1 + int c' \<le> n"
        "r = i1 + int c' \<or> i1 = 0 \<and> c' = 0 \<and> r = -1" by blast
      then show ?thesis using c less.prems(2) unfolding step
        by (intro exI [of _ q'] exI [of _ m'] exI [of _ r] exI [of _ "c + c'"] exI [of _ e])
          (auto simp: ac_simps)
    qed
  qed
qed

end

text \<open>
  \<open>read_drain\<close>: reading into memory that takes every byte (\<open>put m j bs\<close> stores \<open>bs\<close> at
  offset \<open>j\<close> of the user's buffer).
\<close>

locale read_drain = read_body +
  fixes okm :: "'m \<Rightarrow> bool" and put :: "'m \<Rightarrow> nat \<Rightarrow> u8 list \<Rightarrow> 'm"
  assumes drain: "inv q \<Longrightarrow> n < 2 ^ 31 \<Longrightarrow> 0 \<le> i \<Longrightarrow> i < n \<Longrightarrow> okm m \<Longrightarrow> content q \<noteq> [] \<Longrightarrow>
      \<exists>q' c. body q m i = RCont q' (put m (nat i) (take c (content q))) (i + int c) \<and> 0 < c \<and>
        c \<le> length (content q) \<and> i + int c \<le> n \<and> inv q' \<and> content q' = drop c (content q)"
    and dry: "content q = [] \<Longrightarrow> body q m i = RBreak q m i"
    and put_put: "okm m \<Longrightarrow> j + length xs + length ys \<le> nat n \<Longrightarrow>
      put (put m j xs) (j + length xs) ys = put m j (xs @ ys)"
    and put_Nil: "put m j [] = m"
    and okm_put: "okm m \<Longrightarrow> j + length xs \<le> nat n \<Longrightarrow> okm (put m j xs)"
begin

lemma drain_result:
  assumes "n < 2 ^ 31" "inv q" "0 \<le> i" "i \<le> n" "okm m"
  defines "c \<equiv> min (nat (n - i)) (length (content q))"
  shows "\<exists>q'. read_loop body n q m i = Some (q', put m (nat i) (take c (content q)), i + int c) \<and>
    inv q' \<and> content q' = drop c (content q)"
  using assms(2-5) unfolding c_def
proof (induction "nat (n - i)" arbitrary: q m i rule: less_induct)
  case less
  let ?c = "min (nat (n - i)) (length (content q))"
  consider (fin) "i = n" | (empty) "i < n" "content q = []" | (more) "i < n" "content q \<noteq> []"
    using less.prems(3) by linarith
  then show ?case
  proof cases
    case fin
    with less.prems show ?thesis by (simp add: read_loop.simps put_Nil)
  next
    case empty
    with less.prems dry show ?thesis by (simp add: read_loop.simps put_Nil)
  next
    case more
    from drain [OF less.prems(1) assms(1) less.prems(2) more(1) less.prems(4) more(2)] obtain q1 d where
      d: "body q m i = RCont q1 (put m (nat i) (take d (content q))) (i + int d)" "0 < d"
        "d \<le> length (content q)" "i + int d \<le> n" "inv q1" "content q1 = drop d (content q)" by blast
    let ?m1 = "put m (nat i) (take d (content q))"
    have step: "read_loop body n q m i = read_loop body n q1 ?m1 (i + int d)"
      using more(1) d(1) by (simp add: read_loop.simps [of body n q m i])
    have i: "nat (i + int d) = nat i + d" using less.prems(2) by simp
    have lend: "length (take d (content q)) = d" using d(3) by simp
    have fit: "nat i + d \<le> nat n" using d(4) less.prems(2) by linarith
    then have ok1: "okm ?m1" using less.prems(4) lend by (intro okm_put) simp_all
    let ?e = "min (nat (n - (i + int d))) (length (content q1))"
    have nat_d: "nat (n - i) = d + nat (n - (i + int d))" using d(4) by linarith
    have lenq: "length (content q) = d + length (content q1)" using d(3,6) by simp
    have c: "?c = d + ?e" unfolding nat_d lenq by simp
    have "nat (n - (i + int d)) < nat (n - i)" using d(2) more(1) by simp
    from less.hyps [OF this d(5) _ d(4) ok1] less.prems(2) obtain q' where q':
      "read_loop body n q1 ?m1 (i + int d)
         = Some (q', put ?m1 (nat (i + int d)) (take ?e (content q1)), i + int d + int ?e)"
      "inv q'" "content q' = drop ?e (content q1)" by auto
    have "nat i + length (take d (content q)) + length (take ?e (content q1)) \<le> nat n"
      using lend d(4) less.prems(2) by simp
    from put_put [OF less.prems(4) this] have
      "put ?m1 (nat i + d) (take ?e (content q1)) = put m (nat i) (take ?c (content q))"
      unfolding lend c d(6) by (simp only: take_add)
    moreover have "content q' = drop ?c (content q)"
      unfolding c using q'(3) d(6) by (simp only: drop_drop add.commute)
    moreover have "i + int ?c = i + int d + int ?e" by (simp only: c of_nat_add add.assoc)
    ultimately show ?thesis using q'(1,2) unfolding step i by (intro exI [of _ q']) simp
  qed
qed

end

end
