(* ===== verification/Pipe_Versions.thy ===== *)
theory Pipe_Versions
  imports Pipe_Loops
begin

text \<open>
  The loop bodies of every version meet the contracts of \<^verbatim>\<open>Pipe_Loops\<close>: version 1 (byte by
  byte), the flat bulk versions 2 and 4 to 8 (any buffer size that divides the range of the
  counters), and version 3 (four sub-buffers). The sublocales below make the loop lemmas
  available for each of them.
\<close>

section \<open>The bodies without word arithmetic\<close>

lemma bulk_write_iter_eq:
  assumes "ring_size tot" "pipe_used pi \<le> tot" "i < n" "0 \<le> i" "n < 2 ^ 31"
  shows "bulk_write_iter tot K addr n pi m i =
    (if \<not> readopen pi \<or> op_killed K m then WDead
     else if pipe_used pi = tot then WFull
     else case op_copyin K m (addr + word_of_int i) (wchunk tot pi (n - i)) of ((bs, ok), m') \<Rightarrow>
       let pi' = pi\<lparr>data := overwrite (data pi) (unat (nwrite pi) mod tot) bs\<rparr>
       in if \<not> ok then WBreak pi' m'
          else WCont (pi'\<lparr>nwrite := nwrite pi + of_nat (wchunk tot pi (n - i))\<rparr>) m'
                 (i + int (wchunk tot pi (n - i))))"
proof -
  have k: "0 < n - i" "n - i < 2 ^ 31" using assms by auto
  show ?thesis
    unfolding bulk_write_iter_def Let_def wchunk_eq [OF assms(1,2) k] pipe_full_iff [OF assms(1)]
      slot_eq [OF assms(1)] of_int_of_nat_eq nat_int by simp
qed

lemma bulk_read_iter_eq:
  assumes "ring_size tot" "i < n" "0 \<le> i" "n < 2 ^ 31"
  shows "bulk_read_iter tot K addr n pi m i =
    (if pipe_used pi = 0 then RBreak pi m i
     else case op_copyout K m (addr + word_of_int i)
                 (segment (data pi) (unat (nread pi) mod tot) (rchunk tot pi (n - i))) of (ok, m') \<Rightarrow>
       if \<not> ok then RBreak pi m' (if i = 0 then -1 else i)
       else RCont (pi\<lparr>nread := nread pi + of_nat (rchunk tot pi (n - i))\<rparr>) m'
              (i + int (rchunk tot pi (n - i))))"
proof -
  have k: "0 < n - i" "n - i < 2 ^ 31" using assms by auto
  show ?thesis
    unfolding bulk_read_iter_def Let_def rchunk_eq [OF assms(1) k] pipe_empty_iff
      slot_eq [OF assms(1)] of_int_of_nat_eq nat_int by simp
qed

lemma word_of_int_nat: "0 \<le> i \<Longrightarrow> (word_of_int i :: 'a::len word) = of_nat (nat i)"
  by (metis int_nat_eq of_int_of_nat_eq)

section \<open>Flat bulk versions\<close>

locale bulk_ring = user_copy +
  fixes tot :: nat
  assumes size: "ring_size tot"
begin

lemma bulk_write_cont:
  assumes "pipe_inv tot pi" "n < 2 ^ 31" "0 \<le> i" "i < n"
    "bulk_write_iter tot K addr n pi m i = WCont pi' m' i'"
  shows "\<exists>bs. bs \<noteq> [] \<and> pipe_inv tot pi' \<and> pipe_bytes tot pi' = pipe_bytes tot pi @ bs \<and>
    i' = i + int (length bs) \<and> i' \<le> n"
proof -
  have used: "pipe_used pi \<le> tot" using assms(1) by (simp add: pipe_inv_def)
  from assms(5) obtain bs where
    bs: "op_copyin K m (addr + word_of_int i) (wchunk tot pi (n - i)) = ((bs, True), m')"
    and lt: "pipe_used pi < tot" and i': "i' = i + int (wchunk tot pi (n - i))"
    and pi': "pi' = pi\<lparr>data := overwrite (data pi) (unat (nwrite pi) mod tot) bs,
                nwrite := nwrite pi + of_nat (wchunk tot pi (n - i))\<rparr>"
    using used unfolding bulk_write_iter_eq [OF size used assms(4,3,2)] Let_def
    by (auto split: if_splits prod.splits)
  note bnd = wchunk_bounds [OF size lt, of "n - i"]
  have len: "length bs = wchunk tot pi (n - i)" using copyin_full [OF bs] .
  have "bs \<noteq> []" using bnd(1) len assms(4) by auto
  moreover have "i' \<le> n" using bnd(2) i' assms(4) by simp
  ultimately show ?thesis
    using pipe_store [OF size assms(1), of bs] bnd assms(4) len i' pi' by auto
qed

lemma bulk_write_brk:
  assumes "pipe_inv tot pi" "n < 2 ^ 31" "0 \<le> i" "i < n"
    "bulk_write_iter tot K addr n pi m i = WBreak pi' m'"
  shows "pipe_inv tot pi' \<and> pipe_bytes tot pi' = pipe_bytes tot pi"
proof -
  have used: "pipe_used pi \<le> tot" using assms(1) by (simp add: pipe_inv_def)
  from assms(5) obtain bs ok where
    bs: "op_copyin K m (addr + word_of_int i) (wchunk tot pi (n - i)) = ((bs, ok), m')"
    and lt: "pipe_used pi < tot"
    and pi': "pi' = pi\<lparr>data := overwrite (data pi) (unat (nwrite pi) mod tot) bs\<rparr>"
    using used unfolding bulk_write_iter_eq [OF size used assms(4,3,2)] Let_def
    by (auto split: if_splits prod.splits)
  show ?thesis
    using pipe_store [OF size assms(1), of bs] wchunk_bounds [OF size lt, of "n - i"]
      copyin_len [OF bs] assms(4) pi' by auto
qed

lemma bulk_write_full:
  assumes "pipe_inv tot pi" "bulk_write_iter tot K addr n pi m i = WFull"
  shows "length (pipe_bytes tot pi) = tot"
  using assms(2) by (simp add: bulk_write_iter_def pipe_full_iff [OF size] Let_def
      split: if_splits prod.splits)

lemma pipe_bytes_bound: "pipe_inv tot pi \<Longrightarrow> length (pipe_bytes tot pi) \<le> tot"
  by (simp add: pipe_inv_def)

lemma bulk_read_cont:
  assumes "pipe_inv tot pi" "n < 2 ^ 31" "0 \<le> i" "i < n"
    "bulk_read_iter tot K addr n pi m i = RCont pi' m' i'"
  shows "\<exists>c. 0 < c \<and> c \<le> length (pipe_bytes tot pi) \<and> pipe_inv tot pi' \<and>
    pipe_bytes tot pi' = drop c (pipe_bytes tot pi) \<and> i' = i + int c \<and> i' \<le> n \<and>
    op_copyout K m (addr + word_of_int i) (take c (pipe_bytes tot pi)) = (True, m')"
proof -
  let ?c = "rchunk tot pi (n - i)"
  from assms(5) have *: "0 < pipe_used pi" "i' = i + int ?c"
    "op_copyout K m (addr + word_of_int i) (segment (data pi) (unat (nread pi) mod tot) ?c) = (True, m')"
    "pi' = pi\<lparr>nread := nread pi + of_nat ?c\<rparr>"
    unfolding bulk_read_iter_eq [OF size assms(4,3,2)] by (auto split: if_splits prod.splits)
  show ?thesis
    using pipe_fetch [OF size assms(1), of ?c] rchunk_bounds [OF size *(1), of "n - i"] assms(4) *
    by (intro exI [of _ ?c]) simp
qed

lemma bulk_read_brk:
  assumes "pipe_inv tot pi" "n < 2 ^ 31" "0 \<le> i" "i < n"
    "bulk_read_iter tot K addr n pi m i = RBreak pi' m' i'"
  shows "pipe_inv tot pi' \<and> (\<exists>e \<le> 0. pipe_bytes tot pi' = drop e (pipe_bytes tot pi)) \<and>
    (i' = i \<or> i = 0 \<and> i' = -1)"
  using assms(1,5) unfolding bulk_read_iter_eq [OF size assms(4,3,2)]
  by (auto split: if_splits prod.splits)

end

sublocale bulk_ring \<subseteq> bw: write_body "bulk_write_iter tot K addr n" n "pipe_inv tot" "pipe_bytes tot" tot
  for addr n
  by unfold_locales (fact bulk_write_cont bulk_write_brk bulk_write_full pipe_bytes_bound)+

sublocale bulk_ring \<subseteq> br: read_body "bulk_read_iter tot K addr n" n "pipe_inv tot" "pipe_bytes tot"
  "\<lambda>m i. op_copyout K m (addr + word_of_int i)" 0
  for addr n
  by unfold_locales (fact bulk_read_cont bulk_read_brk)+

section \<open>Version 1\<close>

lemma v1_store:
  fixes b :: u8
  assumes "pipe_inv PIPESIZE pi" "pipe_used pi < PIPESIZE"
  defines "pi' \<equiv> pi\<lparr>nwrite := nwrite pi + 1, data := (data pi)[unat (nwrite pi mod of_nat PIPESIZE) := b]\<rparr>"
  shows "pipe_inv PIPESIZE pi'" "pipe_bytes PIPESIZE pi' = pipe_bytes PIPESIZE pi @ [b]"
proof -
  have size: "ring_size PIPESIZE" by simp
  have slot: "unat (nwrite pi) mod PIPESIZE < PIPESIZE" by simp
  have "pi' = pi\<lparr>data := overwrite (data pi) (unat (nwrite pi) mod PIPESIZE) [b],
      nwrite := nwrite pi + of_nat (length [b])\<rparr>"
    using assms(1) slot unfolding pi'_def slot_eq [OF size] pipe_inv_def
    by (simp add: overwrite_single)
  then show "pipe_inv PIPESIZE pi'" "pipe_bytes PIPESIZE pi' = pipe_bytes PIPESIZE pi @ [b]"
    using pipe_store [OF size assms(1), of "[b]"] assms(2) slot by simp_all
qed

context user_copy
begin

lemma v1_write_cont:
  assumes "pipe_inv PIPESIZE pi" "n < 2 ^ 31" "0 \<le> i" "i < n"
    "v1_write_iter K addr pi m i = WCont pi' m' i'"
  shows "\<exists>bs. bs \<noteq> [] \<and> pipe_inv PIPESIZE pi' \<and> pipe_bytes PIPESIZE pi' = pipe_bytes PIPESIZE pi @ bs \<and>
    i' = i + int (length bs) \<and> i' \<le> n"
proof -
  have "\<not> pipe_full PIPESIZE pi" using assms(5) by (auto simp: v1_write_iter_def split: if_splits)
  then have lt: "pipe_used pi < PIPESIZE"
    using assms(1) by (simp add: pipe_full_iff pipe_inv_def)
  from assms(5) obtain b where "pi' = pi\<lparr>nwrite := nwrite pi + 1,
      data := (data pi)[unat (nwrite pi mod of_nat PIPESIZE) := b]\<rparr>" "i' = i + 1"
    by (auto simp: v1_write_iter_def split: if_splits prod.splits)
  with v1_store [OF assms(1) lt, of b] assms(4) show ?thesis by (intro exI [of _ "[b]"]) simp
qed

lemma v1_write_brk:
  assumes "pipe_inv PIPESIZE pi" "n < 2 ^ 31" "0 \<le> i" "i < n"
    "v1_write_iter K addr pi m i = WBreak pi' m'"
  shows "pipe_inv PIPESIZE pi' \<and> pipe_bytes PIPESIZE pi' = pipe_bytes PIPESIZE pi"
  using assms(1,5) by (auto simp: v1_write_iter_def split: if_splits prod.splits)

lemma v1_write_full:
  assumes "pipe_inv PIPESIZE pi" "v1_write_iter K addr pi m i = WFull"
  shows "length (pipe_bytes PIPESIZE pi) = PIPESIZE"
  using assms(2) by (simp add: v1_write_iter_def pipe_full_iff split: if_splits prod.splits)

lemma v1_bytes_bound: "pipe_inv PIPESIZE pi \<Longrightarrow> length (pipe_bytes PIPESIZE pi) \<le> PIPESIZE"
  by (simp add: pipe_inv_def)

lemma v1_read_iter_eq:
  assumes "pipe_inv PIPESIZE pi" "pipe_used pi \<noteq> 0"
  shows "v1_read_iter K addr pi m i =
    (case op_copyout K m (addr + word_of_int i) (take 1 (pipe_bytes PIPESIZE pi)) of (ok, m') \<Rightarrow>
       if \<not> ok then RBreak (pi\<lparr>nread := nread pi + of_nat 1\<rparr>) m' i
       else RCont (pi\<lparr>nread := nread pi + of_nat 1\<rparr>) m' (i + 1))"
proof -
  have size: "ring_size PIPESIZE" by simp
  have len: "length (data pi) = PIPESIZE" using assms(1) by (simp add: pipe_inv_def)
  have slot: "unat (nread pi) mod PIPESIZE + 1 \<le> PIPESIZE" by simp
  have "take 1 (pipe_bytes PIPESIZE pi) = segment (data pi) (unat (nread pi) mod PIPESIZE) 1"
    using pipe_fetch(1) [OF size assms(1) _ slot] assms(2) by simp
  also have "\<dots> = [data pi ! (unat (nread pi) mod PIPESIZE)]"
    using len slot by (simp add: segment_def take_Suc_conv_app_nth hd_drop_conv_nth)
  finally show ?thesis
    using assms(2) unfolding v1_read_iter_def Let_def pipe_empty_iff slot_eq [OF size]
      of_nat_1 by simp
qed

lemma v1_read_cont:
  assumes "pipe_inv PIPESIZE pi" "n < 2 ^ 31" "0 \<le> i" "i < n"
    "v1_read_iter K addr pi m i = RCont pi' m' i'"
  shows "\<exists>c. 0 < c \<and> c \<le> length (pipe_bytes PIPESIZE pi) \<and> pipe_inv PIPESIZE pi' \<and>
    pipe_bytes PIPESIZE pi' = drop c (pipe_bytes PIPESIZE pi) \<and> i' = i + int c \<and> i' \<le> n \<and>
    op_copyout K m (addr + word_of_int i) (take c (pipe_bytes PIPESIZE pi)) = (True, m')"
proof -
  have ne: "pipe_used pi \<noteq> 0" using assms(5)
    by (auto simp: v1_read_iter_def pipe_empty_iff split: if_splits)
  have slot: "unat (nread pi) mod PIPESIZE + 1 \<le> PIPESIZE" by simp
  show ?thesis
    using pipe_fetch [of PIPESIZE pi 1] assms(1,4,5) ne slot unfolding v1_read_iter_eq [OF assms(1) ne]
    by (intro exI [of _ 1]) (auto split: if_splits prod.splits)
qed

lemma v1_read_brk:
  assumes "pipe_inv PIPESIZE pi" "n < 2 ^ 31" "0 \<le> i" "i < n"
    "v1_read_iter K addr pi m i = RBreak pi' m' i'"
  shows "pipe_inv PIPESIZE pi' \<and>
    (\<exists>e \<le> 1. pipe_bytes PIPESIZE pi' = drop e (pipe_bytes PIPESIZE pi)) \<and> (i' = i \<or> i = 0 \<and> i' = -1)"
proof (cases "pipe_used pi = 0")
  case True
  then show ?thesis using assms(1,5) by (auto simp: v1_read_iter_def pipe_empty_iff)
next
  case False
  have slot: "unat (nread pi) mod PIPESIZE + 1 \<le> PIPESIZE" by simp
  show ?thesis
    using pipe_fetch [of PIPESIZE pi 1] assms(1,5) False slot unfolding v1_read_iter_eq [OF assms(1) False]
    by (auto split: if_splits prod.splits)
qed

end

sublocale user_copy \<subseteq> v1w: write_body "v1_write_iter K addr" n "pipe_inv PIPESIZE" "pipe_bytes PIPESIZE" PIPESIZE
  for addr n
  by unfold_locales (fact v1_write_cont v1_write_brk v1_write_full v1_bytes_bound)+

sublocale user_copy \<subseteq> v1r: read_body "v1_read_iter K addr" n "pipe_inv PIPESIZE" "pipe_bytes PIPESIZE"
  "\<lambda>m i. op_copyout K m (addr + word_of_int i)" 1
  for addr n
  by unfold_locales (fact v1_read_cont v1_read_brk)+

section \<open>Version 3\<close>

definition wchunk3 :: "'a pipe_hd_scheme \<Rightarrow> int \<Rightarrow> nat" where
  "wchunk3 pi k = min (nat k) (min (2048 - pipe_used pi) (512 - unat (nwrite pi) mod 512))"

definition rchunk3 :: "'a pipe_hd_scheme \<Rightarrow> int \<Rightarrow> nat" where
  "rchunk3 pi k = min (nat k) (min (pipe_used pi) (512 - unat (nread pi) mod 512))"

abbreviation pipe3_bytes :: "pipe3 \<Rightarrow> u8 list" where
  "pipe3_bytes pi \<equiv> pipe_bytes 2048 (flat_of_pipe3 pi)"

lemma flat_of_pipe3_simps [simp]:
  "nread (flat_of_pipe3 pi) = nread pi" "nwrite (flat_of_pipe3 pi) = nwrite pi"
  "readopen (flat_of_pipe3 pi) = readopen pi" "writeopen (flat_of_pipe3 pi) = writeopen pi"
  "data (flat_of_pipe3 pi) = concat (bufs pi)" "pipe_used (flat_of_pipe3 pi) = pipe_used pi"
  by (simp_all add: flat_of_pipe3_def pipe_used_def)

lemma flat_inv: "pipe3_inv pi \<Longrightarrow> pipe_inv 2048 (flat_of_pipe3 pi)"
  using length_concat_rows [of "bufs pi" 512] by (simp add: pipe3_inv_def pipe_inv_def)

lemma row_col:
  "unat ((x :: u32) mod 2048 div 512) = unat x mod 2048 div 512"
  "unat ((x :: u32) mod 2048 mod 512) = unat x mod 512"
  by (simp_all add: unat_div unat_mod mod_mod_cancel)

lemma row_col_pos: "(x mod 2048 div 512) * 512 + x mod 512 = x mod (2048 :: nat)"
proof -
  have "x mod 512 = x mod 2048 mod 512" by (simp add: mod_mod_cancel)
  then show ?thesis by (simp add: div_mult_mod_eq)
qed

lemma row_bound: "x mod 2048 div 512 < (4 :: nat)"
proof -
  have "x mod 2048 < 4 * 512" by simp
  then show ?thesis by (simp only: less_mult_imp_div_less)
qed

lemma till_buf_end_eq: "unat (512 - (x :: u32) mod 2048 mod 512) = 512 - unat x mod 512"
proof -
  have "x mod 2048 mod 512 \<le> 512" by (simp add: word_le_nat_alt row_col less_imp_le)
  then show ?thesis by (simp add: unat_sub row_col)
qed

lemma wchunk3_eq:
  assumes "pipe_used pi \<le> 2048" "0 < k" "k < 2 ^ 31"
  shows "sint (umin (word_of_int k) (umin (2048 - (nwrite pi - nread pi))
           (512 - nwrite pi mod 2048 mod 512))) = int (wchunk3 pi k)"
proof -
  have f: "unat (2048 - (nwrite pi - nread pi)) = 2048 - pipe_used pi"
    using free_slots_eq [of 2048 pi] assms(1) by simp
  show ?thesis
    unfolding wchunk3_def by (rule to_copy_nat [OF assms(2,3) f till_buf_end_eq]) simp
qed

lemma rchunk3_eq:
  assumes "0 < k" "k < 2 ^ 31"
  shows "sint (umin (word_of_int k) (umin (nwrite pi - nread pi)
           (512 - nread pi mod 2048 mod 512))) = int (rchunk3 pi k)"
  unfolding rchunk3_def
  by (rule to_copy_nat [OF assms _ till_buf_end_eq]) (simp_all add: pipe_used_def)

lemma mod_512_le_2048: "x mod 2048 + c \<le> (2048 :: nat)" if "x mod 512 + c \<le> 512"
proof -
  have "x mod 2048 div 512 \<le> 3" using row_bound [of x] by simp
  then show ?thesis using that row_col_pos [of x] by linarith
qed

lemma wchunk3_bounds:
  assumes "pipe_used pi < 2048" "0 < k"
  shows "0 < wchunk3 pi k" "int (wchunk3 pi k) \<le> k" "pipe_used pi + wchunk3 pi k \<le> 2048"
    "unat (nwrite pi) mod 512 + wchunk3 pi k \<le> 512"
proof -
  have "unat (nwrite pi) mod 512 < 512" by simp
  then show "0 < wchunk3 pi k" "int (wchunk3 pi k) \<le> k" "pipe_used pi + wchunk3 pi k \<le> 2048"
    "unat (nwrite pi) mod 512 + wchunk3 pi k \<le> 512"
    using assms by (auto simp: wchunk3_def min_def)
qed

lemma rchunk3_bounds:
  assumes "0 < pipe_used pi" "0 < k"
  shows "0 < rchunk3 pi k" "int (rchunk3 pi k) \<le> k" "rchunk3 pi k \<le> pipe_used pi"
    "unat (nread pi) mod 512 + rchunk3 pi k \<le> 512"
proof -
  have "unat (nread pi) mod 512 < 512" by simp
  then show "0 < rchunk3 pi k" "int (rchunk3 pi k) \<le> k" "rchunk3 pi k \<le> pipe_used pi"
    "unat (nread pi) mod 512 + rchunk3 pi k \<le> 512"
    using assms by (auto simp: rchunk3_def min_def)
qed

text \<open>Storing into and fetching from one sub-buffer, seen in the flat buffer.\<close>

lemma v3_store:
  fixes bs :: "u8 list"
  assumes "pipe3_inv pi" "pipe_used pi + length bs \<le> 2048" "unat (nwrite pi) mod 512 + length bs \<le> 512"
  defines "r \<equiv> unat (nwrite pi) mod 2048 div 512"
  defines "pi' \<equiv> pi\<lparr>bufs := (bufs pi)[r := overwrite (bufs pi ! r) (unat (nwrite pi) mod 512) bs]\<rparr>"
  shows "pipe3_inv (pi'\<lparr>nwrite := nwrite pi + of_nat (length bs)\<rparr>)"
    "pipe3_bytes (pi'\<lparr>nwrite := nwrite pi + of_nat (length bs)\<rparr>) = pipe3_bytes pi @ bs"
    "pipe3_inv pi'" "pipe3_bytes pi' = pipe3_bytes pi"
proof -
  have size: "ring_size 2048" by simp
  have r: "r < length (bufs pi)" using assms(1) row_bound by (simp add: r_def pipe3_inv_def)
  have rows: "\<forall>b \<in> set (bufs pi). length b = 512" using assms(1) by (simp add: pipe3_inv_def)
  have rows': "\<forall>b \<in> set (bufs pi'). length b = 512"
  proof
    fix b assume "b \<in> set (bufs pi')"
    then consider "b = overwrite (bufs pi ! r) (unat (nwrite pi) mod 512) bs" | "b \<in> set (bufs pi)"
      unfolding pi'_def using set_update_subset_insert by fastforce
    then show "length b = 512" using rows r assms(3) by cases simp_all
  qed
  have flat: "concat (bufs pi') = overwrite (concat (bufs pi)) (unat (nwrite pi) mod 2048) bs"
    using concat_overwrite_row [OF rows r assms(3)] by (simp add: pi'_def r_def row_col_pos)
  have F: "flat_of_pipe3 pi' = (flat_of_pipe3 pi)\<lparr>data :=
      overwrite (data (flat_of_pipe3 pi)) (unat (nwrite (flat_of_pipe3 pi)) mod 2048) bs\<rparr>"
    using flat by (simp add: flat_of_pipe3_def pi'_def)
  have Fn: "flat_of_pipe3 (pi'\<lparr>nwrite := nwrite pi + of_nat (length bs)\<rparr>)
      = (flat_of_pipe3 pi')\<lparr>nwrite := nwrite (flat_of_pipe3 pi) + of_nat (length bs)\<rparr>"
    by (simp add: flat_of_pipe3_def)
  note st = pipe_store [OF size flat_inv [OF assms(1)], of bs, folded F, folded Fn]
  have fits: "pipe_used (flat_of_pipe3 pi) + length bs \<le> 2048"
    "unat (nwrite (flat_of_pipe3 pi)) mod 2048 + length bs \<le> 2048"
    using assms(2) mod_512_le_2048 [OF assms(3)] by simp_all
  show "pipe3_bytes (pi'\<lparr>nwrite := nwrite pi + of_nat (length bs)\<rparr>) = pipe3_bytes pi @ bs"
    "pipe3_bytes pi' = pipe3_bytes pi" using st(2,4) [OF fits] by simp_all
  have "length (bufs pi') = 4" using assms(1) by (simp add: pi'_def pipe3_inv_def)
  then show "pipe3_inv (pi'\<lparr>nwrite := nwrite pi + of_nat (length bs)\<rparr>)" "pipe3_inv pi'"
    using rows' st(1,3) [OF fits] by (simp_all add: pipe3_inv_def pipe_inv_def pipe_used_def)
qed

lemma v3_fetch:
  assumes "pipe3_inv pi" "k \<le> pipe_used pi" "unat (nread pi) mod 512 + k \<le> 512"
  defines "r \<equiv> unat (nread pi) mod 2048 div 512" and "pi' \<equiv> pi\<lparr>nread := nread pi + of_nat k\<rparr>"
  shows "segment (bufs pi ! r) (unat (nread pi) mod 512) k = take k (pipe3_bytes pi)"
    "pipe3_inv pi'" "pipe3_bytes pi' = drop k (pipe3_bytes pi)"
proof -
  have size: "ring_size 2048" by simp
  have r: "r < length (bufs pi)" using assms(1) row_bound by (simp add: r_def pipe3_inv_def)
  have rows: "\<forall>b \<in> set (bufs pi). length b = 512" using assms(1) by (simp add: pipe3_inv_def)
  have F: "flat_of_pipe3 pi' = (flat_of_pipe3 pi)\<lparr>nread := nread (flat_of_pipe3 pi) + of_nat k\<rparr>"
    by (simp add: flat_of_pipe3_def pi'_def)
  note ft = pipe_fetch [OF size flat_inv [OF assms(1)], of k, folded F]
  have fits: "k \<le> pipe_used (flat_of_pipe3 pi)" "unat (nread (flat_of_pipe3 pi)) mod 2048 + k \<le> 2048"
    using assms(2) mod_512_le_2048 [OF assms(3)] by simp_all
  show "segment (bufs pi ! r) (unat (nread pi) mod 512) k = take k (pipe3_bytes pi)"
    using segment_concat_row [OF rows r assms(3)] ft(1) [OF fits] by (simp add: r_def row_col_pos)
  show "pipe3_bytes pi' = drop k (pipe3_bytes pi)" using ft(3) [OF fits] .
  show "pipe3_inv pi'"
    using assms(1) ft(2) [OF fits] by (simp add: pipe3_inv_def pipe_inv_def pi'_def pipe_used_def)
qed

lemma v3_write_iter_eq:
  assumes "pipe_used pi \<le> 2048" "i < n" "0 \<le> i" "n < 2 ^ 31"
  shows "v3_write_iter K addr n pi m i =
    (if \<not> readopen pi \<or> op_killed K m then WDead
     else if pipe_used pi = 2048 then WFull
     else case op_copyin K m (addr + word_of_int i) (wchunk3 pi (n - i)) of ((bs, ok), m') \<Rightarrow>
       let r = unat (nwrite pi) mod 2048 div 512;
           pi' = pi\<lparr>bufs := (bufs pi)[r := overwrite (bufs pi ! r) (unat (nwrite pi) mod 512) bs]\<rparr>
       in if \<not> ok then WBreak pi' m'
          else WCont (pi'\<lparr>nwrite := nwrite pi + of_nat (wchunk3 pi (n - i))\<rparr>) m'
                 (i + int (wchunk3 pi (n - i))))"
proof -
  have k: "0 < n - i" "n - i < 2 ^ 31" using assms by auto
  have full: "pipe_full 2048 pi \<longleftrightarrow> pipe_used pi = 2048" by (simp add: pipe_full_iff)
  show ?thesis
    unfolding v3_write_iter_def Let_def pipe_sizes of_nat_numeral wchunk3_eq [OF assms(1) k] full
      row_col of_int_of_nat_eq nat_int by simp
qed

lemma v3_read_iter_eq:
  assumes "i < n" "0 \<le> i" "n < 2 ^ 31"
  shows "v3_read_iter K addr n pi m i =
    (if pipe_used pi = 0 then RBreak pi m i
     else case op_copyout K m (addr + word_of_int i)
                 (segment (bufs pi ! (unat (nread pi) mod 2048 div 512)) (unat (nread pi) mod 512)
                    (rchunk3 pi (n - i))) of (ok, m') \<Rightarrow>
       if \<not> ok then RBreak pi m' (if i = 0 then -1 else i)
       else RCont (pi\<lparr>nread := nread pi + of_nat (rchunk3 pi (n - i))\<rparr>) m'
              (i + int (rchunk3 pi (n - i))))"
proof -
  have k: "0 < n - i" "n - i < 2 ^ 31" using assms by auto
  show ?thesis
    unfolding v3_read_iter_def Let_def pipe_sizes of_nat_numeral rchunk3_eq [OF k] pipe_empty_iff
      row_col of_int_of_nat_eq nat_int by simp
qed

context user_copy
begin

lemma v3_write_cont:
  assumes "pipe3_inv pi" "n < 2 ^ 31" "0 \<le> i" "i < n" "v3_write_iter K addr n pi m i = WCont pi' m' i'"
  shows "\<exists>bs. bs \<noteq> [] \<and> pipe3_inv pi' \<and> pipe3_bytes pi' = pipe3_bytes pi @ bs \<and>
    i' = i + int (length bs) \<and> i' \<le> n"
proof -
  have used: "pipe_used pi \<le> 2048" using assms(1) by (simp add: pipe3_inv_def)
  let ?r = "unat (nwrite pi) mod 2048 div 512"
  from assms(5) obtain bs where
    bs: "op_copyin K m (addr + word_of_int i) (wchunk3 pi (n - i)) = ((bs, True), m')"
    and lt: "pipe_used pi < 2048" and i': "i' = i + int (wchunk3 pi (n - i))"
    and pi': "pi' = pi\<lparr>bufs := (bufs pi)[?r := overwrite (bufs pi ! ?r) (unat (nwrite pi) mod 512) bs],
                nwrite := nwrite pi + of_nat (wchunk3 pi (n - i))\<rparr>"
    using used unfolding v3_write_iter_eq [OF used assms(4,3,2)] Let_def
    by (auto split: if_splits prod.splits)
  note bnd = wchunk3_bounds [OF lt, of "n - i"]
  have len: "length bs = wchunk3 pi (n - i)" using copyin_full [OF bs] .
  have "bs \<noteq> []" using bnd(1) len assms(4) by auto
  moreover have "i' \<le> n" using bnd(2) i' assms(4) by simp
  ultimately show ?thesis
    using v3_store [OF assms(1), of bs] bnd assms(4) len i' pi' by auto
qed

lemma v3_write_brk:
  assumes "pipe3_inv pi" "n < 2 ^ 31" "0 \<le> i" "i < n" "v3_write_iter K addr n pi m i = WBreak pi' m'"
  shows "pipe3_inv pi' \<and> pipe3_bytes pi' = pipe3_bytes pi"
proof -
  have used: "pipe_used pi \<le> 2048" using assms(1) by (simp add: pipe3_inv_def)
  let ?r = "unat (nwrite pi) mod 2048 div 512"
  from assms(5) obtain bs ok where
    bs: "op_copyin K m (addr + word_of_int i) (wchunk3 pi (n - i)) = ((bs, ok), m')"
    and lt: "pipe_used pi < 2048"
    and pi': "pi' = pi\<lparr>bufs := (bufs pi)[?r := overwrite (bufs pi ! ?r) (unat (nwrite pi) mod 512) bs]\<rparr>"
    using used unfolding v3_write_iter_eq [OF used assms(4,3,2)] Let_def
    by (auto split: if_splits prod.splits)
  show ?thesis
    using v3_store [OF assms(1), of bs] wchunk3_bounds [OF lt, of "n - i"]
      copyin_len [OF bs] assms(4) pi' by auto
qed

lemma v3_write_full:
  assumes "pipe3_inv pi" "v3_write_iter K addr n pi m i = WFull"
  shows "length (pipe3_bytes pi) = 2048"
  using assms(2) by (simp add: v3_write_iter_def pipe_full_iff Let_def split: if_splits prod.splits)

lemma v3_bytes_bound: "pipe3_inv pi \<Longrightarrow> length (pipe3_bytes pi) \<le> 2048"
  by (simp add: pipe3_inv_def)

lemma v3_read_cont:
  assumes "pipe3_inv pi" "n < 2 ^ 31" "0 \<le> i" "i < n" "v3_read_iter K addr n pi m i = RCont pi' m' i'"
  shows "\<exists>c. 0 < c \<and> c \<le> length (pipe3_bytes pi) \<and> pipe3_inv pi' \<and>
    pipe3_bytes pi' = drop c (pipe3_bytes pi) \<and> i' = i + int c \<and> i' \<le> n \<and>
    op_copyout K m (addr + word_of_int i) (take c (pipe3_bytes pi)) = (True, m')"
proof -
  let ?c = "rchunk3 pi (n - i)"
  from assms(5) have *: "0 < pipe_used pi" "i' = i + int ?c"
    "op_copyout K m (addr + word_of_int i)
       (segment (bufs pi ! (unat (nread pi) mod 2048 div 512)) (unat (nread pi) mod 512) ?c) = (True, m')"
    "pi' = pi\<lparr>nread := nread pi + of_nat ?c\<rparr>"
    unfolding v3_read_iter_eq [OF assms(4,3,2)] by (auto split: if_splits prod.splits)
  show ?thesis
    using v3_fetch [OF assms(1), of ?c] rchunk3_bounds [OF *(1), of "n - i"] assms(4) *
    by (intro exI [of _ ?c]) simp
qed

lemma v3_read_brk:
  assumes "pipe3_inv pi" "n < 2 ^ 31" "0 \<le> i" "i < n" "v3_read_iter K addr n pi m i = RBreak pi' m' i'"
  shows "pipe3_inv pi' \<and> (\<exists>e \<le> 0. pipe3_bytes pi' = drop e (pipe3_bytes pi)) \<and>
    (i' = i \<or> i = 0 \<and> i' = -1)"
  using assms(1,5) unfolding v3_read_iter_eq [OF assms(4,3,2)]
  by (auto split: if_splits prod.splits)

end

sublocale user_copy \<subseteq> v3w: write_body "v3_write_iter K addr n" n pipe3_inv pipe3_bytes 2048
  for addr n
  by unfold_locales (fact v3_write_cont v3_write_brk v3_write_full v3_bytes_bound)+

sublocale user_copy \<subseteq> v3r: read_body "v3_read_iter K addr n" n pipe3_inv pipe3_bytes
  "\<lambda>m i. op_copyout K m (addr + word_of_int i)" 0
  for addr n
  by unfold_locales (fact v3_read_cont v3_read_brk)+

section \<open>Writing from resident memory, reading into writable memory\<close>

context user_view
begin

lemma copyin_piece:
  assumes "resident m addr (nat n)" "0 \<le> i" "i + int c \<le> n"
  shows "op_copyin K m (addr + word_of_int i) c
    = ((map (\<lambda>k. ubyte m (addr + of_nat k)) [nat i..<nat i + c], True), m)"
proof -
  have "resident m (addr + of_nat (nat i)) c"
    using assms by (intro resident_sub [OF assms(1)]) linarith
  moreover have "map (\<lambda>k. ubyte m (addr + of_nat (nat i) + of_nat k)) [0..<c]
      = map (\<lambda>k. ubyte m (addr + of_nat k)) [nat i..<nat i + c]"
    by (rule nth_equalityI) (simp_all add: add.assoc)
  ultimately show ?thesis
    unfolding word_of_int_nat [OF assms(2)] by (simp only: copyin_resident)
qed

lemma copyout_piece:
  assumes "writable m addr (nat n)" "0 \<le> i" "i + int (length bs) \<le> n"
  shows "op_copyout K m (addr + word_of_int i) bs = (True, ustore m (addr + of_nat (nat i)) bs)"
proof -
  have "writable m (addr + of_nat (nat i)) (length bs)"
    using assms by (intro writable_sub [OF assms(1)]) linarith
  then show ?thesis unfolding word_of_int_nat [OF assms(2)] by (rule copyout_writable)
qed

lemma store_pieces:
  assumes "writable m addr (nat n)" "j + length xs + length ys \<le> nat n"
  shows "ustore (ustore m (addr + of_nat j) xs) (addr + of_nat (j + length xs)) ys
    = ustore m (addr + of_nat j) (xs @ ys)"
proof -
  have "writable m (addr + of_nat j) (length xs + length ys)"
    using assms by (intro writable_sub [OF assms(1)]) simp
  from store_store [OF this] show ?thesis by (simp add: add.assoc)
qed

lemma v1_feed:
  assumes "pipe_inv PIPESIZE pi" "n < 2 ^ 31" "0 \<le> i" "i < n"
    "readopen pi \<and> \<not> op_killed K m \<and> resident m addr (nat n)"
    "length (pipe_bytes PIPESIZE pi) < PIPESIZE"
  shows "\<exists>pi' c. v1_write_iter K addr pi m i = WCont pi' m (i + int c) \<and> 0 < c \<and> i + int c \<le> n \<and>
    pipe_inv PIPESIZE pi' \<and> (readopen pi' \<and> \<not> op_killed K m \<and> resident m addr (nat n)) \<and>
    pipe_bytes PIPESIZE pi' = pipe_bytes PIPESIZE pi @ map (\<lambda>k. ubyte m (addr + of_nat k)) [nat i..<nat i + c]"
proof -
  have "\<not> pipe_full PIPESIZE pi" using assms(6) by (simp add: pipe_full_iff)
  moreover have "op_copyin K m (addr + word_of_int i) 1
      = ((map (\<lambda>k. ubyte m (addr + of_nat k)) [nat i..<nat i + 1], True), m)"
    using assms by (intro copyin_piece) auto
  ultimately show ?thesis
    using v1_store [OF assms(1), of "ubyte m (addr + of_nat (nat i))"] assms(4,5,6)
    by (intro exI [of _ "pi\<lparr>nwrite := nwrite pi + 1, data := (data pi)[unat (nwrite pi mod of_nat PIPESIZE) :=
      ubyte m (addr + of_nat (nat i))]\<rparr>"] exI [of _ 1]) (simp add: v1_write_iter_def)
qed

lemma v3_feed:
  assumes "pipe3_inv pi" "n < 2 ^ 31" "0 \<le> i" "i < n"
    "readopen pi \<and> \<not> op_killed K m \<and> resident m addr (nat n)" "length (pipe3_bytes pi) < 2048"
  shows "\<exists>pi' c. v3_write_iter K addr n pi m i = WCont pi' m (i + int c) \<and> 0 < c \<and> i + int c \<le> n \<and>
    pipe3_inv pi' \<and> (readopen pi' \<and> \<not> op_killed K m \<and> resident m addr (nat n)) \<and>
    pipe3_bytes pi' = pipe3_bytes pi @ map (\<lambda>k. ubyte m (addr + of_nat k)) [nat i..<nat i + c]"
proof -
  let ?c = "wchunk3 pi (n - i)" and ?r = "unat (nwrite pi) mod 2048 div 512"
  let ?bs = "map (\<lambda>k. ubyte m (addr + of_nat k)) [nat i..<nat i + ?c]"
  have lt: "pipe_used pi < 2048" using assms(6) by simp
  note bnd = wchunk3_bounds [OF lt, of "n - i"]
  have "op_copyin K m (addr + word_of_int i) ?c = ((?bs, True), m)"
    using assms bnd(2) by (intro copyin_piece) auto
  then have "v3_write_iter K addr n pi m i =
      WCont (pi\<lparr>bufs := (bufs pi)[?r := overwrite (bufs pi ! ?r) (unat (nwrite pi) mod 512) ?bs],
                nwrite := nwrite pi + of_nat ?c\<rparr>) m (i + int ?c)"
    using assms(5) lt by (simp add: v3_write_iter_eq [OF less_imp_le assms(4,3,2)] Let_def)
  moreover have "length ?bs = ?c" by simp
  ultimately show ?thesis
    using v3_store [OF assms(1), of ?bs] bnd assms(4,5)
    by (intro exI [of _ "pi\<lparr>bufs := (bufs pi)[?r := overwrite (bufs pi ! ?r) (unat (nwrite pi) mod 512) ?bs],
                nwrite := nwrite pi + of_nat ?c\<rparr>"] exI [of _ ?c]) (simp del: map_upt_Suc)
qed

lemma v1_drain:
  assumes "pipe_inv PIPESIZE pi" "n < 2 ^ 31" "0 \<le> i" "i < n" "writable m addr (nat n)"
    "pipe_bytes PIPESIZE pi \<noteq> []"
  shows "\<exists>pi' c. v1_read_iter K addr pi m i
      = RCont pi' (ustore m (addr + of_nat (nat i)) (take c (pipe_bytes PIPESIZE pi))) (i + int c) \<and>
    0 < c \<and> c \<le> length (pipe_bytes PIPESIZE pi) \<and> i + int c \<le> n \<and> pipe_inv PIPESIZE pi' \<and>
    pipe_bytes PIPESIZE pi' = drop c (pipe_bytes PIPESIZE pi)"
proof -
  have ne: "pipe_used pi \<noteq> 0" using assms(6) by (metis pipe_bytes_empty)
  have slot: "unat (nread pi) mod PIPESIZE + 1 \<le> PIPESIZE" by simp
  have "op_copyout K m (addr + word_of_int i) (take 1 (pipe_bytes PIPESIZE pi))
      = (True, ustore m (addr + of_nat (nat i)) (take 1 (pipe_bytes PIPESIZE pi)))"
    using assms ne by (intro copyout_piece) auto
  then show ?thesis
    using v1_read_iter_eq [OF assms(1) ne] pipe_fetch [of PIPESIZE pi 1] assms(1,4) ne slot
    by (intro exI [of _ "pi\<lparr>nread := nread pi + of_nat 1\<rparr>"] exI [of _ 1]) simp
qed

lemma v3_drain:
  assumes "pipe3_inv pi" "n < 2 ^ 31" "0 \<le> i" "i < n" "writable m addr (nat n)" "pipe3_bytes pi \<noteq> []"
  shows "\<exists>pi' c. v3_read_iter K addr n pi m i
      = RCont pi' (ustore m (addr + of_nat (nat i)) (take c (pipe3_bytes pi))) (i + int c) \<and>
    0 < c \<and> c \<le> length (pipe3_bytes pi) \<and> i + int c \<le> n \<and> pipe3_inv pi' \<and>
    pipe3_bytes pi' = drop c (pipe3_bytes pi)"
proof -
  let ?c = "rchunk3 pi (n - i)"
  have ne: "0 < pipe_used pi" using assms(6) by (metis flat_of_pipe3_simps(6) gr0I pipe_bytes_empty)
  note bnd = rchunk3_bounds [OF ne, of "n - i"]
  have "op_copyout K m (addr + word_of_int i) (take ?c (pipe3_bytes pi))
      = (True, ustore m (addr + of_nat (nat i)) (take ?c (pipe3_bytes pi)))"
    using assms bnd by (intro copyout_piece) auto
  then show ?thesis
    using v3_fetch [OF assms(1), of ?c] bnd assms(4) ne
    by (intro exI [of _ "pi\<lparr>nread := nread pi + of_nat ?c\<rparr>"] exI [of _ ?c])
      (simp add: v3_read_iter_eq [OF assms(4,3,2)])
qed

end

sublocale user_view \<subseteq> v1f: write_feed "v1_write_iter K addr" n "pipe_inv PIPESIZE" "pipe_bytes PIPESIZE" PIPESIZE
  "\<lambda>q. readopen q \<and> \<not> op_killed K m0 \<and> resident m0 addr (nat n)" m0 "\<lambda>k. ubyte m0 (addr + of_nat k)"
  for addr n m0
  by unfold_locales (fact v1_feed, simp add: v1_write_iter_def pipe_full_iff)

sublocale user_view \<subseteq> v3f: write_feed "v3_write_iter K addr n" n pipe3_inv pipe3_bytes 2048
  "\<lambda>q. readopen q \<and> \<not> op_killed K m0 \<and> resident m0 addr (nat n)" m0 "\<lambda>k. ubyte m0 (addr + of_nat k)"
  for addr n m0
  by unfold_locales (fact v3_feed, simp add: v3_write_iter_def pipe_full_iff)

sublocale user_view \<subseteq> v1d: read_drain "v1_read_iter K addr" n "pipe_inv PIPESIZE" "pipe_bytes PIPESIZE"
  "\<lambda>m i. op_copyout K m (addr + word_of_int i)" 1 "\<lambda>m. writable m addr (nat n)"
  "\<lambda>m j. ustore m (addr + of_nat j)"
  for addr n
proof (unfold_locales, goal_cases)
  case (2 q m i)
  then have "length (pipe_bytes PIPESIZE q) = 0" by (simp only: list.size)
  then show ?case by (simp add: v1_read_iter_def pipe_empty_iff)
qed (fact v1_drain store_pieces store_Nil | rule writable_store)+

sublocale user_view \<subseteq> v3d: read_drain "v3_read_iter K addr n" n pipe3_inv pipe3_bytes
  "\<lambda>m i. op_copyout K m (addr + word_of_int i)" 0 "\<lambda>m. writable m addr (nat n)"
  "\<lambda>m j. ustore m (addr + of_nat j)"
  for addr n
proof (unfold_locales, goal_cases)
  case (2 q m i)
  then have "length (pipe3_bytes q) = 0" by (simp only: list.size)
  then show ?case by (simp add: v3_read_iter_def pipe_empty_iff)
qed (fact v3_drain store_pieces store_Nil | rule writable_store)+

locale bulk_view = user_view + bulk_ring
begin

lemma bulk_feed:
  assumes "pipe_inv tot pi" "n < 2 ^ 31" "0 \<le> i" "i < n"
    "readopen pi \<and> \<not> op_killed K m \<and> resident m addr (nat n)" "length (pipe_bytes tot pi) < tot"
  shows "\<exists>pi' c. bulk_write_iter tot K addr n pi m i = WCont pi' m (i + int c) \<and> 0 < c \<and> i + int c \<le> n \<and>
    pipe_inv tot pi' \<and> (readopen pi' \<and> \<not> op_killed K m \<and> resident m addr (nat n)) \<and>
    pipe_bytes tot pi' = pipe_bytes tot pi @ map (\<lambda>k. ubyte m (addr + of_nat k)) [nat i..<nat i + c]"
proof -
  let ?c = "wchunk tot pi (n - i)"
  let ?bs = "map (\<lambda>k. ubyte m (addr + of_nat k)) [nat i..<nat i + ?c]"
  let ?pi = "pi\<lparr>data := overwrite (data pi) (unat (nwrite pi) mod tot) ?bs, nwrite := nwrite pi + of_nat ?c\<rparr>"
  have lt: "pipe_used pi < tot" using assms(6) by simp
  note bnd = wchunk_bounds [OF size lt, of "n - i"]
  have "op_copyin K m (addr + word_of_int i) ?c = ((?bs, True), m)"
    using assms bnd(2) by (intro copyin_piece) auto
  then have "bulk_write_iter tot K addr n pi m i = WCont ?pi m (i + int ?c)"
    using assms(5) lt by (simp add: bulk_write_iter_eq [OF size less_imp_le assms(4,3,2)] Let_def)
  moreover have "length ?bs = ?c" by simp
  ultimately show ?thesis
    using pipe_store [OF size assms(1), of ?bs] bnd assms(4,5)
    by (intro exI [of _ ?pi] exI [of _ ?c]) (simp del: map_upt_Suc)
qed

lemma bulk_stop:
  assumes "pipe_inv tot pi" "readopen pi \<and> \<not> op_killed K m \<and> resident m addr (nat n)"
    "length (pipe_bytes tot pi) = tot"
  shows "bulk_write_iter tot K addr n pi m i = WFull"
  using assms(2,3) by (simp add: bulk_write_iter_def pipe_full_iff [OF size])

lemma bulk_drain:
  assumes "pipe_inv tot pi" "n < 2 ^ 31" "0 \<le> i" "i < n" "writable m addr (nat n)" "pipe_bytes tot pi \<noteq> []"
  shows "\<exists>pi' c. bulk_read_iter tot K addr n pi m i
      = RCont pi' (ustore m (addr + of_nat (nat i)) (take c (pipe_bytes tot pi))) (i + int c) \<and>
    0 < c \<and> c \<le> length (pipe_bytes tot pi) \<and> i + int c \<le> n \<and> pipe_inv tot pi' \<and>
    pipe_bytes tot pi' = drop c (pipe_bytes tot pi)"
proof -
  let ?c = "rchunk tot pi (n - i)"
  have ne: "0 < pipe_used pi" using assms(6) by (metis gr0I pipe_bytes_empty)
  note bnd = rchunk_bounds [OF size ne, of "n - i"]
  have "op_copyout K m (addr + word_of_int i) (take ?c (pipe_bytes tot pi))
      = (True, ustore m (addr + of_nat (nat i)) (take ?c (pipe_bytes tot pi)))"
    using assms bnd by (intro copyout_piece) auto
  then show ?thesis
    using pipe_fetch [OF size assms(1), of ?c] bnd assms(4) ne
    by (intro exI [of _ "pi\<lparr>nread := nread pi + of_nat ?c\<rparr>"] exI [of _ ?c])
      (simp add: bulk_read_iter_eq [OF size assms(4,3,2)])
qed

lemma bulk_dry: "pipe_bytes tot pi = [] \<Longrightarrow> bulk_read_iter tot K addr n pi m i = RBreak pi m i"
  using length_pipe_bytes [of tot pi] by (simp add: bulk_read_iter_def pipe_empty_iff)

end

sublocale bulk_view \<subseteq> bf: write_feed "bulk_write_iter tot K addr n" n "pipe_inv tot" "pipe_bytes tot" tot
  "\<lambda>q. readopen q \<and> \<not> op_killed K m0 \<and> resident m0 addr (nat n)" m0 "\<lambda>k. ubyte m0 (addr + of_nat k)"
  for addr n m0
  by unfold_locales (fact bulk_feed bulk_stop)+

sublocale bulk_view \<subseteq> bd: read_drain "bulk_read_iter tot K addr n" n "pipe_inv tot" "pipe_bytes tot"
  "\<lambda>m i. op_copyout K m (addr + word_of_int i)" 0 "\<lambda>m. writable m addr (nat n)"
  "\<lambda>m j. ustore m (addr + of_nat j)"
  for addr n
  by unfold_locales (fact bulk_drain bulk_dry store_pieces store_Nil | rule writable_store)+

end
