(* ===== verification/Phys_Mem.thy ===== *)
theory Phys_Mem
  imports Xv6_Prelude
begin

text \<open>
  Physical memory, which the kernel maps at the same addresses, as a function from
  addresses to bytes, and \<^verbatim>\<open>kernel/string.c\<close> on it. Pointers are 64-bit words and pointer
  arithmetic wraps. \<open>load64\<close> and \<open>store64\<close> are the little-endian accesses to an aligned
  \<^verbatim>\<open>uint64\<close> (a page-table entry, a free-list link, a field of a trapframe).
\<close>

type_synonym memory = "u64 \<Rightarrow> u8"

section \<open>64-bit accesses\<close>

definition load64 :: "memory \<Rightarrow> u64 \<Rightarrow> u64" where
  "load64 m a = ucast (m a) OR push_bit 8 (ucast (m (a + 1))) OR push_bit 16 (ucast (m (a + 2)))
     OR push_bit 24 (ucast (m (a + 3))) OR push_bit 32 (ucast (m (a + 4)))
     OR push_bit 40 (ucast (m (a + 5))) OR push_bit 48 (ucast (m (a + 6)))
     OR push_bit 56 (ucast (m (a + 7)))"

definition store64 :: "memory \<Rightarrow> u64 \<Rightarrow> u64 \<Rightarrow> memory" where
  "store64 m a v = (\<lambda>x. if x - a < 8 then ucast (drop_bit (8 * unat (x - a)) v) else m x)"

section \<open>string.c\<close>

text \<open>\<^verbatim>\<open>memset\<close>: the loop stores \<open>c\<close> at \<open>dst + i\<close> for the remaining \<open>k\<close> values of \<open>i\<close>.\<close>

primrec memset_loop :: "memory \<Rightarrow> u64 \<Rightarrow> u8 \<Rightarrow> u64 \<Rightarrow> nat \<Rightarrow> memory" where
  "memset_loop m dst c i 0 = m"
| "memset_loop m dst c i (Suc k) = memset_loop (m(dst + i := c)) dst c (i + 1) k"

definition memset :: "memory \<Rightarrow> u64 \<Rightarrow> u8 \<Rightarrow> nat \<Rightarrow> memory" where
  "memset m dst c n = memset_loop m dst c 0 n"

text \<open>\<^verbatim>\<open>memcmp\<close>: the difference of the first bytes that differ, as an \<^verbatim>\<open>int\<close>.\<close>

primrec memcmp :: "memory \<Rightarrow> u64 \<Rightarrow> u64 \<Rightarrow> nat \<Rightarrow> int" where
  "memcmp m s1 s2 0 = 0"
| "memcmp m s1 s2 (Suc n) =
     (if m s1 \<noteq> m s2 then uint (m s1) - uint (m s2) else memcmp m (s1 + 1) (s2 + 1) n)"

text \<open>\<^verbatim>\<open>memmove\<close>: the copy runs backwards when the source starts below an overlapping
  destination, forwards otherwise.\<close>

primrec memmove_bwd :: "memory \<Rightarrow> u64 \<Rightarrow> u64 \<Rightarrow> nat \<Rightarrow> memory" where
  "memmove_bwd m d s 0 = m"
| "memmove_bwd m d s (Suc n) = memmove_bwd (m(d - 1 := m (s - 1))) (d - 1) (s - 1) n"

primrec memmove_fwd :: "memory \<Rightarrow> u64 \<Rightarrow> u64 \<Rightarrow> nat \<Rightarrow> memory" where
  "memmove_fwd m d s 0 = m"
| "memmove_fwd m d s (Suc n) = memmove_fwd (m(d := m s)) (d + 1) (s + 1) n"

definition memmove :: "memory \<Rightarrow> u64 \<Rightarrow> u64 \<Rightarrow> nat \<Rightarrow> memory" where
  "memmove m dst src n =
     (if n = 0 then m
      else if src < dst \<and> src + of_nat n > dst
           then memmove_bwd m (dst + of_nat n) (src + of_nat n) n
           else memmove_fwd m dst src n)"

definition memcpy :: "memory \<Rightarrow> u64 \<Rightarrow> u64 \<Rightarrow> nat \<Rightarrow> memory" where
  "memcpy m dst src n = memmove m dst src n"

primrec strncmp :: "memory \<Rightarrow> u64 \<Rightarrow> u64 \<Rightarrow> nat \<Rightarrow> int" where
  "strncmp m p q 0 = 0"
| "strncmp m p q (Suc n) =
     (if m p \<noteq> 0 \<and> m p = m q then strncmp m (p + 1) (q + 1) n else uint (m p) - uint (m q))"

text \<open>\<^verbatim>\<open>strncpy\<close>: copies up to and including a NUL, then fills with NULs, \<open>n\<close> bytes in all.\<close>

primrec strncpy_pad :: "memory \<Rightarrow> u64 \<Rightarrow> nat \<Rightarrow> memory" where
  "strncpy_pad m s 0 = m"
| "strncpy_pad m s (Suc n) = strncpy_pad (m(s := 0)) (s + 1) n"

primrec strncpy :: "memory \<Rightarrow> u64 \<Rightarrow> u64 \<Rightarrow> nat \<Rightarrow> memory" where
  "strncpy m s t 0 = m"
| "strncpy m s t (Suc n) =
     (let c = m t; m' = m(s := c)
      in if c \<noteq> 0 then strncpy m' (s + 1) (t + 1) n else strncpy_pad m' (s + 1) n)"

text \<open>\<^verbatim>\<open>safestrcpy\<close>: at most \<open>n - 1\<close> bytes and a NUL; the last store hits the byte after the
  copied NUL when the string ends early.\<close>

primrec safestrcpy_loop :: "memory \<Rightarrow> u64 \<Rightarrow> u64 \<Rightarrow> nat \<Rightarrow> memory \<times> u64" where
  "safestrcpy_loop m s t 0 = (m, s)"
| "safestrcpy_loop m s t (Suc n) =
     (let c = m t; m' = m(s := c)
      in if c \<noteq> 0 then safestrcpy_loop m' (s + 1) (t + 1) n else (m', s + 1))"

definition safestrcpy :: "memory \<Rightarrow> u64 \<Rightarrow> u64 \<Rightarrow> int \<Rightarrow> memory" where
  "safestrcpy m s t n =
     (if n \<le> 0 then m
      else case safestrcpy_loop m s t (nat (n - 1)) of (m', s') \<Rightarrow> m'(s' := 0))"

text \<open>\<^verbatim>\<open>strlen\<close> runs until it finds a NUL; \<open>None\<close> if there is none.\<close>

partial_function (option) strlen_from :: "memory \<Rightarrow> u64 \<Rightarrow> nat \<Rightarrow> nat option" where
  "strlen_from m s n = (if m (s + of_nat n) = 0 then Some n else strlen_from m s (Suc n))"

definition strlen :: "memory \<Rightarrow> u64 \<Rightarrow> nat option" where
  "strlen m s = strlen_from m s 0"

section \<open>Ranges of addresses\<close>

text \<open>\<open>in_range x a n\<close>: \<open>x\<close> is one of the \<open>n\<close> addresses from \<open>a\<close> on.\<close>

definition in_range :: "u64 \<Rightarrow> u64 \<Rightarrow> nat \<Rightarrow> bool" where
  "in_range x a n \<longleftrightarrow> unat (x - a) < n"

lemma in_range_0 [simp]: "\<not> in_range x a 0"
  by (simp add: in_range_def)

lemma in_range_Suc:
  assumes "n < 2 ^ 64 - 1"
  shows "in_range x a (Suc n) \<longleftrightarrow> x = a \<or> in_range x (a + 1) n"
proof (cases "x = a")
  case False
  then have "x - a \<noteq> 0" by simp
  then have "unat (x - a - 1) = unat (x - a) - 1" "0 < unat (x - a)"
    by (simp_all add: unat_minus_one unat_gt_0)
  then show ?thesis using False by (auto simp: in_range_def diff_diff_eq)
qed (simp add: in_range_def)

lemma in_range_next: "n < 2 ^ 64 - 1 \<Longrightarrow> \<not> in_range a (a + 1) n"
  by (simp add: in_range_def unsigned_minus_1_eq_mask mask_eq_exp_minus_1)

lemma in_range_offset: "in_range (a + of_nat k) a n" if "k < n" "n \<le> 2 ^ 64"
  using that by (simp add: in_range_def unat_of_nat)

lemma in_rangeE:
  assumes "in_range x a n" obtains k where "k < n" "x = a + of_nat k"
proof
  show "unat (x - a) < n" using assms by (simp add: in_range_def)
  show "x = a + of_nat (unat (x - a))" by simp
qed

section \<open>Correctness of the accesses and copies\<close>

lemma bit_u8_high: "8 \<le> n \<Longrightarrow> \<not> bit (b :: u8) n"
  using bit_imp_le_length [of b n] by auto

lemma bit_load64_split:
  assumes "j < 8" "r < 8" shows "bit (load64 m a) (8 * j + r) = bit (m (a + of_nat j)) r"
proof -
  have high: "\<not> bit (b :: u8) (8 * Suc k + r)" for b k by (rule bit_u8_high) simp
  consider "j = 0" | "j = 1" | "j = 2" | "j = 3" | "j = 4" | "j = 5" | "j = 6" | "j = 7"
    using assms(1) by linarith
  then show ?thesis
    by cases (use assms(2) high [of _ 0] high [of _ 1] high [of _ 2] high [of _ 3] high [of _ 4]
        high [of _ 5] high [of _ 6] in \<open>auto simp: load64_def bit_simps\<close>)
qed

lemma bit_load64:
  assumes "n < 64" shows "bit (load64 m a) n = bit (m (a + of_nat (n div 8))) (n mod 8)"
  using bit_load64_split [of "n div 8" "n mod 8" m a] assms by simp

lemma load64_store64_same: "load64 (store64 m a v) a = v"
proof (rule bit_eqI)
  fix n assume "possible_bit TYPE(64 word) n"
  then have n: "n < 64" by simp
  then have "n div 8 < 8" by simp
  then have j: "unat (of_nat (n div 8) :: u64) = n div 8" by (simp add: unat_of_nat)
  then have "(of_nat (n div 8) :: u64) < 8" using n by (simp add: word_less_nat_alt)
  then show "bit (load64 (store64 m a v) a) n = bit v n"
    using n j by (simp add: bit_load64 store64_def bit_simps)
qed

lemma load64_cong:
  assumes "\<And>j. j < 8 \<Longrightarrow> m (a + of_nat j) = m' (a + of_nat j)"
  shows "load64 m a = load64 m' a"
proof (rule bit_eqI)
  fix n assume "possible_bit TYPE(64 word) n"
  then have n: "n < 64" by simp
  then have "n div 8 < 8" by simp
  then show "bit (load64 m a) n = bit (load64 m' a) n"
    using n assms by (simp add: bit_load64)
qed

lemma store64_other: "\<not> in_range x a 8 \<Longrightarrow> store64 m a v x = m x"
  by (simp add: store64_def in_range_def word_less_nat_alt)

lemma load64_store64_other:
  assumes "\<And>j. j < 8 \<Longrightarrow> \<not> in_range (b + of_nat j) a 8"
  shows "load64 (store64 m a v) b = load64 m b"
  by (rule load64_cong) (simp add: store64_other assms)

lemma memset_loop_eq:
  "n < 2 ^ 64 \<Longrightarrow> memset_loop m d c i n x = (if in_range x (d + i) n then c else m x)"
proof (induction n arbitrary: m i)
  case (Suc n)
  then have "memset_loop m d c i (Suc n) x
      = (if in_range x (d + i + 1) n then c else (m(d + i := c)) x)"
    by (simp add: add.assoc)
  then show ?case using Suc.prems by (auto simp: in_range_Suc)
qed simp

lemma memset_eq: "n < 2 ^ 64 \<Longrightarrow> memset m d c n x = (if in_range x d n then c else m x)"
  by (simp add: memset_def memset_loop_eq)

lemma memset_code [code]:
  "memset m d c n = (if n < 2 ^ 64 then \<lambda>x. if in_range x d n then c else m x else memset_loop m d c 0 n)"
  by (auto simp: memset_eq) (simp add: memset_def)

text \<open>
  A copy in either direction gives the old source bytes, provided that no byte is read after
  it has been overwritten.
\<close>

lemma memmove_fwd_eq:
  assumes "n < 2 ^ 64" "\<And>j. 0 < j \<Longrightarrow> j < n \<Longrightarrow> d \<noteq> s + of_nat j"
  shows "memmove_fwd m d s n x = (if in_range x d n then m (s + (x - d)) else m x)"
  using assms
proof (induction n arbitrary: m d s)
  case (Suc n)
  have ne: "d + 1 \<noteq> s + 1 + of_nat j" if "0 < j" "j < n" for j
    using Suc.prems(2) [of j] that by auto
  have IH: "memmove_fwd (m(d := m s)) (d + 1) (s + 1) n x
      = (if in_range x (d + 1) n then (m(d := m s)) (s + 1 + (x - (d + 1))) else (m(d := m s)) x)"
    using Suc.IH ne Suc.prems(1) by simp
  have src: "(m(d := m s)) (s + 1 + (x - (d + 1))) = m (s + (x - d))" if r: "in_range x (d + 1) n"
  proof -
    from r obtain k where k: "k < n" "x = d + 1 + of_nat k" by (rule in_rangeE)
    then have "s + of_nat (Suc k) \<noteq> d" using Suc.prems(2) [of "Suc k"] by auto
    then show ?thesis using k by (simp add: algebra_simps)
  qed
  show ?case using IH src in_range_next [of n d] Suc.prems(1)
    by (auto simp: in_range_Suc)
qed simp

lemma memmove_bwd_eq:
  assumes "n < 2 ^ 64" "\<And>j. 0 < j \<Longrightarrow> j < n \<Longrightarrow> d + of_nat j \<noteq> s"
  shows "memmove_bwd m (d + of_nat n) (s + of_nat n) n x = (if in_range x d n then m (s + (x - d)) else m x)"
  using assms
proof (induction n arbitrary: m)
  case (Suc n)
  let ?m = "m(d + of_nat n := m (s + of_nat n))"
  have "memmove_bwd m (d + of_nat (Suc n)) (s + of_nat (Suc n)) (Suc n) x
      = memmove_bwd ?m (d + of_nat n) (s + of_nat n) n x"
    by (simp add: algebra_simps)
  also have "\<dots> = (if in_range x d n then ?m (s + (x - d)) else ?m x)"
    using Suc by simp
  also have "\<dots> = (if in_range x d (Suc n) then m (s + (x - d)) else m x)"
  proof (cases "in_range x d n")
    case True
    then obtain k where k: "k < n" "x = d + of_nat k" by (rule in_rangeE)
    have "d + of_nat (n - k) \<noteq> s" using Suc.prems(2) [of "n - k"] k by simp
    moreover have "(of_nat n :: u64) = of_nat (n - k) + of_nat k"
      using k(1) by (metis le_add_diff_inverse2 less_imp_le of_nat_add)
    ultimately have "s + of_nat k \<noteq> d + of_nat n" by (simp add: algebra_simps)
    then show ?thesis using True k by (simp add: in_range_def)
  next
    case False
    have "in_range x d (Suc n) \<longleftrightarrow> x = d + of_nat n"
    proof
      assume "in_range x d (Suc n)"
      then have "unat (x - d) = n" using False by (simp add: in_range_def)
      then have "x - d = of_nat n" by (metis word_of_nat_eq_iff unat_of_nat word_unat_eq_iff mod_less unsigned_less Suc_lessD Suc.prems(1))
      then show "x = d + of_nat n" by (simp add: algebra_simps)
    next
      assume "x = d + of_nat n"
      then show "in_range x d (Suc n)" using Suc.prems(1) by (simp add: in_range_def unat_of_nat)
    qed
    then show ?thesis using False by auto
  qed
  finally show ?case .
qed simp

lemma memmove_eq:
  assumes "unat dst + n < 2 ^ 64" "unat src + n < 2 ^ 64"
  shows "memmove m dst src n x = (if in_range x dst n then m (src + (x - dst)) else m x)"
proof -
  have n: "n < 2 ^ 64" using assms(1) by simp
  have off: "unat (a + of_nat j :: u64) = unat a + j" if "unat a + n < 2 ^ 64" "j \<le> n" for a j
    using that by (simp add: unat_word_ariths unat_of_nat)
  have fwd: "dst \<noteq> src + of_nat j" if "\<not> (src < dst \<and> src + of_nat n > dst)" "0 < j" "j < n" for j
    using that off [OF assms(2), of j] off [OF assms(2), of n] by (auto simp: word_less_nat_alt)
  have bwd: "dst + of_nat j \<noteq> src" if "src < dst" "0 < j" "j < n" for j
    using that off [OF assms(1), of j] by (auto simp: word_less_nat_alt)
  show ?thesis
    using memmove_fwd_eq [OF n, of dst src m x] memmove_bwd_eq [OF n, of dst src m x] fwd bwd
    by (auto simp: memmove_def)
qed

text \<open>\<^verbatim>\<open>strncmp\<close> is 0 exactly when the strings agree up to their first NUL or to \<open>n\<close> bytes.\<close>

primrec str_agree :: "memory \<Rightarrow> u64 \<Rightarrow> u64 \<Rightarrow> nat \<Rightarrow> bool" where
  "str_agree m p q 0 = True"
| "str_agree m p q (Suc n) = (m p = m q \<and> (m p = 0 \<or> str_agree m (p + 1) (q + 1) n))"

lemma strncmp_zero_iff: "strncmp m p q n = 0 \<longleftrightarrow> str_agree m p q n"
  by (induction n arbitrary: p q) (auto simp: word_uint_eq_iff)

lemma safestrcpy_loop_bounds:
  assumes "safestrcpy_loop m s t k = (m', s')" "k < 2 ^ 64 - 1"
  shows "in_range s' s (Suc k) \<and> (\<forall>x. \<not> in_range x s k \<longrightarrow> m' x = m x)"
  using assms
proof (induction k arbitrary: m s t)
  case 0
  then show ?case by (simp add: in_range_def)
next
  case (Suc k)
  show ?case
  proof (cases "m t = 0")
    case True
    with Suc.prems have "m' = m(s := 0)" "s' = s + 1" by (simp_all add: Let_def)
    then show ?thesis using Suc.prems(2) by (auto simp: in_range_Suc)
  next
    case False
    with Suc.prems have *: "safestrcpy_loop (m(s := m t)) (s + 1) (t + 1) k = (m', s')"
      by (simp add: Let_def)
    have "in_range s' (s + 1) (Suc k)" "\<forall>x. \<not> in_range x (s + 1) k \<longrightarrow> m' x = (m(s := m t)) x"
      using Suc.IH [OF *] Suc.prems(2) by auto
    then show ?thesis using Suc.prems(2) by (auto simp: in_range_Suc)
  qed
qed

text \<open>\<^verbatim>\<open>safestrcpy\<close> stays inside its buffer and leaves a NUL in it.\<close>

lemma safestrcpy_bounds:
  assumes "0 < n" "n < 2 ^ 31"
  shows "(\<forall>x. \<not> in_range x s (nat n) \<longrightarrow> safestrcpy m s t n x = m x) \<and>
    (\<exists>x. in_range x s (nat n) \<and> safestrcpy m s t n x = 0)"
proof -
  obtain m' s' where eq: "safestrcpy_loop m s t (nat (n - 1)) = (m', s')" by fastforce
  have n: "nat n = Suc (nat (n - 1))" using assms(1) by simp
  have "nat (n - 1) < 2 ^ 64 - 1" using assms by simp
  from safestrcpy_loop_bounds [OF eq this] have s': "in_range s' s (nat n)"
    and fr: "\<And>x. \<not> in_range x s (nat (n - 1)) \<Longrightarrow> m' x = m x" unfolding n by auto
  have res: "safestrcpy m s t n = m'(s' := 0)" using assms(1) eq by (simp add: safestrcpy_def)
  have "in_range x s (nat (n - 1)) \<Longrightarrow> in_range x s (nat n)" for x
    unfolding n by (simp add: in_range_def)
  then show ?thesis using s' fr unfolding res by auto
qed

end
