(* ===== verification/Kalloc.thy ===== *)
theory Kalloc
  imports Phys_Mem
begin

text \<open>
  \<^verbatim>\<open>kernel/kalloc.c\<close>: the page allocator. The free list is threaded through the free pages
  themselves, as in the code: the first eight bytes of a free page hold the address of the
  next one. \<open>kmem_inv s ps\<close> relates a machine state to the list \<open>ps\<close> of its free pages; the
  lemmas show that \<open>kalloc\<close> and \<open>kfree\<close> are pop and push on that list and touch no other
  memory. The critical sections under \<^verbatim>\<open>kmem.lock\<close> are single steps.
\<close>

section \<open>State and operations\<close>

text \<open>
  \<open>mem\<close> is physical memory, \<open>freelist\<close> is \<^verbatim>\<open>kmem.freelist\<close> (0 is the null pointer), \<open>kend\<close>
  the linker's symbol \<^verbatim>\<open>end\<close>, the first address after the kernel, \<open>etext\<close> the end of its code and \<open>trampoline\<close>
  the page of \<^verbatim>\<open>trampoline.S\<close>.
\<close>

record machine =
  mem :: memory
  freelist :: u64
  kend :: u64
  etext :: u64
  trampoline :: u64

definition kfree :: "u64 \<Rightarrow> 'a machine_scheme \<Rightarrow> 'a machine_scheme kres" where
  "kfree pa s =
     (if unat pa mod PGSIZE \<noteq> 0 \<or> pa < kend s \<or> pa \<ge> PHYSTOP then Inl (Panic ''kfree'')
      else
        let m = memset (mem s) pa 1 PGSIZE
        in Inr (s\<lparr>mem := store64 m pa (freelist s), freelist := pa\<rparr>))"

definition kalloc :: "'a machine_scheme \<Rightarrow> u64 \<times> 'a machine_scheme" where
  "kalloc s =
     (let r = freelist s;
          s = (if r \<noteq> 0 then s\<lparr>freelist := load64 (mem s) r\<rparr> else s)
      in (r, if r \<noteq> 0 then s\<lparr>mem := memset (mem s) r 5 PGSIZE\<rparr> else s))"

text \<open>\<^verbatim>\<open>freerange\<close>; the fuel bounds the number of pages.\<close>

primrec freerange_loop :: "nat \<Rightarrow> u64 \<Rightarrow> u64 \<Rightarrow> 'a machine_scheme \<Rightarrow> 'a machine_scheme kres" where
  "freerange_loop 0 p pa_end s = (if p + PGSZ \<le> pa_end then Inl OutOfFuel else Inr s)"
| "freerange_loop (Suc k) p pa_end s =
     (if p + PGSZ \<le> pa_end then rbind (kfree p s) (freerange_loop k (p + PGSZ) pa_end) else Inr s)"

definition freerange :: "nat \<Rightarrow> u64 \<Rightarrow> u64 \<Rightarrow> 'a machine_scheme \<Rightarrow> 'a machine_scheme kres" where
  "freerange fuel pa_start pa_end s = freerange_loop fuel (PGROUNDUP pa_start) pa_end s"

text \<open>128 MB are 32768 pages.\<close>

definition kinit :: "'a machine_scheme \<Rightarrow> 'a machine_scheme kres" where
  "kinit s = freerange 32768 (kend s) PHYSTOP (s\<lparr>freelist := 0\<rparr>)"

section \<open>Pages\<close>

definition page_aligned :: "u64 \<Rightarrow> bool" where
  "page_aligned p \<longleftrightarrow> unat p mod 4096 = 0"

abbreviation in_page :: "u64 \<Rightarrow> u64 \<Rightarrow> bool" where
  "in_page x p \<equiv> in_range x p 4096"

lemma PGSIZE_val [simp]: "PGSIZE = 4096" by (simp add: PGSIZE_def)

lemma page_room: "page_aligned p \<Longrightarrow> unat p + 4096 \<le> 2 ^ 64"
proof -
  assume "page_aligned p"
  then obtain k where k: "unat p = 4096 * k" unfolding page_aligned_def by auto
  then have "4096 * k < 4096 * 2 ^ 52" using unat_less_pow64 [of p] by simp
  then show ?thesis unfolding k by simp
qed

lemma unat_page_offset:
  assumes "page_aligned p" "k < 4096" shows "unat (p + of_nat k) = unat p + k"
  using page_room [OF assms(1)] assms(2) by (simp add: unat_word_ariths unat_of_nat)

lemma in_page_iff: "page_aligned p \<Longrightarrow> in_page x p \<longleftrightarrow> PGROUNDDOWN x = p"
proof
  assume p: "page_aligned p" and "in_page x p"
  then obtain k where "k < 4096" "x = p + of_nat k" by (blast elim: in_rangeE)
  then have "unat x = unat p + k" "k < 4096" using unat_page_offset [OF p] by auto
  then have "unat x mod 4096 = k" using p unfolding page_aligned_def by (simp add: mod_add_eq [symmetric])
  then have "unat (PGROUNDDOWN x) = unat p" using \<open>unat x = unat p + k\<close> by (simp add: unat_PGROUNDDOWN)
  then show "PGROUNDDOWN x = p" by (simp add: word_unat_eq_iff)
next
  assume "PGROUNDDOWN x = p"
  then show "in_page x p" using unat_offset_in_page [of x] by (auto simp: in_range_def)
qed

lemma pages_disjoint: "page_aligned p \<Longrightarrow> page_aligned q \<Longrightarrow> p \<noteq> q \<Longrightarrow> in_page x p \<Longrightarrow> \<not> in_page x q"
  by (simp add: in_page_iff)

lemma word_in_page: "page_aligned p \<Longrightarrow> j < 8 \<Longrightarrow> in_page (p + of_nat j) p"
  by (rule in_range_offset) simp_all

lemma load64_other_page:
  assumes "page_aligned p" "page_aligned q" "p \<noteq> q" "\<And>x. \<not> in_page x p \<Longrightarrow> m' x = m x"
  shows "load64 m' q = load64 m q"
proof (rule load64_cong)
  fix j :: nat assume "j < 8"
  then have "in_page (q + of_nat j) q" using assms(2) by (intro word_in_page)
  then show "m' (q + of_nat j) = m (q + of_nat j)"
    using assms pages_disjoint [of q p] by blast
qed

lemma store64_same_page: "page_aligned p \<Longrightarrow> \<not> in_page x p \<Longrightarrow> store64 m p v x = m x"
  by (rule store64_other) (simp add: in_range_def)

lemma memset_page: "memset m p c 4096 x = (if in_page x p then c else m x)"
  by (simp add: memset_eq)

section \<open>The list of free pages\<close>

primrec flist :: "memory \<Rightarrow> u64 \<Rightarrow> u64 list \<Rightarrow> bool" where
  "flist m p [] \<longleftrightarrow> p = 0"
| "flist m p (q # qs) \<longleftrightarrow> p = q \<and> q \<noteq> 0 \<and> flist m (load64 m q) qs"

definition ram_page :: "'a machine_scheme \<Rightarrow> u64 \<Rightarrow> bool" where
  "ram_page s p \<longleftrightarrow> page_aligned p \<and> kend s \<le> p \<and> p < PHYSTOP"

definition kmem_inv :: "'a machine_scheme \<Rightarrow> u64 list \<Rightarrow> bool" where
  "kmem_inv s ps \<longleftrightarrow> 0 < kend s \<and> flist (mem s) (freelist s) ps \<and> distinct ps \<and>
     (\<forall>p \<in> set ps. ram_page s p)"

lemma flist_cong:
  "flist m p qs \<Longrightarrow> (\<And>q. q \<in> set qs \<Longrightarrow> load64 m' q = load64 m q) \<Longrightarrow> flist m' p qs"
  by (induction qs arbitrary: p) auto

lemma flist_other_page:
  assumes "flist m q qs" "page_aligned p" "p \<notin> set qs" "\<forall>q \<in> set qs. page_aligned q"
    "\<And>x. \<not> in_page x p \<Longrightarrow> m' x = m x"
  shows "flist m' q qs"
  using assms by (intro flist_cong [OF assms(1)] load64_other_page [of p]) auto

lemma kmem_inv_nonzero: "kmem_inv s ps \<Longrightarrow> p \<in> set ps \<Longrightarrow> p \<noteq> 0"
  by (auto simp: kmem_inv_def ram_page_def)

lemma kmem_inv_flist: "kmem_inv s ps \<Longrightarrow> flist (mem s) (freelist s) ps"
  by (simp add: kmem_inv_def)

lemma kmem_inv_aligned: "kmem_inv s ps \<Longrightarrow> \<forall>q \<in> set ps. page_aligned q"
  by (simp add: kmem_inv_def ram_page_def)

lemma kfree_refines:
  assumes "kmem_inv s ps" "ram_page s p" "p \<notin> set ps"
  shows "\<exists>s'. kfree p s = Inr s' \<and> kmem_inv s' (p # ps) \<and>
    s' = s\<lparr>mem := mem s', freelist := p\<rparr> \<and> (\<forall>x. \<not> in_page x p \<longrightarrow> mem s' x = mem s x)"
proof -
  have p: "page_aligned p" "p \<noteq> 0" using assms(1,2) by (auto simp: ram_page_def kmem_inv_def)
  let ?m = "store64 (memset (mem s) p 1 4096) p (freelist s)"
  have frame: "\<not> in_page x p \<Longrightarrow> ?m x = mem s x" for x
    using store64_same_page [OF p(1)] by (simp add: memset_page)
  have "kfree p s = Inr (s\<lparr>mem := ?m, freelist := p\<rparr>)"
    using assms(2) by (simp add: kfree_def ram_page_def page_aligned_def not_less not_le Let_def)
  moreover have "flist ?m (freelist s) ps"
    by (rule flist_other_page [OF kmem_inv_flist [OF assms(1)] p(1) assms(3) _ frame])
      (use kmem_inv_aligned [OF assms(1)] in blast)
  then have "kmem_inv (s\<lparr>mem := ?m, freelist := p\<rparr>) (p # ps)"
    using assms p by (simp add: kmem_inv_def load64_store64_same ram_page_def)
  ultimately show ?thesis using frame by auto
qed

lemma kalloc_none: "kmem_inv s [] \<Longrightarrow> kalloc s = (0, s)"
  by (simp add: kmem_inv_def kalloc_def)

lemma kalloc_refines:
  assumes "kmem_inv s (p # ps)"
  shows "\<exists>s'. kalloc s = (p, s') \<and> kmem_inv s' ps \<and> s' = s\<lparr>mem := mem s', freelist := freelist s'\<rparr> \<and>
    (\<forall>x. mem s' x = (if in_page x p then 5 else mem s x))"
proof -
  have fl: "freelist s = p" "p \<noteq> 0" using assms by (auto simp: kmem_inv_def)
  let ?m = "memset (mem s) p 5 4096"
  have p: "page_aligned p" using assms by (simp add: kmem_inv_def ram_page_def)
  have "flist ?m (load64 (mem s) p) ps"
  proof (rule flist_other_page [of "mem s" _ _ p])
    show "flist (mem s) (load64 (mem s) p) ps" "p \<notin> set ps" using assms by (auto simp: kmem_inv_def)
    show "\<forall>q\<in>set ps. page_aligned q" using kmem_inv_aligned [OF assms] by simp
  qed (simp_all add: p memset_page)
  then have "kmem_inv (s\<lparr>freelist := load64 (mem s) p, mem := ?m\<rparr>) ps"
    using assms by (simp add: kmem_inv_def ram_page_def)
  moreover have "kalloc s = (p, s\<lparr>freelist := load64 (mem s) p, mem := ?m\<rparr>)"
    using fl by (simp add: kalloc_def Let_def)
  ultimately show ?thesis by (auto simp: memset_page)
qed

section \<open>The interface of the allocator\<close>

text \<open>
  What the clients of the allocator rely on: with \<open>ps\<close> the list of free pages, \<open>alloc\<close> pops and
  \<open>free\<close> pushes.
\<close>

locale page_alloc =
  fixes alloc :: "'s \<Rightarrow> u64 \<times> 's" and free :: "u64 \<Rightarrow> 's \<Rightarrow> 's kres"
    and free_list :: "'s \<Rightarrow> u64 list \<Rightarrow> bool" and page :: "'s \<Rightarrow> u64 \<Rightarrow> bool"
  assumes alloc_empty: "free_list s [] \<Longrightarrow> alloc s = (0, s)"
    and alloc_pop: "free_list s (p # ps) \<Longrightarrow>
      \<exists>s'. alloc s = (p, s') \<and> free_list s' ps \<and> page s' = page s \<and> page s p \<and> p \<noteq> 0"
    and free_push: "free_list s ps \<Longrightarrow> page s p \<Longrightarrow> p \<notin> set ps \<Longrightarrow>
      \<exists>s'. free p s = Inr s' \<and> free_list s' (p # ps) \<and> page s' = page s"
    and no_dups: "free_list s ps \<Longrightarrow> distinct ps"
begin

lemma alloc_free:
  assumes "free_list s (p # ps)"
  shows "\<exists>s' s''. alloc s = (p, s') \<and> free p s' = Inr s'' \<and> free_list s'' (p # ps)"
  using alloc_pop [OF assms] no_dups [OF assms] free_push by fastforce

lemma alloc_two:
  assumes "free_list s (p # q # ps)"
  shows "\<exists>s' s''. alloc s = (p, s') \<and> alloc s' = (q, s'') \<and> free_list s'' ps \<and> p \<noteq> q \<and> p \<noteq> 0 \<and> q \<noteq> 0"
  using alloc_pop [OF assms] alloc_pop [of _ q ps] no_dups [OF assms] by fastforce

end

lemma ram_page_upd: "s' = s\<lparr>mem := m, freelist := f\<rparr> \<Longrightarrow> ram_page s' = ram_page s"
  by (simp add: ram_page_def [abs_def])

interpretation ka: page_alloc kalloc kfree kmem_inv ram_page
proof
  fix s :: "'a machine_scheme" and p ps
  assume inv: "kmem_inv s (p # ps)"
  then have "ram_page s p" "p \<noteq> 0" by (auto simp: kmem_inv_def ram_page_def)
  then show "\<exists>s'. kalloc s = (p, s') \<and> kmem_inv s' ps \<and> ram_page s' = ram_page s \<and> ram_page s p \<and> p \<noteq> 0"
    using kalloc_refines [OF inv] ram_page_upd by metis
next
  fix s :: "'a machine_scheme" and p ps
  assume "kmem_inv s ps" "ram_page s p" "p \<notin> set ps"
  from kfree_refines [OF this]
  show "\<exists>s'. kfree p s = Inr s' \<and> kmem_inv s' (p # ps) \<and> ram_page s' = ram_page s"
    using ram_page_upd by metis
qed (simp_all add: kalloc_none kmem_inv_def)

section \<open>kinit\<close>

lemma PHYSTOP_unat: "unat PHYSTOP = 2281701376"
  by (simp add: PHYSTOP_def KERNBASE_def)

lemma step_page:
  assumes "unat p \<le> unat PHYSTOP"
  shows "unat (p + PGSZ) = unat p + 4096" "p + PGSZ \<le> PHYSTOP \<longleftrightarrow> unat p + 4096 \<le> unat PHYSTOP"
  using assms by (simp_all add: unat_word_ariths PGSZ_def PHYSTOP_unat word_le_nat_alt)

lemma aligned_gap:
  assumes "page_aligned p" "page_aligned q" "p < q" shows "unat p + 4096 \<le> unat q"
proof -
  obtain i where i: "unat p = 4096 * i" using assms(1) unfolding page_aligned_def by auto
  obtain j where j: "unat q = 4096 * j" using assms(2) unfolding page_aligned_def by auto
  show ?thesis using assms(3) i j by (simp add: word_less_nat_alt)
qed

lemma pages_from:
  assumes "page_aligned p" "unat p \<le> unat PHYSTOP"
  shows "{q. page_aligned q \<and> p \<le> q \<and> q < PHYSTOP} =
    (if p + PGSZ \<le> PHYSTOP then insert p {q. page_aligned q \<and> p + PGSZ \<le> q \<and> q < PHYSTOP} else {})"
proof (cases "p + PGSZ \<le> PHYSTOP")
  case True
  then have "p < PHYSTOP" "p \<le> p + PGSZ" using step_page [OF assms(2)] by (auto simp: word_less_nat_alt word_le_nat_alt)
  moreover have "p + PGSZ \<le> q" if "page_aligned q" "p \<le> q" "q \<noteq> p" for q
    using aligned_gap [OF assms(1) that(1) order_le_neq_trans [OF that(2)]] that(3) step_page(1) [OF assms(2)]
    by (auto simp: word_le_nat_alt)
  ultimately show ?thesis using True assms(1) by force
next
  case False
  have "page_aligned PHYSTOP" by (simp add: page_aligned_def PHYSTOP_unat)
  with False have "\<not> p < PHYSTOP" using aligned_gap [OF assms(1)] step_page(2) [OF assms(2)] by blast
  then show ?thesis using False by auto
qed

lemma aligned_next: "page_aligned p \<Longrightarrow> unat p \<le> unat PHYSTOP \<Longrightarrow> page_aligned (p + PGSZ)"
  by (simp add: page_aligned_def step_page(1))

lemma freerange_loop_frees:
  assumes "kmem_inv s ps" "page_aligned p" "kend s \<le> p" "unat p \<le> unat PHYSTOP"
    "unat PHYSTOP < unat p + 4096 * Suc k" "\<forall>q \<in> set ps. q < p"
  shows "\<exists>s' ps'. freerange_loop k p PHYSTOP s = Inr s' \<and> kmem_inv s' ps' \<and> kend s' = kend s \<and>
    set ps' = set ps \<union> {q. page_aligned q \<and> p \<le> q \<and> q < PHYSTOP}"
  using assms
proof (induction k arbitrary: p s ps)
  case 0
  then have "\<not> p + PGSZ \<le> PHYSTOP" by (simp add: step_page(2))
  with 0 show ?case by (auto simp: pages_from)
next
  case (Suc k)
  show ?case
  proof (cases "p + PGSZ \<le> PHYSTOP")
    case False
    with Suc.prems show ?thesis by (auto simp: pages_from)
  next
    case True
    note nx = step_page [OF Suc.prems(4)]
    have lt: "p < p + PGSZ" "p < PHYSTOP" using True nx by (auto simp: word_less_nat_alt)
    have "ram_page s p" "p \<notin> set ps" using Suc.prems lt by (auto simp: ram_page_def)
    from kfree_refines [OF Suc.prems(1) this] obtain s1 where s1: "kfree p s = Inr s1" "kmem_inv s1 (p # ps)"
      "s1 = s\<lparr>mem := mem s1, freelist := p\<rparr>" by blast
    have k1: "kend s1 = kend s" by (subst s1(3)) simp
    have "\<forall>q \<in> set (p # ps). q < p + PGSZ" using Suc.prems(6) lt by auto
    moreover have "kend s1 \<le> p + PGSZ" using k1 Suc.prems(3) lt by auto
    moreover have "unat (p + PGSZ) \<le> unat PHYSTOP" "unat PHYSTOP < unat (p + PGSZ) + 4096 * Suc k"
      using True nx Suc.prems(5) by simp_all
    ultimately obtain s' ps' where "freerange_loop k (p + PGSZ) PHYSTOP s1 = Inr s'" "kmem_inv s' ps'"
      "kend s' = kend s1" "set ps' = set (p # ps) \<union> {q. page_aligned q \<and> p + PGSZ \<le> q \<and> q < PHYSTOP}"
      using Suc.IH [OF s1(2) aligned_next [OF Suc.prems(2,4)]] by blast
    then show ?thesis using True s1(1) k1 pages_from [OF Suc.prems(2,4)] by auto
  qed
qed

lemma kinit_frees_all:
  assumes "KERNBASE \<le> kend s" "kend s \<le> PHYSTOP"
  shows "\<exists>s' ps. kinit s = Inr s' \<and> kmem_inv s' ps \<and>
    set ps = {p. page_aligned p \<and> kend s \<le> p \<and> p < PHYSTOP}"
proof -
  let ?p = "PGROUNDUP (kend s)" and ?s = "s\<lparr>freelist := 0\<rparr>"
  have e: "2147483648 \<le> unat (kend s)" "unat (kend s) \<le> 2281701376"
    using assms by (simp_all add: word_le_nat_alt KERNBASE_def PHYSTOP_unat)
  have up: "unat ?p = (unat (kend s) + 4095) div 4096 * 4096"
    using e by (intro unat_PGROUNDUP) simp
  then have al: "page_aligned ?p" by (simp add: page_aligned_def)
  have dm: "unat ?p + (unat (kend s) + 4095) mod 4096 = unat (kend s) + 4095" unfolding up by simp
  have "(unat (kend s) + 4095) mod 4096 < 4096" by simp
  then have ge: "unat (kend s) \<le> unat ?p" "unat ?p < unat (kend s) + 4096" using dm by linarith+
  have "(unat (kend s) + 4095) div 4096 \<le> (2281701376 + 4095) div 4096" using e(2) by (intro div_le_mono) simp
  then have le: "unat ?p \<le> unat PHYSTOP" unfolding up PHYSTOP_unat by simp
  have same: "{q. page_aligned q \<and> ?p \<le> q \<and> q < PHYSTOP} = {q. page_aligned q \<and> kend s \<le> q \<and> q < PHYSTOP}"
  proof (intro Collect_cong conj_cong refl iffI)
    fix q assume q: "page_aligned q" "kend s \<le> q"
    show "?p \<le> q" using aligned_gap [OF q(1) al] q(2) ge by (force simp: word_le_nat_alt word_less_nat_alt)
  qed (use ge in \<open>simp add: word_le_nat_alt\<close>)
  have "0 < kend s" using e(1) by (simp add: word_less_nat_alt)
  then have "kmem_inv ?s []" by (simp add: kmem_inv_def)
  then obtain s' ps where "freerange_loop 32768 ?p PHYSTOP ?s = Inr s'" "kmem_inv s' ps"
    "set ps = {} \<union> {q. page_aligned q \<and> ?p \<le> q \<and> q < PHYSTOP}"
    using freerange_loop_frees [of ?s "[]" ?p 32768] al ge le e by (auto simp: word_le_nat_alt PHYSTOP_unat)
  then show ?thesis unfolding same kinit_def freerange_def by auto
qed

section \<open>Properties\<close>

text \<open>\<^verbatim>\<open>kalloc\<close> hands out the first page of the free list, filled with the junk byte 5, and
  changes no other memory; with no page left it returns 0 and changes nothing.\<close>

lemma kalloc_pops:
  assumes "kmem_inv s ps"
  shows "case ps of
      [] \<Rightarrow> kalloc s = (0, s)
    | p # qs \<Rightarrow> \<exists>s'. kalloc s = (p, s') \<and> p \<noteq> 0 \<and> kmem_inv s' qs \<and>
        (\<forall>x. mem s' x = (if in_page x p then 5 else mem s x))"
proof (cases ps)
  case Nil
  then show ?thesis using kalloc_none [of s] assms by simp
next
  case (Cons p qs)
  then have "p \<noteq> 0" using kmem_inv_nonzero [OF assms, of p] by simp
  then show ?thesis using kalloc_refines [of s p qs] assms Cons by auto
qed

definition ex_machine :: machine where
  "ex_machine = \<lparr>mem = \<lambda>_. 0, freelist = 0x80021000, kend = 0x80020000, etext = 0x80008000, trampoline = 0x80007000\<rparr>"

lemma ex_machine_inv: "kmem_inv ex_machine [0x80021000]"
  by (simp add: kmem_inv_def ex_machine_def load64_def ram_page_def page_aligned_def PHYSTOP_def KERNBASE_def)

text \<open>C38. \<^verbatim>\<open>kfree\<close> of an allocated page puts it at the front of the free list and changes no memory
  outside the page; it panics exactly on an address that is not page-aligned or not in the RAM
  above the kernel.\<close>

theorem kfree_pushes:
  assumes "kmem_inv s ps" "p \<notin> set ps"
  shows "if ram_page s p
    then \<exists>s'. kfree p s = Inr s' \<and> kmem_inv s' (p # ps) \<and> (\<forall>x. \<not> in_page x p \<longrightarrow> mem s' x = mem s x)
    else kfree p s = Inl (Panic ''kfree'')"
proof (cases "ram_page s p")
  case True
  then show ?thesis using kfree_refines [OF assms(1) True assms(2)] by auto
qed (auto simp: kfree_def ram_page_def page_aligned_def)

theorem kfree_pushes_witness:
  "(\<exists>s'. kfree 0x80022000 ex_machine = Inr s' \<and> kmem_inv s' [0x80022000, 0x80021000] \<and>
     mem s' 0x80023000 = mem ex_machine 0x80023000) \<and>
   kfree 0x1000 ex_machine = Inl (Panic ''kfree'')"
proof -
  have "ram_page ex_machine 0x80022000" "\<not> ram_page ex_machine 0x1000" "\<not> in_page 0x80023000 0x80022000"
    by (simp_all add: ram_page_def page_aligned_def ex_machine_def PHYSTOP_def KERNBASE_def in_range_def)
  then show ?thesis
    using kfree_pushes [OF ex_machine_inv, of "0x80022000"] kfree_pushes [OF ex_machine_inv, of "0x1000"] by auto
qed

text \<open>\<^verbatim>\<open>kinit\<close> does not panic and frees every page between the end of the kernel and
  \<^verbatim>\<open>PHYSTOP\<close>, each once.\<close>

lemma kinit_all_pages:
  assumes "KERNBASE \<le> kend s" "kend s \<le> PHYSTOP"
  shows "\<exists>s' ps. kinit s = Inr s' \<and> kmem_inv s' ps \<and> distinct ps \<and>
    set ps = {p. page_aligned p \<and> kend s \<le> p \<and> p < PHYSTOP}"
  using kinit_frees_all [OF assms] ka.no_dups by blast

end
