(* ===== verification/Vm.thy ===== *)
theory Vm
  imports Kalloc
begin

text \<open>
  \<^verbatim>\<open>kernel/vm.c\<close>: Sv39 page tables in physical memory. A page table is the address of a page
  of 512 entries, read and written with \<open>load64\<close> and \<open>store64\<close>; \<open>walk\<close> goes through the three
  levels and allocates missing table pages from the free list, exactly as the code does. The
  process whose memory is faulted in (\<^verbatim>\<open>myproc()\<close> in \<^verbatim>\<open>vmfault\<close>) is given by its size and its
  page table. A loop over pages is bounded by a number of pages.
\<close>

section \<open>Page-table entries (riscv.h)\<close>

definition PTE_V :: u64 where "PTE_V = 1"
definition PTE_R :: u64 where "PTE_R = 2"
definition PTE_W :: u64 where "PTE_W = 4"
definition PTE_X :: u64 where "PTE_X = 8"
definition PTE_U :: u64 where "PTE_U = 16"

definition PA2PTE :: "u64 \<Rightarrow> u64" where "PA2PTE pa = push_bit 10 (drop_bit 12 pa)"
definition PTE2PA :: "u64 \<Rightarrow> u64" where "PTE2PA pte = push_bit 12 (drop_bit 10 pte)"
definition PTE_FLAGS :: "u64 \<Rightarrow> u64" where "PTE_FLAGS pte = pte AND 0x3FF"
definition PX :: "nat \<Rightarrow> u64 \<Rightarrow> u64" where "PX level va = drop_bit (12 + 9 * level) va AND 0x1FF"

text \<open>The address of \<^verbatim>\<open>pagetable[PX(level, va)]\<close>, and whether a flag is set in an entry.\<close>

definition pte_addr :: "u64 \<Rightarrow> nat \<Rightarrow> u64 \<Rightarrow> u64" where
  "pte_addr pt level va = pt + 8 * PX level va"

definition pte_has :: "u64 \<Rightarrow> u64 \<Rightarrow> bool" where
  "pte_has pte flag \<longleftrightarrow> pte AND flag \<noteq> 0"

section \<open>walk, walkaddr, ismapped\<close>

primrec walk_levels :: "nat \<Rightarrow> u64 \<Rightarrow> u64 \<Rightarrow> bool \<Rightarrow> 'a machine_scheme \<Rightarrow> u64 \<times> 'a machine_scheme" where
  "walk_levels 0 pt va alloc s = (pte_addr pt 0 va, s)"
| "walk_levels (Suc l) pt va alloc s =
     (let pte = pte_addr pt (Suc l) va;
          e = load64 (mem s) pte
      in if pte_has e PTE_V then walk_levels l (PTE2PA e) va alloc s
         else if \<not> alloc then (0, s)
         else case kalloc s of (pg, s) \<Rightarrow>
           if pg = 0 then (0, s)
           else
             let m = memset (mem s) pg 0 PGSIZE;
                 m = store64 m pte (PA2PTE pg OR PTE_V)
             in walk_levels l pg va alloc (s\<lparr>mem := m\<rparr>))"

definition walk :: "u64 \<Rightarrow> u64 \<Rightarrow> bool \<Rightarrow> 'a machine_scheme \<Rightarrow> (u64 \<times> 'a machine_scheme) kres" where
  "walk pt va alloc s =
     (if va \<ge> MAXVA then Inl (Panic ''walk'') else Inr (walk_levels 2 pt va alloc s))"

definition walkaddr :: "u64 \<Rightarrow> u64 \<Rightarrow> 'a machine_scheme \<Rightarrow> u64" where
  "walkaddr pt va s =
     (if va \<ge> MAXVA then 0
      else
        let pte = fst (walk_levels 2 pt va False s)
        in if pte = 0 then 0
           else if \<not> pte_has (load64 (mem s) pte) PTE_V then 0
           else if \<not> pte_has (load64 (mem s) pte) PTE_U then 0
           else PTE2PA (load64 (mem s) pte))"

definition ismapped :: "u64 \<Rightarrow> u64 \<Rightarrow> 'a machine_scheme \<Rightarrow> bool kres" where
  "ismapped pt va s = rbind (walk pt va False s) (\<lambda>(pte, s).
     Inr (pte \<noteq> 0 \<and> pte_has (load64 (mem s) pte) PTE_V))"

section \<open>mappages and the kernel's page table\<close>

primrec mappages_loop ::
  "nat \<Rightarrow> u64 \<Rightarrow> u64 \<Rightarrow> u64 \<Rightarrow> u64 \<Rightarrow> u64 \<Rightarrow> 'a machine_scheme \<Rightarrow> (int \<times> 'a machine_scheme) kres" where
  "mappages_loop 0 pt a lst pa perm s = Inl OutOfFuel"
| "mappages_loop (Suc k) pt a lst pa perm s =
     rbind (walk pt a True s) (\<lambda>(pte, s).
       if pte = 0 then Inr (-1, s)
       else if pte_has (load64 (mem s) pte) PTE_V then Inl (Panic ''mappages: remap'')
       else
         let s = s\<lparr>mem := store64 (mem s) pte (PA2PTE pa OR perm OR PTE_V)\<rparr>
         in if a = lst then Inr (0, s)
            else mappages_loop k pt (a + PGSZ) lst (pa + PGSZ) perm s)"

definition mappages ::
  "u64 \<Rightarrow> u64 \<Rightarrow> u64 \<Rightarrow> u64 \<Rightarrow> u64 \<Rightarrow> 'a machine_scheme \<Rightarrow> (int \<times> 'a machine_scheme) kres" where
  "mappages pt va sz pa perm s =
     (if unat va mod PGSIZE \<noteq> 0 then Inl (Panic ''mappages: va not aligned'')
      else if unat sz mod PGSIZE \<noteq> 0 then Inl (Panic ''mappages: size not aligned'')
      else if sz = 0 then Inl (Panic ''mappages: size'')
      else mappages_loop (unat sz div PGSIZE) pt va (va + sz - PGSZ) pa perm s)"

definition kvmmap :: "u64 \<Rightarrow> u64 \<Rightarrow> u64 \<Rightarrow> u64 \<Rightarrow> u64 \<Rightarrow> 'a machine_scheme \<Rightarrow> 'a machine_scheme kres" where
  "kvmmap kpgtbl va pa sz perm s = rbind (mappages kpgtbl va sz pa perm s) (\<lambda>(r, s).
     if r \<noteq> 0 then Inl (Panic ''kvmmap'') else Inr s)"

text \<open>\<^verbatim>\<open>proc_mapstacks\<close> of \<^verbatim>\<open>kernel/proc.c\<close>.\<close>

definition proc_mapstacks :: "u64 \<Rightarrow> 'a machine_scheme \<Rightarrow> 'a machine_scheme kres" where
  "proc_mapstacks kpgtbl = rfold (\<lambda>p s. case kalloc s of (pa, s) \<Rightarrow>
     if pa = 0 then Inl (Panic ''kalloc'')
     else kvmmap kpgtbl (KSTACK p) pa PGSZ (PTE_R OR PTE_W) s) [0..<NPROC]"

definition UART0 :: u64 where "UART0 = 0x10000000"
definition VIRTIO0 :: u64 where "VIRTIO0 = 0x10001000"
definition PLIC :: u64 where "PLIC = 0x0c000000"

definition kvmmake :: "'a machine_scheme \<Rightarrow> (u64 \<times> 'a machine_scheme) kres" where
  "kvmmake s = (case kalloc s of (kpgtbl, s) \<Rightarrow>
     let s = s\<lparr>mem := memset (mem s) kpgtbl 0 PGSIZE\<rparr>
     in rbind (kvmmap kpgtbl UART0 UART0 PGSZ (PTE_R OR PTE_W) s) (\<lambda>s.
        rbind (kvmmap kpgtbl VIRTIO0 VIRTIO0 PGSZ (PTE_R OR PTE_W) s) (\<lambda>s.
        rbind (kvmmap kpgtbl PLIC PLIC 0x4000000 (PTE_R OR PTE_W) s) (\<lambda>s.
        rbind (kvmmap kpgtbl KERNBASE KERNBASE (etext s - KERNBASE) (PTE_R OR PTE_X) s) (\<lambda>s.
        rbind (kvmmap kpgtbl (etext s) (etext s) (PHYSTOP - etext s) (PTE_R OR PTE_W) s) (\<lambda>s.
        rbind (kvmmap kpgtbl TRAMPOLINE (trampoline s) PGSZ (PTE_R OR PTE_X) s) (\<lambda>s.
        rbind (proc_mapstacks kpgtbl s) (\<lambda>s. Inr (kpgtbl, s)))))))))"

section \<open>User page tables\<close>

definition uvmcreate :: "'a machine_scheme \<Rightarrow> u64 \<times> 'a machine_scheme" where
  "uvmcreate s = (case kalloc s of (pt, s) \<Rightarrow>
     if pt = 0 then (0, s) else (pt, s\<lparr>mem := memset (mem s) pt 0 PGSIZE\<rparr>))"

text \<open>\<^verbatim>\<open>uvmunmap\<close>: one turn of its loop, and the loop for at most \<open>k\<close> pages.\<close>

definition uvmunmap_page :: "u64 \<Rightarrow> bool \<Rightarrow> u64 \<Rightarrow> 'a machine_scheme \<Rightarrow> 'a machine_scheme kres" where
  "uvmunmap_page pt do_free a s = rbind (walk pt a False s) (\<lambda>(pte, s).
     if pte = 0 then Inr s
     else if \<not> pte_has (load64 (mem s) pte) PTE_V then Inr s
     else rbind (if do_free then kfree (PTE2PA (load64 (mem s) pte)) s else Inr s)
            (\<lambda>s. Inr (s\<lparr>mem := store64 (mem s) pte 0\<rparr>)))"

primrec uvmunmap_loop ::
  "nat \<Rightarrow> u64 \<Rightarrow> bool \<Rightarrow> u64 \<Rightarrow> u64 \<Rightarrow> 'a machine_scheme \<Rightarrow> 'a machine_scheme kres" where
  "uvmunmap_loop 0 pt do_free a stop s = (if a < stop then Inl OutOfFuel else Inr s)"
| "uvmunmap_loop (Suc k) pt do_free a stop s =
     (if a < stop then rbind (uvmunmap_page pt do_free a s) (uvmunmap_loop k pt do_free (a + PGSZ) stop)
      else Inr s)"

definition uvmunmap :: "u64 \<Rightarrow> u64 \<Rightarrow> u64 \<Rightarrow> bool \<Rightarrow> 'a machine_scheme \<Rightarrow> 'a machine_scheme kres" where
  "uvmunmap pt va npages do_free s =
     (if unat va mod PGSIZE \<noteq> 0 then Inl (Panic ''uvmunmap: not aligned'')
      else uvmunmap_loop (unat npages) pt do_free va (va + npages * PGSZ) s)"

definition uvmdealloc :: "u64 \<Rightarrow> u64 \<Rightarrow> u64 \<Rightarrow> 'a machine_scheme \<Rightarrow> (u64 \<times> 'a machine_scheme) kres" where
  "uvmdealloc pt oldsz newsz s =
     (if newsz \<ge> oldsz then Inr (oldsz, s)
      else if PGROUNDUP newsz < PGROUNDUP oldsz then
        let npages = (PGROUNDUP oldsz - PGROUNDUP newsz) div PGSZ;
            npages = scast (ucast npages :: u32) \<comment> \<open>\<^verbatim>\<open>int npages\<close>, passed as a \<^verbatim>\<open>uint64\<close>\<close>
        in rbind (uvmunmap pt (PGROUNDUP newsz) npages True s) (\<lambda>s. Inr (newsz, s))
      else Inr (newsz, s))"

primrec uvmalloc_loop ::
  "nat \<Rightarrow> u64 \<Rightarrow> u64 \<Rightarrow> u64 \<Rightarrow> u64 \<Rightarrow> u64 \<Rightarrow> 'a machine_scheme \<Rightarrow> (u64 \<times> 'a machine_scheme) kres" where
  "uvmalloc_loop 0 pt a oldsz newsz xperm s = (if a < newsz then Inl OutOfFuel else Inr (newsz, s))"
| "uvmalloc_loop (Suc k) pt a oldsz newsz xperm s =
     (if a < newsz then
        (case kalloc s of (pg, s) \<Rightarrow>
           if pg = 0 then rbind (uvmdealloc pt a oldsz s) (\<lambda>(_, s). Inr (0, s))
           else rbind (mappages pt a PGSZ pg (PTE_R OR PTE_U OR xperm)
                         (s\<lparr>mem := memset (mem s) pg 0 PGSIZE\<rparr>)) (\<lambda>(r, s).
             if r \<noteq> 0 then rbind (kfree pg s) (\<lambda>s. rbind (uvmdealloc pt a oldsz s) (\<lambda>(_, s). Inr (0, s)))
             else uvmalloc_loop k pt (a + PGSZ) oldsz newsz xperm s))
      else Inr (newsz, s))"

definition uvmalloc :: "u64 \<Rightarrow> u64 \<Rightarrow> u64 \<Rightarrow> u64 \<Rightarrow> 'a machine_scheme \<Rightarrow> (u64 \<times> 'a machine_scheme) kres" where
  "uvmalloc pt oldsz newsz xperm s =
     (if newsz < oldsz then Inr (oldsz, s)
      else
        let oldsz = PGROUNDUP oldsz
        in uvmalloc_loop (unat newsz div PGSIZE + 1) pt oldsz oldsz newsz xperm s)"

text \<open>\<^verbatim>\<open>freewalk\<close>: \<open>d\<close> bounds the depth of the recursion; a page table has three levels.\<close>

primrec freewalk :: "nat \<Rightarrow> u64 \<Rightarrow> 'a machine_scheme \<Rightarrow> 'a machine_scheme kres" where
  "freewalk 0 pt s = Inl OutOfFuel"
| "freewalk (Suc d) pt s =
     rbind (rfold (\<lambda>i s.
        let pte = load64 (mem s) (pt + 8 * of_nat i)
        in if pte_has pte PTE_V \<and> pte AND (PTE_R OR PTE_W OR PTE_X) = 0 then
             rbind (freewalk d (PTE2PA pte) s)
               (\<lambda>s. Inr (s\<lparr>mem := store64 (mem s) (pt + 8 * of_nat i) 0\<rparr>))
           else if pte_has pte PTE_V then Inl (Panic ''freewalk: leaf'')
           else Inr s) [0..<512] s) (kfree pt)"

definition uvmfree :: "u64 \<Rightarrow> u64 \<Rightarrow> 'a machine_scheme \<Rightarrow> 'a machine_scheme kres" where
  "uvmfree pt sz s =
     rbind (if sz > 0 then uvmunmap pt 0 (PGROUNDUP sz div PGSZ) True s else Inr s) (freewalk 3 pt)"

primrec uvmcopy_loop ::
  "nat \<Rightarrow> u64 \<Rightarrow> u64 \<Rightarrow> u64 \<Rightarrow> u64 \<Rightarrow> 'a machine_scheme \<Rightarrow> (int \<times> 'a machine_scheme) kres" where
  "uvmcopy_loop 0 old new i sz s = (if i < sz then Inl OutOfFuel else Inr (0, s))"
| "uvmcopy_loop (Suc k) old new i sz s =
     (if i < sz then
        rbind (walk old i False s) (\<lambda>(pte, s).
          if pte = 0 \<or> \<not> pte_has (load64 (mem s) pte) PTE_V then uvmcopy_loop k old new (i + PGSZ) sz s
          else
            let pa = PTE2PA (load64 (mem s) pte);
                flags = PTE_FLAGS (load64 (mem s) pte)
            in case kalloc s of (pg, s) \<Rightarrow>
              if pg = 0 then rbind (uvmunmap new 0 (i div PGSZ) True s) (\<lambda>s. Inr (-1, s))
              else rbind (mappages new i PGSZ pg flags (s\<lparr>mem := memmove (mem s) pg pa PGSIZE\<rparr>)) (\<lambda>(r, s).
                if r \<noteq> 0 then
                  rbind (kfree pg s) (\<lambda>s. rbind (uvmunmap new 0 (i div PGSZ) True s) (\<lambda>s. Inr (-1, s)))
                else uvmcopy_loop k old new (i + PGSZ) sz s))
      else Inr (0, s))"

definition uvmcopy :: "u64 \<Rightarrow> u64 \<Rightarrow> u64 \<Rightarrow> 'a machine_scheme \<Rightarrow> (int \<times> 'a machine_scheme) kres" where
  "uvmcopy old new sz s = uvmcopy_loop (unat sz div PGSIZE + 1) old new 0 sz s"

definition uvmclear :: "u64 \<Rightarrow> u64 \<Rightarrow> 'a machine_scheme \<Rightarrow> 'a machine_scheme kres" where
  "uvmclear pt va s = rbind (walk pt va False s) (\<lambda>(pte, s).
     if pte = 0 then Inl (Panic ''uvmclear'')
     else Inr (s\<lparr>mem := store64 (mem s) pte (load64 (mem s) pte AND NOT PTE_U)\<rparr>))"

section \<open>Copying between user and kernel memory\<close>

text \<open>\<open>psz\<close> and \<open>ppt\<close> are the size and the page table of the running process.\<close>

definition vmfault :: "u64 \<Rightarrow> u64 \<Rightarrow> u64 \<Rightarrow> u64 \<Rightarrow> 'a machine_scheme \<Rightarrow> (u64 \<times> 'a machine_scheme) kres" where
  "vmfault psz ppt pt va s =
     (if va \<ge> psz then Inr (0, s)
      else
        let va = PGROUNDDOWN va
        in rbind (ismapped pt va s) (\<lambda>b.
          if b then Inr (0, s)
          else case kalloc s of (pg, s) \<Rightarrow>
            if pg = 0 then Inr (0, s)
            else rbind (mappages ppt va PGSZ pg (PTE_W OR PTE_U OR PTE_R)
                          (s\<lparr>mem := memset (mem s) pg 0 PGSIZE\<rparr>)) (\<lambda>(r, s).
              if r \<noteq> 0 then rbind (kfree pg s) (\<lambda>s. Inr (0, s)) else Inr (pg, s))))"

text \<open>The page lookup both copies start a turn with: \<^verbatim>\<open>walkaddr\<close>, then \<^verbatim>\<open>vmfault\<close>.\<close>

definition fault_in :: "u64 \<Rightarrow> u64 \<Rightarrow> u64 \<Rightarrow> u64 \<Rightarrow> 'a machine_scheme \<Rightarrow> (u64 \<times> 'a machine_scheme) kres" where
  "fault_in psz ppt pt va0 s =
     (if walkaddr pt va0 s = 0 then vmfault psz ppt pt va0 s else Inr (walkaddr pt va0 s, s))"

text \<open>The number of bytes until the end of the page, at most \<open>len\<close>.\<close>

definition page_chunk :: "u64 \<Rightarrow> nat \<Rightarrow> nat" where
  "page_chunk va len = min (PGSIZE - unat (va - PGROUNDDOWN va)) len"

lemma page_chunk_pos [simp]: "0 < len \<Longrightarrow> 0 < page_chunk va len"
  by (simp add: page_chunk_def unat_offset_in_page)

definition load_bytes :: "memory \<Rightarrow> u64 \<Rightarrow> nat \<Rightarrow> u8 list" where
  "load_bytes m a n = map (\<lambda>k. m (a + of_nat k)) [0..<n]"

primrec store_bytes :: "memory \<Rightarrow> u64 \<Rightarrow> u8 list \<Rightarrow> memory" where
  "store_bytes m a [] = m"
| "store_bytes m a (b # bs) = store_bytes (m(a := b)) (a + 1) bs"

text \<open>\<^verbatim>\<open>copyin\<close> hands over the bytes it has stored at \<^verbatim>\<open>dst\<close> and whether it succeeded.\<close>

function copyin_loop ::
  "u64 \<Rightarrow> u64 \<Rightarrow> u64 \<Rightarrow> u64 \<Rightarrow> nat \<Rightarrow> u8 list \<Rightarrow> 'a machine_scheme \<Rightarrow> ((u8 list \<times> bool) \<times> 'a machine_scheme) kres"
where
  "copyin_loop psz ppt pt srcva len acc s =
     (if len = 0 then Inr ((acc, True), s)
      else
        let va0 = PGROUNDDOWN srcva
        in rbind (fault_in psz ppt pt va0 s) (\<lambda>(pa0, s).
          if pa0 = 0 then Inr ((acc, False), s)
          else
            let n = page_chunk srcva len
            in copyin_loop psz ppt pt (va0 + PGSZ) (len - n)
                 (acc @ load_bytes (mem s) (pa0 + (srcva - va0)) n) s))"
  by pat_completeness auto
termination by (relation "measure (\<lambda>(_, _, _, _, len, _, _). len)") auto

definition copyin ::
  "u64 \<Rightarrow> u64 \<Rightarrow> u64 \<Rightarrow> u64 \<Rightarrow> nat \<Rightarrow> 'a machine_scheme \<Rightarrow> ((u8 list \<times> bool) \<times> 'a machine_scheme) kres" where
  "copyin psz ppt pt srcva len s = copyin_loop psz ppt pt srcva len [] s"

text \<open>\<^verbatim>\<open>copyout\<close> of the kernel bytes \<open>src\<close>. A null entry would be dereferenced at address 0,
  which the kernel's page table does not map: the trap handler panics.\<close>

function copyout ::
  "u64 \<Rightarrow> u64 \<Rightarrow> u64 \<Rightarrow> u64 \<Rightarrow> u8 list \<Rightarrow> 'a machine_scheme \<Rightarrow> (bool \<times> 'a machine_scheme) kres" where
  "copyout psz ppt pt dstva src s =
     (if length src = 0 then Inr (True, s)
      else
        let va0 = PGROUNDDOWN dstva
        in if va0 \<ge> MAXVA then Inr (False, s)
           else rbind (fault_in psz ppt pt va0 s) (\<lambda>(pa0, s).
             if pa0 = 0 then Inr (False, s)
             else rbind (walk pt va0 False s) (\<lambda>(pte, s).
               if pte = 0 then Inl (Panic ''kerneltrap'')
               else if \<not> pte_has (load64 (mem s) pte) PTE_W then Inr (False, s)
               else
                 let n = page_chunk dstva (length src);
                     s = s\<lparr>mem := store_bytes (mem s) (pa0 + (dstva - va0)) (take n src)\<rparr>
                 in copyout psz ppt pt (va0 + PGSZ) (drop n src) s)))"
  by pat_completeness auto
termination by (relation "measure (\<lambda>(_, _, _, _, src, _). length src)") auto

text \<open>\<^verbatim>\<open>copyinstr\<close>: the inner loop copies up to a NUL; the flag says that it found one.\<close>

primrec copyinstr_chunk :: "memory \<Rightarrow> u64 \<Rightarrow> nat \<Rightarrow> u8 list \<times> bool" where
  "copyinstr_chunk m p 0 = ([], False)"
| "copyinstr_chunk m p (Suc n) =
     (if m p = 0 then ([0], True)
      else case copyinstr_chunk m (p + 1) n of (bs, got_null) \<Rightarrow> (m p # bs, got_null))"

function copyinstr :: "u64 \<Rightarrow> u64 \<Rightarrow> nat \<Rightarrow> u8 list \<Rightarrow> 'a machine_scheme \<Rightarrow> u8 list \<times> bool" where
  "copyinstr pt srcva mx acc s =
     (if mx = 0 then (acc, False)
      else
        let va0 = PGROUNDDOWN srcva;
            pa0 = walkaddr pt va0 s
        in if pa0 = 0 then (acc, False)
           else case copyinstr_chunk (mem s) (pa0 + (srcva - va0)) (page_chunk srcva mx) of (bs, got_null) \<Rightarrow>
             if got_null then (acc @ bs, True)
             else copyinstr pt (va0 + PGSZ) (mx - page_chunk srcva mx) (acc @ bs) s)"
  by pat_completeness auto
termination by (relation "measure (\<lambda>(_, _, mx, _, _). mx)") auto

declare copyin_loop.simps [simp del] copyout.simps [simp del] copyinstr.simps [simp del]

end
