(* ===== verification/Vm_Copy.thy ===== *)
theory Vm_Copy
  imports Vm
begin

text \<open>
  What \<^verbatim>\<open>copyin\<close> and \<^verbatim>\<open>copyout\<close> do. A walk that does not allocate changes nothing; \<open>copyin\<close>
  stores a prefix of what it was asked for; on resident memory it delivers the bytes at the
  translated addresses; \<open>copyout\<close> to writable memory stores at the translated addresses,
  provided that the frames written do not hold entries of the page table that translates
  them. The loops over pages get by with the bounds the definitions give them.
\<close>

section \<open>Bounded loops\<close>

lemma mappages_loop_fuel:
  assumes "lst = a + of_nat k * PGSZ"
  shows "mappages_loop (Suc k) pt a lst pa perm s \<noteq> Inl OutOfFuel"
  using assms
proof (induction k arbitrary: a pa s)
  case 0
  then show ?case by (auto simp: walk_def Let_def split: prod.splits)
next
  case (Suc k)
  then have "lst = a + PGSZ + of_nat k * PGSZ" by (simp add: algebra_simps)
  note IH = Suc.IH [OF this]
  show ?case
    unfolding mappages_loop.simps(2) [of "Suc k"]
    using IH by (auto simp: walk_def Let_def rbind_eq_Inl split: prod.splits simp del: mappages_loop.simps)
qed

lemma mappages_fuel: "mappages pt va sz pa perm s \<noteq> Inl OutOfFuel"
proof -
  have "mappages_loop (unat sz div 4096) pt va (va + sz - PGSZ) pa perm s \<noteq> Inl OutOfFuel"
    if al: "unat sz mod 4096 = 0" and nz: "sz \<noteq> 0"
  proof -
    obtain k where k: "unat sz = 4096 * Suc k"
    proof -
      obtain j where j: "unat sz = 4096 * j" using al by auto
      moreover have "j \<noteq> 0" using nz j by (metis mult_0_right unat_eq_zero)
      ultimately show thesis using that by (metis not0_implies_Suc)
    qed
    then have "sz = of_nat (4096 * Suc k)" by (metis of_nat_unat ucast_id)
    then have "va + sz - PGSZ = va + of_nat k * PGSZ" by (simp add: PGSZ_def algebra_simps)
    moreover have "unat sz div 4096 = Suc k" using k by simp
    ultimately show ?thesis by (simp only: mappages_loop_fuel not_False_eq_True)
  qed
  then show ?thesis by (simp add: mappages_def)
qed

section \<open>Walking without allocating\<close>

lemma walk_levels_pure [simp]: "snd (walk_levels l pt va False s) = s"
  by (induction l arbitrary: pt) (simp_all add: Let_def)

lemma walk_levels_split: "walk_levels l pt va False s = (fst (walk_levels l pt va False s), s)"
  by (metis prod.collapse walk_levels_pure)

text \<open>The addresses of the entries a walk reads.\<close>

primrec walk_path :: "memory \<Rightarrow> nat \<Rightarrow> u64 \<Rightarrow> u64 \<Rightarrow> u64 list" where
  "walk_path m 0 pt va = [pte_addr pt 0 va]"
| "walk_path m (Suc l) pt va =
     (let pte = pte_addr pt (Suc l) va; e = load64 m pte
      in pte # (if pte_has e PTE_V then walk_path m l (PTE2PA e) va else []))"

lemma walk_path_frame:
  assumes "\<forall>q \<in> set (walk_path (mem s) l pt va). load64 (mem s') q = load64 (mem s) q"
  shows "walk_path (mem s') l pt va = walk_path (mem s) l pt va"
    "fst (walk_levels l pt va False s') = fst (walk_levels l pt va False s)"
  using assms by (induction l arbitrary: pt) (simp_all add: Let_def split: if_splits)

lemma walk_path_last:
  "fst (walk_levels l pt va False s) \<noteq> 0 \<Longrightarrow> fst (walk_levels l pt va False s) \<in> set (walk_path (mem s) l pt va)"
  by (induction l arbitrary: pt) (auto simp: Let_def)

lemma walkaddr_frame:
  assumes "\<forall>q \<in> set (walk_path (mem s) 2 pt va). load64 (mem s') q = load64 (mem s) q"
  shows "walkaddr pt va s' = walkaddr pt va s"
  using walk_path_frame(2) [OF assms] walk_path_last [of 2 pt va s] assms
  unfolding walkaddr_def Let_def by (cases "fst (walk_levels 2 pt va False s) = 0") simp_all

section \<open>Chunks of a page\<close>

lemma chunk_same_page: "k < page_chunk a len \<Longrightarrow> PGROUNDDOWN (a + of_nat k) = PGROUNDDOWN a"
proof -
  assume k: "k < page_chunk a len"
  then have *: "unat (a - PGROUNDDOWN a) + k < 4096" unfolding page_chunk_def PGSIZE_val by linarith
  then have "unat (a - PGROUNDDOWN a + of_nat k) = unat (a - PGROUNDDOWN a) + k"
    by (simp add: unat_word_ariths unat_of_nat)
  then have "in_page (a + of_nat k) (PGROUNDDOWN a)" using * by (simp add: in_range_def algebra_simps)
  moreover have "page_aligned (PGROUNDDOWN a)" by (simp add: page_aligned_def PGROUNDDOWN_aligned)
  ultimately show ?thesis by (simp add: in_page_iff)
qed

lemma next_page: "page_chunk a len < len \<Longrightarrow> PGROUNDDOWN a + PGSZ = a + of_nat (page_chunk a len)"
proof -
  assume "page_chunk a len < len"
  then have "page_chunk a len = 4096 - unat (a - PGROUNDDOWN a)" by (simp add: page_chunk_def min_def split: if_splits)
  moreover have "unat (a - PGROUNDDOWN a) < 4096" by (simp add: unat_offset_in_page)
  ultimately have "of_nat (page_chunk a len) = (4096 :: u64) - of_nat (unat (a - PGROUNDDOWN a))"
    by (simp add: of_nat_diff)
  then show ?thesis by (simp add: PGSZ_def)
qed

lemma page_chunk_le: "page_chunk a len \<le> len"
  by (simp add: page_chunk_def)

section \<open>copyin\<close>

lemma length_load_bytes [simp]: "length (load_bytes m a n) = n"
  by (simp add: load_bytes_def)

lemma copyin_loop_prefix:
  "copyin_loop psz ppt pt srcva len acc s = Inr ((bs, ok), s') \<Longrightarrow>
     length bs \<le> length acc + len \<and> (ok \<longrightarrow> length bs = length acc + len)"
proof (induction psz ppt pt srcva len acc s rule: copyin_loop.induct)
  case (1 psz ppt pt srcva len acc s)
  show ?case
  proof (cases "len = 0")
    case True
    then show ?thesis using "1.prems" by (simp add: copyin_loop.simps)
  next
    case False
    then obtain pa0 s1 where f: "fault_in psz ppt pt (PGROUNDDOWN srcva) s = Inr (pa0, s1)"
      using "1.prems" by (subst (asm) copyin_loop.simps) (auto simp: Let_def rbind_eq_Inr)
    show ?thesis
    proof (cases "pa0 = 0")
      case True
      then show ?thesis using "1.prems" False f by (subst (asm) copyin_loop.simps) (simp add: Let_def)
    next
      case nz: False
      have "copyin_loop psz ppt pt (PGROUNDDOWN srcva + PGSZ) (len - page_chunk srcva len)
          (acc @ load_bytes (mem s1) (pa0 + (srcva - PGROUNDDOWN srcva)) (page_chunk srcva len)) s1
        = Inr ((bs, ok), s')"
        using "1.prems" False f nz by (subst (asm) copyin_loop.simps) (simp add: Let_def)
      from "1.IH" [OF False refl f refl nz refl this] page_chunk_le [of srcva len] show ?thesis by auto
    qed
  qed
qed

text \<open>The physical address of a user address, and the byte there.\<close>

definition upa :: "u64 \<Rightarrow> 'a machine_scheme \<Rightarrow> u64 \<Rightarrow> u64" where
  "upa pt s va = walkaddr pt (PGROUNDDOWN va) s + (va - PGROUNDDOWN va)"

definition ubyte_at :: "u64 \<Rightarrow> 'a machine_scheme \<Rightarrow> u64 \<Rightarrow> u8" where
  "ubyte_at pt s va = mem s (upa pt s va)"

definition upresent :: "u64 \<Rightarrow> 'a machine_scheme \<Rightarrow> u64 \<Rightarrow> nat \<Rightarrow> bool" where
  "upresent pt s a len \<longleftrightarrow> (\<forall>k < len. walkaddr pt (PGROUNDDOWN (a + of_nat k)) s \<noteq> 0)"

lemma upa_chunk: "k < page_chunk a len \<Longrightarrow> upa pt s (a + of_nat k) = upa pt s a + of_nat k"
  by (simp add: upa_def chunk_same_page algebra_simps)

lemma upresent_sub: "upresent pt s a len \<Longrightarrow> j + c \<le> len \<Longrightarrow> upresent pt s (a + of_nat j) c"
  unfolding upresent_def
proof (intro allI impI)
  fix k assume *: "\<forall>k<len. walkaddr pt (PGROUNDDOWN (a + of_nat k)) s \<noteq> 0" "j + c \<le> len" "k < c"
  then have "j + k < len" by simp
  with *(1) have "walkaddr pt (PGROUNDDOWN (a + of_nat (j + k))) s \<noteq> 0" by blast
  then show "walkaddr pt (PGROUNDDOWN (a + of_nat j + of_nat k)) s \<noteq> 0" by (simp add: add.assoc)
qed

lemma upresent_first: "upresent pt s a len \<Longrightarrow> 0 < len \<Longrightarrow> walkaddr pt (PGROUNDDOWN a) s \<noteq> 0"
  by (auto simp: upresent_def dest: spec [of _ 0])

lemma load_bytes_chunk:
  "load_bytes (mem s) (upa pt s a) (page_chunk a len) = map (\<lambda>k. ubyte_at pt s (a + of_nat k)) [0..<page_chunk a len]"
  by (simp add: load_bytes_def ubyte_at_def upa_chunk)

lemma copyin_loop_present:
  assumes "upresent pt s a len"
  shows "copyin_loop psz ppt pt a len acc s =
    Inr ((acc @ map (\<lambda>k. ubyte_at pt s (a + of_nat k)) [0..<len], True), s)"
  using assms
proof (induction len arbitrary: a acc rule: less_induct)
  case (less len)
  show ?case
  proof (cases "len = 0")
    case True
    then show ?thesis by (simp add: copyin_loop.simps)
  next
    case False
    let ?n = "page_chunk a len"
    have n: "0 < ?n" "?n \<le> len" using False page_chunk_le by simp_all
    have w: "walkaddr pt (PGROUNDDOWN a) s \<noteq> 0" using upresent_first [OF less.prems] False by simp
    have "copyin_loop psz ppt pt a len acc s = copyin_loop psz ppt pt (PGROUNDDOWN a + PGSZ) (len - ?n)
        (acc @ load_bytes (mem s) (upa pt s a) ?n) s"
      using False w by (subst copyin_loop.simps) (simp add: Let_def fault_in_def upa_def)
    also have "\<dots> = copyin_loop psz ppt pt (a + of_nat ?n) (len - ?n)
        (acc @ map (\<lambda>k. ubyte_at pt s (a + of_nat k)) [0..<?n]) s"
      using next_page [of a len] n(2) unfolding load_bytes_chunk
      by (cases "?n < len") (simp_all add: copyin_loop.simps [where len = 0])
    also have "\<dots> = Inr (((acc @ map (\<lambda>k. ubyte_at pt s (a + of_nat k)) [0..<?n]) @
        map (\<lambda>k. ubyte_at pt s (a + of_nat ?n + of_nat k)) [0..<len - ?n], True), s)"
      using n upresent_sub [OF less.prems, of ?n "len - ?n"] by (intro less.IH) auto
    also have "map (\<lambda>k. ubyte_at pt s (a + of_nat ?n + of_nat k)) [0..<len - ?n]
        = map (\<lambda>k. ubyte_at pt s (a + of_nat k)) [?n..<len]"
      by (rule nth_equalityI) (simp_all add: add.assoc)
    finally show ?thesis
      using upt_add_eq_append [of 0 ?n "len - ?n"] n(2) by (simp flip: map_append)
  qed
qed

lemma copyin_present:
  "upresent pt s a len \<Longrightarrow>
    copyin psz ppt pt a len s = Inr ((map (\<lambda>k. ubyte_at pt s (a + of_nat k)) [0..<len], True), s)"
  by (simp add: copyin_def copyin_loop_present)

section \<open>copyout\<close>

primrec ustore_mem :: "(u64 \<Rightarrow> u64) \<Rightarrow> memory \<Rightarrow> u64 \<Rightarrow> u8 list \<Rightarrow> memory" where
  "ustore_mem tr m a [] = m"
| "ustore_mem tr m a (b # bs) = ustore_mem tr (m(tr a := b)) (a + 1) bs"

definition ustore_at :: "u64 \<Rightarrow> 'a machine_scheme \<Rightarrow> u64 \<Rightarrow> u8 list \<Rightarrow> 'a machine_scheme" where
  "ustore_at pt s a bs = s\<lparr>mem := ustore_mem (upa pt s) (mem s) a bs\<rparr>"

text \<open>
  The pages of a range are present and writable, and no byte of the range lies in a
  page-table entry that translates the range.
\<close>

definition uwritable :: "u64 \<Rightarrow> 'a machine_scheme \<Rightarrow> u64 \<Rightarrow> nat \<Rightarrow> bool" where
  "uwritable pt s a len \<longleftrightarrow> upresent pt s a len \<and>
     (\<forall>k < len. pte_has (load64 (mem s) (fst (walk_levels 2 pt (PGROUNDDOWN (a + of_nat k)) False s))) PTE_W) \<and>
     (\<forall>k < len. \<forall>j < len. \<forall>q \<in> set (walk_path (mem s) 2 pt (PGROUNDDOWN (a + of_nat j))).
        \<not> in_range (upa pt s (a + of_nat k)) q 8)"

lemma ustore_mem_other: "(\<And>k. k < length bs \<Longrightarrow> tr (a + of_nat k) \<noteq> x) \<Longrightarrow> ustore_mem tr m a bs x = m x"
proof (induction bs arbitrary: m a)
  case (Cons b bs)
  have "tr (a + 1 + of_nat k) \<noteq> x" if "k < length bs" for k
    using Cons.prems [of "Suc k"] that by (simp add: add.assoc)
  moreover have "tr a \<noteq> x" using Cons.prems [of 0] by simp
  ultimately show ?case using Cons.IH by simp
qed simp

lemma ustore_mem_append:
  "ustore_mem tr m a (xs @ ys) = ustore_mem tr (ustore_mem tr m a xs) (a + of_nat (length xs)) ys"
  by (induction xs arbitrary: m a) (simp_all add: add.assoc)

lemma ustore_mem_cong:
  "(\<And>k. k < length bs \<Longrightarrow> tr (a + of_nat k) = tr' (a + of_nat k)) \<Longrightarrow> ustore_mem tr m a bs = ustore_mem tr' m a bs"
proof (induction bs arbitrary: m a)
  case (Cons b bs)
  have "tr (a + 1 + of_nat k) = tr' (a + 1 + of_nat k)" if "k < length bs" for k
    using Cons.prems [of "Suc k"] that by (simp add: add.assoc)
  then have "ustore_mem tr (m(tr a := b)) (a + 1) bs = ustore_mem tr' (m(tr a := b)) (a + 1) bs"
    by (rule Cons.IH)
  moreover have "tr a = tr' a" using Cons.prems [of 0] by simp
  ultimately show ?case by (simp only: ustore_mem.simps)
qed simp

lemma store_bytes_linear:
  "(\<And>k. k < length bs \<Longrightarrow> tr (a + of_nat k) = p + of_nat k) \<Longrightarrow> store_bytes m p bs = ustore_mem tr m a bs"
proof (induction bs arbitrary: m a p)
  case (Cons b bs)
  have "tr (a + 1 + of_nat k) = p + 1 + of_nat k" if "k < length bs" for k
    using Cons.prems [of "Suc k"] that by (simp add: add.assoc)
  moreover have "tr a = p" using Cons.prems [of 0] by simp
  ultimately show ?case using Cons.IH [of "a + 1" "p + 1"] by simp
qed simp

lemma uwritable_sub:
  assumes "uwritable pt s a len" "j + c \<le> len" shows "uwritable pt s (a + of_nat j) c"
proof -
  have eq: "a + of_nat j + of_nat k = a + of_nat (j + k)" for k by (simp add: add.assoc)
  have lt: "k < c \<Longrightarrow> j + k < len" for k using assms(2) by simp
  show ?thesis
    using assms(1) upresent_sub [OF _ assms(2), of pt s a] lt unfolding uwritable_def eq by blast
qed

text \<open>Storing into a writable range leaves the translation of the range as it was.\<close>

lemma ustore_keeps_ptes:
  assumes "uwritable pt s a len" "j + length bs \<le> len" "i < len"
    "q \<in> set (walk_path (mem s) 2 pt (PGROUNDDOWN (a + of_nat i)))"
  shows "load64 (mem (ustore_at pt s (a + of_nat j) bs)) q = load64 (mem s) q"
proof (rule load64_cong)
  fix d :: nat assume d: "d < 8"
  have "upa pt s (a + of_nat j + of_nat k) \<noteq> q + of_nat d" if "k < length bs" for k
  proof
    assume eq: "upa pt s (a + of_nat j + of_nat k) = q + of_nat d"
    have "j + k < len" using that assms(2) by simp
    then have "\<not> in_range (upa pt s (a + of_nat (j + k))) q 8"
      using assms(1,3,4) unfolding uwritable_def by blast
    moreover have "in_range (q + of_nat d) q 8" using d by (intro in_range_offset) simp_all
    ultimately show False using eq by (simp add: add.assoc)
  qed
  then show "mem (ustore_at pt s (a + of_nat j) bs) (q + of_nat d) = mem s (q + of_nat d)"
    by (simp add: ustore_at_def ustore_mem_other)
qed

lemma ustore_translation:
  assumes "uwritable pt s a len" "j + length bs \<le> len" "i < len"
  defines "s' \<equiv> ustore_at pt s (a + of_nat j) bs" and "va \<equiv> PGROUNDDOWN (a + of_nat i)"
  shows "walkaddr pt va s' = walkaddr pt va s" "walk_path (mem s') 2 pt va = walk_path (mem s) 2 pt va"
    "fst (walk_levels 2 pt va False s') = fst (walk_levels 2 pt va False s)"
    "fst (walk_levels 2 pt va False s) \<noteq> 0 \<Longrightarrow>
      load64 (mem s') (fst (walk_levels 2 pt va False s)) = load64 (mem s) (fst (walk_levels 2 pt va False s))"
proof -
  have eq: "\<forall>q \<in> set (walk_path (mem s) 2 pt va). load64 (mem s') q = load64 (mem s) q"
    using ustore_keeps_ptes [OF assms(1-3)] by (simp add: s'_def va_def)
  show "walkaddr pt va s' = walkaddr pt va s" by (rule walkaddr_frame [OF eq])
  show "walk_path (mem s') 2 pt va = walk_path (mem s) 2 pt va" by (rule walk_path_frame(1) [OF eq])
  show "fst (walk_levels 2 pt va False s') = fst (walk_levels 2 pt va False s)"
    by (rule walk_path_frame(2) [OF eq])
  assume "fst (walk_levels 2 pt va False s) \<noteq> 0"
  then show "load64 (mem s') (fst (walk_levels 2 pt va False s)) = load64 (mem s) (fst (walk_levels 2 pt va False s))"
    using eq walk_path_last by blast
qed

lemma walkaddr_entry: "walkaddr pt va s \<noteq> 0 \<Longrightarrow> fst (walk_levels 2 pt va False s) \<noteq> 0 \<and> va < MAXVA"
  by (auto simp: walkaddr_def Let_def split: if_splits)

lemma upresent_entry:
  "upresent pt s a len \<Longrightarrow> i < len \<Longrightarrow> fst (walk_levels 2 pt (PGROUNDDOWN (a + of_nat i)) False s) \<noteq> 0"
  by (simp add: upresent_def walkaddr_entry)

lemma ustore_upa:
  assumes "uwritable pt s a len" "j + length bs \<le> len" "i < len"
  shows "upa pt (ustore_at pt s (a + of_nat j) bs) (a + of_nat i) = upa pt s (a + of_nat i)"
  by (simp add: upa_def ustore_translation(1) [OF assms])

lemma uwritable_store:
  assumes "uwritable pt s a len" "j + length bs \<le> len"
  shows "uwritable pt (ustore_at pt s (a + of_nat j) bs) a len"
proof -
  have pres: "upresent pt s a len" using assms(1) by (simp add: uwritable_def)
  note tr = ustore_translation [OF assms] ustore_upa [OF assms]
  have "upresent pt (ustore_at pt s (a + of_nat j) bs) a len"
    using pres by (simp add: upresent_def tr)
  then show ?thesis
    using assms(1) upresent_entry [OF pres] unfolding uwritable_def by (simp add: tr)
qed

lemma ustore_ustore:
  assumes "uwritable pt s a (length xs + length ys)"
  shows "ustore_at pt (ustore_at pt s a xs) (a + of_nat (length xs)) ys = ustore_at pt s a (xs @ ys)"
proof -
  have "upa pt (ustore_at pt s a xs) (a + of_nat (length xs) + of_nat k) = upa pt s (a + of_nat (length xs) + of_nat k)"
    if "k < length ys" for k
    using ustore_upa [OF assms, of 0 xs "length xs + k"] that by (simp add: add.assoc)
  then have "ustore_mem (upa pt (ustore_at pt s a xs)) m (a + of_nat (length xs)) ys
      = ustore_mem (upa pt s) m (a + of_nat (length xs)) ys" for m
    by (rule ustore_mem_cong)
  then show ?thesis by (simp add: ustore_at_def ustore_mem_append)
qed

lemma copyout_Nil [simp]: "copyout psz ppt pt a [] s = Inr (True, s)"
  by (simp add: copyout.simps)

lemma copyout_uwritable:
  assumes "uwritable pt s a (length bs)"
  shows "copyout psz ppt pt a bs s = Inr (True, ustore_at pt s a bs)"
  using assms
proof (induction "length bs" arbitrary: a bs s rule: less_induct)
  case less
  show ?case
  proof (cases "bs = []")
    case True
    then show ?thesis by (simp add: ustore_at_def)
  next
    case False
    let ?n = "page_chunk a (length bs)" and ?va = "PGROUNDDOWN a"
    have len: "0 < length bs" and n: "0 < ?n" "?n \<le> length bs" using False page_chunk_le by simp_all
    have pres: "upresent pt s a (length bs)" using less.prems by (simp add: uwritable_def)
    then have w: "walkaddr pt ?va s \<noteq> 0" using upresent_first len by blast
    then have e: "fst (walk_levels 2 pt ?va False s) \<noteq> 0" "?va < MAXVA" using walkaddr_entry by blast+
    have pw: "pte_has (load64 (mem s) (fst (walk_levels 2 pt ?va False s))) PTE_W"
      using less.prems len unfolding uwritable_def by force
    have st: "s\<lparr>mem := store_bytes (mem s) (upa pt s a) (take ?n bs)\<rparr> = ustore_at pt s a (take ?n bs)"
      unfolding ustore_at_def using n upa_chunk [of _ a "length bs" pt s]
      by (subst store_bytes_linear [of _ "upa pt s" a]) auto
    have "copyout psz ppt pt a bs s = copyout psz ppt pt (?va + PGSZ) (drop ?n bs) (ustore_at pt s a (take ?n bs))"
    proof -
      obtain q where q: "walk_levels 2 pt ?va False s = (q, s)" using walk_levels_split by blast
      show ?thesis using False w e pw q unfolding st [symmetric] upa_def
        by (subst copyout.simps) (simp add: Let_def fault_in_def walk_def not_le)
    qed
    also have "\<dots> = copyout psz ppt pt (a + of_nat ?n) (drop ?n bs) (ustore_at pt s a (take ?n bs))"
      using next_page [of a "length bs"] n by (cases "?n < length bs") simp_all
    also have "\<dots> = Inr (True, ustore_at pt (ustore_at pt s a (take ?n bs)) (a + of_nat ?n) (drop ?n bs))"
    proof (rule less.hyps)
      show "length (drop ?n bs) < length bs" using n by simp
      have "uwritable pt (ustore_at pt s a (take ?n bs)) a (length bs)"
        using uwritable_store [OF less.prems, of 0 "take ?n bs"] by simp
      then show "uwritable pt (ustore_at pt s a (take ?n bs)) (a + of_nat ?n) (length (drop ?n bs))"
        by (rule uwritable_sub) (use n in simp)
    qed
    also have "ustore_at pt (ustore_at pt s a (take ?n bs)) (a + of_nat ?n) (drop ?n bs) = ustore_at pt s a bs"
      using ustore_ustore [of pt s a "take ?n bs" "drop ?n bs"] less.prems n by (simp add: min_absorb2)
    finally show ?thesis .
  qed
qed

section \<open>What the memory operations leave alone\<close>

text \<open>Every operation of this component changes the memory and the free list at most.\<close>

definition mframe :: "'a machine_scheme \<Rightarrow> 'a machine_scheme \<Rightarrow> bool" where
  "mframe s s' \<longleftrightarrow> (\<exists>m f. s' = s\<lparr>mem := m, freelist := f\<rparr>)"

lemma mframe_mem [simp, intro]: "mframe s (s\<lparr>mem := m\<rparr>)"
  unfolding mframe_def by (intro exI [of _ m] exI [of _ "freelist s"]) simp

lemma mframe_refl [simp, intro]: "mframe s s"
  using mframe_mem [of s "mem s"] by simp

lemma mframe_trans [trans]: "mframe s s1 \<Longrightarrow> mframe s1 s2 \<Longrightarrow> mframe s s2"
  unfolding mframe_def by (elim exE) (intro exI, simp)

lemma mframe_mem_step: "mframe s s1 \<Longrightarrow> mframe s (s1\<lparr>mem := m\<rparr>)"
  using mframe_trans mframe_mem by blast

lemma mframe_kalloc: "kalloc s = (p, s') \<Longrightarrow> mframe s s'"
proof -
  assume "kalloc s = (p, s')"
  then have "s' = (if freelist s \<noteq> 0 then s\<lparr>mem := memset (mem s) (freelist s) 5 PGSIZE,
      freelist := load64 (mem s) (freelist s)\<rparr> else s)"
    by (auto simp: kalloc_def Let_def)
  then show ?thesis by (cases "freelist s = 0") (simp, force simp: mframe_def)
qed

lemma mframe_kfree: "kfree p s = Inr s' \<Longrightarrow> mframe s s'"
  by (auto simp: kfree_def Let_def mframe_def split: if_splits)

lemma mframe_walk_levels: "walk_levels l pt va alloc s = (q, s') \<Longrightarrow> mframe s s'"
proof (induction l arbitrary: pt s)
  case (Suc l)
  show ?case
  proof (cases "pte_has (load64 (mem s) (pte_addr pt (Suc l) va)) PTE_V \<or> \<not> alloc")
    case True
    then show ?thesis using Suc by (auto simp: Let_def split: if_splits)
  next
    case False
    obtain pg s1 where k: "kalloc s = (pg, s1)" by fastforce
    show ?thesis
    proof (cases "pg = 0")
      case True
      then show ?thesis using Suc.prems False k mframe_kalloc by (auto simp: Let_def)
    next
      case nz: False
      then have "mframe (s1\<lparr>mem := store64 (memset (mem s1) pg 0 PGSIZE) (pte_addr pt (Suc l) va)
          (PA2PTE pg OR PTE_V)\<rparr>) s'"
        using Suc.prems False k by (intro Suc.IH) (simp add: Let_def)
      then show ?thesis using mframe_trans mframe_mem_step [OF mframe_kalloc [OF k]] by blast
    qed
  qed
qed auto

lemma mframe_walk: "walk pt va alloc s = Inr (q, s') \<Longrightarrow> mframe s s'"
  by (auto simp: walk_def mframe_walk_levels split: if_splits)

lemma mframe_mappages_loop: "mappages_loop k pt a lst pa perm s = Inr (r, s') \<Longrightarrow> mframe s s'"
proof (induction k arbitrary: a pa s)
  case (Suc k)
  then obtain q s1 where w: "walk pt a True s = Inr (q, s1)" by (auto simp: rbind_eq_Inr)
  note f = mframe_walk [OF w]
  show ?case
    using Suc.prems w f mframe_mem_step [OF f]
      mframe_trans [OF mframe_mem_step [OF f] Suc.IH]
    by (auto simp: Let_def split: if_splits)
qed simp

lemma mframe_mappages: "mappages pt va z pa perm s = Inr (r, s') \<Longrightarrow> mframe s s'"
  by (auto simp: mappages_def mframe_mappages_loop split: if_splits)

lemma mframe_vmfault:
  assumes "vmfault psz ppt pt va s = Inr (r, s')" shows "mframe s s'"
proof -
  obtain pg s1 where k: "kalloc s = (pg, s1)" by fastforce
  note f = mframe_kalloc [OF k]
  show ?thesis
  proof (cases "va \<ge> psz \<or> ismapped pt (PGROUNDDOWN va) s = Inr True \<or> pg = 0")
    case True
    then show ?thesis using assms k f by (auto simp: vmfault_def Let_def rbind_eq_Inr split: if_splits)
  next
    case False
    let ?s = "s1\<lparr>mem := memset (mem s1) pg 0 PGSIZE\<rparr>"
    from False assms k obtain x s2 where
      m: "mappages ppt (PGROUNDDOWN va) PGSZ pg (PTE_W OR PTE_U OR PTE_R) ?s = Inr (x, s2)"
      and r: "if x \<noteq> 0 then kfree pg s2 = Inr s' else s' = s2"
      by (auto simp: vmfault_def Let_def rbind_eq_Inr split: if_splits)
    have "mframe s s2" using mframe_mappages [OF m] mframe_trans mframe_mem_step [OF f] by blast
    then show ?thesis using r mframe_kfree [of pg s2 s'] mframe_trans [of s s2 s'] by (cases "x = 0") auto
  qed
qed

lemma mframe_fault_in: "fault_in psz ppt pt va s = Inr (r, s') \<Longrightarrow> mframe s s'"
  by (auto simp: fault_in_def mframe_vmfault split: if_splits)

lemma mframe_copyin_loop: "copyin_loop psz ppt pt srcva len acc s = Inr (r, s') \<Longrightarrow> mframe s s'"
proof (induction psz ppt pt srcva len acc s rule: copyin_loop.induct)
  case (1 psz ppt pt srcva len acc s)
  show ?case
  proof (cases "len = 0")
    case True
    then show ?thesis using "1.prems" by (simp add: copyin_loop.simps)
  next
    case False
    then obtain pa0 s1 where f: "fault_in psz ppt pt (PGROUNDDOWN srcva) s = Inr (pa0, s1)"
      using "1.prems" by (subst (asm) copyin_loop.simps) (auto simp: Let_def rbind_eq_Inr)
    show ?thesis
    proof (cases "pa0 = 0")
      case True
      then show ?thesis using "1.prems" False f mframe_fault_in [OF f]
        by (subst (asm) copyin_loop.simps) (simp add: Let_def)
    next
      case nz: False
      have "copyin_loop psz ppt pt (PGROUNDDOWN srcva + PGSZ) (len - page_chunk srcva len)
          (acc @ load_bytes (mem s1) (pa0 + (srcva - PGROUNDDOWN srcva)) (page_chunk srcva len)) s1 = Inr (r, s')"
        using "1.prems" False f nz by (subst (asm) copyin_loop.simps) (simp add: Let_def)
      from "1.IH" [OF False refl f refl nz refl this] show ?thesis
        using mframe_fault_in [OF f] mframe_trans by blast
    qed
  qed
qed

lemma mframe_copyout: "copyout psz ppt pt dstva src s = Inr (r, s') \<Longrightarrow> mframe s s'"
proof (induction "length src" arbitrary: dstva src s rule: less_induct)
  case less
  show ?case
  proof (cases "src = [] \<or> PGROUNDDOWN dstva \<ge> MAXVA")
    case True
    then show ?thesis using less.prems by (subst (asm) copyout.simps) (auto simp: Let_def split: if_splits)
  next
    case False
    let ?va = "PGROUNDDOWN dstva" and ?n = "page_chunk dstva (length src)"
    from False obtain pa0 s1 where f: "fault_in psz ppt pt ?va s = Inr (pa0, s1)"
      using less.prems by (subst (asm) copyout.simps) (auto simp: Let_def rbind_eq_Inr)
    note m1 = mframe_fault_in [OF f]
    obtain q where w: "walk_levels 2 pt ?va False s1 = (q, s1)" using walk_levels_split by blast
    then have wk: "walk pt ?va False s1 = Inr (q, s1)" using False by (simp add: walk_def)
    show ?thesis
    proof (cases "pa0 = 0 \<or> q = 0 \<or> \<not> pte_has (load64 (mem s1) q) PTE_W")
      case True
      then show ?thesis using less.prems False f wk m1
        by (subst (asm) copyout.simps) (auto simp: Let_def split: if_splits)
    next
      case ok: False
      have "copyout psz ppt pt (?va + PGSZ) (drop ?n src)
          (s1\<lparr>mem := store_bytes (mem s1) (pa0 + (dstva - ?va)) (take ?n src)\<rparr>) = Inr (r, s')"
        using less.prems False f wk ok by (subst (asm) copyout.simps) (auto simp: Let_def)
      moreover have "length (drop ?n src) < length src" using False by simp
      ultimately show ?thesis using less.hyps mframe_trans mframe_mem_step [OF m1] by blast
    qed
  qed
qed

end
