(* ===== verification/Proc_Table.thy ===== *)
theory Proc_Table
  imports Vm_Copy Pipe_Code
begin

text \<open>
  The process table of \<^verbatim>\<open>kernel/proc.c\<close>: allocation and release of processes, \<open>sleep\<close> and
  \<open>wakeup\<close> with the priority boost of pipe versions 6 to 8, \<open>yield\<close> with its decay, \<open>kkill\<close>,
  \<open>kwait\<close> and the choice the scheduler makes. \<open>ver\<close> is the compile-time constant
  \<^verbatim>\<open>PIPE_VERSION\<close>. A process is named by its index in \<^verbatim>\<open>proc[NPROC]\<close>; a section under
  \<^verbatim>\<open>p->lock\<close>, \<^verbatim>\<open>pid_lock\<close> or \<^verbatim>\<open>wait_lock\<close> is one step.
\<close>

section \<open>State\<close>

datatype procstate = UNUSED | USED | SLEEPING | RUNNABLE | RUNNING | ZOMBIE

text \<open>The order of the C enumeration.\<close>

fun procstate_num :: "procstate \<Rightarrow> nat" where
  "procstate_num UNUSED = 0"
| "procstate_num USED = 1"
| "procstate_num SLEEPING = 2"
| "procstate_num RUNNABLE = 3"
| "procstate_num RUNNING = 4"
| "procstate_num ZOMBIE = 5"

lemma procstate_num_inj: "procstate_num a = procstate_num b \<Longrightarrow> a = b"
  by (cases a; cases b) simp_all

instantiation procstate :: linorder
begin

definition less_eq_procstate :: "procstate \<Rightarrow> procstate \<Rightarrow> bool" where
  "less_eq_procstate a b \<longleftrightarrow> procstate_num a \<le> procstate_num b"

definition less_procstate :: "procstate \<Rightarrow> procstate \<Rightarrow> bool" where
  "less_procstate a b \<longleftrightarrow> procstate_num a < procstate_num b"

instance
  by standard (auto simp: less_eq_procstate_def less_procstate_def intro: procstate_num_inj)

end

text \<open>
  A wait channel is the address of some kernel object: a process (the channel of \<^verbatim>\<open>kwait\<close>), one
  of the two counters of the pipe in a given page, the sleep lock of a buffer or of an inode, the
  log, the clock, or another object. \<open>NoChan\<close> is the null pointer.
\<close>

datatype kchan =
  NoChan | ProcChan nat | PipeChan u64 pipe_chan | BufChan nat | InodeChan nat | LogChan | TicksChan | ObjChan u64

record proc =
  pstate :: procstate
  chan :: kchan
  killed :: bool
  xstate :: int
  pid :: int
  parent :: "nat option"
  kstack :: u64
  sz :: u64
  pagetable :: u64
  trapframe :: u64
  pcontext :: "u64 list" \<comment> \<open>ra, sp, s0 to s11\<close>
  ofile :: "nat option list"
  cwd :: "nat option"
  pname :: "u8 list"
  priority :: int

text \<open>\<open>halted\<close> records the panic that stopped the machine inside a copy to or from user memory.\<close>

record kernel = machine +
  procs :: "proc list"
  nextpid :: int
  initproc :: "nat option"
  forkret_addr :: u64
  halted :: "kerror option"

definition PRIORITY_BASE :: int where "PRIORITY_BASE = 0"
definition PRIORITY_BOOST :: int where "PRIORITY_BOOST = 10"

definition upd_proc :: "nat \<Rightarrow> (proc \<Rightarrow> proc) \<Rightarrow> 'a kernel_scheme \<Rightarrow> 'a kernel_scheme" where
  "upd_proc i f s = s\<lparr>procs := (procs s)[i := f (procs s ! i)]\<rparr>"

section \<open>Creating and freeing processes\<close>

definition procinit :: "'a kernel_scheme \<Rightarrow> 'a kernel_scheme" where
  "procinit s = s\<lparr>procs := map (\<lambda>i. (procs s ! i)\<lparr>pstate := UNUSED, kstack := KSTACK i\<rparr>) [0..<NPROC]\<rparr>"

definition allocpid :: "'a kernel_scheme \<Rightarrow> int \<times> 'a kernel_scheme" where
  "allocpid s = (nextpid s, s\<lparr>nextpid := nextpid s + 1\<rparr>)"

definition proc_freepagetable :: "u64 \<Rightarrow> u64 \<Rightarrow> 'a machine_scheme \<Rightarrow> 'a machine_scheme kres" where
  "proc_freepagetable pt psz s =
     rbind (uvmunmap pt TRAMPOLINE 1 False s) (\<lambda>s.
     rbind (uvmunmap pt TRAPFRAME 1 False s) (uvmfree pt psz))"

definition proc_pagetable :: "u64 \<Rightarrow> 'a machine_scheme \<Rightarrow> (u64 \<times> 'a machine_scheme) kres" where
  "proc_pagetable tf s = (case uvmcreate s of (pt, s) \<Rightarrow>
     if pt = 0 then Inr (0, s)
     else rbind (mappages pt TRAMPOLINE PGSZ (trampoline s) (PTE_R OR PTE_X) s) (\<lambda>(r, s).
       if r < 0 then rbind (uvmfree pt 0 s) (\<lambda>s. Inr (0, s))
       else rbind (mappages pt TRAPFRAME PGSZ tf (PTE_R OR PTE_W) s) (\<lambda>(r, s).
         if r < 0 then
           rbind (uvmunmap pt TRAMPOLINE 1 False s) (\<lambda>s. rbind (uvmfree pt 0 s) (\<lambda>s. Inr (0, s)))
         else Inr (pt, s))))"

definition clear_proc :: "proc \<Rightarrow> proc" where
  "clear_proc p = p\<lparr>trapframe := 0, pagetable := 0, sz := 0, pid := 0, parent := None,
     pname := (pname p)[0 := 0], chan := NoChan, killed := False, xstate := 0,
     priority := PRIORITY_BASE, pstate := UNUSED\<rparr>"

definition freeproc :: "nat \<Rightarrow> 'a kernel_scheme \<Rightarrow> 'a kernel_scheme kres" where
  "freeproc i s =
     (let p = procs s ! i
      in rbind (if trapframe p \<noteq> 0 then kfree (trapframe p) s else Inr s) (\<lambda>s.
         rbind (if pagetable p \<noteq> 0 then proc_freepagetable (pagetable p) (sz p) s else Inr s) (\<lambda>s.
         Inr (upd_proc i clear_proc s))))"

text \<open>The first slot of the table with a given property, as the loops over \<^verbatim>\<open>proc[]\<close> find it.\<close>

definition first_proc :: "(proc \<Rightarrow> bool) \<Rightarrow> proc list \<Rightarrow> nat option" where
  "first_proc P ps = List.find (\<lambda>i. P (ps ! i)) [0..<length ps]"

definition allocproc :: "'a kernel_scheme \<Rightarrow> (nat option \<times> 'a kernel_scheme) kres" where
  "allocproc s = (case first_proc (\<lambda>p. pstate p = UNUSED) (procs s) of
       None \<Rightarrow> Inr (None, s)
     | Some i \<Rightarrow>
         (case allocpid s of (n, s) \<Rightarrow>
          let s = upd_proc i (\<lambda>p. p\<lparr>pid := n, pstate := USED, priority := PRIORITY_BASE\<rparr>) s
          in case kalloc s of (tf, s) \<Rightarrow>
             let s = upd_proc i (\<lambda>p. p\<lparr>trapframe := tf\<rparr>) s
             in if tf = 0 then rbind (freeproc i s) (\<lambda>s. Inr (None, s))
                else rbind (proc_pagetable tf s) (\<lambda>(pt, s).
                  let s = upd_proc i (\<lambda>p. p\<lparr>pagetable := pt\<rparr>) s
                  in if pt = 0 then rbind (freeproc i s) (\<lambda>s. Inr (None, s))
                     else Inr (Some i, upd_proc i (\<lambda>p. p\<lparr>pcontext :=
                            forkret_addr s # (kstack p + PGSZ) # replicate 12 0\<rparr>) s))))"

definition growproc :: "nat \<Rightarrow> int \<Rightarrow> 'a kernel_scheme \<Rightarrow> (int \<times> 'a kernel_scheme) kres" where
  "growproc me n s =
     (let p = procs s ! me; psz = sz p
      in if n > 0 then
           (if psz + word_of_int n > TRAPFRAME then Inr (-1, s)
            else rbind (uvmalloc (pagetable p) psz (psz + word_of_int n) PTE_W s) (\<lambda>(psz, s).
              if psz = 0 then Inr (-1, s) else Inr (0, upd_proc me (\<lambda>p. p\<lparr>sz := psz\<rparr>) s)))
         else if n < 0 then
           rbind (uvmdealloc (pagetable p) psz (psz + word_of_int n) s) (\<lambda>(psz, s).
             Inr (0, upd_proc me (\<lambda>p. p\<lparr>sz := psz\<rparr>) s))
         else Inr (0, upd_proc me (\<lambda>p. p\<lparr>sz := psz\<rparr>) s))"

section \<open>sleep, wakeup, yield, kill\<close>

text \<open>\<open>sleep\<close> up to the switch to the scheduler, and what it does once it runs again; the
  condition lock belongs to the caller's model.\<close>

definition sleep_on :: "kchan \<Rightarrow> proc \<Rightarrow> proc" where
  "sleep_on c p = p\<lparr>chan := c, pstate := SLEEPING\<rparr>"

definition sleep_resume :: "proc \<Rightarrow> proc" where
  "sleep_resume p = p\<lparr>chan := NoChan\<rparr>"

definition wake_proc :: "nat \<Rightarrow> kchan \<Rightarrow> proc \<Rightarrow> proc" where
  "wake_proc ver c p =
     (if pstate p = SLEEPING \<and> chan p = c
      then (let p = p\<lparr>pstate := RUNNABLE\<rparr> in if ver \<ge> 6 then p\<lparr>priority := PRIORITY_BOOST\<rparr> else p)
      else p)"

definition wakeup_procs :: "nat \<Rightarrow> nat option \<Rightarrow> kchan \<Rightarrow> proc list \<Rightarrow> proc list" where
  "wakeup_procs ver me c ps =
     map (\<lambda>i. if Some i \<noteq> me then wake_proc ver c (ps ! i) else ps ! i) [0..<length ps]"

definition wakeup :: "nat \<Rightarrow> nat option \<Rightarrow> kchan \<Rightarrow> 'a kernel_scheme \<Rightarrow> 'a kernel_scheme" where
  "wakeup ver me c s = s\<lparr>procs := wakeup_procs ver me c (procs s)\<rparr>"

text \<open>\<open>yield\<close> up to the switch to the scheduler.\<close>

definition yield_proc :: "nat \<Rightarrow> proc \<Rightarrow> proc" where
  "yield_proc ver p =
     (let p = (if ver \<ge> 6 \<and> priority p > PRIORITY_BASE then p\<lparr>priority := priority p - 1\<rparr> else p)
      in p\<lparr>pstate := RUNNABLE\<rparr>)"

definition kill_proc :: "proc \<Rightarrow> proc" where
  "kill_proc p =
     (let p = p\<lparr>killed := True\<rparr> in if pstate p = SLEEPING then p\<lparr>pstate := RUNNABLE\<rparr> else p)"

definition kkill :: "int \<Rightarrow> 'a kernel_scheme \<Rightarrow> int \<times> 'a kernel_scheme" where
  "kkill n s = (case first_proc (\<lambda>p. pid p = n) (procs s) of
       None \<Rightarrow> (-1, s)
     | Some i \<Rightarrow> (0, upd_proc i kill_proc s))"

definition setkilled :: "nat \<Rightarrow> 'a kernel_scheme \<Rightarrow> 'a kernel_scheme" where
  "setkilled i s = upd_proc i (\<lambda>p. p\<lparr>killed := True\<rparr>) s"

definition is_killed :: "nat \<Rightarrow> 'a kernel_scheme \<Rightarrow> bool" where
  "is_killed i s = killed (procs s ! i)"

section \<open>exit and wait\<close>

text \<open>The channel of a \<^verbatim>\<open>struct proc *\<close> that may be null.\<close>

fun proc_chan :: "nat option \<Rightarrow> kchan" where
  "proc_chan None = NoChan"
| "proc_chan (Some i) = ProcChan i"

definition reparent_one :: "nat \<Rightarrow> nat \<Rightarrow> nat \<Rightarrow> 'a kernel_scheme \<Rightarrow> 'a kernel_scheme" where
  "reparent_one ver p i s =
     (if parent (procs s ! i) = Some p
      then wakeup ver (Some p) (proc_chan (initproc s)) (upd_proc i (\<lambda>q. q\<lparr>parent := initproc s\<rparr>) s)
      else s)"

text \<open>\<open>reparent\<close>, called by the exiting process \<open>p\<close> itself.\<close>

definition reparent :: "nat \<Rightarrow> nat \<Rightarrow> 'a kernel_scheme \<Rightarrow> 'a kernel_scheme" where
  "reparent ver p s = fold (reparent_one ver p) [0..<length (procs s)] s"

text \<open>The part of \<open>kexit\<close> under \<^verbatim>\<open>wait_lock\<close>, up to the switch to the scheduler.\<close>

definition kexit_zombie :: "nat \<Rightarrow> nat \<Rightarrow> int \<Rightarrow> 'a kernel_scheme \<Rightarrow> 'a kernel_scheme" where
  "kexit_zombie ver p status s =
     (let s = reparent ver p s;
          s = wakeup ver (Some p) (proc_chan (parent (procs s ! p))) s
      in upd_proc p (\<lambda>q. q\<lparr>xstate := status, pstate := ZOMBIE\<rparr>) s)"

text \<open>Little-endian bytes of an \<^verbatim>\<open>int\<close>.\<close>

definition int_bytes :: "int \<Rightarrow> u8 list" where
  "int_bytes x = map (\<lambda>k. ucast (drop_bit (8 * k) (word_of_int x :: u32))) [0..<4]"

text \<open>One turn of the outer loop of \<open>kwait\<close>: it returns, or sleeps on the process itself.\<close>

datatype wait_result = WaitRet int | WaitSleep

definition kwait_scan :: "nat \<Rightarrow> u64 \<Rightarrow> 'a kernel_scheme \<Rightarrow> (wait_result \<times> 'a kernel_scheme) kres" where
  "kwait_scan me addr s =
     (let p = procs s ! me;
          havekids = (\<exists>q \<in> set (procs s). parent q = Some me)
      in case first_proc (\<lambda>q. parent q = Some me \<and> pstate q = ZOMBIE) (procs s) of
           Some i \<Rightarrow>
             let n = pid (procs s ! i)
             in rbind (if addr \<noteq> 0
                       then copyout (sz p) (pagetable p) (pagetable p) addr (int_bytes (xstate (procs s ! i))) s
                       else Inr (True, s)) (\<lambda>(ok, s).
                  if \<not> ok then Inr (WaitRet (-1), s)
                  else rbind (freeproc i s) (\<lambda>s. Inr (WaitRet n, s)))
         | None \<Rightarrow>
             if \<not> havekids \<or> killed p then Inr (WaitRet (-1), s)
             else Inr (WaitSleep, upd_proc me (sleep_on (ProcChan me)) s))"

section \<open>The scheduler\<close>

text \<open>Phase 1 of the scheduler of versions 6 to 8: the scan for the best process.\<close>

definition sched_scan :: "proc list \<Rightarrow> nat \<Rightarrow> nat option \<times> int \<Rightarrow> nat option \<times> int" where
  "sched_scan ps i b =
     (if pstate (ps ! i) = RUNNABLE \<and> priority (ps ! i) > snd b then (Some i, priority (ps ! i)) else b)"

definition sched_pick :: "proc list \<Rightarrow> nat option" where
  "sched_pick ps = fst (fold (sched_scan ps) [0..<length ps] (None, -1))"

text \<open>Phase 2, up to the switch to the process: the second test under the process's lock.\<close>

definition sched_switch :: "nat \<Rightarrow> proc list \<Rightarrow> proc list \<times> bool" where
  "sched_switch i ps =
     (if pstate (ps ! i) = RUNNABLE then (ps[i := (ps ! i)\<lparr>pstate := RUNNING\<rparr>], True) else (ps, False))"

text \<open>
  One turn of the outer loop of \<open>scheduler\<close>. \<open>run i ps\<close> is the table after process \<open>i\<close> has run
  and switched back. The list tells which processes have run.
\<close>

definition sched_round_prio :: "(nat \<Rightarrow> proc list \<Rightarrow> proc list) \<Rightarrow> proc list \<Rightarrow> proc list \<times> nat list" where
  "sched_round_prio run ps = (case sched_pick ps of
       None \<Rightarrow> (ps, [])
     | Some i \<Rightarrow> (case sched_switch i ps of (ps, sw) \<Rightarrow> if sw then (run i ps, [i]) else (ps, [])))"

primrec sched_pass :: "(nat \<Rightarrow> proc list \<Rightarrow> proc list) \<Rightarrow> nat list \<Rightarrow> proc list \<Rightarrow> proc list \<times> nat list" where
  "sched_pass run [] ps = (ps, [])"
| "sched_pass run (i # is) ps =
     (case sched_switch i ps of (ps, sw) \<Rightarrow>
      case sched_pass run is (if sw then run i ps else ps) of (ps, rs) \<Rightarrow>
        (ps, if sw then i # rs else rs))"

definition sched_round_rr :: "(nat \<Rightarrow> proc list \<Rightarrow> proc list) \<Rightarrow> proc list \<Rightarrow> proc list \<times> nat list" where
  "sched_round_rr run ps = sched_pass run [0..<length ps] ps"

definition sched_round :: "nat \<Rightarrow> (nat \<Rightarrow> proc list \<Rightarrow> proc list) \<Rightarrow> proc list \<Rightarrow> proc list \<times> nat list" where
  "sched_round ver run ps = (if ver \<ge> 6 then sched_round_prio run ps else sched_round_rr run ps)"

text \<open>The checks of \<open>sched\<close>; \<open>holds\<close> is \<^verbatim>\<open>holding(&p->lock)\<close>.\<close>

definition sched_checks :: "bool \<Rightarrow> int \<Rightarrow> procstate \<Rightarrow> bool \<Rightarrow> unit kres" where
  "sched_checks holds noff st sie =
     (if \<not> holds then Inl (Panic ''sched p->lock'')
      else if noff \<noteq> 1 then Inl (Panic ''sched locks'')
      else if st = RUNNING then Inl (Panic ''sched RUNNING'')
      else if sie then Inl (Panic ''sched interruptible'')
      else Inr ())"

section \<open>either\_copyout and either\_copyin\<close>

definition either_copyout ::
  "nat \<Rightarrow> bool \<Rightarrow> u64 \<Rightarrow> u8 list \<Rightarrow> 'a kernel_scheme \<Rightarrow> (bool \<times> 'a kernel_scheme) kres" where
  "either_copyout me user_dst dst src s =
     (let p = procs s ! me
      in if user_dst then copyout (sz p) (pagetable p) (pagetable p) dst src s
         else Inr (True, s\<lparr>mem := store_bytes (mem s) dst src\<rparr>))"

definition either_copyin ::
  "nat \<Rightarrow> bool \<Rightarrow> u64 \<Rightarrow> nat \<Rightarrow> 'a kernel_scheme \<Rightarrow> ((u8 list \<times> bool) \<times> 'a kernel_scheme) kres" where
  "either_copyin me user_src src len s =
     (let p = procs s ! me
      in if user_src then copyin (sz p) (pagetable p) (pagetable p) src len s
         else Inr ((load_bytes (mem s) src len, True), s))"

section \<open>The operations the pipe code calls\<close>

text \<open>
  \<open>kernel_ops ver me pg\<close>: the copies of process \<open>me\<close>, its kill flag, and \<open>wakeup\<close> on the
  channels of the pipe in page \<open>pg\<close>. A panic inside a copy never returns; it leaves its message
  in \<open>halted\<close>.
\<close>

definition kernel_ops :: "nat \<Rightarrow> nat \<Rightarrow> u64 \<Rightarrow> 'a kernel_scheme kops" where
  "kernel_ops ver me pg = \<lparr>
     op_copyin = (\<lambda>s a len. let p = procs s ! me in
        case copyin (sz p) (pagetable p) (pagetable p) a len s of
          Inr r \<Rightarrow> r
        | Inl e \<Rightarrow> (([], False), s\<lparr>halted := Some e\<rparr>)),
     op_copyout = (\<lambda>s a bs. let p = procs s ! me in
        case copyout (sz p) (pagetable p) (pagetable p) a bs s of
          Inr r \<Rightarrow> r
        | Inl e \<Rightarrow> (False, s\<lparr>halted := Some e\<rparr>)),
     op_killed = is_killed me,
     op_wakeup = (\<lambda>c. wakeup ver (Some me) (PipeChan pg c))\<rparr>"

end
