(* ===== verification/Sched.thy ===== *)
theory Sched
  imports Proc_Table
begin

text \<open>
  The scheduler and the wait queues. The scan of versions 6 to 8 is equivalent to a reference
  specification (the first process among those of the highest priority); a process woken on a
  channel is boosted and runs before every process of lower priority; priorities stay between
  base and boost and decay with every \<open>yield\<close>. One pass of the round-robin scheduler of versions
  1 to 5 runs every runnable process, while the priority scheduler may run the same process for
  ever.
\<close>

section \<open>Finding a process\<close>

lemma find_upt_Some:
  "List.find P [0..<n] = Some i \<longleftrightarrow> i < n \<and> P i \<and> (\<forall>j < i. \<not> P j)"
  by (auto simp: find_Some_iff)

lemma first_proc_Some:
  "first_proc P ps = Some i \<longleftrightarrow> i < length ps \<and> P (ps ! i) \<and> (\<forall>j < i. \<not> P (ps ! j))"
  by (simp add: first_proc_def find_upt_Some)

lemma first_proc_None: "first_proc P ps = None \<longleftrightarrow> (\<forall>i < length ps. \<not> P (ps ! i))"
  by (auto simp: first_proc_def find_None_iff)

lemma procs_upd_proc [simp]: "procs (upd_proc i f s) = (procs s)[i := f (procs s ! i)]"
  by (simp add: upd_proc_def)

lemma length_wakeup_procs [simp]: "length (wakeup_procs ver me c ps) = length ps"
  by (simp add: wakeup_procs_def)

lemma nth_wakeup_procs:
  "i < length ps \<Longrightarrow> wakeup_procs ver me c ps ! i = (if Some i \<noteq> me then wake_proc ver c (ps ! i) else ps ! i)"
  by (simp add: wakeup_procs_def)

section \<open>The priority scheduler\<close>

definition runnable :: "proc list \<Rightarrow> nat \<Rightarrow> bool" where
  "runnable ps i \<longleftrightarrow> i < length ps \<and> pstate (ps ! i) = RUNNABLE"

text \<open>The reference: \<open>i\<close> is the first runnable process of maximal priority.\<close>

definition best_proc :: "proc list \<Rightarrow> nat \<Rightarrow> bool" where
  "best_proc ps i \<longleftrightarrow> runnable ps i \<and>
     (\<forall>j. runnable ps j \<longrightarrow> priority (ps ! j) < priority (ps ! i) \<or>
        priority (ps ! j) = priority (ps ! i) \<and> i \<le> j)"

text \<open>What the scan knows after \<open>k\<close> slots.\<close>

definition scan_ok :: "proc list \<Rightarrow> nat \<Rightarrow> nat option \<times> int \<Rightarrow> bool" where
  "scan_ok ps k b \<longleftrightarrow> (case fst b of
      None \<Rightarrow> snd b = -1 \<and> (\<forall>j < k. pstate (ps ! j) = RUNNABLE \<longrightarrow> priority (ps ! j) \<le> -1)
    | Some i \<Rightarrow> i < k \<and> pstate (ps ! i) = RUNNABLE \<and> snd b = priority (ps ! i) \<and>
        (\<forall>j < k. pstate (ps ! j) = RUNNABLE \<longrightarrow>
           priority (ps ! j) < snd b \<or> priority (ps ! j) = snd b \<and> i \<le> j))"

lemma scan_ok_step: "scan_ok ps k b \<Longrightarrow> scan_ok ps (Suc k) (sched_scan ps k b)"
  by (cases b; cases "fst b") (auto simp: scan_ok_def sched_scan_def less_Suc_eq)

lemma sched_scan_ok: "scan_ok ps k (fold (sched_scan ps) [0..<k] (None, -1))"
proof (induction k)
  case (Suc k)
  then show ?case using scan_ok_step by simp
qed (simp add: scan_ok_def)

lemma sched_pick_Some:
  assumes "sched_pick ps = Some i" shows "best_proc ps i"
  using sched_scan_ok [of ps "length ps"] assms
  by (auto simp: scan_ok_def sched_pick_def best_proc_def runnable_def)

lemma sched_pick_None:
  assumes "sched_pick ps = None" "\<forall>p \<in> set ps. 0 \<le> priority p" shows "\<not> runnable ps i"
proof
  assume "runnable ps i"
  then have "i < length ps" "pstate (ps ! i) = RUNNABLE" by (auto simp: runnable_def)
  moreover from this have "priority (ps ! i) \<le> -1"
    using sched_scan_ok [of ps "length ps"] assms(1) by (simp add: scan_ok_def sched_pick_def)
  ultimately show False using assms(2) by (force dest: nth_mem)
qed

lemma best_proc_unique: "best_proc ps i \<Longrightarrow> best_proc ps j \<Longrightarrow> i = j"
  unfolding best_proc_def by (metis le_antisym less_asym')

lemma sched_pick_iff:
  assumes "\<forall>p \<in> set ps. 0 \<le> priority p"
  shows "sched_pick ps = Some i \<longleftrightarrow> best_proc ps i"
proof
  assume b: "best_proc ps i"
  then have "sched_pick ps \<noteq> None" using sched_pick_None [OF _ assms] by (auto simp: best_proc_def)
  then show "sched_pick ps = Some i" using sched_pick_Some best_proc_unique [OF b] by blast
qed (rule sched_pick_Some)

section \<open>Priorities\<close>

definition prio_inv :: "proc list \<Rightarrow> bool" where
  "prio_inv ps \<longleftrightarrow> (\<forall>p \<in> set ps. PRIORITY_BASE \<le> priority p \<and> priority p \<le> PRIORITY_BOOST)"

lemma wake_proc_cases:
  "pstate p = SLEEPING \<Longrightarrow> chan p = c \<Longrightarrow> ver \<ge> 6 \<Longrightarrow>
     pstate (wake_proc ver c p) = RUNNABLE \<and> priority (wake_proc ver c p) = PRIORITY_BOOST"
  "\<not> (pstate p = SLEEPING \<and> chan p = c) \<Longrightarrow> wake_proc ver c p = p"
  by (auto simp: wake_proc_def)

lemma prio_inv_wakeup:
  assumes "prio_inv ps" shows "prio_inv (wakeup_procs ver me c ps)"
proof -
  have "PRIORITY_BASE \<le> priority (wake_proc ver c p) \<and> priority (wake_proc ver c p) \<le> PRIORITY_BOOST"
    if "p \<in> set ps" for p
    using assms that by (auto simp: prio_inv_def wake_proc_def Let_def PRIORITY_BASE_def PRIORITY_BOOST_def)
  then show ?thesis using assms by (auto simp: prio_inv_def wakeup_procs_def)
qed

lemma prio_inv_upd:
  assumes "prio_inv ps" "PRIORITY_BASE \<le> priority (f (ps ! i)) \<and> priority (f (ps ! i)) \<le> PRIORITY_BOOST"
  shows "prio_inv (ps[i := f (ps ! i)])"
  using assms set_update_subset_insert [of ps i "f (ps ! i)"] by (auto simp: prio_inv_def)

lemma prio_inv_yield:
  assumes "prio_inv ps" "i < length ps" shows "prio_inv (ps[i := yield_proc ver (ps ! i)])"
proof (rule prio_inv_upd [OF assms(1)])
  have "PRIORITY_BASE \<le> priority (ps ! i)" "priority (ps ! i) \<le> PRIORITY_BOOST"
    using assms by (simp_all add: prio_inv_def)
  then show "PRIORITY_BASE \<le> priority (yield_proc ver (ps ! i)) \<and> priority (yield_proc ver (ps ! i)) \<le> PRIORITY_BOOST"
    by (simp add: yield_proc_def Let_def)
qed

lemma yield_decay:
  assumes "ver \<ge> 6" "PRIORITY_BASE \<le> priority p"
  shows "priority ((yield_proc ver ^^ k) p) = max PRIORITY_BASE (priority p - int k)"
proof (induction k)
  case (Suc k)
  then show ?case using assms by (auto simp: yield_proc_def Let_def PRIORITY_BASE_def)
qed (use assms in \<open>simp add: max_def\<close>)

section \<open>Time slices\<close>

text \<open>
  What the scheduler relies on when a process runs and switches back: the table keeps its
  length, and no other process loses its place among the runnable ones.
\<close>

locale time_slice =
  fixes run :: "nat \<Rightarrow> proc list \<Rightarrow> proc list"
  assumes run_length: "length (run i ps) = length ps"
    and run_others: "j \<noteq> i \<Longrightarrow> j < length ps \<Longrightarrow> pstate (ps ! j) = RUNNABLE \<Longrightarrow> pstate (run i ps ! j) = RUNNABLE"
begin

lemma switch_others:
  "sched_switch i ps = (ps', b) \<Longrightarrow> length ps' = length ps \<and>
     (j \<noteq> i \<longrightarrow> j < length ps \<longrightarrow> pstate (ps ! j) = RUNNABLE \<longrightarrow> pstate (ps' ! j) = RUNNABLE)"
  by (auto simp: sched_switch_def split: if_splits)

lemma pass_runs_all:
  assumes "distinct is" "j \<in> set is" "set is \<subseteq> {..<length ps}" "pstate (ps ! j) = RUNNABLE"
  shows "j \<in> set (snd (sched_pass run is ps))"
  using assms
proof (induction "is" arbitrary: ps)
  case (Cons i "is")
  obtain ps1 b where sw: "sched_switch i ps = (ps1, b)" by fastforce
  let ?ps = "if b then run i ps1 else ps1"
  obtain ps2 rs where p: "sched_pass run is ?ps = (ps2, rs)" by fastforce
  have res: "snd (sched_pass run (i # is) ps) = (if b then i # rs else rs)" using sw p by simp
  show ?case
  proof (cases "j = i")
    case True
    then have b using sw Cons.prems(4) by (auto simp: sched_switch_def split: if_splits)
    then show ?thesis unfolding res using True by simp
  next
    case False
    have j: "j < length ps" using Cons.prems(2,3) by auto
    have l1: "length ps1 = length ps" and r1: "pstate (ps1 ! j) = RUNNABLE"
      using switch_others [OF sw, of j] False j Cons.prems(4) by auto
    then have "length ?ps = length ps" "pstate (?ps ! j) = RUNNABLE"
      using run_length run_others [OF False, of ps1] j by auto
    then have "j \<in> set (snd (sched_pass run is ?ps))"
      using Cons.prems False by (intro Cons.IH) auto
    then show ?thesis unfolding res using p by auto
  qed
qed simp

lemma rr_fair: "runnable ps j \<Longrightarrow> j \<in> set (snd (sched_round_rr run ps))"
  unfolding sched_round_rr_def by (rule pass_runs_all) (auto simp: runnable_def)

end

text \<open>The slice of a process that computes until the timer interrupt makes it yield.\<close>

definition cpu_slice :: "nat \<Rightarrow> nat \<Rightarrow> proc list \<Rightarrow> proc list" where
  "cpu_slice ver i ps = ps[i := yield_proc ver (ps ! i)]"

text \<open>The slice of a process that wakes a channel and then sleeps on another one, as the two
  sides of a pipe do.\<close>

definition pingpong_slice :: "nat \<Rightarrow> (nat \<Rightarrow> kchan) \<Rightarrow> (nat \<Rightarrow> kchan) \<Rightarrow> nat \<Rightarrow> proc list \<Rightarrow> proc list" where
  "pingpong_slice ver wake wait i ps =
     (let ps = wakeup_procs ver (Some i) (wake i) ps in ps[i := sleep_on (wait i) (ps ! i)])"

interpretation cpu: time_slice "cpu_slice ver" for ver
  by unfold_locales (simp_all add: cpu_slice_def)

interpretation pingpong: time_slice "pingpong_slice ver wake wait" for ver wake wait
  by unfold_locales (auto simp: pingpong_slice_def Let_def nth_wakeup_procs wake_proc_def)

section \<open>Starvation\<close>

lemma yield_base: "pstate p = RUNNABLE \<Longrightarrow> priority p = PRIORITY_BASE \<Longrightarrow>
    yield_proc ver (p\<lparr>pstate := RUNNING\<rparr>) = p"
  by (simp add: yield_proc_def)

lemma base_round:
  assumes "ver \<ge> 6" "\<forall>p \<in> set ps. priority p = PRIORITY_BASE"
    "first_proc (\<lambda>p. pstate p = RUNNABLE) ps = Some k"
  shows "sched_round ver (cpu_slice ver) ps = (ps, [k])"
proof -
  have k: "k < length ps" "pstate (ps ! k) = RUNNABLE" "\<And>j. j < k \<Longrightarrow> pstate (ps ! j) \<noteq> RUNNABLE"
    using assms(3) by (auto simp: first_proc_Some)
  have pr: "i < length ps \<Longrightarrow> priority (ps ! i) = PRIORITY_BASE" for i using assms(2) by simp
  have "best_proc ps k" using k pr by (auto simp: best_proc_def runnable_def not_less [symmetric])
  moreover have "\<forall>p \<in> set ps. 0 \<le> priority p" using assms(2) by (simp add: PRIORITY_BASE_def)
  ultimately have "sched_pick ps = Some k" by (simp add: sched_pick_iff)
  then show ?thesis using assms(1) k pr [of k] yield_base [of "ps ! k" ver]
    by (simp add: sched_round_def sched_round_prio_def sched_switch_def cpu_slice_def)
qed

primrec sched_rounds :: "nat \<Rightarrow> nat \<Rightarrow> (nat \<Rightarrow> proc list \<Rightarrow> proc list) \<Rightarrow> proc list \<Rightarrow> nat list" where
  "sched_rounds 0 ver run ps = []"
| "sched_rounds (Suc n) ver run ps =
     (case sched_round ver run ps of (ps, rs) \<Rightarrow> rs @ sched_rounds n ver run ps)"

section \<open>Wakeups\<close>

lemma wakeup_sleeper:
  assumes "i < length ps" "Some i \<noteq> me" "pstate (ps ! i) = SLEEPING" "chan (ps ! i) = c"
  shows "runnable (wakeup_procs ver me c ps) i \<and>
    (ver \<ge> 6 \<longrightarrow> priority (wakeup_procs ver me c ps ! i) = PRIORITY_BOOST)"
  using assms by (auto simp: runnable_def nth_wakeup_procs wake_proc_def Let_def)

lemma wakeup_boost_first:
  assumes "ver \<ge> 6" "prio_inv ps" "i < length ps" "Some i \<noteq> me" "pstate (ps ! i) = SLEEPING" "chan (ps ! i) = c"
    "\<forall>p \<in> set ps. pstate p = RUNNABLE \<longrightarrow> priority p < PRIORITY_BOOST"
  shows "\<exists>k. sched_pick (wakeup_procs ver me c ps) = Some k \<and> k \<le> i \<and>
    pstate (ps ! k) = SLEEPING \<and> chan (ps ! k) = c \<and> Some k \<noteq> me"
proof -
  let ?ps = "wakeup_procs ver me c ps"
  have inv: "prio_inv ?ps" using prio_inv_wakeup [OF assms(2)] .
  then have nn: "\<forall>p \<in> set ?ps. 0 \<le> priority p" by (simp add: prio_inv_def PRIORITY_BASE_def)
  have i: "runnable ?ps i" "priority (?ps ! i) = PRIORITY_BOOST"
    using wakeup_sleeper [OF assms(3-6)] assms(1) by auto
  then obtain k where k: "sched_pick ?ps = Some k" using sched_pick_None [OF _ nn] by fastforce
  then have b: "best_proc ?ps k" by (rule sched_pick_Some)
  then have kr: "runnable ?ps k" by (simp add: best_proc_def)
  then have kl: "k < length ps" by (simp add: runnable_def)
  have "priority (?ps ! k) \<le> PRIORITY_BOOST" using inv kr by (simp add: prio_inv_def runnable_def)
  then have kp: "priority (?ps ! k) = PRIORITY_BOOST" "k \<le> i"
    using b i unfolding best_proc_def by (metis not_le)+
  have "\<not> (pstate (ps ! k) = RUNNABLE)"
  proof
    assume r: "pstate (ps ! k) = RUNNABLE"
    then have "?ps ! k = ps ! k" using kl by (simp add: nth_wakeup_procs wake_proc_def)
    then show False using assms(7) kl r kp(1) by auto
  qed
  then have "pstate (ps ! k) = SLEEPING \<and> chan (ps ! k) = c \<and> Some k \<noteq> me"
    using kr kl by (auto simp: runnable_def nth_wakeup_procs wake_proc_def split: if_splits)
  then show ?thesis using k kp(2) by blast
qed

section \<open>Kill\<close>

lemma kkill_Some:
  assumes "first_proc (\<lambda>p. pid p = n) (procs s) = Some i"
  shows "kkill n s = (0, upd_proc i kill_proc s)" "killed (kill_proc p)"
    "pstate (kill_proc p) = (if pstate p = SLEEPING then RUNNABLE else pstate p)"
  using assms by (auto simp: kkill_def kill_proc_def Let_def)

section \<open>Repeated rounds\<close>

lemma cpu_slice_self: "i < length ps \<Longrightarrow> pstate (cpu_slice ver i ps ! i) = RUNNABLE"
  by (simp add: cpu_slice_def yield_proc_def Let_def)

lemma pass_keeps_runnable:
  "set is \<subseteq> {..<length ps} \<Longrightarrow> runnable ps j \<Longrightarrow> runnable (fst (sched_pass (cpu_slice ver) is ps)) j"
proof (induction "is" arbitrary: ps)
  case (Cons i "is")
  obtain ps1 b where sw: "sched_switch i ps = (ps1, b)" by fastforce
  let ?ps = "if b then cpu_slice ver i ps1 else ps1"
  have i: "i < length ps" using Cons.prems(1) by simp
  have l1: "length ps1 = length ps" using cpu.switch_others [OF sw] by blast
  have len: "length ?ps = length ps" using l1 cpu.run_length by simp
  have "pstate (?ps ! j) = RUNNABLE"
  proof (cases "j = i")
    case True
    then have b using sw Cons.prems(2) by (auto simp: sched_switch_def runnable_def split: if_splits)
    then show ?thesis using cpu_slice_self [of i ps1] i l1 True by simp
  next
    case False
    then show ?thesis
      using cpu.switch_others [OF sw, of j] cpu.run_others [OF False, of ps1] Cons.prems(2)
      by (auto simp: runnable_def)
  qed
  then have "runnable (fst (sched_pass (cpu_slice ver) is ?ps)) j"
    using Cons.prems len by (intro Cons.IH) (auto simp: runnable_def)
  then show ?case using sw by (cases b; cases "sched_pass (cpu_slice ver) is ?ps") simp_all
qed simp

lemma count_list_pos: "x \<in> set xs \<Longrightarrow> 1 \<le> count_list xs x"
  by (induction xs) auto

section \<open>Properties\<close>

text \<open>C11. The scan of the scheduler of versions 6 to 8 chooses process \<open>i\<close> exactly when \<open>i\<close> is the first
  process, in table order, among the runnable ones of the highest priority; it chooses none
  exactly when no process is runnable.\<close>

theorem sched_pick_best:
  assumes "prio_inv ps"
  shows "(sched_pick ps = Some i \<longleftrightarrow> best_proc ps i) \<and> (sched_pick ps = None \<longleftrightarrow> (\<forall>j. \<not> runnable ps j))"
proof -
  have nn: "\<forall>p \<in> set ps. 0 \<le> priority p" using assms by (simp add: prio_inv_def PRIORITY_BASE_def)
  have "\<exists>j. runnable ps j" if "sched_pick ps \<noteq> None"
    using that sched_pick_Some by (fastforce simp: best_proc_def)
  then show ?thesis using sched_pick_iff [OF nn] sched_pick_None [OF _ nn] by blast
qed

definition ex_p :: "procstate \<Rightarrow> kchan \<Rightarrow> int \<Rightarrow> proc" where
  "ex_p st c pr = \<lparr>pstate = st, chan = c, killed = False, xstate = 0, pid = 1, parent = None,
     kstack = 0, sz = 0, pagetable = 0, trapframe = 0, pcontext = [], ofile = [], cwd = None, pname = [], priority = pr\<rparr>"

definition ex_table :: "proc list" where
  "ex_table = [ex_p RUNNABLE NoChan 0, ex_p RUNNABLE NoChan 0, ex_p SLEEPING (ProcChan 7) 0, ex_p RUNNING NoChan 3]"

lemma ex_table_prio: "prio_inv ex_table"
  by (simp add: prio_inv_def ex_table_def ex_p_def PRIORITY_BASE_def PRIORITY_BOOST_def)

theorem sched_pick_best_witness:
  "(sched_pick ex_table = Some 0 \<longleftrightarrow> best_proc ex_table 0) \<and>
   (sched_pick ex_table = None \<longleftrightarrow> (\<forall>j. \<not> runnable ex_table j))"
  by (rule sched_pick_best [OF ex_table_prio])



text \<open>C13. Priorities stay between \<^verbatim>\<open>PRIORITY_BASE\<close> and \<^verbatim>\<open>PRIORITY_BOOST\<close> under \<^verbatim>\<open>wakeup\<close> and
  \<^verbatim>\<open>yield\<close>, and \<open>k\<close> calls of \<^verbatim>\<open>yield\<close> lower a process's priority by \<open>k\<close>, down to the base.\<close>

theorem priority_bounds_decay:
  assumes "ver \<ge> 6" "prio_inv ps" "i < length ps"
  shows "prio_inv (wakeup_procs ver me c ps) \<and> prio_inv (ps[i := yield_proc ver (ps ! i)]) \<and>
    priority ((yield_proc ver ^^ k) (ps ! i)) = max PRIORITY_BASE (priority (ps ! i) - int k)"
proof -
  have "PRIORITY_BASE \<le> priority (ps ! i)" using assms(2,3) by (simp add: prio_inv_def)
  then show ?thesis using prio_inv_wakeup prio_inv_yield yield_decay assms by blast
qed

theorem priority_bounds_decay_witness:
  "prio_inv (wakeup_procs 7 (Some 0) (ProcChan 7) ex_table) \<and>
   prio_inv (ex_table[3 := yield_proc 7 (ex_table ! 3)]) \<and>
   priority ((yield_proc 7 ^^ 2) (ex_table ! 3)) = max PRIORITY_BASE (priority (ex_table ! 3) - int 2)"
  by (rule priority_bounds_decay [OF _ ex_table_prio]) (simp_all add: ex_table_def)



text \<open>C15. The scheduler of versions 6 to 8 is not fair among processes of equal priority: when all
  processes have the base priority and compute until their timer interrupt, it runs the first
  runnable process of the table in every round and never any other.\<close>

theorem prio_starvation:
  assumes "ver \<ge> 6" "\<forall>p \<in> set ps. priority p = PRIORITY_BASE"
    "first_proc (\<lambda>p. pstate p = RUNNABLE) ps = Some k"
  shows "sched_rounds n ver (cpu_slice ver) ps = replicate n k"
  using base_round [OF assms] by (induction n) simp_all

theorem prio_starvation_witness:
  "sched_rounds 5 7 (cpu_slice 7) [ex_p RUNNABLE NoChan 0, ex_p RUNNABLE NoChan 0] = replicate 5 0"
  by (rule prio_starvation) (simp_all add: first_proc_def ex_p_def PRIORITY_BASE_def)

text \<open>\<^verbatim>\<open>kkill\<close> of a pid marks the first process with that pid killed and makes it runnable if
  it sleeps; it fails exactly when no slot has the pid. Every other process is left alone.\<close>

lemma kkill_effect:
  "case kkill n s of (r, s') \<Rightarrow>
     (r = -1 \<and> s' = s \<and> (\<forall>i < length (procs s). pid (procs s ! i) \<noteq> n)) \<or>
     (r = 0 \<and> (\<exists>i < length (procs s). pid (procs s ! i) = n \<and> killed (procs s' ! i) \<and>
        pstate (procs s' ! i) \<noteq> SLEEPING \<and> (\<forall>j. j \<noteq> i \<longrightarrow> procs s' ! j = procs s ! j)))"
proof (cases "first_proc (\<lambda>p. pid p = n) (procs s)")
  case None
  then have "kkill n s = (-1, s)" by (simp add: kkill_def)
  then show ?thesis using None by (simp add: first_proc_None)
next
  case (Some i)
  then have i: "i < length (procs s)" "pid (procs s ! i) = n" by (auto simp: first_proc_Some)
  have k: "kkill n s = (0, upd_proc i kill_proc s)" using Some by (simp add: kkill_def)
  have "killed (procs (upd_proc i kill_proc s) ! i)" "pstate (procs (upd_proc i kill_proc s) ! i) \<noteq> SLEEPING"
    using i(1) by (simp_all add: kill_proc_def Let_def)
  then show ?thesis using i k by auto
qed

definition ex_kernel1 :: kernel where
  "ex_kernel1 = \<lparr>mem = \<lambda>_. 0, freelist = 0, kend = 0x80020000, etext = 0, trampoline = 0,
     procs = ex_table, nextpid = 2, initproc = Some 0, forkret_addr = 0, halted = None\<rparr>"

end
