(* ===== verification/Pipe_Kernel.thy ===== *)
theory Pipe_Kernel
  imports Pipe_Versions Sched
begin

text \<open>
  The pipe code on the kernel's own operations: \<open>kernel_ops\<close> meets the contracts \<open>user_copy\<close> and
  \<open>user_view\<close>, so the loop lemmas hold of \<^verbatim>\<open>pipewrite\<close> and \<^verbatim>\<open>piperead\<close> as the kernel runs them.
  The theorems give the result of every version on every branch: what a write appends, what a
  read takes, when a call sleeps, and that the optimised versions agree with version 1.
\<close>

section \<open>The kernel meets the contracts\<close>

definition kresident :: "nat \<Rightarrow> 'a kernel_scheme \<Rightarrow> u64 \<Rightarrow> nat \<Rightarrow> bool" where
  "kresident me s a len = upresent (pagetable (procs s ! me)) s a len"

definition kbyte :: "nat \<Rightarrow> 'a kernel_scheme \<Rightarrow> u64 \<Rightarrow> u8" where
  "kbyte me s a = ubyte_at (pagetable (procs s ! me)) s a"

definition kwritable :: "nat \<Rightarrow> 'a kernel_scheme \<Rightarrow> u64 \<Rightarrow> nat \<Rightarrow> bool" where
  "kwritable me s a len = uwritable (pagetable (procs s ! me)) s a len"

definition kstore :: "nat \<Rightarrow> 'a kernel_scheme \<Rightarrow> u64 \<Rightarrow> u8 list \<Rightarrow> 'a kernel_scheme" where
  "kstore me s a bs = ustore_at (pagetable (procs s ! me)) s a bs"

lemma procs_ustore_at [simp]: "procs (ustore_at pt s a bs) = procs s"
  by (simp add: ustore_at_def)

lemma procs_kstore [simp]: "procs (kstore me s a bs) = procs s"
  by (simp add: kstore_def)

lemma kernel_ops_simps [simp]:
  "op_killed (kernel_ops ver me pg) s = killed (procs s ! me)"
  "op_wakeup (kernel_ops ver me pg) c s = wakeup ver (Some me) (PipeChan pg c) s"
  by (simp_all add: kernel_ops_def is_killed_def)

lemma kernel_copyin_len:
  assumes "op_copyin (kernel_ops ver me pg) s a len = ((bs, ok), s')"
  shows "length bs \<le> len" "ok \<Longrightarrow> length bs = len"
  using assms copyin_loop_prefix [of _ _ _ a len "[]" s bs ok s']
  by (auto simp: kernel_ops_def copyin_def Let_def split: sum.splits)

interpretation ku: user_view "kernel_ops ver me pg" "kresident me" "kbyte me" "kwritable me" "kstore me"
  for ver me pg
proof (unfold_locales, goal_cases)
  case (1 m a len bs ok m')
  then show ?case using kernel_copyin_len(1) by blast
next
  case (2 m a len bs m')
  then show ?case using kernel_copyin_len(2) by blast
next
  case (3 m a len)
  then show ?case
    by (simp add: kresident_def kbyte_def kernel_ops_def copyin_present Let_def)
next
  case (4 m a len j c)
  then show ?case by (simp add: kresident_def upresent_sub)
next
  case (5 m a bs)
  then show ?case
    by (simp add: kwritable_def kstore_def kernel_ops_def copyout_uwritable Let_def)
next
  case (6 m a len j c)
  then show ?case unfolding kwritable_def by (rule uwritable_sub)
next
  case (7 m a len j bs)
  then show ?case by (simp add: kwritable_def kstore_def uwritable_store)
next
  case (8 m a xs ys)
  then show ?case by (simp add: kwritable_def kstore_def ustore_ustore)
next
  case (9 m a)
  then show ?case by (simp add: kstore_def ustore_at_def)
qed

interpretation k512: bulk_view "kernel_ops ver me pg" "kresident me" "kbyte me" "kwritable me" "kstore me" 512
  for ver me pg
  by unfold_locales simp

interpretation k4096: bulk_view "kernel_ops ver me pg" "kresident me" "kbyte me" "kwritable me" "kstore me" 4096
  for ver me pg
  by unfold_locales simp

section \<open>Whatever the state of user memory\<close>

text \<open>
  The effect of a writing call that starts at byte \<open>i\<close>: it appends some bytes, reports how many
  were transferred in all or \<open>-1\<close>, and sleeps only on a full pipe with bytes left to write. The
  effect of a reading call: it takes bytes from the front and reports how many, possibly \<open>loss\<close>
  fewer than it took, and sleeps only on an empty pipe.
\<close>

primrec pcall_pipe :: "('q, 'm) pcall \<Rightarrow> 'q" where
  "pcall_pipe (Ret r q m) = q"
| "pcall_pipe (Blocked c q m i) = q"

definition write_effect ::
  "('q \<Rightarrow> bool) \<Rightarrow> ('q \<Rightarrow> u8 list) \<Rightarrow> nat \<Rightarrow> int \<Rightarrow> int \<Rightarrow> 'q \<Rightarrow> ('q, 'm) pcall \<Rightarrow> bool" where
  "write_effect I content cap n i q r \<longleftrightarrow> I (pcall_pipe r) \<and>
     (\<exists>bs. content (pcall_pipe r) = content q @ bs \<and> i + int (length bs) \<le> n \<and>
       (case r of
          Ret k _ _ \<Rightarrow> k = i + int (length bs) \<or> k = -1
        | Blocked c q' _ k \<Rightarrow> c = NwriteChan \<and> k = i + int (length bs) \<and> k < n \<and> length (content q') = cap))"

definition read_effect ::
  "('q \<Rightarrow> bool) \<Rightarrow> ('q \<Rightarrow> u8 list) \<Rightarrow> nat \<Rightarrow> int \<Rightarrow> 'q \<Rightarrow> ('q, 'm) pcall \<Rightarrow> bool" where
  "read_effect I content loss n q r \<longleftrightarrow> I (pcall_pipe r) \<and>
     (case r of
        Ret k q' _ \<Rightarrow> \<exists>c e. content q' = drop (c + e) (content q) \<and> c \<le> length (content q) \<and> int c \<le> n \<and>
          e \<le> loss \<and> (k = int c \<or> k = -1 \<and> c = 0)
      | Blocked c q' _ k \<Rightarrow> c = NreadChan \<and> q' = q \<and> content q = [] \<and> k = 0)"

context write_body
begin

lemma eager_effect:
  assumes "n < 2 ^ 31" "inv q" "0 \<le> i" "i \<le> n"
  shows "\<exists>r. map_option (eager_finish K) (write_loop body n q m i) = Some r \<and> write_effect inv content cap n i q r"
proof -
  from loop_outcome [OF assms] obtain x bs where x: "write_loop body n q m i = Some x" "inv (wexit_pipe x)"
    "content (wexit_pipe x) = content q @ bs" "i + int (length bs) \<le> n"
    "wexit_at n cap content (i + int (length bs)) x" by blast
  then have "write_effect inv content cap n i q (eager_finish K x)"
    by (cases x) (auto simp: write_effect_def eager_finish_def)
  then show ?thesis using x(1) by simp
qed

lemma lazy_effect:
  assumes "n < 2 ^ 31" "inv q" "0 \<le> i" "i \<le> n"
  shows "\<exists>r. map_option (lazy_finish K nw) (write_loop body n q m i) = Some r \<and> write_effect inv content cap n i q r"
proof -
  from loop_outcome [OF assms] obtain x bs where x: "write_loop body n q m i = Some x" "inv (wexit_pipe x)"
    "content (wexit_pipe x) = content q @ bs" "i + int (length bs) \<le> n"
    "wexit_at n cap content (i + int (length bs)) x" by blast
  then have "write_effect inv content cap n i q (lazy_finish K nw x)"
    by (cases x) (auto simp: write_effect_def lazy_finish_def)
  then show ?thesis using x(1) by simp
qed

end

context read_body
begin

lemma read_result_effect:
  assumes "n < 2 ^ 31" "inv q" "0 \<le> n" "\<And>q m i. \<exists>m'. fin (q, m, i) = Ret i q m'"
    "w = RSleep \<Longrightarrow> content q = []"
  shows "\<exists>r. read_with_wait w (map_option fin (read_loop body n q m 0)) q m = Some r \<and>
    read_effect inv content loss n q r"
proof (cases w)
  case RGo
  from loop_result [OF assms(1,2), of 0 m] assms(3) obtain q' m' r c e where
    r: "read_loop body n q m 0 = Some (q', m', r)" "inv q'" "content q' = drop (c + e) (content q)"
      "c \<le> length (content q)" "e \<le> loss" "int c \<le> n" "r = int c \<or> c = 0 \<and> r = -1" by auto
  obtain m'' where "fin (q', m', r) = Ret r q' m''" using assms(4) by blast
  then show ?thesis using r RGo by (auto simp: read_with_wait_def read_effect_def)
next
  case RDead
  then show ?thesis using assms(2,3) by (auto simp: read_with_wait_def read_effect_def intro!: exI [of _ 0])
next
  case RSleep
  then show ?thesis using assms(2,5) by (auto simp: read_with_wait_def read_effect_def)
qed

end

lemma eager_read_Ret: "\<exists>m'. eager_read_finish K (q, m, i) = Ret i q m'"
  by (simp add: eager_read_finish_def)

lemma lazy_read_Ret: "\<exists>m'. lazy_read_finish K b (q, m, i) = Ret i q m'"
  by (simp add: lazy_read_finish_def)

lemma wait_empty: "piperead_wait K pi m = RSleep \<Longrightarrow> pipe_used pi = 0"
  by (auto simp: piperead_wait_def pipe_empty_iff split: if_splits)

section \<open>The abstract queue\<close>

text \<open>
  What a pipe promises: a bounded first-in first-out queue of bytes. \<open>fifo_write\<close> takes the bytes
  \<open>src\<close> from offset \<open>i\<close> on, as many as fit; \<open>fifo_read\<close> delivers at most \<open>n\<close> bytes. \<open>w\<close> is the
  state of the kernel when the call returns or sleeps.
\<close>

definition fifo_write ::
  "nat \<Rightarrow> (nat \<Rightarrow> u8) \<Rightarrow> int \<Rightarrow> int \<Rightarrow> 'm \<Rightarrow> u8 list \<Rightarrow> (u8 list, 'm) pcall" where
  "fifo_write cap src n i w q =
     (let c = min (nat (n - i)) (cap - length q);
          q' = q @ map src [nat i..<nat i + c]
      in if c = nat (n - i) then Ret n q' w else Blocked NwriteChan q' w (i + int c))"

definition fifo_read :: "int \<Rightarrow> (u8 list \<Rightarrow> 'm) \<Rightarrow> u8 list \<Rightarrow> (u8 list, 'm) pcall" where
  "fifo_read n w q = (let c = min (nat n) (length q) in Ret (int c) (drop c q) (w (take c q)))"

context write_feed
begin

lemma eager_refines:
  assumes "n < 2 ^ 31" "inv q" "0 \<le> i" "i \<le> n" "alive q"
  shows "map_option (map_pcall content id) (map_option (eager_finish K) (write_loop body n q m0 i)) =
    Some (fifo_write cap src n i (op_wakeup K NreadChan m0) (content q))"
proof -
  from feed_outcome [OF assms] obtain q' where
    "content q' = content q @ map src [nat i..<nat i + min (nat (n - i)) (cap - length (content q))]"
    "write_loop body n q m0 i = Some (if min (nat (n - i)) (cap - length (content q)) = nat (n - i)
       then WDone q' m0 n else WBlock q' m0 (i + int (min (nat (n - i)) (cap - length (content q)))))" by blast
  then show ?thesis by (auto simp: eager_finish_def fifo_write_def Let_def)
qed

lemma lazy_refines:
  assumes "n < 2 ^ 31" "inv q" "0 \<le> i" "i \<le> n" "alive q"
  shows "map_option (map_pcall content id) (map_option (lazy_finish K nw) (write_loop body n q m0 i)) =
    Some (fifo_write cap src n i
      (if nat (n - i) \<le> cap - length (content q) \<and> \<not> (nw \<and> 0 < n) then m0 else op_wakeup K NreadChan m0)
      (content q))"
proof -
  from feed_outcome [OF assms] obtain q' where
    "content q' = content q @ map src [nat i..<nat i + min (nat (n - i)) (cap - length (content q))]"
    "write_loop body n q m0 i = Some (if min (nat (n - i)) (cap - length (content q)) = nat (n - i)
       then WDone q' m0 n else WBlock q' m0 (i + int (min (nat (n - i)) (cap - length (content q)))))" by blast
  then show ?thesis by (auto simp: lazy_finish_def fifo_write_def Let_def)
qed

end

context read_drain
begin

lemma read_refines:
  assumes "n < 2 ^ 31" "inv q" "0 \<le> n" "okm m" "\<And>q m i. fin (q, m, i) = Ret i q (g m i)"
  shows "map_option (map_pcall content id) (read_with_wait RGo (map_option fin (read_loop body n q m 0)) q m) =
    Some (fifo_read n (\<lambda>bs. g (put m 0 bs) (int (length bs))) (content q))"
proof -
  from drain_result [OF assms(1,2), of 0 m] assms(3,4) obtain q' where
    "read_loop body n q m 0 = Some (q', put m 0 (take (min (nat n) (length (content q))) (content q)),
       int (min (nat n) (length (content q))))" "content q' = drop (min (nat n) (length (content q))) (content q)"
    by auto
  then show ?thesis by (auto simp: assms(5) read_with_wait_def fifo_read_def Let_def min_def)
qed

end

end
