(* ===== verification/Pipe_Sync.thy ===== *)
theory Pipe_Sync
  imports Pipe_Kernel
begin

text \<open>
  Concurrent readers and writers of one pipe, for the bulk versions (2 and 4: eager wakeups; 5 to
  8: lazy wakeups, \<open>lazy\<close>). A process inside \<^verbatim>\<open>pipewrite\<close> or \<^verbatim>\<open>piperead\<close> is at one of the points
  of \<open>ppc\<close>; a step takes the pipe's lock, runs one pass of a loop with \<open>bulk_write_iter\<close> or
  \<open>bulk_read_iter\<close> on the kernel's own copies, sleeps (which releases the lock), leaves the call, or
  goes on after a sleep. Other kernel activity (\<open>env\<close>) may interleave anywhere. The lemmas show
  first-in first-out delivery in every interleaving, and that no wakeup is lost when no process
  is killed; with kills the lazy versions can lose one.
\<close>

section \<open>State\<close>

datatype ppc =
    Idle
  | WEnter u64 int \<comment> \<open>called, before \<^verbatim>\<open>acquire\<close>\<close>
  | WLoop u64 int int bool \<comment> \<open>at the head of the loop: \<^verbatim>\<open>addr\<close>, \<^verbatim>\<open>n\<close>, \<^verbatim>\<open>i\<close>, \<^verbatim>\<open>need_wakeup\<close>\<close>
  | WWait u64 int int \<comment> \<open>in \<^verbatim>\<open>sleep\<close>\<close>
  | WExit int bool \<comment> \<open>after the loop\<close>
  | REnter u64 int
  | RTest u64 int \<comment> \<open>at the head of the waiting loop\<close>
  | RWait u64 int
  | RLoop u64 int int bool \<comment> \<open>at the head of the copying loop, with \<^verbatim>\<open>was_full\<close>\<close>
  | RExit int bool

text \<open>\<open>accepted\<close> and \<open>delivered\<close> record the bytes that entered and left the pipe.\<close>

record psys =
  kern :: kernel
  ppipe :: pipe
  holder :: "nat option"
  pc :: "nat \<Rightarrow> ppc"
  accepted :: "u8 list"
  delivered :: "u8 list"

definition set_ppc :: "nat \<Rightarrow> ppc \<Rightarrow> psys \<Rightarrow> psys" where
  "set_ppc p x s = s\<lparr>pc := (pc s)(p := x)\<rparr>"

definition pipe_wake :: "nat \<Rightarrow> u64 \<Rightarrow> nat \<Rightarrow> pipe_chan \<Rightarrow> psys \<Rightarrow> psys" where
  "pipe_wake ver pg p c s = s\<lparr>kern := wakeup ver (Some p) (PipeChan pg c) (kern s)\<rparr>"

text \<open>\<^verbatim>\<open>sleep(chan, &pi->lock)\<close>: process \<open>p\<close> gives up the pipe's lock and sleeps.\<close>

definition pipe_sleep :: "u64 \<Rightarrow> nat \<Rightarrow> pipe_chan \<Rightarrow> psys \<Rightarrow> psys" where
  "pipe_sleep pg p c s = s\<lparr>kern := upd_proc p (sleep_on (PipeChan pg c)) (kern s), holder := None\<rparr>"

text \<open>The end of \<^verbatim>\<open>sleep\<close>: \<open>p\<close> runs again and gets the lock back.\<close>

definition pipe_resume :: "nat \<Rightarrow> psys \<Rightarrow> psys" where
  "pipe_resume p s = s\<lparr>kern := upd_proc p sleep_resume (kern s), holder := Some p\<rparr>"

section \<open>Steps\<close>

definition w_lock :: "bool \<Rightarrow> nat \<Rightarrow> u64 \<Rightarrow> int \<Rightarrow> psys \<Rightarrow> psys" where
  "w_lock lazy p addr n s =
     set_ppc p (WLoop addr n 0 (lazy \<longrightarrow> nwrite (ppipe s) = nread (ppipe s))) (s\<lparr>holder := Some p\<rparr>)"

definition w_pass :: "nat \<Rightarrow> nat \<Rightarrow> u64 \<Rightarrow> nat \<Rightarrow> u64 \<Rightarrow> int \<Rightarrow> int \<Rightarrow> bool \<Rightarrow> psys \<Rightarrow> psys" where
  "w_pass tot ver pg p addr n i need s =
     (if i < n then
        (case bulk_write_iter tot (kernel_ops ver p pg) addr n (ppipe s) (kern s) i of
           WDead \<Rightarrow> set_ppc p Idle (s\<lparr>holder := None\<rparr>)
         | WFull \<Rightarrow> set_ppc p (WWait addr n i) (pipe_sleep pg p NwriteChan (pipe_wake ver pg p NreadChan s))
         | WBreak pi m \<Rightarrow> set_ppc p (WExit i need) (s\<lparr>ppipe := pi, kern := m\<rparr>)
         | WCont pi m i' \<Rightarrow> set_ppc p (WLoop addr n i' need) (s\<lparr>ppipe := pi, kern := m,
             accepted := accepted s @ drop (pipe_used (ppipe s)) (pipe_bytes tot pi)\<rparr>))
      else set_ppc p (WExit i need) s)"

definition w_exit :: "bool \<Rightarrow> nat \<Rightarrow> u64 \<Rightarrow> nat \<Rightarrow> int \<Rightarrow> bool \<Rightarrow> psys \<Rightarrow> psys" where
  "w_exit lazy ver pg p i need s =
     set_ppc p Idle ((if \<not> lazy \<or> need \<and> i > 0 then pipe_wake ver pg p NreadChan s else s)\<lparr>holder := None\<rparr>)"

definition w_resume :: "nat \<Rightarrow> u64 \<Rightarrow> int \<Rightarrow> int \<Rightarrow> psys \<Rightarrow> psys" where
  "w_resume p addr n i s = set_ppc p (WLoop addr n i True) (pipe_resume p s)"

definition r_test :: "nat \<Rightarrow> bool \<Rightarrow> nat \<Rightarrow> u64 \<Rightarrow> nat \<Rightarrow> u64 \<Rightarrow> int \<Rightarrow> psys \<Rightarrow> psys" where
  "r_test tot lazy ver pg p addr n s =
     (case piperead_wait (kernel_ops ver p pg) (ppipe s) (kern s) of
        RGo \<Rightarrow> set_ppc p (RLoop addr n 0 (lazy \<longrightarrow> pipe_full tot (ppipe s))) s
      | RDead \<Rightarrow> set_ppc p Idle (s\<lparr>holder := None\<rparr>)
      | RSleep \<Rightarrow> set_ppc p (RWait addr n) (pipe_sleep pg p NreadChan s))"

definition r_pass :: "nat \<Rightarrow> nat \<Rightarrow> u64 \<Rightarrow> nat \<Rightarrow> u64 \<Rightarrow> int \<Rightarrow> int \<Rightarrow> bool \<Rightarrow> psys \<Rightarrow> psys" where
  "r_pass tot ver pg p addr n i was_full s =
     (if i < n then
        (case bulk_read_iter tot (kernel_ops ver p pg) addr n (ppipe s) (kern s) i of
           RBreak pi m i' \<Rightarrow> set_ppc p (RExit i' was_full) (s\<lparr>ppipe := pi, kern := m\<rparr>)
         | RCont pi m i' \<Rightarrow> set_ppc p (RLoop addr n i' was_full) (s\<lparr>ppipe := pi, kern := m,
             delivered := delivered s @ take (nat (i' - i)) (pipe_bytes tot (ppipe s))\<rparr>))
      else set_ppc p (RExit i was_full) s)"

definition r_exit :: "bool \<Rightarrow> nat \<Rightarrow> u64 \<Rightarrow> nat \<Rightarrow> int \<Rightarrow> bool \<Rightarrow> psys \<Rightarrow> psys" where
  "r_exit lazy ver pg p i was_full s =
     set_ppc p Idle ((if \<not> lazy \<or> was_full \<and> i > 0 then pipe_wake ver pg p NwriteChan s else s)\<lparr>holder := None\<rparr>)"

definition r_resume :: "nat \<Rightarrow> u64 \<Rightarrow> int \<Rightarrow> psys \<Rightarrow> psys" where
  "r_resume p addr n s = set_ppc p (RTest addr n) (pipe_resume p s)"

text \<open>\<^verbatim>\<open>pipeclose\<close> of one side, while the other side is still open or not: process \<open>p\<close> takes the lock,
  closes, wakes the other side and releases. The page is freed elsewhere.\<close>

definition close_side :: "nat \<Rightarrow> u64 \<Rightarrow> nat \<Rightarrow> bool \<Rightarrow> psys \<Rightarrow> psys" where
  "close_side ver pg p writable s =
     (if writable then pipe_wake ver pg p NreadChan (s\<lparr>ppipe := (ppipe s)\<lparr>writeopen := False\<rparr>\<rparr>)
      else pipe_wake ver pg p NwriteChan (s\<lparr>ppipe := (ppipe s)\<lparr>readopen := False\<rparr>\<rparr>))"

fun in_write :: "ppc \<Rightarrow> bool" where
  "in_write (WEnter _ _) = True"
| "in_write (WLoop _ _ _ _) = True"
| "in_write (WWait _ _ _) = True"
| "in_write (WExit _ _) = True"
| "in_write _ = False"

fun in_read :: "ppc \<Rightarrow> bool" where
  "in_read (REnter _ _) = True"
| "in_read (RTest _ _) = True"
| "in_read (RWait _ _) = True"
| "in_read (RLoop _ _ _ _) = True"
| "in_read (RExit _ _) = True"
| "in_read _ = False"

fun crit :: "ppc \<Rightarrow> bool" where
  "crit (WLoop _ _ _ _) = True"
| "crit (WExit _ _) = True"
| "crit (RTest _ _) = True"
| "crit (RLoop _ _ _ _) = True"
| "crit (RExit _ _) = True"
| "crit _ = False"

definition asleep :: "u64 \<Rightarrow> pipe_chan \<Rightarrow> kernel \<Rightarrow> nat \<Rightarrow> bool" where
  "asleep pg c k p \<longleftrightarrow> p < length (procs k) \<and> pstate (procs k ! p) = SLEEPING \<and> chan (procs k ! p) = PipeChan pg c"

text \<open>
  Other kernel activity: scheduling, page faults, other processes. It puts no process to sleep on
  this pipe's channels and kills none; \<open>kill\<close> is a step of its own.
\<close>

definition env_ok :: "u64 \<Rightarrow> kernel \<Rightarrow> kernel \<Rightarrow> bool" where
  "env_ok pg k k' \<longleftrightarrow> length (procs k') = length (procs k) \<and>
     (\<forall>c p. asleep pg c k' p \<longrightarrow> asleep pg c k p) \<and>
     (\<forall>p < length (procs k). killed (procs k' ! p) \<longrightarrow> killed (procs k ! p))"

text \<open>
  A file stays open while a process is inside a call on it, so the side of the pipe a process is
  using is not closed under it: this is the guard of \<open>close_r\<close> and \<open>close_w\<close>, and of new calls.
\<close>

inductive pstep :: "nat \<Rightarrow> bool \<Rightarrow> bool \<Rightarrow> nat \<Rightarrow> u64 \<Rightarrow> psys \<Rightarrow> psys \<Rightarrow> bool"
  for tot :: nat and lazy :: bool and kills :: bool and ver :: nat and pg :: u64 where
  call_w: "pc s p = Idle \<Longrightarrow> p < length (procs (kern s)) \<Longrightarrow> pstate (procs (kern s) ! p) = RUNNING \<Longrightarrow>
     writeopen (ppipe s) \<Longrightarrow> 0 \<le> n \<Longrightarrow> n < 2 ^ 31 \<Longrightarrow>
     pstep tot lazy kills ver pg s (set_ppc p (WEnter addr n) s)"
| lock_w: "pc s p = WEnter addr n \<Longrightarrow> holder s = None \<Longrightarrow> pstep tot lazy kills ver pg s (w_lock lazy p addr n s)"
| pass_w: "pc s p = WLoop addr n i need \<Longrightarrow> pstep tot lazy kills ver pg s (w_pass tot ver pg p addr n i need s)"
| exit_w: "pc s p = WExit i need \<Longrightarrow> pstep tot lazy kills ver pg s (w_exit lazy ver pg p i need s)"
| resume_w: "pc s p = WWait addr n i \<Longrightarrow> holder s = None \<Longrightarrow> pstate (procs (kern s) ! p) = RUNNING \<Longrightarrow>
     pstep tot lazy kills ver pg s (w_resume p addr n i s)"
| call_r: "pc s p = Idle \<Longrightarrow> p < length (procs (kern s)) \<Longrightarrow> pstate (procs (kern s) ! p) = RUNNING \<Longrightarrow>
     readopen (ppipe s) \<Longrightarrow> 0 \<le> n \<Longrightarrow> n < 2 ^ 31 \<Longrightarrow>
     pstep tot lazy kills ver pg s (set_ppc p (REnter addr n) s)"
| lock_r: "pc s p = REnter addr n \<Longrightarrow> holder s = None \<Longrightarrow>
     pstep tot lazy kills ver pg s (set_ppc p (RTest addr n) (s\<lparr>holder := Some p\<rparr>))"
| test_r: "pc s p = RTest addr n \<Longrightarrow> pstep tot lazy kills ver pg s (r_test tot lazy ver pg p addr n s)"
| pass_r: "pc s p = RLoop addr n i was_full \<Longrightarrow> pstep tot lazy kills ver pg s (r_pass tot ver pg p addr n i was_full s)"
| exit_r: "pc s p = RExit i was_full \<Longrightarrow> pstep tot lazy kills ver pg s (r_exit lazy ver pg p i was_full s)"
| resume_r: "pc s p = RWait addr n \<Longrightarrow> holder s = None \<Longrightarrow> pstate (procs (kern s) ! p) = RUNNING \<Longrightarrow>
     pstep tot lazy kills ver pg s (r_resume p addr n s)"
| close_w: "pc s p = Idle \<Longrightarrow> holder s = None \<Longrightarrow> \<forall>q. \<not> in_write (pc s q) \<Longrightarrow>
     pstep tot lazy kills ver pg s (close_side ver pg p True s)"
| close_r: "pc s p = Idle \<Longrightarrow> holder s = None \<Longrightarrow> \<forall>q. \<not> in_read (pc s q) \<Longrightarrow>
     pstep tot lazy kills ver pg s (close_side ver pg p False s)"
| env: "env_ok pg (kern s) k \<Longrightarrow> pstep tot lazy kills ver pg s (s\<lparr>kern := k\<rparr>)"
| kill: "kills \<Longrightarrow> p < length (procs (kern s)) \<Longrightarrow>
     pstep tot lazy kills ver pg s (s\<lparr>kern := upd_proc p kill_proc (kern s)\<rparr>)"

definition pinit :: "nat \<Rightarrow> u64 \<Rightarrow> psys \<Rightarrow> bool" where
  "pinit tot pg s \<longleftrightarrow> pipe_inv tot (ppipe s) \<and> accepted s = [] \<and> delivered s = [] \<and> pipe_used (ppipe s) = 0 \<and>
     readopen (ppipe s) \<and> writeopen (ppipe s) \<and> holder s = None \<and> (\<forall>p. pc s p = Idle) \<and>
     (\<forall>c p. \<not> asleep pg c (kern s) p) \<and> (\<forall>p < length (procs (kern s)). \<not> killed (procs (kern s) ! p))"

inductive preach :: "nat \<Rightarrow> bool \<Rightarrow> bool \<Rightarrow> nat \<Rightarrow> u64 \<Rightarrow> psys \<Rightarrow> bool"
  for tot lazy kills ver pg where
  init: "pinit tot pg s \<Longrightarrow> preach tot lazy kills ver pg s"
| step: "preach tot lazy kills ver pg s \<Longrightarrow> pstep tot lazy kills ver pg s s' \<Longrightarrow> preach tot lazy kills ver pg s'"

section \<open>Frames\<close>

lemma mframe_procs: "mframe s s' \<Longrightarrow> procs s' = procs s"
  by (auto simp: mframe_def)

lemma kernel_copy_procs:
  "op_copyin (kernel_ops ver me pg) s a len = (r, s') \<Longrightarrow> procs s' = procs s"
  "op_copyout (kernel_ops ver me pg) s a bs = (ok, s') \<Longrightarrow> procs s' = procs s"
  by (auto simp: kernel_ops_def copyin_def Let_def split: sum.splits
      dest!: mframe_copyin_loop mframe_copyout mframe_procs)

lemma bulk_write_frame:
  assumes "bulk_write_iter tot (kernel_ops ver me pg) addr n pi m i = WCont pi' m' i' \<or>
    bulk_write_iter tot (kernel_ops ver me pg) addr n pi m i = WBreak pi' m'"
  shows "procs m' = procs m \<and> readopen pi' = readopen pi \<and> writeopen pi' = writeopen pi"
  using assms by (auto simp: bulk_write_iter_def Let_def split: if_splits prod.splits dest: kernel_copy_procs)

lemma bulk_read_frame:
  assumes "bulk_read_iter tot (kernel_ops ver me pg) addr n pi m i = RCont pi' m' i' \<or>
    bulk_read_iter tot (kernel_ops ver me pg) addr n pi m i = RBreak pi' m' i'"
  shows "procs m' = procs m \<and> readopen pi' = readopen pi \<and> writeopen pi' = writeopen pi"
  using assms by (auto simp: bulk_read_iter_def Let_def split: if_splits prod.splits dest: kernel_copy_procs)

lemma asleep_procs: "procs k' = procs k \<Longrightarrow> asleep pg c k' p = asleep pg c k p"
  by (simp add: asleep_def)

lemma asleep_wakeup:
  "asleep pg c (wakeup ver (Some me) (PipeChan pg d) k) p \<longleftrightarrow> asleep pg c k p \<and> (c \<noteq> d \<or> p = me)"
  by (auto simp: asleep_def wakeup_def nth_wakeup_procs wake_proc_def Let_def split: if_splits)

lemma asleep_sleep:
  "asleep pg c (upd_proc me (sleep_on (PipeChan pg d)) k) p \<longleftrightarrow>
     (if p = me then me < length (procs k) \<and> c = d else asleep pg c k p)"
  by (auto simp: asleep_def sleep_on_def nth_list_update)

lemma asleep_resume: "asleep pg c (upd_proc me sleep_resume k) p \<longleftrightarrow> asleep pg c k p \<and> p \<noteq> me"
  by (cases "me < length (procs k)") (auto simp: asleep_def sleep_resume_def nth_list_update)

lemma asleep_kill: "asleep pg c (upd_proc me kill_proc k) p \<longleftrightarrow> asleep pg c k p \<and> p \<noteq> me"
  by (cases "me < length (procs k)") (auto simp: asleep_def kill_proc_def Let_def nth_list_update)

lemmas asleep_simps = asleep_wakeup asleep_sleep asleep_resume asleep_kill

section \<open>Safety: locks and first-in first-out\<close>

fun bounds_ok :: "ppc \<Rightarrow> bool" where
  "bounds_ok (WEnter _ n) \<longleftrightarrow> 0 \<le> n \<and> n < 2 ^ 31"
| "bounds_ok (WLoop _ n i _) \<longleftrightarrow> 0 \<le> i \<and> i \<le> n \<and> n < 2 ^ 31"
| "bounds_ok (WWait _ n i) \<longleftrightarrow> 0 \<le> i \<and> i \<le> n \<and> n < 2 ^ 31"
| "bounds_ok (REnter _ n) \<longleftrightarrow> 0 \<le> n \<and> n < 2 ^ 31"
| "bounds_ok (RTest _ n) \<longleftrightarrow> 0 \<le> n \<and> n < 2 ^ 31"
| "bounds_ok (RWait _ n) \<longleftrightarrow> 0 \<le> n \<and> n < 2 ^ 31"
| "bounds_ok (RLoop _ n i _) \<longleftrightarrow> 0 \<le> i \<and> i \<le> n \<and> n < 2 ^ 31"
| "bounds_ok _ \<longleftrightarrow> True"

definition lock_ok :: "psys \<Rightarrow> bool" where
  "lock_ok s \<longleftrightarrow> (\<forall>p. crit (pc s p) \<longleftrightarrow> holder s = Some p)"

definition data_ok :: "nat \<Rightarrow> psys \<Rightarrow> bool" where
  "data_ok tot s \<longleftrightarrow> pipe_inv tot (ppipe s) \<and> delivered s @ pipe_bytes tot (ppipe s) = accepted s"

definition psafe :: "nat \<Rightarrow> psys \<Rightarrow> bool" where
  "psafe tot s \<longleftrightarrow> lock_ok s \<and> data_ok tot s \<and> (\<forall>p. bounds_ok (pc s p))"

lemma set_ppc_simps [simp]:
  "pc (set_ppc p x s) = (pc s)(p := x)" "kern (set_ppc p x s) = kern s" "ppipe (set_ppc p x s) = ppipe s"
  "holder (set_ppc p x s) = holder s" "accepted (set_ppc p x s) = accepted s" "delivered (set_ppc p x s) = delivered s"
  by (simp_all add: set_ppc_def)

lemma pipe_wake_simps [simp]:
  "pc (pipe_wake ver pg p c s) = pc s" "kern (pipe_wake ver pg p c s) = wakeup ver (Some p) (PipeChan pg c) (kern s)"
  "ppipe (pipe_wake ver pg p c s) = ppipe s" "holder (pipe_wake ver pg p c s) = holder s"
  "accepted (pipe_wake ver pg p c s) = accepted s" "delivered (pipe_wake ver pg p c s) = delivered s"
  by (simp_all add: pipe_wake_def)

lemma pipe_sleep_simps [simp]:
  "pc (pipe_sleep pg p c s) = pc s" "kern (pipe_sleep pg p c s) = upd_proc p (sleep_on (PipeChan pg c)) (kern s)"
  "ppipe (pipe_sleep pg p c s) = ppipe s" "holder (pipe_sleep pg p c s) = None"
  "accepted (pipe_sleep pg p c s) = accepted s" "delivered (pipe_sleep pg p c s) = delivered s"
  by (simp_all add: pipe_sleep_def)

lemma pipe_resume_simps [simp]:
  "pc (pipe_resume p s) = pc s" "kern (pipe_resume p s) = upd_proc p sleep_resume (kern s)"
  "ppipe (pipe_resume p s) = ppipe s" "holder (pipe_resume p s) = Some p"
  "accepted (pipe_resume p s) = accepted s" "delivered (pipe_resume p s) = delivered s"
  by (simp_all add: pipe_resume_def)

lemma used_after_read:
  "k \<le> pipe_used pi \<Longrightarrow> pipe_bytes tot pi' = drop k (pipe_bytes tot pi) \<Longrightarrow> pipe_used pi' = pipe_used pi - k"
  by (metis length_drop length_pipe_bytes)

lemma lock_ok_other: "lock_ok s \<Longrightarrow> crit (pc s p) \<Longrightarrow> q \<noteq> p \<Longrightarrow> \<not> crit (pc s q)"
  by (auto simp: lock_ok_def)

lemmas pstep_defs = w_lock_def w_pass_def w_exit_def w_resume_def r_test_def r_pass_def r_exit_def r_resume_def
  close_side_def

text \<open>
  The lock: a step moves one process \<open>p\<close>, which holds the lock afterwards exactly when it is inside
  its critical section.
\<close>

definition moves :: "nat \<Rightarrow> psys \<Rightarrow> psys \<Rightarrow> bool" where
  "moves p s s' \<longleftrightarrow> pc s' = (pc s)(p := pc s' p) \<and>
     holder s' = (if crit (pc s' p) then Some p else if crit (pc s p) then None else holder s) \<and>
     (crit (pc s' p) \<longrightarrow> crit (pc s p) \<or> holder s = None)"

lemma moves_other: "moves p s s' \<Longrightarrow> q \<noteq> p \<Longrightarrow> pc s' q = pc s q"
  unfolding moves_def by (metis fun_upd_other)

lemma lock_ok_moves:
  assumes "lock_ok s" "moves p s s'" shows "lock_ok s'"
  unfolding lock_ok_def
proof
  fix q
  note x = assms(2) [unfolded moves_def, THEN conjunct2]
  have "crit (pc s p) \<longleftrightarrow> holder s = Some p" "crit (pc s q) \<longleftrightarrow> holder s = Some q"
    using assms(1) by (simp_all add: lock_ok_def)
  then show "crit (pc s' q) \<longleftrightarrow> holder s' = Some q"
    using x moves_other [OF assms(2), of q]
    by (cases "q = p"; cases "crit (pc s' p)"; cases "crit (pc s p)") auto
qed

lemma moves_w_pass:
  "pc s p = WLoop addr n i need \<Longrightarrow> holder s = Some p \<Longrightarrow> moves p s (w_pass tot ver pg p addr n i need s)"
  unfolding moves_def w_pass_def
  by (cases "i < n"; cases "bulk_write_iter tot (kernel_ops ver p pg) addr n (ppipe s) (kern s) i") simp_all

lemma moves_r_test:
  "pc s p = RTest addr n \<Longrightarrow> holder s = Some p \<Longrightarrow> moves p s (r_test tot lazy ver pg p addr n s)"
  unfolding moves_def r_test_def
  by (cases "piperead_wait (kernel_ops ver p pg) (ppipe s) (kern s)") simp_all

lemma moves_r_pass:
  "pc s p = RLoop addr n i b \<Longrightarrow> holder s = Some p \<Longrightarrow> moves p s (r_pass tot ver pg p addr n i b s)"
  unfolding moves_def r_pass_def
  by (cases "i < n"; cases "bulk_read_iter tot (kernel_ops ver p pg) addr n (ppipe s) (kern s) i") simp_all

text \<open>Which process a step moves, if any.\<close>

lemma pstep_moves:
  assumes "pstep tot lazy kills ver pg s s'" "lock_ok s"
  shows "(\<exists>p. moves p s s') \<or> pc s' = pc s \<and> holder s' = holder s"
proof -
  have h: "crit (pc s p) \<Longrightarrow> holder s = Some p" for p using assms(2) by (simp add: lock_ok_def)
  from assms(1) show ?thesis
  proof cases
    case (pass_w p addr n i need)
    then show ?thesis using moves_w_pass [of s p addr n i need tot ver pg] h [of p] by auto
  next
    case (test_r p addr n)
    then show ?thesis using moves_r_test [of s p addr n tot lazy ver pg] h [of p] by auto
  next
    case (pass_r p addr n i b)
    then show ?thesis using moves_r_pass [of s p addr n i b tot ver pg] h [of p] by auto
  next
    case (exit_w p i need)
    then have "moves p s s'" using h [of p] by (simp add: moves_def w_exit_def)
    then show ?thesis by blast
  next
    case (exit_r p i b)
    then have "moves p s s'" using h [of p] by (simp add: moves_def r_exit_def)
    then show ?thesis by blast
  qed (auto simp: moves_def w_lock_def w_resume_def r_resume_def close_side_def)
qed

lemma lock_ok_step:
  assumes "pstep tot lazy kills ver pg s s'" "lock_ok s" shows "lock_ok s'"
  using pstep_moves [OF assms]
proof
  assume "\<exists>p. moves p s s'"
  then show ?thesis using lock_ok_moves [OF assms(2)] by blast
qed (use assms(2) in \<open>simp add: lock_ok_def\<close>)

lemma kernel_bulk_ring: "ring_size tot \<Longrightarrow> bulk_ring (kernel_ops ver me pg) tot"
  by (intro bulk_ring.intro bulk_ring_axioms.intro ku.user_copy_axioms)

lemma w_pass_data:
  assumes "ring_size tot" "data_ok tot s" "bounds_ok (WLoop addr n i need)"
  shows "data_ok tot (w_pass tot ver pg p addr n i need s) \<and> bounds_ok (pc (w_pass tot ver pg p addr n i need s) p)"
proof (cases "i < n")
  case False
  then show ?thesis using assms by (simp add: w_pass_def data_ok_def)
next
  case True
  have inv: "pipe_inv tot (ppipe s)" and fifo: "delivered s @ pipe_bytes tot (ppipe s) = accepted s"
    using assms(2) by (simp_all add: data_ok_def)
  have b: "0 \<le> i" "n < 2 ^ 31" using assms(3) by simp_all
  note bulk = bulk_ring.bulk_write_cont [OF kernel_bulk_ring [OF assms(1)] inv b(2,1) True]
    bulk_ring.bulk_write_brk [OF kernel_bulk_ring [OF assms(1)] inv b(2,1) True]
  show ?thesis
  proof (cases "bulk_write_iter tot (kernel_ops ver p pg) addr n (ppipe s) (kern s) i")
    case (WBreak pi m)
    then show ?thesis using True bulk(2) [OF WBreak] fifo by (simp add: w_pass_def data_ok_def)
  next
    case (WCont pi m i')
    from bulk(1) [OF WCont] obtain bs where bs: "pipe_inv tot pi" "pipe_bytes tot pi = pipe_bytes tot (ppipe s) @ bs"
      "i' = i + int (length bs)" "i' \<le> n" by blast
    have "data_ok tot (w_pass tot ver pg p addr n i need s)"
      using True WCont bs(1,2) fifo by (simp add: w_pass_def data_ok_def flip: append_assoc)
    then show ?thesis using True WCont bs(3,4) b by (simp add: w_pass_def)
  qed (use True assms in \<open>simp_all add: w_pass_def data_ok_def\<close>)
qed

lemma r_pass_data:
  assumes "ring_size tot" "data_ok tot s" "bounds_ok (RLoop addr n i b)"
  shows "data_ok tot (r_pass tot ver pg p addr n i b s) \<and> bounds_ok (pc (r_pass tot ver pg p addr n i b s) p)"
proof (cases "i < n")
  case False
  then show ?thesis using assms by (simp add: r_pass_def data_ok_def)
next
  case True
  have inv: "pipe_inv tot (ppipe s)" and fifo: "delivered s @ pipe_bytes tot (ppipe s) = accepted s"
    using assms(2) by (simp_all add: data_ok_def)
  have bd: "0 \<le> i" "n < 2 ^ 31" using assms(3) by simp_all
  note bulk = bulk_ring.bulk_read_cont [OF kernel_bulk_ring [OF assms(1)] inv bd(2,1) True]
    bulk_ring.bulk_read_brk [OF kernel_bulk_ring [OF assms(1)] inv bd(2,1) True]
  show ?thesis
  proof (cases "bulk_read_iter tot (kernel_ops ver p pg) addr n (ppipe s) (kern s) i")
    case (RBreak pi m i')
    then show ?thesis using True bulk(2) [OF RBreak] fifo by (auto simp: r_pass_def data_ok_def)
  next
    case (RCont pi m i')
    from bulk(1) [OF RCont] obtain c where c: "pipe_inv tot pi" "pipe_bytes tot pi = drop c (pipe_bytes tot (ppipe s))"
      "i' = i + int c" "i' \<le> n" by blast
    have "data_ok tot (r_pass tot ver pg p addr n i b s)"
      using True RCont c fifo by (simp add: r_pass_def data_ok_def)
    then show ?thesis using True RCont c bd by (simp add: r_pass_def)
  qed
qed

lemma psafe_step:
  assumes "pstep tot lazy kills ver pg s s'" "psafe tot s" "ring_size tot" shows "psafe tot s'"
proof -
  have lk: "lock_ok s" and d: "data_ok tot s" and b: "\<And>p. bounds_ok (pc s p)"
    using assms(2) by (simp_all add: psafe_def)
  have h: "crit (pc s p) \<Longrightarrow> holder s = Some p" for p using lk by (simp add: lock_ok_def)
  have "data_ok tot s' \<and> (\<forall>q. bounds_ok (pc s' q))"
    using assms(1)
  proof cases
    case (pass_w p addr n i need)
    then have "moves p s s'" using moves_w_pass h [of p] by simp
    then have "bounds_ok (pc s' q)" if "q \<noteq> p" for q using b [of q] moves_other that by simp
    moreover have "bounds_ok (WLoop addr n i need)" using b [of p] pass_w(2) by simp
    ultimately show ?thesis using w_pass_data [OF assms(3) d, of addr n i need ver pg p] pass_w(1) by metis
  next
    case (pass_r p addr n i c)
    then have "moves p s s'" using moves_r_pass h [of p] by simp
    then have "bounds_ok (pc s' q)" if "q \<noteq> p" for q using b [of q] moves_other that by simp
    moreover have "bounds_ok (RLoop addr n i c)" using b [of p] pass_r(2) by simp
    ultimately show ?thesis using r_pass_data [OF assms(3) d, of addr n i c ver pg p] pass_r(1) by metis
  next
    case (test_r p addr n)
    have "bounds_ok (RTest addr n)" using b [of p] test_r(2) by simp
    then show ?thesis using d b test_r
      by (cases "piperead_wait (kernel_ops ver p pg) (ppipe s) (kern s)") (simp_all add: r_test_def data_ok_def)
  next
    case (lock_w p addr n)
    then show ?thesis using d b b [of p] by (simp add: w_lock_def data_ok_def)
  next
    case (resume_w p addr n i)
    then show ?thesis using d b b [of p] by (simp add: w_resume_def data_ok_def)
  next
    case (resume_r p addr n)
    then show ?thesis using d b b [of p] by (simp add: r_resume_def data_ok_def)
  next
    case (lock_r p addr n)
    then show ?thesis using d b b [of p] by (simp add: data_ok_def)
  qed (use d b in \<open>auto simp: data_ok_def w_exit_def r_exit_def close_side_def pipe_inv_def pipe_bytes_def pipe_used_def\<close>)
  then show ?thesis using lock_ok_step [OF assms(1) lk] by (simp add: psafe_def)
qed

lemma psafe_reach: "preach tot lazy kills ver pg s \<Longrightarrow> ring_size tot \<Longrightarrow> psafe tot s"
proof (induction rule: preach.induct)
  case (init s)
  then show ?case by (simp add: pinit_def psafe_def lock_ok_def data_ok_def)
qed (rule psafe_step)

section \<open>Wakeups: who sleeps where\<close>

definition own_ok :: "u64 \<Rightarrow> psys \<Rightarrow> bool" where
  "own_ok pg s \<longleftrightarrow>
     (\<forall>p. asleep pg NreadChan (kern s) p \<longrightarrow> (\<exists>a n. pc s p = RWait a n)) \<and>
     (\<forall>p. asleep pg NwriteChan (kern s) p \<longrightarrow> (\<exists>a n i. pc s p = WWait a n i)) \<and>
     (\<forall>p. in_read (pc s p) \<longrightarrow> readopen (ppipe s)) \<and> (\<forall>p. in_write (pc s p) \<longrightarrow> writeopen (ppipe s)) \<and>
     (\<forall>p. pc s p \<noteq> Idle \<longrightarrow> p < length (procs (kern s))) \<and>
     (\<forall>p < length (procs (kern s)). \<not> killed (procs (kern s) ! p))"

lemma killed_wakeup: "p < length (procs k) \<Longrightarrow> killed (procs (wakeup ver me c k) ! p) = killed (procs k ! p)"
  by (auto simp: wakeup_def nth_wakeup_procs wake_proc_def Let_def)

lemma length_wakeup [simp]: "length (procs (wakeup ver me c k)) = length (procs k)"
  by (simp add: wakeup_def)

lemma killed_sleep_on [simp]: "killed (ps[i := sleep_on c (ps ! i)] ! q) = killed (ps ! q)"
  by (cases "i < length ps"; cases "q = i") (simp_all add: sleep_on_def list_update_beyond)

lemma killed_sleep_resume [simp]: "killed (ps[i := sleep_resume (ps ! i)] ! q) = killed (ps ! q)"
  by (cases "i < length ps"; cases "q = i") (simp_all add: sleep_resume_def list_update_beyond)

text \<open>How one step of process \<open>p\<close> may change what the other processes see.\<close>

lemma own_ok_move:
  assumes "own_ok pg s" "\<And>q. q \<noteq> p \<Longrightarrow> pc s' q = pc s q"
    "\<And>q c. q \<noteq> p \<Longrightarrow> asleep pg c (kern s') q \<Longrightarrow> asleep pg c (kern s) q"
    "readopen (ppipe s') = readopen (ppipe s)" "writeopen (ppipe s') = writeopen (ppipe s)"
    "length (procs (kern s')) = length (procs (kern s))"
    "\<And>q. q < length (procs (kern s)) \<Longrightarrow> killed (procs (kern s') ! q) \<Longrightarrow> killed (procs (kern s) ! q)"
    "asleep pg NreadChan (kern s') p \<Longrightarrow> \<exists>a n. pc s' p = RWait a n"
    "asleep pg NwriteChan (kern s') p \<Longrightarrow> \<exists>a n i. pc s' p = WWait a n i"
    "in_read (pc s' p) \<Longrightarrow> in_read (pc s p) \<or> readopen (ppipe s)"
    "in_write (pc s' p) \<Longrightarrow> in_write (pc s p) \<or> writeopen (ppipe s)"
    "pc s' p \<noteq> Idle \<Longrightarrow> pc s p \<noteq> Idle \<or> p < length (procs (kern s))"
  shows "own_ok pg s'"
proof -
  have "(\<exists>a n. pc s' q = RWait a n)" if "asleep pg NreadChan (kern s') q" for q
    using that assms(1,2,3,8) unfolding own_ok_def by (cases "q = p") metis+
  moreover have "(\<exists>a n i. pc s' q = WWait a n i)" if "asleep pg NwriteChan (kern s') q" for q
    using that assms(1,2,3,9) unfolding own_ok_def by (cases "q = p") metis+
  moreover have "readopen (ppipe s')" if "in_read (pc s' q)" for q
    using that assms(1,2,4,10) unfolding own_ok_def by (cases "q = p") metis+
  moreover have "writeopen (ppipe s')" if "in_write (pc s' q)" for q
    using that assms(1,2,5,11) unfolding own_ok_def by (cases "q = p") metis+
  moreover have "q < length (procs (kern s'))" if "pc s' q \<noteq> Idle" for q
    using that assms(1,2,6,12) unfolding own_ok_def by (cases "q = p") metis+
  moreover have "\<not> killed (procs (kern s') ! q)" if "q < length (procs (kern s'))" for q
    using that assms(1,6,7) unfolding own_ok_def by metis
  ultimately show ?thesis unfolding own_ok_def by blast
qed

lemma own_awake:
  "own_ok pg s \<Longrightarrow> \<not> (\<exists>a n. pc s p = RWait a n) \<Longrightarrow> \<not> asleep pg NreadChan (kern s) p"
  "own_ok pg s \<Longrightarrow> \<not> (\<exists>a n i. pc s p = WWait a n i) \<Longrightarrow> \<not> asleep pg NwriteChan (kern s) p"
  by (auto simp: own_ok_def)

lemma own_live: "own_ok pg s \<Longrightarrow> pc s p \<noteq> Idle \<Longrightarrow> \<not> killed (procs (kern s) ! p)"
  by (auto simp: own_ok_def)

lemma own_ok_w_pass:
  assumes "own_ok pg s" "pc s p = WLoop addr n i need"
  shows "own_ok pg (w_pass tot ver pg p addr n i need s)"
proof -
  have aw: "\<not> asleep pg c (kern s) p" for c using own_awake [OF assms(1), of p] assms(2) by (cases c) auto
  show ?thesis
  proof (cases "i < n")
    case False
    then show ?thesis
      by (intro own_ok_move [OF assms(1), of p]) (use aw assms(2) in \<open>auto simp: w_pass_def\<close>)
  next
    case True
    show ?thesis
    proof (cases "bulk_write_iter tot (kernel_ops ver p pg) addr n (ppipe s) (kern s) i")
      case WDead
      then show ?thesis
        by (intro own_ok_move [OF assms(1), of p]) (use True aw assms(2) in \<open>auto simp: w_pass_def\<close>)
    next
      case WFull
      then show ?thesis
        by (intro own_ok_move [OF assms(1), of p])
          (use True aw assms(2) in \<open>auto simp: w_pass_def asleep_simps killed_wakeup\<close>)
    next
      case (WBreak pi m)
      with bulk_write_frame [OF disjI2 [OF this]] show ?thesis
        by (intro own_ok_move [OF assms(1), of p])
          (use True aw assms(2) in \<open>auto simp: w_pass_def asleep_procs [of m "kern s"]\<close>)
    next
      case (WCont pi m i')
      with bulk_write_frame [OF disjI1 [OF this]] show ?thesis
        by (intro own_ok_move [OF assms(1), of p])
          (use True aw assms(2) in \<open>auto simp: w_pass_def asleep_procs [of m "kern s"]\<close>)
    qed
  qed
qed

lemma own_ok_r_test:
  assumes "own_ok pg s" "pc s p = RTest addr n"
  shows "own_ok pg (r_test tot lazy ver pg p addr n s)"
proof -
  have aw: "\<not> asleep pg c (kern s) p" for c using own_awake [OF assms(1), of p] assms(2) by (cases c) auto
  show ?thesis
    by (cases "piperead_wait (kernel_ops ver p pg) (ppipe s) (kern s)";
        intro own_ok_move [OF assms(1), of p])
      (use aw assms(2) in \<open>auto simp: r_test_def asleep_simps\<close>)
qed

lemma own_ok_r_pass:
  assumes "own_ok pg s" "pc s p = RLoop addr n i b"
  shows "own_ok pg (r_pass tot ver pg p addr n i b s)"
proof -
  have aw: "\<not> asleep pg c (kern s) p" for c using own_awake [OF assms(1), of p] assms(2) by (cases c) auto
  show ?thesis
  proof (cases "i < n")
    case False
    then show ?thesis
      by (intro own_ok_move [OF assms(1), of p]) (use aw assms(2) in \<open>auto simp: r_pass_def\<close>)
  next
    case True
    show ?thesis
    proof (cases "bulk_read_iter tot (kernel_ops ver p pg) addr n (ppipe s) (kern s) i")
      case (RBreak pi m i')
      with bulk_read_frame [OF disjI2 [OF this]] show ?thesis
        by (intro own_ok_move [OF assms(1), of p])
          (use True aw assms(2) in \<open>auto simp: r_pass_def asleep_procs [of m "kern s"]\<close>)
    next
      case (RCont pi m i')
      with bulk_read_frame [OF disjI1 [OF this]] show ?thesis
        by (intro own_ok_move [OF assms(1), of p])
          (use True aw assms(2) in \<open>auto simp: r_pass_def asleep_procs [of m "kern s"]\<close>)
    qed
  qed
qed

lemma own_ok_step:
  assumes "pstep tot lazy False ver pg s s'" "own_ok pg s" shows "own_ok pg s'"
  using assms(1)
proof cases
  case (pass_w p addr n i need)
  then show ?thesis using own_ok_w_pass [OF assms(2)] by simp
next
  case (test_r p addr n)
  then show ?thesis using own_ok_r_test [OF assms(2)] by simp
next
  case (pass_r p addr n i b)
  then show ?thesis using own_ok_r_pass [OF assms(2)] by simp
next
  case (call_w p n addr)
  then show ?thesis
    by (intro own_ok_move [OF assms(2), of p]) (use own_awake [OF assms(2), of p] in auto)
next
  case (lock_w p addr n)
  then show ?thesis
    by (intro own_ok_move [OF assms(2), of p]) (use own_awake [OF assms(2), of p] in \<open>auto simp: w_lock_def\<close>)
next
  case (exit_w p i need)
  then show ?thesis
    by (intro own_ok_move [OF assms(2), of p])
      (use own_awake [OF assms(2), of p] in \<open>auto simp: w_exit_def asleep_simps killed_wakeup split: if_splits\<close>)
next
  case (resume_w p addr n i)
  then show ?thesis
    by (intro own_ok_move [OF assms(2), of p]) (auto simp: w_resume_def asleep_simps)
next
  case (call_r p n addr)
  then show ?thesis
    by (intro own_ok_move [OF assms(2), of p]) (use own_awake [OF assms(2), of p] in auto)
next
  case (lock_r p addr n)
  then show ?thesis
    by (intro own_ok_move [OF assms(2), of p]) (use own_awake [OF assms(2), of p] in auto)
next
  case (exit_r p i b)
  then show ?thesis
    by (intro own_ok_move [OF assms(2), of p])
      (use own_awake [OF assms(2), of p] in \<open>auto simp: r_exit_def asleep_simps killed_wakeup split: if_splits\<close>)
next
  case (resume_r p addr n)
  then show ?thesis
    by (intro own_ok_move [OF assms(2), of p]) (auto simp: r_resume_def asleep_simps)
next
  case (close_w p)
  then show ?thesis using assms(2) by (auto simp: own_ok_def close_side_def asleep_simps killed_wakeup)
next
  case (close_r p)
  then show ?thesis using assms(2) by (auto simp: own_ok_def close_side_def asleep_simps killed_wakeup)
next
  case (env k)
  then show ?thesis using assms(2) by (fastforce simp: own_ok_def env_ok_def)
qed simp

section \<open>No lost wakeups\<close>

text \<open>
  \<open>pend\<close>: the process will wake the other side before it releases the lock. \<open>quiet\<close>: it will not.
\<close>

fun wpend :: "ppc \<Rightarrow> bool" where
  "wpend (WLoop _ _ i need) \<longleftrightarrow> need \<and> 0 < i"
| "wpend (WExit i need) \<longleftrightarrow> need \<and> 0 < i"
| "wpend _ \<longleftrightarrow> False"

fun rpend :: "ppc \<Rightarrow> bool" where
  "rpend (RLoop _ _ i b) \<longleftrightarrow> b \<and> 0 < i"
| "rpend (RExit i b) \<longleftrightarrow> b \<and> 0 < i"
| "rpend _ \<longleftrightarrow> False"

fun wquiet :: "ppc \<Rightarrow> bool" where
  "wquiet (WLoop _ _ _ need) \<longleftrightarrow> \<not> need"
| "wquiet (WExit _ need) \<longleftrightarrow> \<not> need"
| "wquiet _ \<longleftrightarrow> False"

fun rquiet :: "ppc \<Rightarrow> bool" where
  "rquiet (RLoop _ _ _ b) \<longleftrightarrow> \<not> b"
| "rquiet (RExit _ b) \<longleftrightarrow> \<not> b"
| "rquiet _ \<longleftrightarrow> False"

definition rd_ok :: "u64 \<Rightarrow> psys \<Rightarrow> bool" where
  "rd_ok pg s \<longleftrightarrow>
     (\<forall>p. asleep pg NreadChan (kern s) p \<longrightarrow>
        pipe_used (ppipe s) = 0 \<and> writeopen (ppipe s) \<or> (\<exists>q. wpend (pc s q))) \<and>
     (\<forall>q. wquiet (pc s q) \<longrightarrow> (\<forall>p. \<not> asleep pg NreadChan (kern s) p))"

definition wr_ok :: "nat \<Rightarrow> u64 \<Rightarrow> psys \<Rightarrow> bool" where
  "wr_ok tot pg s \<longleftrightarrow>
     (\<forall>p. asleep pg NwriteChan (kern s) p \<longrightarrow>
        pipe_used (ppipe s) = tot \<and> readopen (ppipe s) \<or> (\<exists>q. rpend (pc s q))) \<and>
     (\<forall>q. rquiet (pc s q) \<longrightarrow> (\<forall>p. \<not> asleep pg NwriteChan (kern s) p))"

lemma pend_crit: "wpend x \<Longrightarrow> crit x" "rpend x \<Longrightarrow> crit x" "wquiet x \<Longrightarrow> crit x" "rquiet x \<Longrightarrow> crit x"
  by (cases x; simp)+

lemma no_readers_asleep: "(\<And>p. \<not> asleep pg NreadChan (kern s) p) \<Longrightarrow> rd_ok pg s"
  by (simp add: rd_ok_def)

lemma no_writers_asleep: "(\<And>p. \<not> asleep pg NwriteChan (kern s) p) \<Longrightarrow> wr_ok tot pg s"
  by (simp add: wr_ok_def)

text \<open>A step that puts no reader to sleep, cancels no pending wakeup and makes no writer quiet.\<close>

lemma rd_ok_mono:
  assumes "rd_ok pg s" "\<And>p. asleep pg NreadChan (kern s') p \<Longrightarrow> asleep pg NreadChan (kern s) p"
    "pipe_used (ppipe s) = 0 \<Longrightarrow> pipe_used (ppipe s') = 0" "writeopen (ppipe s') = writeopen (ppipe s)"
    "\<And>q. wpend (pc s q) \<Longrightarrow> wpend (pc s' q)" "\<And>q. wquiet (pc s' q) \<Longrightarrow> wquiet (pc s q)"
  shows "rd_ok pg s'"
  using assms unfolding rd_ok_def by metis

lemma wr_ok_mono:
  assumes "wr_ok tot pg s" "\<And>p. asleep pg NwriteChan (kern s') p \<Longrightarrow> asleep pg NwriteChan (kern s) p"
    "pipe_used (ppipe s) = tot \<Longrightarrow> pipe_used (ppipe s') = tot" "readopen (ppipe s') = readopen (ppipe s)"
    "\<And>q. rpend (pc s q) \<Longrightarrow> rpend (pc s' q)" "\<And>q. rquiet (pc s' q) \<Longrightarrow> rquiet (pc s q)"
  shows "wr_ok tot pg s'"
  using assms unfolding wr_ok_def by metis

lemma same_bytes_used: "pipe_bytes tot a = pipe_bytes tot b \<Longrightarrow> pipe_used a = pipe_used b"
  by (metis length_pipe_bytes)

lemma write_cont_grows:
  assumes "ring_size tot" "pipe_inv tot pi" "0 \<le> i" "i < n" "n < 2 ^ 31"
    "bulk_write_iter tot (kernel_ops ver p pg) addr n pi m i = WCont pi' m' i'"
  shows "i < i'" "pipe_used pi < tot"
proof -
  obtain bs where bs: "bs \<noteq> []" "i' = i + int (length bs)" "pipe_bytes tot pi' = pipe_bytes tot pi @ bs" "pipe_inv tot pi'"
    using bulk_ring.bulk_write_cont [OF kernel_bulk_ring [OF assms(1)] assms(2,5,3,4,6)] by blast
  then show "i < i'" by simp
  have "pipe_used pi' = pipe_used pi + length bs" using bs(3) by (metis length_append length_pipe_bytes)
  then show "pipe_used pi < tot" using bs(1,4) by (cases bs) (auto simp: pipe_inv_def)
qed

lemma write_brk_same:
  assumes "ring_size tot" "pipe_inv tot pi" "0 \<le> i" "i < n" "n < 2 ^ 31"
    "bulk_write_iter tot (kernel_ops ver p pg) addr n pi m i = WBreak pi' m'"
  shows "pipe_used pi' = pipe_used pi"
  using bulk_ring.bulk_write_brk [OF kernel_bulk_ring [OF assms(1)] assms(2,5,3,4,6)] by (metis length_pipe_bytes)

lemma read_cont_shrinks:
  assumes "ring_size tot" "pipe_inv tot pi" "0 \<le> i" "i < n" "n < 2 ^ 31"
    "bulk_read_iter tot (kernel_ops ver p pg) addr n pi m i = RCont pi' m' i'"
  shows "i < i'" "0 < pipe_used pi"
  using bulk_ring.bulk_read_cont [OF kernel_bulk_ring [OF assms(1)] assms(2,5,3,4,6)] by auto

lemma read_brk_same:
  assumes "ring_size tot" "pipe_inv tot pi" "0 \<le> i" "i < n" "n < 2 ^ 31"
    "bulk_read_iter tot (kernel_ops ver p pg) addr n pi m i = RBreak pi' m' i'"
  shows "pipe_used pi' = pipe_used pi" "i' = i \<or> i = 0 \<and> i' = -1"
proof -
  note b = bulk_ring.bulk_read_brk [OF kernel_bulk_ring [OF assms(1)] assms(2,5,3,4,6)]
  then have "pipe_bytes tot pi' = pipe_bytes tot pi" by auto
  then show "pipe_used pi' = pipe_used pi" by (rule same_bytes_used)
  show "i' = i \<or> i = 0 \<and> i' = -1" using b by blast
qed

lemma write_iter_stops:
  assumes "\<not> killed (procs m ! p)"
  shows "bulk_write_iter tot (kernel_ops ver p pg) addr n pi m i = WDead \<Longrightarrow> \<not> readopen pi"
    "bulk_write_iter tot (kernel_ops ver p pg) addr n pi m i = WFull \<Longrightarrow> pipe_full tot pi \<and> readopen pi"
  using assms by (auto simp: bulk_write_iter_def Let_def split: if_splits prod.splits)

definition pwake :: "nat \<Rightarrow> u64 \<Rightarrow> psys \<Rightarrow> bool" where
  "pwake tot pg s \<longleftrightarrow> psafe tot s \<and> own_ok pg s \<and> rd_ok pg s \<and> wr_ok tot pg s"

lemma pwake_holder:
  assumes "pwake tot pg s" "crit (pc s p)"
  shows "\<And>q. wpend (pc s q) \<Longrightarrow> q = p" "\<And>q. rpend (pc s q) \<Longrightarrow> q = p"
    "\<And>q. wquiet (pc s q) \<Longrightarrow> q = p" "\<And>q. rquiet (pc s q) \<Longrightarrow> q = p"
  using assms lock_ok_other pend_crit unfolding pwake_def psafe_def by blast+

lemma pwake_facts:
  assumes "pwake tot pg s"
  shows "rd_ok pg s" "wr_ok tot pg s" "own_ok pg s" "pipe_inv tot (ppipe s)" "bounds_ok (pc s p)" "lock_ok s"
  using assms by (auto simp: pwake_def psafe_def data_ok_def)

lemma w_pass_rd:
  assumes "ring_size tot" "pwake tot pg s" "pc s p = WLoop addr n i need"
  shows "rd_ok pg (w_pass tot ver pg p addr n i need s)"
proof -
  note ok = pwake_facts [OF assms(2)] and only = pwake_holder [OF assms(2), of p]
  have bd: "0 \<le> i" "n < 2 ^ 31" using ok(5) [of p] assms(3) by simp_all
  have live: "\<not> killed (procs (kern s) ! p)" using own_live [OF ok(3)] assms(3) by simp
  have aw: "\<not> asleep pg ch (kern s) p" for ch using own_awake [OF ok(3), of p] assms(3) by (cases ch) auto
  show ?thesis
  proof (cases "i < n")
    case False
    then show ?thesis using assms(3)
      by (intro rd_ok_mono [OF ok(1)]) (auto simp: w_pass_def split: if_splits)
  next
    case True
    show ?thesis
    proof (cases "bulk_write_iter tot (kernel_ops ver p pg) addr n (ppipe s) (kern s) i")
      case WDead
      then have "\<not> readopen (ppipe s)" using write_iter_stops(1) [OF live] by blast
      then have "\<not> asleep pg NreadChan (kern s) q" for q
        using ok(3) unfolding own_ok_def by (metis in_read.simps(3))
      then show ?thesis using True WDead by (intro no_readers_asleep) (simp add: w_pass_def)
    next
      case WFull
      then show ?thesis using True aw by (intro no_readers_asleep) (auto simp: w_pass_def asleep_simps)
    next
      case (WBreak pi m)
      note fr = bulk_write_frame [OF disjI2 [OF WBreak]] write_brk_same [OF assms(1) ok(4) bd(1) True bd(2) WBreak]
      show ?thesis using True WBreak fr assms(3)
        by (intro rd_ok_mono [OF ok(1)]) (auto simp: w_pass_def asleep_procs [of m "kern s"] split: if_splits)
    next
      case (WCont pi m i')
      note fr = bulk_write_frame [OF disjI1 [OF WCont]] write_cont_grows(1) [OF assms(1) ok(4) bd(1) True bd(2) WCont]
      have as: "asleep pg ch m q = asleep pg ch (kern s) q" for ch q using fr asleep_procs by blast
      show ?thesis
      proof (cases need)
        case True
        then have "wpend (pc (w_pass tot ver pg p addr n i need s) p)" using WCont \<open>i < n\<close> fr(2) bd by (simp add: w_pass_def)
        moreover have "\<not> wquiet (pc (w_pass tot ver pg p addr n i need s) q)" for q
          using WCont \<open>i < n\<close> True only(3) assms(3) by (auto simp: w_pass_def)
        ultimately show ?thesis unfolding rd_ok_def by blast
      next
        case False
        then have "\<not> asleep pg NreadChan (kern s) q" for q
          using ok(1) assms(3) unfolding rd_ok_def by (metis wquiet.simps(1))
        then show ?thesis using WCont \<open>i < n\<close> as by (intro no_readers_asleep) (simp add: w_pass_def)
      qed
    qed
  qed
qed

lemma w_pass_wr:
  assumes "ring_size tot" "pwake tot pg s" "pc s p = WLoop addr n i need"
  shows "wr_ok tot pg (w_pass tot ver pg p addr n i need s)"
proof -
  note ok = pwake_facts [OF assms(2)] and only = pwake_holder [OF assms(2), of p]
  have bd: "0 \<le> i" "n < 2 ^ 31" using ok(5) [of p] assms(3) by simp_all
  have live: "\<not> killed (procs (kern s) ! p)" using own_live [OF ok(3)] assms(3) by simp
  have nopend: "\<not> rpend (pc s q)" "\<not> rquiet (pc s q)" for q using only(2,4) [of q] assms(3) by auto
  have full: "asleep pg NwriteChan (kern s) q \<Longrightarrow> pipe_used (ppipe s) = tot \<and> readopen (ppipe s)" for q
    using ok(2) nopend unfolding wr_ok_def by blast
  show ?thesis
  proof (cases "i < n")
    case False
    then show ?thesis using assms(3)
      by (intro wr_ok_mono [OF ok(2)]) (auto simp: w_pass_def split: if_splits)
  next
    case True
    show ?thesis
    proof (cases "bulk_write_iter tot (kernel_ops ver p pg) addr n (ppipe s) (kern s) i")
      case WDead
      then show ?thesis using True nopend
        by (intro wr_ok_mono [OF ok(2)]) (auto simp: w_pass_def split: if_splits)
    next
      case WFull
      then have f: "pipe_used (ppipe s) = tot" "readopen (ppipe s)"
        using write_iter_stops(2) [OF live] pipe_full_iff [OF assms(1)] by blast+
      have "\<not> rquiet (pc (w_pass tot ver pg p addr n i need s) q)" for q
        using True WFull nopend by (simp add: w_pass_def)
      then show ?thesis using f True WFull unfolding wr_ok_def by (simp add: w_pass_def)
    next
      case (WBreak pi m)
      note fr = bulk_write_frame [OF disjI2 [OF WBreak]] write_brk_same [OF assms(1) ok(4) bd(1) True bd(2) WBreak]
      show ?thesis using True WBreak fr nopend
        by (intro wr_ok_mono [OF ok(2)]) (auto simp: w_pass_def asleep_procs [of m "kern s"] split: if_splits)
    next
      case (WCont pi m i')
      note fr = bulk_write_frame [OF disjI1 [OF WCont]] write_cont_grows(2) [OF assms(1) ok(4) bd(1) True bd(2) WCont]
      then have "\<not> asleep pg NwriteChan (kern s) q" for q using full [of q] by auto
      moreover have "asleep pg ch m q = asleep pg ch (kern s) q" for ch q using fr asleep_procs by blast
      ultimately show ?thesis using WCont True by (intro no_writers_asleep) (simp add: w_pass_def)
    qed
  qed
qed

lemma r_pass_rd:
  assumes "ring_size tot" "pwake tot pg s" "pc s p = RLoop addr n i b"
  shows "rd_ok pg (r_pass tot ver pg p addr n i b s)"
proof -
  note ok = pwake_facts [OF assms(2)] and only = pwake_holder [OF assms(2), of p]
  have bd: "0 \<le> i" "n < 2 ^ 31" using ok(5) [of p] assms(3) by simp_all
  have nopend: "\<not> wpend (pc s q)" "\<not> wquiet (pc s q)" for q using only(1,3) [of q] assms(3) by auto
  have emp: "asleep pg NreadChan (kern s) q \<Longrightarrow> pipe_used (ppipe s) = 0" for q
    using ok(1) nopend unfolding rd_ok_def by blast
  show ?thesis
  proof (cases "i < n")
    case False
    then show ?thesis using assms(3)
      by (intro rd_ok_mono [OF ok(1)]) (auto simp: r_pass_def split: if_splits)
  next
    case True
    show ?thesis
    proof (cases "bulk_read_iter tot (kernel_ops ver p pg) addr n (ppipe s) (kern s) i")
      case (RBreak pi m i')
      note fr = bulk_read_frame [OF disjI2 [OF RBreak]] read_brk_same [OF assms(1) ok(4) bd(1) True bd(2) RBreak]
      show ?thesis using True RBreak fr nopend
        by (intro rd_ok_mono [OF ok(1)]) (auto simp: r_pass_def asleep_procs [of m "kern s"] split: if_splits)
    next
      case (RCont pi m i')
      note fr = bulk_read_frame [OF disjI1 [OF RCont]] read_cont_shrinks(2) [OF assms(1) ok(4) bd(1) True bd(2) RCont]
      then have "\<not> asleep pg NreadChan (kern s) q" for q using emp [of q] by auto
      moreover have "asleep pg ch m q = asleep pg ch (kern s) q" for ch q using fr asleep_procs by blast
      ultimately show ?thesis using RCont True by (intro no_readers_asleep) (simp add: r_pass_def)
    qed
  qed
qed

lemma r_pass_wr:
  assumes "ring_size tot" "pwake tot pg s" "pc s p = RLoop addr n i b"
  shows "wr_ok tot pg (r_pass tot ver pg p addr n i b s)"
proof -
  note ok = pwake_facts [OF assms(2)] and only = pwake_holder [OF assms(2), of p]
  have bd: "0 \<le> i" "n < 2 ^ 31" using ok(5) [of p] assms(3) by simp_all
  show ?thesis
  proof (cases "i < n")
    case False
    then show ?thesis using assms(3)
      by (intro wr_ok_mono [OF ok(2)]) (auto simp: r_pass_def split: if_splits)
  next
    case True
    show ?thesis
    proof (cases "bulk_read_iter tot (kernel_ops ver p pg) addr n (ppipe s) (kern s) i")
      case (RBreak pi m i')
      note fr = bulk_read_frame [OF disjI2 [OF RBreak]] read_brk_same [OF assms(1) ok(4) bd(1) True bd(2) RBreak]
      show ?thesis using True RBreak fr assms(3)
        by (intro wr_ok_mono [OF ok(2)]) (auto simp: r_pass_def asleep_procs [of m "kern s"] split: if_splits)
    next
      case (RCont pi m i')
      note fr = bulk_read_frame [OF disjI1 [OF RCont]] read_cont_shrinks(1) [OF assms(1) ok(4) bd(1) True bd(2) RCont]
      have as: "asleep pg ch m q = asleep pg ch (kern s) q" for ch q using fr asleep_procs by blast
      show ?thesis
      proof (cases b)
        case True
        then have "rpend (pc (r_pass tot ver pg p addr n i b s) p)" using RCont \<open>i < n\<close> fr(2) bd by (simp add: r_pass_def)
        moreover have "\<not> rquiet (pc (r_pass tot ver pg p addr n i b s) q)" for q
          using RCont \<open>i < n\<close> True only(4) assms(3) by (auto simp: r_pass_def)
        ultimately show ?thesis unfolding wr_ok_def by blast
      next
        case False
        then have "\<not> asleep pg NwriteChan (kern s) q" for q
          using ok(2) assms(3) unfolding wr_ok_def by (metis rquiet.simps(1))
        then show ?thesis using RCont \<open>i < n\<close> as by (intro no_writers_asleep) (simp add: r_pass_def)
      qed
    qed
  qed
qed

lemma r_test_wakes:
  assumes "ring_size tot" "pwake tot pg s" "pc s p = RTest addr n"
  shows "rd_ok pg (r_test tot lazy ver pg p addr n s)" "wr_ok tot pg (r_test tot lazy ver pg p addr n s)"
proof -
  let ?s = "r_test tot lazy ver pg p addr n s"
  note ok = pwake_facts [OF assms(2)]
  have "crit (pc s p)" using assms(3) by simp
  note only = pwake_holder [OF assms(2) this]
  have live: "\<not> killed (procs (kern s) ! p)" using own_live [OF ok(3)] assms(3) by simp
  have nop: "\<not> wpend (pc s q)" "\<not> rpend (pc s q)" "\<not> wquiet (pc s q)" "\<not> rquiet (pc s q)" for q
    using only(1,3) [of q] only(2,4) [of q] assms(3) by (cases "q = p"; force)+
  have full: "asleep pg NwriteChan (kern s) q \<Longrightarrow> pipe_used (ppipe s) = tot \<and> readopen (ppipe s)" for q
    using ok(2) nop unfolding wr_ok_def by blast
  have emp: "asleep pg NreadChan (kern s) q \<Longrightarrow> pipe_used (ppipe s) = 0 \<and> writeopen (ppipe s)" for q
    using ok(1) nop unfolding rd_ok_def by blast
  have "rd_ok pg ?s \<and> wr_ok tot pg ?s"
  proof (cases "piperead_wait (kernel_ops ver p pg) (ppipe s) (kern s)")
    case RGo
    have "wr_ok tot pg ?s"
    proof (cases "\<exists>q. asleep pg NwriteChan (kern s) q")
      case True
      then have "pipe_full tot (ppipe s)" using full pipe_full_iff [OF assms(1)] by blast
      then show ?thesis using RGo full nop unfolding wr_ok_def by (auto simp: r_test_def split: if_splits)
    qed (use RGo in \<open>auto intro!: no_writers_asleep simp: r_test_def\<close>)
    moreover have "rd_ok pg ?s" using RGo emp nop unfolding rd_ok_def by (auto simp: r_test_def split: if_splits)
    ultimately show ?thesis by blast
  next
    case RDead
    then show ?thesis using live by (simp add: piperead_wait_def split: if_splits)
  next
    case RSleep
    then have "pipe_used (ppipe s) = 0" "writeopen (ppipe s)"
      by (auto simp: piperead_wait_def pipe_empty_iff split: if_splits)
    then show ?thesis using RSleep full nop unfolding rd_ok_def wr_ok_def
      by (auto simp: r_test_def asleep_simps split: if_splits)
  qed
  then show "rd_ok pg ?s" "wr_ok tot pg ?s" by auto
qed

text \<open>The other steps: none of them writes to the ring.\<close>

lemma exit_w_wakes:
  assumes "pwake tot pg s" "pc s p = WExit i need"
  shows "rd_ok pg (w_exit lazy ver pg p i need s)" "wr_ok tot pg (w_exit lazy ver pg p i need s)"
proof -
  note ok = pwake_facts [OF assms(1)]
  have "crit (pc s p)" using assms(2) by simp
  note only = pwake_holder [OF assms(1) this]
  have aw: "\<not> asleep pg ch (kern s) p" for ch using own_awake [OF ok(3), of p] assms(2) by (cases ch) auto
  have qt: "\<not> wquiet (pc (w_exit lazy ver pg p i need s) q)" for q
    using only(3) [of q] by (cases "q = p") (auto simp: w_exit_def)
  show "rd_ok pg (w_exit lazy ver pg p i need s)"
  proof (cases "\<not> lazy \<or> need \<and> i > 0")
    case True
    then show ?thesis using aw by (intro no_readers_asleep) (auto simp: w_exit_def asleep_simps)
  next
    case False
    then have "\<not> wpend (pc s q)" for q using only(1) [of q] assms(2) by (cases "q = p") auto
    then show ?thesis using False qt ok(1) unfolding rd_ok_def by (auto simp: w_exit_def)
  qed
  have "rpend (pc s q) \<Longrightarrow> False" "rquiet (pc s q) \<Longrightarrow> False" for q
    using only(2,4) [of q] assms(2) by auto
  then show "wr_ok tot pg (w_exit lazy ver pg p i need s)"
    by (intro wr_ok_mono [OF ok(2)]) (auto simp: w_exit_def asleep_simps split: if_splits)
qed

lemma exit_r_wakes:
  assumes "pwake tot pg s" "pc s p = RExit i b"
  shows "rd_ok pg (r_exit lazy ver pg p i b s)" "wr_ok tot pg (r_exit lazy ver pg p i b s)"
proof -
  note ok = pwake_facts [OF assms(1)]
  have "crit (pc s p)" using assms(2) by simp
  note only = pwake_holder [OF assms(1) this]
  have aw: "\<not> asleep pg ch (kern s) p" for ch using own_awake [OF ok(3), of p] assms(2) by (cases ch) auto
  have qt: "\<not> rquiet (pc (r_exit lazy ver pg p i b s) q)" for q
    using only(4) [of q] by (cases "q = p") (auto simp: r_exit_def)
  show "wr_ok tot pg (r_exit lazy ver pg p i b s)"
  proof (cases "\<not> lazy \<or> b \<and> i > 0")
    case True
    then show ?thesis using aw by (intro no_writers_asleep) (auto simp: r_exit_def asleep_simps)
  next
    case False
    then have "\<not> rpend (pc s q)" for q using only(2) [of q] assms(2) by (cases "q = p") auto
    then show ?thesis using False qt ok(2) unfolding wr_ok_def by (auto simp: r_exit_def)
  qed
  have "wpend (pc s q) \<Longrightarrow> False" "wquiet (pc s q) \<Longrightarrow> False" for q
    using only(1,3) [of q] assms(2) by auto
  then show "rd_ok pg (r_exit lazy ver pg p i b s)"
    by (intro rd_ok_mono [OF ok(1)]) (auto simp: r_exit_def asleep_simps split: if_splits)
qed

text \<open>With the lock free, nothing is pending: a sleeper has a reason to sleep.\<close>

lemma pwake_free:
  assumes "pwake tot pg s" "holder s = None"
  shows "asleep pg NreadChan (kern s) p \<Longrightarrow> pipe_used (ppipe s) = 0 \<and> writeopen (ppipe s)"
    "asleep pg NwriteChan (kern s) p \<Longrightarrow> pipe_used (ppipe s) = tot \<and> readopen (ppipe s)"
    "\<not> wpend (pc s q)" "\<not> rpend (pc s q)" "\<not> wquiet (pc s q)" "\<not> rquiet (pc s q)"
proof -
  note ok = pwake_facts [OF assms(1)]
  have "\<not> crit (pc s q)" for q using ok(6) assms(2) by (simp add: lock_ok_def)
  then have np: "\<not> wpend (pc s q)" "\<not> rpend (pc s q)" "\<not> wquiet (pc s q)" "\<not> rquiet (pc s q)" for q
    using pend_crit by blast+
  then show "\<not> wpend (pc s q)" "\<not> rpend (pc s q)" "\<not> wquiet (pc s q)" "\<not> rquiet (pc s q)" by auto
  show "asleep pg NreadChan (kern s) p \<Longrightarrow> pipe_used (ppipe s) = 0 \<and> writeopen (ppipe s)"
    using ok(1) np unfolding rd_ok_def by blast
  show "asleep pg NwriteChan (kern s) p \<Longrightarrow> pipe_used (ppipe s) = tot \<and> readopen (ppipe s)"
    using ok(2) np unfolding wr_ok_def by blast
qed

lemma lock_w_wakes:
  assumes "pwake tot pg s" "pc s p = WEnter addr n" "holder s = None"
  shows "rd_ok pg (w_lock lazy p addr n s)" "wr_ok tot pg (w_lock lazy p addr n s)"
proof -
  note ok = pwake_facts [OF assms(1)] and fr = pwake_free [OF assms(1,3)]
  show "rd_ok pg (w_lock lazy p addr n s)"
  proof (cases "\<exists>q. asleep pg NreadChan (kern s) q")
    case True
    then have "pipe_used (ppipe s) = 0" using fr(1) by blast
    then have "nwrite (ppipe s) = nread (ppipe s)" using pipe_empty_iff [of "ppipe s"] by (simp add: pipe_empty_def)
    then show ?thesis using fr unfolding rd_ok_def by (auto simp: w_lock_def)
  qed (auto intro!: no_readers_asleep simp: w_lock_def)
  show "wr_ok tot pg (w_lock lazy p addr n s)"
    using fr by (intro wr_ok_mono [OF ok(2)]) (auto simp: w_lock_def split: if_splits)
qed

lemma plain_wakes:
  assumes "pwake tot pg s" "holder s = None" "\<And>q c. asleep pg c (kern s') q \<Longrightarrow> asleep pg c (kern s) q"
    "pipe_used (ppipe s') = pipe_used (ppipe s)"
    "writeopen (ppipe s') = writeopen (ppipe s) \<or> (\<forall>q. \<not> asleep pg NreadChan (kern s') q)"
    "readopen (ppipe s') = readopen (ppipe s) \<or> (\<forall>q. \<not> asleep pg NwriteChan (kern s') q)"
    "\<And>q. \<not> wquiet (pc s' q)" "\<And>q. \<not> rquiet (pc s' q)"
  shows "rd_ok pg s'" "wr_ok tot pg s'"
  using pwake_free [OF assms(1,2)] assms(3-8) unfolding rd_ok_def wr_ok_def by metis+

lemma pwake_step:
  assumes "pstep tot lazy False ver pg s s'" "pwake tot pg s" "ring_size tot" shows "pwake tot pg s'"
proof -
  note ok = pwake_facts [OF assms(2)]
  have "rd_ok pg s' \<and> wr_ok tot pg s'"
    using assms(1)
  proof cases
    case (pass_w p addr n i need)
    then show ?thesis using w_pass_rd [OF assms(3,2)] w_pass_wr [OF assms(3,2)] by simp
  next
    case (pass_r p addr n i b)
    then show ?thesis using r_pass_rd [OF assms(3,2)] r_pass_wr [OF assms(3,2)] by simp
  next
    case (test_r p addr n)
    then show ?thesis using r_test_wakes [OF assms(3,2)] by simp
  next
    case (exit_w p i need)
    then show ?thesis using exit_w_wakes [OF assms(2)] by simp
  next
    case (exit_r p i b)
    then show ?thesis using exit_r_wakes [OF assms(2)] by simp
  next
    case (lock_w p addr n)
    then show ?thesis using lock_w_wakes [OF assms(2)] by simp
  next
    case (call_w p n addr)
    then show ?thesis using ok(1,2) by (auto intro!: rd_ok_mono [OF ok(1)] wr_ok_mono [OF ok(2)] split: if_splits)
  next
    case (call_r p n addr)
    then show ?thesis using ok(1,2) by (auto intro!: rd_ok_mono [OF ok(1)] wr_ok_mono [OF ok(2)] split: if_splits)
  next
    case (env k)
    then show ?thesis using ok(1,2) unfolding env_ok_def rd_ok_def wr_ok_def by fastforce
  next
    case (resume_w p addr n i)
    with plain_wakes [OF assms(2), of s'] pwake_free(5,6) [OF assms(2)] show ?thesis
      by (simp add: w_resume_def asleep_simps)
  next
    case (resume_r p addr n)
    with plain_wakes [OF assms(2), of s'] pwake_free(5,6) [OF assms(2)] show ?thesis
      by (simp add: r_resume_def asleep_simps)
  next
    case (lock_r p addr n)
    with plain_wakes [OF assms(2), of s'] pwake_free(5,6) [OF assms(2)] show ?thesis by simp
  next
    case (close_w p)
    then have "\<not> asleep pg NreadChan (kern s) p" using own_awake [OF ok(3), of p] by simp
    with close_w plain_wakes [OF assms(2), of s'] pwake_free(5,6) [OF assms(2)] show ?thesis
      by (auto simp: close_side_def asleep_simps pipe_used_def)
  next
    case (close_r p)
    then have "\<not> asleep pg NwriteChan (kern s) p" using own_awake [OF ok(3), of p] by simp
    with close_r plain_wakes [OF assms(2), of s'] pwake_free(5,6) [OF assms(2)] show ?thesis
      by (auto simp: close_side_def asleep_simps pipe_used_def)
  qed simp
  moreover have "psafe tot s" using assms(2) by (simp add: pwake_def)
  ultimately show ?thesis
    using psafe_step [OF assms(1) _ assms(3)] own_ok_step [OF assms(1) ok(3)] by (simp add: pwake_def)
qed

lemma pwake_reach: "preach tot lazy False ver pg s \<Longrightarrow> ring_size tot \<Longrightarrow> pwake tot pg s"
proof (induction rule: preach.induct)
  case (init s)
  then have "psafe tot s" using psafe_reach preach.init by blast
  with init show ?case by (auto simp: pinit_def pwake_def own_ok_def rd_ok_def wr_ok_def)
qed (rule pwake_step)

end
