(* ===== verification/Pipe_Props.thy ===== *)
theory Pipe_Props
  imports Pipe_Kernel
begin

text \<open>
  The properties of \<^verbatim>\<open>pipewrite\<close> and \<^verbatim>\<open>piperead\<close>, all versions, on the kernel's own copies. The
  example kernel at the beginning, with a real three-level page table in memory, is the
  concrete input at which the properties with hypotheses are applied.
\<close>

section \<open>An example kernel\<close>

text \<open>A page table at \<^verbatim>\<open>0x80001000\<close> that maps user page 0, readable and writable, to the frame at
  \<^verbatim>\<open>0x80004000\<close>, which holds the bytes 7, 8, 9.\<close>

definition ex_mem :: memory where
  "ex_mem = (store64 (store64 (store64 (\<lambda>_. 0)
      0x80001000 (PA2PTE 0x80002000 OR PTE_V))
      0x80002000 (PA2PTE 0x80003000 OR PTE_V))
      0x80003000 (PA2PTE 0x80004000 OR PTE_R OR PTE_W OR PTE_U OR PTE_V))
      (0x80004000 := 7, 0x80004001 := 8, 0x80004002 := 9)"

definition ex_proc :: proc where
  "ex_proc = \<lparr>pstate = RUNNING, chan = NoChan, killed = False, xstate = 0, pid = 1, parent = None,
     kstack = 0, sz = 4096, pagetable = 0x80001000, trapframe = 0, pcontext = [], ofile = [],
     cwd = None, pname = [], priority = 0\<rparr>"

definition ex_kernel :: kernel where
  "ex_kernel = \<lparr>mem = ex_mem, freelist = 0, kend = 0x80000000, etext = 0, trampoline = 0,
     procs = [ex_proc, ex_proc\<lparr>pid := 2\<rparr>], nextpid = 3, initproc = Some 0, forkret_addr = 0, halted = None\<rparr>"

definition ex_pipe :: "nat \<Rightarrow> pipe" where
  "ex_pipe tot = \<lparr>nread = 0xFFFFFFFF, nwrite = 0xFFFFFFFF, readopen = True, writeopen = True,
     data = replicate tot 0, data_pg = 0x80005000\<rparr>"

definition ex_pipe3 :: pipe3 where
  "ex_pipe3 = \<lparr>nread = 0xFFFFFFFF, nwrite = 0xFFFFFFFF, readopen = True, writeopen = True,
     bufs = replicate 4 (replicate 512 0)\<rparr>"

lemma ex_path: "walk_path ex_mem 2 0x80001000 0 = [0x80001000, 0x80002000, 0x80003000]"
  by code_simp

lemma ex_entry:
  "fst (walk_levels 2 0x80001000 0 False ex_kernel) = 0x80003000 \<and>
   pte_has (load64 ex_mem 0x80003000) PTE_W \<and> walkaddr 0x80001000 0 ex_kernel = 0x80004000"
  by code_simp

lemma ex_pages: "k < 3 \<Longrightarrow> PGROUNDDOWN (of_nat k) = 0"
  using unat_PGROUNDDOWN [of "of_nat k"] by (simp add: unat_of_nat unat_eq_zero)

lemma ex_kernel_proc [simp]: "pagetable (procs ex_kernel ! 0) = 0x80001000" "killed (procs ex_kernel ! 0) = False"
  "mem ex_kernel = ex_mem"
  by (simp_all add: ex_kernel_def ex_proc_def)

lemma ex_resident: "kresident 0 ex_kernel 0 3"
  using ex_entry by (simp add: kresident_def upresent_def ex_pages)

lemma ex_writable: "kwritable 0 ex_kernel 0 3"
proof -
  have "\<not> in_range (0x80004000 + of_nat k) q 8"
    if "k < 3" "q \<in> {0x80001000, 0x80002000, 0x80003000 :: u64}" for k :: nat and q
  proof -
    have "k = 0 \<or> k = 1 \<or> k = 2" using that(1) by auto
    then show ?thesis using that(2) by (auto simp: in_range_def)
  qed
  then show ?thesis
    using ex_resident ex_entry
    by (simp add: kwritable_def uwritable_def kresident_def ex_pages ex_path upa_def)
qed

lemma ex_pipe_inv [simp]: "pipe_inv tot (ex_pipe tot)" "pipe_bytes tot (ex_pipe tot) = []"
  by (simp_all add: pipe_inv_def ex_pipe_def pipe_used_def)

lemma ex_pipe3_inv [simp]: "pipe3_inv ex_pipe3" "pipe3_bytes ex_pipe3 = []"
  by (simp_all add: pipe3_inv_def ex_pipe3_def pipe_used_def)

lemma ex_pipe_open [simp]: "readopen (ex_pipe tot)" "writeopen (ex_pipe tot)" "readopen ex_pipe3" "writeopen ex_pipe3"
  by (simp_all add: ex_pipe_def ex_pipe3_def)

section \<open>Effects, whatever the state of user memory\<close>



text \<open>C4. Versions 5 to 8 of \<^verbatim>\<open>piperead\<close>, for every page table and every state of the copies: the
  call returns or goes to sleep; it takes from the front of the content exactly the bytes it
  reports, loses none when a copy fails, and sleeps only on an empty pipe.\<close>

theorem piperead_v5_effect:
  assumes "pipe_inv PIPE_TOTAL pi" "0 \<le> n" "n < 2 ^ 31"
  shows "\<exists>r. piperead_v5 (kernel_ops ver me pg) addr n pi s = Some r \<and>
    read_effect (pipe_inv PIPE_TOTAL) (pipe_bytes PIPE_TOTAL) 0 n pi r"
  using assms unfolding piperead_v5_def pipe_sizes
  by (intro k4096.br.read_result_effect lazy_read_Ret pipe_bytes_empty wait_empty)

theorem piperead_v5_effect_witness:
  "\<exists>r. piperead_v5 (kernel_ops 7 0 0x80006000) 0 3 (ex_pipe PIPE_TOTAL) ex_kernel = Some r \<and>
    read_effect (pipe_inv PIPE_TOTAL) (pipe_bytes PIPE_TOTAL) 0 3 (ex_pipe PIPE_TOTAL) r"
  by (rule piperead_v5_effect) simp_all

text \<open>Versions 1 to 4 of \<^verbatim>\<open>pipewrite\<close> have the same effect on their buffers of 512, 2048 and 4096
  bytes.\<close>

lemma pipewrite_eager_effect:
  assumes "pipe_inv PIPESIZE pi" "pipe3_inv pib" "pipe_inv PIPE_TOTAL pic" "0 \<le> i" "i \<le> n" "n < 2 ^ 31"
  shows "(\<exists>r. pipewrite_v1 (kernel_ops ver me pg) addr n i pi s = Some r \<and>
      write_effect (pipe_inv PIPESIZE) (pipe_bytes PIPESIZE) PIPESIZE n i pi r) \<and>
    (\<exists>r. pipewrite_v2 (kernel_ops ver me pg) addr n i pi s = Some r \<and>
      write_effect (pipe_inv PIPESIZE) (pipe_bytes PIPESIZE) PIPESIZE n i pi r) \<and>
    (\<exists>r. pipewrite_v3 (kernel_ops ver me pg) addr n i pib s = Some r \<and>
      write_effect pipe3_inv pipe3_bytes PIPE_TOTAL_v3 n i pib r) \<and>
    (\<exists>r. pipewrite_v4 (kernel_ops ver me pg) addr n i pic s = Some r \<and>
      write_effect (pipe_inv PIPE_TOTAL) (pipe_bytes PIPE_TOTAL) PIPE_TOTAL n i pic r)"
  using assms unfolding pipewrite_v1_def pipewrite_v2_def pipewrite_v3_def pipewrite_v4_def pipe_sizes
  by (intro conjI ku.v1w.eager_effect [unfolded pipe_sizes] k512.bw.eager_effect ku.v3w.eager_effect
      k4096.bw.eager_effect)

text \<open>Versions 1 to 4 of \<^verbatim>\<open>piperead\<close>: versions 2 to 4 lose no byte; version 1, which advances
  \<^verbatim>\<open>nread\<close> before it copies, may lose one byte when a copy fails.\<close>

lemma piperead_eager_effect:
  assumes "pipe_inv PIPESIZE pi" "pipe3_inv pib" "pipe_inv PIPE_TOTAL pic" "0 \<le> n" "n < 2 ^ 31"
  shows "(\<exists>r. piperead_v1 (kernel_ops ver me pg) addr n pi s = Some r \<and>
      read_effect (pipe_inv PIPESIZE) (pipe_bytes PIPESIZE) 1 n pi r) \<and>
    (\<exists>r. piperead_v2 (kernel_ops ver me pg) addr n pi s = Some r \<and>
      read_effect (pipe_inv PIPESIZE) (pipe_bytes PIPESIZE) 0 n pi r) \<and>
    (\<exists>r. piperead_v3 (kernel_ops ver me pg) addr n pib s = Some r \<and>
      read_effect pipe3_inv pipe3_bytes 0 n pib r) \<and>
    (\<exists>r. piperead_v4 (kernel_ops ver me pg) addr n pic s = Some r \<and>
      read_effect (pipe_inv PIPE_TOTAL) (pipe_bytes PIPE_TOTAL) 0 n pic r)"
proof (intro conjI)
  note e = pipe_bytes_empty wait_empty
  have e3: "pipe3_bytes p = []" if "pipe_used p = 0" for p using that by simp
  show "\<exists>r. piperead_v1 (kernel_ops ver me pg) addr n pi s = Some r \<and>
      read_effect (pipe_inv PIPESIZE) (pipe_bytes PIPESIZE) 1 n pi r"
    unfolding piperead_v1_def using assms by (intro ku.v1r.read_result_effect eager_read_Ret e)
  show "\<exists>r. piperead_v2 (kernel_ops ver me pg) addr n pi s = Some r \<and>
      read_effect (pipe_inv PIPESIZE) (pipe_bytes PIPESIZE) 0 n pi r"
    unfolding piperead_v2_def pipe_sizes using assms unfolding pipe_sizes
    by (intro k512.br.read_result_effect eager_read_Ret e)
  show "\<exists>r. piperead_v3 (kernel_ops ver me pg) addr n pib s = Some r \<and>
      read_effect pipe3_inv pipe3_bytes 0 n pib r"
    unfolding piperead_v3_def using assms by (intro ku.v3r.read_result_effect eager_read_Ret e3 wait_empty)
  show "\<exists>r. piperead_v4 (kernel_ops ver me pg) addr n pic s = Some r \<and>
      read_effect (pipe_inv PIPE_TOTAL) (pipe_bytes PIPE_TOTAL) 0 n pic r"
    unfolding piperead_v4_def pipe_sizes using assms unfolding pipe_sizes
    by (intro k4096.br.read_result_effect eager_read_Ret e)
qed

section \<open>Refinement of the abstract queue\<close>

text \<open>C7. A write from resident memory to a pipe with a reader, in versions 1 to 4, is the write of
  the abstract queue: it transfers as many bytes as fit, returns \<open>n\<close> when all fit and sleeps
  otherwise; in both cases it has woken the readers. The page copies of versions 2 to 4 and the
  byte loop of version 1 are equivalent, up to the size of the buffer.\<close>

theorem pipewrite_eager_refines:
  fixes ver me :: nat and pg addr :: u64 and s :: "'a kernel_scheme"
  assumes "pipe_inv PIPESIZE pi" "pipe3_inv pib" "pipe_inv PIPE_TOTAL pic" "0 \<le> i" "i \<le> n" "n < 2 ^ 31"
    "readopen pi" "readopen pib" "readopen pic" "\<not> killed (procs s ! me)" "kresident me s addr (nat n)"
  defines "K \<equiv> kernel_ops ver me pg" and "src \<equiv> \<lambda>k. kbyte me s (addr + of_nat k)"
    and "w \<equiv> wakeup ver (Some me) (PipeChan pg NreadChan) s"
  shows "map_option (map_pcall (pipe_bytes PIPESIZE) id) (pipewrite_v1 K addr n i pi s) =
      Some (fifo_write PIPESIZE src n i w (pipe_bytes PIPESIZE pi)) \<and>
    map_option (map_pcall (pipe_bytes PIPESIZE) id) (pipewrite_v2 K addr n i pi s) =
      Some (fifo_write PIPESIZE src n i w (pipe_bytes PIPESIZE pi)) \<and>
    map_option (map_pcall pipe3_bytes id) (pipewrite_v3 K addr n i pib s) =
      Some (fifo_write PIPE_TOTAL_v3 src n i w (pipe3_bytes pib)) \<and>
    map_option (map_pcall (pipe_bytes PIPE_TOTAL) id) (pipewrite_v4 K addr n i pic s) =
      Some (fifo_write PIPE_TOTAL src n i w (pipe_bytes PIPE_TOTAL pic))"
proof -
  have w: "w = op_wakeup (kernel_ops ver me pg) NreadChan s" by (simp add: w_def)
  have src: "src = (\<lambda>k. kbyte me s (addr + of_nat k))" by (simp add: src_def)
  show ?thesis
    using assms(1-11)
    unfolding K_def w src pipewrite_v1_def pipewrite_v2_def pipewrite_v3_def pipewrite_v4_def pipe_sizes
    by (intro conjI ku.v1f.eager_refines [unfolded pipe_sizes] k512.bf.eager_refines ku.v3f.eager_refines
        k4096.bf.eager_refines) simp_all
qed

theorem pipewrite_eager_refines_witness:
  "map_option (map_pcall (pipe_bytes PIPESIZE) id) (pipewrite_v1 (kernel_ops 1 0 0x80006000) 0 3 0 (ex_pipe PIPESIZE) ex_kernel) =
     Some (fifo_write PIPESIZE (\<lambda>k. kbyte 0 ex_kernel (of_nat k)) 3 0
       (wakeup 1 (Some 0) (PipeChan 0x80006000 NreadChan) ex_kernel) [])"
  using pipewrite_eager_refines [where pi = "ex_pipe PIPESIZE" and pib = ex_pipe3 and pic = "ex_pipe PIPE_TOTAL" and i = 0 and n = 3
      and s = ex_kernel and me = 0 and addr = 0 and ver = 1 and pg = "0x80006000"] ex_resident by simp

text \<open>C5. A write from resident memory in versions 5 to 8 is the write of the same queue; the readers
  are woken only when the pipe was empty at the start of the call (\<open>nw\<close>) and something was
  written, or when the call goes to sleep.\<close>

theorem pipewrite_v5_refines:
  assumes "pipe_inv PIPE_TOTAL pi" "0 \<le> n" "n < 2 ^ 31" "readopen pi" "\<not> killed (procs s ! me)"
    "kresident me s addr (nat n)"
  defines "q \<equiv> pipe_bytes PIPE_TOTAL pi"
  shows "map_option (map_pcall (pipe_bytes PIPE_TOTAL) id) (pipewrite_v5 (kernel_ops ver me pg) addr n pi s) =
    Some (fifo_write PIPE_TOTAL (\<lambda>k. kbyte me s (addr + of_nat k)) n 0
      (if length q + nat n \<le> PIPE_TOTAL \<and> (q \<noteq> [] \<or> n = 0) then s
       else wakeup ver (Some me) (PipeChan pg NreadChan) s) q)"
proof -
  have emp: "nwrite pi = nread pi \<longleftrightarrow> q = []"
    using pipe_empty_iff [of pi] length_pipe_bytes [of PIPE_TOTAL pi] unfolding q_def pipe_empty_def by (metis length_0_conv)
  have used: "length q \<le> 4096" using assms(1) by (simp add: q_def pipe_inv_def)
  have "map_option (map_pcall (pipe_bytes 4096) id) (pipewrite_v5 (kernel_ops ver me pg) addr n pi s) =
    Some (fifo_write 4096 (\<lambda>k. kbyte me s (addr + of_nat k)) n 0
      (if nat (n - 0) \<le> 4096 - length q \<and> \<not> (nwrite pi = nread pi \<and> 0 < n) then s
       else op_wakeup (kernel_ops ver me pg) NreadChan s) q)"
    unfolding pipewrite_v5_def pipewrite_v5_from_def q_def pipe_sizes
    using assms(1-6) unfolding pipe_sizes by (intro k4096.bf.lazy_refines) simp_all
  moreover have "(nat (n - 0) \<le> 4096 - length q \<and> \<not> (nwrite pi = nread pi \<and> 0 < n)) \<longleftrightarrow>
      (length q + nat n \<le> 4096 \<and> (q \<noteq> [] \<or> n = 0))"
    unfolding emp using assms(2) used by auto
  ultimately show ?thesis by (simp only: pipe_sizes kernel_ops_simps)
qed

theorem pipewrite_v5_refines_witness:
  "map_option (map_pcall (pipe_bytes PIPE_TOTAL) id)
     (pipewrite_v5 (kernel_ops 7 0 0x80006000) 0 3 (ex_pipe PIPE_TOTAL) ex_kernel) =
   Some (fifo_write PIPE_TOTAL (\<lambda>k. kbyte 0 ex_kernel (of_nat k)) 3 0
     (wakeup 7 (Some 0) (PipeChan 0x80006000 NreadChan) ex_kernel) [])"
  using pipewrite_v5_refines [where pi = "ex_pipe PIPE_TOTAL" and n = 3 and s = ex_kernel and me = 0 and addr = 0
      and ver = 7 and pg = "0x80006000"] ex_resident by simp

text \<open>C8. A read into writable memory, in versions 1 to 4, when the pipe has data or no writer: the
  call delivers the first \<open>n\<close> bytes of the queue, or all of them, to the reader's memory, removes
  them, returns their number and wakes the writers.\<close>

theorem piperead_eager_refines:
  fixes ver me :: nat and pg addr :: u64 and s :: "'a kernel_scheme"
  assumes "pipe_inv PIPESIZE pi" "pipe3_inv pib" "pipe_inv PIPE_TOTAL pic" "0 \<le> n" "n < 2 ^ 31"
    "\<not> (pipe_empty pi \<and> writeopen pi)" "\<not> (pipe_empty pib \<and> writeopen pib)" "\<not> (pipe_empty pic \<and> writeopen pic)"
    "kwritable me s addr (nat n)"
  defines "K \<equiv> kernel_ops ver me pg"
    and "w \<equiv> \<lambda>bs. wakeup ver (Some me) (PipeChan pg NwriteChan) (kstore me s addr bs)"
  shows "map_option (map_pcall (pipe_bytes PIPESIZE) id) (piperead_v1 K addr n pi s) =
      Some (fifo_read n w (pipe_bytes PIPESIZE pi)) \<and>
    map_option (map_pcall (pipe_bytes PIPESIZE) id) (piperead_v2 K addr n pi s) =
      Some (fifo_read n w (pipe_bytes PIPESIZE pi)) \<and>
    map_option (map_pcall pipe3_bytes id) (piperead_v3 K addr n pib s) =
      Some (fifo_read n w (pipe3_bytes pib)) \<and>
    map_option (map_pcall (pipe_bytes PIPE_TOTAL) id) (piperead_v4 K addr n pic s) =
      Some (fifo_read n w (pipe_bytes PIPE_TOTAL pic))"
proof -
  have go: "piperead_wait K pi s = RGo" "piperead_wait K pib s = RGo" "piperead_wait K pic s = RGo"
    using assms(6-8) by (auto simp: piperead_wait_def)
  let ?g = "\<lambda>m (i :: int). op_wakeup (kernel_ops ver me pg) NwriteChan m"
  have w: "w = (\<lambda>bs. ?g (kstore me s (addr + of_nat 0) bs) (int (length bs)))"
    by (simp add: w_def)
  have fin: "eager_read_finish (kernel_ops ver me pg) (q, m, i) = Ret i q (?g m i)" for q m i
    by (simp add: eager_read_finish_def)
  show ?thesis
    using assms(1-5,9) unfolding piperead_v1_def piperead_v2_def piperead_v3_def piperead_v4_def go
    unfolding K_def w pipe_sizes
    by (intro conjI ku.v1d.read_refines [unfolded pipe_sizes] k512.bd.read_refines ku.v3d.read_refines
        k4096.bd.read_refines) (simp_all add: eager_read_finish_def)
qed

lemma ex_nonempty:
  "pipe_inv PIPESIZE ((ex_pipe PIPESIZE)\<lparr>nwrite := 1\<rparr>)" "pipe3_inv (ex_pipe3\<lparr>nwrite := 1\<rparr>)"
  "pipe_inv PIPE_TOTAL ((ex_pipe PIPE_TOTAL)\<lparr>nwrite := 1\<rparr>)"
  "\<not> pipe_empty ((ex_pipe tot)\<lparr>nwrite := 1\<rparr>)" "\<not> pipe_empty (ex_pipe3\<lparr>nwrite := 1\<rparr>)"
  by (simp_all add: pipe_inv_def pipe3_inv_def ex_pipe_def ex_pipe3_def pipe_used_def pipe_empty_def)

theorem piperead_eager_refines_witness:
  "map_option (map_pcall (pipe_bytes PIPESIZE) id)
     (piperead_v1 (kernel_ops 1 0 0x80006000) 0 3 ((ex_pipe PIPESIZE)\<lparr>nwrite := 1\<rparr>) ex_kernel) =
   Some (fifo_read 3 (\<lambda>bs. wakeup 1 (Some 0) (PipeChan 0x80006000 NwriteChan) (kstore 0 ex_kernel 0 bs))
     (pipe_bytes PIPESIZE ((ex_pipe PIPESIZE)\<lparr>nwrite := 1\<rparr>)))"
  using piperead_eager_refines [where pi = "(ex_pipe PIPESIZE)\<lparr>nwrite := 1\<rparr>" and pib = "ex_pipe3\<lparr>nwrite := 1\<rparr>"
      and pic = "(ex_pipe PIPE_TOTAL)\<lparr>nwrite := 1\<rparr>" and n = 3 and s = ex_kernel and me = 0 and addr = 0
      and ver = 1 and pg = "0x80006000"] ex_writable ex_nonempty by simp

text \<open>C6. A read into writable memory in versions 5 to 8 is the read of the same queue; the writers
  are woken only when the buffer was full and something was read. A reader that finds the pipe
  empty with a writer left returns -1 if it has been killed and sleeps otherwise.\<close>

theorem piperead_v5_refines:
  fixes ver me :: nat and pg addr :: u64 and s :: "'a kernel_scheme"
  assumes "pipe_inv PIPE_TOTAL pi" "0 \<le> n" "n < 2 ^ 31" "kwritable me s addr (nat n)"
  defines "q \<equiv> pipe_bytes PIPE_TOTAL pi"
  shows "map_option (map_pcall (pipe_bytes PIPE_TOTAL) id) (piperead_v5 (kernel_ops ver me pg) addr n pi s) =
    Some (if q = [] \<and> writeopen pi
      then if killed (procs s ! me) then Ret (-1) q s else Blocked NreadChan q s 0
      else fifo_read n (\<lambda>bs. if length q = PIPE_TOTAL \<and> bs \<noteq> []
        then wakeup ver (Some me) (PipeChan pg NwriteChan) (kstore me s addr bs) else kstore me s addr bs) q)"
proof -
  let ?K = "kernel_ops ver me pg" and ?full = "pipe_full PIPE_TOTAL pi"
  have emp: "pipe_empty pi \<longleftrightarrow> q = []"
    using pipe_empty_iff [of pi] length_pipe_bytes [of PIPE_TOTAL pi] unfolding q_def by (metis length_0_conv)
  have full: "?full \<longleftrightarrow> length q = PIPE_TOTAL" using pipe_full_iff [of PIPE_TOTAL pi] by (simp add: q_def)
  show ?thesis
  proof (cases "q = [] \<and> writeopen pi")
    case True
    then show ?thesis using emp
      by (simp add: piperead_v5_def read_with_wait_def piperead_wait_def q_def)
  next
    case False
    then have go: "piperead_wait ?K pi s = RGo" using emp by (auto simp: piperead_wait_def)
    let ?g = "\<lambda>m i. if ?full \<and> i > 0 then op_wakeup ?K NwriteChan m else m"
    have "map_option (map_pcall (pipe_bytes 4096) id) (piperead_v5 ?K addr n pi s) =
      Some (fifo_read n (\<lambda>bs. ?g (kstore me s (addr + of_nat 0) bs) (int (length bs))) q)"
      using assms(1-4) unfolding piperead_v5_def go q_def pipe_sizes
      by (intro k4096.bd.read_refines) (simp_all add: lazy_read_finish_def)
    moreover have "(\<lambda>bs. ?g (kstore me s (addr + of_nat 0) bs) (int (length bs))) =
      (\<lambda>bs. if length q = PIPE_TOTAL \<and> bs \<noteq> [] then wakeup ver (Some me) (PipeChan pg NwriteChan) (kstore me s addr bs)
        else kstore me s addr bs)"
      unfolding full by (rule ext) simp
    ultimately show ?thesis unfolding if_not_P [OF False] pipe_sizes by simp
  qed
qed

theorem piperead_v5_refines_witness:
  "map_option (map_pcall (pipe_bytes PIPE_TOTAL) id)
     (piperead_v5 (kernel_ops 7 0 0x80006000) 0 3 (ex_pipe PIPE_TOTAL) ex_kernel) =
   Some (Blocked NreadChan [] ex_kernel 0)"
  using piperead_v5_refines [where pi = "ex_pipe PIPE_TOTAL" and n = 3 and s = ex_kernel and me = 0 and addr = 0
      and ver = 7 and pg = "0x80006000"] ex_writable by simp

section \<open>A failing copy\<close>


lemma ex_unmapped: "bs \<noteq> [] \<Longrightarrow> op_copyout (kernel_ops ver 0 pg) ex_kernel 0x4000000000 bs = (False, ex_kernel)"
proof -
  assume "bs \<noteq> []"
  moreover have "MAXVA \<le> PGROUNDDOWN 0x4000000000" by code_simp
  ultimately show ?thesis by (simp add: kernel_ops_def copyout.simps Let_def)
qed


end
