(* ===== verification/Pipe_Sync_Props.thy ===== *)
theory Pipe_Sync_Props
  imports Pipe_Sync Pipe_Props
begin

text \<open>
  The properties of concurrent readers and writers: first-in first-out delivery in every
  interleaving, no lost wakeup when no process is killed, and the wakeup that the lazy versions
  lose when a writer is killed half way. The runs at the beginning are concrete ones, of three
  processes on the example page table.
\<close>

section \<open>Example runs\<close>

definition ex_kernel3 :: kernel where
  "ex_kernel3 = ex_kernel\<lparr>procs := [ex_proc, ex_proc\<lparr>pid := 2\<rparr>, ex_proc\<lparr>pid := 3\<rparr>], nextpid := 4\<rparr>"

definition ex_sys :: psys where
  "ex_sys = \<lparr>kern = ex_kernel3, ppipe = ex_pipe 4096, holder = None, pc = \<lambda>_. Idle, accepted = [], delivered = []\<rparr>"

lemma ex_proc3:
  "length (procs ex_kernel3) = 3" "mem ex_kernel3 = ex_mem"
  "p < 3 \<Longrightarrow> pstate (procs ex_kernel3 ! p) = RUNNING \<and> \<not> killed (procs ex_kernel3 ! p) \<and>
    pagetable (procs ex_kernel3 ! p) = 0x80001000"
proof -
  have "p = 0 \<or> p = 1 \<or> p = 2" if "p < 3" using that by auto
  then show "p < 3 \<Longrightarrow> pstate (procs ex_kernel3 ! p) = RUNNING \<and> \<not> killed (procs ex_kernel3 ! p) \<and>
    pagetable (procs ex_kernel3 ! p) = 0x80001000"
    by (auto simp: ex_kernel3_def ex_proc_def)
qed (simp_all add: ex_kernel3_def)

lemma ex_sys_init: "pinit 4096 pg ex_sys"
proof -
  have "\<not> asleep pg c ex_kernel3 p" for c p
    using ex_proc3(3) [of p] by (auto simp: asleep_def ex_proc3(1))
  moreover have "\<forall>p < length (procs ex_kernel3). \<not> killed (procs ex_kernel3 ! p)"
    using ex_proc3(3) by (simp add: ex_proc3(1))
  ultimately show ?thesis by (simp add: pinit_def ex_sys_def) (simp add: ex_pipe_def pipe_used_def)
qed

lemma mem_upd_proc [simp]: "mem (upd_proc p f k) = mem k"
  by (simp add: upd_proc_def)

lemma ex_present:
  assumes "mem k = ex_mem" "pagetable (procs k ! p) = 0x80001000" "j + c \<le> 3"
  shows "kresident p k (0 + of_nat j) c"
proof -
  have "walkaddr 0x80001000 0 k = walkaddr 0x80001000 0 ex_kernel"
    by (rule walkaddr_frame) (simp add: assms(1))
  then have "upresent 0x80001000 k 0 3" using ex_entry by (simp add: upresent_def ex_pages)
  then have "upresent 0x80001000 k (0 + of_nat j) c" using assms(3) by (rule upresent_sub)
  then show ?thesis by (simp add: kresident_def assms(2))
qed

text \<open>A pass of the writing loop over resident memory, with its chunk.\<close>

lemma w_pass_chunk:
  assumes "ring_size tot" "pipe_inv tot (ppipe s)" "i < n" "0 \<le> i" "n < 2 ^ 31" "readopen (ppipe s)"
    "\<not> killed (procs (kern s) ! p)" "pipe_used (ppipe s) < tot" "wchunk tot (ppipe s) (n - i) = c"
    "kresident p (kern s) (addr + word_of_int i) c"
  shows "\<exists>d. w_pass tot ver pg p addr n i need s = set_ppc p (WLoop addr n (i + int c) need)
    (s\<lparr>ppipe := (ppipe s)\<lparr>data := d, nwrite := nwrite (ppipe s) + of_nat c\<rparr>,
       accepted := accepted (w_pass tot ver pg p addr n i need s)\<rparr>)"
proof -
  have "pipe_used (ppipe s) \<le> tot" using assms(8) by simp
  note eq = bulk_write_iter_eq [OF assms(1) this assms(3,4,5)]
  show ?thesis
    using assms(3,6-8) ku.copyin_resident [OF assms(10)]
    by (auto simp: w_pass_def eq assms(9) set_ppc_def)
qed

text \<open>
  The run that loses a wakeup. Process 0 reads from the empty pipe and sleeps; process 1 writes two
  bytes, which takes two passes because the ring wraps, and is killed between them; process 2 then
  writes a byte. \<open>sleeper\<close> is the state in between: 0 asleep, the others outside, \<open>w\<close> written.
\<close>

definition sleeper :: "u64 \<Rightarrow> u32 \<Rightarrow> psys \<Rightarrow> bool" where
  "sleeper pg w s \<longleftrightarrow> holder s = None \<and> mem (kern s) = ex_mem \<and> length (procs (kern s)) = 3 \<and>
     asleep pg NreadChan (kern s) 0 \<and> pc s = (\<lambda>_. Idle)(0 := RWait 0 1) \<and>
     nread (ppipe s) = 0xFFFFFFFF \<and> nwrite (ppipe s) = w \<and> readopen (ppipe s) \<and> writeopen (ppipe s) \<and>
     pstate (procs (kern s) ! 2) = RUNNING \<and> \<not> killed (procs (kern s) ! 2) \<and> pagetable (procs (kern s) ! 2) = 0x80001000"

lemma enter_write:
  assumes "preach tot lazy kills ver pg s" "pc s p = Idle" "holder s = None" "p < length (procs (kern s))"
    "pstate (procs (kern s) ! p) = RUNNING" "writeopen (ppipe s)" "0 \<le> n" "n < 2 ^ 31"
  shows "preach tot lazy kills ver pg
    (set_ppc p (WLoop addr n 0 (lazy \<longrightarrow> nwrite (ppipe s) = nread (ppipe s))) (s\<lparr>holder := Some p\<rparr>))"
proof -
  note c = preach.step [OF assms(1) pstep.call_w [of s p n tot lazy kills ver pg addr, OF assms(2,4-8)]]
  then have "preach tot lazy kills ver pg (w_lock lazy p addr n (set_ppc p (WEnter addr n) s))"
    by (rule preach.step) (rule pstep.lock_w, simp_all add: assms(3))
  then show ?thesis by (simp add: w_lock_def set_ppc_def)
qed

lemma reader_sleeps:
  "preach 4096 lazy kills 8 pg (set_ppc 0 (RWait 0 1) (pipe_sleep pg 0 NreadChan ex_sys))"
proof -
  let ?R = "preach 4096 lazy kills 8 pg"
  have "?R (set_ppc 0 (REnter 0 1) ex_sys)"
    by (rule preach.step [OF preach.init [OF ex_sys_init]], rule pstep.call_r)
      (use ex_proc3(3) [of 0] in \<open>simp_all add: ex_sys_def ex_proc3(1)\<close>)
  then have "?R (set_ppc 0 (RTest 0 1) ((set_ppc 0 (REnter 0 1) ex_sys)\<lparr>holder := Some 0\<rparr>))"
    by (rule preach.step) (rule pstep.lock_r, simp_all add: ex_sys_def)
  then have "?R (r_test 4096 lazy 8 pg 0 0 1 (set_ppc 0 (RTest 0 1) ((set_ppc 0 (REnter 0 1) ex_sys)\<lparr>holder := Some 0\<rparr>)))"
    by (rule preach.step) (rule pstep.test_r, simp)
  then show ?thesis using ex_proc3(3) [of 0]
    by (simp add: r_test_def piperead_wait_def pipe_empty_def ex_sys_def ex_pipe_def set_ppc_def pipe_sleep_def)
qed

lemma first_pass:
  assumes "ppipe s = ex_pipe 4096" "mem (kern s) = ex_mem" "pagetable (procs (kern s) ! p) = 0x80001000"
    "\<not> killed (procs (kern s) ! p)"
  shows "\<exists>d ac. w_pass 4096 ver pg p 0 2 0 need s =
    set_ppc p (WLoop 0 2 1 need) (s\<lparr>ppipe := (ppipe s)\<lparr>data := d, nwrite := 0\<rparr>, accepted := ac\<rparr>)"
proof -
  have "\<exists>d. w_pass 4096 ver pg p 0 2 0 need s = set_ppc p (WLoop 0 2 (0 + int 1) need)
    (s\<lparr>ppipe := (ppipe s)\<lparr>data := d, nwrite := nwrite (ppipe s) + of_nat 1\<rparr>,
       accepted := accepted (w_pass 4096 ver pg p 0 2 0 need s)\<rparr>)"
    using ex_present [OF assms(2,3), of 0 1] assms
    by (intro w_pass_chunk) (simp_all, simp_all add: ex_pipe_def pipe_used_def wchunk_def)
  moreover have "nwrite (ppipe s) + of_nat 1 = 0" by (simp add: assms(1) ex_pipe_def)
  ultimately show ?thesis by (metis add_0 of_nat_1)
qed

lemma killed_writer_leaves:
  "\<exists>s. preach 4096 True True 8 pg s \<and> sleeper pg 0 s \<and> killed (procs (kern s) ! 1)"
proof -
  let ?R = "preach 4096 True True 8 pg"
  define a where "a = set_ppc 0 (RWait 0 1) (pipe_sleep pg 0 NreadChan ex_sys)"
  have a: "?R a" "pipe_inv 4096 (ppipe a)" "kern a = upd_proc 0 (sleep_on (PipeChan pg NreadChan)) ex_kernel3"
    "pc a = (\<lambda>_. Idle)(0 := RWait 0 1)" "holder a = None" "ppipe a = ex_pipe 4096"
    using reader_sleeps by (simp_all add: a_def ex_sys_def)
  have pr: "procs (kern a) ! p = procs ex_kernel3 ! p" if "p \<noteq> 0" for p using that by (simp add: a(3))
  define b where "b = set_ppc 1 (WLoop 0 2 0 True) (a\<lparr>holder := Some 1\<rparr>)"
  have "?R (set_ppc 1 (WLoop 0 2 0 (True \<longrightarrow> nwrite (ppipe a) = nread (ppipe a))) (a\<lparr>holder := Some 1\<rparr>))"
    by (rule enter_write [OF a(1)]) (use pr ex_proc3 in \<open>simp_all add: a\<close>)
  then have b: "?R b" by (simp add: b_def a ex_pipe_def)
  obtain d ac where "w_pass 4096 8 pg 1 0 2 0 True b =
      set_ppc 1 (WLoop 0 2 1 True) (b\<lparr>ppipe := (ppipe b)\<lparr>data := d, nwrite := 0\<rparr>, accepted := ac\<rparr>)"
    using first_pass [of b 1 8 pg True] pr ex_proc3 by (auto simp: b_def a)
  moreover have "?R (w_pass 4096 8 pg 1 0 2 0 True b)"
    by (rule preach.step [OF b], rule pstep.pass_w) (simp add: b_def)
  moreover define c where "c = set_ppc 1 (WLoop 0 2 1 True) (b\<lparr>ppipe := (ppipe b)\<lparr>data := d, nwrite := 0\<rparr>, accepted := ac\<rparr>)"
  ultimately have c: "?R c" by simp
  define e where "e = c\<lparr>kern := upd_proc 1 kill_proc (kern c)\<rparr>"
  have "?R e" unfolding e_def by (rule preach.step [OF c], rule pstep.kill) (use ex_proc3 in \<open>simp_all add: c_def b_def a\<close>)
  then have "?R (w_pass 4096 8 pg 1 0 2 1 True e)"
    by (rule preach.step) (rule pstep.pass_w, simp add: e_def c_def)
  moreover have "procs (kern e) ! 1 = kill_proc (procs ex_kernel3 ! 1)" using ex_proc3 by (simp add: e_def c_def b_def a)
  then have k: "killed (procs (kern e) ! 1)" by (simp add: kill_proc_def Let_def)
  then have "bulk_write_iter 4096 (kernel_ops 8 1 pg) 0 2 (ppipe e) (kern e) 1 = WDead" by (simp add: bulk_write_iter_def)
  then have "w_pass 4096 8 pg 1 0 2 1 True e = set_ppc 1 Idle (e\<lparr>holder := None\<rparr>)" by (simp add: w_pass_def)
  moreover have "sleeper pg 0 (set_ppc 1 Idle (e\<lparr>holder := None\<rparr>))"
    using ex_proc3(1,2) ex_proc3(3) [of 2]
    by (auto simp: sleeper_def e_def c_def b_def a asleep_simps fun_eq_iff ex_pipe_def)
  ultimately show ?thesis using k by (intro exI [of _ "w_pass 4096 8 pg 1 0 2 1 True e"]) simp
qed

lemma later_write_leaves:
  assumes "preach 4096 True True 8 pg s" "sleeper pg 0 s"
  shows "\<exists>s'. preach 4096 True True 8 pg s' \<and> sleeper pg 1 s'"
proof -
  let ?R = "preach 4096 True True 8 pg"
  have inv: "pipe_inv 4096 (ppipe s)" using psafe_reach [OF assms(1)] by (simp add: psafe_def data_ok_def)
  note sl = assms(2) [unfolded sleeper_def]
  define b where "b = set_ppc 2 (WLoop 0 1 0 False) (s\<lparr>holder := Some 2\<rparr>)"
  have "?R (set_ppc 2 (WLoop 0 1 0 (True \<longrightarrow> nwrite (ppipe s) = nread (ppipe s))) (s\<lparr>holder := Some 2\<rparr>))"
    by (rule enter_write [OF assms(1)]) (use sl in simp_all)
  then have b: "?R b" using sl by (simp add: b_def)
  have "\<exists>d. w_pass 4096 8 pg 2 0 1 0 False b = set_ppc 2 (WLoop 0 1 (0 + int 1) False)
    (b\<lparr>ppipe := (ppipe b)\<lparr>data := d, nwrite := nwrite (ppipe b) + of_nat 1\<rparr>, accepted := accepted (w_pass 4096 8 pg 2 0 1 0 False b)\<rparr>)"
    using ex_present [of "kern s" 2 0 1] sl inv
    by (intro w_pass_chunk) (simp_all add: b_def pipe_used_def wchunk_def)
  then obtain d ac where "w_pass 4096 8 pg 2 0 1 0 False b =
      set_ppc 2 (WLoop 0 1 1 False) (b\<lparr>ppipe := (ppipe b)\<lparr>data := d, nwrite := 1\<rparr>, accepted := ac\<rparr>)"
    using sl by (auto simp: b_def)
  moreover have "?R (w_pass 4096 8 pg 2 0 1 0 False b)"
    by (rule preach.step [OF b], rule pstep.pass_w) (simp add: b_def)
  moreover define c where "c = set_ppc 2 (WLoop 0 1 1 False) (b\<lparr>ppipe := (ppipe b)\<lparr>data := d, nwrite := 1\<rparr>, accepted := ac\<rparr>)"
  ultimately have "?R c" by simp
  then have "?R (w_pass 4096 8 pg 2 0 1 1 False c)"
    by (rule preach.step) (rule pstep.pass_w, simp add: c_def)
  then have "?R (w_exit True 8 pg 2 1 False (w_pass 4096 8 pg 2 0 1 1 False c))"
    by (rule preach.step) (rule pstep.exit_w, simp add: w_pass_def)
  moreover have "sleeper pg 1 (w_exit True 8 pg 2 1 False (w_pass 4096 8 pg 2 0 1 1 False c))"
    using sl by (auto simp: sleeper_def w_exit_def w_pass_def c_def b_def fun_eq_iff)
  ultimately show ?thesis by blast
qed

text \<open>A run that stops in the middle: process 1 has written its first byte and holds the lock.\<close>

lemma ex_written:
  "\<exists>s. preach 4096 lazy False 8 pg s \<and> pc s 1 = WLoop 0 2 1 True \<and> nwrite (ppipe s) = 0 \<and>
    nread (ppipe s) = 0xFFFFFFFF"
proof -
  let ?R = "preach 4096 lazy False 8 pg"
  define b where "b = set_ppc 1 (WLoop 0 2 0 True) (ex_sys\<lparr>holder := Some 1\<rparr>)"
  have "?R (set_ppc 1 (WLoop 0 2 0 (lazy \<longrightarrow> nwrite (ppipe ex_sys) = nread (ppipe ex_sys))) (ex_sys\<lparr>holder := Some 1\<rparr>))"
    by (rule enter_write [OF preach.init [OF ex_sys_init]]) (use ex_proc3 in \<open>simp_all add: ex_sys_def\<close>)
  then have b: "?R b" by (simp add: b_def ex_sys_def ex_pipe_def)
  obtain d ac where "w_pass 4096 8 pg 1 0 2 0 True b =
      set_ppc 1 (WLoop 0 2 1 True) (b\<lparr>ppipe := (ppipe b)\<lparr>data := d, nwrite := 0\<rparr>, accepted := ac\<rparr>)"
    using first_pass [of b 1 8 pg True] ex_proc3 by (auto simp: b_def ex_sys_def)
  moreover have "?R (w_pass 4096 8 pg 1 0 2 0 True b)"
    by (rule preach.step [OF b], rule pstep.pass_w) (simp add: b_def)
  ultimately show ?thesis
    by (intro exI [of _ "w_pass 4096 8 pg 1 0 2 0 True b"]) (simp add: b_def ex_sys_def ex_pipe_def)
qed

section \<open>Properties\<close>



text \<open>C2. No lost wakeup when no process is killed, for the eager and the lazy versions: whenever the
  pipe's lock is free, a reader sleeps only on an empty pipe with a writer still open, a writer
  sleeps only on a full pipe with a reader still open, and hence a reader and a writer of the same
  pipe never sleep at the same time.\<close>

theorem pipe_no_lost_wakeup:
  assumes "ring_size tot" "preach tot lazy False ver pg s" "holder s = None"
  shows "(asleep pg NreadChan (kern s) r \<longrightarrow> pipe_used (ppipe s) = 0 \<and> writeopen (ppipe s)) \<and>
    (asleep pg NwriteChan (kern s) w \<longrightarrow> pipe_used (ppipe s) = tot \<and> readopen (ppipe s)) \<and>
    \<not> (asleep pg NreadChan (kern s) r \<and> asleep pg NwriteChan (kern s) w)"
proof -
  have "0 < tot" using assms(1) by (simp add: ring_size_def)
  then show ?thesis using pwake_free(1,2) [OF pwake_reach [OF assms(2,1)] assms(3)] by fastforce
qed

theorem pipe_no_lost_wakeup_witness:
  "\<exists>s :: psys. asleep 0x80006000 NreadChan (kern s) 0 \<and> pipe_used (ppipe s) = 0 \<and> writeopen (ppipe s) \<and>
    \<not> asleep 0x80006000 NwriteChan (kern s) 1"
proof -
  let ?s = "set_ppc 0 (RWait 0 1) (pipe_sleep 0x80006000 0 NreadChan ex_sys)"
  have "asleep 0x80006000 NreadChan (kern ?s) 0" by (simp add: asleep_simps ex_sys_def ex_proc3(1))
  moreover have "holder ?s = None" by simp
  ultimately show ?thesis
    using pipe_no_lost_wakeup [of 4096 True 8 "0x80006000" ?s 0 1, OF _ reader_sleeps] by (intro exI [of _ ?s]) simp
qed

text \<open>C10. The lazy versions lose a wakeup when a writer is killed between two passes of its loop,
  because the early return after \<^verbatim>\<open>killed(pr)\<close> skips the wakeup that \<^verbatim>\<open>need_wakeup\<close> asks for: in a
  reachable state the lock is free, no process is inside a write, and process 0 sleeps in a read
  although two bytes are in the pipe; the second of them was written by a later call, which ran to
  its end and did not wake the reader either.\<close>

theorem killed_writer_loses_wakeup:
  "\<exists>s. preach 4096 True True 8 pg s \<and> holder s = None \<and> asleep pg NreadChan (kern s) 0 \<and>
    pipe_used (ppipe s) = 2 \<and> (\<forall>p. \<not> in_write (pc s p))"
proof -
  obtain s where "preach 4096 True True 8 pg s" "sleeper pg 0 s" using killed_writer_leaves by blast
  then obtain s' where "preach 4096 True True 8 pg s'" "sleeper pg 1 s'" using later_write_leaves by blast
  then show ?thesis by (intro exI [of _ s']) (simp add: sleeper_def pipe_used_def)
qed

end
