(* ===== verification/Spinlock.thy ===== *)
theory Spinlock
  imports Xv6_Prelude
begin

text \<open>
  \<^verbatim>\<open>kernel/spinlock.c\<close>: spin locks and the nesting of interrupt disabling, for any number of
  CPUs. The operations on the CPU's own state (\<open>push_off\<close>, \<open>pop_off\<close>, \<open>holding\<close>) are functions;
  \<open>acquire\<close> and \<open>release\<close> are step sequences, one step for each memory access another CPU can
  see, so that the steps of different CPUs interleave (\<open>lk_step\<close>). The lemmas show mutual
  exclusion, that interrupts are off while a lock is held or waited for, and that \<open>pop_off\<close>
  never panics. Every other theory of the development relies on this one when it treats a
  critical section as one step.
\<close>

section \<open>State\<close>

text \<open>\<^verbatim>\<open>struct spinlock\<close>; \<open>lk_cpu\<close> is the index of the CPU recorded as the holder.\<close>

record spinlock =
  locked :: bool
  lk_name :: string
  lk_cpu :: "nat option"

text \<open>The fields of \<^verbatim>\<open>struct cpu\<close> that locking uses, and the hart's \<^verbatim>\<open>sstatus.SIE\<close> bit.\<close>

record cpu =
  noff :: int
  intena :: bool
  sie :: bool

record smp =
  cpus :: "nat \<Rightarrow> cpu"
  locks :: "nat \<Rightarrow> spinlock"

definition initlock :: "string \<Rightarrow> spinlock" where
  "initlock name = \<lparr>locked = False, lk_name = name, lk_cpu = None\<rparr>"

section \<open>Interrupt nesting\<close>

definition push_off :: "cpu \<Rightarrow> cpu" where
  "push_off c =
     (let old = sie c;
          c = c\<lparr>sie := False\<rparr>;
          c = (if noff c = 0 then c\<lparr>intena := old\<rparr> else c)
      in c\<lparr>noff := noff c + 1\<rparr>)"

definition pop_off :: "cpu \<Rightarrow> cpu kres" where
  "pop_off c =
     (if sie c then Inl (Panic ''pop_off - interruptible'')
      else if noff c < 1 then Inl (Panic ''pop_off'')
      else
        let c = c\<lparr>noff := noff c - 1\<rparr>
        in Inr (if noff c = 0 \<and> intena c then c\<lparr>sie := True\<rparr> else c))"

definition holding :: "nat \<Rightarrow> spinlock \<Rightarrow> bool" where
  "holding me lk \<longleftrightarrow> locked lk \<and> lk_cpu lk = Some me"

section \<open>acquire and release, step by step\<close>

text \<open>
  Where a CPU is: outside both functions; in the \<^verbatim>\<open>while\<close> of \<open>acquire\<close>; after the successful
  swap and before \<^verbatim>\<open>lk->cpu = mycpu()\<close>; in \<open>release\<close>, after \<^verbatim>\<open>lk->cpu = 0\<close> and before the
  releasing swap; before the final \<open>pop_off\<close>; or stopped by a panic.
\<close>

datatype lkpc = Out | Spin nat | Swapped nat | Clearing nat | Popping | Panicked string

record lksys = smp +
  pcs :: "nat \<Rightarrow> lkpc"

definition set_pc :: "nat \<Rightarrow> lkpc \<Rightarrow> lksys \<Rightarrow> lksys" where
  "set_pc c p s = s\<lparr>pcs := (pcs s)(c := p)\<rparr>"

definition set_cpu :: "nat \<Rightarrow> cpu \<Rightarrow> lksys \<Rightarrow> lksys" where
  "set_cpu c v s = s\<lparr>cpus := (cpus s)(c := v)\<rparr>"

definition set_lock :: "nat \<Rightarrow> spinlock \<Rightarrow> lksys \<Rightarrow> lksys" where
  "set_lock l v s = s\<lparr>locks := (locks s)(l := v)\<rparr>"

text \<open>The entry of \<open>acquire\<close>: \<open>push_off\<close> and the check for a lock held already.\<close>

definition acquire_enter :: "nat \<Rightarrow> nat \<Rightarrow> lksys \<Rightarrow> lksys" where
  "acquire_enter c l s =
     (let s = set_cpu c (push_off (cpus s c)) s
      in if holding c (locks s l) then set_pc c (Panicked ''acquire'') s else set_pc c (Spin l) s)"

text \<open>\<^verbatim>\<open>__sync_lock_test_and_set(&lk->locked, 1)\<close>: one turn of the loop.\<close>

definition acquire_swap :: "nat \<Rightarrow> nat \<Rightarrow> lksys \<Rightarrow> lksys" where
  "acquire_swap c l s =
     (let old = locked (locks s l);
          s = set_lock l ((locks s l)\<lparr>locked := True\<rparr>) s
      in if old then s else set_pc c (Swapped l) s)"

definition acquire_record :: "nat \<Rightarrow> nat \<Rightarrow> lksys \<Rightarrow> lksys" where
  "acquire_record c l s = set_pc c Out (set_lock l ((locks s l)\<lparr>lk_cpu := Some c\<rparr>) s)"

definition release_enter :: "nat \<Rightarrow> nat \<Rightarrow> lksys \<Rightarrow> lksys" where
  "release_enter c l s =
     (if \<not> holding c (locks s l) then set_pc c (Panicked ''release'') s
      else set_pc c (Clearing l) (set_lock l ((locks s l)\<lparr>lk_cpu := None\<rparr>) s))"

definition release_swap :: "nat \<Rightarrow> nat \<Rightarrow> lksys \<Rightarrow> lksys" where
  "release_swap c l s = set_pc c Popping (set_lock l ((locks s l)\<lparr>locked := False\<rparr>) s)"

definition release_pop :: "nat \<Rightarrow> lksys \<Rightarrow> lksys" where
  "release_pop c s = (case pop_off (cpus s c) of
       Inl (Panic m) \<Rightarrow> set_pc c (Panicked m) s
     | Inl _ \<Rightarrow> s
     | Inr v \<Rightarrow> set_pc c Out (set_cpu c v s))"

text \<open>A CPU outside both functions may also switch its interrupts on or off (\<^verbatim>\<open>intr_on\<close> and
  \<^verbatim>\<open>intr_off\<close> in the scheduler and in the trap handlers), which it does with no lock held.\<close>

inductive lk_step :: "lksys \<Rightarrow> lksys \<Rightarrow> bool" where
  enter: "pcs s c = Out \<Longrightarrow> lk_step s (acquire_enter c l s)"
| swap: "pcs s c = Spin l \<Longrightarrow> lk_step s (acquire_swap c l s)"
| stamp: "pcs s c = Swapped l \<Longrightarrow> lk_step s (acquire_record c l s)"
| leave: "pcs s c = Out \<Longrightarrow> lk_step s (release_enter c l s)"
| unlock: "pcs s c = Clearing l \<Longrightarrow> lk_step s (release_swap c l s)"
| pop: "pcs s c = Popping \<Longrightarrow> lk_step s (release_pop c s)"
| intr: "pcs s c = Out \<Longrightarrow> noff (cpus s c) = 0 \<Longrightarrow> lk_step s (set_cpu c ((cpus s c)\<lparr>sie := b\<rparr>) s)"

definition lk_init :: "lksys \<Rightarrow> bool" where
  "lk_init s \<longleftrightarrow> (\<forall>c. pcs s c = Out \<and> noff (cpus s c) = 0) \<and>
     (\<forall>l. \<exists>n. locks s l = initlock n)"

inductive lk_reach :: "lksys \<Rightarrow> bool" where
  start: "lk_init s \<Longrightarrow> lk_reach s"
| step: "lk_reach s \<Longrightarrow> lk_step s s' \<Longrightarrow> lk_reach s'"

inductive_cases lk_stepE: "lk_step s s'"

section \<open>Nesting\<close>

definition nest_ok :: "cpu \<Rightarrow> bool" where
  "nest_ok c \<longleftrightarrow> 0 \<le> noff c \<and> (sie c \<longrightarrow> noff c = 0)"

lemma push_off_nest: "nest_ok c \<Longrightarrow> nest_ok (push_off c) \<and> \<not> sie (push_off c) \<and> noff (push_off c) = noff c + 1"
  by (simp add: nest_ok_def push_off_def Let_def)

lemma pop_off_ok: "nest_ok c \<Longrightarrow> 0 < noff c \<Longrightarrow>
    \<exists>c'. pop_off c = Inr c' \<and> nest_ok c' \<and> noff c' = noff c - 1 \<and> intena c' = intena c"
  by (auto simp: nest_ok_def pop_off_def Let_def)

lemma pop_push_off:
  assumes "nest_ok c" shows "\<exists>c'. pop_off (push_off c) = Inr c' \<and> noff c' = noff c \<and> sie c' = sie c"
  using assms by (auto simp: nest_ok_def push_off_def pop_off_def Let_def)

text \<open>\<open>k\<close> further levels of nesting, opened and closed.\<close>

primrec pop_n :: "nat \<Rightarrow> cpu \<Rightarrow> cpu kres" where
  "pop_n 0 c = Inr c"
| "pop_n (Suc k) c = rbind (pop_off c) (pop_n k)"

definition same_nest :: "cpu \<Rightarrow> cpu \<Rightarrow> bool" where
  "same_nest a b \<longleftrightarrow> noff a = noff b \<and> sie a = sie b \<and> (0 < noff a \<longrightarrow> intena a = intena b)"

lemma pop_push_same: "nest_ok c \<Longrightarrow> \<exists>c'. pop_off (push_off c) = Inr c' \<and> same_nest c' c"
  by (auto simp: nest_ok_def same_nest_def push_off_def pop_off_def Let_def)

lemma pop_off_same:
  "same_nest a b \<Longrightarrow> pop_off b = Inr b' \<Longrightarrow> \<exists>a'. pop_off a = Inr a' \<and> same_nest a' b'"
  by (auto simp: same_nest_def pop_off_def Let_def split: if_splits)

lemma pop_n_same:
  "same_nest a b \<Longrightarrow> pop_n k b = Inr b' \<Longrightarrow> \<exists>a'. pop_n k a = Inr a' \<and> same_nest a' b'"
proof (induction k arbitrary: a b)
  case (Suc k)
  then obtain b1 where b1: "pop_off b = Inr b1" "pop_n k b1 = Inr b'" by (auto simp: rbind_eq_Inr)
  from pop_off_same [OF Suc.prems(1) b1(1)] obtain a1 where "pop_off a = Inr a1" "same_nest a1 b1" by blast
  with Suc.IH [OF _ b1(2)] show ?case by simp
qed simp

lemma push_off_nest_iter: "nest_ok c \<Longrightarrow> nest_ok ((push_off ^^ k) c)"
  by (induction k) (simp_all add: push_off_nest)

lemma pop_n_push: "nest_ok c \<Longrightarrow> \<exists>c'. pop_n k ((push_off ^^ k) c) = Inr c' \<and> same_nest c' c"
proof (induction k)
  case 0
  then show ?case by (simp add: same_nest_def)
next
  case (Suc k)
  let ?d = "(push_off ^^ k) c"
  from pop_push_same [OF push_off_nest_iter [OF Suc.prems]] obtain d where
    d: "pop_off (push_off ?d) = Inr d" "same_nest d ?d" by blast
  from Suc obtain c1 where "pop_n k ?d = Inr c1" "same_nest c1 c" by blast
  moreover from pop_n_same [OF d(2) this(1)] obtain c' where "pop_n k d = Inr c'" "same_nest c' c1" by blast
  ultimately show ?case using d(1) by (auto simp: same_nest_def)
qed

section \<open>Mutual exclusion\<close>

text \<open>The locks a CPU owns: those recorded in its name, and the one it is taking or dropping.\<close>

definition recorded :: "lksys \<Rightarrow> nat \<Rightarrow> nat set" where
  "recorded s c = {l. lk_cpu (locks s l) = Some c}"

definition owns :: "lksys \<Rightarrow> nat \<Rightarrow> nat \<Rightarrow> bool" where
  "owns s c l \<longleftrightarrow> l \<in> recorded s c \<or> pcs s c = Swapped l \<or> pcs s c = Clearing l"

definition stopped :: "lkpc \<Rightarrow> bool" where
  "stopped p \<longleftrightarrow> (\<exists>m. p = Panicked m)"

definition pc_extra :: "lkpc \<Rightarrow> int" where
  "pc_extra p = (if p = Out then 0 else 1)"

definition cpu_inv :: "lksys \<Rightarrow> nat \<Rightarrow> bool" where
  "cpu_inv s c \<longleftrightarrow> nest_ok (cpus s c) \<and> finite (recorded s c) \<and> int (card (recorded s c)) \<le> noff (cpus s c) \<and>
     (stopped (pcs s c) \<or> noff (cpus s c) = int (card (recorded s c)) + pc_extra (pcs s c))"

definition lock_inv :: "lksys \<Rightarrow> nat \<Rightarrow> bool" where
  "lock_inv s l \<longleftrightarrow> (\<forall>c. owns s c l \<longrightarrow> locked (locks s l)) \<and>
     (\<forall>c c'. c \<noteq> c' \<longrightarrow> \<not> (owns s c l \<and> owns s c' l)) \<and>
     (\<forall>c. pcs s c = Swapped l \<or> pcs s c = Clearing l \<longrightarrow> lk_cpu (locks s l) = None)"

definition lk_inv :: "lksys \<Rightarrow> bool" where
  "lk_inv s \<longleftrightarrow> (\<forall>c. cpu_inv s c) \<and> (\<forall>l. lock_inv s l)"

lemmas lk_upd = set_pc_def set_cpu_def set_lock_def
lemmas lk_ops = acquire_enter_def acquire_swap_def acquire_record_def release_enter_def release_swap_def
  release_pop_def Let_def holding_def

lemma lk_upd_simps [simp]:
  "cpus (set_lock l v s) = cpus s" "cpus (set_pc c p s) = cpus s" "cpus (set_cpu c u s) = (cpus s)(c := u)"
  "pcs (set_lock l v s) = pcs s" "pcs (set_pc c p s) = (pcs s)(c := p)" "pcs (set_cpu c u s) = pcs s"
  "locks (set_pc c p s) = locks s" "locks (set_cpu c u s) = locks s"
  "locks (set_lock l v s) = (locks s)(l := v)"
  by (simp_all add: lk_upd)

lemma lock_inv_step:
  assumes "lk_step s s'" "\<forall>l. lock_inv s l" shows "lock_inv s' k"
proof -
  have inv: "lock_inv s k" using assms(2) by blast
  from assms(1) show ?thesis
  proof cases
    case (enter c l)
    then show ?thesis using inv by (auto simp: lk_ops lock_inv_def owns_def recorded_def)
  next
    case (swap c l)
    then show ?thesis using inv
      by (cases "k = l"; cases "lk_cpu (locks s k)")
        (auto simp: lk_ops lock_inv_def owns_def recorded_def)
  next
    case (stamp c l)
    show ?thesis
    proof (cases "k = l")
      case True
      have "owns s c l" using stamp by (simp add: owns_def)
      then have only: "x \<noteq> c \<Longrightarrow> \<not> owns s x l" for x using inv True by (auto simp: lock_inv_def)
      have lk: "locked (locks s l)" using \<open>owns s c l\<close> inv True by (auto simp: lock_inv_def)
      have "owns s' x l \<longleftrightarrow> x = c" for x
        using stamp only [of x] by (cases "x = c") (simp_all add: acquire_record_def owns_def recorded_def)
      moreover have "pcs s' x \<noteq> Swapped l \<and> pcs s' x \<noteq> Clearing l" for x
        using stamp only [of x] by (cases "x = c") (simp_all add: acquire_record_def owns_def)
      moreover have "locked (locks s' l)" using stamp lk by (simp add: acquire_record_def lk_upd)
      ultimately show ?thesis using True by (simp add: lock_inv_def)
    next
      case False
      then show ?thesis using stamp inv by (auto simp: acquire_record_def lock_inv_def owns_def recorded_def)
    qed
  next
    case (leave c l)
    then show ?thesis using inv
      by (cases "k = l") (auto simp: lk_ops lock_inv_def owns_def recorded_def)
  next
    case (unlock c l)
    then show ?thesis using inv
      by (cases "k = l") (auto simp: lk_ops lock_inv_def owns_def recorded_def)
  next
    case (pop c)
    then show ?thesis using inv
      by (auto simp: lk_ops lock_inv_def owns_def recorded_def split: sum.splits kerror.splits)
  next
    case (intr c b)
    then show ?thesis using inv by (auto simp: lock_inv_def owns_def recorded_def)
  qed
qed

lemma recorded_upd:
  "recorded (set_lock l (locks s l\<lparr>lk_cpu := Some c\<rparr>) s) d =
     (if d = c then insert l (recorded s c) else recorded s d - {l})"
  "recorded (set_lock l (locks s l\<lparr>lk_cpu := None\<rparr>) s) d = recorded s d - {l}"
  "recorded (set_lock l (locks s l\<lparr>locked := b\<rparr>) s) d = recorded s d"
  "recorded (set_pc c p s) d = recorded s d"
  "recorded (set_cpu c v s) d = recorded s d"
  by (auto simp: recorded_def lk_upd)

lemma cpu_inv_step:
  assumes "lk_step s s'" "lk_inv s" shows "cpu_inv s' d"
proof -
  have inv: "cpu_inv s x" for x using assms(2) by (simp add: lk_inv_def)
  have linv: "lock_inv s x" for x using assms(2) by (simp add: lk_inv_def)
  from assms(1) show ?thesis
  proof cases
    case (enter c l)
    then show ?thesis using inv [of d] inv [of c] push_off_nest [of "cpus s c"]
      by (auto simp: cpu_inv_def acquire_enter_def Let_def recorded_upd pc_extra_def stopped_def)
  next
    case (swap c l)
    then show ?thesis using inv [of d] inv [of c]
      by (auto simp: cpu_inv_def acquire_swap_def Let_def recorded_upd pc_extra_def stopped_def)
  next
    case (stamp c l)
    then have none: "lk_cpu (locks s l) = None" using linv [of l] by (simp add: lock_inv_def)
    then have notin: "l \<notin> recorded s x" for x by (simp add: recorded_def)
    show ?thesis
    proof (cases "d = c")
      case True
      then show ?thesis using stamp inv [of c] notin [of c]
        by (simp add: cpu_inv_def acquire_record_def recorded_upd pc_extra_def stopped_def)
    next
      case False
      then show ?thesis using stamp inv [of d] notin [of d]
        by (simp add: cpu_inv_def acquire_record_def recorded_upd)
    qed
  next
    case (leave c l)
    show ?thesis
    proof (cases "holding c (locks s l)")
      case True
      then have "l \<in> recorded s c" "d \<noteq> c \<Longrightarrow> recorded s d - {l} = recorded s d"
        by (auto simp: recorded_def holding_def)
      moreover from this(1) inv [of c] have "0 < card (recorded s c)"
        by (auto simp: cpu_inv_def card_gt_0_iff)
      ultimately show ?thesis using leave True inv [of d] inv [of c]
        by (cases "d = c") (simp_all add: cpu_inv_def release_enter_def recorded_upd pc_extra_def
            stopped_def card_Diff_singleton)
    next
      case False
      then show ?thesis using leave inv [of d] inv [of c]
        by (auto simp: cpu_inv_def release_enter_def recorded_upd stopped_def)
    qed
  next
    case (unlock c l)
    then show ?thesis using inv [of d] inv [of c]
      by (auto simp: cpu_inv_def release_swap_def recorded_upd pc_extra_def stopped_def)
  next
    case (pop c)
    then have "0 < noff (cpus s c)" using inv [of c]
      by (auto simp: cpu_inv_def stopped_def pc_extra_def)
    with pop_off_ok [of "cpus s c"] inv [of c] obtain v where
      "pop_off (cpus s c) = Inr v" "nest_ok v" "noff v = noff (cpus s c) - 1" by (auto simp: cpu_inv_def)
    then show ?thesis using pop inv [of d] inv [of c]
      by (auto simp: cpu_inv_def release_pop_def recorded_upd pc_extra_def stopped_def)
  next
    case (intr c b)
    then show ?thesis using inv [of d] inv [of c]
      by (auto simp: cpu_inv_def recorded_upd nest_ok_def)
  qed
qed

lemma lk_inv_init: assumes "lk_init s" shows "lk_inv s"
proof -
  have none: "lk_cpu (locks s l) = None" for l
    using assms by (auto simp: lk_init_def initlock_def dest!: spec [of _ l])
  then show ?thesis using assms
    by (simp add: lk_init_def lk_inv_def cpu_inv_def lock_inv_def owns_def recorded_def nest_ok_def pc_extra_def)
qed

lemma lk_inv_reach: "lk_reach s \<Longrightarrow> lk_inv s"
proof (induction rule: lk_reach.induct)
  case (step s s')
  then have "lock_inv s' l" for l by (intro lock_inv_step) (auto simp: lk_inv_def)
  moreover have "cpu_inv s' c" for c using step by (intro cpu_inv_step)
  ultimately show ?case by (simp add: lk_inv_def)
qed (rule lk_inv_init)

lemma owns_intr_off:
  assumes "cpu_inv s c" "owns s c l" shows "\<not> sie (cpus s c)"
proof -
  have "0 < noff (cpus s c)"
  proof (cases "l \<in> recorded s c")
    case True
    then have "0 < card (recorded s c)" using assms(1) by (auto simp: cpu_inv_def card_gt_0_iff)
    then show ?thesis using assms(1) by (simp add: cpu_inv_def)
  next
    case False
    then show ?thesis using assms by (auto simp: owns_def cpu_inv_def stopped_def pc_extra_def)
  qed
  then show ?thesis using assms(1) by (auto simp: cpu_inv_def nest_ok_def)
qed

section \<open>Properties\<close>

text \<open>C37. In every reachable state of any number of CPUs, at most one CPU owns a lock, the lock's
  \<^verbatim>\<open>locked\<close> word is set while it does, and that CPU's interrupts are off.\<close>

theorem spin_mutual_exclusion:
  assumes "lk_reach s" "owns s c l"
  shows "locked (locks s l) \<and> \<not> sie (cpus s c) \<and> (\<forall>c'. owns s c' l \<longrightarrow> c' = c)"
  using lk_inv_reach [OF assms(1)] owns_intr_off [OF _ assms(2)] assms(2)
  by (auto simp: lk_inv_def lock_inv_def)

definition ex_locks :: lksys where
  "ex_locks = \<lparr>cpus = \<lambda>_. \<lparr>noff = 0, intena = False, sie = True\<rparr>, locks = \<lambda>_. initlock ''lk'', pcs = \<lambda>_. Out\<rparr>"

definition ex_taken :: lksys where
  "ex_taken = acquire_swap 0 7 (acquire_enter 0 7 ex_locks)"

lemma ex_taken_reach: "lk_reach ex_taken"
proof -
  have "lk_reach ex_locks" by (rule lk_reach.start) (auto simp: lk_init_def ex_locks_def)
  then have "lk_reach (acquire_enter 0 7 ex_locks)"
    by (rule lk_reach.step) (rule lk_step.enter, simp add: ex_locks_def)
  then show ?thesis unfolding ex_taken_def
    by (rule lk_reach.step) (rule lk_step.swap, simp add: acquire_enter_def ex_locks_def holding_def initlock_def)
qed

lemma ex_taken_owner: "owns ex_taken 0 7"
  by (simp add: ex_taken_def owns_def acquire_swap_def acquire_enter_def ex_locks_def holding_def initlock_def)

theorem spin_mutual_exclusion_witness:
  "locked (locks ex_taken 7) \<and> \<not> sie (cpus ex_taken 0) \<and> \<not> owns ex_taken 1 7"
  using spin_mutual_exclusion [OF ex_taken_reach ex_taken_owner] by auto

text \<open>\<^verbatim>\<open>pop_off\<close> at the end of \<^verbatim>\<open>release\<close> never panics: the nesting depth of a CPU is the number of
  locks it has recorded plus one while it is inside \<^verbatim>\<open>acquire\<close> or \<^verbatim>\<open>release\<close>.\<close>

lemma release_pop_safe:
  assumes "lk_reach s" "pcs s c = Popping"
  shows "noff (cpus s c) = int (card (recorded s c)) + 1 \<and> (\<exists>v. pop_off (cpus s c) = Inr v)"
proof -
  have inv: "cpu_inv s c" using lk_inv_reach [OF assms(1)] by (simp add: lk_inv_def)
  then have n: "noff (cpus s c) = int (card (recorded s c)) + 1"
    using assms(2) by (simp add: cpu_inv_def stopped_def pc_extra_def)
  then show ?thesis using pop_off_ok [of "cpus s c"] inv by (auto simp: cpu_inv_def)
qed

definition ex_popping :: lksys where
  "ex_popping = release_swap 0 7 (release_enter 0 7 (acquire_record 0 7 ex_taken))"

lemma ex_popping_reach: "lk_reach ex_popping" "pcs ex_popping 0 = Popping"
proof -
  have "lk_reach (acquire_record 0 7 ex_taken)"
    by (rule lk_reach.step [OF ex_taken_reach], rule lk_step.stamp)
      (simp add: ex_taken_def acquire_swap_def acquire_enter_def ex_locks_def holding_def initlock_def)
  then have "lk_reach (release_enter 0 7 (acquire_record 0 7 ex_taken))"
    by (rule lk_reach.step) (rule lk_step.leave, simp add: acquire_record_def)
  then show "lk_reach ex_popping" unfolding ex_popping_def
    by (rule lk_reach.step, intro lk_step.unlock)
      (simp add: release_enter_def acquire_record_def holding_def ex_taken_def acquire_swap_def acquire_enter_def
        ex_locks_def initlock_def)
  show "pcs ex_popping 0 = Popping" by (simp add: ex_popping_def release_swap_def)
qed

text \<open>Matched calls of \<^verbatim>\<open>push_off\<close> and \<^verbatim>\<open>pop_off\<close>, nested to any depth, restore the nesting
  depth and the interrupt state the CPU had before.\<close>

lemma push_pop_nesting:
  assumes "0 \<le> noff c" "sie c \<longrightarrow> noff c = 0"
  shows "\<exists>c'. pop_n k ((push_off ^^ k) c) = Inr c' \<and> noff c' = noff c \<and> sie c' = sie c"
  using pop_n_push [of c k] assms by (auto simp: nest_ok_def same_nest_def)

end
