(* ===== verification/Proc_Life.thy ===== *)
theory Proc_Life
  imports Sched
begin

text \<open>
  The life of a process slot: what \<^verbatim>\<open>allocproc\<close> leaves in the slot it hands out, and the slot
  that \<^verbatim>\<open>kill(0)\<close> finds.
\<close>

section \<open>Frames\<close>

lemma mframe_fields:
  fixes s s' :: "'a kernel_scheme"
  shows "mframe s s' \<Longrightarrow> procs s' = procs s \<and> nextpid s' = nextpid s \<and> initproc s' = initproc s"
  by (auto simp: mframe_def)

lemma mframe_uvmcreate: "uvmcreate s = (pt, s') \<Longrightarrow> mframe s s'"
  by (auto simp: uvmcreate_def mframe_kalloc mframe_mem_step split: prod.splits if_splits)

lemma mframe_proc_pagetable:
  assumes "proc_pagetable tf s = Inr (pt, s')" "pt \<noteq> 0" shows "mframe s s'"
proof -
  obtain q s1 where c: "uvmcreate s = (q, s1)" by fastforce
  with assms obtain r s2 r' where m: "mappages q TRAMPOLINE PGSZ (trampoline s1) (PTE_R OR PTE_X) s1 = Inr (r, s2)"
    "mappages q TRAPFRAME PGSZ tf (PTE_R OR PTE_W) s2 = Inr (r', s')"
    by (auto simp: proc_pagetable_def rbind_eq_Inr split: if_splits)
  show ?thesis
    by (rule mframe_trans [OF mframe_uvmcreate [OF c] mframe_trans [OF mframe_mappages [OF m(1)] mframe_mappages [OF m(2)]]])
qed

section \<open>allocproc\<close>

lemma upd_proc_fields [simp]:
  "nextpid (upd_proc i f s) = nextpid s" "initproc (upd_proc i f s) = initproc s"
  "forkret_addr (upd_proc i f s) = forkret_addr s"
  by (simp_all add: upd_proc_def)

lemma allocproc_stages:
  assumes "allocproc s = Inr (Some i, s')"
  obtains s1 tf s2 pt s3 where
    "first_proc (\<lambda>p. pstate p = UNUSED) (procs s) = Some i"
    "s1 = upd_proc i (\<lambda>p. p\<lparr>pid := nextpid s, pstate := USED, priority := PRIORITY_BASE\<rparr>) (s\<lparr>nextpid := nextpid s + 1\<rparr>)"
    "kalloc s1 = (tf, s2)" "tf \<noteq> 0" "proc_pagetable tf (upd_proc i (\<lambda>p. p\<lparr>trapframe := tf\<rparr>) s2) = Inr (pt, s3)"
    "pt \<noteq> 0"
    "s' = upd_proc i (\<lambda>p. p\<lparr>pcontext := forkret_addr s3 # (kstack p + PGSZ) # replicate 12 0\<rparr>)
            (upd_proc i (\<lambda>p. p\<lparr>pagetable := pt\<rparr>) s3)"
  using assms
  by (auto simp: allocproc_def allocpid_def Let_def rbind_eq_Inr split: option.splits prod.splits if_splits)

lemma allocproc_slot:
  assumes "allocproc s = Inr (Some i, s')"
  shows "i < length (procs s) \<and> pstate (procs s ! i) = UNUSED \<and> (\<forall>j < i. pstate (procs s ! j) \<noteq> UNUSED)"
    "nextpid s' = nextpid s + 1"
    "procs s' = (procs s)[i := procs s' ! i]"
    "\<exists>tf pt. tf \<noteq> 0 \<and> pt \<noteq> 0 \<and> procs s' ! i = (procs s ! i)\<lparr>pid := nextpid s, pstate := USED,
       priority := PRIORITY_BASE, trapframe := tf, pagetable := pt,
       pcontext := forkret_addr s # (kstack (procs s ! i) + PGSZ) # replicate 12 0\<rparr>"
proof -
  obtain s1 tf s2 pt s3 where st:
    "first_proc (\<lambda>p. pstate p = UNUSED) (procs s) = Some i"
    "s1 = upd_proc i (\<lambda>p. p\<lparr>pid := nextpid s, pstate := USED, priority := PRIORITY_BASE\<rparr>) (s\<lparr>nextpid := nextpid s + 1\<rparr>)"
    "kalloc s1 = (tf, s2)" "tf \<noteq> 0" "proc_pagetable tf (upd_proc i (\<lambda>p. p\<lparr>trapframe := tf\<rparr>) s2) = Inr (pt, s3)"
    "pt \<noteq> 0"
    "s' = upd_proc i (\<lambda>p. p\<lparr>pcontext := forkret_addr s3 # (kstack p + PGSZ) # replicate 12 0\<rparr>)
            (upd_proc i (\<lambda>p. p\<lparr>pagetable := pt\<rparr>) s3)"
    by (rule allocproc_stages [OF assms])
  show sl: "i < length (procs s) \<and> pstate (procs s ! i) = UNUSED \<and> (\<forall>j < i. pstate (procs s ! j) \<noteq> UNUSED)"
    using st(1) by (simp add: first_proc_Some)
  have "mframe s1 s2" by (rule mframe_kalloc [OF st(3)])
  then have m2: "procs s2 = procs s1" "nextpid s2 = nextpid s1" "forkret_addr s2 = forkret_addr s1"
    by (auto simp: mframe_def)
  have "mframe (upd_proc i (\<lambda>p. p\<lparr>trapframe := tf\<rparr>) s2) s3" by (rule mframe_proc_pagetable [OF st(5,6)])
  then have m3: "procs s3 = procs (upd_proc i (\<lambda>p. p\<lparr>trapframe := tf\<rparr>) s2)" "nextpid s3 = nextpid s2"
    "forkret_addr s3 = forkret_addr s2"
    by (auto simp: mframe_def)
  show "nextpid s' = nextpid s + 1" by (simp add: st(7) m3 m2 st(2))
  show "procs s' = (procs s)[i := procs s' ! i]" using sl by (simp add: st(7) m3 m2 st(2))
  show "\<exists>tf pt. tf \<noteq> 0 \<and> pt \<noteq> 0 \<and> procs s' ! i = (procs s ! i)\<lparr>pid := nextpid s, pstate := USED,
       priority := PRIORITY_BASE, trapframe := tf, pagetable := pt,
       pcontext := forkret_addr s # (kstack (procs s ! i) + PGSZ) # replicate 12 0\<rparr>"
    using sl st(4,6) by (intro exI [of _ tf] exI [of _ pt]) (simp add: st(7) m3 m2 st(2))
qed

lemma allocproc_others: "allocproc s = Inr (Some i, s') \<Longrightarrow> j \<noteq> i \<Longrightarrow> procs s' ! j = procs s ! j"
  using allocproc_slot(3) by (metis nth_list_update_neq)

text \<open>Slots that are not in use carry the pid 0, processes a positive one (\<^verbatim>\<open>freeproc\<close>, \<^verbatim>\<open>allocpid\<close>).\<close>

definition pid_inv :: "'a kernel_scheme \<Rightarrow> bool" where
  "pid_inv s \<longleftrightarrow> 0 < nextpid s \<and> (\<forall>i < length (procs s).
     if pstate (procs s ! i) = UNUSED then pid (procs s ! i) = 0
     else 0 < pid (procs s ! i) \<and> pid (procs s ! i) < nextpid s) \<and>
     (\<forall>i < length (procs s). \<forall>j < length (procs s).
        pid (procs s ! i) = pid (procs s ! j) \<and> pid (procs s ! i) \<noteq> 0 \<longrightarrow> i = j)"

lemma pid_inv_allocproc:
  assumes "pid_inv s" "allocproc s = Inr (Some i, s')" shows "pid_inv s'"
proof -
  obtain tf pt where p: "pid (procs s' ! i) = nextpid s" "pstate (procs s' ! i) = USED"
    using allocproc_slot(4) [OF assms(2)] by force
  have o: "procs s' ! j = procs s ! j" if "j \<noteq> i" for j
    using allocproc_others [OF assms(2) that] .
  have len: "length (procs s') = length (procs s)"
    using allocproc_slot(3) [OF assms(2)] by (metis length_list_update)
  have n: "nextpid s' = nextpid s + 1" using allocproc_slot(2) [OF assms(2)] .
  have old: "pid (procs s ! j) < nextpid s" if "j < length (procs s)" for j
    using assms(1) that by (auto simp: pid_inv_def split: if_splits)
  have "if pstate (procs s' ! j) = UNUSED then pid (procs s' ! j) = 0
      else 0 < pid (procs s' ! j) \<and> pid (procs s' ! j) < nextpid s'" if "j < length (procs s)" for j
  proof (cases "j = i")
    case True
    then show ?thesis using p n assms(1) by (simp add: pid_inv_def)
  next
    case False
    then show ?thesis using assms(1) that n o by (auto simp: pid_inv_def split: if_splits)
  qed
  moreover have "j = k" if "j < length (procs s)" "k < length (procs s)"
    "pid (procs s' ! j) = pid (procs s' ! k)" "pid (procs s' ! j) \<noteq> 0" for j k
  proof (cases "j = i \<or> k = i")
    case True
    then show ?thesis using that p(1) o old by (metis less_irrefl)
  next
    case False
    then show ?thesis using that assms(1) o unfolding pid_inv_def by metis
  qed
  moreover have "0 < nextpid s'" using n assms(1) by (simp add: pid_inv_def)
  ultimately show ?thesis unfolding pid_inv_def len by blast
qed


section \<open>Properties\<close>


definition ex_boot :: kernel where
  "ex_boot = \<lparr>mem = \<lambda>_. 0, freelist = 0, kend = 0x80020000, etext = 0x80008000, trampoline = 0x80007000,
     procs = [(ex_p RUNNING NoChan 0)\<lparr>pid := 4\<rparr>, (ex_p UNUSED NoChan 0)\<lparr>pid := 0\<rparr>],
     nextpid = 5, initproc = Some 0, forkret_addr = 0x80001000, halted = None\<rparr>"

lemma ex_boot_pids: "pid_inv ex_boot"
  by (auto simp: pid_inv_def ex_boot_def ex_p_def less_Suc_eq)


text \<open>C17. \<^verbatim>\<open>kkill(0)\<close> does not fail: it finds the first unused slot, whose pid is 0, and marks it
  killed. \<^verbatim>\<open>allocproc\<close> does not clear the mark, so the next process, which gets that slot, is born
  killed.\<close>

theorem kkill_zero_marks_unused:
  assumes "pid_inv s" "first_proc (\<lambda>p. pstate p = UNUSED) (procs s) = Some i"
  shows "fst (kkill 0 s) = 0 \<and> killed (procs (snd (kkill 0 s)) ! i) \<and>
    (case allocproc (snd (kkill 0 s)) of Inr (Some j, s') \<Rightarrow> j = i \<and> killed (procs s' ! j) | _ \<Rightarrow> True)"
proof -
  have i: "i < length (procs s)" "pstate (procs s ! i) = UNUSED" "\<forall>j < i. pstate (procs s ! j) \<noteq> UNUSED"
    using assms(2) by (auto simp: first_proc_Some)
  have "pid (procs s ! j) = 0 \<longleftrightarrow> pstate (procs s ! j) = UNUSED" if "j < length (procs s)" for j
    using assms(1) that by (auto simp: pid_inv_def split: if_splits)
  then have "first_proc (\<lambda>p. pid p = 0) (procs s) = Some i" using i by (simp add: first_proc_Some)
  then have k: "kkill 0 s = (0, upd_proc i kill_proc s)" by (simp add: kkill_def)
  let ?s = "upd_proc i kill_proc s"
  have kp: "killed (procs ?s ! i)" using i(1) by (simp add: kill_proc_def Let_def)
  have st: "pstate (procs ?s ! j) = pstate (procs s ! j)" for j
    using i by (cases "j = i") (simp_all add: kill_proc_def Let_def)
  have "j = i \<and> killed (procs s' ! j)" if r: "allocproc ?s = Inr (Some j, s')" for j s'
  proof -
    have "j = i" using allocproc_slot(1) [OF r] i st by (metis linorder_neqE_nat)
    then show ?thesis using allocproc_slot(4) [OF r] kp by auto
  qed
  then show ?thesis using k kp by (simp split: sum.splits option.splits)
qed

theorem kkill_zero_marks_unused_witness: "fst (kkill 0 ex_boot) = 0 \<and> killed (procs (snd (kkill 0 ex_boot)) ! 1)"
proof -
  have "first_proc (\<lambda>p. pstate p = UNUSED) (procs ex_boot) = Some 1"
    by (auto simp: first_proc_Some ex_boot_def ex_p_def)
  from kkill_zero_marks_unused [OF ex_boot_pids this] show ?thesis by blast
qed

end
