(* ===== verification/Sleeplock.thy ===== *)
theory Sleeplock
  imports Proc_Life
begin

text \<open>
  \<^verbatim>\<open>kernel/sleeplock.c\<close>. A sleep lock lies inside a buffer or an inode; the operations take the
  wait channel of the lock and a function that updates it inside the state. \<open>cur\<close> is the index of
  the running process, \<open>kver\<close> the constant \<^verbatim>\<open>PIPE_VERSION\<close>, on which \<^verbatim>\<open>wakeup\<close> depends. The second
  part lets processes compete for one lock.
\<close>

record ckernel = kernel +
  cur :: nat
  kver :: nat

record sleeplock =
  sl_locked :: bool
  sl_pid :: int

definition mypid :: "'a ckernel_scheme \<Rightarrow> int" where
  "mypid s = pid (procs s ! cur s)"

definition initsleeplock :: sleeplock where
  "initsleeplock = \<lparr>sl_locked = False, sl_pid = 0\<rparr>"

text \<open>\<^verbatim>\<open>acquiresleep\<close> when the lock is free; when it is taken the caller would sleep.\<close>

definition acquiresleep ::
  "sleeplock \<Rightarrow> ((sleeplock \<Rightarrow> sleeplock) \<Rightarrow> 'a ckernel_scheme \<Rightarrow> 'a ckernel_scheme) \<Rightarrow> 'a ckernel_scheme \<Rightarrow>
    'a ckernel_scheme kres" where
  "acquiresleep lk upd s =
     (if sl_locked lk then Inl WouldSleep else Inr (upd (\<lambda>lk. lk\<lparr>sl_locked := True, sl_pid := mypid s\<rparr>) s))"

definition releasesleep ::
  "kchan \<Rightarrow> ((sleeplock \<Rightarrow> sleeplock) \<Rightarrow> 'a ckernel_scheme \<Rightarrow> 'a ckernel_scheme) \<Rightarrow> 'a ckernel_scheme \<Rightarrow>
    'a ckernel_scheme" where
  "releasesleep c upd s =
     wakeup (kver s) (Some (cur s)) c (upd (\<lambda>lk. lk\<lparr>sl_locked := False, sl_pid := 0\<rparr>) s)"

definition holdingsleep :: "sleeplock \<Rightarrow> 'a ckernel_scheme \<Rightarrow> bool" where
  "holdingsleep lk s \<longleftrightarrow> sl_locked lk \<and> sl_pid lk = mypid s"

section \<open>Processes that compete for a lock\<close>

text \<open>One turn of the loop of \<^verbatim>\<open>acquiresleep\<close> by process \<open>p\<close>: take the lock or go to sleep on it.\<close>

definition acquiresleep_turn :: "kchan \<Rightarrow> nat \<Rightarrow> sleeplock \<times> kernel \<Rightarrow> sleeplock \<times> kernel" where
  "acquiresleep_turn c p = (\<lambda>(lk, k).
     if sl_locked lk then (lk, upd_proc p (sleep_on c) k)
     else (lk\<lparr>sl_locked := True, sl_pid := pid (procs k ! p)\<rparr>, k))"

definition releasesleep_by :: "nat \<Rightarrow> kchan \<Rightarrow> nat \<Rightarrow> sleeplock \<times> kernel \<Rightarrow> sleeplock \<times> kernel" where
  "releasesleep_by ver c p = (\<lambda>(lk, k). (lk\<lparr>sl_locked := False, sl_pid := 0\<rparr>, wakeup ver (Some p) c k))"

definition waits_on :: "kchan \<Rightarrow> kernel \<Rightarrow> nat \<Rightarrow> bool" where
  "waits_on c k p \<longleftrightarrow> p < length (procs k) \<and> pstate (procs k ! p) = SLEEPING \<and> chan (procs k ! p) = c"

text \<open>Other kernel activity puts no process to sleep on the lock and keeps the pids of processes.\<close>

inductive sl_reach :: "nat \<Rightarrow> kchan \<Rightarrow> sleeplock \<times> kernel \<Rightarrow> bool" for ver c where
  start: "(\<And>p. \<not> waits_on c k p) \<Longrightarrow> sl_reach ver c (initsleeplock, k)"
| acquire: "sl_reach ver c (lk, k) \<Longrightarrow> p < length (procs k) \<Longrightarrow> pstate (procs k ! p) = RUNNING \<Longrightarrow>
    sl_reach ver c (acquiresleep_turn c p (lk, k))"
| release: "sl_reach ver c (lk, k) \<Longrightarrow> sl_locked lk \<Longrightarrow> sl_pid lk = pid (procs k ! p) \<Longrightarrow>
    pstate (procs k ! p) = RUNNING \<Longrightarrow> sl_reach ver c (releasesleep_by ver c p (lk, k))"
| env: "sl_reach ver c (lk, k) \<Longrightarrow> (\<And>p. waits_on c k' p \<Longrightarrow> waits_on c k p) \<Longrightarrow> sl_reach ver c (lk, k')"

lemma waits_on_wakeup:
  "waits_on c (wakeup ver (Some me) c k) p \<Longrightarrow> waits_on c k p \<and> p = me"
  by (auto simp: waits_on_def wakeup_def nth_wakeup_procs wake_proc_def Let_def split: if_splits)

lemma sl_free_no_waiter:
  "sl_reach ver c st \<Longrightarrow> \<not> sl_locked (fst st) \<Longrightarrow> \<not> waits_on c (snd st) p"
proof (induction arbitrary: p rule: sl_reach.induct)
  case (acquire lk k q)
  then show ?case by (auto simp: acquiresleep_turn_def split: if_splits)
next
  case (release lk k q)
  show ?case
  proof
    assume "waits_on c (snd (releasesleep_by ver c q (lk, k))) p"
    then have "waits_on c k p" "p = q" using waits_on_wakeup [of c ver q k p] by (auto simp: releasesleep_by_def)
    then show False using release.hyps(4) by (simp add: waits_on_def)
  qed
next
  case (env lk k k')
  then show ?case by auto
qed simp

section \<open>Properties\<close>

text \<open>C36. No process is left asleep on a free sleep lock, whatever the order of acquisitions, releases
  and other kernel activity: a process that waits for the lock waits for a holder.\<close>

theorem sleeplock_no_lost_wakeup:
  assumes "sl_reach ver c (lk, k)" "waits_on c k p"
  shows "sl_locked lk"
  using sl_free_no_waiter [OF assms(1)] assms(2) by auto

definition ex_two :: kernel where
  "ex_two = ex_boot\<lparr>procs := [(ex_p RUNNING NoChan 0)\<lparr>pid := 4\<rparr>, (ex_p RUNNING NoChan 0)\<lparr>pid := 3\<rparr>]\<rparr>"

theorem sleeplock_no_lost_wakeup_witness:
  "let st = acquiresleep_turn LogChan 1 (acquiresleep_turn LogChan 0 (initsleeplock, ex_two))
   in waits_on LogChan (snd st) 1 \<and> sl_locked (fst st)"
proof -
  have "sl_reach 8 LogChan (initsleeplock, ex_two)"
    by (rule sl_reach.start) (auto simp: waits_on_def ex_two_def ex_p_def nth_Cons' split: if_splits)
  then have "sl_reach 8 LogChan (acquiresleep_turn LogChan 0 (initsleeplock, ex_two))"
    by (rule sl_reach.acquire) (simp_all add: ex_two_def ex_p_def)
  then have "sl_reach 8 LogChan (acquiresleep_turn LogChan 1 (acquiresleep_turn LogChan 0 (initsleeplock, ex_two)))"
    unfolding acquiresleep_turn_def [of _ 0] initsleeplock_def
    by (simp only: split_conv sleeplock.simps if_False, intro sl_reach.acquire) (simp_all add: ex_two_def ex_p_def)
  moreover have "waits_on LogChan (snd (acquiresleep_turn LogChan 1 (acquiresleep_turn LogChan 0 (initsleeplock, ex_two)))) 1"
    by (simp add: acquiresleep_turn_def initsleeplock_def waits_on_def ex_two_def ex_p_def sleep_on_def)
  ultimately show ?thesis using sleeplock_no_lost_wakeup [of 8 LogChan] by (simp add: Let_def) (metis prod.collapse)
qed

end
