(* ===== verification/Bytes.thy ===== *)
theory Bytes
  imports Xv6_Prelude
begin

text \<open>
  Little-endian 16-bit and 32-bit fields inside a block of bytes: the fields of the superblock, the
  log header, on-disk inodes, indirect blocks and directory entries, which the C code reaches
  through pointer casts.
\<close>

unbundle bit_operations_syntax

definition bytes16 :: "u16 \<Rightarrow> u8 list" where
  "bytes16 v = [ucast v, ucast (drop_bit 8 v)]"

definition bytes32 :: "u32 \<Rightarrow> u8 list" where
  "bytes32 v = [ucast v, ucast (drop_bit 8 v), ucast (drop_bit 16 v), ucast (drop_bit 24 v)]"

definition get16 :: "u8 list \<Rightarrow> nat \<Rightarrow> u16" where
  "get16 d p = ucast (d ! p) OR push_bit 8 (ucast (d ! (p + 1)))"

definition get32 :: "u8 list \<Rightarrow> nat \<Rightarrow> u32" where
  "get32 d p = ucast (d ! p) OR push_bit 8 (ucast (d ! (p + 1)))
     OR push_bit 16 (ucast (d ! (p + 2))) OR push_bit 24 (ucast (d ! (p + 3)))"

definition put16 :: "u8 list \<Rightarrow> nat \<Rightarrow> u16 \<Rightarrow> u8 list" where
  "put16 d p v = overwrite d p (bytes16 v)"

definition put32 :: "u8 list \<Rightarrow> nat \<Rightarrow> u32 \<Rightarrow> u8 list" where
  "put32 d p v = overwrite d p (bytes32 v)"

lemma length_bytes [simp]: "length (bytes16 v) = 2" "length (bytes32 w) = 4"
  by (simp_all add: bytes16_def bytes32_def)

lemma length_put16 [simp]: "p + 2 \<le> length d \<Longrightarrow> length (put16 d p v) = length d"
  by (simp add: put16_def)

lemma length_put32 [simp]: "p + 4 \<le> length d \<Longrightarrow> length (put32 d p v) = length d"
  by (simp add: put32_def)

lemma nth_put16:
  "p + 2 \<le> length d \<Longrightarrow> k < length d \<Longrightarrow>
    put16 d p v ! k = (if p \<le> k \<and> k < p + 2 then bytes16 v ! (k - p) else d ! k)"
  by (simp add: put16_def nth_overwrite)

lemma nth_put32:
  "p + 4 \<le> length d \<Longrightarrow> k < length d \<Longrightarrow>
    put32 d p v ! k = (if p \<le> k \<and> k < p + 4 then bytes32 v ! (k - p) else d ! k)"
  by (simp add: put32_def nth_overwrite)

lemma byte_of_bit:
  assumes "n < 8 * m" obtains j r where "n = 8 * j + r" "r < 8" "j < (m :: nat)"
proof
  show "n = 8 * (n div 8) + n mod 8" "n mod 8 < 8" "n div 8 < m" using assms by simp_all
qed

lemma get16_bytes16:
  assumes "\<And>k. k < 2 \<Longrightarrow> d ! (p + k) = bytes16 v ! k" shows "get16 d p = v"
proof (rule bit_word_eqI)
  have d: "d ! p = ucast v" "d ! (p + 1) = ucast (drop_bit 8 v)"
    using assms [of 0] assms [of 1] by (simp_all add: bytes16_def)
  fix n assume "n < LENGTH(16)"
  then obtain j r where n: "n = 8 * j + r" "r < 8" "j < 2" using byte_of_bit [of n 2] by auto
  then have "j = 0 \<or> j = 1" by auto
  with n show "bit (get16 d p) n = bit v n"
    unfolding get16_def d by (elim disjE) (simp_all add: bit_simps)
qed

lemma get32_bytes32:
  assumes "\<And>k. k < 4 \<Longrightarrow> d ! (p + k) = bytes32 v ! k" shows "get32 d p = v"
proof (rule bit_word_eqI)
  have d: "d ! p = ucast v" "d ! (p + 1) = ucast (drop_bit 8 v)" "d ! (p + 2) = ucast (drop_bit 16 v)"
    "d ! (p + 3) = ucast (drop_bit 24 v)"
    using assms [of 0] assms [of 1] assms [of 2] assms [of 3]
    by (simp_all add: bytes32_def numeral_2_eq_2 numeral_3_eq_3)
  fix n assume "n < LENGTH(32)"
  then obtain j r where n: "n = 8 * j + r" "r < 8" "j < 4" using byte_of_bit [of n 4] by auto
  then have "j = 0 \<or> j = 1 \<or> j = 2 \<or> j = 3" by auto
  with n show "bit (get32 d p) n = bit v n"
    unfolding get32_def d by (elim disjE) (simp_all add: bit_simps)
qed

lemma get16_put16 [simp]: "p + 2 \<le> length d \<Longrightarrow> get16 (put16 d p v) p = v"
  by (rule get16_bytes16) (simp_all add: nth_put16)

lemma get32_put32 [simp]: "p + 4 \<le> length d \<Longrightarrow> get32 (put32 d p v) p = v"
  by (rule get32_bytes32) (simp add: nth_put32)

lemma get32_cong:
  assumes "\<And>k. k < 4 \<Longrightarrow> d ! (p + k) = d' ! (p + k)" shows "get32 d p = get32 d' p"
  using assms [of 0] assms [of 1] assms [of 2] assms [of 3] by (simp add: get32_def)

lemma get16_cong:
  assumes "\<And>k. k < 2 \<Longrightarrow> d ! (p + k) = d' ! (p + k)" shows "get16 d p = get16 d' p"
  using assms [of 0] assms [of 1] by (simp add: get16_def)

lemma get32_put32_other:
  "p + 4 \<le> length d \<Longrightarrow> q + 4 \<le> length d \<Longrightarrow> q + 4 \<le> p \<or> p + 4 \<le> q \<Longrightarrow> get32 (put32 d p v) q = get32 d q"
  by (rule get32_cong) (auto simp: nth_put32)

lemma get16_put16_other:
  "p + 2 \<le> length d \<Longrightarrow> q + 2 \<le> length d \<Longrightarrow> q + 2 \<le> p \<or> p + 2 \<le> q \<Longrightarrow> get16 (put16 d p v) q = get16 d q"
  by (rule get16_cong) (auto simp: nth_put16)

lemma get32_put16_other:
  "p + 2 \<le> length d \<Longrightarrow> q + 4 \<le> length d \<Longrightarrow> q + 4 \<le> p \<or> p + 2 \<le> q \<Longrightarrow> get32 (put16 d p v) q = get32 d q"
  by (rule get32_cong) (auto simp: nth_put16)

lemma get16_put32_other:
  "p + 4 \<le> length d \<Longrightarrow> q + 2 \<le> length d \<Longrightarrow> q + 2 \<le> p \<or> p + 4 \<le> q \<Longrightarrow> get16 (put32 d p v) q = get16 d q"
  by (rule get16_cong) (auto simp: nth_put32)

lemmas field_simps_bytes = get32_put32_other get16_put16_other get32_put16_other get16_put32_other

end
