(* ===== verification/Bio.thy ===== *)
theory Bio
  imports Sleeplock Bytes
begin

text \<open>
  The buffer cache of \<^verbatim>\<open>kernel/bio.c\<close>, with its list of buffers linked through \<^verbatim>\<open>prev\<close> and
  \<^verbatim>\<open>next\<close>. A buffer is named by its index in \<^verbatim>\<open>bcache.buf\<close>; index \<open>NBUF\<close> is \<^verbatim>\<open>bcache.head\<close>. The disk
  is a function from block numbers to blocks, and a transfer by \<^verbatim>\<open>virtio_disk_rw\<close> moves a whole
  block; \<open>dwrites\<close> records the writes the disk has carried out, in order.
\<close>

section \<open>State\<close>

definition BSIZE :: nat where "BSIZE = 1024"
definition MAXOPBLOCKS :: nat where "MAXOPBLOCKS = 10"
definition LOGBLOCKS :: nat where "LOGBLOCKS = MAXOPBLOCKS * 3"
definition NBUF :: nat where "NBUF = MAXOPBLOCKS * 3"

type_synonym block = "u8 list"

record buf =
  bvalid :: bool
  bdev :: u32
  blockno :: u32
  block_lk :: sleeplock
  refcnt :: u32
  bprev :: nat
  bnext :: nat
  bdata :: block

record bkernel = ckernel +
  bufs_of :: "buf list"
  disk :: "u32 \<Rightarrow> block"
  dwrites :: "(u32 \<times> block) list"

definition upd_buf :: "nat \<Rightarrow> (buf \<Rightarrow> buf) \<Rightarrow> 'a bkernel_scheme \<Rightarrow> 'a bkernel_scheme" where
  "upd_buf b f s = s\<lparr>bufs_of := (bufs_of s)[b := f (bufs_of s ! b)]\<rparr>"

abbreviation buf_at :: "'a bkernel_scheme \<Rightarrow> nat \<Rightarrow> buf" where
  "buf_at s b \<equiv> bufs_of s ! b"

definition upd_buf_lk :: "nat \<Rightarrow> (sleeplock \<Rightarrow> sleeplock) \<Rightarrow> 'a bkernel_scheme \<Rightarrow> 'a bkernel_scheme" where
  "upd_buf_lk b f = upd_buf b (\<lambda>x. x\<lparr>block_lk := f (block_lk x)\<rparr>)"

section \<open>The linked list\<close>

text \<open>\<open>b\<close> becomes the first of the list: the four assignments that \<^verbatim>\<open>binit\<close> and \<^verbatim>\<open>brelse\<close> share.\<close>

definition list_push :: "nat \<Rightarrow> 'a bkernel_scheme \<Rightarrow> 'a bkernel_scheme" where
  "list_push b s =
     (let s = upd_buf b (\<lambda>x. x\<lparr>bnext := bnext (buf_at s NBUF)\<rparr>) s;
          s = upd_buf b (\<lambda>x. x\<lparr>bprev := NBUF\<rparr>) s;
          s = upd_buf (bnext (buf_at s NBUF)) (\<lambda>x. x\<lparr>bprev := b\<rparr>) s
      in upd_buf NBUF (\<lambda>x. x\<lparr>bnext := b\<rparr>) s)"

definition list_unlink :: "nat \<Rightarrow> 'a bkernel_scheme \<Rightarrow> 'a bkernel_scheme" where
  "list_unlink b s =
     (let s = upd_buf (bnext (buf_at s b)) (\<lambda>x. x\<lparr>bprev := bprev (buf_at s b)\<rparr>) s
      in upd_buf (bprev (buf_at s b)) (\<lambda>x. x\<lparr>bnext := bnext (buf_at s b)\<rparr>) s)"

definition binit :: "'a bkernel_scheme \<Rightarrow> 'a bkernel_scheme" where
  "binit s =
     fold (\<lambda>b s. list_push b (upd_buf_lk b (\<lambda>_. initsleeplock) s)) [0..<NBUF]
       (upd_buf NBUF (\<lambda>x. x\<lparr>bprev := NBUF, bnext := NBUF\<rparr>) s)"

section \<open>Operations\<close>

text \<open>The two scans of \<^verbatim>\<open>bget\<close>, from \<^verbatim>\<open>head.next\<close> forwards and from \<^verbatim>\<open>head.prev\<close> backwards.\<close>

primrec scan_cached :: "nat \<Rightarrow> u32 \<Rightarrow> u32 \<Rightarrow> buf list \<Rightarrow> nat \<Rightarrow> nat option kres" where
  "scan_cached 0 dev bn bs b = Inl OutOfFuel"
| "scan_cached (Suc k) dev bn bs b =
     (if b = NBUF then Inr None
      else if bdev (bs ! b) = dev \<and> blockno (bs ! b) = bn then Inr (Some b)
      else scan_cached k dev bn bs (bnext (bs ! b)))"

primrec scan_unused :: "nat \<Rightarrow> buf list \<Rightarrow> nat \<Rightarrow> nat option kres" where
  "scan_unused 0 bs b = Inl OutOfFuel"
| "scan_unused (Suc k) bs b =
     (if b = NBUF then Inr None
      else if refcnt (bs ! b) = 0 then Inr (Some b)
      else scan_unused k bs (bprev (bs ! b)))"

definition lock_buf :: "nat \<Rightarrow> 'a bkernel_scheme \<Rightarrow> (nat \<times> 'a bkernel_scheme) kres" where
  "lock_buf b s = rbind (acquiresleep (block_lk (buf_at s b)) (upd_buf_lk b) s) (\<lambda>s. Inr (b, s))"

definition bget :: "u32 \<Rightarrow> u32 \<Rightarrow> 'a bkernel_scheme \<Rightarrow> (nat \<times> 'a bkernel_scheme) kres" where
  "bget dev bn s =
     rbind (scan_cached (NBUF + 1) dev bn (bufs_of s) (bnext (buf_at s NBUF))) (\<lambda>r. case r of
       Some b \<Rightarrow> lock_buf b (upd_buf b (\<lambda>x. x\<lparr>refcnt := refcnt x + 1\<rparr>) s)
     | None \<Rightarrow>
         rbind (scan_unused (NBUF + 1) (bufs_of s) (bprev (buf_at s NBUF))) (\<lambda>r. case r of
           Some b \<Rightarrow> lock_buf b (upd_buf b (\<lambda>x. x\<lparr>bdev := dev, blockno := bn, bvalid := False, refcnt := 1\<rparr>) s)
         | None \<Rightarrow> Inl (Panic ''bget: no buffers'')))"

text \<open>The transfers of \<^verbatim>\<open>virtio_disk_rw\<close>; the driver ignores \<^verbatim>\<open>b->dev\<close>, there is one disk.\<close>

definition disk_read :: "nat \<Rightarrow> 'a bkernel_scheme \<Rightarrow> 'a bkernel_scheme" where
  "disk_read b s = upd_buf b (\<lambda>x. x\<lparr>bdata := disk s (blockno x)\<rparr>) s"

definition disk_write :: "nat \<Rightarrow> 'a bkernel_scheme \<Rightarrow> 'a bkernel_scheme" where
  "disk_write b s =
     (let x = buf_at s b
      in s\<lparr>disk := (disk s)(blockno x := bdata x), dwrites := dwrites s @ [(blockno x, bdata x)]\<rparr>)"

definition bread :: "u32 \<Rightarrow> u32 \<Rightarrow> 'a bkernel_scheme \<Rightarrow> (nat \<times> 'a bkernel_scheme) kres" where
  "bread dev bn s = rbind (bget dev bn s) (\<lambda>(b, s).
     if \<not> bvalid (buf_at s b) then Inr (b, upd_buf b (\<lambda>x. x\<lparr>bvalid := True\<rparr>) (disk_read b s))
     else Inr (b, s))"

definition bwrite :: "nat \<Rightarrow> 'a bkernel_scheme \<Rightarrow> 'a bkernel_scheme kres" where
  "bwrite b s =
     (if \<not> holdingsleep (block_lk (buf_at s b)) s then Inl (Panic ''bwrite'') else Inr (disk_write b s))"

definition brelse :: "nat \<Rightarrow> 'a bkernel_scheme \<Rightarrow> 'a bkernel_scheme kres" where
  "brelse b s =
     (if \<not> holdingsleep (block_lk (buf_at s b)) s then Inl (Panic ''brelse'')
      else
        let s = releasesleep (BufChan b) (upd_buf_lk b) s;
            s = upd_buf b (\<lambda>x. x\<lparr>refcnt := refcnt x - 1\<rparr>) s
        in Inr (if refcnt (buf_at s b) = 0 then list_push b (list_unlink b s) else s))"

definition bpin :: "nat \<Rightarrow> 'a bkernel_scheme \<Rightarrow> 'a bkernel_scheme" where
  "bpin b s = upd_buf b (\<lambda>x. x\<lparr>refcnt := refcnt x + 1\<rparr>) s"

definition bunpin :: "nat \<Rightarrow> 'a bkernel_scheme \<Rightarrow> 'a bkernel_scheme" where
  "bunpin b s = upd_buf b (\<lambda>x. x\<lparr>refcnt := refcnt x - 1\<rparr>) s"

text \<open>\<^verbatim>\<open>memmove(b->data, ...)\<close> and other stores into a buffer's data.\<close>

definition set_bdata :: "nat \<Rightarrow> block \<Rightarrow> 'a bkernel_scheme \<Rightarrow> 'a bkernel_scheme" where
  "set_bdata b d s = upd_buf b (\<lambda>x. x\<lparr>bdata := d\<rparr>) s"

end
