(* ===== verification/Bio_List.thy ===== *)
theory Bio_List
  imports Bio
begin

text \<open>
  The list of buffers as a sequence: \<open>ring bs xs\<close> says that following \<^verbatim>\<open>next\<close> from \<^verbatim>\<open>bcache.head\<close>
  visits \<open>xs\<close> and returns to the head, and \<^verbatim>\<open>prev\<close> the other way round. Pushing and unlinking a
  buffer act on the sequence, and the two scans of \<^verbatim>\<open>bget\<close> are searches in it.
\<close>

section \<open>Doubly linked sequences\<close>

fun linked :: "(nat \<Rightarrow> nat) \<Rightarrow> (nat \<Rightarrow> nat) \<Rightarrow> nat list \<Rightarrow> bool" where
  "linked nx pv (a # b # ys) \<longleftrightarrow> nx a = b \<and> pv b = a \<and> linked nx pv (b # ys)"
| "linked nx pv _ \<longleftrightarrow> True"

lemma linked_append: "linked nx pv (xs @ a # ys) \<longleftrightarrow> linked nx pv (xs @ [a]) \<and> linked nx pv (a # ys)"
  by (induction nx pv xs rule: linked.induct) (cases ys; auto)+

lemma linked_cong:
  "(\<And>a. a \<in> set (butlast ys) \<Longrightarrow> nx a = nx' a) \<Longrightarrow> (\<And>b. b \<in> set (tl ys) \<Longrightarrow> pv b = pv' b) \<Longrightarrow>
    linked nx pv ys \<longleftrightarrow> linked nx' pv' ys"
  by (induction nx pv ys rule: linked.induct) (auto simp: neq_Nil_conv)

lemma linked_Cons: "linked nx pv (a # ys) \<longleftrightarrow> ys = [] \<or> nx a = hd ys \<and> pv (hd ys) = a \<and> linked nx pv ys"
  by (cases ys) auto

lemma linked_snoc: "linked nx pv (ys @ [b]) \<longleftrightarrow> ys = [] \<or> nx (last ys) = b \<and> pv b = last ys \<and> linked nx pv ys"
proof (cases ys rule: rev_cases)
  case (snoc zs a)
  then show ?thesis using linked_append [of nx pv zs a "[b]"] by auto
qed simp

text \<open>Inserting a node behind the first, and taking one out.\<close>

lemma linked_insert:
  assumes "linked nx pv (h # xs @ [h])" "distinct (b # h # xs)"
    "nx' b = hd (xs @ [h])" "pv' b = h" "pv' (hd (xs @ [h])) = b" "nx' h = b"
    "\<And>a. a \<noteq> b \<Longrightarrow> a \<noteq> h \<Longrightarrow> nx' a = nx a" "\<And>a. a \<noteq> b \<Longrightarrow> a \<noteq> hd (xs @ [h]) \<Longrightarrow> pv' a = pv a"
  shows "linked nx' pv' (h # (b # xs) @ [h])"
proof -
  have "linked nx pv (xs @ [h])" using assms(1) by (simp add: linked_Cons)
  moreover have "linked nx' pv' (xs @ [h]) \<longleftrightarrow> linked nx pv (xs @ [h])"
  proof (rule linked_cong)
    fix a assume "a \<in> set (tl (xs @ [h]))"
    then have "a \<noteq> b \<and> a \<noteq> hd (xs @ [h])" using assms(2) by (cases xs) auto
    then show "pv' a = pv a" using assms(8) by simp
  qed (use assms(2) in \<open>auto intro!: assms(7)\<close>)
  ultimately show ?thesis using assms(3-6) by (simp add: linked_Cons)
qed

lemma linked_remove:
  assumes "linked nx pv (h # (as @ b # cs) @ [h])" "distinct (h # as @ b # cs)"
    "nx' (pv b) = nx b" "pv' (nx b) = pv b"
    "\<And>a. a \<noteq> pv b \<Longrightarrow> nx' a = nx a" "\<And>a. a \<noteq> nx b \<Longrightarrow> pv' a = pv a"
  shows "linked nx' pv' (h # (as @ cs) @ [h])" "pv b = last (h # as)" "nx b = hd (cs @ [h])"
proof -
  have l: "linked nx pv ((h # as) @ [b])" "linked nx pv (b # cs @ [h])"
    using assms(1) linked_append [of nx pv "h # as" b "cs @ [h]"] by simp_all
  show e: "pv b = last (h # as)" using l(1) linked_snoc [of nx pv "h # as" b] by simp
  show f: "nx b = hd (cs @ [h])" using l(2) linked_Cons [of nx pv b "cs @ [h]"] by simp
  have l1: "linked nx pv (h # as)" using l(1) linked_snoc [of nx pv "h # as" b] by simp
  have l2: "linked nx pv (cs @ [h])" using l(2) linked_Cons [of nx pv b "cs @ [h]"] by simp
  have "linked nx' pv' (h # as)" if "linked nx pv (h # as)"
  proof (rule linked_cong [THEN iffD2, OF _ _ that])
    fix a assume a: "a \<in> set (butlast (h # as))"
    have "a \<noteq> last (h # as)" using a assms(2) by (metis append_butlast_last_id distinct.simps(2) distinct_append list.distinct(1)
          not_distinct_conv_prefix append_Cons)
    then show "nx' a = nx a" using assms(5) e by simp
  next
    fix c assume "c \<in> set (tl (h # as))"
    then have "c \<noteq> nx b" using assms(2) unfolding f by (cases cs) auto
    then show "pv' c = pv c" by (rule assms(6))
  qed
  moreover have "linked nx' pv' (cs @ [h])" if "linked nx pv (cs @ [h])"
  proof (rule linked_cong [THEN iffD2, OF _ _ that])
    fix a assume "a \<in> set (butlast (cs @ [h]))"
    then have "a \<in> set cs" by simp
    moreover have "last (h # as) \<in> set (h # as)" by (rule last_in_set) simp
    moreover have "set cs \<inter> set (h # as) = {}" using assms(2) by auto
    ultimately have "a \<noteq> pv b" unfolding e by blast
    then show "nx' a = nx a" by (rule assms(5))
  next
    fix c assume "c \<in> set (tl (cs @ [h]))"
    then have "c \<noteq> nx b" using assms(2) unfolding f by (cases cs) auto
    then show "pv' c = pv c" by (rule assms(6))
  qed
  moreover have "nx' (last (h # as)) = hd (cs @ [h])" "pv' (hd (cs @ [h])) = last (h # as)"
    using assms(3,4) e f by simp_all
  ultimately show "linked nx' pv' (h # (as @ cs) @ [h])"
    using l1 l2 by (cases "cs @ [h]") (auto simp: linked_append [of _ _ "h # as"] linked_snoc simp flip: append_Cons)
qed

section \<open>The buffers as a ring\<close>

definition ring :: "buf list \<Rightarrow> nat list \<Rightarrow> bool" where
  "ring bs xs \<longleftrightarrow> length bs = NBUF + 1 \<and> distinct xs \<and> set xs \<subseteq> {..<NBUF} \<and>
     linked (\<lambda>i. bnext (bs ! i)) (\<lambda>i. bprev (bs ! i)) (NBUF # xs @ [NBUF])"

lemma bufs_upd_buf [simp]: "bufs_of (upd_buf b f s) = (bufs_of s)[b := f (buf_at s b)]"
  by (simp add: upd_buf_def)

lemma ring_cong:
  assumes "length bs' = length bs" "\<And>i. bnext (bs' ! i) = bnext (bs ! i) \<and> bprev (bs' ! i) = bprev (bs ! i)"
  shows "ring bs' xs \<longleftrightarrow> ring bs xs"
  using assms by (simp add: ring_def)

lemma ring_hd_less: "ring bs xs \<Longrightarrow> hd (xs @ [NBUF]) < NBUF + 1"
  by (cases xs) (auto simp: ring_def)

lemma ring_head: "ring bs xs \<Longrightarrow> bnext (bs ! NBUF) = hd (xs @ [NBUF]) \<and> bprev (bs ! NBUF) = last (NBUF # xs)"
proof
  let ?nx = "\<lambda>i. bnext (bs ! i)" and ?pv = "\<lambda>i. bprev (bs ! i)"
  assume "ring bs xs"
  then have l: "linked ?nx ?pv (NBUF # xs @ [NBUF])" by (simp add: ring_def)
  then show "bnext (bs ! NBUF) = hd (xs @ [NBUF])" using linked_Cons [of ?nx ?pv NBUF "xs @ [NBUF]"] by blast
  show "bprev (bs ! NBUF) = last (NBUF # xs)"
    using l linked_snoc [of ?nx ?pv "NBUF # xs" NBUF] by (metis append_Cons list.distinct(1))
qed

lemma ring_push:
  assumes "ring (bufs_of s) xs" "b < NBUF" "b \<notin> set xs"
  shows "ring (bufs_of (list_push b s)) (b # xs)"
proof -
  let ?bs = "bufs_of s" and ?bs' = "bufs_of (list_push b s)" and ?x = "hd (xs @ [NBUF])"
  have len: "length ?bs = NBUF + 1" and x: "bnext (?bs ! NBUF) = ?x" "?x < NBUF + 1"
    using assms(1) ring_head ring_hd_less by (auto simp: ring_def)
  have nb: "?x \<noteq> b" using assms(2,3) by (cases xs) auto
  have l: "linked (\<lambda>i. bnext (?bs ! i)) (\<lambda>i. bprev (?bs ! i)) (NBUF # xs @ [NBUF])"
    and d: "distinct (b # NBUF # xs)" using assms by (auto simp: ring_def)
  have "linked (\<lambda>i. bnext (?bs' ! i)) (\<lambda>i. bprev (?bs' ! i)) (NBUF # (b # xs) @ [NBUF])"
    by (rule linked_insert [OF l d])
      (use len x nb assms(2) in \<open>auto simp: list_push_def Let_def nth_list_update\<close>)
  then show ?thesis using assms len by (auto simp: ring_def list_push_def Let_def)
qed

lemma ring_unlink:
  assumes "ring (bufs_of s) (as @ b # cs)"
  shows "ring (bufs_of (list_unlink b s)) (as @ cs)"
proof -
  let ?bs = "bufs_of s" and ?bs' = "bufs_of (list_unlink b s)"
  let ?nx = "\<lambda>i. bnext (?bs ! i)" and ?pv = "\<lambda>i. bprev (?bs ! i)"
  have len: "length ?bs = NBUF + 1" and l: "linked ?nx ?pv (NBUF # (as @ b # cs) @ [NBUF])"
    and d: "distinct (NBUF # as @ b # cs)" using assms by (auto simp: ring_def)
  have pn: "?pv b = last (NBUF # as)" "?nx b = hd (cs @ [NBUF])"
    using linked_remove(2,3) [OF l d, of "?nx(?pv b := ?nx b)" "?pv(?nx b := ?pv b)"] by simp_all
  have "last (NBUF # as) \<in> set (NBUF # as)" "hd (cs @ [NBUF]) \<in> set (cs @ [NBUF])"
    by (rule last_in_set, simp) (rule hd_in_set, simp)
  moreover have "set (as @ cs) \<subseteq> {..<NBUF}" "b \<notin> set (NBUF # as)" "b \<notin> set (cs @ [NBUF])"
    using assms d by (auto simp: ring_def)
  ultimately have lt: "?pv b < NBUF + 1" "?nx b < NBUF + 1" "?pv b \<noteq> b" "?nx b \<noteq> b"
    unfolding pn by (auto simp del: last.simps)
  have "linked (\<lambda>i. bnext (?bs' ! i)) (\<lambda>i. bprev (?bs' ! i)) (NBUF # (as @ cs) @ [NBUF])"
    by (rule linked_remove(1) [OF l d]) (use len lt in \<open>auto simp: list_unlink_def Let_def nth_list_update\<close>)
  then show ?thesis using assms by (auto simp: ring_def list_unlink_def Let_def)
qed

section \<open>The scans\<close>

lemma scan_cached_eq:
  "linked (\<lambda>i. bnext (bs ! i)) pv (ys @ [NBUF]) \<Longrightarrow> NBUF \<notin> set ys \<Longrightarrow> length ys < k \<Longrightarrow>
    scan_cached k dev bn bs (hd (ys @ [NBUF])) =
      Inr (List.find (\<lambda>i. bdev (bs ! i) = dev \<and> blockno (bs ! i) = bn) ys)"
proof (induction ys arbitrary: k)
  case Nil
  then show ?case by (cases k) simp_all
next
  case (Cons y ys)
  then obtain k' where k: "k = Suc k'" by (cases k) auto
  have "linked (\<lambda>i. bnext (bs ! i)) pv (ys @ [NBUF])" "bnext (bs ! y) = hd (ys @ [NBUF])"
    using Cons.prems(1) linked_Cons [of _ _ y "ys @ [NBUF]"] by auto
  then show ?case using Cons.IH [of k'] Cons.prems k by auto
qed

lemma scan_unused_eq:
  "linked nx (\<lambda>i. bprev (bs ! i)) (NBUF # ys) \<Longrightarrow> NBUF \<notin> set ys \<Longrightarrow> length ys < k \<Longrightarrow>
    scan_unused k bs (last (NBUF # ys)) = Inr (List.find (\<lambda>i. refcnt (bs ! i) = 0) (rev ys))"
proof (induction ys arbitrary: k rule: rev_induct)
  case Nil
  then show ?case by (cases k) simp_all
next
  case (snoc y ys)
  then obtain k' where k: "k = Suc k'" by (cases k) auto
  have "linked nx (\<lambda>i. bprev (bs ! i)) (NBUF # ys)" "bprev (bs ! y) = last (NBUF # ys)"
    using snoc.prems(1) linked_snoc [of nx _ "NBUF # ys" y] by auto
  then show ?case using snoc.IH [of k'] snoc.prems k by auto
qed

lemma ring_length: "ring bs xs \<Longrightarrow> length xs \<le> NBUF"
  using card_mono [of "{..<NBUF}" "set xs"] distinct_card [of xs] by (auto simp: ring_def)

lemma ring_scans:
  assumes "ring bs xs"
  shows "scan_cached (NBUF + 1) dev bn bs (bnext (bs ! NBUF)) =
      Inr (List.find (\<lambda>i. bdev (bs ! i) = dev \<and> blockno (bs ! i) = bn) xs)"
    "scan_unused (NBUF + 1) bs (bprev (bs ! NBUF)) = Inr (List.find (\<lambda>i. refcnt (bs ! i) = 0) (rev xs))"
proof -
  have l: "linked (\<lambda>i. bnext (bs ! i)) (\<lambda>i. bprev (bs ! i)) (NBUF # xs @ [NBUF])" and n: "NBUF \<notin> set xs"
    using assms by (auto simp: ring_def)
  have "linked (\<lambda>i. bnext (bs ! i)) (\<lambda>i. bprev (bs ! i)) (xs @ [NBUF])"
    using l linked_Cons [of _ _ NBUF "xs @ [NBUF]"] by simp
  from scan_cached_eq [OF this n] show "scan_cached (NBUF + 1) dev bn bs (bnext (bs ! NBUF)) =
      Inr (List.find (\<lambda>i. bdev (bs ! i) = dev \<and> blockno (bs ! i) = bn) xs)"
    using ring_length [OF assms] ring_head [OF assms] by (simp del: scan_cached.simps)
  have "linked (\<lambda>i. bnext (bs ! i)) (\<lambda>i. bprev (bs ! i)) (NBUF # xs)"
    using l linked_snoc [of _ _ "NBUF # xs" NBUF] by simp
  from scan_unused_eq [OF this n] show "scan_unused (NBUF + 1) bs (bprev (bs ! NBUF)) =
      Inr (List.find (\<lambda>i. refcnt (bs ! i) = 0) (rev xs))"
    using ring_length [OF assms] ring_head [OF assms] by (simp del: scan_unused.simps)
qed

end
