(* ===== verification/Bio_Spec.thy ===== *)
theory Bio_Spec
  imports Bio_List
begin

text \<open>
  What the buffer cache promises: its invariant, and its operations as operations on the blocks of
  the root device. \<open>bval s b\<close> is the current content of block \<open>b\<close>, \<open>brefs s b\<close> the number of
  references to its buffer, \<open>bheld s b\<close> says that its buffer is locked.
\<close>

section \<open>Invariant and abstraction\<close>

definition ROOTDEV :: u32 where "ROOTDEV = 1"

definition strip :: "buf \<Rightarrow> buf" where
  "strip x = x\<lparr>bnext := 0, bprev := 0\<rparr>"

lemma strip_simps [simp]:
  "bvalid (strip x) = bvalid x" "bdev (strip x) = bdev x" "blockno (strip x) = blockno x"
  "block_lk (strip x) = block_lk x" "refcnt (strip x) = refcnt x" "bdata (strip x) = bdata x"
  "strip (x\<lparr>bnext := n\<rparr>) = strip x" "strip (x\<lparr>bprev := n\<rparr>) = strip x"
  by (simp_all add: strip_def)

definition buf_ok :: "(u32 \<Rightarrow> block) \<Rightarrow> buf \<Rightarrow> bool" where
  "buf_ok d x \<longleftrightarrow> length (bdata x) = BSIZE \<and> (bdev x = 0 \<or> bdev x = ROOTDEV) \<and>
     (sl_locked (block_lk x) \<longrightarrow> refcnt x \<noteq> 0) \<and> (refcnt x \<noteq> 0 \<longrightarrow> bvalid x \<and> bdev x = ROOTDEV) \<and>
     (bdev x = ROOTDEV \<and> bvalid x \<and> refcnt x = 0 \<longrightarrow> bdata x = d (blockno x))"

definition holds :: "'a bkernel_scheme \<Rightarrow> nat \<Rightarrow> u32 \<Rightarrow> bool" where
  "holds s i b \<longleftrightarrow> i < NBUF \<and> bdev (buf_at s i) = ROOTDEV \<and> blockno (buf_at s i) = b"

definition bc_inv :: "'a bkernel_scheme \<Rightarrow> bool" where
  "bc_inv s \<longleftrightarrow> (\<exists>xs. ring (bufs_of s) xs \<and> set xs = {..<NBUF}) \<and> (\<forall>b. length (disk s b) = BSIZE) \<and>
     (\<forall>i < NBUF. buf_ok (disk s) (buf_at s i)) \<and> (\<forall>i j b. holds s i b \<and> holds s j b \<longrightarrow> i = j) \<and>
     cur s < length (procs s)"

definition bslot :: "'a bkernel_scheme \<Rightarrow> u32 \<Rightarrow> buf option" where
  "bslot s b = map_option (\<lambda>i. strip (buf_at s i))
     (List.find (\<lambda>i. bdev (buf_at s i) = ROOTDEV \<and> blockno (buf_at s i) = b) [0..<NBUF])"

definition bval :: "'a bkernel_scheme \<Rightarrow> u32 \<Rightarrow> block" where
  "bval s b = (case bslot s b of Some x \<Rightarrow> if bvalid x then bdata x else disk s b | None \<Rightarrow> disk s b)"

definition brefs :: "'a bkernel_scheme \<Rightarrow> u32 \<Rightarrow> nat" where
  "brefs s b = (case bslot s b of Some x \<Rightarrow> unat (refcnt x) | None \<Rightarrow> 0)"

definition bheld :: "'a bkernel_scheme \<Rightarrow> u32 \<Rightarrow> bool" where
  "bheld s b = (case bslot s b of Some x \<Rightarrow> sl_locked (block_lk x) | None \<Rightarrow> False)"

definition bfree_buf :: "'a bkernel_scheme \<Rightarrow> bool" where
  "bfree_buf s \<longleftrightarrow> (\<exists>i < NBUF. refcnt (buf_at s i) = 0)"

lemma bc_uniq: "bc_inv s \<Longrightarrow> holds s i b \<Longrightarrow> holds s j b \<Longrightarrow> i = j"
  unfolding bc_inv_def by blast

lemma bc_buf_ok: "bc_inv s \<Longrightarrow> i < NBUF \<Longrightarrow> buf_ok (disk s) (buf_at s i)"
  unfolding bc_inv_def by blast

lemma bc_disk: "bc_inv s \<Longrightarrow> length (disk s b) = BSIZE"
  unfolding bc_inv_def by blast

lemma bslot_Some:
  assumes "bc_inv s" "holds s i b" shows "bslot s b = Some (strip (buf_at s i))"
proof -
  have "List.find (\<lambda>i. bdev (buf_at s i) = ROOTDEV \<and> blockno (buf_at s i) = b) [0..<NBUF] = Some i"
    unfolding find_Some_iff
  proof (intro exI [of _ i] conjI allI impI notI)
    fix j assume "j < i" "bdev (buf_at s ([0..<NBUF] ! j)) = ROOTDEV \<and> blockno (buf_at s ([0..<NBUF] ! j)) = b"
    then have "holds s j b" using assms(2) by (simp add: holds_def)
    then show False using bc_uniq [OF assms] \<open>j < i\<close> by auto
  qed (use assms(2) in \<open>auto simp: holds_def\<close>)
  then show ?thesis by (simp add: bslot_def)
qed

lemma bslot_None: "(\<And>i. \<not> holds s i b) \<Longrightarrow> bslot s b = None"
  by (auto simp: bslot_def find_None_iff holds_def)

lemma bslot_cases:
  assumes "bc_inv s"
  obtains i where "holds s i b" "bslot s b = Some (strip (buf_at s i))" | "\<And>i. \<not> holds s i b" "bslot s b = None"
  using bslot_Some [OF assms, of _ b] bslot_None [of s b] by (cases "\<exists>i. holds s i b") auto

lemma brefs_0_clean:
  assumes "bc_inv s" "brefs s b = 0" shows "bval s b = disk s b" "\<not> bheld s b"
proof -
  have "bval s b = disk s b \<and> \<not> bheld s b"
  proof (rule bslot_cases [OF assms(1), of b])
    fix i assume i: "holds s i b" "bslot s b = Some (strip (buf_at s i))"
    then have "buf_ok (disk s) (buf_at s i)" using assms(1) by (simp add: bc_inv_def holds_def)
    moreover have "refcnt (buf_at s i) = 0" using assms(2) i by (simp add: brefs_def unat_eq_zero)
    ultimately show ?thesis using i by (auto simp: bval_def bheld_def buf_ok_def holds_def)
  qed (simp add: bval_def bheld_def)
  then show "bval s b = disk s b" "\<not> bheld s b" by auto
qed

lemma length_bval: "bc_inv s \<Longrightarrow> length (bval s b) = BSIZE"
  by (rule bslot_cases [of s b]) (auto simp: bval_def buf_ok_def holds_def bc_disk dest: bc_buf_ok)

section \<open>Updates of one buffer\<close>

lemma upd_buf_fields [simp]:
  "disk (upd_buf i f s) = disk s" "dwrites (upd_buf i f s) = dwrites s" "procs (upd_buf i f s) = procs s"
  "cur (upd_buf i f s) = cur s" "kver (upd_buf i f s) = kver s"
  by (simp_all add: upd_buf_def)

lemma bc_len: "bc_inv s \<Longrightarrow> length (bufs_of s) = NBUF + 1"
  by (auto simp: bc_inv_def ring_def)

lemma holds_upd:
  assumes "length (bufs_of s) = NBUF + 1" "i < NBUF" "f (buf_at s i) = x"
  shows "holds (upd_buf i f s) j b \<longleftrightarrow> (if j = i then bdev x = ROOTDEV \<and> blockno x = b else holds s j b)"
  using assms by (auto simp: holds_def)

lemma bc_inv_upd:
  assumes "bc_inv s" "i < NBUF" "f (buf_at s i) = x" "bnext x = bnext (buf_at s i)" "bprev x = bprev (buf_at s i)"
    "buf_ok (disk s) x" "\<And>j. j \<noteq> i \<Longrightarrow> bdev x = ROOTDEV \<Longrightarrow> \<not> holds s j (blockno x)"
  shows "bc_inv (upd_buf i f s)"
proof -
  have len: "length (bufs_of s) = NBUF + 1" using bc_len [OF assms(1)] .
  obtain xs where xs: "ring (bufs_of s) xs" "set xs = {..<NBUF}" using assms(1) by (auto simp: bc_inv_def)
  have "ring (bufs_of (upd_buf i f s)) xs"
  proof (subst ring_cong [of _ "bufs_of s"])
    fix j show "bnext (buf_at (upd_buf i f s) j) = bnext (buf_at s j) \<and> bprev (buf_at (upd_buf i f s) j) = bprev (buf_at s j)"
      using assms(2-5) len by (cases "j = i") auto
  qed (use xs(1) in auto)
  moreover have "\<forall>j < NBUF. buf_ok (disk s) (buf_at (upd_buf i f s) j)"
  proof (intro allI impI)
    fix j assume "j < NBUF"
    then show "buf_ok (disk s) (buf_at (upd_buf i f s) j)"
      using bc_buf_ok [OF assms(1), of j] assms(3,6) len by (cases "j = i") auto
  qed
  moreover have "j = k" if "holds (upd_buf i f s) j b" "holds (upd_buf i f s) k b" for j k b
  proof (cases "j = i \<or> k = i")
    case True
    then show ?thesis using that assms(7) unfolding holds_upd [where f = f and x = x, OF len assms(2,3)] by (auto split: if_splits)
  next
    case False
    then show ?thesis using that bc_uniq [OF assms(1)] unfolding holds_upd [where f = f and x = x, OF len assms(2,3)] by auto
  qed
  ultimately show ?thesis using assms(1) xs(2) by (auto simp: bc_inv_def)
qed

lemma bslot_upd:
  assumes "bc_inv s" "bc_inv (upd_buf i f s)" "i < NBUF" "f (buf_at s i) = x" "bdev x = ROOTDEV"
  shows "bslot (upd_buf i f s) b =
    (if b = blockno x then Some (strip x) else if holds s i b then None else bslot s b)"
proof -
  have len: "length (bufs_of s) = NBUF + 1" using bc_len [OF assms(1)] .
  note h = holds_upd [where f = f and x = x, OF len assms(3,4)]
  show ?thesis
  proof (rule bslot_cases [OF assms(2), of b])
    fix j assume j: "holds (upd_buf i f s) j b" "bslot (upd_buf i f s) b = Some (strip (buf_at (upd_buf i f s) j))"
    show ?thesis
    proof (cases "j = i")
      case True
      then show ?thesis using j assms(3-5) len unfolding h by simp
    next
      case False
      then have "holds s j b" using j(1) unfolding h by simp
      moreover have "b \<noteq> blockno x" using bc_uniq [OF assms(2) j(1), of i] assms(5) h [of i b] False by auto
      moreover have "\<not> holds s i b" using bc_uniq [OF assms(1) \<open>holds s j b\<close>, of i] False by auto
      ultimately show ?thesis using j(2) False bslot_Some [OF assms(1)] by simp
    qed
  next
    assume n: "\<And>j. \<not> holds (upd_buf i f s) j b" "bslot (upd_buf i f s) b = None"
    then have "b \<noteq> blockno x" using h [of i b] assms(5) by auto
    moreover have "\<not> holds s j b" if "j \<noteq> i" for j using n(1) [of j] h [of j b] that by simp
    ultimately show ?thesis using n(2) bslot_None [of s b] by metis
  qed
qed

section \<open>The operations on blocks\<close>

definition locked_by :: "'a bkernel_scheme \<Rightarrow> nat \<Rightarrow> u32 \<Rightarrow> bool" where
  "locked_by s i b \<longleftrightarrow> holds s i b \<and> block_lk (buf_at s i) = \<lparr>sl_locked = True, sl_pid = mypid s\<rparr>"

definition busy :: "'a bkernel_scheme \<Rightarrow> u32 set" where
  "busy s = {b. brefs s b \<noteq> 0}"

text \<open>The abstract state after an operation on block \<open>b\<close>: content, references and lock of \<open>b\<close>.\<close>

definition bstate :: "'a bkernel_scheme \<Rightarrow> u32 \<Rightarrow> block \<Rightarrow> nat \<Rightarrow> bool \<Rightarrow> 'a bkernel_scheme \<Rightarrow> bool" where
  "bstate s b d r h s' \<longleftrightarrow> bc_inv s' \<and> bval s' = (bval s)(b := d) \<and> brefs s' = (brefs s)(b := r) \<and>
     bheld s' = (bheld s)(b := h) \<and> (\<forall>j c. locked_by s j c \<and> c \<noteq> b \<longrightarrow> locked_by s' j c)"

lemma mypid_upd_buf [simp]: "mypid (upd_buf i f s) = mypid s"
  by (simp add: mypid_def)

lemma busy_holds: "b \<in> busy s \<Longrightarrow> \<exists>i. holds s i b"
  using bslot_None [of s b] by (cases "\<exists>i. holds s i b") (auto simp: busy_def brefs_def)

lemma finite_busy [simp]: "finite (busy s)"
proof (rule finite_subset)
  show "busy s \<subseteq> (\<lambda>i. blockno (buf_at s i)) ` {..<NBUF}"
  proof
    fix b assume "b \<in> busy s"
    then obtain i where "holds s i b" using busy_holds by blast
    then show "b \<in> (\<lambda>i. blockno (buf_at s i)) ` {..<NBUF}" by (auto simp: holds_def)
  qed
qed simp

lemma free_buffer:
  assumes "bc_inv s" "card (busy s) < NBUF" shows "\<exists>i < NBUF. refcnt (buf_at s i) = 0"
proof (rule ccontr)
  assume "\<not> ?thesis"
  then have nz: "refcnt (buf_at s i) \<noteq> 0" if "i < NBUF" for i using that by blast
  have h: "holds s i (blockno (buf_at s i))" if "i < NBUF" for i
    using bc_buf_ok [OF assms(1) that] nz [OF that] that by (simp add: buf_ok_def holds_def)
  have "inj_on (\<lambda>i. blockno (buf_at s i)) {..<NBUF}"
    using h bc_uniq [OF assms(1)] by (intro inj_onI) (metis lessThan_iff)
  moreover have "blockno (buf_at s i) \<in> busy s" if "i < NBUF" for i
    using bslot_Some [OF assms(1) h [OF that]] nz [OF that] unat_eq_zero [of "refcnt (buf_at s i)"]
    by (simp add: busy_def brefs_def)
  then have "(\<lambda>i. blockno (buf_at s i)) ` {..<NBUF} \<subseteq> busy s" by auto
  moreover have "finite (busy s)" by (rule finite_busy)
  ultimately have "NBUF \<le> card (busy s)" by (metis card_image card_lessThan card_mono)
  then show False using assms(2) by simp
qed

lemma bstate_upd:
  assumes "bc_inv s" "i < NBUF" "f (buf_at s i) = x" "bnext x = bnext (buf_at s i)" "bprev x = bprev (buf_at s i)"
    "buf_ok (disk s) x" "bdev x = ROOTDEV" "bvalid x" "holds s i (blockno x) \<or> refcnt (buf_at s i) = 0 \<and> (\<forall>j. \<not> holds s j (blockno x))"
  shows "bstate s (blockno x) (bdata x) (unat (refcnt x)) (sl_locked (block_lk x)) (upd_buf i f s)"
proof -
  have only: "\<not> holds s j (blockno x)" if "j \<noteq> i" for j using assms(9) bc_uniq [OF assms(1)] that by blast
  have inv: "bc_inv (upd_buf i f s)" using bc_inv_upd [where f = f and x = x, OF assms(1-6)] only by blast
  note sl = bslot_upd [where f = f and x = x, OF assms(1) inv assms(2,3,7)]
  have idle: "brefs s c = 0" if "holds s i c" "c \<noteq> blockno x" for c
  proof -
    have "\<not> holds s i (blockno x)" using that by (auto simp: holds_def)
    then have "refcnt (buf_at s i) = 0" using assms(9) by blast
    then show ?thesis using bslot_Some [OF assms(1) that(1)] by (simp add: brefs_def)
  qed
  have same: "bval (upd_buf i f s) c = bval s c \<and> brefs (upd_buf i f s) c = brefs s c \<and> bheld (upd_buf i f s) c = bheld s c"
    if c: "c \<noteq> blockno x" for c
  proof (cases "holds s i c")
    case True
    then have "bslot (upd_buf i f s) c = None" using sl [of c] c by simp
    moreover have "brefs s c = 0" "bval s c = disk s c" "\<not> bheld s c"
      using idle [OF True c] brefs_0_clean [OF assms(1)] by auto
    ultimately show ?thesis by (simp add: bval_def [of "upd_buf i f s"] brefs_def [of "upd_buf i f s"] bheld_def [of "upd_buf i f s"])
  next
    case False
    then have "bslot (upd_buf i f s) c = bslot s c" using sl [of c] c by simp
    then show ?thesis by (simp add: bval_def brefs_def bheld_def split: option.splits)
  qed
  moreover have "locked_by (upd_buf i f s) j c" if "locked_by s j c" "c \<noteq> blockno x" for j c
  proof -
    have "j \<noteq> i"
    proof
      assume "j = i"
      then have "brefs s c = 0" using that idle by (simp add: locked_by_def)
      then have "\<not> bheld s c" using brefs_0_clean [OF assms(1)] by blast
      then show False using that(1) bslot_Some [OF assms(1)] by (auto simp: locked_by_def bheld_def)
    qed
    then show ?thesis using that holds_upd [where f = f and x = x, OF bc_len [OF assms(1)] assms(2,3)] bc_len [OF assms(1)]
      by (simp add: locked_by_def)
  qed
  moreover have "bval (upd_buf i f s) (blockno x) = bdata x" "brefs (upd_buf i f s) (blockno x) = unat (refcnt x)"
    "bheld (upd_buf i f s) (blockno x) = sl_locked (block_lk x)"
    using sl [of "blockno x"] assms(8) by (simp_all add: bval_def brefs_def bheld_def)
  ultimately show ?thesis using inv same by (simp add: bstate_def fun_eq_iff)
qed

lemma locked_mono: "bstate s b d r h s' \<Longrightarrow> locked_by s j c \<Longrightarrow> c \<noteq> b \<Longrightarrow> locked_by s' j c"
  by (auto simp: bstate_def)

lemma locked_bval: "bc_inv s \<Longrightarrow> locked_by s i b \<Longrightarrow> bdata (buf_at s i) = bval s b \<and> bheld s b \<and> brefs s b \<noteq> 0"
proof -
  assume a: "bc_inv s" "locked_by s i b"
  then have h: "holds s i b" "sl_locked (block_lk (buf_at s i))" by (auto simp: locked_by_def)
  then have "buf_ok (disk s) (buf_at s i)" using bc_buf_ok [OF a(1), of i] by (simp add: holds_def)
  then have "refcnt (buf_at s i) \<noteq> 0 \<and> bvalid (buf_at s i)" using h(2) by (simp add: buf_ok_def)
  then show ?thesis using bslot_Some [OF a(1) h(1)] h(2) unat_eq_zero [of "refcnt (buf_at s i)"]
    by (simp add: bval_def brefs_def bheld_def)
qed

lemma unat_u32: "k < 2 ^ 32 \<Longrightarrow> unat (of_nat k :: u32) = k"
  by (simp add: unat_of_nat)

lemma find_in: "List.find P xs = Some i \<Longrightarrow> P i \<and> i \<in> set xs"
  by (auto simp: find_Some_iff)

lemma find_unique:
  assumes "P i" "i \<in> set xs" "\<And>j. j \<in> set xs \<Longrightarrow> P j \<Longrightarrow> j = i" shows "List.find P xs = Some i"
proof (cases "List.find P xs")
  case None
  then show ?thesis using assms(1,2) by (simp add: find_None_iff)
next
  case (Some j)
  then show ?thesis using assms(3) find_in by metis
qed

lemma slock_taken [simp]: "(lk :: sleeplock)\<lparr>sl_locked := b, sl_pid := p\<rparr> = \<lparr>sl_locked = b, sl_pid = p\<rparr>"
  by (cases lk) simp

text \<open>\<^verbatim>\<open>bget\<close> followed by the read: the buffer that ends up holding the block.\<close>

definition got :: "'a bkernel_scheme \<Rightarrow> u32 \<Rightarrow> buf \<Rightarrow> buf" where
  "got s b x = x\<lparr>bdev := ROOTDEV, blockno := b, bvalid := True, bdata := bval s b,
     refcnt := of_nat (brefs s b + 1), block_lk := \<lparr>sl_locked = True, sl_pid = mypid s\<rparr>\<rparr>"

lemma lock_buf_free:
  "\<not> sl_locked (block_lk (buf_at s i)) \<Longrightarrow> i < length (bufs_of s) \<Longrightarrow>
    lock_buf i s = Inr (i, upd_buf i (\<lambda>x. x\<lparr>block_lk := \<lparr>sl_locked = True, sl_pid = mypid s\<rparr>\<rparr>) s)"
  by (simp add: lock_buf_def acquiresleep_def upd_buf_lk_def upd_buf_def)

lemma upd_buf_twice: "i < length (bufs_of s) \<Longrightarrow> upd_buf i g (upd_buf i f s) = upd_buf i (\<lambda>x. g (f x)) s"
  by (simp add: upd_buf_def)

lemma upd_buf_cong: "f (buf_at s i) = g (buf_at s i) \<Longrightarrow> upd_buf i f s = upd_buf i g s"
  by (simp add: upd_buf_def)

lemma bread_cached:
  assumes "bc_inv s" "holds s i b" "\<not> bheld s b"
  shows "bread ROOTDEV b s = Inr (i, upd_buf i (got s b) s)"
proof -
  let ?x = "buf_at s i"
  obtain xs where xs: "ring (bufs_of s) xs" "set xs = {..<NBUF}" using assms(1) by (auto simp: bc_inv_def)
  have i: "i < NBUF" "bdev ?x = ROOTDEV" "blockno ?x = b" "i < length (bufs_of s)"
    using assms(2) bc_len [OF assms(1)] by (auto simp: holds_def)
  have "List.find (\<lambda>i. bdev (buf_at s i) = ROOTDEV \<and> blockno (buf_at s i) = b) xs = Some i"
  proof (rule find_unique)
    fix j assume "j \<in> set xs" "bdev (buf_at s j) = ROOTDEV \<and> blockno (buf_at s j) = b"
    then show "j = i" using bc_uniq [OF assms(1) _ assms(2)] xs(2) by (auto simp: holds_def)
  qed (use i xs(2) in auto)
  then have sc: "scan_cached (NBUF + 1) ROOTDEV b (bufs_of s) (bnext (buf_at s NBUF)) = Inr (Some i)"
    using ring_scans(1) [OF xs(1)] by simp
  note sl = bslot_Some [OF assms(1,2)]
  have unl: "\<not> sl_locked (block_lk ?x)" using assms(3) sl by (simp add: bheld_def)
  have g: "bget ROOTDEV b s = Inr (i, upd_buf i (\<lambda>x. x\<lparr>refcnt := refcnt x + 1,
      block_lk := \<lparr>sl_locked = True, sl_pid = mypid s\<rparr>\<rparr>) s)"
    unfolding bget_def sc using unl i(4) by (simp add: lock_buf_free upd_buf_twice)
  have rc: "of_nat (brefs s b + 1) = refcnt ?x + 1" using sl by (simp add: brefs_def)
  show ?thesis
  proof (cases "bvalid ?x")
    case True
    then have "bread ROOTDEV b s = Inr (i, upd_buf i (\<lambda>x. x\<lparr>refcnt := refcnt x + 1,
        block_lk := \<lparr>sl_locked = True, sl_pid = mypid s\<rparr>\<rparr>) s)"
      unfolding bread_def g using i(4) by simp
    moreover have "got s b ?x = ?x\<lparr>refcnt := refcnt ?x + 1, block_lk := \<lparr>sl_locked = True, sl_pid = mypid s\<rparr>\<rparr>"
      using True sl i(2,3) rc by (simp add: got_def bval_def)
    ultimately show ?thesis by (simp add: upd_buf_def)
  next
    case False
    then have "bread ROOTDEV b s = Inr (i, upd_buf i (\<lambda>x. x\<lparr>refcnt := refcnt x + 1,
        block_lk := \<lparr>sl_locked = True, sl_pid = mypid s\<rparr>, bdata := disk s (blockno x), bvalid := True\<rparr>) s)"
      unfolding bread_def g using i(4) by (simp add: disk_read_def upd_buf_twice)
    moreover have "got s b ?x = ?x\<lparr>refcnt := refcnt ?x + 1, block_lk := \<lparr>sl_locked = True, sl_pid = mypid s\<rparr>,
        bdata := disk s (blockno ?x), bvalid := True\<rparr>"
      using False sl i(2,3) rc by (simp add: got_def bval_def)
    ultimately show ?thesis by (simp add: upd_buf_def)
  qed
qed

lemma bread_recycled:
  assumes "bc_inv s" "\<And>i. \<not> holds s i b" "card (busy s) < NBUF"
  shows "\<exists>i < NBUF. refcnt (buf_at s i) = 0 \<and> bread ROOTDEV b s = Inr (i, upd_buf i (got s b) s)"
proof -
  obtain xs where xs: "ring (bufs_of s) xs" "set xs = {..<NBUF}" using assms(1) by (auto simp: bc_inv_def)
  have "List.find (\<lambda>i. bdev (buf_at s i) = ROOTDEV \<and> blockno (buf_at s i) = b) xs = None"
    using assms(2) xs(2) by (auto simp: find_None_iff holds_def)
  then have sc: "scan_cached (NBUF + 1) ROOTDEV b (bufs_of s) (bnext (buf_at s NBUF)) = Inr None"
    using ring_scans(1) [OF xs(1)] by simp
  have "\<exists>j \<in> set (rev xs). refcnt (buf_at s j) = 0" using free_buffer [OF assms(1,3)] xs(2) by auto
  then obtain i where f: "List.find (\<lambda>i. refcnt (buf_at s i) = 0) (rev xs) = Some i"
    using find_None_iff [of "\<lambda>i. refcnt (buf_at s i) = 0" "rev xs"]
    by (cases "List.find (\<lambda>i. refcnt (buf_at s i) = 0) (rev xs)") auto
  then have i: "i < NBUF" "refcnt (buf_at s i) = 0" using find_in [OF f] xs(2) by auto
  have len: "i < length (bufs_of s)" using i bc_len [OF assms(1)] by simp
  have su: "scan_unused (NBUF + 1) (bufs_of s) (bprev (buf_at s NBUF)) = Inr (Some i)"
    using ring_scans(2) [OF xs(1)] f by simp
  have unl: "\<not> sl_locked (block_lk (buf_at s i))" using bc_buf_ok [OF assms(1) i(1)] i(2) by (simp add: buf_ok_def)
  have "bget ROOTDEV b s = Inr (i, upd_buf i (\<lambda>x. x\<lparr>bdev := ROOTDEV, blockno := b, bvalid := False, refcnt := 1,
      block_lk := \<lparr>sl_locked = True, sl_pid = mypid s\<rparr>\<rparr>) s)"
    unfolding bget_def sc su using unl len by (simp add: su lock_buf_free upd_buf_twice del: scan_unused.simps)
  then have "bread ROOTDEV b s = Inr (i, upd_buf i (\<lambda>x. x\<lparr>bdev := ROOTDEV, blockno := b, bvalid := False, refcnt := 1,
      block_lk := \<lparr>sl_locked = True, sl_pid = mypid s\<rparr>, bdata := disk s b, bvalid := True\<rparr>) s)"
    using len by (simp add: bread_def disk_read_def upd_buf_twice)
  moreover have "bslot s b = None" by (rule bslot_None [OF assms(2)])
  then have "got s b x = x\<lparr>bdev := ROOTDEV, blockno := b, bvalid := False, refcnt := 1,
      block_lk := \<lparr>sl_locked = True, sl_pid = mypid s\<rparr>, bdata := disk s b, bvalid := True\<rparr>" for x
    by (intro buf.equality) (simp_all add: got_def bval_def brefs_def)
  ultimately have "bread ROOTDEV b s = Inr (i, upd_buf i (got s b) s)" by (simp add: upd_buf_def)
  then show ?thesis using i by blast
qed

text \<open>\<^verbatim>\<open>bread\<close>: the block's buffer, locked, with one more reference and the current content.\<close>

lemma bread_ok:
  assumes "bc_inv s" "\<not> bheld s b" "brefs s b \<noteq> 0 \<or> card (busy s) < NBUF" "brefs s b + 1 < 2 ^ 32"
  shows "\<exists>i f. bread ROOTDEV b s = Inr (i, upd_buf i f s) \<and> bstate s b (bval s b) (brefs s b + 1) True (upd_buf i f s) \<and>
    locked_by (upd_buf i f s) i b"
proof -
  have "\<exists>i < NBUF. bread ROOTDEV b s = Inr (i, upd_buf i (got s b) s) \<and>
      (holds s i b \<or> refcnt (buf_at s i) = 0 \<and> (\<forall>j. \<not> holds s j b))"
  proof (rule bslot_cases [OF assms(1), of b])
    fix i assume "holds s i b"
    then show ?thesis using bread_cached [OF assms(1) _ assms(2)] by (auto simp: holds_def)
  next
    assume n: "\<And>i. \<not> holds s i b" "bslot s b = None"
    then have "card (busy s) < NBUF" using assms(3) by (simp add: brefs_def)
    then show ?thesis using bread_recycled [OF assms(1) n(1)] n(1) by blast
  qed
  then obtain i where i: "i < NBUF" "bread ROOTDEV b s = Inr (i, upd_buf i (got s b) s)"
    "holds s i b \<or> refcnt (buf_at s i) = 0 \<and> (\<forall>j. \<not> holds s j b)" by blast
  let ?x = "got s b (buf_at s i)"
  have un: "unat (of_nat (brefs s b + 1) :: u32) = brefs s b + 1"
    using assms(4) by (intro unat_u32)
  then have nz: "(of_nat (brefs s b + 1) :: u32) \<noteq> 0" by (metis add_is_0 one_neq_zero unat_0)
  have "buf_ok (disk s) ?x" using length_bval [OF assms(1)] nz by (simp add: buf_ok_def got_def)
  then have "bstate s (blockno ?x) (bdata ?x) (unat (refcnt ?x)) (sl_locked (block_lk ?x)) (upd_buf i (got s b) s)"
    using i(3) by (intro bstate_upd [OF assms(1) i(1) refl]) (simp_all add: got_def)
  then have "bstate s b (bval s b) (brefs s b + 1) True (upd_buf i (got s b) s)" using un by (simp add: got_def)
  moreover have "locked_by (upd_buf i (got s b) s) i b"
    using i(1) bc_len [OF assms(1)] by (simp add: locked_by_def holds_def got_def)
  ultimately show ?thesis using i(2) by blast
qed

text \<open>\<^verbatim>\<open>bwrite\<close>: the block's content goes to the disk.\<close>

definition wr_disk :: "u32 \<Rightarrow> block \<Rightarrow> 'a bkernel_scheme \<Rightarrow> 'a bkernel_scheme" where
  "wr_disk b d s = s\<lparr>disk := (disk s)(b := d), dwrites := dwrites s @ [(b, d)]\<rparr>"

lemma wr_disk_fields [simp]:
  "bufs_of (wr_disk b d s) = bufs_of s" "procs (wr_disk b d s) = procs s" "mypid (wr_disk b d s) = mypid s"
  "cur (wr_disk b d s) = cur s" "kver (wr_disk b d s) = kver s"
  "disk (wr_disk b d s) = (disk s)(b := d)" "dwrites (wr_disk b d s) = dwrites s @ [(b, d)]"
  "holds (wr_disk b d s) = holds s" "bslot (wr_disk b d s) = bslot s"
  by (simp_all add: wr_disk_def mypid_def fun_eq_iff holds_def bslot_def)

lemma bwrite_ok:
  assumes "bc_inv s" "locked_by s i b"
  shows "bwrite i s = Inr (wr_disk b (bval s b) s) \<and> bstate s b (bval s b) (brefs s b) True (wr_disk b (bval s b) s) \<and>
    locked_by (wr_disk b (bval s b) s) i b"
proof -
  note lv = locked_bval [OF assms]
  have h: "holds s i b" "block_lk (buf_at s i) = \<lparr>sl_locked = True, sl_pid = mypid s\<rparr>"
    using assms(2) by (auto simp: locked_by_def)
  have w: "bwrite i s = Inr (wr_disk b (bval s b) s)"
    using h lv by (simp add: bwrite_def holdingsleep_def disk_write_def wr_disk_def holds_def Let_def)
  have "buf_ok ((disk s)(b := bval s b)) (buf_at s j)" if "j < NBUF" for j
  proof (cases "holds s j b")
    case True
    then have "j = i" using bc_uniq [OF assms(1) _ h(1)] by blast
    then show ?thesis using bc_buf_ok [OF assms(1) that] lv h(1) by (auto simp: buf_ok_def holds_def)
  next
    case False
    then show ?thesis using bc_buf_ok [OF assms(1) that] that by (auto simp: buf_ok_def holds_def)
  qed
  then have inv: "bc_inv (wr_disk b (bval s b) s)"
    using assms(1) length_bval [OF assms(1)] unfolding bc_inv_def by simp
  have "bval (wr_disk b (bval s b) s) c = bval s c" for c
    by (cases "c = b") (auto simp: bval_def split: option.splits)
  then have "bstate s b (bval s b) (brefs s b) True (wr_disk b (bval s b) s)"
    using inv lv by (auto simp: bstate_def fun_eq_iff brefs_def bheld_def locked_by_def)
  then show ?thesis using w assms(2) by (simp add: locked_by_def)
qed

text \<open>Stores into a locked buffer, \<^verbatim>\<open>bpin\<close> and \<^verbatim>\<open>bunpin\<close>.\<close>

lemma set_bdata_ok:
  assumes "bc_inv s" "locked_by s i b" "length d = BSIZE"
  shows "bstate s b d (brefs s b) True (set_bdata i d s) \<and> locked_by (set_bdata i d s) i b"
proof -
  have h: "holds s i b" "block_lk (buf_at s i) = \<lparr>sl_locked = True, sl_pid = mypid s\<rparr>"
    using assms(2) by (auto simp: locked_by_def)
  have i: "i < NBUF" "blockno (buf_at s i) = b" "bdev (buf_at s i) = ROOTDEV" using h(1) by (auto simp: holds_def)
  let ?x = "(buf_at s i)\<lparr>bdata := d\<rparr>"
  have ok: "buf_ok (disk s) (buf_at s i)" by (rule bc_buf_ok [OF assms(1) i(1)])
  then have ok': "buf_ok (disk s) ?x" "bvalid ?x" using assms(3) h(2) by (auto simp: buf_ok_def)
  have "bstate s (blockno ?x) (bdata ?x) (unat (refcnt ?x)) (sl_locked (block_lk ?x)) (upd_buf i (\<lambda>x. x\<lparr>bdata := d\<rparr>) s)"
    by (rule bstate_upd [OF assms(1) i(1) refl]) (use ok' i h in auto)
  then show ?thesis using i h bslot_Some [OF assms(1) h(1)] bc_len [OF assms(1)]
    by (simp add: set_bdata_def brefs_def locked_by_def holds_def)
qed

lemma refs_ok:
  assumes "bc_inv s" "locked_by s i b" "r < 2 ^ 32" "r \<noteq> 0" "f (buf_at s i) = (buf_at s i)\<lparr>refcnt := of_nat r\<rparr>"
  shows "bstate s b (bval s b) r True (upd_buf i f s) \<and> locked_by (upd_buf i f s) i b"
proof -
  have h: "holds s i b" "block_lk (buf_at s i) = \<lparr>sl_locked = True, sl_pid = mypid s\<rparr>"
    using assms(2) by (auto simp: locked_by_def)
  have i: "i < NBUF" "blockno (buf_at s i) = b" "bdev (buf_at s i) = ROOTDEV" using h(1) by (auto simp: holds_def)
  let ?x = "(buf_at s i)\<lparr>refcnt := of_nat r\<rparr>"
  have nz: "(of_nat r :: u32) \<noteq> 0" using assms(3,4) unat_u32 by (metis unat_0)
  have ok: "buf_ok (disk s) (buf_at s i)" by (rule bc_buf_ok [OF assms(1) i(1)])
  then have ok': "buf_ok (disk s) ?x" "bvalid ?x" using nz h(2) by (auto simp: buf_ok_def)
  have "bstate s (blockno ?x) (bdata ?x) (unat (refcnt ?x)) (sl_locked (block_lk ?x)) (upd_buf i f s)"
    by (rule bstate_upd [where f = f and x = ?x, OF assms(1) i(1) assms(5)]) (use ok' i h in auto)
  then show ?thesis using i h assms(3,5) locked_bval [OF assms(1,2)] bc_len [OF assms(1)]
    by (simp add: unat_u32 locked_by_def holds_def)
qed

text \<open>Changes of the links, and of the process table.\<close>

lemma strip_same:
  assumes "bc_inv s" "map strip (bufs_of s') = map strip (bufs_of s)" "disk s' = disk s" "mypid s' = mypid s"
    "ring (bufs_of s') xs" "set xs = {..<NBUF}" "cur s' < length (procs s')"
  shows "bc_inv s' \<and> bval s' = bval s \<and> brefs s' = brefs s \<and> bheld s' = bheld s \<and>
    (\<forall>j c. locked_by s' j c \<longleftrightarrow> locked_by s j c)"
proof -
  have e: "strip (buf_at s' i) = strip (buf_at s i)" if "i < NBUF" for i
    using arg_cong [OF assms(2), of "\<lambda>l. l ! i"] that assms(5) bc_len [OF assms(1)] by (simp add: ring_def)
  have f: "bdev (buf_at s' i) = bdev (buf_at s i)" "blockno (buf_at s' i) = blockno (buf_at s i)"
    "block_lk (buf_at s' i) = block_lk (buf_at s i)" "refcnt (buf_at s' i) = refcnt (buf_at s i)"
    "bvalid (buf_at s' i) = bvalid (buf_at s i)" "bdata (buf_at s' i) = bdata (buf_at s i)" if "i < NBUF" for i
    using e [OF that] by (metis strip_simps(2), metis strip_simps(3), metis strip_simps(4), metis strip_simps(5),
        metis strip_simps(1), metis strip_simps(6))
  have h: "holds s' i b \<longleftrightarrow> holds s i b" for i b by (cases "i < NBUF") (simp_all add: holds_def f)
  have "buf_ok (disk s) (buf_at s' i)" if "i < NBUF" for i
    using bc_buf_ok [OF assms(1) that] f [OF that] by (simp add: buf_ok_def)
  then have inv: "bc_inv s'" using assms(1,3,5-7) h unfolding bc_inv_def by auto
  have sl: "bslot s' b = bslot s b" for b
  proof (rule bslot_cases [OF inv, of b])
    fix i assume i: "holds s' i b" "bslot s' b = Some (strip (buf_at s' i))"
    then have "i < NBUF" by (simp add: holds_def)
    then show ?thesis using i bslot_Some [OF assms(1), of i b] h e by simp
  next
    assume "\<And>i. \<not> holds s' i b" "bslot s' b = None"
    then show ?thesis using bslot_None [of s b] h by simp
  qed
  have "locked_by s' j c \<longleftrightarrow> locked_by s j c" for j c
    using f(3) [of j] h [of j c] assms(4) by (auto simp: locked_by_def holds_def)
  then show ?thesis using inv sl assms(3) by (simp add: bval_def brefs_def bheld_def fun_eq_iff split: option.splits)
qed

lemma strip_upd: "(\<And>x. strip (f x) = strip x) \<Longrightarrow> map strip (bufs_of (upd_buf i f s)) = map strip (bufs_of s)"
  by (cases "i < length (bufs_of s)") (auto simp: map_update list_update_same_conv list_update_beyond)

lemma strip_moves:
  "map strip (bufs_of (list_push b s)) = map strip (bufs_of s)"
  "map strip (bufs_of (list_unlink b s)) = map strip (bufs_of s)"
  unfolding list_push_def list_unlink_def Let_def by (simp_all only: strip_upd strip_simps)

lemma link_frame:
  "list_push b s = s\<lparr>bufs_of := bufs_of (list_push b s)\<rparr>" "list_unlink b s = s\<lparr>bufs_of := bufs_of (list_unlink b s)\<rparr>"
  by (simp_all add: list_push_def list_unlink_def upd_buf_def Let_def)

lemma to_front:
  assumes "bc_inv s" "i < NBUF"
  shows "\<exists>bs. list_push i (list_unlink i s) = s\<lparr>bufs_of := bs\<rparr> \<and> map strip bs = map strip (bufs_of s) \<and>
    (\<exists>xs. ring bs xs \<and> set xs = {..<NBUF})"
proof -
  obtain xs where xs: "ring (bufs_of s) xs" "set xs = {..<NBUF}" using assms(1) by (auto simp: bc_inv_def)
  then obtain as cs where ac: "xs = as @ i # cs" using assms(2) split_list [of i xs] by auto
  then have "i \<notin> set (as @ cs)" using xs(1) by (auto simp: ring_def)
  then have "ring (bufs_of (list_push i (list_unlink i s))) (i # as @ cs)"
    using xs(1) ac assms(2) by (intro ring_push ring_unlink) simp_all
  moreover have "set (i # as @ cs) = {..<NBUF}" using xs(2) ac by auto
  moreover have "list_push i (list_unlink i s) = s\<lparr>bufs_of := bufs_of (list_push i (list_unlink i s))\<rparr>"
    using link_frame(1) [of i "list_unlink i s"] link_frame(2) [of i s] by (metis bkernel.fold_congs(1) bkernel.surjective bkernel.update_convs(1))
  ultimately show ?thesis using strip_moves by metis
qed

lemma pid_wakeup [simp]: "p < length (procs k) \<Longrightarrow> pid (procs (wakeup v me c k) ! p) = pid (procs k ! p)"
  by (simp add: wakeup_def nth_wakeup_procs wake_proc_def Let_def)

lemma mypid_wakeup [simp]:
  "cur s < length (procs s) \<Longrightarrow> mypid (wakeup v me c (s :: 'a bkernel_scheme)) = mypid s"
  by (simp add: mypid_def wakeup_def nth_wakeup_procs wake_proc_def Let_def)

lemma bstate_wakeup:
  fixes s t :: "'a bkernel_scheme"
  assumes "bstate s b d r h t" shows "bstate s b d r h (wakeup v me c t)"
proof -
  have e: "bufs_of (wakeup v me c t) = bufs_of t" "disk (wakeup v me c t) = disk t" "cur (wakeup v me c t) = cur t"
    "length (procs (wakeup v me c t)) = length (procs t)"
    by (simp_all add: wakeup_def)
  then have sl: "bslot (wakeup v me c t) b = bslot t b" for b by (simp add: bslot_def)
  have lt: "cur t < length (procs t)" "bc_inv t" using assms by (simp_all add: bstate_def bc_inv_def)
  have "bc_inv (wakeup v me c t)" using lt(2) e unfolding bc_inv_def holds_def by simp
  moreover have "bval (wakeup v me c t) b = bval t b" "brefs (wakeup v me c t) b = brefs t b"
    "bheld (wakeup v me c t) b = bheld t b" for b
    using sl e(2) by (simp_all add: bval_def brefs_def bheld_def split: option.splits)
  moreover have "locked_by (wakeup v me c t) j b = locked_by t j b" for j b
    using e(1) mypid_wakeup [OF lt(1)] by (simp add: locked_by_def holds_def)
  ultimately show ?thesis using assms by (auto simp: bstate_def fun_eq_iff)
qed

lemma brelse_ok:
  assumes "bc_inv s" "locked_by s i b" "brefs s b = 1 \<Longrightarrow> bval s b = disk s b"
  shows "\<exists>s'. brelse i s = Inr s' \<and> bstate s b (bval s b) (brefs s b - 1) False s' \<and>
    s' = s\<lparr>bufs_of := bufs_of s', procs := procs s'\<rparr> \<and> mypid s' = mypid s"
proof -
  have h: "holds s i b" "block_lk (buf_at s i) = \<lparr>sl_locked = True, sl_pid = mypid s\<rparr>"
    using assms(2) by (auto simp: locked_by_def)
  have i: "i < NBUF" "blockno (buf_at s i) = b" "bdev (buf_at s i) = ROOTDEV" "i < length (bufs_of s)"
    using h(1) bc_len [OF assms(1)] by (auto simp: holds_def)
  note lv = locked_bval [OF assms(1,2)] and sl = bslot_Some [OF assms(1) h(1)]
  let ?g = "\<lambda>x. x\<lparr>block_lk := \<lparr>sl_locked = False, sl_pid = 0\<rparr>, refcnt := refcnt x - 1\<rparr>"
  let ?x = "?g (buf_at s i)"
  have rc: "unat (refcnt ?x) = brefs s b - 1" "refcnt (buf_at s i) \<noteq> 0"
    using lv sl unat_eq_zero [of "refcnt (buf_at s i)"] by (auto simp: brefs_def unat_sub_if' Suc_le_eq)
  have ok: "buf_ok (disk s) (buf_at s i)" by (rule bc_buf_ok [OF assms(1) i(1)])
  have clean: "bdata (buf_at s i) = disk s b" if "refcnt ?x = 0"
    using that rc lv assms(3) by (cases "brefs s b = 1") auto
  have ok': "buf_ok (disk s) ?x" "bvalid ?x" using ok rc(2) clean i by (auto simp: buf_ok_def)
  have st: "bstate s (blockno ?x) (bdata ?x) (unat (refcnt ?x)) (sl_locked (block_lk ?x)) (upd_buf i ?g s)"
    by (rule bstate_upd [where f = ?g and x = ?x, OF assms(1) i(1) refl]) (use ok' i h in auto)
  define t where "t = wakeup (kver s) (Some (cur s)) (BufChan i) (upd_buf i ?g s)"
  have bt: "bstate s b (bval s b) (brefs s b - 1) False t"
    using bstate_wakeup [OF st] lv rc(1) i unfolding t_def by simp
  have eq: "upd_buf i (\<lambda>x. x\<lparr>refcnt := refcnt x - 1\<rparr>) (releasesleep (BufChan i) (upd_buf_lk i) s) = t"
    using i(4) by (simp add: t_def releasesleep_def upd_buf_lk_def upd_buf_def wakeup_def)
  have br: "brelse i s = Inr (if refcnt (buf_at t i) = 0 then list_push i (list_unlink i t) else t)"
    using h(2) unfolding brelse_def Let_def eq by (simp add: holdingsleep_def)
  have ft: "t = s\<lparr>bufs_of := bufs_of t, procs := procs t\<rparr>" by (simp add: t_def upd_buf_def wakeup_def)
  have ft2: "mypid t = mypid s" using assms(1) by (simp add: t_def bc_inv_def)
  show ?thesis
  proof (cases "refcnt (buf_at t i) = 0")
    case False
    then have "brelse i s = Inr t" using br by simp
    then show ?thesis using bt ft ft2 by blast
  next
    case True
    obtain bs xs where bs: "list_push i (list_unlink i t) = t\<lparr>bufs_of := bs\<rparr>" "map strip bs = map strip (bufs_of t)"
      "ring bs xs" "set xs = {..<NBUF}"
      using to_front [of t i] bt i(1) by (auto simp: bstate_def)
    have mp: "mypid (t\<lparr>bufs_of := bs\<rparr>) = mypid t" by (simp add: mypid_def)
    have it: "bc_inv t" "cur t < length (procs t)" using bt by (simp_all add: bstate_def bc_inv_def)
    have "bc_inv (t\<lparr>bufs_of := bs\<rparr>) \<and> bval (t\<lparr>bufs_of := bs\<rparr>) = bval t \<and> brefs (t\<lparr>bufs_of := bs\<rparr>) = brefs t \<and>
        bheld (t\<lparr>bufs_of := bs\<rparr>) = bheld t \<and> (\<forall>j c. locked_by (t\<lparr>bufs_of := bs\<rparr>) j c \<longleftrightarrow> locked_by t j c)"
      by (rule strip_same [OF it(1)]) (use bs mp it(2) in simp_all)
    then have "bstate s b (bval s b) (brefs s b - 1) False (t\<lparr>bufs_of := bs\<rparr>)" using bt by (simp add: bstate_def)
    moreover have "t\<lparr>bufs_of := bs\<rparr> = s\<lparr>bufs_of := bs, procs := procs t\<rparr>" by (subst ft) simp
    ultimately show ?thesis using br True bs(1) ft2 mp
      by (intro exI [of _ "t\<lparr>bufs_of := bs\<rparr>"]) simp
  qed
qed

section \<open>The initial cache\<close>

definition raw_bufs :: "'a bkernel_scheme \<Rightarrow> bool" where
  "raw_bufs s \<longleftrightarrow> length (bufs_of s) = NBUF + 1 \<and> (\<forall>b. length (disk s b) = BSIZE) \<and> cur s < length (procs s) \<and>
     (\<forall>i < NBUF. \<not> bvalid (buf_at s i) \<and> bdev (buf_at s i) = 0 \<and> refcnt (buf_at s i) = 0 \<and>
        length (bdata (buf_at s i)) = BSIZE)"

lemma NBUF_pos: "0 < NBUF"
  by (simp add: NBUF_def MAXOPBLOCKS_def)

definition nolk :: "buf \<Rightarrow> buf" where
  "nolk x = (strip x)\<lparr>block_lk := initsleeplock\<rparr>"

lemma nolk_upd: "(\<And>x. nolk (f x) = nolk x) \<Longrightarrow> map nolk (bufs_of (upd_buf i f s)) = map nolk (bufs_of s)"
  by (cases "i < length (bufs_of s)") (auto simp: map_update list_update_same_conv list_update_beyond)

lemma binit_loop:
  assumes "length (bufs_of s) = NBUF + 1" "k \<le> NBUF"
  defines "s0 \<equiv> upd_buf NBUF (\<lambda>x. x\<lparr>bprev := NBUF, bnext := NBUF\<rparr>) s"
  defines "t \<equiv> fold (\<lambda>b s. list_push b (upd_buf_lk b (\<lambda>_. initsleeplock) s)) [0..<k] s0"
  shows "ring (bufs_of t) (rev [0..<k]) \<and> t = s\<lparr>bufs_of := bufs_of t\<rparr> \<and>
    map nolk (bufs_of t) = map nolk (bufs_of s) \<and> (\<forall>i < k. block_lk (buf_at t i) = initsleeplock)"
  using assms(2) unfolding t_def
proof (induction k)
  case 0
  have "map nolk (bufs_of s0) = map nolk (bufs_of s)"
    unfolding s0_def by (rule nolk_upd) (simp add: nolk_def strip_def)
  then show ?case using assms(1) by (simp add: s0_def ring_def upd_buf_def)
next
  case (Suc k)
  define T where "T = fold (\<lambda>b s. list_push b (upd_buf_lk b (\<lambda>_. initsleeplock) s)) [0..<k] s0"
  let ?u = "upd_buf_lk k (\<lambda>_. initsleeplock) T"
  have IH: "ring (bufs_of T) (rev [0..<k])" "T = s\<lparr>bufs_of := bufs_of T\<rparr>"
    "map nolk (bufs_of T) = map nolk (bufs_of s)" "\<forall>i < k. block_lk (buf_at T i) = initsleeplock"
    using Suc.IH Suc.prems by (simp_all add: T_def)
  have len: "length (bufs_of T) = NBUF + 1" using IH(1) by (simp add: ring_def)
  have "ring (bufs_of ?u) (rev [0..<k])"
  proof (subst ring_cong [of _ "bufs_of T"])
    fix i show "bnext (buf_at ?u i) = bnext (buf_at T i) \<and> bprev (buf_at ?u i) = bprev (buf_at T i)"
      using Suc.prems len by (cases "i = k") (simp_all add: upd_buf_lk_def)
  qed (use IH(1) in \<open>simp_all add: upd_buf_lk_def\<close>)
  then have r: "ring (bufs_of (list_push k ?u)) (k # rev [0..<k])" by (rule ring_push) (use Suc.prems in auto)
  have st: "map strip (bufs_of (list_push k ?u)) = map strip (bufs_of ?u)" by (rule strip_moves)
  have "map nolk (bufs_of (list_push k ?u)) = map (\<lambda>x. x\<lparr>block_lk := initsleeplock\<rparr>) (map strip (bufs_of (list_push k ?u)))"
    by (simp add: nolk_def comp_def)
  also have "\<dots> = map nolk (bufs_of ?u)" unfolding st by (simp add: nolk_def comp_def)
  also have "\<dots> = map nolk (bufs_of s)"
    using nolk_upd [of "\<lambda>x. x\<lparr>block_lk := initsleeplock\<rparr>" k T] IH(3) by (simp add: upd_buf_lk_def nolk_def strip_def)
  finally have n: "map nolk (bufs_of (list_push k ?u)) = map nolk (bufs_of s)" .
  have "block_lk (buf_at (list_push k ?u) i) = initsleeplock" if "i < Suc k" for i
  proof -
    have "i < NBUF" using that Suc.prems by simp
    then have "strip (buf_at (list_push k ?u) i) = strip (buf_at ?u i)"
      using arg_cong [OF st, of "\<lambda>l. l ! i"] len r by (simp add: ring_def upd_buf_lk_def)
    then have "block_lk (buf_at (list_push k ?u) i) = block_lk (buf_at ?u i)" by (metis strip_simps(4))
    then show ?thesis using that IH(4) len Suc.prems by (cases "i = k") (simp_all add: upd_buf_lk_def)
  qed
  moreover have "list_push k ?u = s\<lparr>bufs_of := bufs_of (list_push k ?u)\<rparr>"
    by (subst link_frame(1), subst IH(2)) (simp add: upd_buf_lk_def upd_buf_def)
  ultimately show ?case using r n by (simp add: T_def)
qed

lemma binit_ok:
  assumes "raw_bufs s"
  shows "bc_inv (binit s) \<and> binit s = s\<lparr>bufs_of := bufs_of (binit s)\<rparr> \<and> bval (binit s) = disk s \<and>
    brefs (binit s) = (\<lambda>_. 0) \<and> bheld (binit s) = (\<lambda>_. False)"
proof -
  let ?t = "binit s"
  have len: "length (bufs_of s) = NBUF + 1" using assms by (simp add: raw_bufs_def)
  have t: "ring (bufs_of ?t) (rev [0..<NBUF])" "?t = s\<lparr>bufs_of := bufs_of ?t\<rparr>"
    "map nolk (bufs_of ?t) = map nolk (bufs_of s)" "\<forall>i < NBUF. block_lk (buf_at ?t i) = initsleeplock"
    using binit_loop [OF len order_refl] by (simp_all add: binit_def)
  have e: "nolk (buf_at ?t i) = nolk (buf_at s i)" if "i < NBUF" for i
    using arg_cong [OF t(3), of "\<lambda>l. l ! i"] that len t(1) by (simp add: ring_def)
  have f: "\<not> bvalid (buf_at ?t i) \<and> bdev (buf_at ?t i) = 0 \<and> refcnt (buf_at ?t i) = 0 \<and> length (bdata (buf_at ?t i)) = BSIZE"
    if "i < NBUF" for i
  proof -
    have "\<not> bvalid (nolk (buf_at s i)) \<and> bdev (nolk (buf_at s i)) = 0 \<and> refcnt (nolk (buf_at s i)) = 0 \<and>
        length (bdata (nolk (buf_at s i))) = BSIZE"
      using assms that by (simp add: raw_bufs_def nolk_def)
    then show ?thesis unfolding e [OF that, symmetric] by (simp add: nolk_def)
  qed
  have nh: "\<not> holds ?t i b" for i b using f by (auto simp: holds_def ROOTDEV_def)
  have d: "disk ?t = disk s" "cur ?t = cur s" "procs ?t = procs s" by (subst t(2), simp)+
  have "buf_ok (disk ?t) (buf_at ?t i)" if "i < NBUF" for i
    using f [OF that] t(4) that by (simp add: buf_ok_def initsleeplock_def ROOTDEV_def)
  then have "bc_inv ?t" using t(1) nh assms d
    unfolding bc_inv_def raw_bufs_def by (auto intro!: exI [of _ "rev [0..<NBUF]"])
  moreover have "bslot ?t b = None" for b using bslot_None nh by blast
  ultimately show ?thesis using t(2) d by (simp add: bval_def brefs_def bheld_def fun_eq_iff)
qed

end
