(* ===== verification/Log.thy ===== *)
theory Log
  imports Bio_Spec
begin

text \<open>
  The redo log of \<^verbatim>\<open>kernel/log.c\<close>. The fields of \<^verbatim>\<open>struct log\<close> are those of \<open>lkernel\<close>; the header block
  on disk holds \<^verbatim>\<open>n\<close> and the block numbers as little-endian 32-bit fields. A call runs without
  interleaving; where it would wait for another process the result is \<open>WouldSleep\<close>.
\<close>

record lkernel = bkernel +
  log_start :: int
  outstanding :: int
  committing :: bool
  log_dev :: int
  lh_n :: int
  lh_block :: "u32 list"

text \<open>The block number and device arguments are converted to \<^verbatim>\<open>uint\<close>.\<close>

abbreviation log_bread :: "int \<Rightarrow> 'a lkernel_scheme \<Rightarrow> (nat \<times> 'a lkernel_scheme) kres" where
  "log_bread b s \<equiv> bread (word_of_int (log_dev s)) (word_of_int b) s"

definition install_one :: "bool \<Rightarrow> nat \<Rightarrow> 'a lkernel_scheme \<Rightarrow> 'a lkernel_scheme kres" where
  "install_one recovering tail s =
     rbind (log_bread (log_start s + int tail + 1) s) (\<lambda>(lbuf, s).
     rbind (log_bread (uint (lh_block s ! tail)) s) (\<lambda>(dbuf, s).
     let s = set_bdata dbuf (bdata (buf_at s lbuf)) s
     in rbind (bwrite dbuf s) (\<lambda>s.
        let s = (if \<not> recovering then bunpin dbuf s else s)
        in rbind (brelse lbuf s) (brelse dbuf))))"

definition install_trans :: "bool \<Rightarrow> 'a lkernel_scheme \<Rightarrow> 'a lkernel_scheme kres" where
  "install_trans recovering s = rfold (install_one recovering) [0..<nat (lh_n s)] s"

definition read_head :: "'a lkernel_scheme \<Rightarrow> 'a lkernel_scheme kres" where
  "read_head s =
     rbind (log_bread (log_start s) s) (\<lambda>(b, s).
     let d = bdata (buf_at s b);
         n = sint (get32 d 0)
     in if n > int LOGBLOCKS then Inl BadIndex
        else brelse b (s\<lparr>lh_n := n, lh_block := fold (\<lambda>i bs. bs[i := get32 d (4 + 4 * i)]) [0..<nat n] (lh_block s)\<rparr>))"

definition write_head :: "'a lkernel_scheme \<Rightarrow> 'a lkernel_scheme kres" where
  "write_head s =
     rbind (log_bread (log_start s) s) (\<lambda>(b, s).
     let d = put32 (bdata (buf_at s b)) 0 (word_of_int (lh_n s));
         d = fold (\<lambda>i d. put32 d (4 + 4 * i) (lh_block s ! i)) [0..<nat (lh_n s)] d
     in rbind (bwrite b (set_bdata b d s)) (brelse b))"

definition recover_from_log :: "'a lkernel_scheme \<Rightarrow> 'a lkernel_scheme kres" where
  "recover_from_log s =
     rbind (read_head s) (\<lambda>s. rbind (install_trans True s) (\<lambda>s. write_head (s\<lparr>lh_n := 0\<rparr>)))"

definition initlog :: "int \<Rightarrow> u32 \<Rightarrow> 'a lkernel_scheme \<Rightarrow> 'a lkernel_scheme kres" where
  "initlog dev logstart s =
     (if 4 + 4 * LOGBLOCKS \<ge> BSIZE then Inl (Panic ''initlog: too big logheader'')
      else recover_from_log (s\<lparr>log_start := sint logstart, log_dev := dev\<rparr>))"

text \<open>One turn of the loop of \<^verbatim>\<open>begin_op\<close>.\<close>

definition begin_op :: "'a lkernel_scheme \<Rightarrow> 'a lkernel_scheme kres" where
  "begin_op s =
     (if committing s then Inl WouldSleep
      else if lh_n s + (outstanding s + 1) * int MAXOPBLOCKS > int LOGBLOCKS then Inl WouldSleep
      else Inr (s\<lparr>outstanding := outstanding s + 1\<rparr>))"

definition write_log_one :: "nat \<Rightarrow> 'a lkernel_scheme \<Rightarrow> 'a lkernel_scheme kres" where
  "write_log_one tail s =
     rbind (log_bread (log_start s + int tail + 1) s) (\<lambda>(to, s).
     rbind (log_bread (uint (lh_block s ! tail)) s) (\<lambda>(from, s).
     rbind (bwrite to (set_bdata to (bdata (buf_at s from)) s)) (\<lambda>s.
     rbind (brelse from s) (brelse to))))"

definition write_log :: "'a lkernel_scheme \<Rightarrow> 'a lkernel_scheme kres" where
  "write_log s = rfold write_log_one [0..<nat (lh_n s)] s"

definition commit :: "'a lkernel_scheme \<Rightarrow> 'a lkernel_scheme kres" where
  "commit s =
     (if lh_n s > 0 then
        rbind (write_log s) (\<lambda>s. rbind (write_head s) (\<lambda>s. rbind (install_trans False s) (\<lambda>s.
        write_head (s\<lparr>lh_n := 0\<rparr>))))
      else Inr s)"

definition end_op :: "'a lkernel_scheme \<Rightarrow> 'a lkernel_scheme kres" where
  "end_op s =
     (let s = s\<lparr>outstanding := outstanding s - 1\<rparr>
      in if committing s then Inl (Panic ''log.committing'')
         else if outstanding s = 0 then
           rbind (commit (s\<lparr>committing := True\<rparr>)) (\<lambda>s.
           Inr (wakeup (kver s) (Some (cur s)) LogChan (s\<lparr>committing := False\<rparr>)))
         else Inr (wakeup (kver s) (Some (cur s)) LogChan s))"

text \<open>The position of the block in the header, or \<^verbatim>\<open>log.lh.n\<close>.\<close>

definition log_find :: "u32 \<Rightarrow> 'a lkernel_scheme \<Rightarrow> nat" where
  "log_find bn s = (case List.find (\<lambda>i. lh_block s ! i = bn) [0..<nat (lh_n s)] of Some i \<Rightarrow> i | None \<Rightarrow> nat (lh_n s))"

definition log_write :: "nat \<Rightarrow> 'a lkernel_scheme \<Rightarrow> 'a lkernel_scheme kres" where
  "log_write b s =
     (if lh_n s \<ge> int LOGBLOCKS then Inl (Panic ''too big a transaction'')
      else if outstanding s < 1 then Inl (Panic ''log_write outside of trans'')
      else
        let i = log_find (blockno (buf_at s b)) s;
            s = s\<lparr>lh_block := (lh_block s)[i := blockno (buf_at s b)]\<rparr>
        in Inr (if int i = lh_n s then (bpin b s)\<lparr>lh_n := lh_n s + 1\<rparr> else s))"

section \<open>Two buffers at a time\<close>

definition quiet :: "(u32 \<Rightarrow> nat) \<Rightarrow> 'a bkernel_scheme \<Rightarrow> bool" where
  "quiet r s \<longleftrightarrow> bc_inv s \<and> brefs s = r \<and> bheld s = (\<lambda>_. False)"

text \<open>What the buffer operations leave alone.\<close>

definition bio_frame :: "'a bkernel_scheme \<Rightarrow> 'a bkernel_scheme \<Rightarrow> bool" where
  "bio_frame s s' \<longleftrightarrow> (\<exists>bs ps d w. s' = s\<lparr>bufs_of := bs, procs := ps, disk := d, dwrites := w\<rparr>)"

lemma bio_frame_trans: "bio_frame s s1 \<Longrightarrow> bio_frame s1 s2 \<Longrightarrow> bio_frame s s2"
  unfolding bio_frame_def by (elim exE) (intro exI, simp)

lemma bio_frame_upd [simp]: "bio_frame s (upd_buf i f s)"
  unfolding bio_frame_def upd_buf_def
  by (rule exI, rule exI [of _ "procs s"], rule exI [of _ "disk s"], rule exI [of _ "dwrites s"]) simp

lemma bio_frame_wr [simp]: "bio_frame s (wr_disk b d s)"
  unfolding bio_frame_def wr_disk_def
  by (rule exI [of _ "bufs_of s"], rule exI [of _ "procs s"], rule exI, rule exI) simp

lemma bio_frame_bufs_procs: "bio_frame s (s\<lparr>bufs_of := bs, procs := ps\<rparr>)"
  unfolding bio_frame_def
  by (rule exI [of _ bs], rule exI [of _ ps], rule exI [of _ "disk s"], rule exI [of _ "dwrites s"]) simp

lemma bio_frame_rel: "s' = s\<lparr>bufs_of := bufs_of s', procs := procs s'\<rparr> \<Longrightarrow> bio_frame s s'"
  using bio_frame_bufs_procs by metis

lemma bio_frame_log:
  assumes "bio_frame s (s' :: 'a lkernel_scheme)"
  shows "log_start s' = log_start s" "outstanding s' = outstanding s" "committing s' = committing s"
    "log_dev s' = log_dev s" "lh_n s' = lh_n s" "lh_block s' = lh_block s" "cur s' = cur s" "kver s' = kver s"
  using assms by (auto simp: bio_frame_def)

lemma brelse_step:
  assumes "bc_inv s" "locked_by s i b" "brefs s b = 1 \<Longrightarrow> bval s b = disk s b"
  shows "\<exists>s'. brelse i s = Inr s' \<and> bstate s b (bval s b) (brefs s b - 1) False s' \<and> bio_frame s s' \<and>
    disk s' = disk s \<and> dwrites s' = dwrites s"
proof -
  obtain s' where s': "brelse i s = Inr s'" "bstate s b (bval s b) (brefs s b - 1) False s'"
    "s' = s\<lparr>bufs_of := bufs_of s', procs := procs s'\<rparr>"
    using brelse_ok [OF assms] by blast
  have "disk s' = disk s" "dwrites s' = dwrites s" by (subst s'(3), simp)+
  then show ?thesis using s' bio_frame_rel by blast
qed

text \<open>Two \<^verbatim>\<open>bread\<close>s of different blocks.\<close>

lemma bread_two:
  assumes "quiet r s" "a \<noteq> c" "\<And>b. r b + 2 < 2 ^ 32" "card {b. r b \<noteq> 0} + 2 \<le> NBUF"
  shows "\<exists>i s1 j s2. bread ROOTDEV a s = Inr (i, s1) \<and> bread ROOTDEV c s1 = Inr (j, s2) \<and>
    bc_inv s2 \<and> bval s2 = bval s \<and> brefs s2 = r(a := r a + 1, c := r c + 1) \<and>
    bheld s2 = (\<lambda>b. b = a \<or> b = c) \<and> locked_by s2 i a \<and> locked_by s2 j c \<and>
    bio_frame s s1 \<and> bio_frame s s2 \<and> disk s2 = disk s \<and> dwrites s2 = dwrites s"
proof -
  have q: "bc_inv s" "brefs s = r" "bheld s = (\<lambda>_. False)" using assms(1) by (auto simp: quiet_def)
  have "card (busy s) < NBUF" using assms(4) q(2) by (simp add: busy_def)
  then obtain i f where i: "bread ROOTDEV a s = Inr (i, upd_buf i f s)"
    "bstate s a (bval s a) (brefs s a + 1) True (upd_buf i f s)" "locked_by (upd_buf i f s) i a"
    using bread_ok [OF q(1), of a] q assms(3) [of a] by auto
  let ?s = "upd_buf i f s"
  have b1: "bc_inv ?s" "bval ?s = bval s" "brefs ?s = r(a := r a + 1)" "bheld ?s = (\<lambda>b. b = a)"
    using i(2) q by (auto simp: bstate_def fun_eq_iff)
  have "busy ?s \<subseteq> insert a (busy s)" using b1(3) q(2) by (auto simp: busy_def)
  then have "card (busy ?s) \<le> card (insert a (busy s))" by (intro card_mono) simp_all
  also have "\<dots> \<le> Suc (card (busy s))" by (simp add: card_insert_if)
  finally have "card (busy ?s) \<le> Suc (card (busy s))" .
  then have "card (busy ?s) < NBUF" using assms(4) q(2) by (simp add: busy_def)
  then obtain j g where j: "bread ROOTDEV c ?s = Inr (j, upd_buf j g ?s)"
    "bstate ?s c (bval ?s c) (brefs ?s c + 1) True (upd_buf j g ?s)" "locked_by (upd_buf j g ?s) j c"
    using bread_ok [OF b1(1), of c] b1 assms(2) assms(3) [of c] by auto
  define t where "t = upd_buf j g ?s"
  note j' = j [folded t_def]
  have t: "bc_inv t" "bval t = bval s" "brefs t = r(a := r a + 1, c := r c + 1)" "bheld t = (\<lambda>b. b = a \<or> b = c)"
    using j'(2) b1 assms(2) by (auto simp: bstate_def fun_eq_iff)
  have "locked_by t i a" using locked_mono [OF j'(2) i(3)] assms(2) by blast
  moreover have "bio_frame s t" unfolding t_def by (rule bio_frame_trans [OF bio_frame_upd bio_frame_upd])
  moreover have "disk t = disk s" "dwrites t = dwrites s" by (simp_all add: t_def)
  ultimately show ?thesis using i(1) j'(1,3) t bio_frame_upd [of s i f] by blast
qed

text \<open>The effect of moving the content of block \<open>a\<close> to block \<open>c\<close> and to the disk.\<close>

definition moved :: "'a bkernel_scheme \<Rightarrow> u32 \<Rightarrow> block \<Rightarrow> (u32 \<Rightarrow> nat) \<Rightarrow> 'a bkernel_scheme \<Rightarrow> bool" where
  "moved s c v r s' \<longleftrightarrow> quiet r s' \<and> bval s' = (bval s)(c := v) \<and> disk s' = (disk s)(c := v) \<and>
     dwrites s' = dwrites s @ [(c, v)] \<and> bio_frame s s'"

text \<open>Writing the locked buffer \<open>j\<close> of block \<open>c\<close> with the content of block \<open>a\<close>, both locked.\<close>

lemma fill_and_write:
  assumes "bc_inv s" "locked_by s i a" "locked_by s j c" "a \<noteq> c"
  shows "\<exists>s'. bwrite j (set_bdata j (bdata (buf_at s i)) s) = Inr s' \<and> bc_inv s' \<and> bval s' = (bval s)(c := bval s a) \<and>
    brefs s' = brefs s \<and> bheld s' = bheld s \<and> locked_by s' i a \<and> locked_by s' j c \<and>
    disk s' = (disk s)(c := bval s a) \<and> dwrites s' = dwrites s @ [(c, bval s a)] \<and> bio_frame s s'"
proof -
  have d: "bdata (buf_at s i) = bval s a" "length (bval s a) = BSIZE"
    using locked_bval [OF assms(1,2)] length_bval [OF assms(1)] by auto
  let ?t = "set_bdata j (bval s a) s"
  have t: "bstate s c (bval s a) (brefs s c) True ?t" "locked_by ?t j c"
    using set_bdata_ok [OF assms(1,3) d(2)] by auto
  have ti: "bc_inv ?t" "locked_by ?t i a" "bval ?t c = bval s a" using t assms(2,4) by (auto simp: bstate_def)
  let ?u = "wr_disk c (bval s a) ?t"
  have w: "bwrite j ?t = Inr ?u" "bstate ?t c (bval s a) (brefs ?t c) True ?u" "locked_by ?u j c"
    using bwrite_ok [OF ti(1) t(2)] ti(3) by auto
  have "bheld s c" using locked_bval [OF assms(1,3)] by blast
  then have "bval ?u = (bval s)(c := bval s a)" "brefs ?u = brefs s" "bheld ?u = bheld s" "bc_inv ?u"
    using w(2) t(1) by (auto simp: bstate_def fun_eq_iff)
  moreover have "locked_by ?u i a" using locked_mono [OF w(2) ti(2) assms(4)] .
  moreover have "bio_frame s ?u" unfolding set_bdata_def by (rule bio_frame_trans [OF bio_frame_upd bio_frame_wr])
  ultimately show ?thesis using w(1,3) d(1) by (intro exI [of _ ?u]) (simp add: set_bdata_def)
qed

end
