(* ===== verification/Log_Crash.thy ===== *)
theory Log_Crash
  imports Log
begin

text \<open>
  What a commit writes to the disk, in order, and what recovery makes of a disk on which only a
  part of these writes was carried out: every transaction is installed as a whole or not at all.
\<close>

section \<open>Sequences of block writes\<close>

fun wapply :: "(u32 \<Rightarrow> block) \<Rightarrow> (u32 \<times> block) list \<Rightarrow> (u32 \<Rightarrow> block)" where
  "wapply d [] = d"
| "wapply d ((b, v) # ws) = wapply (d(b := v)) ws"

lemma wapply_append: "wapply d (ws @ vs) = wapply (wapply d ws) vs"
proof (induction ws arbitrary: d)
  case (Cons w ws)
  then show ?case by (cases w) (simp add: fun_upd_def)
qed simp

lemma wapply_other: "b \<notin> fst ` set ws \<Longrightarrow> wapply d ws b = d b"
proof (induction ws arbitrary: d)
  case (Cons w ws)
  then show ?case by (cases w) auto
qed simp

text \<open>\<open>runs s ws r s'\<close>: from \<open>s\<close>, the writes \<open>ws\<close> were made, each through the cache to the disk.\<close>

definition runs :: "'a bkernel_scheme \<Rightarrow> (u32 \<times> block) list \<Rightarrow> (u32 \<Rightarrow> nat) \<Rightarrow> 'a bkernel_scheme \<Rightarrow> bool" where
  "runs s ws r s' \<longleftrightarrow> quiet r s' \<and> bval s' = wapply (bval s) ws \<and> disk s' = wapply (disk s) ws \<and>
     dwrites s' = dwrites s @ ws \<and> bio_frame s s'"

lemma bio_frame_refl [simp]: "bio_frame s s"
  using bio_frame_upd [of s 0 id] by (simp add: upd_buf_def)

lemma runs_refl: "quiet r s \<Longrightarrow> runs s [] r s"
  by (simp add: runs_def)

lemma runs_trans: "runs s ws r s1 \<Longrightarrow> runs s1 vs r' s2 \<Longrightarrow> runs s (ws @ vs) r' s2"
  by (auto simp: runs_def wapply_append intro: bio_frame_trans)

lemma moved_runs: "moved s c v r s' \<Longrightarrow> runs s [(c, v)] r s'"
  by (simp add: moved_def runs_def)

section \<open>The steps\<close>

definition log_blk :: "'a lkernel_scheme \<Rightarrow> nat \<Rightarrow> u32" where
  "log_blk s t = word_of_int (log_start s + int t + 1)"

definition hdr_blk :: "'a lkernel_scheme \<Rightarrow> u32" where
  "hdr_blk s = word_of_int (log_start s)"

lemma bunpin_ok:
  assumes "bc_inv s" "locked_by s j c" "brefs s c = 2"
  shows "bstate s c (bval s c) 1 True (bunpin j s) \<and> locked_by (bunpin j s) j c"
proof -
  have "holds s j c" using assms(2) by (simp add: locked_by_def)
  then have "unat (refcnt (buf_at s j)) = 2" using bslot_Some [OF assms(1)] assms(3) by (simp add: brefs_def)
  then have "refcnt (buf_at s j) = 2" by (simp add: word_unat_eq_iff)
  then show ?thesis unfolding bunpin_def by (intro refs_ok [OF assms(1,2)]) simp_all
qed

lemma write_log_one_ok:
  assumes "quiet r s" "log_dev s = 1" "lh_block s ! t = c" "log_blk s t = a" "a \<noteq> c" "r a = 0" "r c = 1"
    "\<And>b. r b \<le> 1" "card {b. r b \<noteq> 0} + 2 \<le> NBUF"
  shows "\<exists>s'. write_log_one t s = Inr s' \<and> moved s a (bval s c) r s'"
proof -
  have bd: "r b + 2 < 2 ^ 32" for b using assms(8) [of b] by simp
  obtain i s1 j s2 where b2: "bread ROOTDEV a s = Inr (i, s1)" "bread ROOTDEV c s1 = Inr (j, s2)"
    "bc_inv s2" "bval s2 = bval s" "brefs s2 = r(a := r a + 1, c := r c + 1)" "bheld s2 = (\<lambda>b. b = a \<or> b = c)"
    "locked_by s2 i a" "locked_by s2 j c" "bio_frame s s1" "bio_frame s s2" "disk s2 = disk s" "dwrites s2 = dwrites s"
    using bread_two [OF assms(1,5) bd assms(9)] by (elim exE conjE) (rule that; assumption)
  have "c \<noteq> a" using assms(5) by simp
  from fill_and_write [OF b2(3,8,7) this] obtain s3 where
    s3: "bwrite i (set_bdata i (bdata (buf_at s2 j)) s2) = Inr s3" "bc_inv s3" "bval s3 = (bval s2)(a := bval s2 c)"
    "brefs s3 = brefs s2" "bheld s3 = bheld s2" "locked_by s3 j c" "locked_by s3 i a"
    "disk s3 = (disk s2)(a := bval s2 c)" "dwrites s3 = dwrites s2 @ [(a, bval s2 c)]" "bio_frame s2 s3"
    by (elim exE conjE) (rule that; assumption)
  have "brefs s3 c = 2" using s3(4) b2(5) assms(7) by simp
  then obtain s4 where s4: "brelse j s3 = Inr s4" "bstate s3 c (bval s3 c) (brefs s3 c - 1) False s4"
    "bio_frame s3 s4" "disk s4 = disk s3" "dwrites s4 = dwrites s3"
    using brelse_step [OF s3(2,6)] by auto
  have l4: "bc_inv s4" "locked_by s4 i a" "bval s4 a = disk s4 a"
    using s4(2,4) s3(3,7,8) assms(5) by (auto simp: bstate_def)
  then obtain s5 where s5: "brelse i s4 = Inr s5" "bstate s4 a (bval s4 a) (brefs s4 a - 1) False s5"
    "bio_frame s4 s5" "disk s5 = disk s4" "dwrites s5 = dwrites s4"
    using brelse_step [OF l4(1,2)] by auto
  have f: "log_dev s1 = 1" "lh_block s1 = lh_block s" using bio_frame_log [OF b2(9)] assms(2) by simp_all
  have "write_log_one t s = Inr s5"
    using b2(1,2) s3(1) s4(1) s5(1) assms(2-4) f by (simp add: write_log_one_def log_blk_def ROOTDEV_def)
  moreover have "quiet r s5" "bval s5 = (bval s)(a := bval s c)"
    using s5(2) s4(2) s3(3-5) b2(4-6) assms(5-7) by (auto simp: quiet_def bstate_def fun_eq_iff)
  moreover have "bio_frame s s5"
    using bio_frame_trans [OF bio_frame_trans [OF b2(10) s3(10)] bio_frame_trans [OF s4(3) s5(3)]] .
  ultimately show ?thesis
    using s5(4,5) s4(4,5) s3(8,9) b2(4,11,12) by (auto simp: moved_def)
qed

lemma install_one_ok:
  assumes "quiet r s" "log_dev s = 1" "lh_block s ! t = c" "log_blk s t = a" "a \<noteq> c" "r a = 0"
    "r c = (if recovering then 0 else 1)" "\<And>b. r b \<le> 1" "card {b. r b \<noteq> 0} + 2 \<le> NBUF"
  shows "\<exists>s'. install_one recovering t s = Inr s' \<and> moved s c (bval s a) (r(c := 0)) s'"
proof -
  have bd: "r b + 2 < 2 ^ 32" for b using assms(8) [of b] by simp
  obtain i s1 j s2 where b2: "bread ROOTDEV a s = Inr (i, s1)" "bread ROOTDEV c s1 = Inr (j, s2)"
    "bc_inv s2" "bval s2 = bval s" "brefs s2 = r(a := r a + 1, c := r c + 1)" "bheld s2 = (\<lambda>b. b = a \<or> b = c)"
    "locked_by s2 i a" "locked_by s2 j c" "bio_frame s s1" "bio_frame s s2" "disk s2 = disk s" "dwrites s2 = dwrites s"
    using bread_two [OF assms(1,5) bd assms(9)] by (elim exE conjE) (rule that; assumption)
  from fill_and_write [OF b2(3,7,8) assms(5)] obtain s3 where
    s3: "bwrite j (set_bdata j (bdata (buf_at s2 i)) s2) = Inr s3" "bc_inv s3" "bval s3 = (bval s2)(c := bval s2 a)"
    "brefs s3 = brefs s2" "bheld s3 = bheld s2" "locked_by s3 i a" "locked_by s3 j c"
    "disk s3 = (disk s2)(c := bval s2 a)" "dwrites s3 = dwrites s2 @ [(c, bval s2 a)]" "bio_frame s2 s3"
    by (elim exE conjE) (rule that; assumption)
  define s4 where "s4 = (if \<not> recovering then bunpin j s3 else s3)"
  have s4: "bc_inv s4" "bval s4 = bval s3" "brefs s4 = r(a := 1, c := 1)" "bheld s4 = bheld s3"
    "locked_by s4 i a" "locked_by s4 j c" "disk s4 = disk s3" "dwrites s4 = dwrites s3" "bio_frame s3 s4"
  proof -
    have "bstate s3 c (bval s3 c) 1 True s4 \<and> locked_by s4 j c"
    proof (cases recovering)
      case True
      then show ?thesis using s3(2,4,5,7) b2(5,6) assms(7) by (auto simp: s4_def bstate_def fun_eq_iff)
    next
      case False
      then have "brefs s3 c = 2" using s3(4) b2(5) assms(7) by simp
      then show ?thesis using bunpin_ok [OF s3(2,7)] False by (simp add: s4_def)
    qed
    then show "bc_inv s4" "bval s4 = bval s3" "brefs s4 = r(a := 1, c := 1)" "bheld s4 = bheld s3"
      "locked_by s4 i a" "locked_by s4 j c"
      using s3(4-6) b2(5,6) assms(5,6) by (auto simp: bstate_def fun_eq_iff)
    show "disk s4 = disk s3" "dwrites s4 = dwrites s3" "bio_frame s3 s4"
      by (simp_all add: s4_def bunpin_def)
  qed
  have "bval s a = disk s a" using brefs_0_clean(1) [of s a] assms(1,6) by (simp add: quiet_def)
  then have "bval s4 a = disk s4 a" using s4(2,7) s3(3,8) b2(4,11) assms(5) by simp
  then obtain s5 where s5: "brelse i s4 = Inr s5" "bstate s4 a (bval s4 a) (brefs s4 a - 1) False s5"
    "bio_frame s4 s5" "disk s5 = disk s4" "dwrites s5 = dwrites s4"
    using brelse_step [OF s4(1,5)] by auto
  have l5: "bc_inv s5" "locked_by s5 j c" "bval s5 c = disk s5 c"
    using s5(2,4) s4(2,6,7) s3(3,8) assms(5) by (auto simp: bstate_def)
  then obtain s6 where s6: "brelse j s5 = Inr s6" "bstate s5 c (bval s5 c) (brefs s5 c - 1) False s6"
    "bio_frame s5 s6" "disk s6 = disk s5" "dwrites s6 = dwrites s5"
    using brelse_step [OF l5(1,2)] by auto
  have f: "log_dev s1 = 1" "lh_block s1 = lh_block s" using bio_frame_log [OF b2(9)] assms(2) by simp_all
  have "install_one recovering t s = Inr s6"
    using b2(1,2) s3(1) s5(1) s6(1) assms(2-4) f by (simp add: install_one_def log_blk_def Let_def s4_def ROOTDEV_def)
  moreover have "quiet (r(c := 0)) s6" "bval s6 = (bval s)(c := bval s a)"
    using s6(2) s5(2) s4(2-4) s3(3-5) b2(4-6) assms(5,6) by (auto simp: quiet_def bstate_def fun_eq_iff)
  moreover have "bio_frame s s6"
    using bio_frame_trans [OF bio_frame_trans [OF b2(10) s3(10)] bio_frame_trans [OF s4(9) bio_frame_trans [OF s5(3) s6(3)]]] .
  ultimately show ?thesis
    using s6(4,5) s5(4,5) s4(7,8) s3(8,9) b2(4,11,12) by (auto simp: moved_def)
qed

text \<open>The header block.\<close>

definition hdr_data :: "int \<Rightarrow> u32 list \<Rightarrow> block \<Rightarrow> block" where
  "hdr_data n bl d = fold (\<lambda>i d. put32 d (4 + 4 * i) (bl ! i)) [0..<nat n] (put32 d 0 (word_of_int n))"

lemma hdr_loop:
  fixes bl :: "u32 list" and d :: block
  assumes "length d = BSIZE" "k \<le> LOGBLOCKS"
  defines "e \<equiv> fold (\<lambda>i d. put32 d (4 + 4 * i) (bl ! i)) [0..<k] d"
  shows "length e = BSIZE \<and> get32 e 0 = get32 d 0 \<and> (\<forall>i < k. get32 e (4 + 4 * i) = bl ! i)"
  using assms(2) unfolding e_def
proof (induction k)
  case (Suc k)
  let ?e = "fold (\<lambda>i d. put32 d (4 + 4 * i) (bl ! i)) [0..<k] d"
  have IH: "length ?e = BSIZE" "get32 ?e 0 = get32 d 0" "\<forall>i < k. get32 ?e (4 + 4 * i) = bl ! i" using Suc by simp_all
  have k: "4 + 4 * k + 4 \<le> length ?e" using Suc.prems IH(1) by (simp add: LOGBLOCKS_def MAXOPBLOCKS_def BSIZE_def)
  have "get32 (put32 ?e (4 + 4 * k) (bl ! k)) (4 + 4 * i) = bl ! i" if "i < Suc k" for i
    using IH(3) k that get32_put32_other [of "4 + 4 * k" ?e "4 + 4 * i"] by (cases "i = k") auto
  moreover have "get32 (put32 ?e (4 + 4 * k) (bl ! k)) 0 = get32 d 0" using IH(2) k by (simp add: get32_put32_other)
  ultimately show ?case using IH(1) k by (simp add: ac_simps)
qed (simp add: assms(1))

lemma hdr_data_fields:
  assumes "length d = BSIZE" "0 \<le> n" "n \<le> int LOGBLOCKS"
  shows "length (hdr_data n bl d) = BSIZE" "sint (get32 (hdr_data n bl d) 0) = n"
    "\<And>i. i < nat n \<Longrightarrow> get32 (hdr_data n bl d) (4 + 4 * i) = bl ! i"
proof -
  have l: "length (put32 d 0 (word_of_int n)) = BSIZE" using assms(1) by (simp add: BSIZE_def)
  have k: "nat n \<le> LOGBLOCKS" using assms(3) by simp
  have g: "get32 (put32 d 0 (word_of_int n)) 0 = (word_of_int n :: u32)" using assms(1) by (simp add: BSIZE_def)
  have "sint (word_of_int n :: u32) = n"
    using assms(2,3) int_word_sint [of n, where 'a = 32] by (simp add: LOGBLOCKS_def MAXOPBLOCKS_def)
  then show "length (hdr_data n bl d) = BSIZE" "sint (get32 (hdr_data n bl d) 0) = n"
    "\<And>i. i < nat n \<Longrightarrow> get32 (hdr_data n bl d) (4 + 4 * i) = bl ! i"
    using hdr_loop [OF l k, of bl] g by (simp_all add: hdr_data_def)
qed

text \<open>\<^verbatim>\<open>bread\<close>, stores, \<^verbatim>\<open>bwrite\<close> and \<^verbatim>\<open>brelse\<close> of one block.\<close>

lemma bread_one:
  assumes "quiet r s" "r a + 1 < 2 ^ 32" "card {b. r b \<noteq> 0} + 1 \<le> NBUF"
  shows "\<exists>i s1. bread ROOTDEV a s = Inr (i, s1) \<and> bc_inv s1 \<and> bval s1 = bval s \<and> brefs s1 = r(a := r a + 1) \<and>
    bheld s1 = (\<lambda>b. b = a) \<and> locked_by s1 i a \<and> bio_frame s s1 \<and> disk s1 = disk s \<and> dwrites s1 = dwrites s"
proof -
  have q: "bc_inv s" "brefs s = r" "bheld s = (\<lambda>_. False)" using assms(1) by (auto simp: quiet_def)
  have "card (busy s) < NBUF" using assms(3) q(2) by (simp add: busy_def)
  then obtain i f where i: "bread ROOTDEV a s = Inr (i, upd_buf i f s)"
    "bstate s a (bval s a) (brefs s a + 1) True (upd_buf i f s)" "locked_by (upd_buf i f s) i a"
    using bread_ok [OF q(1), of a] q assms(2) by auto
  have "bc_inv (upd_buf i f s)" "bval (upd_buf i f s) = bval s" "brefs (upd_buf i f s) = r(a := r a + 1)"
    "bheld (upd_buf i f s) = (\<lambda>b. b = a)"
    using i(2) q by (auto simp: bstate_def fun_eq_iff)
  then show ?thesis using i(1,3) bio_frame_upd [of s i f] by (intro exI [of _ i] exI [of _ "upd_buf i f s"]) simp
qed

lemma rewrite_block:
  assumes "quiet r s" "r a = 0" "bread ROOTDEV a s = Inr (i, s1)" "bc_inv s1" "bval s1 = bval s"
    "brefs s1 = r(a := 1)" "bheld s1 = (\<lambda>b. b = a)" "locked_by s1 i a" "bio_frame s s1" "disk s1 = disk s"
    "dwrites s1 = dwrites s" "length d = BSIZE"
  shows "\<exists>s'. rbind (bwrite i (set_bdata i d s1)) (brelse i) = Inr s' \<and> moved s a d r s'"
proof -
  define t where "t = set_bdata i d s1"
  have t: "bstate s1 a d (brefs s1 a) True t" "locked_by t i a"
    using set_bdata_ok [OF assms(4,8,12)] by (auto simp: t_def)
  have ti: "bc_inv t" "bval t a = d" using t(1) by (auto simp: bstate_def)
  define u where "u = wr_disk a d t"
  have w: "bwrite i t = Inr u" "bstate t a d (brefs t a) True u" "locked_by u i a"
    using bwrite_ok [OF ti(1) t(2)] ti(2) by (auto simp: u_def)
  have ui: "bc_inv u" "bval u a = disk u a" using w(2) by (auto simp: bstate_def u_def)
  then obtain v where v: "brelse i u = Inr v" "bstate u a (bval u a) (brefs u a - 1) False v" "bio_frame u v"
    "disk v = disk u" "dwrites v = dwrites u"
    using brelse_step [OF ui(1) w(3)] by auto
  have "quiet r v" "bval v = (bval s)(a := d)"
    using v(2) w(2) t(1) assms(2,5,6,7) by (auto simp: quiet_def bstate_def fun_eq_iff)
  moreover have "disk v = (disk s)(a := d)" "dwrites v = dwrites s @ [(a, d)]"
    using v(4,5) assms(10,11) by (simp_all add: u_def t_def set_bdata_def)
  moreover have "bio_frame s1 u" unfolding u_def t_def set_bdata_def by (rule bio_frame_trans [OF bio_frame_upd bio_frame_wr])
  then have "bio_frame s v" using bio_frame_trans [OF assms(9)] bio_frame_trans v(3) by blast
  ultimately show ?thesis using w(1) v(1) by (simp add: t_def moved_def)
qed

lemma write_head_ok:
  assumes "quiet r s" "log_dev s = 1" "hdr_blk s = a" "r a = 0" "card {b. r b \<noteq> 0} + 1 \<le> NBUF" "0 \<le> lh_n s" "lh_n s \<le> int LOGBLOCKS"
  shows "\<exists>s'. write_head s = Inr s' \<and> moved s a (hdr_data (lh_n s) (lh_block s) (bval s a)) r s'"
proof -
  have rb: "r a + 1 < 2 ^ 32" using assms(4) by simp
  obtain i s1 where b: "bread ROOTDEV a s = Inr (i, s1)" "bc_inv s1" "bval s1 = bval s" "brefs s1 = r(a := r a + 1)"
    "bheld s1 = (\<lambda>b. b = a)" "locked_by s1 i a" "bio_frame s s1" "disk s1 = disk s" "dwrites s1 = dwrites s"
    using bread_one [OF assms(1) rb assms(5)] by (elim exE conjE) (rule that; assumption)
  have f: "lh_n s1 = lh_n s" "lh_block s1 = lh_block s" using bio_frame_log [OF b(7)] by simp_all
  have d: "bdata (buf_at s1 i) = bval s a" using locked_bval [OF b(2,6)] b(3) by simp
  have "length (bval s a) = BSIZE" using length_bval [of s a] assms(1) by (simp add: quiet_def)
  then have len: "length (hdr_data (lh_n s) (lh_block s) (bval s a)) = BSIZE" using hdr_data_fields(1) assms(6,7) by blast
  have "brefs s1 = r(a := 1)" using b(4) assms(4) by simp
  from rewrite_block [OF assms(1,4) b(1-3) this b(5-9) len] obtain s' where
    s': "rbind (bwrite i (set_bdata i (hdr_data (lh_n s) (lh_block s) (bval s a)) s1)) (brelse i) = Inr s'"
    "moved s a (hdr_data (lh_n s) (lh_block s) (bval s a)) r s'" by blast
  have "write_head s = Inr s'"
    using b(1) s'(1) assms(2,3) f d by (simp add: write_head_def hdr_blk_def hdr_data_def Let_def ROOTDEV_def)
  then show ?thesis using s'(2) by blast
qed

section \<open>The loops\<close>

lemma rfold_snoc: "rfold f [0..<Suc k] s = rbind (rfold f [0..<k] s) (f k)"
proof -
  have "rfold f [k] t = f k t" for t by (cases "f k t") simp_all
  then have "rfold f [k] = f k" by blast
  then show ?thesis by (simp add: rfold_append)
qed

text \<open>Where the log lies: the home blocks of a transaction are outside the log.\<close>

definition log_area :: "'a lkernel_scheme \<Rightarrow> u32 set" where
  "log_area s = insert (hdr_blk s) (log_blk s ` {..<LOGBLOCKS})"

lemma log_blk_inj:
  assumes "log_blk s t = log_blk s t'" "t < LOGBLOCKS" "t' < LOGBLOCKS" shows "t = t'"
proof -
  have "(of_nat t :: u32) = of_nat t'" using assms(1) by (simp add: log_blk_def)
  moreover have "unat (of_nat t :: u32) = t" "unat (of_nat t' :: u32) = t'"
    using assms(2,3) by (auto intro!: unat_u32 simp: LOGBLOCKS_def MAXOPBLOCKS_def)
  ultimately show ?thesis by metis
qed

lemma log_blk_hdr: "t < LOGBLOCKS \<Longrightarrow> log_blk s t \<noteq> hdr_blk s"
proof
  assume t: "t < LOGBLOCKS" "log_blk s t = hdr_blk s"
  then have "(of_nat (t + 1) :: u32) = 0" by (simp add: log_blk_def hdr_blk_def add.assoc add.commute)
  moreover have "unat (of_nat (t + 1) :: u32) = t + 1" using t(1) by (intro unat_u32) (simp add: LOGBLOCKS_def MAXOPBLOCKS_def)
  ultimately show False by simp
qed

lemma frame_blk: "bio_frame s (s' :: 'a lkernel_scheme) \<Longrightarrow> log_blk s' = log_blk s \<and> hdr_blk s' = hdr_blk s"
  using bio_frame_log(1) [of s s'] by (simp add: log_blk_def hdr_blk_def fun_eq_iff)

text \<open>The reference counts while a transaction commits: one pin per logged block.\<close>

definition pins :: "u32 list \<Rightarrow> u32 \<Rightarrow> nat" where
  "pins bl b = (if b \<in> set bl then 1 else 0)"

lemma pins_bounds: "pins bl b \<le> 1" "card {b. pins bl b \<noteq> 0} \<le> length bl"
  by (simp_all add: pins_def card_length)

lemma write_log_loop:
  assumes "quiet (pins bl) s" "log_dev s = 1" "k \<le> length bl" "length bl \<le> LOGBLOCKS" "length bl + 2 \<le> NBUF"
    "\<And>t. t < length bl \<Longrightarrow> lh_block s ! t = bl ! t" "set bl \<inter> log_area s = {}"
  shows "\<exists>s'. rfold write_log_one [0..<k] s = Inr s' \<and>
    runs s (map (\<lambda>t. (log_blk s t, bval s (bl ! t))) [0..<k]) (pins bl) s'"
  using assms(3)
proof (induction k)
  case 0
  then show ?case using runs_refl [OF assms(1)] by simp
next
  case (Suc k)
  then obtain s1 where s1: "rfold write_log_one [0..<k] s = Inr s1"
    "runs s (map (\<lambda>t. (log_blk s t, bval s (bl ! t))) [0..<k]) (pins bl) s1" by auto
  have fr: "bio_frame s s1" "quiet (pins bl) s1" using s1(2) by (auto simp: runs_def)
  note fl = bio_frame_log [OF fr(1)] frame_blk [OF fr(1)]
  have k: "k < length bl" "k < LOGBLOCKS" using Suc.prems assms(4) by simp_all
  have nin: "log_blk s t \<notin> set bl" if "t < LOGBLOCKS" for t using assms(7) that by (auto simp: log_area_def)
  have ne: "log_blk s k \<noteq> bl ! k" using nin [OF k(2)] nth_mem [OF k(1)] by metis
  have p: "pins bl (log_blk s k) = 0" "pins bl (bl ! k) = 1" using nin [OF k(2)] k(1) by (simp_all add: pins_def)
  have c: "card {b. pins bl b \<noteq> 0} + 2 \<le> NBUF" using pins_bounds(2) [of bl] assms(5) by simp
  have "\<exists>s'. write_log_one k s1 = Inr s' \<and> moved s1 (log_blk s k) (bval s1 (bl ! k)) (pins bl) s'"
    using assms(2) assms(6) [OF k(1)] fl
    by (intro write_log_one_ok [OF fr(2) _ _ _ ne p pins_bounds(1) c]) simp_all
  then obtain s2 where s2: "write_log_one k s1 = Inr s2" "moved s1 (log_blk s k) (bval s1 (bl ! k)) (pins bl) s2" by blast
  have "log_blk s t \<noteq> bl ! k" if "t < k" for t
    using nin [of t] nth_mem [OF k(1)] k(2) that by auto
  then have "bl ! k \<notin> fst ` set (map (\<lambda>t. (log_blk s t, bval s (bl ! t))) [0..<k])" by fastforce
  then have "bval s1 (bl ! k) = bval s (bl ! k)" using s1(2) wapply_other by (simp add: runs_def)
  then have "runs s (map (\<lambda>t. (log_blk s t, bval s (bl ! t))) [0..<Suc k]) (pins bl) s2"
    using runs_trans [OF s1(2) moved_runs [OF s2(2)]] by simp
  then show ?case using s1(1) s2(1) by (simp only: rfold_snoc rbind_simps) blast
qed

lemma install_loop:
  assumes "quiet (pins bl) s" "log_dev s = 1" "k \<le> length bl" "length bl \<le> LOGBLOCKS" "length bl + 2 \<le> NBUF"
    "\<And>t. t < length bl \<Longrightarrow> lh_block s ! t = bl ! t" "set bl \<inter> log_area s = {}" "distinct bl"
  shows "\<exists>s'. rfold (install_one False) [0..<k] s = Inr s' \<and>
    runs s (map (\<lambda>t. (bl ! t, bval s (log_blk s t))) [0..<k]) (pins (drop k bl)) s'"
  using assms(3)
proof (induction k)
  case 0
  then show ?case using runs_refl [OF assms(1)] by simp
next
  case (Suc k)
  then obtain s1 where s1: "rfold (install_one False) [0..<k] s = Inr s1"
    "runs s (map (\<lambda>t. (bl ! t, bval s (log_blk s t))) [0..<k]) (pins (drop k bl)) s1" by auto
  have fr: "bio_frame s s1" "quiet (pins (drop k bl)) s1" using s1(2) by (auto simp: runs_def)
  note fl = bio_frame_log [OF fr(1)] frame_blk [OF fr(1)]
  have k: "k < length bl" "k < LOGBLOCKS" using Suc.prems assms(4) by simp_all
  have nin: "log_blk s t \<notin> set bl" if "t < LOGBLOCKS" for t using assms(7) that by (auto simp: log_area_def)
  have ne: "log_blk s k \<noteq> bl ! k" using nin [OF k(2)] nth_mem [OF k(1)] by metis
  have dk: "drop k bl = bl ! k # drop (Suc k) bl" using k(1) by (rule Cons_nth_drop_Suc [symmetric])
  have p: "pins (drop k bl) (log_blk s k) = 0" "pins (drop k bl) (bl ! k) = (if False then 0 else 1)"
    using nin [OF k(2)] in_set_dropD [of "log_blk s k" k bl] dk by (auto simp: pins_def)
  have c: "card {b. pins (drop k bl) b \<noteq> 0} + 2 \<le> NBUF" using pins_bounds(2) [of "drop k bl"] assms(5) by simp
  have "\<exists>s'. install_one False k s1 = Inr s' \<and>
      moved s1 (bl ! k) (bval s1 (log_blk s k)) ((pins (drop k bl))(bl ! k := 0)) s'"
    using assms(2) assms(6) [OF k(1)] fl
    by (intro install_one_ok [OF fr(2) _ _ _ ne p pins_bounds(1) c]) simp_all
  moreover have "(pins (drop k bl))(bl ! k := 0) = pins (drop (Suc k) bl)"
    using assms(8) k(1) unfolding dk
    by (auto simp: pins_def fun_eq_iff) (metis dk distinct.simps(2) distinct_drop)
  ultimately obtain s2 where s2: "install_one False k s1 = Inr s2"
    "moved s1 (bl ! k) (bval s1 (log_blk s k)) (pins (drop (Suc k) bl)) s2" by auto
  have "log_blk s k \<notin> fst ` set (map (\<lambda>t. (bl ! t, bval s (log_blk s t))) [0..<k])"
    using nin [OF k(2)] k(1) nth_mem by fastforce
  then have "bval s1 (log_blk s k) = bval s (log_blk s k)" using s1(2) wapply_other by (simp add: runs_def)
  then have "runs s (map (\<lambda>t. (bl ! t, bval s (log_blk s t))) [0..<Suc k]) (pins (drop (Suc k) bl)) s2"
    using runs_trans [OF s1(2) moved_runs [OF s2(2)]] by simp
  then show ?case using s1(1) s2(1) by (simp only: rfold_snoc rbind_simps) blast
qed

lemma recover_loop:
  assumes "quiet (\<lambda>_. 0) s" "log_dev s = 1" "k \<le> length hl" "length hl \<le> LOGBLOCKS"
    "\<And>t. t < length hl \<Longrightarrow> lh_block s ! t = hl ! t" "set hl \<inter> log_area s = {}"
  shows "\<exists>s'. rfold (install_one True) [0..<k] s = Inr s' \<and>
    runs s (map (\<lambda>t. (hl ! t, bval s (log_blk s t))) [0..<k]) (\<lambda>_. 0) s'"
  using assms(3)
proof (induction k)
  case 0
  then show ?case using runs_refl [OF assms(1)] by simp
next
  case (Suc k)
  then obtain s1 where s1: "rfold (install_one True) [0..<k] s = Inr s1"
    "runs s (map (\<lambda>t. (hl ! t, bval s (log_blk s t))) [0..<k]) (\<lambda>_. 0) s1" by auto
  have fr: "bio_frame s s1" "quiet (\<lambda>_. 0) s1" using s1(2) by (auto simp: runs_def)
  note fl = bio_frame_log [OF fr(1)] frame_blk [OF fr(1)]
  have k: "k < length hl" "k < LOGBLOCKS" using Suc.prems assms(4) by simp_all
  have nin: "log_blk s k \<notin> set hl" using assms(6) k(2) by (auto simp: log_area_def)
  then have ne: "log_blk s k \<noteq> hl ! k" using nth_mem [OF k(1)] by metis
  have "\<exists>s'. install_one True k s1 = Inr s' \<and> moved s1 (hl ! k) (bval s1 (log_blk s k)) ((\<lambda>_. 0)(hl ! k := 0)) s'"
    using assms(2) assms(5) [OF k(1)] fl
    by (intro install_one_ok [OF fr(2) _ _ _ ne]) (simp_all add: NBUF_def MAXOPBLOCKS_def)
  then obtain s2 where s2: "install_one True k s1 = Inr s2" "moved s1 (hl ! k) (bval s1 (log_blk s k)) (\<lambda>_. 0) s2"
    by (auto simp: fun_upd_def)
  have "log_blk s k \<notin> fst ` set (map (\<lambda>t. (hl ! t, bval s (log_blk s t))) [0..<k])"
    using nin k(1) nth_mem by fastforce
  then have "bval s1 (log_blk s k) = bval s (log_blk s k)" using s1(2) wapply_other by (simp add: runs_def)
  then have "runs s (map (\<lambda>t. (hl ! t, bval s (log_blk s t))) [0..<Suc k]) (\<lambda>_. 0) s2"
    using runs_trans [OF s1(2) moved_runs [OF s2(2)]] by simp
  then show ?case using s1(1) s2(1) by (simp only: rfold_snoc rbind_simps) blast
qed

section \<open>commit\<close>

lemma log_upd [simp]:
  "bval (s\<lparr>lh_n := n\<rparr>) = bval s" "quiet r (s\<lparr>lh_n := n\<rparr>) = quiet r s" "bc_inv (s\<lparr>lh_n := n\<rparr>) = bc_inv s"
  "bval (s\<lparr>lh_block := bl\<rparr>) = bval s" "quiet r (s\<lparr>lh_block := bl\<rparr>) = quiet r s" "bc_inv (s\<lparr>lh_block := bl\<rparr>) = bc_inv s"
  "brefs (s\<lparr>lh_n := n\<rparr>) = brefs s" "brefs (s\<lparr>lh_block := bl\<rparr>) = brefs s"
  "bheld (s\<lparr>lh_n := n\<rparr>) = bheld s" "bheld (s\<lparr>lh_block := bl\<rparr>) = bheld s"
  "locked_by (s\<lparr>lh_n := n\<rparr>) i b = locked_by s i b" "locked_by (s\<lparr>lh_block := bl\<rparr>) i b = locked_by s i b"
  "log_blk (s\<lparr>lh_n := n\<rparr>) = log_blk s" "hdr_blk (s\<lparr>lh_n := n\<rparr>) = hdr_blk s"
  "log_blk (s\<lparr>lh_block := bl\<rparr>) = log_blk s" "hdr_blk (s\<lparr>lh_block := bl\<rparr>) = hdr_blk s"
  by (simp_all add: fun_eq_iff quiet_def bval_def bc_inv_def holds_def brefs_def bheld_def bslot_def locked_by_def
      mypid_def log_blk_def hdr_blk_def split: option.splits)

definition log_ready :: "'a lkernel_scheme \<Rightarrow> u32 list \<Rightarrow> bool" where
  "log_ready s bl \<longleftrightarrow> lh_n s = int (length bl) \<and> length bl + 2 \<le> NBUF \<and> bl \<noteq> [] \<and> length (lh_block s) = LOGBLOCKS \<and>
     take (length bl) (lh_block s) = bl \<and> log_dev s = 1 \<and> quiet (pins bl) s \<and> distinct bl \<and>
     set bl \<inter> log_area s = {} \<and> get32 (disk s (hdr_blk s)) 0 = 0"

definition commit_writes :: "'a lkernel_scheme \<Rightarrow> u32 list \<Rightarrow> (u32 \<times> block) list" where
  "commit_writes s bl =
     (let n = length bl; h = hdr_data (int n) (lh_block s) (disk s (hdr_blk s))
      in map (\<lambda>t. (log_blk s t, bval s (bl ! t))) [0..<n] @ [(hdr_blk s, h)] @
         map (\<lambda>t. (bl ! t, bval s (bl ! t))) [0..<n] @ [(hdr_blk s, hdr_data 0 (lh_block s) h)])"

lemma wapply_map:
  "(\<And>t t'. t < n \<Longrightarrow> t' < n \<Longrightarrow> f t = f t' \<Longrightarrow> t = t') \<Longrightarrow> t < n \<Longrightarrow> wapply d (map (\<lambda>t. (f t, g t)) [0..<n]) (f t) = g t"
proof (induction n)
  case (Suc n)
  show ?case
  proof (cases "t = n")
    case True
    then show ?thesis by (simp add: wapply_append)
  next
    case False
    then have "f t \<noteq> f n" "t < n" using Suc.prems by (metis less_Suc_eq lessI)+
    then show ?thesis using Suc.IH Suc.prems(1) by (simp add: wapply_append)
  qed
qed simp

lemma log_ready_facts:
  assumes "log_ready s bl"
  shows "length bl \<le> LOGBLOCKS" "\<And>t. t < length bl \<Longrightarrow> lh_block s ! t = bl ! t" "hdr_blk s \<notin> set bl"
    "\<And>t. t < length bl \<Longrightarrow> log_blk s t \<notin> set bl" "length (disk s b) = BSIZE"
    "b \<notin> set bl \<Longrightarrow> bval s b = disk s b"
proof -
  show le: "length bl \<le> LOGBLOCKS" using assms by (auto simp: log_ready_def LOGBLOCKS_def NBUF_def)
  show "lh_block s ! t = bl ! t" if "t < length bl" for t
    using assms that nth_take [of t "length bl" "lh_block s"] by (simp add: log_ready_def)
  show "hdr_blk s \<notin> set bl" using assms by (auto simp: log_ready_def log_area_def)
  show "log_blk s t \<notin> set bl" if "t < length bl" for t using assms that le by (auto simp: log_ready_def log_area_def)
  show "length (disk s b) = BSIZE" using assms bc_disk [of s b] by (simp add: log_ready_def quiet_def)
  show "bval s b = disk s b" if "b \<notin> set bl"
    using assms that by (intro brefs_0_clean(1)) (auto simp: log_ready_def quiet_def pins_def)
qed

lemma bio_frame_n: "bio_frame s s' \<Longrightarrow> bio_frame (s\<lparr>lh_n := n\<rparr>) (s'\<lparr>lh_n := n\<rparr>)"
  unfolding bio_frame_def
proof (elim exE)
  fix bs ps d w assume "s' = s\<lparr>bufs_of := bs, procs := ps, disk := d, dwrites := w\<rparr>"
  then have "s'\<lparr>lh_n := n\<rparr> = s\<lparr>lh_n := n\<rparr>\<lparr>bufs_of := bs, procs := ps, disk := d, dwrites := w\<rparr>" by simp
  then show "\<exists>bs ps d w. s'\<lparr>lh_n := n\<rparr> = s\<lparr>lh_n := n\<rparr>\<lparr>bufs_of := bs, procs := ps, disk := d, dwrites := w\<rparr>" by blast
qed

lemma commit_ok:
  assumes "log_ready s bl"
  shows "\<exists>s'. commit s = Inr s' \<and> quiet (\<lambda>_. 0) s' \<and> disk s' = wapply (disk s) (commit_writes s bl) \<and>
    dwrites s' = dwrites s @ commit_writes s bl \<and> bio_frame (s\<lparr>lh_n := 0\<rparr>) s'"
proof -
  note lr = assms [unfolded log_ready_def] and lf = log_ready_facts [OF assms]
  let ?n = "length bl" and ?H = "hdr_blk s"
  have n: "nat (lh_n s) = ?n" "lh_n s > 0" using lr by auto
  obtain s1 where s1: "rfold write_log_one [0..<?n] s = Inr s1"
    "runs s (map (\<lambda>t. (log_blk s t, bval s (bl ! t))) [0..<?n]) (pins bl) s1"
    using write_log_loop [of bl s ?n] lr lf(1,2) by auto
  have f1: "bio_frame s s1" "quiet (pins bl) s1" using s1(2) by (auto simp: runs_def)
  note g1 = bio_frame_log [OF f1(1)] frame_blk [OF f1(1)]
  have p: "pins bl ?H = 0" "card {b. pins bl b \<noteq> 0} + 1 \<le> NBUF" "card {b. pins bl b \<noteq> 0} + 2 \<le> NBUF"
    using lf(3) pins_bounds(2) [of bl] lr by (simp_all add: pins_def)
  have "log_blk s t \<noteq> ?H" if "t < ?n" for t using log_blk_hdr [of t s] lf(1) that by simp
  then have "?H \<notin> fst ` set (map (\<lambda>t. (log_blk s t, bval s (bl ! t))) [0..<?n])" by force
  then have h1: "bval s1 ?H = disk s ?H" using s1(2) wapply_other lf(3,6) by (simp add: runs_def)
  define h where "h = hdr_data (int ?n) (lh_block s) (disk s ?H)"
  obtain s2 where s2: "write_head s1 = Inr s2" "moved s1 ?H h (pins bl) s2"
    using write_head_ok [of "pins bl" s1 ?H] f1(2) g1 lr lf(1) p h1 by (auto simp: h_def)
  have f2: "bio_frame s s2" using bio_frame_trans f1(1) s2(2) by (auto simp: moved_def)
  note g2 = bio_frame_log [OF f2] frame_blk [OF f2]
  have v2: "bval s2 (log_blk s t) = bval s (bl ! t)" if "t < ?n" for t
  proof -
    have "bval s1 (log_blk s t) = bval s (bl ! t)"
      using s1(2) wapply_map [of ?n "log_blk s" t "bval s" "\<lambda>t. bval s (bl ! t)"] log_blk_inj [of s] lf(1) that
      by (auto simp: runs_def)
    then show ?thesis using s2(2) log_blk_hdr [of t s] lf(1) that by (simp add: moved_def)
  qed
  obtain s3 where s3: "rfold (install_one False) [0..<?n] s2 = Inr s3"
    "runs s2 (map (\<lambda>t. (bl ! t, bval s2 (log_blk s2 t))) [0..<?n]) (pins (drop ?n bl)) s3"
    using install_loop [of bl s2 ?n] lr lf(1,2) g2 s2(2) by (auto simp: moved_def log_area_def)
  have e3: "map (\<lambda>t. (bl ! t, bval s2 (log_blk s2 t))) [0..<?n] = map (\<lambda>t. (bl ! t, bval s (bl ! t))) [0..<?n]"
    using v2 g2 by simp
  have z: "pins [] = (\<lambda>_. 0)" by (simp add: pins_def fun_eq_iff)
  have f3: "bio_frame s s3" using bio_frame_trans [OF f2] s3(2) by (auto simp: runs_def)
  note g3 = bio_frame_log [OF f3] frame_blk [OF f3]
  have "?H \<notin> fst ` set (map (\<lambda>t. (bl ! t, bval s (bl ! t))) [0..<?n])" using lf(3) nth_mem by fastforce
  then have h3: "bval s3 ?H = h" using s3(2) s2(2) wapply_other unfolding e3 by (simp add: runs_def moved_def)
  have q3: "quiet (\<lambda>_. 0) s3" using s3(2) by (simp add: runs_def z)
  obtain s4 where s4: "write_head (s3\<lparr>lh_n := 0\<rparr>) = Inr s4" "moved (s3\<lparr>lh_n := 0\<rparr>) ?H (hdr_data 0 (lh_block s) h) (\<lambda>_. 0) s4"
    using write_head_ok [of "\<lambda>_. 0" "s3\<lparr>lh_n := 0\<rparr>" ?H] q3 g3 lr h3
    by (auto simp: NBUF_def MAXOPBLOCKS_def)
  have "commit s = Inr s4"
    using n s1(1) s2(1) s3(1) s4(1) g1(5) g2(5) by (simp add: commit_def write_log_def install_trans_def)
  moreover have "disk s4 = wapply (disk s) (commit_writes s bl)" "dwrites s4 = dwrites s @ commit_writes s bl"
    using s4(2) s3(2) s2(2) s1(2) unfolding e3
    by (simp_all add: runs_def moved_def commit_writes_def Let_def h_def [symmetric] wapply_append)
  moreover have "quiet (\<lambda>_. 0) s4" "bio_frame (s\<lparr>lh_n := 0\<rparr>) s4"
    using s4(2) bio_frame_trans [OF bio_frame_n [OF f3]] by (simp_all add: moved_def)
  ultimately show ?thesis by blast
qed

section \<open>Recovery\<close>

definition hdr_list :: "block \<Rightarrow> u32 list" where
  "hdr_list d = map (\<lambda>i. get32 d (4 + 4 * i)) [0..<nat (sint (get32 d 0))]"

lemma fold_update_list:
  "k \<le> length xs \<Longrightarrow> length (fold (\<lambda>i bs. bs[i := f i]) [0..<k] xs) = length xs \<and>
    (\<forall>i < k. fold (\<lambda>i bs. bs[i := f i]) [0..<k] xs ! i = f i)"
  by (induction k) (auto simp: nth_list_update less_Suc_eq)

lemma read_head_ok:
  assumes "quiet (\<lambda>_. 0) s" "log_dev s = 1" "length (lh_block s) = LOGBLOCKS" "sint (get32 (disk s (hdr_blk s)) 0) \<le> int LOGBLOCKS"
  shows "\<exists>s'. read_head s = Inr s' \<and> quiet (\<lambda>_. 0) s' \<and> disk s' = disk s \<and> dwrites s' = dwrites s \<and> log_dev s' = 1 \<and>
    log_start s' = log_start s \<and> nat (lh_n s') = length (hdr_list (disk s (hdr_blk s))) \<and>
    (\<forall>t < length (hdr_list (disk s (hdr_blk s))). lh_block s' ! t = hdr_list (disk s (hdr_blk s)) ! t)"
proof -
  let ?H = "hdr_blk s" and ?d = "disk s (hdr_blk s)"
  obtain i s1 where b: "bread ROOTDEV ?H s = Inr (i, s1)" "bc_inv s1" "bval s1 = bval s" "brefs s1 = (\<lambda>_. 0)(?H := 0 + 1)"
    "bheld s1 = (\<lambda>b. b = ?H)" "locked_by s1 i ?H" "bio_frame s s1" "disk s1 = disk s" "dwrites s1 = dwrites s"
    using bread_one [OF assms(1), of ?H] by (auto simp: NBUF_def MAXOPBLOCKS_def)
  have clean: "bval s ?H = ?d" using assms(1) by (intro brefs_0_clean(1)) (simp_all add: quiet_def)
  have d: "bdata (buf_at s1 i) = ?d" using locked_bval [OF b(2,6)] b(3) clean by simp
  note f = bio_frame_log [OF b(7)]
  define n where "n = sint (get32 ?d 0)"
  define t where "t = s1\<lparr>lh_n := n, lh_block := fold (\<lambda>i bs. bs[i := get32 ?d (4 + 4 * i)]) [0..<nat n] (lh_block s)\<rparr>"
  have t: "bc_inv t" "locked_by t i ?H" "bval t ?H = disk t ?H" "brefs t = brefs s1" "bheld t = bheld s1" "disk t = disk s"
    "dwrites t = dwrites s"
    using b clean by (simp_all add: t_def)
  obtain s2 where s2: "brelse i t = Inr s2" "bstate t ?H (bval t ?H) (brefs t ?H - 1) False s2" "bio_frame t s2"
    "disk s2 = disk t" "dwrites s2 = dwrites t"
    using brelse_step [OF t(1,2)] t(3) by auto
  have "read_head s = Inr s2"
    using b(1) s2(1) assms(2,4) f d
    by (simp add: read_head_def hdr_blk_def ROOTDEV_def Let_def t_def n_def)
  moreover have "quiet (\<lambda>_. 0) s2" using s2(2) t(4,5) b(4,5) by (auto simp: quiet_def bstate_def fun_eq_iff)
  moreover have "nat n \<le> length (lh_block s)" using assms(3,4) by (simp add: n_def)
  then have "\<forall>k < nat n. lh_block s2 ! k = get32 ?d (4 + 4 * k)"
    using bio_frame_log(6) [OF s2(3)] fold_update_list [of "nat n" "lh_block s"] by (simp add: t_def)
  moreover have "log_dev s2 = 1" "log_start s2 = log_start s" "lh_n s2 = n"
    using bio_frame_log [OF s2(3)] f assms(2) by (simp_all add: t_def)
  ultimately show ?thesis using s2(4,5) t(6,7) by (intro exI [of _ s2]) (simp add: hdr_list_def n_def)
qed

definition recover_writes :: "'a lkernel_scheme \<Rightarrow> (u32 \<times> block) list" where
  "recover_writes s =
     (let hl = hdr_list (disk s (hdr_blk s))
      in map (\<lambda>t. (hl ! t, disk s (log_blk s t))) [0..<length hl] @ [(hdr_blk s, put32 (disk s (hdr_blk s)) 0 0)])"

lemma recover_ok:
  fixes s :: "'a lkernel_scheme"
  assumes "quiet (\<lambda>_. 0) s" "log_dev s = 1" "length (lh_block s) = LOGBLOCKS"
    "sint (get32 (disk s (hdr_blk s)) 0) \<le> int LOGBLOCKS" "set (hdr_list (disk s (hdr_blk s))) \<inter> log_area s = {}"
  defines "hl \<equiv> hdr_list (disk s (hdr_blk s))"
  shows "\<exists>s'. recover_from_log s = Inr s' \<and> quiet (\<lambda>_. 0) s' \<and>
    disk s' = wapply (disk s) (recover_writes s) \<and> dwrites s' = dwrites s @ recover_writes s"
proof -
  let ?H = "hdr_blk s"
  obtain s1 where s1: "read_head s = Inr s1" "quiet (\<lambda>_. 0) s1" "disk s1 = disk s" "dwrites s1 = dwrites s" "log_dev s1 = 1"
    "log_start s1 = log_start s" "nat (lh_n s1) = length hl" "\<forall>t < length hl. lh_block s1 ! t = hl ! t"
    using read_head_ok [OF assms(1-4)] unfolding hl_def by auto
  have pos: "log_blk s1 = log_blk s" "hdr_blk s1 = ?H" using s1(6) by (simp_all add: log_blk_def hdr_blk_def fun_eq_iff)
  have le: "length hl \<le> LOGBLOCKS" using assms(4) by (simp add: hl_def hdr_list_def)
  have c1: "bval s1 = disk s" using s1(2,3) brefs_0_clean(1) [of s1] by (auto simp: quiet_def fun_eq_iff)
  obtain s2 where s2: "rfold (install_one True) [0..<length hl] s1 = Inr s2"
    "runs s1 (map (\<lambda>t. (hl ! t, bval s1 (log_blk s1 t))) [0..<length hl]) (\<lambda>_. 0) s2"
    using recover_loop [OF s1(2,5), of "length hl" hl] s1(8) assms(5) le pos
    by (auto simp: log_area_def hl_def)
  have f2: "bio_frame s1 s2" "quiet (\<lambda>_. 0) s2" using s2(2) by (auto simp: runs_def)
  note g2 = bio_frame_log [OF f2(1)] frame_blk [OF f2(1)]
  have "?H \<notin> set hl" using assms(5) by (auto simp: log_area_def hl_def)
  then have "hl ! t \<noteq> ?H" if "t < length hl" for t using nth_mem [OF that] by metis
  then have "?H \<notin> fst ` set (map (\<lambda>t. (hl ! t, bval s1 (log_blk s1 t))) [0..<length hl])" by force
  then have h: "bval s2 ?H = disk s ?H" using s2(2) wapply_other c1 by (simp add: runs_def)
  have "\<exists>s'. write_head (s2\<lparr>lh_n := 0\<rparr>) = Inr s' \<and> moved (s2\<lparr>lh_n := 0\<rparr>) ?H (hdr_data 0 (lh_block s2) (bval s2 ?H)) (\<lambda>_. 0) s'"
    using write_head_ok [of "\<lambda>_. 0" "s2\<lparr>lh_n := 0\<rparr>" ?H] f2(2) g2 s1(5) pos(2) by (simp add: NBUF_def MAXOPBLOCKS_def)
  then obtain s3 where s3: "write_head (s2\<lparr>lh_n := 0\<rparr>) = Inr s3"
    "moved (s2\<lparr>lh_n := 0\<rparr>) ?H (hdr_data 0 (lh_block s2) (bval s2 ?H)) (\<lambda>_. 0) s3" by blast
  have "recover_from_log s = Inr s3"
    using s1(1,7) s2(1) s3(1) by (simp add: recover_from_log_def install_trans_def)
  moreover have "disk s3 = (disk s2)(?H := put32 (disk s ?H) 0 0)" "dwrites s3 = dwrites s2 @ [(?H, put32 (disk s ?H) 0 0)]"
    using s3(2) h by (simp_all add: moved_def hdr_data_def)
  then have "disk s3 = wapply (disk s) (recover_writes s)" "dwrites s3 = dwrites s @ recover_writes s"
    using s2(2) c1 s1(3,4) pos(1) by (simp_all add: runs_def recover_writes_def Let_def hl_def wapply_append)
  ultimately show ?thesis using s3(2) by (auto simp: moved_def)
qed

end
