(* ===== verification/Log_Recover.thy ===== *)
theory Log_Recover
  imports Log_Crash
begin

text \<open>
  Crash atomicity of the log: a machine that stops after any prefix of the block writes of a commit
  and is started again with that disk recovers either the disk from before the transaction or the
  one with all of it.
\<close>

section \<open>Disks left behind by a crash\<close>

lemma take_commit:
  fixes s :: "'a lkernel_scheme" and bl :: "u32 list"
  assumes "k \<le> 2 * length bl + 2"
  defines "A \<equiv> map (\<lambda>t. (log_blk s t, bval s (bl ! t))) [0..<length bl]"
    and "C \<equiv> map (\<lambda>t. (bl ! t, bval s (bl ! t))) [0..<length bl]"
    and "h \<equiv> hdr_data (int (length bl)) (lh_block s) (disk s (hdr_blk s))"
  shows "take k (commit_writes s bl) =
    (if k \<le> length bl then take k A
     else if k < 2 * length bl + 2 then A @ [(hdr_blk s, h)] @ take (k - length bl - 1) C
     else A @ [(hdr_blk s, h)] @ C @ [(hdr_blk s, hdr_data 0 (lh_block s) h)])"
proof -
  have "length A = length bl" "length C = length bl" by (simp_all add: A_def C_def)
  moreover have "commit_writes s bl = A @ [(hdr_blk s, h)] @ C @ [(hdr_blk s, hdr_data 0 (lh_block s) h)]"
    by (simp add: commit_writes_def Let_def A_def C_def h_def)
  ultimately show ?thesis using assms(1) by (auto simp: take_Cons' not_le)
qed

lemma wapply_keys:
  assumes "b \<notin> f ` {..<n}"
  shows "wapply d (take k (map (\<lambda>t. (f t, g t)) [0..<n])) b = d b"
proof (rule wapply_other, rule notI)
  assume "b \<in> fst ` set (take k (map (\<lambda>t. (f t, g t)) [0..<n]))"
  then obtain x where x: "x \<in> set (take k (map (\<lambda>t. (f t, g t)) [0..<n]))" "b = fst x" by blast
  then have "x \<in> (\<lambda>t. (f t, g t)) ` {0..<n}" using in_set_takeD [OF x(1)] by simp
  then show False using assms x(2) by auto
qed

lemma set_image_nth: "(!) bl ` {..<length bl} = set bl"
  by (auto simp: in_set_conv_nth)

lemma crash_before:
  fixes s :: "'a lkernel_scheme" and bl :: "u32 list" and k :: nat
  assumes "log_ready s bl" "k \<le> length bl"
  defines "d \<equiv> wapply (disk s) (take k (commit_writes s bl))"
  shows "get32 (d (hdr_blk s)) 0 = 0" "\<And>b. b \<notin> log_area s \<Longrightarrow> d b = disk s b"
proof -
  have d: "d = wapply (disk s) (take k (map (\<lambda>t. (log_blk s t, bval s (bl ! t))) [0..<length bl]))"
    using take_commit [of k bl s] assms(2) by (simp add: d_def)
  have le: "length bl \<le> LOGBLOCKS" using log_ready_facts(1) [OF assms(1)] .
  have o: "d b = disk s b" if "b \<notin> log_blk s ` {..<length bl}" for b
    unfolding d by (rule wapply_keys [OF that])
  have "hdr_blk s \<notin> log_blk s ` {..<length bl}" using log_blk_hdr [of _ s] le by (auto dest!: sym [of "hdr_blk s"])
  then show "get32 (d (hdr_blk s)) 0 = 0" using o assms(1) by (simp add: log_ready_def)
  show "d b = disk s b" if "b \<notin> log_area s" for b using o that le by (force simp: log_area_def)
qed

lemma log_part:
  assumes "log_ready s bl" "t < length bl"
  shows "wapply (disk s) (map (\<lambda>t. (log_blk s t, bval s (bl ! t))) [0..<length bl]) (log_blk s t) = bval s (bl ! t)"
  by (rule wapply_map) (use log_blk_inj [of s] log_ready_facts(1) [OF assms(1)] assms(2) in auto)

lemma crash_between:
  fixes s :: "'a lkernel_scheme" and bl :: "u32 list" and k :: nat
  assumes "log_ready s bl" "length bl < k" "k < 2 * length bl + 2"
  defines "d \<equiv> wapply (disk s) (take k (commit_writes s bl))"
  shows "d (hdr_blk s) = hdr_data (int (length bl)) (lh_block s) (disk s (hdr_blk s))"
    "\<And>t. t < length bl \<Longrightarrow> d (log_blk s t) = bval s (bl ! t)"
    "\<And>b. b \<notin> log_area s \<Longrightarrow> b \<notin> set bl \<Longrightarrow> d b = disk s b"
proof -
  let ?A = "map (\<lambda>t. (log_blk s t, bval s (bl ! t))) [0..<length bl]"
  let ?C = "take (k - length bl - 1) (map (\<lambda>t. (bl ! t, bval s (bl ! t))) [0..<length bl])"
  let ?h = "hdr_data (int (length bl)) (lh_block s) (disk s (hdr_blk s))"
  have d: "d = wapply ((wapply (disk s) ?A)(hdr_blk s := ?h)) ?C"
    using take_commit [of k bl s] assms(2,3) by (simp add: d_def wapply_append)
  note lf = log_ready_facts [OF assms(1)]
  have o: "d b = ((wapply (disk s) ?A)(hdr_blk s := ?h)) b" if "b \<notin> set bl" for b
    unfolding d by (rule wapply_keys) (use that in \<open>simp add: set_image_nth\<close>)
  show "d (hdr_blk s) = ?h" using o [OF lf(3)] by simp
  show "d (log_blk s t) = bval s (bl ! t)" if "t < length bl" for t
    using o [OF lf(4) [OF that]] log_part [OF assms(1) that] log_blk_hdr [of t s] lf(1) that by simp
  show "d b = disk s b" if b: "b \<notin> log_area s" "b \<notin> set bl" for b
  proof -
    have "b \<notin> fst ` set ?A" using b(1) lf(1) by (force simp: log_area_def)
    then show ?thesis using o [OF b(2)] b(1) by (simp add: wapply_other log_area_def)
  qed
qed

lemma crash_after:
  fixes s :: "'a lkernel_scheme" and bl :: "u32 list"
  assumes "log_ready s bl"
  defines "d \<equiv> wapply (disk s) (commit_writes s bl)"
  shows "get32 (d (hdr_blk s)) 0 = 0" "\<And>b. b \<notin> log_area s \<Longrightarrow> d b = bval s b"
proof -
  let ?h = "hdr_data (int (length bl)) (lh_block s) (disk s (hdr_blk s))"
  let ?C = "map (\<lambda>t. (bl ! t, bval s (bl ! t))) [0..<length bl]"
  note lf = log_ready_facts [OF assms(1)]
  have len: "length ?h = BSIZE" using hdr_data_fields(1) [OF lf(5)] lf(1) by simp
  define e where "e = wapply (disk s) (take (2 * length bl + 1) (commit_writes s bl))"
  have cw: "commit_writes s bl = take (2 * length bl + 1) (commit_writes s bl) @ [(hdr_blk s, hdr_data 0 (lh_block s) ?h)]"
    using take_commit [of "2 * length bl + 1" bl s] by (simp add: commit_writes_def Let_def)
  have d: "d = e(hdr_blk s := hdr_data 0 (lh_block s) ?h)"
    unfolding d_def e_def by (subst cw) (simp add: wapply_append)
  have "hdr_data 0 (lh_block s) ?h = put32 ?h 0 0" by (simp add: hdr_data_def)
  then show "get32 (d (hdr_blk s)) 0 = 0" using d len by (simp add: BSIZE_def)
  show "d b = bval s b" if b: "b \<notin> log_area s" for b
  proof -
    have db: "d b = e b" using d b by (simp add: log_area_def)
    show ?thesis
    proof (cases "b \<in> set bl")
      case False
      then show ?thesis using db crash_between(3) [OF assms(1), of "2 * length bl + 1" b] b lf(6)
        by (simp add: e_def)
    next
      case True
      then obtain t where t: "t < length bl" "bl ! t = b" by (metis in_set_conv_nth)
      have "distinct bl" using assms(1) by (simp add: log_ready_def)
      then have "wapply x ?C (bl ! t) = bval s (bl ! t)" for x
        using t(1) by (intro wapply_map) (auto simp: nth_eq_iff_index_eq)
      moreover have "e = wapply ((wapply (disk s) (map (\<lambda>t. (log_blk s t, bval s (bl ! t))) [0..<length bl]))(hdr_blk s := ?h)) ?C"
        using take_commit [of "2 * length bl + 1" bl s] by (simp add: e_def wapply_append)
      ultimately show ?thesis using db t(2) by simp
    qed
  qed
qed

section \<open>Starting from a disk\<close>

lemma wapply_covered: "b \<in> fst ` set ws \<Longrightarrow> wapply d ws b = wapply e ws b"
proof (induction ws rule: rev_induct)
  case (snoc w ws)
  then show ?case by (cases w) (auto simp: wapply_append)
qed simp

text \<open>A kernel that has just been loaded: zeroed buffers and log, and a disk.\<close>

definition fresh_kernel :: "'a lkernel_scheme \<Rightarrow> bool" where
  "fresh_kernel k \<longleftrightarrow> raw_bufs k \<and> length (lh_block k) = LOGBLOCKS"

lemma initlog_boot:
  assumes "fresh_kernel k" "sint (get32 (disk k ls) 0) \<le> int LOGBLOCKS"
    "set (hdr_list (disk k ls)) \<inter> log_area (k\<lparr>log_start := sint ls\<rparr>) = {}"
  shows "\<exists>k'. initlog 1 ls (binit k) = Inr k' \<and> quiet (\<lambda>_. 0) k' \<and>
    disk k' = wapply (disk k) (recover_writes (k\<lparr>log_start := sint ls\<rparr>)) \<and>
    dwrites k' = dwrites k @ recover_writes (k\<lparr>log_start := sint ls\<rparr>)"
proof -
  have b: "bc_inv (binit k)" "brefs (binit k) = (\<lambda>_. 0)" "bheld (binit k) = (\<lambda>_. False)"
    "binit k = k\<lparr>bufs_of := bufs_of (binit k)\<rparr>"
    using binit_ok [of k] assms(1) by (simp_all add: fresh_kernel_def)
  have f: "disk (binit k) = disk k" "dwrites (binit k) = dwrites k" "lh_block (binit k) = lh_block k" by (subst b(4), simp)+
  define s where "s = (binit k)\<lparr>log_start := sint ls, log_dev := 1\<rparr>"
  have u: "quiet (\<lambda>_. 0) s"
    using b(1-3) by (simp add: s_def quiet_def bc_inv_def brefs_def bheld_def bslot_def holds_def fun_eq_iff split: option.splits)
  have h: "hdr_blk s = ls" "log_area s = log_area (k\<lparr>log_start := sint ls\<rparr>)"
    "recover_writes s = recover_writes (k\<lparr>log_start := sint ls\<rparr>)"
    by (simp_all add: s_def hdr_blk_def log_area_def log_blk_def recover_writes_def f)
  have "\<exists>k'. recover_from_log s = Inr k' \<and> quiet (\<lambda>_. 0) k' \<and>
    disk k' = wapply (disk s) (recover_writes s) \<and> dwrites k' = dwrites s @ recover_writes s"
    by (rule recover_ok [OF u]) (use assms f h in \<open>simp_all add: s_def fresh_kernel_def\<close>)
  then show ?thesis using f h(3)
    by (simp add: initlog_def LOGBLOCKS_def MAXOPBLOCKS_def BSIZE_def s_def)
qed

text \<open>The disk after recovery, away from the log.\<close>

lemma recovered:
  fixes k :: "'a lkernel_scheme" and ls :: u32
  assumes "fresh_kernel k" "set (hdr_list (disk k ls)) \<inter> log_area (k\<lparr>log_start := sint ls\<rparr>) = {}"
  defines "hl \<equiv> hdr_list (disk k ls)" and "k0 \<equiv> k\<lparr>log_start := sint ls\<rparr>"
  defines "d \<equiv> wapply (disk k) (recover_writes k0)"
  shows "get32 (d ls) 0 = 0"
    "\<And>b. b \<notin> log_area k0 \<Longrightarrow> d b = wapply (disk k) (map (\<lambda>t. (hl ! t, disk k (log_blk k0 t))) [0..<length hl]) b"
proof -
  have h: "hdr_blk k0 = ls" by (simp add: k0_def hdr_blk_def)
  have d: "d = (wapply (disk k) (map (\<lambda>t. (hl ! t, disk k (log_blk k0 t))) [0..<length hl]))(ls := put32 (disk k ls) 0 0)"
    using h by (simp add: d_def recover_writes_def Let_def hl_def k0_def wapply_append)
  have "length (disk k ls) = BSIZE" using assms(1) by (simp add: fresh_kernel_def raw_bufs_def)
  then show "get32 (d ls) 0 = 0" unfolding d by (simp add: BSIZE_def)
  show "d b = wapply (disk k) (map (\<lambda>t. (hl ! t, disk k (log_blk k0 t))) [0..<length hl]) b" if "b \<notin> log_area k0" for b
    using that h unfolding d by (auto simp: log_area_def)
qed

lemma hdr_list_0: "get32 d 0 = 0 \<Longrightarrow> hdr_list d = []"
  by (simp add: hdr_list_def)

lemma hdr_list_data:
  assumes "length d = BSIZE" "length bl \<le> LOGBLOCKS" "\<And>t. t < length bl \<Longrightarrow> hb ! t = bl ! t"
  shows "hdr_list (hdr_data (int (length bl)) hb d) = bl" "sint (get32 (hdr_data (int (length bl)) hb d) 0) = int (length bl)"
proof -
  note f = hdr_data_fields [OF assms(1), where n = "int (length bl)" and bl = hb]
  show n: "sint (get32 (hdr_data (int (length bl)) hb d) 0) = int (length bl)" using f(2) assms(2) by simp
  have "get32 (hdr_data (int (length bl)) hb d) (4 + 4 * t) = bl ! t" if "t < length bl" for t
  proof -
    have "t < nat (int (length bl))" "0 \<le> int (length bl)" "int (length bl) \<le> int LOGBLOCKS" using that assms(2) by simp_all
    then have "get32 (hdr_data (int (length bl)) hb d) (4 + 4 * t) = hb ! t" by (intro f(3))
    then show ?thesis by (rule trans) (rule assms(3) [OF that])
  qed
  then show "hdr_list (hdr_data (int (length bl)) hb d) = bl" unfolding hdr_list_def n by (intro nth_equalityI) (simp_all del: mult_Suc_right)
qed

lemma commit_crash_disk:
  fixes s :: "'a lkernel_scheme" and k :: "'b lkernel_scheme"
  assumes "log_ready s bl" "log_start s = sint ls" "n \<le> 2 * length bl + 2" "fresh_kernel k"
    "disk k = wapply (disk s) (take n (commit_writes s bl))"
  defines "k0 \<equiv> k\<lparr>log_start := sint ls\<rparr>"
  shows "sint (get32 (disk k ls) 0) \<le> int LOGBLOCKS \<and> set (hdr_list (disk k ls)) \<inter> log_area k0 = {} \<and>
    (\<forall>b. b \<notin> log_area k0 \<longrightarrow>
      wapply (disk k) (map (\<lambda>t. (hdr_list (disk k ls) ! t, disk k (log_blk k0 t))) [0..<length (hdr_list (disk k ls))]) b =
      (if n \<le> length bl then disk s b else bval s b))"
proof -
  note lf = log_ready_facts [OF assms(1)]
  have ar: "log_area k0 = log_area s" "log_blk k0 = log_blk s" "hdr_blk s = ls"
    using assms(2) by (simp_all add: k0_def log_area_def log_blk_def hdr_blk_def fun_eq_iff)
  have clean: ?thesis if z: "get32 (disk k ls) 0 = 0"
    "\<And>b. b \<notin> log_area s \<Longrightarrow> disk k b = (if n \<le> length bl then disk s b else bval s b)"
    using z by (simp add: hdr_list_0 ar)
  consider "n \<le> length bl" | "length bl < n" "n < 2 * length bl + 2" | "n = 2 * length bl + 2" using assms(3) by linarith
  then show ?thesis
  proof cases
    case 1
    then show ?thesis using crash_before [OF assms(1) 1] unfolding assms(5) [symmetric] ar(3) by (intro clean) auto
  next
    case 2
    note c = crash_between [OF assms(1) 2, folded assms(5), unfolded ar(3)]
    note h = hdr_list_data [OF lf(5) lf(1) lf(2), of ls, unfolded ar(3)]
    have hl: "hdr_list (disk k ls) = bl" "sint (get32 (disk k ls) 0) = int (length bl)" unfolding c(1) using h by simp_all
    have m: "map (\<lambda>t. (bl ! t, disk k (log_blk s t))) [0..<length bl] = map (\<lambda>t. (bl ! t, bval s (bl ! t))) [0..<length bl]"
      using c(2) by simp
    have di: "distinct bl" "set bl \<inter> log_area s = {}" using assms(1) by (simp_all add: log_ready_def)
    have "wapply (disk k) (map (\<lambda>t. (bl ! t, bval s (bl ! t))) [0..<length bl]) b = bval s b" if b: "b \<notin> log_area s" for b
    proof (cases "b \<in> set bl")
      case True
      then obtain t where "t < length bl" "bl ! t = b" by (metis in_set_conv_nth)
      then show ?thesis
        using wapply_map [of "length bl" "(!) bl" t "disk k" "\<lambda>t. bval s (bl ! t)"] di(1) by (auto simp: nth_eq_iff_index_eq)
    next
      case False
      then have "b \<notin> fst ` set (map (\<lambda>t. (bl ! t, bval s (bl ! t))) [0..<length bl])" by auto
      then show ?thesis using c(3) [OF b False] lf(6) [OF False] by (simp add: wapply_other)
    qed
    then show ?thesis using hl ar di(2) lf(1) 2 by (simp add: m)
  next
    case 3
    then have "take n (commit_writes s bl) = commit_writes s bl" by (simp add: commit_writes_def Let_def)
    then have "disk k = wapply (disk s) (commit_writes s bl)" using assms(5) by simp
    then show ?thesis using crash_after [OF assms(1)] 3 unfolding ar(3) by (intro clean) auto
  qed
qed

lemma recover_crash_disk:
  fixes k :: "'a lkernel_scheme" and k2 :: "'b lkernel_scheme"
  assumes "fresh_kernel k" "sint (get32 (disk k ls) 0) \<le> int LOGBLOCKS"
    "set (hdr_list (disk k ls)) \<inter> log_area (k\<lparr>log_start := sint ls\<rparr>) = {}" "fresh_kernel k2"
    "disk k2 = wapply (disk k) (take n (recover_writes (k\<lparr>log_start := sint ls\<rparr>)))"
  shows "sint (get32 (disk k2 ls) 0) \<le> int LOGBLOCKS"
    "set (hdr_list (disk k2 ls)) \<inter> log_area (k2\<lparr>log_start := sint ls\<rparr>) = {}"
    "\<And>b. b \<notin> log_area (k\<lparr>log_start := sint ls\<rparr>) \<Longrightarrow>
      wapply (disk k2) (map (\<lambda>t. (hdr_list (disk k2 ls) ! t, disk k2 (log_blk (k2\<lparr>log_start := sint ls\<rparr>) t))) [0..<length (hdr_list (disk k2 ls))]) b =
      wapply (disk k) (map (\<lambda>t. (hdr_list (disk k ls) ! t, disk k (log_blk (k\<lparr>log_start := sint ls\<rparr>) t))) [0..<length (hdr_list (disk k ls))]) b"
proof -
  let ?k = "k\<lparr>log_start := sint ls\<rparr>" and ?k2 = "k2\<lparr>log_start := sint ls\<rparr>"
  define hl where "hl = hdr_list (disk k ls)"
  let ?M = "map (\<lambda>t. (hl ! t, disk k (log_blk ?k t))) [0..<length hl]"
  have ar: "log_area ?k2 = log_area ?k" "log_blk ?k2 = log_blk ?k" "hdr_blk ?k = ls"
    by (simp_all add: log_area_def log_blk_def hdr_blk_def fun_eq_iff)
  have nin: "set hl \<inter> log_area ?k = {}" "length hl \<le> LOGBLOCKS" using assms(2,3) by (simp_all add: hl_def hdr_list_def)
  have rw: "recover_writes ?k = ?M @ [(ls, put32 (disk k ls) 0 0)]"
    using ar(3) by (simp add: recover_writes_def Let_def hl_def)
  have "sint (get32 (disk k2 ls) 0) \<le> int LOGBLOCKS \<and> set (hdr_list (disk k2 ls)) \<inter> log_area ?k2 = {} \<and>
      (\<forall>b. b \<notin> log_area ?k \<longrightarrow>
        wapply (disk k2) (map (\<lambda>t. (hdr_list (disk k2 ls) ! t, disk k2 (log_blk ?k2 t))) [0..<length (hdr_list (disk k2 ls))]) b =
        wapply (disk k) ?M b)"
  proof (cases "n \<le> length hl")
    case True
    then have d2: "disk k2 = wapply (disk k) (take n ?M)" using assms(5) rw by simp
    have o: "disk k2 b = disk k b" if "b \<notin> set hl" for b
      unfolding d2 by (rule wapply_keys) (use that in \<open>simp add: set_image_nth\<close>)
    have "ls \<in> log_area ?k" using ar(3) by (simp add: log_area_def)
    then have l: "disk k2 ls = disk k ls" using o nin(1) by blast
    have "log_blk ?k t \<in> log_area ?k" if "t < length hl" for t using that nin(2) by (simp add: log_area_def)
    then have "disk k2 (log_blk ?k t) = disk k (log_blk ?k t)" if "t < length hl" for t using o nin(1) that by blast
    then have m: "map (\<lambda>t. (hl ! t, disk k2 (log_blk ?k2 t))) [0..<length hl] = ?M" using ar(2) by simp
    have "wapply (disk k2) ?M b = wapply (disk k) ?M b" for b
    proof (cases "b \<in> fst ` set ?M")
      case False
      then have "b \<notin> set hl" by (auto simp: in_set_conv_nth image_iff)
      then show ?thesis using o False by (simp add: wapply_other)
    qed (rule wapply_covered)
    then show ?thesis using assms(2) nin(1) by (simp add: l m hl_def [symmetric] ar(1))
  next
    case False
    then have "take n (recover_writes ?k) = recover_writes ?k" using rw by simp
    then have d2: "disk k2 = wapply (disk k) (recover_writes ?k)" using assms(5) by simp
    then have "get32 (disk k2 ls) 0 = 0" "\<And>b. b \<notin> log_area ?k \<Longrightarrow> disk k2 b = wapply (disk k) ?M b"
      using recovered [OF assms(1,3)] by (simp_all add: hl_def)
    then show ?thesis by (simp add: hdr_list_0)
  qed
  then show "sint (get32 (disk k2 ls) 0) \<le> int LOGBLOCKS"
    "set (hdr_list (disk k2 ls)) \<inter> log_area ?k2 = {}"
    "\<And>b. b \<notin> log_area ?k \<Longrightarrow>
      wapply (disk k2) (map (\<lambda>t. (hdr_list (disk k2 ls) ! t, disk k2 (log_blk ?k2 t))) [0..<length (hdr_list (disk k2 ls))]) b =
      wapply (disk k) (map (\<lambda>t. (hdr_list (disk k ls) ! t, disk k (log_blk ?k t))) [0..<length (hdr_list (disk k ls))]) b"
    by (simp_all add: hl_def)
qed

end
