(* ===== verification/Log_Tx.thy ===== *)
theory Log_Tx
  imports Log_Recover
begin

text \<open>
  The log as the file system uses it: inside a transaction, blocks are read and updated in the
  cache, and nothing reaches the disk before the commit. \<open>tx s bl\<close> says that a transaction is open
  in which the blocks \<open>bl\<close> were changed.
\<close>

section \<open>Open transactions\<close>

definition tx :: "'a lkernel_scheme \<Rightarrow> u32 list \<Rightarrow> bool" where
  "tx s bl \<longleftrightarrow> lh_n s = int (length bl) \<and> length bl \<le> LOGBLOCKS \<and> length (lh_block s) = LOGBLOCKS \<and>
     take (length bl) (lh_block s) = bl \<and> log_dev s = 1 \<and> quiet (pins bl) s \<and> distinct bl \<and>
     set bl \<inter> log_area s = {} \<and> get32 (disk s (hdr_blk s)) 0 = 0 \<and> 1 \<le> outstanding s"

definition ladd :: "u32 \<Rightarrow> u32 list \<Rightarrow> u32 list" where
  "ladd b bl = (if b \<in> set bl then bl else bl @ [b])"

definition tx_frame :: "'a lkernel_scheme \<Rightarrow> 'a lkernel_scheme \<Rightarrow> bool" where
  "tx_frame s s' \<longleftrightarrow> (\<exists>bs ps n hb. s' = s\<lparr>bufs_of := bs, procs := ps, lh_n := n, lh_block := hb\<rparr>)"

lemma tx_frame_trans: "tx_frame s s1 \<Longrightarrow> tx_frame s1 s2 \<Longrightarrow> tx_frame s s2"
  unfolding tx_frame_def by (elim exE) (intro exI, simp)

lemma tx_frame_intro: "tx_frame s (s\<lparr>bufs_of := bs, procs := ps, lh_n := n, lh_block := hb\<rparr>)"
  unfolding tx_frame_def by blast

lemma tx_frame_refl [simp]: "tx_frame s s"
  using tx_frame_intro [where s = s and bs = "bufs_of s" and ps = "procs s" and n = "lh_n s" and hb = "lh_block s"] by simp

lemma tx_frame_bio:
  fixes s s' :: "'a lkernel_scheme"
  assumes "bio_frame s s'" "disk s' = disk s" "dwrites s' = dwrites s"
  shows "tx_frame s s'"
proof -
  obtain bs ps d w where e: "s' = s\<lparr>bufs_of := bs, procs := ps, disk := d, dwrites := w\<rparr>"
    using assms(1) by (auto simp: bio_frame_def)
  then have "s' = s\<lparr>bufs_of := bs, procs := ps, lh_n := lh_n s, lh_block := lh_block s\<rparr>" using assms(2,3) by simp
  then show ?thesis using tx_frame_intro by metis
qed

lemma tx_frame_log:
  assumes "tx_frame s s'"
  shows "log_start s' = log_start s" "outstanding s' = outstanding s" "committing s' = committing s"
    "log_dev s' = log_dev s" "disk s' = disk s" "dwrites s' = dwrites s" "cur s' = cur s" "kver s' = kver s"
    "lkernel.more s' = lkernel.more s" "log_area s' = log_area s" "hdr_blk s' = hdr_blk s"
  using assms by (auto simp: tx_frame_def log_area_def hdr_blk_def log_blk_def)

lemma set_ladd [simp]: "set (ladd b bl) = insert b (set bl)"
  by (auto simp: ladd_def)

lemma distinct_ladd [simp]: "distinct (ladd b bl) = distinct bl"
  by (auto simp: ladd_def)

lemma ladd_again: "ladd b (ladd b bl) = ladd b bl"
  by (simp add: ladd_def)

lemma pins_ladd: "pins (ladd b bl) = (pins bl)(b := 1)"
  by (simp add: pins_def fun_eq_iff)

lemma tx_pins: "tx s bl \<Longrightarrow> pins bl b + 1 < 2 ^ 32" "tx s bl \<Longrightarrow> brefs s = pins bl" "tx s bl \<Longrightarrow> bc_inv s"
  using pins_bounds(1) [of bl b] by (simp_all add: tx_def quiet_def)

text \<open>Reading a block: \<^verbatim>\<open>bread\<close>, then \<^verbatim>\<open>brelse\<close>.\<close>

lemma tx_bread:
  assumes "tx s bl" "length bl < LOGBLOCKS"
  shows "\<exists>i s1. bread ROOTDEV b s = Inr (i, s1) \<and> bc_inv s1 \<and> bval s1 = bval s \<and> brefs s1 = (pins bl)(b := pins bl b + 1) \<and>
    bheld s1 = (\<lambda>c. c = b) \<and> locked_by s1 i b \<and> bdata (buf_at s1 i) = bval s b \<and> bio_frame s s1 \<and>
    disk s1 = disk s \<and> dwrites s1 = dwrites s"
proof -
  have "card {b. pins bl b \<noteq> 0} + 1 \<le> NBUF"
    using pins_bounds(2) [of bl] assms(2) by (simp add: NBUF_def LOGBLOCKS_def)
  then obtain i s1 where b: "bread ROOTDEV b s = Inr (i, s1)" "bc_inv s1" "bval s1 = bval s" "brefs s1 = (pins bl)(b := pins bl b + 1)"
    "bheld s1 = (\<lambda>c. c = b)" "locked_by s1 i b" "bio_frame s s1" "disk s1 = disk s" "dwrites s1 = dwrites s"
    using bread_one [of "pins bl" s b] assms(1) tx_pins(1) [OF assms(1), of b] by (auto simp: tx_def)
  have "bdata (buf_at s1 i) = bval s b" using locked_bval [OF b(2,6)] b(3) by simp
  then show ?thesis using b by blast
qed

lemma tx_read:
  assumes "tx s bl" "length bl < LOGBLOCKS"
  shows "\<exists>i s1 s'. bread ROOTDEV b s = Inr (i, s1) \<and> bdata (buf_at s1 i) = bval s b \<and> brelse i s1 = Inr s' \<and>
    tx s' bl \<and> bval s' = bval s \<and> tx_frame s s1 \<and> tx_frame s s'"
proof -
  obtain i s1 where b: "bread ROOTDEV b s = Inr (i, s1)" "bc_inv s1" "bval s1 = bval s" "brefs s1 = (pins bl)(b := pins bl b + 1)"
    "bheld s1 = (\<lambda>c. c = b)" "locked_by s1 i b" "bdata (buf_at s1 i) = bval s b" "bio_frame s s1" "disk s1 = disk s" "dwrites s1 = dwrites s"
    using tx_bread [OF assms, of b] by (elim exE conjE) (rule that; assumption)
  have clean: "bval s1 b = disk s1 b" if "brefs s1 b = 1"
    using that b(3,4,9) assms(1) brefs_0_clean(1) [of s b] by (simp add: tx_def quiet_def)
  obtain s' where r: "brelse i s1 = Inr s'" "bstate s1 b (bval s1 b) (brefs s1 b - 1) False s'" "bio_frame s1 s'"
    "disk s' = disk s1" "dwrites s' = dwrites s1"
    using brelse_step [OF b(2,6) clean] by blast
  have q: "quiet (pins bl) s'" "bval s' = bval s" using r(2) b(3-5) by (auto simp: quiet_def bstate_def fun_eq_iff)
  have f: "bio_frame s s'" by (rule bio_frame_trans [OF b(8) r(3)])
  have "tx s' bl"
    using assms(1) q(1) bio_frame_log [OF f] r(4) b(9) frame_blk [OF f] by (simp add: tx_def log_area_def)
  then show ?thesis using b(1,7) r(1) q(2) tx_frame_bio [OF b(8)] tx_frame_bio [OF f] r(4,5) b(9,10) by auto
qed

section \<open>Updating a block\<close>

lemma log_find_eq:
  assumes "lh_n s = int (length bl)" "take (length bl) (lh_block s) = bl" "distinct bl" "length bl \<le> length (lh_block s)"
  shows "b \<notin> set bl \<Longrightarrow> log_find b s = length bl"
    "b \<in> set bl \<Longrightarrow> log_find b s < length bl \<and> lh_block s ! log_find b s = b"
proof -
  have nth: "lh_block s ! i = bl ! i" if "i < length bl" for i using assms(2) that nth_take [of i "length bl" "lh_block s"] by simp
  show "log_find b s = length bl" if "b \<notin> set bl"
  proof -
    have "lh_block s ! i \<noteq> b" if "i < length bl" for i using nth [OF that] \<open>b \<notin> set bl\<close> nth_mem [OF that] by metis
    then have "List.find (\<lambda>i. lh_block s ! i = b) [0..<length bl] = None" by (simp add: find_None_iff)
    then show ?thesis using assms(1) by (simp add: log_find_def)
  qed
  show "log_find b s < length bl \<and> lh_block s ! log_find b s = b" if m: "b \<in> set bl"
  proof -
    obtain t where t: "t < length bl" "bl ! t = b" using m by (auto simp: in_set_conv_nth)
    have "List.find (\<lambda>i. lh_block s ! i = b) [0..<length bl] \<noteq> None"
      using t(1) nth [OF t(1)] t(2) by (auto simp: find_None_iff)
    then obtain j where j: "List.find (\<lambda>i. lh_block s ! i = b) [0..<length bl] = Some j" by auto
    then show ?thesis using find_in [OF j] assms(1) by (simp add: log_find_def)
  qed
qed

lemma log_write_ok:
  fixes s :: "'a lkernel_scheme"
  assumes "bc_inv s" "locked_by s i b" "brefs s b = pins bl b + 1" "lh_n s = int (length bl)" "length bl < LOGBLOCKS"
    "length (lh_block s) = LOGBLOCKS" "take (length bl) (lh_block s) = bl" "distinct bl" "1 \<le> outstanding s"
  shows "\<exists>s'. log_write i s = Inr s' \<and> bstate s b (bval s b) 2 True s' \<and> locked_by s' i b \<and> tx_frame s s' \<and>
    lh_n s' = int (length (ladd b bl)) \<and> length (lh_block s') = LOGBLOCKS \<and> take (length (ladd b bl)) (lh_block s') = ladd b bl"
proof -
  have bn: "blockno (buf_at s i) = b" "i < NBUF" using assms(2) by (auto simp: locked_by_def holds_def)
  note lf = log_find_eq [OF assms(4,7,8)]
  show ?thesis
  proof (cases "b \<in> set bl")
    case True
    have f: "log_find b s < length bl" "lh_block s ! log_find b s = b" using lf(2) [OF _ True] assms(5,6) by auto
    then have u: "(lh_block s)[log_find b s := b] = lh_block s" by (metis list_update_id)
    have "log_write i s = Inr s" using assms(4,5,9) bn f(1) u by (simp add: log_write_def Let_def)
    moreover have "brefs s b = 2" using assms(3) True by (simp add: pins_def)
    then have "bstate s b (bval s b) 2 True s" using assms(1) locked_bval [OF assms(1,2)] by (auto simp: bstate_def fun_eq_iff)
    ultimately show ?thesis using assms(2,4,6,7) True by (intro exI [of _ s]) (simp add: ladd_def)
  next
    case False
    have f: "log_find b s = length bl" using lf(1) [OF _ False] assms(5,6) by auto
    let ?p = "bpin i s"
    have r: "refcnt (buf_at s i) = 1"
      using assms(3) False bslot_Some [OF assms(1), of i b] assms(2) word_unat_eq_iff [of "refcnt (buf_at s i)" 1]
      by (auto simp: brefs_def locked_by_def pins_def)
    have rb: "bstate s b (bval s b) 2 True ?p \<and> locked_by ?p i b"
      unfolding bpin_def by (rule refs_ok [OF assms(1,2)]) (use r in simp_all)
    define s' where "s' = (bpin i (s\<lparr>lh_block := (lh_block s)[length bl := b]\<rparr>))\<lparr>lh_n := lh_n s + 1\<rparr>"
    have e: "s' = ?p\<lparr>lh_block := (lh_block s)[length bl := b], lh_n := lh_n s + 1\<rparr>" by (simp add: s'_def bpin_def upd_buf_def)
    have "log_write i s = Inr s'" using assms(4,5,9) bn f by (simp add: log_write_def Let_def s'_def)
    moreover have "bstate s b (bval s b) 2 True s' \<and> locked_by s' i b" using rb by (simp add: e bstate_def)
    moreover have "s' = s\<lparr>bufs_of := bufs_of s', procs := procs s, lh_n := lh_n s', lh_block := lh_block s'\<rparr>"
      by (intro lkernel.equality) (simp_all add: s'_def bpin_def upd_buf_def)
    then have "tx_frame s s'" using tx_frame_intro by metis
    moreover have "lh_n s' = int (length (ladd b bl))" "lh_block s' = (lh_block s)[length bl := b]" using False assms(4)
      by (simp_all add: s'_def ladd_def bpin_def upd_buf_def)
    moreover have "take (Suc (length bl)) ((lh_block s)[length bl := b]) = bl @ [b]"
      using assms(5-7) by (simp add: take_Suc_conv_app_nth)
    ultimately show ?thesis using assms(6) False by (intro exI [of _ s']) (simp add: ladd_def)
  qed
qed

lemma tx_locked:
  assumes "tx s bl" "length bl < LOGBLOCKS" "b \<notin> log_area s" "bc_inv t" "locked_by t i b" "bval t = (bval s)(b := d)"
    "brefs t = (pins bl)(b := pins bl b + 1)" "bheld t = (\<lambda>c. c = b)" "tx_frame s t" "lh_n t = lh_n s" "lh_block t = lh_block s"
  shows "\<exists>s1 s'. log_write i t = Inr s1 \<and> brelse i s1 = Inr s' \<and> tx s' (ladd b bl) \<and> bval s' = (bval s)(b := d) \<and>
    tx_frame s s1 \<and> tx_frame s s'"
proof -
  note t = assms(1) [unfolded tx_def] and fr = tx_frame_log [OF assms(9)]
  obtain s1 where w: "log_write i t = Inr s1" "bstate t b (bval t b) 2 True s1" "locked_by s1 i b" "tx_frame t s1"
    "lh_n s1 = int (length (ladd b bl))" "length (lh_block s1) = LOGBLOCKS" "take (length (ladd b bl)) (lh_block s1) = ladd b bl"
    using log_write_ok [OF assms(4,5), of bl] assms(2,7,10,11) t fr by auto
  have s1: "bc_inv s1" "bval s1 = (bval s)(b := d)" "brefs s1 = (pins bl)(b := 2)" "bheld s1 = (\<lambda>c. c = b)"
    using w(2) assms(6-8) by (auto simp: bstate_def fun_eq_iff)
  obtain s' where r: "brelse i s1 = Inr s'" "bstate s1 b (bval s1 b) (brefs s1 b - 1) False s'" "bio_frame s1 s'"
    "disk s' = disk s1" "dwrites s' = dwrites s1"
    using brelse_step [OF s1(1) w(3)] s1(3) by auto
  have q: "quiet (pins (ladd b bl)) s'" "bval s' = (bval s)(b := d)"
    using r(2) s1 by (auto simp: quiet_def bstate_def fun_eq_iff pins_ladd)
  have f1: "tx_frame s s1" by (rule tx_frame_trans [OF assms(9) w(4)])
  have f: "tx_frame s s'" by (rule tx_frame_trans [OF f1 tx_frame_bio [OF r(3-5)]])
  have "tx s' (ladd b bl)"
    using t q(1) tx_frame_log [OF f] bio_frame_log [OF r(3)] w(5-7) assms(2,3) by (auto simp: tx_def ladd_def)
  then show ?thesis using w(1) r(1) q(2) f1 f by blast
qed

text \<open>\<^verbatim>\<open>bread\<close>, a change of the data, \<^verbatim>\<open>log_write\<close> and \<^verbatim>\<open>brelse\<close>.\<close>

lemma tx_update:
  assumes "tx s bl" "length bl < LOGBLOCKS" "b \<notin> log_area s" "length d = BSIZE"
  shows "\<exists>i s1 s2 s'. bread ROOTDEV b s = Inr (i, s1) \<and> bdata (buf_at s1 i) = bval s b \<and>
    log_write i (set_bdata i d s1) = Inr s2 \<and> brelse i s2 = Inr s' \<and> tx s' (ladd b bl) \<and>
    bval s' = (bval s)(b := d) \<and> tx_frame s s1 \<and> tx_frame s s2 \<and> tx_frame s s'"
proof -
  obtain i s1 where b: "bread ROOTDEV b s = Inr (i, s1)" "bc_inv s1" "bval s1 = bval s" "brefs s1 = (pins bl)(b := pins bl b + 1)"
    "bheld s1 = (\<lambda>c. c = b)" "locked_by s1 i b" "bdata (buf_at s1 i) = bval s b" "bio_frame s s1" "disk s1 = disk s" "dwrites s1 = dwrites s"
    using tx_bread [OF assms(1,2), of b] by (elim exE conjE) (rule that; assumption)
  define t where "t = set_bdata i d s1"
  have t: "bstate s1 b d (brefs s1 b) True t" "locked_by t i b"
    using set_bdata_ok [OF b(2,6) assms(4)] by (auto simp: t_def)
  have f1: "tx_frame s s1" by (rule tx_frame_bio [OF b(8-10)])
  have bt: "bio_frame s1 t" by (simp add: t_def set_bdata_def)
  have ft: "tx_frame s t"
    by (rule tx_frame_trans [OF f1 tx_frame_bio [OF bt]]) (simp_all add: t_def set_bdata_def)
  have "\<exists>s2 s'. log_write i t = Inr s2 \<and> brelse i s2 = Inr s' \<and> tx s' (ladd b bl) \<and> bval s' = (bval s)(b := d) \<and>
    tx_frame s s2 \<and> tx_frame s s'"
    by (rule tx_locked [OF assms(1-3) _ t(2)])
      (use t(1) b(3-5) ft bio_frame_log [OF b(8)] bio_frame_log [OF bt] in \<open>auto simp: bstate_def fun_eq_iff\<close>)
  then show ?thesis using b(1,7) f1 unfolding t_def by blast
qed

section \<open>The log as a block store\<close>

text \<open>What a client of the log relies on: inside a transaction of at most \<open>cap\<close> blocks a block outside the
  log's own area can be read and replaced, an update is seen by later reads of that block and by no
  others, and everything else that \<open>frame\<close> covers stays as it was.\<close>

locale tx_store =
  fixes open_tx :: "'s \<Rightarrow> u32 list \<Rightarrow> bool" and val :: "'s \<Rightarrow> u32 \<Rightarrow> block" and area :: "'s \<Rightarrow> u32 set"
    and frame :: "'s \<Rightarrow> 's \<Rightarrow> bool" and fetch :: "u32 \<Rightarrow> 's \<Rightarrow> (block \<times> 's) kres" and store :: "u32 \<Rightarrow> block \<Rightarrow> 's \<Rightarrow> 's kres"
    and cap :: nat
  assumes frame_refl: "frame s s" and frame_step: "frame s s1 \<Longrightarrow> frame s1 s2 \<Longrightarrow> frame s s2"
    and frame_area: "frame s s' \<Longrightarrow> area s' = area s"
    and fetch_law: "open_tx s bl \<Longrightarrow> length bl < cap \<Longrightarrow> \<exists>s'. fetch b s = Inr (val s b, s') \<and> open_tx s' bl \<and> val s' = val s \<and> frame s s'"
    and store_law: "open_tx s bl \<Longrightarrow> length bl < cap \<Longrightarrow> b \<notin> area s \<Longrightarrow> length d = BSIZE \<Longrightarrow>
      \<exists>s'. store b d s = Inr s' \<and> open_tx s' (ladd b bl) \<and> val s' = (val s)(b := d) \<and> frame s s'"
begin

lemma store_all:
  assumes "open_tx s bl" "distinct (bl @ map fst ws)" "length bl + length ws \<le> cap" "fst ` set ws \<inter> area s = {}"
    "\<forall>w \<in> set ws. length (snd w) = BSIZE"
  shows "\<exists>s'. rfold (\<lambda>(b, d). store b d) ws s = Inr s' \<and> open_tx s' (bl @ map fst ws) \<and> val s' = wapply (val s) ws \<and> frame s s'"
  using assms
proof (induction ws arbitrary: s bl)
  case Nil
  then show ?case using frame_refl by simp
next
  case (Cons w ws)
  obtain b d where w: "w = (b, d)" by (cases w)
  have "length bl < cap" "b \<notin> area s" "length d = BSIZE" "b \<notin> set bl" using Cons.prems w by auto
  then obtain s1 where s1: "store b d s = Inr s1" "open_tx s1 (bl @ [b])" "val s1 = (val s)(b := d)" "frame s s1"
    using store_law [OF Cons.prems(1), of b d] by (auto simp: ladd_def)
  obtain s' where s': "rfold (\<lambda>(b, d). store b d) ws s1 = Inr s'" "open_tx s' ((bl @ [b]) @ map fst ws)"
    "val s' = wapply (val s1) ws" "frame s1 s'"
    using Cons.IH [OF s1(2)] Cons.prems w frame_area [OF s1(4)] by auto
  then show ?case using s1 frame_step [OF s1(4) s'(4)] w by (intro exI [of _ s']) (simp add: fun_upd_def)
qed

lemma fetch_stored:
  assumes "open_tx s bl" "length bl + 1 < cap" "b \<notin> area s" "length d = BSIZE"
  shows "\<exists>s1 s2. store b d s = Inr s1 \<and> fetch c s1 = Inr (if c = b then d else val s c, s2)"
proof -
  obtain s1 where s1: "store b d s = Inr s1" "open_tx s1 (ladd b bl)" "val s1 = (val s)(b := d)"
    using store_law [OF assms(1) _ assms(3,4)] assms(2) by auto
  have "length (ladd b bl) < cap" using assms(2) by (simp add: ladd_def)
  then show ?thesis using fetch_law [OF s1(2), of c] s1 by auto
qed

end

text \<open>The calls the file system makes: \<^verbatim>\<open>bread\<close>, \<^verbatim>\<open>brelse\<close>; and \<^verbatim>\<open>bread\<close>, a store, \<^verbatim>\<open>log_write\<close>, \<^verbatim>\<open>brelse\<close>.\<close>

definition get_block :: "u32 \<Rightarrow> 'a lkernel_scheme \<Rightarrow> (block \<times> 'a lkernel_scheme) kres" where
  "get_block b s = rbind (bread ROOTDEV b s) (\<lambda>(i, s). let d = bdata (buf_at s i) in rbind (brelse i s) (\<lambda>s. Inr (d, s)))"

definition put_block :: "u32 \<Rightarrow> block \<Rightarrow> 'a lkernel_scheme \<Rightarrow> 'a lkernel_scheme kres" where
  "put_block b d s = rbind (bread ROOTDEV b s) (\<lambda>(i, s). rbind (log_write i (set_bdata i d s)) (brelse i))"

interpretation lt: tx_store tx bval log_area tx_frame get_block put_block LOGBLOCKS
proof
  show "\<exists>s'. get_block b s = Inr (bval s b, s') \<and> tx s' bl \<and> bval s' = bval s \<and> tx_frame s s'"
    if "tx s bl" "length bl < LOGBLOCKS" for s :: "'a lkernel_scheme" and bl b
    using tx_read [OF that, of b] by (auto simp: get_block_def)
  show "\<exists>s'. put_block b d s = Inr s' \<and> tx s' (ladd b bl) \<and> bval s' = (bval s)(b := d) \<and> tx_frame s s'"
    if "tx s bl" "length bl < LOGBLOCKS" "b \<notin> log_area s" "length d = BSIZE" for s :: "'a lkernel_scheme" and bl b d
    using tx_update [OF that] by (auto simp: put_block_def)
qed (auto simp: tx_frame_log(10) intro: tx_frame_trans)

section \<open>Ending a transaction\<close>

lemma tx_ready: "tx s bl \<Longrightarrow> bl \<noteq> [] \<Longrightarrow> length bl + 2 \<le> NBUF \<Longrightarrow> log_ready s bl"
  by (simp add: tx_def log_ready_def)

lemma log_ready_upd [simp]: "log_ready (s\<lparr>outstanding := n, committing := c\<rparr>) bl = log_ready s bl"
  by (simp add: log_ready_def quiet_def bc_inv_def holds_def brefs_def bheld_def bslot_def log_area_def log_blk_def hdr_blk_def
      fun_eq_iff split: option.splits)

lemma bval_upd [simp]: "bval (s\<lparr>outstanding := n, committing := c\<rparr>) = bval s"
  by (simp add: fun_eq_iff bval_def bslot_def split: option.splits)

lemma commit_writes_upd [simp]: "commit_writes (s\<lparr>outstanding := n, committing := c\<rparr>) bl = commit_writes s bl"
  by (simp add: commit_writes_def log_blk_def hdr_blk_def)

lemma quiet_upd [simp]: "quiet r (s\<lparr>outstanding := n\<rparr>) = quiet r s" "quiet r (s\<lparr>committing := c\<rparr>) = quiet r s"
  by (simp_all add: quiet_def bc_inv_def holds_def brefs_def bheld_def bslot_def fun_eq_iff split: option.splits)

lemma quiet_wakeup:
  fixes s :: "'a bkernel_scheme" assumes "quiet r s" shows "quiet r (wakeup v me c s)"
proof -
  have "bstate s 0 (bval s 0) (brefs s 0) (bheld s 0) s" using assms by (auto simp: quiet_def bstate_def fun_eq_iff)
  from bstate_wakeup [OF this, of v me c] show ?thesis using assms by (auto simp: quiet_def bstate_def fun_eq_iff)
qed

lemma wakeup_log [simp]:
  fixes s :: "'a lkernel_scheme"
  shows "lh_n (wakeup v me c s) = lh_n s" "outstanding (wakeup v me c s) = outstanding s"
    "committing (wakeup v me c s) = committing s" "disk (wakeup v me c s) = disk s" "dwrites (wakeup v me c s) = dwrites s"
  by (simp_all add: wakeup_def)

end
