(* ===== verification/Log_Budget.thy ===== *)
theory Log_Budget
  imports Log_Tx
begin

text \<open>
  The space of the log. \<^verbatim>\<open>begin_op\<close> admits an operation only when the log has room for
  \<^verbatim>\<open>MAXOPBLOCKS\<close> more blocks, so \<^verbatim>\<open>log_write\<close> cannot overflow it. The buffer cache is not larger
  than the log, and a commit of a full log finds no buffer.
\<close>

section \<open>What the buffer operations leave of the log\<close>

lemma lock_buf_frame: "lock_buf i s = Inr (j, s') \<Longrightarrow> bio_frame s s'"
  by (auto simp: lock_buf_def acquiresleep_def upd_buf_lk_def split: if_splits)

lemma bget_frame: "bget dev b s = Inr (i, s') \<Longrightarrow> bio_frame s s'"
  by (auto simp: bget_def rbind_eq_Inr split: option.splits
      intro: bio_frame_trans [OF bio_frame_upd lock_buf_frame])

lemma bread_frame: "bread dev b s = Inr (i, s') \<Longrightarrow> bio_frame s s'"
proof -
  assume "bread dev b s = Inr (i, s')"
  then obtain s1 where s1: "bget dev b s = Inr (i, s1)"
    "s' = s1 \<or> s' = upd_buf i (\<lambda>x. x\<lparr>bvalid := True\<rparr>) (disk_read i s1)"
    by (auto simp: bread_def rbind_eq_Inr split: if_splits)
  have "bio_frame s1 (upd_buf i (\<lambda>x. x\<lparr>bvalid := True\<rparr>) (disk_read i s1))"
    unfolding disk_read_def by (rule bio_frame_trans [OF bio_frame_upd bio_frame_upd])
  then show ?thesis using s1(2) bget_frame [OF s1(1)] bio_frame_trans by blast
qed

lemma bwrite_frame: "bwrite i s = Inr s' \<Longrightarrow> bio_frame s s'"
  using bio_frame_wr [of s "blockno (buf_at s i)" "bdata (buf_at s i)"]
  by (auto simp: bwrite_def disk_write_def wr_disk_def Let_def split: if_splits)

lemma bio_frame_wakeup: "bio_frame s (wakeup v me c s)"
  unfolding wakeup_def
  by (rule bio_frame_rel) simp

lemma bio_frame_bufs: "bio_frame s (s\<lparr>bufs_of := bs\<rparr>)"
  by (rule bio_frame_rel) simp

lemma brelse_frame: "brelse i s = Inr s' \<Longrightarrow> bio_frame s s'"
proof -
  assume a: "brelse i s = Inr s'"
  define t where "t = upd_buf i (\<lambda>x. x\<lparr>refcnt := refcnt x - 1\<rparr>) (releasesleep (BufChan i) (upd_buf_lk i) s)"
  have "bio_frame s t"
    unfolding t_def releasesleep_def upd_buf_lk_def
    by (rule bio_frame_trans [OF bio_frame_trans [OF bio_frame_upd bio_frame_wakeup] bio_frame_upd])
  moreover have "bio_frame t (list_push i (list_unlink i t))"
    using link_frame(1) [of i "list_unlink i t"] link_frame(2) [of i t] bio_frame_bufs bio_frame_trans by metis
  ultimately show ?thesis
    using a bio_frame_trans by (auto simp: brelse_def Let_def t_def split: if_splits)
qed

lemma set_bdata_frame: "bio_frame s (set_bdata i d s)"
  by (simp add: set_bdata_def)

lemma bunpin_frame: "bio_frame s (bunpin i s)"
  by (simp add: bunpin_def)

lemma bwrite_set_frame: "bwrite i (set_bdata j d s) = Inr s' \<Longrightarrow> bio_frame s s'"
  using bio_frame_trans [OF set_bdata_frame bwrite_frame] .

lemma brelse_unpin_frame: "brelse i (bunpin j s) = Inr s' \<Longrightarrow> bio_frame s s'"
  using bio_frame_trans [OF bunpin_frame brelse_frame] .

lemmas buf_frames = bread_frame bwrite_set_frame brelse_unpin_frame brelse_frame

lemma write_head_frame: "write_head s = Inr s' \<Longrightarrow> bio_frame s s'"
  by (auto simp: write_head_def rbind_eq_Inr Let_def dest!: buf_frames) (meson bio_frame_trans)

lemma write_log_one_frame: "write_log_one t s = Inr s' \<Longrightarrow> bio_frame s s'"
  by (auto simp: write_log_one_def rbind_eq_Inr Let_def dest!: buf_frames) (meson bio_frame_trans)

lemma install_one_frame: "install_one r t s = Inr s' \<Longrightarrow> bio_frame s s'"
proof -
  assume "install_one r t s = Inr s'"
  then obtain i s1 j s2 s3 s4 where e: "log_bread (log_start s + int t + 1) s = Inr (i, s1)"
    "log_bread (uint (lh_block s1 ! t)) s1 = Inr (j, s2)" "bwrite j (set_bdata j (bdata (buf_at s2 i)) s2) = Inr s3"
    "brelse i (if \<not> r then bunpin j s3 else s3) = Inr s4" "brelse j s4 = Inr s'"
    by (auto simp: install_one_def rbind_eq_Inr Let_def)
  have "bio_frame s3 s4" using e(4) brelse_frame brelse_unpin_frame by (cases r) auto
  then show ?thesis using e(1,2,3,5) bread_frame bwrite_set_frame brelse_frame bio_frame_trans by meson
qed

lemma rfold_frame: "(\<And>t s s'. f t s = Inr s' \<Longrightarrow> bio_frame s s') \<Longrightarrow> rfold f ts s = Inr s' \<Longrightarrow> bio_frame s s'"
proof (induction ts arbitrary: s)
  case (Cons t ts)
  then show ?case by (auto simp: rbind_eq_Inr) (meson bio_frame_trans)
qed simp

lemma commit_frame:
  assumes "commit s = Inr s'" "0 \<le> lh_n s"
  shows "lh_n s' = 0" "outstanding s' = outstanding s"
proof -
  have "lh_n s' = 0 \<and> outstanding s' = outstanding s"
  proof (cases "lh_n s > 0")
    case True
    then obtain s1 s2 s3 where s: "write_log s = Inr s1" "write_head s1 = Inr s2" "install_trans False s2 = Inr s3"
      "write_head (s3\<lparr>lh_n := 0\<rparr>) = Inr s'"
      using assms(1) by (auto simp: commit_def rbind_eq_Inr)
    have f: "bio_frame s s1" "bio_frame s1 s2" "bio_frame s2 s3" "bio_frame (s3\<lparr>lh_n := 0\<rparr>) s'"
      using s rfold_frame [OF write_log_one_frame] rfold_frame [OF install_one_frame] write_head_frame
      by (auto simp: write_log_def install_trans_def)
    then show ?thesis using bio_frame_log(2) [OF f(1)] bio_frame_log(2) [OF f(2)] bio_frame_log(2) [OF f(3)] bio_frame_log [OF f(4)]
      by simp
  qed (use assms in \<open>simp add: commit_def\<close>)
  then show "lh_n s' = 0" "outstanding s' = outstanding s" by auto
qed

section \<open>Reservations\<close>

text \<open>The operations that are in progress, each with the number of blocks it may still add to the log.
  A write to a block that is in the log already is absorbed. Between the calls the buffer cache is
  used in any way.\<close>

inductive log_reach :: "'a lkernel_scheme \<Rightarrow> nat list \<Rightarrow> bool" where
  init: "lh_n s = 0 \<Longrightarrow> outstanding s = 0 \<Longrightarrow> \<not> committing s \<Longrightarrow> log_reach s []"
| begin_op: "log_reach s bs \<Longrightarrow> begin_op s = Inr s' \<Longrightarrow> log_reach s' (MAXOPBLOCKS # bs)"
| log_write: "log_reach s bs \<Longrightarrow> j < length bs \<Longrightarrow> 0 < bs ! j \<Longrightarrow> log_write i s = Inr s' \<Longrightarrow>
    log_reach s' (bs[j := bs ! j - 1])"
| absorbed: "log_reach s bs \<Longrightarrow> log_write i s = Inr s' \<Longrightarrow> lh_n s' = lh_n s \<Longrightarrow> log_reach s' bs"
| end_op: "log_reach s (bs @ b # cs) \<Longrightarrow> end_op s = Inr s' \<Longrightarrow> log_reach s' (bs @ cs)"
| cache: "log_reach s bs \<Longrightarrow> bio_frame s s' \<Longrightarrow> log_reach s' bs"

definition budget_inv :: "'a lkernel_scheme \<Rightarrow> nat list \<Rightarrow> bool" where
  "budget_inv s bs \<longleftrightarrow> 0 \<le> lh_n s \<and> lh_n s + int (sum_list bs) \<le> int LOGBLOCKS \<and> outstanding s = int (length bs) \<and>
     (\<forall>b \<in> set bs. b \<le> MAXOPBLOCKS) \<and> \<not> committing s"

lemma log_write_fields:
  assumes "log_write i s = Inr s'"
  shows "lh_n s' = lh_n s \<or> lh_n s' = lh_n s + 1" "outstanding s' = outstanding s" "committing s' = committing s"
  using assms by (auto simp: log_write_def Let_def bpin_def upd_buf_def split: if_splits)

lemma end_op_fields:
  assumes "end_op s = Inr s'" "0 \<le> lh_n s" "\<not> committing s"
  shows "outstanding s' = outstanding s - 1" "\<not> committing s'" "lh_n s' = (if outstanding s = 1 then 0 else lh_n s)"
proof -
  have "outstanding s' = outstanding s - 1 \<and> \<not> committing s' \<and> lh_n s' = (if outstanding s = 1 then 0 else lh_n s)"
  proof (cases "outstanding s = 1")
    case True
    then obtain u where u: "commit (s\<lparr>outstanding := 0, committing := True\<rparr>) = Inr u"
      "s' = wakeup (kver u) (Some (cur u)) LogChan (u\<lparr>committing := False\<rparr>)"
      using assms(1,3) by (auto simp: end_op_def Let_def rbind_eq_Inr)
    then show ?thesis using commit_frame [OF u(1)] assms(2) True by simp
  next
    case False
    then have "s' = wakeup (kver s) (Some (cur s)) LogChan (s\<lparr>outstanding := outstanding s - 1\<rparr>)"
      using assms(1,3) by (simp add: end_op_def Let_def)
    then show ?thesis using False assms(3) by simp
  qed
  then show "outstanding s' = outstanding s - 1" "\<not> committing s'" "lh_n s' = (if outstanding s = 1 then 0 else lh_n s)"
    by auto
qed

lemma sum_list_max: "(\<forall>b \<in> set bs. b \<le> (m :: nat)) \<Longrightarrow> sum_list bs \<le> length bs * m"
  by (induction bs) auto

lemma sum_list_dec: "j < length bs \<Longrightarrow> 0 < bs ! j \<Longrightarrow> Suc (sum_list (bs[j := bs ! j - 1])) = sum_list (bs :: nat list)"
proof (induction bs arbitrary: j)
  case (Cons b bs)
  then show ?case by (cases j) auto
qed simp

lemma log_reach_inv: "log_reach s bs \<Longrightarrow> budget_inv s bs"
proof (induction rule: log_reach.induct)
  case (init s)
  then show ?case by (simp add: budget_inv_def)
next
  case (begin_op s bs s')
  have s': "s' = s\<lparr>outstanding := outstanding s + 1\<rparr>" "lh_n s + (outstanding s + 1) * int MAXOPBLOCKS \<le> int LOGBLOCKS"
    using begin_op.hyps by (auto simp: begin_op_def split: if_splits)
  have "int (sum_list bs) \<le> outstanding s * int MAXOPBLOCKS"
    using begin_op.IH sum_list_max [of bs MAXOPBLOCKS] by (simp add: budget_inv_def) (metis of_nat_le_iff of_nat_mult)
  then show ?case using begin_op.IH s' by (simp add: budget_inv_def distrib_right)
next
  case (log_write s bs j i s')
  have "sum_list bs = Suc (sum_list (bs[j := bs ! j - 1]))" using sum_list_dec log_write.hyps by simp
  moreover have "\<forall>b \<in> set (bs[j := bs ! j - 1]). b \<le> MAXOPBLOCKS"
  proof
    fix b assume "b \<in> set (bs[j := bs ! j - 1])"
    then consider "b = bs ! j - 1" | "b \<in> set bs" using set_update_subset_insert [of bs j "bs ! j - 1"] by blast
    then show "b \<le> MAXOPBLOCKS"
      using log_write.IH nth_mem [OF log_write.hyps(2)] by cases (force simp: budget_inv_def)+
  qed
  ultimately show ?case using log_write.IH log_write_fields [OF log_write.hyps(4)] by (auto simp: budget_inv_def)
next
  case (absorbed s bs i s')
  then show ?case using log_write_fields [OF absorbed.hyps(2)] by (simp add: budget_inv_def)
next
  case (end_op s bs b cs s')
  then have "0 \<le> lh_n s" "\<not> committing s" by (simp_all add: budget_inv_def)
  then show ?case using end_op.IH end_op_fields [OF end_op.hyps(2)] by (auto simp: budget_inv_def)
next
  case (cache s bs s')
  then show ?case using bio_frame_log [OF cache.hyps(2)] by (simp add: budget_inv_def)
qed

end
