(* ===== verification/Log_Claims.thy ===== *)
theory Log_Claims
  imports Log_Budget
begin

text \<open>
  The properties of the log, with a running example: a machine with an empty disk whose log starts
  at block 2.
\<close>

section \<open>A full log\<close>

text \<open>All buffers pinned: a block that is not cached finds no buffer.\<close>

lemma busy_all:
  assumes "bc_inv s" "card (busy s) = NBUF" "i < NBUF"
  shows "refcnt (buf_at s i) \<noteq> 0"
proof
  assume z: "refcnt (buf_at s i) = 0"
  have "\<exists>j. holds s j b \<and> refcnt (buf_at s j) \<noteq> 0" if "b \<in> busy s" for b
    using that assms(1) by (rule_tac bslot_cases [of s b]) (auto simp: busy_def brefs_def)
  then obtain f where f: "\<And>b. b \<in> busy s \<Longrightarrow> holds s (f b) b \<and> refcnt (buf_at s (f b)) \<noteq> 0" by metis
  then have "f ` busy s \<subseteq> {..<NBUF} - {i}" using z by (auto simp: holds_def)
  moreover have "inj_on f (busy s)" by (rule inj_onI) (metis f holds_def)
  ultimately have "card (busy s) \<le> card ({..<NBUF} - {i})" by (metis card_image card_mono finite_Diff finite_lessThan)
  then show False using assms(2,3) by simp
qed

lemma bread_no_buffers:
  assumes "bc_inv s" "card (busy s) = NBUF" "brefs s b = 0"
  shows "bread ROOTDEV b s = Inl (Panic ''bget: no buffers'')"
proof -
  obtain xs where xs: "ring (bufs_of s) xs" "set xs = {..<NBUF}" using assms(1) by (auto simp: bc_inv_def)
  note nz = busy_all [OF assms(1,2)]
  have "\<not> holds s i b" for i
  proof
    assume h: "holds s i b"
    then have "unat (refcnt (buf_at s i)) = 0" using bslot_Some [OF assms(1) h] assms(3) by (simp add: brefs_def)
    then show False using nz [of i] h unat_eq_zero by (auto simp: holds_def)
  qed
  then have "List.find (\<lambda>i. bdev (buf_at s i) = ROOTDEV \<and> blockno (buf_at s i) = b) xs = None"
    using xs(2) by (auto simp: find_None_iff holds_def)
  moreover have "List.find (\<lambda>i. refcnt (buf_at s i) = 0) (rev xs) = None" using nz xs(2) by (auto simp: find_None_iff)
  ultimately show ?thesis using ring_scans [OF xs(1)] by (simp add: bread_def bget_def)
qed

text \<open>\<^verbatim>\<open>commit\<close>, of an empty transaction too.\<close>

lemma commit_tx:
  fixes s :: "'a lkernel_scheme"
  assumes "tx s bl" "length bl + 2 \<le> NBUF"
  defines "t \<equiv> s\<lparr>outstanding := 0, committing := True\<rparr>"
  shows "\<exists>u. commit t = Inr u \<and> quiet (\<lambda>_. 0) u \<and> bio_frame (t\<lparr>lh_n := 0\<rparr>) u \<and>
    dwrites u = dwrites s @ (if bl = [] then [] else commit_writes s bl) \<and> (\<forall>b. b \<notin> log_area s \<longrightarrow> disk u b = bval s b)"
proof (cases "bl = []")
  case True
  have z: "pins [] = (\<lambda>_. 0)" by (simp add: pins_def fun_eq_iff)
  have n: "lh_n t = 0" "quiet (\<lambda>_. 0) t" using assms(1) True z by (simp_all add: t_def tx_def)
  have "disk s b = bval s b" for b using assms(1) True z brefs_0_clean(1) [of s b] by (simp add: tx_def quiet_def)
  moreover have "t\<lparr>lh_n := lh_n t\<rparr> = t" by simp
  then have "bio_frame (t\<lparr>lh_n := 0\<rparr>) t" using bio_frame_refl [of t] n(1) by metis
  moreover have "disk t = disk s" "dwrites t = dwrites s" by (simp_all add: t_def)
  ultimately show ?thesis using n True by (intro exI [of _ t]) (simp add: commit_def)
next
  case False
  have lr: "log_ready s bl" using tx_ready assms(1,2) False by blast
  then obtain u where u: "commit t = Inr u" "quiet (\<lambda>_. 0) u" "disk u = wapply (disk t) (commit_writes t bl)"
    "dwrites u = dwrites t @ commit_writes t bl" "bio_frame (t\<lparr>lh_n := 0\<rparr>) u"
    using commit_ok [of t bl] by (auto simp: t_def)
  then show ?thesis using crash_after(2) [OF lr] False by (intro exI [of _ u]) (simp add: t_def)
qed

section \<open>Example\<close>

definition ex_lk :: lkernel where
  "ex_lk = \<lparr>mem = \<lambda>_. 0, freelist = 0, kend = 0x80020000, etext = 0x80008000, trampoline = 0x80007000,
     procs = procs ex_two, nextpid = 5, initproc = Some 0, forkret_addr = 0x80001000, halted = None, cur = 0, kver = 8,
     bufs_of = replicate (NBUF + 1) \<lparr>bvalid = False, bdev = 0, blockno = 0, block_lk = initsleeplock, refcnt = 0,
       bprev = 0, bnext = 0, bdata = replicate BSIZE 0\<rparr>,
     disk = \<lambda>_. replicate BSIZE 0, dwrites = [], log_start = 0, outstanding = 0, committing = False, log_dev = 0,
     lh_n = 0, lh_block = replicate LOGBLOCKS 0\<rparr>"

definition ex_up :: lkernel where
  "ex_up = (binit ex_lk)\<lparr>log_start := 2, log_dev := 1\<rparr>"

definition ex_op :: lkernel where
  "ex_op = ex_up\<lparr>outstanding := 1\<rparr>"

lemma ex_lk_fresh: "(\<And>b. length (d b) = BSIZE) \<Longrightarrow> fresh_kernel (ex_lk\<lparr>disk := d\<rparr>)"
  by (simp add: fresh_kernel_def raw_bufs_def ex_lk_def ex_two_def nth_append del: replicate.simps)

lemma ex_up_fields:
  "disk ex_up = (\<lambda>_. replicate BSIZE 0)" "lh_n ex_up = 0" "lh_block ex_up = replicate LOGBLOCKS 0" "outstanding ex_up = 0"
  "committing ex_up = False" "log_start ex_up = 2" "log_dev ex_up = 1" "dwrites ex_up = []"
  and ex_up_quiet: "quiet (\<lambda>_. 0) ex_up"
proof -
  have "raw_bufs ex_lk" using ex_lk_fresh [of "disk ex_lk"] by (simp add: fresh_kernel_def ex_lk_def)
  then have b: "bc_inv (binit ex_lk)" "brefs (binit ex_lk) = (\<lambda>_. 0)" "bheld (binit ex_lk) = (\<lambda>_. False)"
    "binit ex_lk = ex_lk\<lparr>bufs_of := bufs_of (binit ex_lk)\<rparr>" using binit_ok by blast+
  show "quiet (\<lambda>_. 0) ex_up"
    using b(1-3) by (simp add: ex_up_def quiet_def bc_inv_def brefs_def bheld_def bslot_def holds_def fun_eq_iff split: option.splits)
  show "disk ex_up = (\<lambda>_. replicate BSIZE 0)" "lh_n ex_up = 0" "lh_block ex_up = replicate LOGBLOCKS 0" "outstanding ex_up = 0"
    "committing ex_up = False" "log_start ex_up = 2" "log_dev ex_up = 1" "dwrites ex_up = []"
    unfolding ex_up_def by (subst b(4), simp add: ex_lk_def)+
qed

lemma log_area_2:
  assumes "log_start s = 2" "b \<in> log_area s" shows "unat b < 33"
proof -
  have "unat (log_blk s t) = t + 3" if "t < LOGBLOCKS" for t
  proof -
    have "log_blk s t = of_nat (t + 3)" using assms(1) by (simp add: log_blk_def)
    then show ?thesis using that unat_u32 [of "t + 3"] by (simp add: LOGBLOCKS_def MAXOPBLOCKS_def)
  qed
  then show ?thesis using assms by (auto simp: log_area_def hdr_blk_def LOGBLOCKS_def MAXOPBLOCKS_def)
qed

lemma ex_op_tx: "tx ex_op []"
proof -
  have z: "pins [] = (\<lambda>_. 0)" by (simp add: pins_def fun_eq_iff)
  have "get32 (replicate BSIZE 0) 0 = 0" by (simp add: BSIZE_def get32_def)
  then show ?thesis using ex_up_quiet by (simp add: tx_def ex_op_def ex_up_fields z)
qed

text \<open>An operation that overwrites blocks.\<close>

definition put_all :: "block \<Rightarrow> u32 list \<Rightarrow> 'a lkernel_scheme \<Rightarrow> 'a lkernel_scheme kres" where
  "put_all d bs = rfold (\<lambda>(b, d). put_block b d) (map (\<lambda>b. (b, d)) bs)"

lemma wapply_const: "wapply f (map (\<lambda>b. (b, d)) bs) = (\<lambda>b. if b \<in> set bs then d else f b)"
  by (induction bs arbitrary: f) (auto simp: fun_eq_iff)

lemma put_all_ok:
  assumes "tx s bl" "distinct (bl @ bs)" "length (bl @ bs) \<le> LOGBLOCKS" "set bs \<inter> log_area s = {}" "length d = BSIZE"
  shows "\<exists>s'. put_all d bs s = Inr s' \<and> tx s' (bl @ bs) \<and> bval s' = (\<lambda>b. if b \<in> set bs then d else bval s b) \<and> tx_frame s s'"
proof -
  have "map fst (map (\<lambda>b. (b, d)) bs) = bs" by (simp add: comp_def)
  moreover have "fst ` set (map (\<lambda>b. (b, d)) bs) = set bs" by (auto simp: image_iff)
  ultimately show ?thesis
    using lt.store_all [OF assms(1), of "map (\<lambda>b. (b, d)) bs"] assms(2-5) by (simp add: put_all_def wapply_const)
qed

definition ex_dat :: block where "ex_dat = 7 # replicate 1023 0"

lemma ex_dat_len [simp]: "length ex_dat = BSIZE"
  by (simp add: ex_dat_def BSIZE_def)

lemma ex_run:
  assumes "distinct bs" "length bs \<le> LOGBLOCKS" "\<And>b. b \<in> set bs \<Longrightarrow> 33 \<le> unat b"
  shows "\<exists>s. put_all ex_dat bs ex_op = Inr s \<and> tx s bs \<and> (\<forall>b \<in> set bs. bval s b = ex_dat) \<and> log_start s = 2 \<and>
    outstanding s = 1 \<and> \<not> committing s \<and> disk s = (\<lambda>_. replicate BSIZE 0)"
proof -
  have a: "log_start ex_op = 2" by (simp add: ex_op_def ex_up_fields)
  have "set bs \<inter> log_area ex_op = {}" using log_area_2 [OF a] assms(3) by (meson disjoint_iff not_le)
  then obtain s where "put_all ex_dat bs ex_op = Inr s" "tx s bs" "bval s = (\<lambda>b. if b \<in> set bs then ex_dat else bval ex_op b)"
    "tx_frame ex_op s"
    using put_all_ok [OF ex_op_tx, of bs ex_dat] assms(1,2) by auto
  then show ?thesis using tx_frame_log [of ex_op s] by (auto simp: ex_op_def ex_up_fields)
qed

lemma wapply_length:
  "(\<And>b. length (d b) = n) \<Longrightarrow> (\<And>w. w \<in> set ws \<Longrightarrow> length (snd w) = n) \<Longrightarrow> length (wapply d ws b) = n"
proof (induction ws arbitrary: d)
  case (Cons w ws)
  obtain c v where w: "w = (c, v)" by (cases w)
  have v: "length v = n" using Cons.prems(2) [of w] w by simp
  have "length (wapply (d(c := v)) ws b) = n"
    by (rule Cons.IH) (use Cons.prems v in \<open>simp_all add: fun_upd_def\<close>)
  then show ?case by (simp add: w)
qed simp

lemma ex_run2:
  obtains s where "put_all ex_dat [50, 60] ex_op = Inr s" "tx s [50, 60]" "bval s 50 = ex_dat" "bval s 60 = ex_dat"
    "log_start s = 2" "outstanding s = 1" "\<not> committing s" "disk s = (\<lambda>_. replicate BSIZE 0)"
proof -
  have "33 \<le> unat b" if "b \<in> set [50, 60 :: u32]" for b using that by auto
  then have "\<exists>s. put_all ex_dat [50, 60] ex_op = Inr s \<and> tx s [50, 60] \<and> (\<forall>b \<in> set [50, 60]. bval s b = ex_dat) \<and>
    log_start s = 2 \<and> outstanding s = 1 \<and> \<not> committing s \<and> disk s = (\<lambda>_. replicate BSIZE 0)"
    by (intro ex_run) (simp_all add: LOGBLOCKS_def MAXOPBLOCKS_def)
  then show ?thesis using that by auto
qed

lemma commit_writes_length:
  assumes "log_ready s bl" "w \<in> set (commit_writes s bl)" shows "length (snd w) = BSIZE"
proof -
  have bv: "length (bval s b) = BSIZE" for b using assms(1) length_bval [of s b] by (simp add: log_ready_def quiet_def)
  note lf = log_ready_facts [OF assms(1)]
  have h: "length (hdr_data (int (length bl)) (lh_block s) (disk s (hdr_blk s))) = BSIZE"
    using hdr_data_fields(1) [OF lf(5)] lf(1) by simp
  then have "length (hdr_data 0 (lh_block s) (hdr_data (int (length bl)) (lh_block s) (disk s (hdr_blk s)))) = BSIZE"
    using hdr_data_fields(1) [OF h, of 0] by simp
  then show ?thesis using assms(2) bv h by (auto simp: commit_writes_def Let_def)
qed

section \<open>Properties\<close>







text \<open>The last of the outstanding operations installs the transaction: after \<^verbatim>\<open>end_op\<close> every block
  outside the log has on disk the content it has in the cache, no buffer is pinned, the log is empty,
  and the disk was written in the order log blocks, header, home blocks, header.\<close>

lemma end_op_installs:
  assumes "tx s bl" "outstanding s = 1" "\<not> committing s" "length bl + 2 \<le> NBUF"
  shows "\<exists>s'. end_op s = Inr s' \<and> (\<forall>b. b \<notin> log_area s \<longrightarrow> disk s' b = bval s b) \<and> quiet (\<lambda>_. 0) s' \<and>
    lh_n s' = 0 \<and> outstanding s' = 0 \<and> \<not> committing s' \<and>
    dwrites s' = dwrites s @ (if bl = [] then [] else commit_writes s bl)"
proof -
  define t where "t = s\<lparr>outstanding := 0, committing := True\<rparr>"
  have "\<exists>u. commit t = Inr u \<and> quiet (\<lambda>_. 0) u \<and> bio_frame (t\<lparr>lh_n := 0\<rparr>) u \<and>
    dwrites u = dwrites s @ (if bl = [] then [] else commit_writes s bl) \<and> (\<forall>b. b \<notin> log_area s \<longrightarrow> disk u b = bval s b)"
    using commit_tx [OF assms(1,4)] unfolding t_def by simp
  then obtain u where u: "commit t = Inr u" "quiet (\<lambda>_. 0) u" "bio_frame (t\<lparr>lh_n := 0\<rparr>) u"
    "dwrites u = dwrites s @ (if bl = [] then [] else commit_writes s bl)" "\<forall>b. b \<notin> log_area s \<longrightarrow> disk u b = bval s b"
    by blast
  have e: "end_op s = Inr (wakeup (kver u) (Some (cur u)) LogChan (u\<lparr>committing := False\<rparr>))"
    using assms(2,3) u(1) by (simp add: end_op_def Let_def t_def)
  have f: "lh_n u = 0" "outstanding u = 0" using bio_frame_log [OF u(3)] by (simp_all add: t_def)
  have "quiet (\<lambda>_. 0) (wakeup (kver u) (Some (cur u)) LogChan (u\<lparr>committing := False\<rparr>))"
    by (rule quiet_wakeup) (use u(2) in simp)
  then show ?thesis using e f u(4,5) by simp
qed


text \<open>C20. The log never overflows: whatever the interleaving of operations, a \<^verbatim>\<open>log_write\<close> of an
  operation that has added fewer than \<^verbatim>\<open>MAXOPBLOCKS\<close> blocks to the log succeeds, so neither of its
  panics (``too big a transaction'', ``log_write outside of trans'') can happen.\<close>

theorem log_write_has_room:
  assumes "log_reach s bs" "j < length bs" "0 < bs ! j"
  shows "\<exists>s'. log_write i s = Inr s'"
proof -
  have i: "budget_inv s bs" using log_reach_inv [OF assms(1)] .
  have "bs ! j \<le> sum_list bs" using elem_le_sum_list [OF assms(2)] .
  then have "lh_n s < int LOGBLOCKS" "1 \<le> outstanding s" using i assms(2,3) by (auto simp: budget_inv_def)
  then show ?thesis by (simp add: log_write_def Let_def)
qed


theorem log_write_has_room_witness:
  "case begin_op ex_up of Inr s \<Rightarrow> \<exists>s'. log_write 3 s = Inr s' | Inl _ \<Rightarrow> False"
proof -
  have b: "begin_op ex_up = Inr ex_op"
    by (simp add: begin_op_def ex_op_def ex_up_fields LOGBLOCKS_def MAXOPBLOCKS_def)
  have "log_reach ex_op [MAXOPBLOCKS]"
    using log_reach.begin_op [OF log_reach.init b] by (simp add: ex_up_fields)
  then have "\<exists>s'. log_write 3 ex_op = Inr s'" by (rule log_write_has_room [of _ _ 0]) (simp_all add: MAXOPBLOCKS_def)
  then show ?thesis by (simp add: b)
qed

text \<open>C21. A log that is full, as three operations of \<^verbatim>\<open>MAXOPBLOCKS\<close> blocks each can make it, cannot be
  committed: its blocks pin all \<^verbatim>\<open>NBUF\<close> buffers, and the first \<^verbatim>\<open>bread\<close> of a log block in
  \<^verbatim>\<open>commit\<close> panics for want of a buffer.\<close>

theorem commit_full_log_panics:
  assumes "tx s bl" "length bl = LOGBLOCKS"
  shows "commit s = Inl (Panic ''bget: no buffers'')"
proof -
  note t = assms(1) [unfolded tx_def]
  have "{b. pins bl b \<noteq> 0} = set bl" by (auto simp: pins_def)
  then have c: "card (busy s) = NBUF"
    using t assms(2) distinct_card [of bl] by (simp add: busy_def quiet_def NBUF_def LOGBLOCKS_def)
  have "log_blk s 0 \<in> log_area s" by (simp add: log_area_def LOGBLOCKS_def MAXOPBLOCKS_def)
  then have "log_blk s 0 \<notin> set bl" using t by blast
  then have "bread ROOTDEV (log_blk s 0) s = Inl (Panic ''bget: no buffers'')"
    using c t by (intro bread_no_buffers) (simp_all add: quiet_def pins_def)
  then have "write_log_one 0 s = Inl (Panic ''bget: no buffers'')"
    using t by (simp add: write_log_one_def log_blk_def ROOTDEV_def)
  moreover have "[0..<nat (lh_n s)] = 0 # [1..<nat (lh_n s)]" "lh_n s > 0"
    using t assms(2) by (simp_all add: upt_conv_Cons LOGBLOCKS_def MAXOPBLOCKS_def)
  ultimately show ?thesis by (simp add: commit_def write_log_def)
qed

theorem commit_full_log_panics_witness:
  "\<exists>s. put_all ex_dat (map (\<lambda>i. of_nat (100 + i)) [0..<30]) ex_op = Inr s \<and>
     commit s = Inl (Panic ''bget: no buffers'')"
proof -
  let ?bs = "map (\<lambda>i. of_nat (100 + i)) [0..<30] :: u32 list"
  have u: "unat (of_nat (100 + i) :: u32) = 100 + i" if "i < 30" for i using that by (intro unat_u32) simp
  then have "distinct ?bs" by (auto simp: distinct_map inj_on_def) (metis add_left_cancel)
  moreover have "33 \<le> unat b" if "b \<in> set ?bs" for b using that u by (auto simp del: of_nat_add)
  ultimately have "\<exists>s. put_all ex_dat ?bs ex_op = Inr s \<and> tx s ?bs \<and> (\<forall>b \<in> set ?bs. bval s b = ex_dat) \<and>
    log_start s = 2 \<and> outstanding s = 1 \<and> \<not> committing s \<and> disk s = (\<lambda>_. replicate BSIZE 0)"
    by (intro ex_run) (simp_all add: LOGBLOCKS_def MAXOPBLOCKS_def)
  then obtain s where s: "put_all ex_dat ?bs ex_op = Inr s" "tx s ?bs" by blast
  then show ?thesis using commit_full_log_panics [OF s(2)] by (simp add: LOGBLOCKS_def MAXOPBLOCKS_def)
qed

end
