(* ===== verification/Bio_Claims.thy ===== *)
theory Bio_Claims
  imports Log_Claims
begin

text \<open>The properties of the buffer cache, with the machine of the log's example as their witness.\<close>

section \<open>Properties\<close>

text \<open>C31. \<^verbatim>\<open>bread\<close> returns a locked buffer with the current content of the block, whether it comes from
  the cache or from the disk, when the buffer is not locked and some buffer is free or holds it. The
  cache stays consistent (one buffer per block, an intact list, unreferenced buffers equal to the
  disk), and no other block's content, reference count or lock changes.\<close>

theorem bread_content:
  assumes "bc_inv s" "\<not> bheld s b" "brefs s b \<noteq> 0 \<or> card (busy s) < NBUF" "brefs s b + 1 < 2 ^ 32"
  shows "\<exists>i s'. bread ROOTDEV b s = Inr (i, s') \<and> bc_inv s' \<and> bdata (buf_at s' i) = bval s b \<and> blockno (buf_at s' i) = b \<and>
    holdingsleep (block_lk (buf_at s' i)) s' \<and> bval s' = bval s \<and> brefs s' = (brefs s)(b := brefs s b + 1) \<and>
    bheld s' = (bheld s)(b := True) \<and> disk s' = disk s"
proof -
  obtain i f where i: "bread ROOTDEV b s = Inr (i, upd_buf i f s)"
    "bstate s b (bval s b) (brefs s b + 1) True (upd_buf i f s)" "locked_by (upd_buf i f s) i b"
    using bread_ok [OF assms] by blast
  have st: "bc_inv (upd_buf i f s)" "bval (upd_buf i f s) = bval s" "brefs (upd_buf i f s) = (brefs s)(b := brefs s b + 1)"
    "bheld (upd_buf i f s) = (bheld s)(b := True)"
    using i(2) by (auto simp: bstate_def fun_eq_iff)
  have "bdata (buf_at (upd_buf i f s) i) = bval s b" using locked_bval [OF st(1) i(3)] st(2) by simp
  moreover have "blockno (buf_at (upd_buf i f s) i) = b" "holdingsleep (block_lk (buf_at (upd_buf i f s) i)) (upd_buf i f s)"
    using i(3) by (auto simp: locked_by_def holds_def holdingsleep_def)
  ultimately show ?thesis using i(1) st upd_buf_fields(1) by (intro exI conjI)
qed

theorem bread_content_witness: "\<exists>i s'. bread ROOTDEV 7 ex_up = Inr (i, s') \<and> bdata (buf_at s' i) = replicate BSIZE 0"
proof -
  have q: "bc_inv ex_up" "brefs ex_up = (\<lambda>_. 0)" "bheld ex_up = (\<lambda>_. False)" using ex_up_quiet by (simp_all add: quiet_def)
  have "bval ex_up 7 = replicate BSIZE 0" using brefs_0_clean(1) [OF q(1)] q(2) by (simp add: ex_up_fields)
  then show ?thesis using bread_content [OF q(1), of 7] q by (auto simp: busy_def NBUF_def MAXOPBLOCKS_def)
qed

text \<open>Least recently used: the \<^verbatim>\<open>brelse\<close> of the last reference moves the buffer to the front of the
  list and keeps the order of the others, and a \<^verbatim>\<open>bget\<close> of a block that is not cached takes the
  unreferenced buffer nearest to the end.\<close>

lemma cache_lru:
  assumes "ring (bufs_of s) (as @ i # cs)" "holdingsleep (block_lk (buf_at s i)) s" "refcnt (buf_at s i) = 1" "i < NBUF"
  shows "\<exists>s'. brelse i s = Inr s' \<and> ring (bufs_of s') (i # as @ cs) \<and>
    (\<forall>dev b j s2. bget dev b s' = Inr (j, s2) \<longrightarrow>
      List.find (\<lambda>k. bdev (buf_at s' k) = dev \<and> blockno (buf_at s' k) = b) (i # as @ cs) = None \<longrightarrow>
      List.find (\<lambda>k. refcnt (buf_at s' k) = 0) (rev (i # as @ cs)) = Some j)"
proof -
  define t where "t = upd_buf i (\<lambda>x. x\<lparr>refcnt := refcnt x - 1\<rparr>) (releasesleep (BufChan i) (upd_buf_lk i) s)"
  have len: "length (bufs_of s) = NBUF + 1" and ni: "i \<notin> set (as @ cs)" using assms(1) by (auto simp: ring_def)
  have bt: "bufs_of t = (bufs_of s)[i := (buf_at s i)\<lparr>block_lk := \<lparr>sl_locked = False, sl_pid = 0\<rparr>, refcnt := refcnt (buf_at s i) - 1\<rparr>]"
    using assms(4) len by (simp add: t_def releasesleep_def upd_buf_lk_def upd_buf_def wakeup_def)
  have rt: "ring (bufs_of t) (as @ i # cs)"
  proof (subst ring_cong [of _ "bufs_of s"])
    fix j show "bnext (buf_at t j) = bnext (buf_at s j) \<and> bprev (buf_at t j) = bprev (buf_at s j)"
      using assms(4) len by (cases "j = i") (simp_all add: bt)
  qed (use assms(1) in \<open>simp_all add: bt\<close>)
  define s' where "s' = list_push i (list_unlink i t)"
  have "refcnt (buf_at t i) = 0" using assms(3,4) len by (simp add: bt)
  then have "brelse i s = Inr s'" using assms(2) by (simp add: brelse_def Let_def t_def s'_def)
  moreover have r: "ring (bufs_of s') (i # as @ cs)"
    unfolding s'_def by (intro ring_push ring_unlink rt assms(4) ni)
  moreover have "List.find (\<lambda>k. refcnt (buf_at s' k) = 0) (rev (i # as @ cs)) = Some j"
    if "bget dev b s' = Inr (j, s2)" "List.find (\<lambda>k. bdev (buf_at s' k) = dev \<and> blockno (buf_at s' k) = b) (i # as @ cs) = None"
    for dev b j s2
    using that ring_scans [OF r] by (auto simp: bget_def lock_buf_def rbind_eq_Inr split: option.splits)
  ultimately show ?thesis by blast
qed

end
