(* ===== verification/Fs.thy ===== *)
theory Fs
  imports Log_Tx
begin

text \<open>
  The file system of \<^verbatim>\<open>kernel/fs.c\<close>: the block bitmap, the inode table and inodes, directories and
  paths. An inode pointer is an index into \<^verbatim>\<open>itable.inode\<close>. The on-disk structures are read and
  written inside the blocks at the offsets of the C declarations. Loops whose C counters are signed
  count in naturals, which agrees with the code as long as \<^verbatim>\<open>sb.size\<close> and \<^verbatim>\<open>sb.ninodes\<close> fit in an
  \<^verbatim>\<open>int\<close>.
\<close>

section \<open>On-disk layout\<close>

definition FSMAGIC :: u32 where "FSMAGIC = 0x10203040"
definition ROOTINO :: u32 where "ROOTINO = 1"
definition NDIRECT :: nat where "NDIRECT = 12"
definition NINDIRECT :: nat where "NINDIRECT = BSIZE div 4"
definition MAXFILE :: nat where "MAXFILE = NDIRECT + NINDIRECT"
definition IPB :: nat where "IPB = BSIZE div 64"
definition BPB :: nat where "BPB = BSIZE * 8"
definition DIRSIZ :: nat where "DIRSIZ = 14"
definition NINODE :: nat where "NINODE = 50"

definition T_DIR :: u16 where "T_DIR = 1"
definition T_FILE :: u16 where "T_FILE = 2"
definition T_DEVICE :: u16 where "T_DEVICE = 3"

record superblock =
  magic :: u32
  sb_size :: u32
  nblocks :: u32
  ninodes :: u32
  nlog :: u32
  logstart :: u32
  inodestart :: u32
  bmapstart :: u32

record dinode =
  d_type :: u16
  d_major :: u16
  d_minor :: u16
  d_nlink :: u16
  d_size :: u32
  d_addrs :: "u32 list"

record inode =
  i_dev :: u32
  i_inum :: u32
  i_ref :: int
  i_lock :: sleeplock
  i_valid :: bool
  i_type :: u16
  i_major :: u16
  i_minor :: u16
  i_nlink :: u16
  i_size :: u32
  i_addrs :: "u32 list"

record ikernel = lkernel +
  sb :: superblock
  inodes :: "inode list"

text \<open>A \<^verbatim>\<open>struct dinode\<close> is 64 bytes: four 16-bit fields, the size, and 13 block addresses.\<close>

definition get_dinode :: "block \<Rightarrow> nat \<Rightarrow> dinode" where
  "get_dinode d k = \<lparr>d_type = get16 d (64 * k), d_major = get16 d (64 * k + 2), d_minor = get16 d (64 * k + 4),
     d_nlink = get16 d (64 * k + 6), d_size = get32 d (64 * k + 8),
     d_addrs = map (\<lambda>i. get32 d (64 * k + 12 + 4 * i)) [0..<NDIRECT + 1]\<rparr>"

definition put_dinode :: "block \<Rightarrow> nat \<Rightarrow> dinode \<Rightarrow> block" where
  "put_dinode d k di =
     (let d = put16 d (64 * k) (d_type di); d = put16 d (64 * k + 2) (d_major di); d = put16 d (64 * k + 4) (d_minor di);
          d = put16 d (64 * k + 6) (d_nlink di); d = put32 d (64 * k + 8) (d_size di)
      in fold (\<lambda>i d. put32 d (64 * k + 12 + 4 * i) (d_addrs di ! i)) [0..<NDIRECT + 1] d)"

definition IBLOCK :: "nat \<Rightarrow> superblock \<Rightarrow> u32" where
  "IBLOCK i b = of_nat (i div IPB) + inodestart b"

definition BBLOCK :: "nat \<Rightarrow> superblock \<Rightarrow> u32" where
  "BBLOCK i b = of_nat (i div BPB) + bmapstart b"

section \<open>Blocks\<close>

definition get_sb :: "block \<Rightarrow> superblock" where
  "get_sb d = \<lparr>magic = get32 d 0, sb_size = get32 d 4, nblocks = get32 d 8, ninodes = get32 d 12, nlog = get32 d 16,
     logstart = get32 d 20, inodestart = get32 d 24, bmapstart = get32 d 28\<rparr>"

definition readsb :: "int \<Rightarrow> 'a ikernel_scheme \<Rightarrow> 'a ikernel_scheme kres" where
  "readsb dev s = rbind (bread (word_of_int dev) 1 s) (\<lambda>(bp, s).
     brelse bp (s\<lparr>sb := get_sb (bdata (buf_at s bp))\<rparr>))"

definition bzero :: "u32 \<Rightarrow> u32 \<Rightarrow> 'a lkernel_scheme \<Rightarrow> 'a lkernel_scheme kres" where
  "bzero dev bno s = rbind (bread dev bno s) (\<lambda>(bp, s).
     rbind (log_write bp (set_bdata bp (replicate BSIZE 0) s)) (brelse bp))"

text \<open>Bit \<open>bi\<close> of a bitmap block.\<close>

definition bit_used :: "block \<Rightarrow> nat \<Rightarrow> bool" where
  "bit_used d bi \<longleftrightarrow> (d ! (bi div 8)) AND push_bit (bi mod 8) 1 \<noteq> 0"

definition bit_mark :: "block \<Rightarrow> nat \<Rightarrow> block" where
  "bit_mark d bi = d[bi div 8 := (d ! (bi div 8)) OR push_bit (bi mod 8) 1]"

definition bit_clear :: "block \<Rightarrow> nat \<Rightarrow> block" where
  "bit_clear d bi = d[bi div 8 := (d ! (bi div 8)) AND NOT (push_bit (bi mod 8) 1)]"

text \<open>The two loops of \<^verbatim>\<open>balloc\<close>: over the bitmap blocks, here given by their first bit, and over the
  bits of one.\<close>

definition free_bit :: "block \<Rightarrow> nat \<Rightarrow> nat \<Rightarrow> nat option" where
  "free_bit d b n = List.find (\<lambda>bi. \<not> bit_used d bi) [0..<min BPB (n - b)]"

primrec balloc_over :: "u32 \<Rightarrow> nat list \<Rightarrow> 'a ikernel_scheme \<Rightarrow> (u32 \<times> 'a ikernel_scheme) kres" where
  "balloc_over dev [] s = Inr (0, s)"
| "balloc_over dev (b # bs) s =
     rbind (bread dev (BBLOCK b (sb s)) s) (\<lambda>(bp, s).
     case free_bit (bdata (buf_at s bp)) b (unat (sb_size (sb s))) of
       Some bi \<Rightarrow>
         rbind (log_write bp (set_bdata bp (bit_mark (bdata (buf_at s bp)) bi) s)) (\<lambda>s.
         rbind (brelse bp s) (\<lambda>s.
         rbind (bzero dev (of_nat (b + bi)) s) (\<lambda>s. Inr (of_nat (b + bi), s))))
     | None \<Rightarrow> rbind (brelse bp s) (balloc_over dev bs))"

definition balloc :: "u32 \<Rightarrow> 'a ikernel_scheme \<Rightarrow> (u32 \<times> 'a ikernel_scheme) kres" where
  "balloc dev s = balloc_over dev (map (\<lambda>k. k * BPB) [0..<(unat (sb_size (sb s)) + BPB - 1) div BPB]) s"

definition bfree :: "u32 \<Rightarrow> u32 \<Rightarrow> 'a ikernel_scheme \<Rightarrow> 'a ikernel_scheme kres" where
  "bfree dev b s =
     rbind (bread dev (BBLOCK (unat b) (sb s)) s) (\<lambda>(bp, s).
     let bi = unat b mod BPB; d = bdata (buf_at s bp)
     in if \<not> bit_used d bi then Inl (Panic ''freeing free block'')
        else rbind (log_write bp (set_bdata bp (bit_clear d bi) s)) (brelse bp))"

section \<open>Inodes\<close>

abbreviation inode_at :: "'a ikernel_scheme \<Rightarrow> nat \<Rightarrow> inode" where
  "inode_at s ip \<equiv> inodes s ! ip"

definition upd_inode :: "nat \<Rightarrow> (inode \<Rightarrow> inode) \<Rightarrow> 'a ikernel_scheme \<Rightarrow> 'a ikernel_scheme" where
  "upd_inode ip f s = s\<lparr>inodes := (inodes s)[ip := f (inodes s ! ip)]\<rparr>"

definition upd_ilk :: "nat \<Rightarrow> (sleeplock \<Rightarrow> sleeplock) \<Rightarrow> 'a ikernel_scheme \<Rightarrow> 'a ikernel_scheme" where
  "upd_ilk ip f = upd_inode ip (\<lambda>x. x\<lparr>i_lock := f (i_lock x)\<rparr>)"

definition iinit :: "'a ikernel_scheme \<Rightarrow> 'a ikernel_scheme" where
  "iinit s = fold (\<lambda>i. upd_ilk i (\<lambda>_. initsleeplock)) [0..<NINODE] s"

definition iget :: "u32 \<Rightarrow> u32 \<Rightarrow> 'a ikernel_scheme \<Rightarrow> (nat \<times> 'a ikernel_scheme) kres" where
  "iget dev inum s =
     (case List.find (\<lambda>i. i_ref (inode_at s i) > 0 \<and> i_dev (inode_at s i) = dev \<and> i_inum (inode_at s i) = inum) [0..<NINODE] of
        Some i \<Rightarrow> Inr (i, upd_inode i (\<lambda>x. x\<lparr>i_ref := i_ref x + 1\<rparr>) s)
      | None \<Rightarrow>
          (case List.find (\<lambda>i. i_ref (inode_at s i) = 0) [0..<NINODE] of
             Some i \<Rightarrow> Inr (i, upd_inode i (\<lambda>x. x\<lparr>i_dev := dev, i_inum := inum, i_ref := 1, i_valid := False\<rparr>) s)
           | None \<Rightarrow> Inl (Panic ''iget: no inodes'')))"

definition zero_dinode :: dinode where
  "zero_dinode = \<lparr>d_type = 0, d_major = 0, d_minor = 0, d_nlink = 0, d_size = 0, d_addrs = replicate (NDIRECT + 1) 0\<rparr>"

primrec ialloc_over :: "u32 \<Rightarrow> u16 \<Rightarrow> nat list \<Rightarrow> 'a ikernel_scheme \<Rightarrow> (nat option \<times> 'a ikernel_scheme) kres" where
  "ialloc_over dev ty [] s = Inr (None, s)"
| "ialloc_over dev ty (inum # is) s =
     rbind (bread dev (IBLOCK inum (sb s)) s) (\<lambda>(bp, s).
     let d = bdata (buf_at s bp)
     in if d_type (get_dinode d (inum mod IPB)) = 0 then
          rbind (log_write bp (set_bdata bp (put_dinode d (inum mod IPB) (zero_dinode\<lparr>d_type := ty\<rparr>)) s)) (\<lambda>s.
          rbind (brelse bp s) (\<lambda>s.
          rbind (iget dev (of_nat inum) s) (\<lambda>(ip, s). Inr (Some ip, s))))
        else rbind (brelse bp s) (ialloc_over dev ty is))"

definition ialloc :: "u32 \<Rightarrow> u16 \<Rightarrow> 'a ikernel_scheme \<Rightarrow> (nat option \<times> 'a ikernel_scheme) kres" where
  "ialloc dev ty s = ialloc_over dev ty [1..<unat (ninodes (sb s))] s"

definition dinode_of :: "inode \<Rightarrow> dinode" where
  "dinode_of x = \<lparr>d_type = i_type x, d_major = i_major x, d_minor = i_minor x, d_nlink = i_nlink x, d_size = i_size x,
     d_addrs = i_addrs x\<rparr>"

definition iupdate :: "nat \<Rightarrow> 'a ikernel_scheme \<Rightarrow> 'a ikernel_scheme kres" where
  "iupdate ip s =
     (let inum = unat (i_inum (inode_at s ip))
      in rbind (bread (i_dev (inode_at s ip)) (IBLOCK inum (sb s)) s) (\<lambda>(bp, s).
         rbind (log_write bp (set_bdata bp (put_dinode (bdata (buf_at s bp)) (inum mod IPB) (dinode_of (inode_at s ip))) s))
           (brelse bp)))"

definition idup :: "nat \<Rightarrow> 'a ikernel_scheme \<Rightarrow> 'a ikernel_scheme" where
  "idup ip s = upd_inode ip (\<lambda>x. x\<lparr>i_ref := i_ref x + 1\<rparr>) s"

definition load_dinode :: "dinode \<Rightarrow> inode \<Rightarrow> inode" where
  "load_dinode di x = x\<lparr>i_type := d_type di, i_major := d_major di, i_minor := d_minor di, i_nlink := d_nlink di,
     i_size := d_size di, i_addrs := d_addrs di, i_valid := True\<rparr>"

definition ilock :: "nat option \<Rightarrow> 'a ikernel_scheme \<Rightarrow> 'a ikernel_scheme kres" where
  "ilock p s =
     (case p of None \<Rightarrow> Inl (Panic ''ilock'')
      | Some ip \<Rightarrow>
          if i_ref (inode_at s ip) < 1 then Inl (Panic ''ilock'')
          else
            rbind (acquiresleep (i_lock (inode_at s ip)) (upd_ilk ip) s) (\<lambda>s.
            if i_valid (inode_at s ip) then Inr s
            else
              let inum = unat (i_inum (inode_at s ip))
              in rbind (bread (i_dev (inode_at s ip)) (IBLOCK inum (sb s)) s) (\<lambda>(bp, s).
                 let di = get_dinode (bdata (buf_at s bp)) (inum mod IPB)
                 in rbind (brelse bp s) (\<lambda>s.
                    let s = upd_inode ip (load_dinode di) s
                    in if i_type (inode_at s ip) = 0 then Inl (Panic ''ilock: no type'') else Inr s))))"

definition iunlock :: "nat option \<Rightarrow> 'a ikernel_scheme \<Rightarrow> 'a ikernel_scheme kres" where
  "iunlock p s =
     (case p of None \<Rightarrow> Inl (Panic ''iunlock'')
      | Some ip \<Rightarrow>
          if \<not> holdingsleep (i_lock (inode_at s ip)) s \<or> i_ref (inode_at s ip) < 1 then Inl (Panic ''iunlock'')
          else Inr (releasesleep (InodeChan ip) (upd_ilk ip) s))"

section \<open>Content\<close>

definition bmap :: "nat \<Rightarrow> nat \<Rightarrow> 'a ikernel_scheme \<Rightarrow> (u32 \<times> 'a ikernel_scheme) kres" where
  "bmap ip bn s =
     (let dev = i_dev (inode_at s ip)
      in if bn < NDIRECT then
           if i_addrs (inode_at s ip) ! bn \<noteq> 0 then Inr (i_addrs (inode_at s ip) ! bn, s)
           else
             rbind (balloc dev s) (\<lambda>(addr, s).
             if addr = 0 then Inr (0, s)
             else Inr (addr, upd_inode ip (\<lambda>x. x\<lparr>i_addrs := (i_addrs x)[bn := addr]\<rparr>) s))
         else if bn - NDIRECT < NINDIRECT then
           rbind (if i_addrs (inode_at s ip) ! NDIRECT \<noteq> 0 then Inr (i_addrs (inode_at s ip) ! NDIRECT, s)
                  else
                    rbind (balloc dev s) (\<lambda>(addr, s).
                    if addr = 0 then Inr (0, s)
                    else Inr (addr, upd_inode ip (\<lambda>x. x\<lparr>i_addrs := (i_addrs x)[NDIRECT := addr]\<rparr>) s)))
             (\<lambda>(ind, s).
              if ind = 0 then Inr (0, s)
              else
                rbind (bread dev ind s) (\<lambda>(bp, s).
                let j = bn - NDIRECT; a = get32 (bdata (buf_at s bp)) (4 * j)
                in if a \<noteq> 0 then rbind (brelse bp s) (\<lambda>s. Inr (a, s))
                   else
                     rbind (balloc dev s) (\<lambda>(addr, s).
                     rbind (if addr \<noteq> 0 then log_write bp (set_bdata bp (put32 (bdata (buf_at s bp)) (4 * j) addr) s) else Inr s)
                       (\<lambda>s. rbind (brelse bp s) (\<lambda>s. Inr (addr, s))))))
         else Inl (Panic ''bmap: out of range''))"

definition trunc_direct :: "nat \<Rightarrow> nat \<Rightarrow> 'a ikernel_scheme \<Rightarrow> 'a ikernel_scheme kres" where
  "trunc_direct ip i s =
     (if i_addrs (inode_at s ip) ! i \<noteq> 0 then
        rbind (bfree (i_dev (inode_at s ip)) (i_addrs (inode_at s ip) ! i) s) (\<lambda>s.
        Inr (upd_inode ip (\<lambda>x. x\<lparr>i_addrs := (i_addrs x)[i := 0]\<rparr>) s))
      else Inr s)"

definition trunc_indirect :: "nat \<Rightarrow> nat \<Rightarrow> nat \<Rightarrow> 'a ikernel_scheme \<Rightarrow> 'a ikernel_scheme kres" where
  "trunc_indirect ip bp j s =
     (let a = get32 (bdata (buf_at s bp)) (4 * j)
      in if a \<noteq> 0 then bfree (i_dev (inode_at s ip)) a s else Inr s)"

definition itrunc :: "nat \<Rightarrow> 'a ikernel_scheme \<Rightarrow> 'a ikernel_scheme kres" where
  "itrunc ip s =
     rbind (rfold (trunc_direct ip) [0..<NDIRECT] s) (\<lambda>s.
     rbind (if i_addrs (inode_at s ip) ! NDIRECT \<noteq> 0 then
              rbind (bread (i_dev (inode_at s ip)) (i_addrs (inode_at s ip) ! NDIRECT) s) (\<lambda>(bp, s).
              rbind (rfold (trunc_indirect ip bp) [0..<NINDIRECT] s) (\<lambda>s.
              rbind (brelse bp s) (\<lambda>s.
              rbind (bfree (i_dev (inode_at s ip)) (i_addrs (inode_at s ip) ! NDIRECT) s) (\<lambda>s.
              Inr (upd_inode ip (\<lambda>x. x\<lparr>i_addrs := (i_addrs x)[NDIRECT := 0]\<rparr>) s)))))
            else Inr s)
       (\<lambda>s. iupdate ip (upd_inode ip (\<lambda>x. x\<lparr>i_size := 0\<rparr>) s)))"

definition iput :: "nat \<Rightarrow> 'a ikernel_scheme \<Rightarrow> 'a ikernel_scheme kres" where
  "iput ip s =
     rbind (if i_ref (inode_at s ip) = 1 \<and> i_valid (inode_at s ip) \<and> i_nlink (inode_at s ip) = 0 then
              rbind (acquiresleep (i_lock (inode_at s ip)) (upd_ilk ip) s) (\<lambda>s.
              rbind (itrunc ip s) (\<lambda>s.
              rbind (iupdate ip (upd_inode ip (\<lambda>x. x\<lparr>i_type := 0\<rparr>) s)) (\<lambda>s.
              Inr (releasesleep (InodeChan ip) (upd_ilk ip) (upd_inode ip (\<lambda>x. x\<lparr>i_valid := False\<rparr>) s)))))
            else Inr s)
       (\<lambda>s. Inr (upd_inode ip (\<lambda>x. x\<lparr>i_ref := i_ref x - 1\<rparr>) s))"

definition iunlockput :: "nat \<Rightarrow> 'a ikernel_scheme \<Rightarrow> 'a ikernel_scheme kres" where
  "iunlockput ip s = rbind (iunlock (Some ip) s) (iput ip)"

definition ireclaim_one :: "u32 \<Rightarrow> nat \<Rightarrow> 'a ikernel_scheme \<Rightarrow> 'a ikernel_scheme kres" where
  "ireclaim_one dev inum s =
     rbind (bread dev (IBLOCK inum (sb s)) s) (\<lambda>(bp, s).
     let di = get_dinode (bdata (buf_at s bp)) (inum mod IPB)
     in if d_type di \<noteq> 0 \<and> d_nlink di = 0 then
          rbind (iget dev (of_nat inum) s) (\<lambda>(ip, s).
          rbind (brelse bp s) (\<lambda>s.
          rbind (begin_op s) (\<lambda>s.
          rbind (ilock (Some ip) s) (\<lambda>s.
          rbind (iunlock (Some ip) s) (\<lambda>s.
          rbind (iput ip s) end_op)))))
        else brelse bp s)"

definition ireclaim :: "int \<Rightarrow> 'a ikernel_scheme \<Rightarrow> 'a ikernel_scheme kres" where
  "ireclaim dev s = rfold (ireclaim_one (word_of_int dev)) [1..<unat (ninodes (sb s))] s"

definition fsinit :: "int \<Rightarrow> 'a ikernel_scheme \<Rightarrow> 'a ikernel_scheme kres" where
  "fsinit dev s =
     rbind (readsb dev s) (\<lambda>s.
     if magic (sb s) \<noteq> FSMAGIC then Inl (Panic ''invalid file system'')
     else rbind (initlog dev (logstart (sb s)) s) (ireclaim dev))"

end
