(* ===== verification/Fs_Bitmap.thy ===== *)
theory Fs_Bitmap
  imports Fs
begin

text \<open>
  The block allocator as an operation on the set of blocks in use. \<open>block_used s b\<close> is the bit of
  block \<open>b\<close> in the bitmap, as the cache has it.
\<close>

section \<open>Bits of a block\<close>

lemma bit_used_bit: "bit_used d bi \<longleftrightarrow> bit (d ! (bi div 8)) (bi mod 8)"
  by (simp add: bit_used_def bit_iff_and_push_bit_not_eq_0)

lemma same_byte: "j div 8 = i div 8 \<Longrightarrow> j mod 8 = i mod 8 \<longleftrightarrow> j = (i :: nat)"
  by (metis div_mult_mod_eq)

lemma bit_mask8: "bit (2 ^ (i mod 8) :: u8) (j mod 8) \<longleftrightarrow> j mod 8 = i mod 8"
  by (auto simp: bit_exp_iff)

lemma bit_used_mark:
  assumes "i div 8 < length d" shows "bit_used (bit_mark d i) j \<longleftrightarrow> j = i \<or> bit_used d j"
proof (cases "j div 8 = i div 8")
  case True
  then show ?thesis using assms same_byte [OF True] by (auto simp: bit_used_bit bit_mark_def bit_or_iff bit_mask8)
qed (auto simp: bit_used_bit bit_mark_def)

lemma bit_used_clear:
  assumes "i div 8 < length d" shows "bit_used (bit_clear d i) j \<longleftrightarrow> j \<noteq> i \<and> bit_used d j"
proof (cases "j div 8 = i div 8")
  case True
  then show ?thesis using assms same_byte [OF True]
    by (auto simp: bit_used_bit bit_clear_def bit_and_iff bit_not_iff bit_mask8)
qed (auto simp: bit_used_bit bit_clear_def)

lemma bit_clear_mark:
  assumes "i div 8 < length d" "\<not> bit_used d i" shows "bit_clear (bit_mark d i) i = d"
proof -
  have "(d ! (i div 8) OR push_bit (i mod 8) 1) AND NOT (push_bit (i mod 8) 1) = d ! (i div 8)"
  proof (rule bit_word_eqI)
    fix m assume "m < LENGTH(8)"
    then have "bit (2 ^ (i mod 8) :: u8) m \<longleftrightarrow> m = i mod 8" using bit_mask8 [of i m] by simp
    then show "bit ((d ! (i div 8) OR push_bit (i mod 8) 1) AND NOT (push_bit (i mod 8) 1)) m = bit (d ! (i div 8)) m"
      using assms(2) \<open>m < LENGTH(8)\<close> by (auto simp: bit_used_bit bit_and_iff bit_or_iff bit_not_iff)
  qed
  then show ?thesis using assms(1) by (simp add: bit_clear_def bit_mark_def)
qed

lemma length_bits [simp]: "length (bit_mark d i) = length d" "length (bit_clear d i) = length d"
  by (simp_all add: bit_mark_def bit_clear_def)

lemma find_map: "List.find P (map f xs) = map_option f (List.find (\<lambda>x. P (f x)) xs)"
  by (induction xs) auto

lemma find_append: "List.find P (xs @ ys) = (case List.find P xs of None \<Rightarrow> List.find P ys | r \<Rightarrow> r)"
  by (induction xs) auto

lemma find_cong_set: "(\<And>x. x \<in> set xs \<Longrightarrow> P x = Q x) \<Longrightarrow> List.find P xs = List.find Q xs"
  by (induction xs) auto

section \<open>The bitmap\<close>

definition block_used :: "'a ikernel_scheme \<Rightarrow> nat \<Rightarrow> bool" where
  "block_used s b = bit_used (bval s (BBLOCK b (sb s))) (b mod BPB)"

abbreviation fsize :: "'a ikernel_scheme \<Rightarrow> nat" where
  "fsize s \<equiv> unat (sb_size (sb s))"

text \<open>The log and the bitmap itself are marked as used, and the bitmap lies outside the log.\<close>

definition meta_used :: "'a ikernel_scheme \<Rightarrow> bool" where
  "meta_used s \<longleftrightarrow> (\<forall>b < fsize s. BBLOCK b (sb s) \<notin> log_area s \<and>
     (of_nat b \<in> log_area s \<or> (\<exists>c < fsize s. of_nat b = BBLOCK c (sb s)) \<longrightarrow> block_used s b))"

lemma tx_frame_fs:
  "tx_frame s (s' :: 'a ikernel_scheme) \<Longrightarrow> sb s' = sb s" "tx_frame s s' \<Longrightarrow> inodes s' = inodes s"
  by (auto simp: tx_frame_def)

lemma BPB_pos [simp]: "0 < BPB"
  by (simp add: BPB_def BSIZE_def)

lemma BBLOCK_same: "bi < BPB \<Longrightarrow> BBLOCK (k * BPB + bi) b = BBLOCK (k * BPB) b"
  by (simp add: BBLOCK_def)

lemma BBLOCK_inj:
  assumes "b < 2 ^ 32" "c < 2 ^ 32" "BBLOCK b x = BBLOCK c x" shows "b div BPB = c div BPB"
proof -
  have "b div BPB < 2 ^ 32" "c div BPB < 2 ^ 32" using assms(1,2) by (meson div_le_dividend le_less_trans)+
  then show ?thesis using assms(3) unat_u32 by (metis BBLOCK_def add_right_cancel)
qed

text \<open>The bits that the inner loop of \<^verbatim>\<open>balloc\<close> looks at, for the \<open>k\<close>-th bitmap block.\<close>

lemma find_in_block:
  "List.find (\<lambda>b. \<not> block_used s b) [k * BPB..<k * BPB + min BPB (n - k * BPB)] =
   map_option (\<lambda>bi. k * BPB + bi) (free_bit (bval s (BBLOCK (k * BPB) (sb s))) (k * BPB) n)"
proof -
  have "[k * BPB..<k * BPB + min BPB (n - k * BPB)] = map (\<lambda>bi. k * BPB + bi) [0..<min BPB (n - k * BPB)]"
    using map_add_upt [of "k * BPB" "min BPB (n - k * BPB)"] by (simp add: add.commute)
  moreover have "(\<not> block_used s (k * BPB + bi)) = (\<not> bit_used (bval s (BBLOCK (k * BPB) (sb s))) bi)"
    if "bi < BPB" for bi
    using that BBLOCK_same [OF that] by (simp add: block_used_def)
  ultimately show ?thesis
    unfolding free_bit_def by (simp add: find_map) (rule arg_cong, rule find_cong_set, simp)
qed

lemma used_frame: "bval s' = bval s \<Longrightarrow> sb s' = sb s \<Longrightarrow> block_used s' = block_used s"
  by (simp add: fun_eq_iff block_used_def)

section \<open>balloc\<close>

lemma bzero_ok:
  assumes "tx s bl" "length bl < LOGBLOCKS" "b \<notin> log_area s"
  shows "\<exists>s'. bzero ROOTDEV b s = Inr s' \<and> tx s' (ladd b bl) \<and> bval s' = (bval s)(b := replicate BSIZE 0) \<and> tx_frame s s'"
  using lt.store_law [OF assms, of "replicate BSIZE 0"] by (simp add: bzero_def put_block_def)

definition allocated :: "'a ikernel_scheme \<Rightarrow> u32 list \<Rightarrow> nat \<Rightarrow> 'a ikernel_scheme \<Rightarrow> bool" where
  "allocated s bl b s' \<longleftrightarrow> tx s' (ladd (of_nat b) (ladd (BBLOCK b (sb s)) bl)) \<and> tx_frame s s' \<and>
     bval s' = (bval s)(BBLOCK b (sb s) := bit_mark (bval s (BBLOCK b (sb s))) (b mod BPB), of_nat b := replicate BSIZE 0)"

definition bits_of :: "'a ikernel_scheme \<Rightarrow> nat \<Rightarrow> nat list" where
  "bits_of s k = [k * BPB..<k * BPB + min BPB (fsize s - k * BPB)]"

lemma meta_used_cong:
  assumes "tx_frame s s'" "bval s' = bval s" shows "meta_used s' = meta_used s" "bits_of s' = bits_of s"
  using tx_frame_fs(1) [OF assms(1)] tx_frame_log(10) [OF assms(1)] used_frame [OF assms(2)]
  by (simp_all add: meta_used_def bits_of_def fun_eq_iff)

lemma balloc_found:
  assumes "tx s bl" "length bl + 2 \<le> LOGBLOCKS" "meta_used s" "k * BPB < fsize s"
    "free_bit (bval s (BBLOCK (k * BPB) (sb s))) (k * BPB) (fsize s) = Some bi"
  shows "\<exists>s'. balloc_over ROOTDEV (k * BPB # bs) s = Inr (of_nat (k * BPB + bi), s') \<and> allocated s bl (k * BPB + bi) s'"
proof -
  let ?B = "BBLOCK (k * BPB) (sb s)" and ?b = "k * BPB + bi"
  have bi: "bi < BPB" "?b < fsize s" "\<not> bit_used (bval s ?B) bi" using assms(5) find_in by (force simp: free_bit_def)+
  have B: "BBLOCK ?b (sb s) = ?B" "?b mod BPB = bi" using BBLOCK_same [OF bi(1)] bi(1) by simp_all
  have nu: "\<not> block_used s ?b" using bi(3) B by (simp add: block_used_def)
  have nB: "?B \<notin> log_area s" "of_nat ?b \<notin> log_area s" using assms(3,4) bi(2) nu by (auto simp: meta_used_def)
  have lb: "length bl < LOGBLOCKS" using assms(2) by simp
  have len: "length (bit_mark (bval s ?B) bi) = BSIZE" using length_bval [OF tx_pins(3) [OF assms(1)]] by simp
  obtain i s1 s2 s3 where u: "bread ROOTDEV ?B s = Inr (i, s1)" "bdata (buf_at s1 i) = bval s ?B"
    "log_write i (set_bdata i (bit_mark (bval s ?B) bi) s1) = Inr s2" "brelse i s2 = Inr s3" "tx s3 (ladd ?B bl)"
    "bval s3 = (bval s)(?B := bit_mark (bval s ?B) bi)" "tx_frame s s1" "tx_frame s s3"
    using tx_update [OF assms(1) lb nB(1) len] by blast
  have l2: "length (ladd ?B bl) < LOGBLOCKS" using assms(2) by (simp add: ladd_def)
  obtain s4 where z: "bzero ROOTDEV (of_nat ?b) s3 = Inr s4" "tx s4 (ladd (of_nat ?b) (ladd ?B bl))"
    "bval s4 = (bval s3)(of_nat ?b := replicate BSIZE 0)" "tx_frame s3 s4"
    using bzero_ok [OF u(5) l2, of "of_nat ?b"] nB(2) tx_frame_log(10) [OF u(8)] by auto
  have "balloc_over ROOTDEV (k * BPB # bs) s = Inr (of_nat ?b, s4)"
    using u(1-4) z(1) assms(5) tx_frame_fs(1) [OF u(7)] by simp
  moreover have "allocated s bl ?b s4"
    using z(2,3) u(6) tx_frame_trans [OF u(8) z(4)] unfolding allocated_def B by simp
  ultimately show ?thesis by blast
qed

lemma balloc_over_ok:
  assumes "tx s bl" "length bl + 2 \<le> LOGBLOCKS" "meta_used s" "\<And>k. k \<in> set ks \<Longrightarrow> k * BPB < fsize s"
  shows "case List.find (\<lambda>b. \<not> block_used s b) (concat (map (bits_of s) ks)) of
      None \<Rightarrow> \<exists>s'. balloc_over ROOTDEV (map (\<lambda>k. k * BPB) ks) s = Inr (0, s') \<and> tx s' bl \<and> bval s' = bval s \<and> tx_frame s s'
    | Some b \<Rightarrow> \<exists>s'. balloc_over ROOTDEV (map (\<lambda>k. k * BPB) ks) s = Inr (of_nat b, s') \<and> allocated s bl b s'"
  using assms
proof (induction ks arbitrary: s)
  case (Cons k ks)
  let ?B = "BBLOCK (k * BPB) (sb s)"
  have k: "k * BPB < fsize s" using Cons.prems(4) by simp
  show ?case
  proof (cases "free_bit (bval s ?B) (k * BPB) (fsize s)")
    case (Some bi)
    then have "List.find (\<lambda>b. \<not> block_used s b) (concat (map (bits_of s) (k # ks))) = Some (k * BPB + bi)"
      by (simp add: find_append bits_of_def find_in_block)
    then show ?thesis using balloc_found [OF Cons.prems(1-3) k Some] by simp
  next
    case None
    have e: "List.find (\<lambda>b. \<not> block_used s b) (concat (map (bits_of s) (k # ks))) =
        List.find (\<lambda>b. \<not> block_used s b) (concat (map (bits_of s) ks))"
      using None by (simp add: find_append bits_of_def find_in_block)
    have lb: "length bl < LOGBLOCKS" using Cons.prems(2) by simp
    obtain i s1 s2 where r: "bread ROOTDEV ?B s = Inr (i, s1)" "bdata (buf_at s1 i) = bval s ?B" "brelse i s1 = Inr s2"
      "tx s2 bl" "bval s2 = bval s" "tx_frame s s1" "tx_frame s s2"
      using tx_read [OF Cons.prems(1) lb, of ?B] by blast
    note c = meta_used_cong [OF r(7,5)]
    have sb: "sb s1 = sb s" "sb s2 = sb s" using tx_frame_fs(1) r(6,7) by blast+
    have bo: "balloc_over ROOTDEV (map (\<lambda>k. k * BPB) (k # ks)) s = balloc_over ROOTDEV (map (\<lambda>k. k * BPB) ks) s2"
      using r(1-3) None sb(1) by simp
    have ih: "case List.find (\<lambda>b. \<not> block_used s2 b) (concat (map (bits_of s2) ks)) of
      None \<Rightarrow> \<exists>s'. balloc_over ROOTDEV (map (\<lambda>k. k * BPB) ks) s2 = Inr (0, s') \<and> tx s' bl \<and> bval s' = bval s2 \<and> tx_frame s2 s'
    | Some b \<Rightarrow> \<exists>s'. balloc_over ROOTDEV (map (\<lambda>k. k * BPB) ks) s2 = Inr (of_nat b, s') \<and> allocated s2 bl b s'"
      by (rule Cons.IH [OF r(4) Cons.prems(2)]) (use Cons.prems(3,4) c(1) sb(2) in auto)
    have al: "allocated s2 bl b s' \<Longrightarrow> allocated s bl b s'" for b s'
      using tx_frame_trans [OF r(7), of s'] by (simp add: allocated_def r(5) sb(2))
    have fr: "tx_frame s2 s' \<Longrightarrow> tx_frame s s'" for s' by (rule tx_frame_trans [OF r(7)])
    show ?thesis using ih al fr unfolding e bo c(2) used_frame [OF r(5) sb(2)] r(5) by (auto split: option.splits)
  qed
qed (auto)

lemma bits_concat: "concat (map (bits_of s) [0..<k]) = [0..<min (k * BPB) (fsize s)]"
proof (induction k)
  case (Suc k)
  have "min (Suc k * BPB) (fsize s) = (if k * BPB \<le> fsize s then k * BPB + min BPB (fsize s - k * BPB) else fsize s)" by auto
  then show ?case using Suc upt_add_eq_append [of 0 "k * BPB"] by (auto simp: bits_of_def min_def)
qed simp

lemma balloc_ok:
  assumes "tx s bl" "length bl + 2 \<le> LOGBLOCKS" "meta_used s"
  shows "case List.find (\<lambda>b. \<not> block_used s b) [0..<fsize s] of
      None \<Rightarrow> \<exists>s'. balloc ROOTDEV s = Inr (0, s') \<and> tx s' bl \<and> bval s' = bval s \<and> tx_frame s s'
    | Some b \<Rightarrow> \<exists>s'. balloc ROOTDEV s = Inr (of_nat b, s') \<and> allocated s bl b s'"
proof -
  let ?K = "(fsize s + BPB - 1) div BPB"
  have "fsize s \<le> ?K * BPB" using div_mult_mod_eq [of "fsize s + BPB - 1" BPB] mod_less_divisor [OF BPB_pos, of "fsize s + BPB - 1"]
    by linarith
  then have e: "concat (map (bits_of s) [0..<?K]) = [0..<fsize s]" by (simp add: bits_concat min_def)
  have "k * BPB < fsize s" if "k < ?K" for k
  proof -
    have "(k + 1) * BPB \<le> ?K * BPB" using that by (intro mult_le_mono1) simp
    also have "\<dots> \<le> fsize s + BPB - 1" by (rule div_times_less_eq_dividend)
    finally have "k * BPB + BPB \<le> fsize s + BPB - 1" by (simp add: distrib_right)
    then show ?thesis using BPB_pos by linarith
  qed
  then show ?thesis using balloc_over_ok [OF assms, of "[0..<?K]"] unfolding e balloc_def by simp
qed

lemma bit_byte: "b mod BPB div 8 < BSIZE"
  using mod_less_divisor [OF BPB_pos, of b] by (intro less_mult_imp_div_less) (simp add: BPB_def)

lemma allocated_used:
  assumes "allocated s bl b s'" "tx s bl" "b < fsize s" "\<not> block_used s b" "meta_used s" "c < fsize s"
  shows "block_used s' c \<longleftrightarrow> c = b \<or> block_used s c"
proof -
  let ?B = "BBLOCK b (sb s)" and ?C = "BBLOCK c (sb s)"
  have sb: "sb s' = sb s" using assms(1) tx_frame_fs(1) by (auto simp: allocated_def)
  have ne: "?C \<noteq> of_nat b" "?B \<noteq> of_nat b" using assms(3-6) by (metis meta_used_def)+
  have lt: "fsize s < 2 ^ 32" using unsigned_less [of "sb_size (sb s)"] by simp
  have v: "bval s' ?C = (if ?C = ?B then bit_mark (bval s ?B) (b mod BPB) else bval s ?C)"
    using assms(1) ne(1) by (simp add: allocated_def)
  have len: "length (bval s ?B) = BSIZE" using length_bval [OF tx_pins(3) [OF assms(2)]] .
  show ?thesis
  proof (cases "?C = ?B")
    case True
    then have "c div BPB = b div BPB" using BBLOCK_inj [of c b "sb s"] assms(3,6) lt by simp
    then have "c mod BPB = b mod BPB \<longleftrightarrow> c = b" by (metis div_mult_mod_eq)
    then show ?thesis using True v len bit_byte [of b] by (simp add: block_used_def sb bit_used_mark)
  next
    case False
    then show ?thesis using v by (auto simp: block_used_def sb)
  qed
qed

section \<open>bfree\<close>

lemma bfree_ok:
  fixes s :: "'a ikernel_scheme" and b :: nat
  assumes "tx s bl" "length bl < LOGBLOCKS" "meta_used s" "b < fsize s"
  defines "B \<equiv> BBLOCK b (sb s)"
  shows "block_used s b \<Longrightarrow> \<exists>s'. bfree ROOTDEV (of_nat b) s = Inr s' \<and> tx s' (ladd B bl) \<and> tx_frame s s' \<and>
      bval s' = (bval s)(B := bit_clear (bval s B) (b mod BPB))"
    "\<not> block_used s b \<Longrightarrow> bfree ROOTDEV (of_nat b) s = Inl (Panic ''freeing free block'')"
proof -
  have "fsize s < 2 ^ 32" using unsigned_less [of "sb_size (sb s)"] by simp
  then have lt: "b < 2 ^ 32" using assms(4) by simp
  then have u: "unat (of_nat b :: u32) = b" by (rule unat_u32)
  have nB: "B \<notin> log_area s" using assms(3,4) by (simp add: meta_used_def B_def)
  show "bfree ROOTDEV (of_nat b) s = Inl (Panic ''freeing free block'')" if "\<not> block_used s b"
    using tx_read [OF assms(1,2), of B] that by (auto simp: bfree_def u B_def block_used_def Let_def)
  have len: "length (bit_clear (bval s B) (b mod BPB)) = BSIZE" using length_bval [OF tx_pins(3) [OF assms(1)]] by simp
  show "\<exists>s'. bfree ROOTDEV (of_nat b) s = Inr s' \<and> tx s' (ladd B bl) \<and> tx_frame s s' \<and>
      bval s' = (bval s)(B := bit_clear (bval s B) (b mod BPB))" if "block_used s b"
    using tx_update [OF assms(1,2) nB len] that by (auto simp: bfree_def u B_def block_used_def Let_def)
qed

lemma freed_used:
  assumes "bval s' = (bval s)(BBLOCK b (sb s) := bit_clear (bval s (BBLOCK b (sb s))) (b mod BPB))" "sb s' = sb s" "bc_inv s"
    "b < fsize s" "c < fsize s"
  shows "block_used s' c \<longleftrightarrow> c \<noteq> b \<and> block_used s c"
proof (cases "BBLOCK c (sb s) = BBLOCK b (sb s)")
  case True
  have "fsize s < 2 ^ 32" using unsigned_less [of "sb_size (sb s)"] by simp
  then have "c div BPB = b div BPB" using True BBLOCK_inj [of c b "sb s"] assms(4,5) by simp
  then have "c mod BPB = b mod BPB \<longleftrightarrow> c = b" by (metis div_mult_mod_eq)
  then show ?thesis using True length_bval [OF assms(3)] bit_byte [of b]
    by (simp add: block_used_def assms(1,2) bit_used_clear)
next
  case False
  then show ?thesis by (auto simp: block_used_def assms(1,2))
qed

end
