(* ===== verification/Fs_Dir.thy ===== *)
theory Fs_Dir
  imports Fs
begin

text \<open>
  Reading and writing inodes, directories and path names (\<^verbatim>\<open>kernel/fs.c\<close> from \<^verbatim>\<open>stati\<close> on). The
  target of a read is a user address, a kernel address or a local variable of the caller; the bytes
  that were copied are returned as well. Strings are byte lists without their NUL.
\<close>

section \<open>stati, readi and writei\<close>

record stat =
  st_dev :: u32
  st_ino :: u32
  st_type :: u16
  st_nlink :: u16
  st_size :: u64

definition stati :: "nat \<Rightarrow> 'a ikernel_scheme \<Rightarrow> stat" where
  "stati ip s = \<lparr>st_dev = i_dev (inode_at s ip), st_ino = i_inum (inode_at s ip), st_type = i_type (inode_at s ip),
     st_nlink = i_nlink (inode_at s ip), st_size = ucast (i_size (inode_at s ip))\<rparr>"

datatype iodst = UserDst u64 | KernDst u64 | LocalDst

datatype iosrc = UserSrc u64 | KernSrc u64 | LocalSrc "u8 list"

text \<open>\<^verbatim>\<open>either_copyout\<close> and \<^verbatim>\<open>either_copyin\<close> at distance \<open>tot\<close> from the start.\<close>

definition put_out :: "iodst \<Rightarrow> nat \<Rightarrow> u8 list \<Rightarrow> 'a ikernel_scheme \<Rightarrow> (bool \<times> 'a ikernel_scheme) kres" where
  "put_out dst tot src s =
     (case dst of
        UserDst a \<Rightarrow> either_copyout (cur s) True (a + of_nat tot) src s
      | KernDst a \<Rightarrow> either_copyout (cur s) False (a + of_nat tot) src s
      | LocalDst \<Rightarrow> Inr (True, s))"

definition get_in :: "iosrc \<Rightarrow> nat \<Rightarrow> nat \<Rightarrow> 'a ikernel_scheme \<Rightarrow> ((u8 list \<times> bool) \<times> 'a ikernel_scheme) kres" where
  "get_in src tot m s =
     (case src of
        UserSrc a \<Rightarrow> either_copyin (cur s) True (a + of_nat tot) m s
      | KernSrc a \<Rightarrow> either_copyin (cur s) False (a + of_nat tot) m s
      | LocalSrc xs \<Rightarrow> Inr ((take m (drop tot xs), True), s))"

definition chunk :: "nat \<Rightarrow> nat \<Rightarrow> nat \<Rightarrow> nat" where
  "chunk off n tot = min (n - tot) (BSIZE - off mod BSIZE)"

lemma chunk_pos: "tot < n \<Longrightarrow> 0 < chunk off n tot"
  by (simp add: chunk_def BSIZE_def)

lemma chunk_le: "chunk off n tot \<le> n - tot"
  by (simp add: chunk_def)

function readi_loop :: "nat \<Rightarrow> iodst \<Rightarrow> nat \<Rightarrow> nat \<Rightarrow> nat \<Rightarrow> u8 list \<Rightarrow> 'a ikernel_scheme \<Rightarrow>
    ((int \<times> u8 list) \<times> 'a ikernel_scheme) kres" where
  "readi_loop ip dst off n tot acc s =
     (if tot < n then
        rbind (bmap ip (off div BSIZE) s) (\<lambda>(addr, s).
        if addr = 0 then Inr ((sint (of_nat tot :: u32), acc), s)
        else
          rbind (bread (i_dev (inode_at s ip)) addr s) (\<lambda>(bp, s).
          let m = chunk off n tot; src = take m (drop (off mod BSIZE) (bdata (buf_at s bp)))
          in rbind (put_out dst tot src s) (\<lambda>(ok, s).
             rbind (brelse bp s) (\<lambda>s.
             if \<not> ok then Inr ((- 1, acc), s)
             else readi_loop ip dst (off + m) n (tot + m) (acc @ src) s))))
      else Inr ((sint (of_nat tot :: u32), acc), s))"
  by pat_completeness auto
termination
  by (relation "measure (\<lambda>(ip, dst, off, n, tot, acc, s). n - tot)")
    (auto simp: chunk_def BSIZE_def)

declare readi_loop.simps [simp del]

definition readi :: "nat \<Rightarrow> iodst \<Rightarrow> u32 \<Rightarrow> u32 \<Rightarrow> 'a ikernel_scheme \<Rightarrow> ((int \<times> u8 list) \<times> 'a ikernel_scheme) kres" where
  "readi ip dst off n s =
     (let fsz = i_size (inode_at s ip)
      in if off > fsz \<or> off + n < off then Inr ((0, []), s)
         else readi_loop ip dst (unat off) (unat (if off + n > fsz then fsz - off else n)) 0 [] s)"

function writei_loop :: "nat \<Rightarrow> iosrc \<Rightarrow> nat \<Rightarrow> nat \<Rightarrow> nat \<Rightarrow> 'a ikernel_scheme \<Rightarrow> ((nat \<times> nat) \<times> 'a ikernel_scheme) kres" where
  "writei_loop ip src off n tot s =
     (if tot < n then
        rbind (bmap ip (off div BSIZE) s) (\<lambda>(addr, s).
        if addr = 0 then Inr ((tot, off), s)
        else
          rbind (bread (i_dev (inode_at s ip)) addr s) (\<lambda>(bp, s).
          let m = chunk off n tot
          in rbind (get_in src tot m s) (\<lambda>((bytes, ok), s).
             let s = set_bdata bp (overwrite (bdata (buf_at s bp)) (off mod BSIZE) bytes) s
             in if \<not> ok then rbind (brelse bp s) (\<lambda>s. Inr ((tot, off), s))
                else
                  rbind (log_write bp s) (\<lambda>s.
                  rbind (brelse bp s) (\<lambda>s. writei_loop ip src (off + m) n (tot + m) s)))))
      else Inr ((tot, off), s))"
  by pat_completeness auto
termination
  by (relation "measure (\<lambda>(ip, src, off, n, tot, s). n - tot)")
    (auto simp: chunk_def BSIZE_def)

declare writei_loop.simps [simp del]

definition writei :: "nat \<Rightarrow> iosrc \<Rightarrow> u32 \<Rightarrow> u32 \<Rightarrow> 'a ikernel_scheme \<Rightarrow> (int \<times> 'a ikernel_scheme) kres" where
  "writei ip src off n s =
     (if off > i_size (inode_at s ip) \<or> off + n < off then Inr (- 1, s)
      else if unat (off + n) > MAXFILE * BSIZE then Inr (- 1, s)
      else
        rbind (writei_loop ip src (unat off) (unat n) 0 s) (\<lambda>((tot, off), s).
        let s = (if off > unat (i_size (inode_at s ip)) then upd_inode ip (\<lambda>x. x\<lparr>i_size := of_nat off\<rparr>) s else s)
        in rbind (iupdate ip s) (\<lambda>s. Inr (int tot, s))))"

section \<open>Directories\<close>

text \<open>\<^verbatim>\<open>strncmp\<close> and \<^verbatim>\<open>strncpy\<close> on local strings; past its end a string reads as NUL.\<close>

definition ch :: "u8 list \<Rightarrow> u8" where
  "ch xs = (case xs of [] \<Rightarrow> 0 | x # _ \<Rightarrow> x)"

primrec strncmp_str :: "nat \<Rightarrow> u8 list \<Rightarrow> u8 list \<Rightarrow> int" where
  "strncmp_str 0 p q = 0"
| "strncmp_str (Suc n) p q =
     (if ch p \<noteq> 0 \<and> ch p = ch q then strncmp_str n (tl p) (tl q) else uint (ch p) - uint (ch q))"

definition namecmp :: "u8 list \<Rightarrow> u8 list \<Rightarrow> int" where
  "namecmp p q = strncmp_str DIRSIZ p q"

definition strncpy_str :: "nat \<Rightarrow> u8 list \<Rightarrow> u8 list" where
  "strncpy_str n p = (let q = takeWhile (\<lambda>c. c \<noteq> 0) (take n p) in q @ replicate (n - length q) 0)"

text \<open>The offsets of the entries of a directory of \<open>n\<close> bytes.\<close>

definition dir_offs :: "u32 \<Rightarrow> nat list" where
  "dir_offs n = map (\<lambda>k. 16 * k) [0..<(unat n + 15) div 16]"

primrec dirlookup_over :: "nat \<Rightarrow> u8 list \<Rightarrow> nat list \<Rightarrow> 'a ikernel_scheme \<Rightarrow> ((nat \<times> nat) option \<times> 'a ikernel_scheme) kres" where
  "dirlookup_over dp name [] s = Inr (None, s)"
| "dirlookup_over dp name (off # offs) s =
     rbind (readi dp LocalDst (of_nat off) 16 s) (\<lambda>((r, de), s).
     if r \<noteq> 16 then Inl (Panic ''dirlookup read'')
     else if get16 de 0 = 0 then dirlookup_over dp name offs s
     else if namecmp name (drop 2 de) = 0 then
       rbind (iget (i_dev (inode_at s dp)) (ucast (get16 de 0)) s) (\<lambda>(ip, s). Inr (Some (ip, off), s))
     else dirlookup_over dp name offs s)"

definition dirlookup :: "nat \<Rightarrow> u8 list \<Rightarrow> 'a ikernel_scheme \<Rightarrow> ((nat \<times> nat) option \<times> 'a ikernel_scheme) kres" where
  "dirlookup dp name s =
     (if i_type (inode_at s dp) \<noteq> T_DIR then Inl (Panic ''dirlookup not DIR'')
      else dirlookup_over dp name (dir_offs (i_size (inode_at s dp))) s)"

primrec empty_over :: "nat \<Rightarrow> nat list \<Rightarrow> 'a ikernel_scheme \<Rightarrow> (nat option \<times> 'a ikernel_scheme) kres" where
  "empty_over dp [] s = Inr (None, s)"
| "empty_over dp (off # offs) s =
     rbind (readi dp LocalDst (of_nat off) 16 s) (\<lambda>((r, de), s).
     if r \<noteq> 16 then Inl (Panic ''dirlink read'')
     else if get16 de 0 = 0 then Inr (Some off, s)
     else empty_over dp offs s)"

definition dirlink :: "nat \<Rightarrow> u8 list \<Rightarrow> u32 \<Rightarrow> 'a ikernel_scheme \<Rightarrow> (int \<times> 'a ikernel_scheme) kres" where
  "dirlink dp name inum s =
     rbind (dirlookup dp name s) (\<lambda>(r, s). case r of
       Some (ip, _) \<Rightarrow> rbind (iput ip s) (\<lambda>s. Inr (- 1, s))
     | None \<Rightarrow>
         let offs = dir_offs (i_size (inode_at s dp))
         in rbind (empty_over dp offs s) (\<lambda>(e, s).
            let off = (case e of Some off \<Rightarrow> off | None \<Rightarrow> 16 * length offs);
                de = bytes16 (ucast inum) @ strncpy_str DIRSIZ name
            in rbind (writei dp (LocalSrc de) (of_nat off) 16 s) (\<lambda>(r, s).
               if r \<noteq> 16 then Inr (- 1, s) else Inr (0, s))))"

section \<open>Paths\<close>

definition SLASH :: u8 where "SLASH = 47"

text \<open>The element, as it ends up in the \<^verbatim>\<open>DIRSIZ\<close> bytes of \<^verbatim>\<open>name\<close>, and the rest of the path.\<close>

definition skipelem :: "u8 list \<Rightarrow> (u8 list \<times> u8 list) option" where
  "skipelem path =
     (let path = dropWhile (\<lambda>c. c = SLASH) path
      in if path = [] then None
         else
           let elem = takeWhile (\<lambda>c. c \<noteq> SLASH) path
           in Some (take DIRSIZ elem, dropWhile (\<lambda>c. c = SLASH) (drop (length elem) path)))"

lemma skipelem_shorter: "skipelem path = Some (name, rest) \<Longrightarrow> length rest < length path"
proof -
  assume a: "skipelem path = Some (name, rest)"
  let ?p = "dropWhile (\<lambda>c. c = SLASH) path"
  have p: "?p \<noteq> []" "rest = dropWhile (\<lambda>c. c = SLASH) (drop (length (takeWhile (\<lambda>c. c \<noteq> SLASH) ?p)) ?p)"
    using a by (auto simp: skipelem_def Let_def split: if_splits)
  have "hd ?p \<noteq> SLASH" using hd_dropWhile [OF p(1)] by simp
  then have "takeWhile (\<lambda>c. c \<noteq> SLASH) ?p \<noteq> []" using p(1) by (cases ?p) auto
  then have "length (drop (length (takeWhile (\<lambda>c. c \<noteq> SLASH) ?p)) ?p) < length ?p" using p(1) by simp
  moreover have "length rest \<le> length (drop (length (takeWhile (\<lambda>c. c \<noteq> SLASH) ?p)) ?p)"
    unfolding p(2) by (rule length_dropWhile_le)
  ultimately show ?thesis using length_dropWhile_le [of "\<lambda>c. c = SLASH" path] by linarith
qed

function namex_loop :: "bool \<Rightarrow> u8 list \<Rightarrow> u8 list \<Rightarrow> nat \<Rightarrow> 'a ikernel_scheme \<Rightarrow>
    ((nat option \<times> u8 list) \<times> 'a ikernel_scheme) kres" where
  "namex_loop nip path name ip s =
     (case skipelem path of
        None \<Rightarrow> if nip then rbind (iput ip s) (\<lambda>s. Inr ((None, name), s)) else Inr ((Some ip, name), s)
      | Some (name, path) \<Rightarrow>
          rbind (ilock (Some ip) s) (\<lambda>s.
          if i_type (inode_at s ip) \<noteq> T_DIR then rbind (iunlockput ip s) (\<lambda>s. Inr ((None, name), s))
          else if nip \<and> path = [] then rbind (iunlock (Some ip) s) (\<lambda>s. Inr ((Some ip, name), s))
          else
            rbind (dirlookup ip name s) (\<lambda>(r, s).
            case r of
              None \<Rightarrow> rbind (iunlockput ip s) (\<lambda>s. Inr ((None, name), s))
            | Some (nxt, _) \<Rightarrow> rbind (iunlockput ip s) (namex_loop nip path name nxt))))"
  by pat_completeness auto
termination
  by (relation "measure (\<lambda>(nip, path, name, ip, s). length path)") (auto dest: skipelem_shorter)

declare namex_loop.simps [simp del]

definition namex :: "u8 list \<Rightarrow> bool \<Rightarrow> 'a ikernel_scheme \<Rightarrow> ((nat option \<times> u8 list) \<times> 'a ikernel_scheme) kres" where
  "namex path nip s =
     (if path \<noteq> [] \<and> hd path = SLASH then rbind (iget ROOTDEV ROOTINO s) (\<lambda>(ip, s). namex_loop nip path [] ip s)
      else case cwd (procs s ! cur s) of
        None \<Rightarrow> Inl BadIndex
      | Some ip \<Rightarrow> namex_loop nip path [] ip (idup ip s))"

definition namei :: "u8 list \<Rightarrow> 'a ikernel_scheme \<Rightarrow> (nat option \<times> 'a ikernel_scheme) kres" where
  "namei path s = rbind (namex path False s) (\<lambda>((ip, _), s). Inr (ip, s))"

definition nameiparent :: "u8 list \<Rightarrow> 'a ikernel_scheme \<Rightarrow> ((nat option \<times> u8 list) \<times> 'a ikernel_scheme) kres" where
  "nameiparent path s = namex path True s"

end
