(* ===== verification/Fs_Inode.thy ===== *)
theory Fs_Inode
  imports Fs_Bitmap Fs_Dir
begin

text \<open>
  Inodes on disk and the content of files: the layout of an on-disk inode is read back as it was
  written, and \<^verbatim>\<open>readi\<close> and \<^verbatim>\<open>writei\<close> act on the byte sequence that the block addresses describe.
\<close>

section \<open>On-disk inodes\<close>

lemma addrs_loop:
  fixes a :: "u32 list" and d :: block
  assumes "p + 4 * n \<le> length d"
  defines "e \<equiv> fold (\<lambda>i d. put32 d (p + 4 * i) (a ! i)) [0..<n] d"
  shows "length e = length d \<and> (\<forall>i < n. get32 e (p + 4 * i) = a ! i) \<and>
    (\<forall>k < length d. k < p \<or> p + 4 * n \<le> k \<longrightarrow> e ! k = d ! k)"
  using assms(1) unfolding e_def
proof (induction n)
  case (Suc n)
  let ?e = "fold (\<lambda>i d. put32 d (p + 4 * i) (a ! i)) [0..<n] d"
  have IH: "length ?e = length d" "\<forall>i < n. get32 ?e (p + 4 * i) = a ! i" "\<forall>k < length d. k < p \<or> p + 4 * n \<le> k \<longrightarrow> ?e ! k = d ! k"
    using Suc by simp_all
  have b: "p + 4 * n + 4 \<le> length ?e" using Suc.prems IH(1) by simp
  have "get32 (put32 ?e (p + 4 * n) (a ! n)) (p + 4 * i) = a ! i" if "i < Suc n" for i
  proof (cases "i = n")
    case False
    then show ?thesis using IH(2) b that get32_put32_other [of "p + 4 * n" ?e "p + 4 * i" "a ! n"] by simp
  qed (use b in simp)
  moreover have "put32 ?e (p + 4 * n) (a ! n) ! k = d ! k" if "k < length d" "k < p \<or> p + 4 * Suc n \<le> k" for k
    using IH(1,3) b that nth_put32 [OF b, of k] by auto
  ultimately show ?case using IH(1) b by simp
qed simp

lemma get_dinode_cong:
  assumes "\<And>i. i < 64 \<Longrightarrow> d ! (64 * k + i) = e ! (64 * k + i)" shows "get_dinode d k = get_dinode e k"
proof -
  have g16: "get16 d (64 * k + i) = get16 e (64 * k + i)" if "i + 2 \<le> 64" for i
    by (rule get16_cong) (use assms that in \<open>simp add: add.assoc\<close>)
  have g32: "get32 d (64 * k + i) = get32 e (64 * k + i)" if "i + 4 \<le> 64" for i
    by (rule get32_cong) (use assms that in \<open>simp add: add.assoc\<close>)
  show ?thesis
    using g16 [of 0] g16 [of 2] g16 [of 4] g16 [of 6] g32 [of 8] g32 [of "12 + 4 * _"]
    by (simp add: get_dinode_def add.assoc NDIRECT_def)
qed

text \<open>The part of \<open>put_dinode\<close> before the addresses.\<close>

definition put_head :: "block \<Rightarrow> nat \<Rightarrow> dinode \<Rightarrow> block" where
  "put_head d k di = put32 (put16 (put16 (put16 (put16 d (64 * k) (d_type di)) (64 * k + 2) (d_major di))
     (64 * k + 4) (d_minor di)) (64 * k + 6) (d_nlink di)) (64 * k + 8) (d_size di)"

lemma put_head_fields:
  fixes d :: block and di :: dinode
  assumes "64 * k + 64 \<le> length d"
  defines "e \<equiv> put_head d k di"
  shows "length e = length d" "get16 e (64 * k) = d_type di" "get16 e (64 * k + 2) = d_major di"
    "get16 e (64 * k + 4) = d_minor di" "get16 e (64 * k + 6) = d_nlink di" "get32 e (64 * k + 8) = d_size di"
    "\<And>i. i < length d \<Longrightarrow> i < 64 * k \<or> 64 * k + 12 \<le> i \<Longrightarrow> e ! i = d ! i"
  using assms(1) by (auto simp: e_def put_head_def field_simps_bytes nth_put16 nth_put32)

lemma put_dinode_get:
  assumes "64 * k + 64 \<le> length d" "length (d_addrs di) = NDIRECT + 1"
  shows "get_dinode (put_dinode d k di) k = di" "length (put_dinode d k di) = length d"
    "\<And>j. j \<noteq> k \<Longrightarrow> 64 * j + 64 \<le> length d \<Longrightarrow> get_dinode (put_dinode d k di) j = get_dinode d j"
proof -
  define e where "e = put_head d k di"
  note h = put_head_fields [OF assms(1), where di = di, folded e_def]
  have pd: "put_dinode d k di = fold (\<lambda>i d. put32 d (64 * k + 12 + 4 * i) (d_addrs di ! i)) [0..<NDIRECT + 1] e"
    by (simp add: put_dinode_def put_head_def e_def Let_def)
  have l: "64 * k + 12 + 4 * (NDIRECT + 1) \<le> length e" using h(1) assms(1) by (simp add: NDIRECT_def)
  note a = addrs_loop [OF l, where a = "d_addrs di", folded pd]
  show len: "length (put_dinode d k di) = length d" using a h(1) by simp
  have o: "put_dinode d k di ! i = e ! i" if "i < length d" "i < 64 * k + 12 \<or> 64 * k + 64 \<le> i" for i
    using a that h(1) by (auto simp: NDIRECT_def)
  have g16: "get16 (put_dinode d k di) (64 * k + i) = get16 e (64 * k + i)" if "i + 2 \<le> 12" for i
    by (rule get16_cong) (use o that assms(1) in \<open>simp add: add.assoc\<close>)
  have g32: "get32 (put_dinode d k di) (64 * k + 8) = get32 e (64 * k + 8)"
    by (rule get32_cong) (use o assms(1) in \<open>simp add: add.assoc\<close>)
  have ad: "map (\<lambda>i. get32 (put_dinode d k di) (64 * k + 12 + 4 * i)) [0..<NDIRECT + 1] = d_addrs di"
    by (rule nth_equalityI) (use a assms(2) in \<open>simp_all del: upt_Suc\<close>)
  show "get_dinode (put_dinode d k di) k = di"
    using g16 [of 0] g16 [of 2] g16 [of 4] g16 [of 6] g32 h ad
    by (intro dinode.equality) (simp_all add: get_dinode_def del: upt_Suc)
  show "get_dinode (put_dinode d k di) j = get_dinode d j" if j: "j \<noteq> k" "64 * j + 64 \<le> length d" for j
  proof (rule get_dinode_cong)
    fix i :: nat assume "i < 64"
    then have "64 * j + i < length d" "64 * j + i < 64 * k \<or> 64 * k + 64 \<le> 64 * j + i" using j by linarith+
    then show "put_dinode d k di ! (64 * j + i) = d ! (64 * j + i)" using o h(7) by auto
  qed
qed

lemma IPB_slot: "length d = BSIZE \<Longrightarrow> 64 * (i mod IPB) + 64 \<le> length d"
  using mod_less_divisor [of IPB i] by (simp add: IPB_def BSIZE_def)

text \<open>The on-disk inode of number \<open>i\<close>, as the cache has it.\<close>

definition disk_inode :: "'a ikernel_scheme \<Rightarrow> nat \<Rightarrow> dinode" where
  "disk_inode s i = get_dinode (bval s (IBLOCK i (sb s))) (i mod IPB)"

lemma iupdate_ok:
  fixes s :: "'a ikernel_scheme"
  assumes "tx s bl" "length bl < LOGBLOCKS" "i_dev (inode_at s ip) = ROOTDEV" "length (i_addrs (inode_at s ip)) = NDIRECT + 1"
    "IBLOCK (unat (i_inum (inode_at s ip))) (sb s) \<notin> log_area s"
  defines "B \<equiv> IBLOCK (unat (i_inum (inode_at s ip))) (sb s)"
  shows "\<exists>s'. iupdate ip s = Inr s' \<and> tx s' (ladd B bl) \<and> tx_frame s s' \<and>
    bval s' = (bval s)(B := put_dinode (bval s B) (unat (i_inum (inode_at s ip)) mod IPB) (dinode_of (inode_at s ip)))"
proof -
  let ?d = "put_dinode (bval s B) (unat (i_inum (inode_at s ip)) mod IPB) (dinode_of (inode_at s ip))"
  have lB: "length (bval s B) = BSIZE" by (rule length_bval [OF tx_pins(3) [OF assms(1)]])
  have "length ?d = BSIZE" using put_dinode_get(2) [OF IPB_slot [OF lB]] assms(4) lB by (simp add: dinode_of_def)
  from tx_update [OF assms(1,2) assms(5) [folded B_def] this] obtain i s1 s2 s' where
    u: "bread ROOTDEV B s = Inr (i, s1)" "bdata (buf_at s1 i) = bval s B" "log_write i (set_bdata i ?d s1) = Inr s2"
    "brelse i s2 = Inr s'" "tx s' (ladd B bl)" "bval s' = (bval s)(B := ?d)" "tx_frame s s1" "tx_frame s s'"
    by blast
  have "iupdate ip s = Inr s'"
    using u(1-4) assms(3) tx_frame_fs(2) [OF u(7)] by (simp add: iupdate_def B_def Let_def)
  then show ?thesis using u(5,6,8) by blast
qed

section \<open>Block addresses\<close>

definition baddr :: "'a ikernel_scheme \<Rightarrow> inode \<Rightarrow> nat \<Rightarrow> u32" where
  "baddr s x k = (if k < NDIRECT then i_addrs x ! k else get32 (bval s (i_addrs x ! NDIRECT)) (4 * (k - NDIRECT)))"

text \<open>The first \<open>nb\<close> blocks of the file are allocated, distinct, and lie outside the log.\<close>

definition file_ok :: "'a ikernel_scheme \<Rightarrow> inode \<Rightarrow> nat \<Rightarrow> bool" where
  "file_ok s x nb \<longleftrightarrow> nb \<le> MAXFILE \<and> i_dev x = ROOTDEV \<and> length (i_addrs x) = NDIRECT + 1 \<and>
     (NDIRECT < nb \<longrightarrow> i_addrs x ! NDIRECT \<noteq> 0) \<and> inj_on (baddr s x) {..<nb} \<and>
     (\<forall>k < nb. baddr s x k \<noteq> 0 \<and> baddr s x k \<notin> log_area s \<and> baddr s x k \<noteq> i_addrs x ! NDIRECT)"

lemma bmap_hit:
  assumes "tx s bl" "length bl < LOGBLOCKS" "file_ok s (inode_at s ip) nb" "k < nb"
  shows "\<exists>s'. bmap ip k s = Inr (baddr s (inode_at s ip) k, s') \<and> tx s' bl \<and> bval s' = bval s \<and> tx_frame s s'"
proof (cases "k < NDIRECT")
  case True
  then show ?thesis using assms by (auto simp: bmap_def baddr_def file_ok_def)
next
  case False
  let ?x = "inode_at s ip"
  have f: "i_addrs ?x ! NDIRECT \<noteq> 0" "k - NDIRECT < NINDIRECT" "i_dev ?x = ROOTDEV"
    "get32 (bval s (i_addrs ?x ! NDIRECT)) (4 * (k - NDIRECT)) \<noteq> 0"
    using assms(3,4) False by (auto simp: file_ok_def MAXFILE_def baddr_def)
  obtain i s1 s' where r: "bread ROOTDEV (i_addrs ?x ! NDIRECT) s = Inr (i, s1)" "bdata (buf_at s1 i) = bval s (i_addrs ?x ! NDIRECT)"
    "brelse i s1 = Inr s'" "tx s' bl" "bval s' = bval s" "tx_frame s s'"
    using tx_read [OF assms(1,2), of "i_addrs ?x ! NDIRECT"] by blast
  have "bmap ip k s = Inr (baddr s ?x k, s')" using False f r(1-3) by (simp add: bmap_def baddr_def Let_def)
  then show ?thesis using r(4-6) by blast
qed

text \<open>Byte \<open>p\<close> of the file.\<close>

definition fbyte :: "'a ikernel_scheme \<Rightarrow> inode \<Rightarrow> nat \<Rightarrow> u8" where
  "fbyte s x p = bval s (baddr s x (p div BSIZE)) ! (p mod BSIZE)"

lemma file_cong:
  assumes "bval s' = bval s" "log_area s' = log_area s"
  shows "baddr s' = baddr s" "file_ok s' = file_ok s" "fbyte s' = fbyte s"
proof -
  show b: "baddr s' = baddr s" using assms(1) by (simp add: fun_eq_iff baddr_def)
  show "file_ok s' = file_ok s" "fbyte s' = fbyte s" by (intro ext, simp add: file_ok_def fbyte_def assms b)+
qed

lemma BSIZE_pos [simp]: "0 < BSIZE"
  by (simp add: BSIZE_def)

lemma in_chunk:
  assumes "i < chunk off n tot"
  shows "(off + i) div BSIZE = off div BSIZE" "(off + i) mod BSIZE = off mod BSIZE + i" "off mod BSIZE + i < BSIZE"
proof -
  show l: "off mod BSIZE + i < BSIZE" using assms by (auto simp: chunk_def less_diff_conv add.commute)
  define q r where "q = off div BSIZE" and "r = off mod BSIZE"
  have e: "off = q * BSIZE + r" "r + i < BSIZE" using div_mult_mod_eq [of off BSIZE] l by (simp_all add: q_def r_def)
  have "(off + i) div BSIZE = q" "(off + i) mod BSIZE = r + i" using e(2) unfolding e(1) by (simp_all add: add.assoc)
  then show "(off + i) div BSIZE = off div BSIZE" "(off + i) mod BSIZE = off mod BSIZE + i" by (simp_all add: q_def r_def)
qed

lemma chunk_fit: "off mod BSIZE + chunk off n tot \<le> BSIZE"
  using mod_less_divisor [OF BSIZE_pos, of off] unfolding chunk_def by linarith

lemma segment_bytes:
  assumes "length (bval s (baddr s x (off div BSIZE))) = BSIZE"
  shows "take (chunk off n tot) (drop (off mod BSIZE) (bval s (baddr s x (off div BSIZE)))) = map (fbyte s x) [off..<off + chunk off n tot]"
proof (rule nth_equalityI)
  have "off mod BSIZE < BSIZE" by simp
  then show "length (take (chunk off n tot) (drop (off mod BSIZE) (bval s (baddr s x (off div BSIZE))))) =
    length (map (fbyte s x) [off..<off + chunk off n tot])"
    using assms by (simp add: chunk_def)
next
  fix i assume "i < length (take (chunk off n tot) (drop (off mod BSIZE) (bval s (baddr s x (off div BSIZE)))))"
  then have i: "i < chunk off n tot" by simp
  note c = in_chunk [OF i]
  then show "take (chunk off n tot) (drop (off mod BSIZE) (bval s (baddr s x (off div BSIZE)))) ! i =
    map (fbyte s x) [off..<off + chunk off n tot] ! i"
    using i assms by (simp add: fbyte_def)
qed

section \<open>readi\<close>

lemma tx_read_block:
  assumes "tx s bl" "length bl < LOGBLOCKS" "file_ok s (inode_at s ip) nb" "k < nb"
  shows "\<exists>s1 i s2 s3. bmap ip k s = Inr (baddr s (inode_at s ip) k, s1) \<and>
    bread (i_dev (inode_at s1 ip)) (baddr s (inode_at s ip) k) s1 = Inr (i, s2) \<and>
    bdata (buf_at s2 i) = bval s (baddr s (inode_at s ip) k) \<and> brelse i s2 = Inr s3 \<and> tx s3 bl \<and> bval s3 = bval s \<and> tx_frame s s3"
proof -
  obtain s1 where b: "bmap ip k s = Inr (baddr s (inode_at s ip) k, s1)" "tx s1 bl" "bval s1 = bval s" "tx_frame s s1"
    using bmap_hit [OF assms] by blast
  have dev: "i_dev (inode_at s1 ip) = ROOTDEV" using assms(3) tx_frame_fs(2) [OF b(4)] by (simp add: file_ok_def)
  obtain i s2 s3 where r: "bread ROOTDEV (baddr s (inode_at s ip) k) s1 = Inr (i, s2)"
    "bdata (buf_at s2 i) = bval s (baddr s (inode_at s ip) k)" "brelse i s2 = Inr s3" "tx s3 bl" "bval s3 = bval s" "tx_frame s1 s3"
    using tx_read [OF b(2) assms(2), of "baddr s (inode_at s ip) k"] unfolding b(3) by blast
  show ?thesis using b(1) r tx_frame_trans [OF b(4) r(6)] unfolding dev [symmetric] by blast
qed

lemma readi_loop_ok:
  assumes "tx s bl" "length bl < LOGBLOCKS" "file_ok s (inode_at s ip) nb" "tot \<le> n" "off + (n - tot) \<le> nb * BSIZE"
  shows "\<exists>s'. readi_loop ip LocalDst off n tot acc s =
      Inr ((sint (of_nat n :: u32), acc @ map (fbyte s (inode_at s ip)) [off..<off + (n - tot)]), s') \<and>
    tx s' bl \<and> bval s' = bval s \<and> tx_frame s s'"
  using assms
proof (induction "n - tot" arbitrary: tot off acc s rule: less_induct)
  case less
  note ihyp = less.hyps and prems = less.prems
  show ?case
  proof (cases "tot < n")
    case False
    then show ?thesis using prems by (subst readi_loop.simps) auto
  next
    case True
    define m where "m = chunk off n tot"
    let ?x = "inode_at s ip"
    have m: "0 < m" "m \<le> n - tot" using chunk_pos [OF True] chunk_le by (simp_all add: m_def)
    have "off < nb * BSIZE" using prems(5) True by linarith
    then have k: "off div BSIZE < nb" by (simp add: less_mult_imp_div_less)
    obtain s1 i s2 s3 where r: "bmap ip (off div BSIZE) s = Inr (baddr s ?x (off div BSIZE), s1)"
      "bread (i_dev (inode_at s1 ip)) (baddr s ?x (off div BSIZE)) s1 = Inr (i, s2)"
      "bdata (buf_at s2 i) = bval s (baddr s ?x (off div BSIZE))" "brelse i s2 = Inr s3" "tx s3 bl" "bval s3 = bval s" "tx_frame s s3"
      using tx_read_block [OF prems(1-3) k] by blast
    have x: "inode_at s3 ip = ?x" using tx_frame_fs(2) [OF r(7)] by simp
    note fc = file_cong [OF r(6) tx_frame_log(10) [OF r(7)]]
    have nz: "baddr s ?x (off div BSIZE) \<noteq> 0" using prems(3) k by (simp add: file_ok_def)
    have seg: "take m (drop (off mod BSIZE) (bval s (baddr s ?x (off div BSIZE)))) = map (fbyte s ?x) [off..<off + m]"
      unfolding m_def by (rule segment_bytes [OF length_bval [OF tx_pins(3) [OF prems(1)]]])
    have step: "readi_loop ip LocalDst off n tot acc s =
        readi_loop ip LocalDst (off + m) n (tot + m) (acc @ map (fbyte s ?x) [off..<off + m]) s3"
      by (subst readi_loop.simps) (use True r(1-4) nz seg in \<open>simp add: put_out_def m_def [symmetric]\<close>)
    have fo: "file_ok s3 (inode_at s3 ip) nb" using prems(3) by (simp add: fc x)
    have lt: "n - (tot + m) < n - tot" and ar: "tot + m \<le> n" "off + m + (n - (tot + m)) \<le> nb * BSIZE"
      using m True prems(5) by linarith+
    obtain s' where s': "readi_loop ip LocalDst (off + m) n (tot + m) (acc @ map (fbyte s ?x) [off..<off + m]) s3 =
        Inr ((sint (of_nat n :: u32), (acc @ map (fbyte s ?x) [off..<off + m]) @
          map (fbyte s3 (inode_at s3 ip)) [off + m..<off + m + (n - (tot + m))]), s')" "tx s' bl" "bval s' = bval s3" "tx_frame s3 s'"
      using ihyp [OF lt r(5) prems(2) fo ar] by blast
    have "[off..<off + m] @ [off + m..<off + m + (n - (tot + m))] = [off..<off + (n - tot)]"
      using m upt_add_eq_append [of off "off + m" "n - (tot + m)"] by simp
    then have "map (fbyte s ?x) [off..<off + m] @ map (fbyte s3 (inode_at s3 ip)) [off + m..<off + m + (n - (tot + m))] =
        map (fbyte s ?x) [off..<off + (n - tot)]"
      by (simp add: fc x flip: map_append)
    then show ?thesis using step s' r(6) tx_frame_trans [OF r(7) s'(4)] by simp
  qed
qed

lemma readi_ok:
  assumes "tx s bl" "length bl < LOGBLOCKS" "file_ok s (inode_at s ip) nb" "unat (i_size (inode_at s ip)) \<le> nb * BSIZE"
    "unat off + unat n \<le> unat (i_size (inode_at s ip))"
  shows "\<exists>s'. readi ip LocalDst off n s = Inr ((uint n, map (fbyte s (inode_at s ip)) [unat off..<unat off + unat n]), s') \<and>
    tx s' bl \<and> bval s' = bval s \<and> tx_frame s s'"
proof -
  let ?z = "i_size (inode_at s ip)"
  have "unat ?z < 2 ^ 32" using unsigned_less [of ?z] by simp
  then have "unat off + unat n < 2 ^ 32" using assms(5) by simp
  then have u: "unat (off + n) = unat off + unat n" by (simp add: unat_plus_if_size word_size)
  have c: "\<not> off > ?z" "\<not> off + n < off" "\<not> off + n > ?z"
    using assms(5) u by (simp_all add: word_less_nat_alt)
  have "nb * BSIZE \<le> MAXFILE * BSIZE" using assms(3) by (simp add: file_ok_def)
  then have "unat n < 2147483648" using assms(4,5) by (simp add: MAXFILE_def NDIRECT_def NINDIRECT_def BSIZE_def)
  then have "int (unat n) < 2147483648" by (metis of_nat_less_iff of_nat_numeral)
  then have "uint n < 2147483648" by (simp only: uint_nat)
  then have "sint (word_of_int (uint n) :: u32) = uint n" using int_word_sint [of "uint n", where 'a = 32] by simp
  then have "sint n = uint n" by simp
  then show ?thesis
    using readi_loop_ok [OF assms(1-3), of 0 "unat n" "unat off" "[]"] assms(4,5) c by (simp add: readi_def Let_def)
qed

section \<open>writei\<close>

lemma file_update:
  assumes "file_ok s x nb" "k < nb" "bval s' = (bval s)(baddr s x k := d)" "log_area s' = log_area s"
  shows "baddr s' x = baddr s x" "file_ok s' x nb"
    "\<And>p. p < nb * BSIZE \<Longrightarrow> fbyte s' x p = (if p div BSIZE = k then d ! (p mod BSIZE) else fbyte s x p)"
proof -
  have "i_addrs x ! NDIRECT \<noteq> baddr s x k" using assms(1,2) by (metis file_ok_def)
  then show b: "baddr s' x = baddr s x" by (simp add: fun_eq_iff baddr_def assms(3))
  show "file_ok s' x nb" using assms(1,4) by (simp add: file_ok_def b)
  show "fbyte s' x p = (if p div BSIZE = k then d ! (p mod BSIZE) else fbyte s x p)" if "p < nb * BSIZE" for p
  proof -
    have "p div BSIZE < nb" using that by (simp add: less_mult_imp_div_less)
    then have "baddr s x (p div BSIZE) = baddr s x k \<longleftrightarrow> p div BSIZE = k"
      using assms(1,2) by (auto simp: file_ok_def inj_on_def)
    then show ?thesis by (simp add: fbyte_def b assms(3))
  qed
qed

text \<open>The number of blocks that \<open>r\<close> bytes at \<open>off\<close> touch.\<close>

definition blocks_at :: "nat \<Rightarrow> nat \<Rightarrow> nat" where
  "blocks_at off r = (if r = 0 then 0 else (off mod BSIZE + r - 1) div BSIZE + 1)"

lemma blocks_at_step:
  assumes "tot < n" shows "blocks_at (off + chunk off n tot) (n - (tot + chunk off n tot)) + 1 \<le> blocks_at off (n - tot)"
proof (cases "n - tot \<le> BSIZE - off mod BSIZE")
  case True
  then have "chunk off n tot = n - tot" by (simp add: chunk_def)
  then show ?thesis using assms by (simp add: blocks_at_def)
next
  case False
  define a r where "a = off mod BSIZE" and "r = n - tot"
  have lt: "a < BSIZE" "BSIZE - a < r" using False by (simp_all add: a_def r_def)
  have m: "chunk off n tot = BSIZE - a" using False by (simp add: chunk_def a_def)
  have "(off div BSIZE * BSIZE + a + (BSIZE - a)) mod BSIZE = 0" using lt(1) by simp
  then have z: "(off + (BSIZE - a)) mod BSIZE = 0" by (simp add: a_def)
  have e: "a + r - 1 = (r - (BSIZE - a) - 1) + BSIZE" using lt by linarith
  have "BSIZE \<noteq> 0" by (simp add: BSIZE_def)
  then have "(a + r - 1) div BSIZE = (r - (BSIZE - a) - 1) div BSIZE + 1" unfolding e by (rule div_add_self2)
  moreover have "n - (tot + (BSIZE - a)) = r - (BSIZE - a)" by (simp add: r_def)
  ultimately show ?thesis using lt z unfolding blocks_at_def m a_def [symmetric] r_def [symmetric] by simp
qed

definition written :: "'a ikernel_scheme \<Rightarrow> inode \<Rightarrow> nat \<Rightarrow> nat \<Rightarrow> u8 list \<Rightarrow> 'a ikernel_scheme \<Rightarrow> bool" where
  "written s x nb off ys s' \<longleftrightarrow> tx_frame s s' \<and> file_ok s' x nb \<and> baddr s' x = baddr s x \<and>
     (\<forall>p < nb * BSIZE. fbyte s' x p = (if off \<le> p \<and> p < off + length ys then ys ! (p - off) else fbyte s x p)) \<and>
     (\<forall>b. b \<notin> baddr s x ` {..<nb} \<longrightarrow> bval s' b = bval s b)"

lemma written_trans:
  assumes "written s x nb off ys s1" "written s1 x nb (off + length ys) zs s2"
  shows "written s x nb off (ys @ zs) s2"
proof -
  have b: "baddr s1 x = baddr s x" using assms(1) by (simp add: written_def)
  have "fbyte s2 x p = (if off \<le> p \<and> p < off + length (ys @ zs) then (ys @ zs) ! (p - off) else fbyte s x p)"
    if "p < nb * BSIZE" for p
  proof -
    have e: "fbyte s2 x p = (if off + length ys \<le> p \<and> p < off + length ys + length zs then zs ! (p - (off + length ys)) else fbyte s1 x p)"
      "fbyte s1 x p = (if off \<le> p \<and> p < off + length ys then ys ! (p - off) else fbyte s x p)"
      using assms that by (simp_all add: written_def)
    have "p - (off + length ys) = p - off - length ys" by simp
    then show ?thesis unfolding e by (auto simp: nth_append)
  qed
  then show ?thesis
    using assms b tx_frame_trans [of s s1 s2] unfolding written_def by (simp add: b)
qed

lemma write_block:
  assumes "tx s bl" "length bl < LOGBLOCKS" "file_ok s (inode_at s ip) nb" "tot < n" "off < nb * BSIZE" "length ys = chunk off n tot"
  defines "x \<equiv> inode_at s ip"
  shows "\<exists>s1 i s2 s3 s'. bmap ip (off div BSIZE) s = Inr (baddr s x (off div BSIZE), s1) \<and>
    bread (i_dev (inode_at s1 ip)) (baddr s x (off div BSIZE)) s1 = Inr (i, s2) \<and>
    log_write i (set_bdata i (overwrite (bdata (buf_at s2 i)) (off mod BSIZE) ys) s2) = Inr s3 \<and> brelse i s3 = Inr s' \<and>
    tx s' (ladd (baddr s x (off div BSIZE)) bl) \<and> written s x nb off ys s'"
proof -
  let ?k = "off div BSIZE" and ?A = "baddr s x (off div BSIZE)"
  have k: "?k < nb" using assms(5) by (simp add: less_mult_imp_div_less)
  obtain s1 where b: "bmap ip ?k s = Inr (?A, s1)" "tx s1 bl" "bval s1 = bval s" "tx_frame s s1"
    using bmap_hit [OF assms(1-3) k] unfolding x_def by blast
  have dev: "i_dev (inode_at s1 ip) = ROOTDEV" using assms(3) tx_frame_fs(2) [OF b(4)] by (simp add: file_ok_def)
  have la: "log_area s1 = log_area s" by (rule tx_frame_log(10) [OF b(4)])
  have A: "?A \<notin> log_area s1" using assms(3) k by (simp add: file_ok_def x_def la)
  have lA: "length (bval s ?A) = BSIZE" by (rule length_bval [OF tx_pins(3) [OF assms(1)]])
  have fit: "off mod BSIZE + length ys \<le> length (bval s ?A)" using assms(6) lA chunk_fit by simp
  then have ld: "length (overwrite (bval s ?A) (off mod BSIZE) ys) = BSIZE" using lA by simp
  obtain i s2 s3 s' where u: "bread ROOTDEV ?A s1 = Inr (i, s2)" "bdata (buf_at s2 i) = bval s ?A"
    "log_write i (set_bdata i (overwrite (bval s ?A) (off mod BSIZE) ys) s2) = Inr s3" "brelse i s3 = Inr s'"
    "tx s' (ladd ?A bl)" "bval s' = (bval s)(?A := overwrite (bval s ?A) (off mod BSIZE) ys)" "tx_frame s1 s'"
    using tx_update [OF b(2) assms(2) A ld] unfolding b(3) by blast
  have fr: "tx_frame s s'" by (rule tx_frame_trans [OF b(4) u(7)])
  note fu = file_update [OF assms(3) [folded x_def] k u(6) tx_frame_log(10) [OF fr]]
  have "fbyte s' x p = (if off \<le> p \<and> p < off + length ys then ys ! (p - off) else fbyte s x p)" if p: "p < nb * BSIZE" for p
  proof (cases "p div BSIZE = ?k")
    case True
    have pm: "p mod BSIZE < BSIZE" by simp
    have "p - off = p mod BSIZE - off mod BSIZE" "off \<le> p \<longleftrightarrow> off mod BSIZE \<le> p mod BSIZE"
      "p < off + length ys \<longleftrightarrow> p mod BSIZE < off mod BSIZE + length ys"
      using div_mult_mod_eq [of p BSIZE] div_mult_mod_eq [of off BSIZE] unfolding True by linarith+
    then show ?thesis using fu(3) [OF p] True fit lA pm by (simp add: nth_overwrite fbyte_def)
  next
    case False
    have "\<not> (off \<le> p \<and> p < off + length ys)"
      using in_chunk(1) [of "p - off" off n tot] assms(6) False by (metis le_add_diff_inverse less_diff_conv2 add.commute)
    then show ?thesis using fu(3) [OF p] False by auto
  qed
  then have "written s x nb off ys s'" using fr fu(1,2) u(6) k by (auto simp: written_def)
  then show ?thesis using b(1) u(1-5) unfolding dev by (metis dev)
qed

lemma writei_loop_ok:
  assumes "tx s bl" "length bl + blocks_at off (n - tot) < LOGBLOCKS" "file_ok s (inode_at s ip) nb" "tot \<le> n"
    "off + (n - tot) \<le> nb * BSIZE" "length xs = n"
  shows "\<exists>s' bl'. writei_loop ip (LocalSrc xs) off n tot s = Inr ((n, off + (n - tot)), s') \<and> tx s' bl' \<and>
    length bl' \<le> length bl + blocks_at off (n - tot) \<and> written s (inode_at s ip) nb off (drop tot xs) s'"
  using assms
proof (induction "n - tot" arbitrary: tot off s bl rule: less_induct)
  case less
  note ihyp = less.hyps and prems = less.prems
  let ?x = "inode_at s ip"
  show ?case
  proof (cases "tot < n")
    case False
    then have "writei_loop ip (LocalSrc xs) off n tot s = Inr ((n, off + (n - tot)), s)"
      using prems(4) by (subst writei_loop.simps) simp
    moreover have "drop tot xs = []" using False prems(6) by simp
    moreover have "written s ?x nb off [] s" using prems(3) by (auto simp: written_def)
    ultimately show ?thesis using prems(1,2) by auto
  next
    case True
    define m where "m = chunk off n tot"
    define ys where "ys = take m (drop tot xs)"
    have m: "0 < m" "m \<le> n - tot" using chunk_pos [OF True] chunk_le by (simp_all add: m_def)
    have ly: "length ys = chunk off n tot" using m prems(6) by (simp add: ys_def m_def [symmetric])
    have lb: "length bl < LOGBLOCKS" and of: "off < nb * BSIZE" using prems(2,5) True by linarith+
    obtain s1 i s2 s3 s4 where w: "bmap ip (off div BSIZE) s = Inr (baddr s ?x (off div BSIZE), s1)"
      "bread (i_dev (inode_at s1 ip)) (baddr s ?x (off div BSIZE)) s1 = Inr (i, s2)"
      "log_write i (set_bdata i (overwrite (bdata (buf_at s2 i)) (off mod BSIZE) ys) s2) = Inr s3" "brelse i s3 = Inr s4"
      "tx s4 (ladd (baddr s ?x (off div BSIZE)) bl)" "written s ?x nb off ys s4"
      using write_block [OF prems(1) lb prems(3) True of ly] by blast
    have "off div BSIZE < nb" using of by (simp add: less_mult_imp_div_less)
    then have nz: "baddr s ?x (off div BSIZE) \<noteq> 0" using prems(3) by (simp add: file_ok_def)
    have step: "writei_loop ip (LocalSrc xs) off n tot s = writei_loop ip (LocalSrc xs) (off + m) n (tot + m) s4"
      by (subst writei_loop.simps) (use True nz w(1-4) in \<open>simp add: get_in_def Let_def m_def [symmetric] ys_def\<close>)
    have "tx_frame s s4" using w(6) by (simp add: written_def)
    then have x: "inode_at s4 ip = ?x" using tx_frame_fs(2) by metis
    have "length (ladd (baddr s ?x (off div BSIZE)) bl) \<le> length bl + 1" by (simp add: ladd_def)
    then have lb3: "length (ladd (baddr s ?x (off div BSIZE)) bl) + blocks_at (off + m) (n - (tot + m)) \<le> length bl + blocks_at off (n - tot)"
      using blocks_at_step [OF True, of off] by (simp add: m_def [symmetric])
    then have lb4: "length (ladd (baddr s ?x (off div BSIZE)) bl) + blocks_at (off + m) (n - (tot + m)) < LOGBLOCKS" using prems(2) by simp
    have f4: "file_ok s4 (inode_at s4 ip) nb" using w(6) by (simp add: written_def x)
    have lt: "n - (tot + m) < n - tot" and ar: "tot + m \<le> n" "off + m + (n - (tot + m)) \<le> nb * BSIZE"
      using m True prems(5) by linarith+
    obtain s' bl' where s': "writei_loop ip (LocalSrc xs) (off + m) n (tot + m) s4 = Inr ((n, off + m + (n - (tot + m))), s')"
      "tx s' bl'" "length bl' \<le> length (ladd (baddr s ?x (off div BSIZE)) bl) + blocks_at (off + m) (n - (tot + m))"
      "written s4 ?x nb (off + m) (drop (tot + m) xs) s'"
      using ihyp [OF lt w(5) lb4 f4 ar prems(6)] unfolding x by blast
    have "ys @ drop (tot + m) xs = drop tot xs" by (metis add.commute append_take_drop_id drop_drop ys_def)
    then have "written s ?x nb off (drop tot xs) s'"
      using written_trans [OF w(6)] s'(4) ly by (metis m_def)
    moreover have "off + m + (n - (tot + m)) = off + (n - tot)" using m by simp
    moreover have "length bl' \<le> length bl + blocks_at off (n - tot)" using s'(3) lb3 by simp
    ultimately show ?thesis using step s'(1,2) by auto
  qed
qed

text \<open>A block that does not belong to the file.\<close>

lemma file_other:
  assumes "file_ok s x nb" "bval s' = (bval s)(B := d)" "log_area s' = log_area s"
    "B \<notin> insert (i_addrs x ! NDIRECT) (baddr s x ` {..<nb})"
  shows "baddr s' x = baddr s x" "file_ok s' x nb" "\<And>p. p < nb * BSIZE \<Longrightarrow> fbyte s' x p = fbyte s x p"
proof -
  show b: "baddr s' x = baddr s x" using assms(2,4) by (auto simp: fun_eq_iff baddr_def)
  show "file_ok s' x nb" using assms(1,3) by (simp add: file_ok_def b)
  show "fbyte s' x p = fbyte s x p" if "p < nb * BSIZE" for p
  proof -
    have "p div BSIZE < nb" using that by (simp add: less_mult_imp_div_less)
    then have "baddr s x (p div BSIZE) \<noteq> B" using assms(4) by blast
    then show ?thesis by (simp add: fbyte_def b assms(2))
  qed
qed

lemma writei_ok:
  fixes s :: "'a ikernel_scheme"
  assumes "tx s bl" "length bl + blocks_at (unat off) (unat n) < LOGBLOCKS" "file_ok s (inode_at s ip) nb"
    "unat (i_size (inode_at s ip)) \<le> nb * BSIZE" "unat off + unat n \<le> unat (i_size (inode_at s ip))" "length xs = unat n"
    "IBLOCK (unat (i_inum (inode_at s ip))) (sb s) \<notin> log_area s"
    "IBLOCK (unat (i_inum (inode_at s ip))) (sb s) \<notin> insert (i_addrs (inode_at s ip) ! NDIRECT) (baddr s (inode_at s ip) ` {..<nb})"
  shows "\<exists>s' bl'. writei ip (LocalSrc xs) off n s = Inr (uint n, s') \<and> tx s' bl' \<and>
    length bl' \<le> length bl + blocks_at (unat off) (unat n) + 1 \<and> inodes s' = inodes s \<and> file_ok s' (inode_at s ip) nb \<and>
    (\<forall>p < nb * BSIZE. fbyte s' (inode_at s ip) p =
      (if unat off \<le> p \<and> p < unat off + length xs then xs ! (p - unat off) else fbyte s (inode_at s ip) p))"
proof -
  let ?x = "inode_at s ip" and ?z = "i_size (inode_at s ip)"
  have "unat ?z < 2 ^ 32" using unsigned_less [of ?z] by simp
  then have "unat off + unat n < 2 ^ 32" using assms(5) by simp
  then have u: "unat (off + n) = unat off + unat n" by (simp add: unat_plus_if_size word_size)
  have "nb * BSIZE \<le> MAXFILE * BSIZE" using assms(3) by (simp add: file_ok_def)
  then have "unat off + unat n \<le> MAXFILE * BSIZE" using assms(4,5) by linarith
  then have c: "\<not> off > ?z" "\<not> off + n < off" "\<not> unat (off + n) > MAXFILE * BSIZE"
    using assms(5) u by (simp_all add: word_less_nat_alt)
  obtain t bl1 where t: "writei_loop ip (LocalSrc xs) (unat off) (unat n) 0 s = Inr ((unat n, unat off + unat n), t)"
    "tx t bl1" "length bl1 \<le> length bl + blocks_at (unat off) (unat n)" "written s ?x nb (unat off) xs t"
    using writei_loop_ok [OF assms(1), of "unat off" "unat n" 0 ip nb xs] assms(2-6) by auto
  have f: "tx_frame s t" "file_ok t ?x nb" "baddr t ?x = baddr s ?x" using t(4) by (simp_all add: written_def)
  have g: "inodes t = inodes s" "sb t = sb s" "log_area t = log_area s" using tx_frame_fs [OF f(1)] tx_frame_log(10) [OF f(1)] by simp_all
  have la: "length (i_addrs (inode_at t ip)) = NDIRECT + 1" "i_dev (inode_at t ip) = ROOTDEV" "length bl1 < LOGBLOCKS"
    using f(2) g(1) t(3) assms(2) by (simp_all add: file_ok_def)
  let ?B = "IBLOCK (unat (i_inum ?x)) (sb s)"
  obtain s' where s': "iupdate ip t = Inr s'" "tx s' (ladd ?B bl1)" "tx_frame t s'"
    "bval s' = (bval t)(?B := put_dinode (bval t ?B) (unat (i_inum ?x) mod IPB) (dinode_of ?x))"
    using iupdate_ok [OF t(2) la(3,2,1)] assms(7) unfolding g by blast
  have "?B \<notin> insert (i_addrs ?x ! NDIRECT) (baddr t ?x ` {..<nb})" using assms(8) f(3) by simp
  note o = file_other [OF f(2) s'(4) tx_frame_log(10) [OF s'(3)] this]
  have "writei ip (LocalSrc xs) off n s = Inr (int (unat n), s')"
    using c t(1) s'(1) assms(5) g(1) by (simp add: writei_def Let_def)
  moreover have "length (ladd ?B bl1) \<le> length bl + blocks_at (unat off) (unat n) + 1" using t(3) by (simp add: ladd_def)
  moreover have "inodes s' = inodes s" using tx_frame_fs(2) [OF s'(3)] g(1) by simp
  ultimately show ?thesis using s'(2) o t(4) by (auto simp: written_def)
qed

section \<open>Updates of the inode table\<close>

lemma upd_inode_lower [simp]:
  "bval (upd_inode ip f s) = bval s" "sb (upd_inode ip f s) = sb s" "log_area (upd_inode ip f s) = log_area s"
  "cur (upd_inode ip f s) = cur s" "procs (upd_inode ip f s) = procs s" "mypid (upd_inode ip f s) = mypid s"
  "length (inodes (upd_inode ip f s)) = length (inodes s)"
  by (simp_all add: upd_inode_def fun_eq_iff bval_def bslot_def log_area_def hdr_blk_def log_blk_def mypid_def split: option.splits)

lemma tx_upd_inode [simp]: "tx (upd_inode ip f s) bl = tx s bl"
  by (simp add: upd_inode_def tx_def quiet_def bc_inv_def holds_def brefs_def bheld_def bslot_def log_area_def log_blk_def
      hdr_blk_def fun_eq_iff split: option.splits)

lemma nth_upd_inode [simp]: "ip < length (inodes s) \<Longrightarrow> inode_at (upd_inode ip f s) ip = f (inode_at s ip)"
  by (simp add: upd_inode_def)

lemma IBLOCK_slot:
  assumes "i < 2 ^ 32" "j < 2 ^ 32" "IBLOCK i x = IBLOCK j x" "i mod IPB = j mod IPB" shows "i = j"
proof -
  have "i div IPB < 2 ^ 32" "j div IPB < 2 ^ 32" using assms(1,2) by (meson div_le_dividend le_less_trans)+
  then have "i div IPB = j div IPB" using assms(3) unat_u32 by (metis IBLOCK_def add_right_cancel)
  then show ?thesis using assms(4) by (metis div_mult_mod_eq)
qed

lemma ilock_load:
  assumes "tx s bl" "length bl < LOGBLOCKS" "ip < length (inodes s)" "i_dev (inode_at s ip) = ROOTDEV" "1 \<le> i_ref (inode_at s ip)"
    "\<not> sl_locked (i_lock (inode_at s ip))" "\<not> i_valid (inode_at s ip)" "d_type (disk_inode s (unat (i_inum (inode_at s ip)))) \<noteq> 0"
  shows "\<exists>s'. ilock (Some ip) s = Inr s' \<and> tx s' bl \<and> bval s' = bval s \<and>
    inode_at s' ip = load_dinode (disk_inode s (unat (i_inum (inode_at s ip))))
      ((inode_at s ip)\<lparr>i_lock := \<lparr>sl_locked = True, sl_pid = mypid s\<rparr>\<rparr>)"
proof -
  let ?n = "unat (i_inum (inode_at s ip))"
  define s0 where "s0 = upd_ilk ip (\<lambda>lk. lk\<lparr>sl_locked := True, sl_pid := mypid s\<rparr>) s"
  have x0: "inode_at s0 ip = (inode_at s ip)\<lparr>i_lock := \<lparr>sl_locked = True, sl_pid = mypid s\<rparr>\<rparr>"
    using assms(3) by (simp add: s0_def upd_ilk_def)
  have t0: "tx s0 bl" "bval s0 = bval s" "sb s0 = sb s" "length (inodes s0) = length (inodes s)"
    using assms(1) by (simp_all add: s0_def upd_ilk_def)
  obtain i s1 s2 where r: "bread ROOTDEV (IBLOCK ?n (sb s)) s0 = Inr (i, s1)" "bdata (buf_at s1 i) = bval s (IBLOCK ?n (sb s))"
    "brelse i s1 = Inr s2" "tx s2 bl" "bval s2 = bval s0" "tx_frame s0 s2"
    using tx_read [OF t0(1) assms(2), of "IBLOCK ?n (sb s)"] unfolding t0(2) by blast
  have x2: "inodes s2 = inodes s0" by (rule tx_frame_fs(2) [OF r(6)])
  let ?s = "upd_inode ip (load_dinode (disk_inode s ?n)) s2"
  have "inode_at ?s ip = load_dinode (disk_inode s ?n) ((inode_at s ip)\<lparr>i_lock := \<lparr>sl_locked = True, sl_pid = mypid s\<rparr>\<rparr>)"
    using assms(3) t0(4) x0 by (simp add: x2)
  moreover have "acquiresleep (i_lock (inode_at s ip)) (upd_ilk ip) s = Inr s0" using assms(6) by (simp add: acquiresleep_def s0_def)
  then have "ilock (Some ip) s = Inr ?s"
    using assms(3-8) r(1-3) x0 x2 t0(3,4)
    by (simp add: ilock_def disk_inode_def load_dinode_def Let_def)
  ultimately show ?thesis using r(4,5) t0(2) by auto
qed

end
