(* ===== verification/Fs_Claims.thy ===== *)
theory Fs_Claims
  imports Fs_Inode Log_Claims
begin

text \<open>The properties of the file system, with a small example disk.\<close>

section \<open>An example disk\<close>

text \<open>64 blocks: the log from block 2 on, the inodes in block 33, the bitmap in block 34. Inode 1 is a
  file of 20 bytes in block 36.\<close>

definition ex_sb :: superblock where
  "ex_sb = \<lparr>magic = FSMAGIC, sb_size = 64, nblocks = 28, ninodes = 16, nlog = 31, logstart = 2, inodestart = 33, bmapstart = 34\<rparr>"

definition ex_di :: dinode where
  "ex_di = \<lparr>d_type = T_FILE, d_major = 0, d_minor = 0, d_nlink = 1, d_size = 20, d_addrs = 36 # replicate 12 0\<rparr>"

definition ex_bits :: block where
  "ex_bits = [255, 255, 255, 255, 31] @ replicate 1019 0"

definition ex_fsdisk :: "u32 \<Rightarrow> block" where
  "ex_fsdisk = (\<lambda>_. replicate BSIZE 0)(33 := put_dinode (replicate BSIZE 0) 1 ex_di, 34 := ex_bits, 36 := ex_dat)"

definition ex_in :: inode where
  "ex_in = \<lparr>i_dev = ROOTDEV, i_inum = 1, i_ref = 1, i_lock = initsleeplock, i_valid = True, i_type = T_FILE, i_major = 0,
     i_minor = 0, i_nlink = 1, i_size = 20, i_addrs = 36 # replicate 12 0\<rparr>"

definition ex_fs0 :: ikernel where
  "ex_fs0 = \<lparr>mem = \<lambda>_. 0, freelist = 0, kend = 0x80020000, etext = 0x80008000, trampoline = 0x80007000,
     procs = procs ex_two, nextpid = 5, initproc = Some 0, forkret_addr = 0x80001000, halted = None, cur = 0, kver = 8,
     bufs_of = bufs_of ex_lk, disk = ex_fsdisk, dwrites = [], log_start = 2, outstanding = 1, committing = False, log_dev = 1,
     lh_n = 0, lh_block = replicate LOGBLOCKS 0, sb = ex_sb, inodes = ex_in # replicate 49 (ex_in\<lparr>i_ref := 0\<rparr>)\<rparr>"

definition ex_fs :: ikernel where
  "ex_fs = binit ex_fs0"

lemma ex_di_addrs [simp]: "length (d_addrs ex_di) = NDIRECT + 1"
  by (simp add: ex_di_def NDIRECT_def)

lemma ex_block33: "length (put_dinode (replicate BSIZE 0) 1 ex_di) = BSIZE"
  using put_dinode_get(2) [of 1 "replicate BSIZE 0" ex_di] by (simp add: BSIZE_def)

lemma ex_fsdisk_len: "length (ex_fsdisk b) = BSIZE"
  using ex_block33 by (simp add: ex_fsdisk_def ex_bits_def) (simp add: BSIZE_def)

lemma ex_fs_fields:
  "disk ex_fs = ex_fsdisk" "lh_n ex_fs = 0" "lh_block ex_fs = replicate LOGBLOCKS 0" "outstanding ex_fs = 1"
  "committing ex_fs = False" "log_start ex_fs = 2" "log_dev ex_fs = 1" "sb ex_fs = ex_sb"
  "inodes ex_fs = ex_in # replicate 49 (ex_in\<lparr>i_ref := 0\<rparr>)"
  and ex_fs_quiet: "quiet (\<lambda>_. 0) ex_fs" and ex_fs_bval: "bval ex_fs = ex_fsdisk"
proof -
  have "raw_bufs ex_lk" using ex_lk_fresh [of "disk ex_lk"] by (simp add: fresh_kernel_def ex_lk_def)
  then have "raw_bufs ex_fs0" using ex_fsdisk_len by (simp add: raw_bufs_def ex_fs0_def ex_lk_def ex_two_def)
  then have b: "bc_inv ex_fs" "brefs ex_fs = (\<lambda>_. 0)" "bheld ex_fs = (\<lambda>_. False)" "bval ex_fs = disk ex_fs0"
    "ex_fs = ex_fs0\<lparr>bufs_of := bufs_of ex_fs\<rparr>" using binit_ok [of ex_fs0] unfolding ex_fs_def by blast+
  show "quiet (\<lambda>_. 0) ex_fs" using b(1-3) by (simp add: quiet_def)
  show "bval ex_fs = ex_fsdisk" using b(4) by (simp add: ex_fs0_def)
  show "disk ex_fs = ex_fsdisk" "lh_n ex_fs = 0" "lh_block ex_fs = replicate LOGBLOCKS 0" "outstanding ex_fs = 1"
    "committing ex_fs = False" "log_start ex_fs = 2" "log_dev ex_fs = 1" "sb ex_fs = ex_sb"
    "inodes ex_fs = ex_in # replicate 49 (ex_in\<lparr>i_ref := 0\<rparr>)"
    by (subst b(5), simp add: ex_fs0_def)+
qed

lemma ex_fs_tx: "tx ex_fs []"
proof -
  have z: "pins [] = (\<lambda>_. 0)" by (simp add: pins_def fun_eq_iff)
  have "ex_fsdisk 2 = replicate BSIZE 0" by (simp add: ex_fsdisk_def)
  moreover have "get32 (replicate BSIZE 0) 0 = 0" by (simp add: BSIZE_def get32_def)
  ultimately show ?thesis using ex_fs_quiet by (simp add: tx_def ex_fs_fields hdr_blk_def z)
qed

lemma ex_area: "33 \<le> unat b \<Longrightarrow> b \<notin> log_area ex_fs"
  using log_area_2 [of ex_fs b] ex_fs_fields(6) by auto

lemma ex_used: "b < 64 \<Longrightarrow> block_used ex_fs b \<longleftrightarrow> b < 37"
proof -
  assume b: "b < 64"
  have "\<forall>b \<in> set [0..<64]. bit (ex_bits ! (b div 8)) (b mod 8) = (b < 37)" by code_simp
  then have "bit (ex_bits ! (b div 8)) (b mod 8) = (b < 37)" using b by simp
  moreover have "b < BPB" using b by (simp add: BPB_def BSIZE_def)
  then have "BBLOCK b ex_sb = 34" "b mod BPB = b" by (simp_all add: BBLOCK_def ex_sb_def)
  ultimately show ?thesis by (simp add: block_used_def bit_used_bit ex_fs_bval ex_fs_fields ex_fsdisk_def)
qed

lemma ex_meta: "meta_used ex_fs"
proof -
  have "BBLOCK b ex_sb = 34" if "b < 64" for b using that by (simp add: BBLOCK_def ex_sb_def BPB_def BSIZE_def)
  moreover have "b < 37" if "b < 64" "of_nat b \<in> log_area ex_fs \<or> of_nat b = (34 :: u32)" for b
  proof -
    have u: "unat (of_nat b :: u32) = b" using that(1) by (intro unat_u32) simp
    from that(2) show ?thesis
    proof
      assume "of_nat b \<in> log_area ex_fs"
      then show ?thesis using log_area_2 [of ex_fs "of_nat b"] u by (simp add: ex_fs_fields)
    next
      assume "of_nat b = (34 :: u32)"
      then have "b = unat (34 :: u32)" using u by metis
      then show ?thesis by simp
    qed
  qed
  moreover have "fsize ex_fs = 64" by (simp add: ex_fs_fields ex_sb_def)
  ultimately show ?thesis using ex_area [of 34] ex_used by (auto simp: meta_used_def ex_fs_fields)
qed

section \<open>The block allocator\<close>

text \<open>C34. \<^verbatim>\<open>balloc\<close> inside a transaction returns the lowest block whose bit is clear, with its bit set and
  its content zeroed, and changes no other bit and no other block but the bitmap's; when all blocks
  are in use it returns 0 and changes nothing.\<close>

theorem balloc_first_free:
  assumes "tx s bl" "length bl + 2 \<le> LOGBLOCKS" "meta_used s"
  shows "\<exists>a s'. balloc ROOTDEV s = Inr (a, s') \<and>
    (case List.find (\<lambda>b. \<not> block_used s b) [0..<fsize s] of
       None \<Rightarrow> a = 0 \<and> bval s' = bval s
     | Some b \<Rightarrow> a = of_nat b \<and> bval s' a = replicate BSIZE 0 \<and>
         (\<forall>c < fsize s. block_used s' c \<longleftrightarrow> c = b \<or> block_used s c) \<and>
         (\<forall>x. x \<noteq> a \<and> x \<noteq> BBLOCK b (sb s) \<longrightarrow> bval s' x = bval s x))"
proof (cases "List.find (\<lambda>b. \<not> block_used s b) [0..<fsize s]")
  case None
  then show ?thesis using balloc_ok [OF assms] by auto
next
  case (Some b)
  then obtain s' where s': "balloc ROOTDEV s = Inr (of_nat b, s')" "allocated s bl b s'" using balloc_ok [OF assms] by auto
  have b: "b < fsize s" "\<not> block_used s b" using find_in [OF Some] by auto
  have "\<forall>c < fsize s. block_used s' c \<longleftrightarrow> c = b \<or> block_used s c"
    using allocated_used [OF s'(2) assms(1) b assms(3)] by blast
  then show ?thesis using s' Some by (auto simp: allocated_def)
qed

theorem balloc_first_free_witness: "\<exists>s'. balloc ROOTDEV ex_fs = Inr (37, s') \<and> bval s' 37 = replicate BSIZE 0"
proof -
  have f: "fsize ex_fs = 64" by (simp add: ex_fs_fields ex_sb_def)
  have "[0..<64] = [0..<37] @ 37 # [38..<64]" by (simp add: upt_conv_Cons flip: upt_add_eq_append [of 0 37 27, simplified])
  moreover have "List.find (\<lambda>b. \<not> block_used ex_fs b) [0..<37] = None" using ex_used by (simp add: find_None_iff)
  ultimately have "List.find (\<lambda>b. \<not> block_used ex_fs b) [0..<fsize ex_fs] = Some 37"
    using ex_used [of 37] by (simp add: f find_append)
  then show ?thesis using balloc_first_free [OF ex_fs_tx _ ex_meta] by (auto simp: LOGBLOCKS_def MAXOPBLOCKS_def)
qed

text \<open>\<^verbatim>\<open>bfree\<close> clears the bit of a block in use and no other; freeing a block that is free panics.\<close>

lemma bfree_effect:
  assumes "tx s bl" "length bl < LOGBLOCKS" "meta_used s" "b < fsize s"
  shows "if block_used s b
    then \<exists>s'. bfree ROOTDEV (of_nat b) s = Inr s' \<and> (\<forall>c < fsize s. block_used s' c \<longleftrightarrow> c \<noteq> b \<and> block_used s c) \<and>
      (\<forall>x. x \<noteq> BBLOCK b (sb s) \<longrightarrow> bval s' x = bval s x)
    else bfree ROOTDEV (of_nat b) s = Inl (Panic ''freeing free block'')"
proof (cases "block_used s b")
  case True
  then obtain s' where s': "bfree ROOTDEV (of_nat b) s = Inr s'" "tx_frame s s'"
    "bval s' = (bval s)(BBLOCK b (sb s) := bit_clear (bval s (BBLOCK b (sb s))) (b mod BPB))"
    using bfree_ok(1) [OF assms True] by blast
  have "\<forall>c < fsize s. block_used s' c \<longleftrightarrow> c \<noteq> b \<and> block_used s c"
    using freed_used [OF s'(3) tx_frame_fs(1) [OF s'(2)] tx_pins(3) [OF assms(1)] assms(4)] by blast
  then show ?thesis using True s'(1,3) by auto
qed (use bfree_ok(2) [OF assms] in simp)

section \<open>Inodes\<close>

text \<open>\<^verbatim>\<open>iupdate\<close> and \<^verbatim>\<open>ilock\<close> are inverse: whatever the fields of an inode table entry are, the
  \<^verbatim>\<open>ilock\<close> of an invalid entry for the same inode number brings back type, device numbers, link
  count, size and block addresses as \<^verbatim>\<open>iupdate\<close> stored them. \<^verbatim>\<open>iupdate\<close> changes no other on-disk inode.\<close>

lemma iupdate_ilock:
  assumes "tx s bl" "length bl + 2 \<le> LOGBLOCKS" "ip < length (inodes s)" "i_dev (inode_at s ip) = ROOTDEV"
    "length (i_addrs (inode_at s ip)) = NDIRECT + 1" "IBLOCK (unat (i_inum (inode_at s ip))) (sb s) \<notin> log_area s"
    "i_type (inode_at s ip) \<noteq> 0"
    "i_dev y = ROOTDEV" "i_inum y = i_inum (inode_at s ip)" "1 \<le> i_ref y" "\<not> sl_locked (i_lock y)" "\<not> i_valid y"
  shows "\<exists>s1 s2. iupdate ip s = Inr s1 \<and> ilock (Some ip) (upd_inode ip (\<lambda>_. y) s1) = Inr s2 \<and>
    dinode_of (inode_at s2 ip) = dinode_of (inode_at s ip) \<and> i_valid (inode_at s2 ip) \<and>
    holdingsleep (i_lock (inode_at s2 ip)) (upd_inode ip (\<lambda>_. y) s1) \<and>
    (\<forall>j < 2 ^ 32. j \<noteq> unat (i_inum (inode_at s ip)) \<longrightarrow> disk_inode s1 j = disk_inode s j)"
proof -
  let ?n = "unat (i_inum (inode_at s ip))" and ?di = "dinode_of (inode_at s ip)"
  let ?B = "IBLOCK ?n (sb s)"
  have lb: "length bl < LOGBLOCKS" using assms(2) by simp
  obtain s1 where u: "iupdate ip s = Inr s1" "tx s1 (ladd ?B bl)" "tx_frame s s1" "bval s1 = (bval s)(?B := put_dinode (bval s ?B) (?n mod IPB) ?di)"
    using iupdate_ok [OF assms(1) lb assms(4-6)] by blast
  have sb: "sb s1 = sb s" "inodes s1 = inodes s" using tx_frame_fs [OF u(3)] by simp_all
  have lB: "length (bval s ?B) = BSIZE" by (rule length_bval [OF tx_pins(3) [OF assms(1)]])
  note slot = IPB_slot [OF lB]
  have la: "length (d_addrs ?di) = NDIRECT + 1" using assms(5) by (simp add: dinode_of_def)
  have d: "disk_inode s1 ?n = ?di" using put_dinode_get(1) [OF slot la] by (simp add: disk_inode_def sb u(4))
  have o: "disk_inode s1 j = disk_inode s j" if "j < 2 ^ 32" "j \<noteq> ?n" for j
  proof (cases "IBLOCK j (sb s) = ?B")
    case True
    have "?n < 2 ^ 32" using unsigned_less [of "i_inum (inode_at s ip)"] by simp
    then have "j mod IPB \<noteq> ?n mod IPB" using IBLOCK_slot [OF that(1) _ True] that(2) by blast
    then show ?thesis using True put_dinode_get(3) [OF slot la _ slot] by (simp add: disk_inode_def sb u(4))
  next
    case False
    then show ?thesis by (simp add: disk_inode_def sb u(4))
  qed
  let ?t = "upd_inode ip (\<lambda>_. y) s1"
  have y: "inode_at ?t ip = y" using assms(3) sb(2) by simp
  have "disk_inode ?t ?n = ?di" using d by (simp add: disk_inode_def)
  moreover have "length (ladd ?B bl) < LOGBLOCKS" using assms(2) by (simp add: ladd_def)
  ultimately obtain s2 where s2: "ilock (Some ip) ?t = Inr s2"
    "inode_at s2 ip = load_dinode ?di (y\<lparr>i_lock := \<lparr>sl_locked = True, sl_pid = mypid ?t\<rparr>\<rparr>)"
    using ilock_load [of ?t "ladd ?B bl" ip] u(2) assms(3,7-12) sb(2) y by (auto simp: dinode_of_def)
  then show ?thesis using u(1) o by (auto simp: load_dinode_def dinode_of_def holdingsleep_def)
qed

lemma ex_fs_len: "length ([] :: u32 list) + 2 \<le> LOGBLOCKS" "length ([] :: u32 list) < LOGBLOCKS"
  by (simp_all add: LOGBLOCKS_def MAXOPBLOCKS_def)

lemma ex_fs_inode: "inode_at ex_fs 0 = ex_in" "IBLOCK (unat (i_inum ex_in)) (sb ex_fs) = 33"
  by (simp_all add: ex_fs_fields ex_in_def ex_sb_def IBLOCK_def IPB_def BSIZE_def)

section \<open>File content\<close>

text \<open>C32. \<^verbatim>\<open>writei\<close> over existing bytes, then \<^verbatim>\<open>readi\<close>: on a file whose blocks are allocated (direct and
  indirect ones), writing \<open>xs\<close> at \<open>off\<close> within the file reports all bytes written, and reading the whole
  file afterwards gives the old content with \<open>xs\<close> in place at \<open>off\<close>.\<close>

theorem writei_readi:
  assumes "tx s bl" "length bl + blocks_at (unat off) (unat n) + 1 < LOGBLOCKS" "file_ok s (inode_at s ip) nb"
    "unat (i_size (inode_at s ip)) \<le> nb * BSIZE" "unat off + unat n \<le> unat (i_size (inode_at s ip))" "length xs = unat n"
    "IBLOCK (unat (i_inum (inode_at s ip))) (sb s) \<notin> log_area s"
    "IBLOCK (unat (i_inum (inode_at s ip))) (sb s) \<notin> insert (i_addrs (inode_at s ip) ! NDIRECT) (baddr s (inode_at s ip) ` {..<nb})"
  shows "\<exists>old s0 s1 s2. readi ip LocalDst 0 (i_size (inode_at s ip)) s = Inr ((uint (i_size (inode_at s ip)), old), s0) \<and>
    writei ip (LocalSrc xs) off n s = Inr (uint n, s1) \<and>
    readi ip LocalDst 0 (i_size (inode_at s ip)) s1 = Inr ((uint (i_size (inode_at s ip)), overwrite old (unat off) xs), s2)"
proof -
  let ?x = "inode_at s ip" and ?z = "i_size (inode_at s ip)"
  have lb: "length bl < LOGBLOCKS" "length bl + blocks_at (unat off) (unat n) < LOGBLOCKS" using assms(2) by simp_all
  obtain s0 where r0: "readi ip LocalDst 0 ?z s = Inr ((uint ?z, map (fbyte s ?x) [0..<unat ?z]), s0)"
    using readi_ok [OF assms(1) lb(1) assms(3,4), of 0 ?z] by auto
  obtain s1 bl1 where w: "writei ip (LocalSrc xs) off n s = Inr (uint n, s1)" "tx s1 bl1"
    "length bl1 \<le> length bl + blocks_at (unat off) (unat n) + 1" "inodes s1 = inodes s" "file_ok s1 ?x nb"
    "\<forall>p < nb * BSIZE. fbyte s1 ?x p = (if unat off \<le> p \<and> p < unat off + length xs then xs ! (p - unat off) else fbyte s ?x p)"
    using writei_ok [OF assms(1) lb(2) assms(3-8)] by blast
  have l1: "length bl1 < LOGBLOCKS" using w(3) assms(2) by simp
  have x1: "inode_at s1 ip = ?x" using w(4) by simp
  obtain s2 where r1: "readi ip LocalDst 0 ?z s1 = Inr ((uint ?z, map (fbyte s1 ?x) [0..<unat ?z]), s2)"
    using readi_ok [OF w(2) l1, of ip nb 0 ?z] w(5) assms(4) unfolding x1 by auto
  have "map (fbyte s1 ?x) [0..<unat ?z] = overwrite (map (fbyte s ?x) [0..<unat ?z]) (unat off) xs"
    using w(6) assms(4-6) by (intro nth_equalityI) (simp_all add: nth_overwrite)
  then show ?thesis using r0 w(1) r1 by auto
qed

lemma ex_file: "file_ok ex_fs ex_in 1"
proof -
  have a: "baddr ex_fs ex_in 0 = 36" "i_addrs ex_in ! NDIRECT = 0" by (simp_all add: baddr_def ex_in_def NDIRECT_def)
  have "length (i_addrs ex_in) = NDIRECT + 1" "i_dev ex_in = ROOTDEV" by (simp_all add: ex_in_def NDIRECT_def)
  then show ?thesis using ex_area [of 36] a by (simp add: file_ok_def MAXFILE_def NDIRECT_def lessThan_Suc)
qed

theorem writei_readi_witness:
  "\<exists>old s0 s1 s2. readi 0 LocalDst 0 20 ex_fs = Inr ((20, old), s0) \<and> writei 0 (LocalSrc [1, 2, 3]) 5 3 ex_fs = Inr (3, s1) \<and>
     readi 0 LocalDst 0 20 s1 = Inr ((20, overwrite old 5 [1, 2, 3]), s2)"
proof -
  have b: "blocks_at 5 3 = 1" by (simp add: blocks_at_def BSIZE_def)
  have a: "baddr ex_fs ex_in 0 = 36" "i_addrs ex_in ! NDIRECT = 0" by (simp_all add: baddr_def ex_in_def NDIRECT_def)
  show ?thesis
    using writei_readi [OF ex_fs_tx, of 5 3 0 1 "[1, 2, 3]"] ex_file ex_fs_inode ex_area [of 33] a b
    by (auto simp: ex_in_def BSIZE_def LOGBLOCKS_def MAXOPBLOCKS_def lessThan_Suc)
qed

section \<open>Path names\<close>

text \<open>The reference: the parts of a path between its slashes.\<close>

fun split_slash :: "u8 list \<Rightarrow> u8 list list" where
  "split_slash [] = [[]]"
| "split_slash (c # cs) = (if c = SLASH then [] # split_slash cs else (c # hd (split_slash cs)) # tl (split_slash cs))"

definition elems :: "u8 list \<Rightarrow> u8 list list" where
  "elems path = filter (\<lambda>e. e \<noteq> []) (split_slash path)"

lemma split_slash_ne: "split_slash p \<noteq> []"
  by (cases p) auto

lemma elems_slash: "elems (SLASH # p) = elems p"
  by (simp add: elems_def)

lemma elems_drop: "elems (dropWhile (\<lambda>c. c = SLASH) p) = elems p"
  by (induction p) (auto simp: elems_slash)

lemma elems_word:
  "p \<noteq> [] \<Longrightarrow> hd p \<noteq> SLASH \<Longrightarrow>
    elems p = takeWhile (\<lambda>c. c \<noteq> SLASH) p # elems (drop (length (takeWhile (\<lambda>c. c \<noteq> SLASH) p)) p)"
proof (induction p)
  case (Cons c p)
  have c: "c \<noteq> SLASH" using Cons.prems by simp
  show ?case
  proof (cases "p = [] \<or> hd p = SLASH")
    case True
    then show ?thesis using c by (cases p) (auto simp: elems_def)
  next
    case False
    then have IH: "elems p = takeWhile (\<lambda>c. c \<noteq> SLASH) p # elems (drop (length (takeWhile (\<lambda>c. c \<noteq> SLASH) p)) p)"
      using Cons.IH by simp
    obtain d q where p: "p = d # q" "d \<noteq> SLASH" using False by (cases p) auto
    have "hd (split_slash p) \<noteq> []" using p by simp
    then have "elems p = hd (split_slash p) # filter (\<lambda>e. e \<noteq> []) (tl (split_slash p))"
      using split_slash_ne [of p] by (cases "split_slash p") (auto simp: elems_def)
    then have "takeWhile (\<lambda>c. c \<noteq> SLASH) p # elems (drop (length (takeWhile (\<lambda>c. c \<noteq> SLASH) p)) p) =
        hd (split_slash p) # filter (\<lambda>e. e \<noteq> []) (tl (split_slash p))"
      using IH by (rule trans [OF sym, rotated])
    then have tw: "takeWhile (\<lambda>c. c \<noteq> SLASH) p = hd (split_slash p)"
      "elems (drop (length (takeWhile (\<lambda>c. c \<noteq> SLASH) p)) p) = filter (\<lambda>e. e \<noteq> []) (tl (split_slash p))"
      unfolding list.inject by blast+
    have "elems (c # p) = (c # hd (split_slash p)) # filter (\<lambda>e. e \<noteq> []) (tl (split_slash p))"
      using c by (simp add: elems_def)
    also have "\<dots> = (c # takeWhile (\<lambda>c. c \<noteq> SLASH) p) # elems (drop (length (takeWhile (\<lambda>c. c \<noteq> SLASH) p)) p)"
      using tw by (metis (no_types))
    finally show ?thesis using c by simp
  qed
qed simp

text \<open>C35. \<^verbatim>\<open>skipelem\<close> walks over the non-empty parts of the path between its slashes, in order: it fails
  exactly when there is none; otherwise it gives the first, cut to \<^verbatim>\<open>DIRSIZ\<close> bytes, and a rest with
  the remaining ones that does not start with a slash and is empty exactly when none remains.\<close>

theorem skipelem_walks:
  "case skipelem path of
     None \<Rightarrow> elems path = []
   | Some (name, rest) \<Rightarrow> \<exists>e. elems path = e # elems rest \<and> name = take DIRSIZ e \<and>
       (rest = [] \<longleftrightarrow> elems rest = []) \<and> take 1 rest \<noteq> [SLASH]"
proof -
  define p where "p = dropWhile (\<lambda>c. c = SLASH) path"
  have ep: "elems path = elems p" unfolding p_def by (simp add: elems_drop)
  show ?thesis
  proof (cases "p = []")
    case True
    then have "elems path = []" using ep by (simp add: elems_def)
    then show ?thesis using True by (simp add: skipelem_def p_def)
  next
    case False
    define w r where "w = takeWhile (\<lambda>c. c \<noteq> SLASH) p" and "r = dropWhile (\<lambda>c. c = SLASH) (drop (length w) p)"
    have "hd p \<noteq> SLASH" using hd_dropWhile [of "\<lambda>c. c = SLASH" path] False by (simp add: p_def)
    then have "elems p = w # elems (drop (length w) p)" using elems_word False by (simp add: w_def)
    then have e: "elems path = w # elems r" using ep by (simp add: r_def elems_drop)
    have s: "skipelem path = Some (take DIRSIZ w, r)" using False by (simp add: skipelem_def p_def w_def r_def Let_def)
    have h: "r \<noteq> [] \<Longrightarrow> hd r \<noteq> SLASH" using hd_dropWhile [of "\<lambda>c. c = SLASH" "drop (length w) p"] by (simp add: r_def)
    have "elems [] = []" by (simp add: elems_def)
    then have "r = [] \<longleftrightarrow> elems r = []" using elems_word [of r] h by (metis list.distinct(1))
    moreover have "take 1 r \<noteq> [SLASH]" using h by (cases r) auto
    ultimately show ?thesis using s e by auto
  qed
qed

end
