(* ===== verification/File.thy ===== *)
theory File
  imports Fs_Dir Pipe_Kernel
begin

text \<open>
  Open files: \<^verbatim>\<open>kernel/file.c\<close>, and the creation and closing of pipes in \<^verbatim>\<open>kernel/pipe.c\<close>. A file pointer is
  an index into \<^verbatim>\<open>ftable.file\<close>, a pipe pointer the address of its page; the pipes themselves are kept
  apart from the bytes of those pages, in \<open>pipes\<close>. A read or write of a pipe that goes to sleep is the
  result \<open>WouldSleep\<close>. The entries of \<^verbatim>\<open>devsw\<close> are arguments.
\<close>

section \<open>State\<close>

definition NDEV :: int where "NDEV = 10"

datatype fdtype = FD_NONE | FD_PIPE | FD_INODE | FD_DEVICE

record kfile =
  f_type :: fdtype
  f_ref :: int
  f_readable :: bool
  f_writable :: bool
  f_pipe :: u64
  f_ip :: "nat option"
  f_off :: u32
  f_major :: u16

datatype anypipe = Flat pipe | Sub pipe3

record fkernel = ikernel +
  ftable :: "kfile list"
  pipes :: "u64 \<rightharpoonup> anypipe"

type_synonym 'a devop = "u64 \<Rightarrow> int \<Rightarrow> 'a fkernel_scheme \<Rightarrow> (int \<times> 'a fkernel_scheme) kres"

abbreviation file_at :: "'a fkernel_scheme \<Rightarrow> nat \<Rightarrow> kfile" where
  "file_at s f \<equiv> ftable s ! f"

definition upd_file :: "nat \<Rightarrow> (kfile \<Rightarrow> kfile) \<Rightarrow> 'a fkernel_scheme \<Rightarrow> 'a fkernel_scheme" where
  "upd_file f g s = s\<lparr>ftable := (ftable s)[f := g (ftable s ! f)]\<rparr>"

section \<open>Pipes of all versions\<close>

definition pipe_hd_of :: "anypipe \<Rightarrow> bool \<times> bool" where
  "pipe_hd_of p = (case p of Flat q \<Rightarrow> (readopen q, writeopen q) | Sub q \<Rightarrow> (readopen q, writeopen q))"

definition close_end :: "bool \<Rightarrow> anypipe \<Rightarrow> anypipe" where
  "close_end w p = (case p of
       Flat q \<Rightarrow> Flat (if w then q\<lparr>writeopen := False\<rparr> else q\<lparr>readopen := False\<rparr>)
     | Sub q \<Rightarrow> Sub (if w then q\<lparr>writeopen := False\<rparr> else q\<lparr>readopen := False\<rparr>))"

text \<open>A pipe in pages that \<^verbatim>\<open>kalloc\<close> has filled with 5; \<open>d\<close> is the data page of versions 4 to 8.\<close>

definition new_pipe :: "nat \<Rightarrow> u64 \<Rightarrow> anypipe" where
  "new_pipe ver d =
     (if ver = 3 then Sub \<lparr>nread = 0, nwrite = 0, readopen = True, writeopen = True, bufs = replicate N_BUFS (replicate BUFSIZE 5)\<rparr>
      else Flat \<lparr>nread = 0, nwrite = 0, readopen = True, writeopen = True,
        data = replicate (if ver \<le> 2 then PIPESIZE else PIPE_TOTAL) 5, data_pg = d\<rparr>)"

definition data_page :: "anypipe \<Rightarrow> u64" where
  "data_page p = (case p of Flat q \<Rightarrow> data_pg q | Sub q \<Rightarrow> 0)"

definition pipe_result :: "u64 \<Rightarrow> ('q \<Rightarrow> anypipe) \<Rightarrow> ('q, 'a fkernel_scheme) pcall option \<Rightarrow> (int \<times> 'a fkernel_scheme) kres" where
  "pipe_result pi wrap r = (case r of
       None \<Rightarrow> Inl OutOfFuel
     | Some (Blocked c q m i) \<Rightarrow> Inl WouldSleep
     | Some (Ret v q m) \<Rightarrow> (case halted m of Some e \<Rightarrow> Inl e | None \<Rightarrow> Inr (v, m\<lparr>pipes := (pipes m)(pi \<mapsto> wrap q)\<rparr>)))"

definition pipewrite :: "u64 \<Rightarrow> u64 \<Rightarrow> int \<Rightarrow> 'a fkernel_scheme \<Rightarrow> (int \<times> 'a fkernel_scheme) kres" where
  "pipewrite pi addr n s =
     (let K = kernel_ops (kver s) (cur s) pi
      in case pipes s pi of
           None \<Rightarrow> Inl BadIndex
         | Some (Sub q) \<Rightarrow> pipe_result pi Sub (pipewrite_v3 K addr n 0 q s)
         | Some (Flat q) \<Rightarrow> pipe_result pi Flat
             (if kver s = 1 then pipewrite_v1 K addr n 0 q s
              else if kver s = 2 then pipewrite_v2 K addr n 0 q s
              else if kver s = 4 then pipewrite_v4 K addr n 0 q s
              else pipewrite_v5 K addr n q s))"

definition piperead :: "u64 \<Rightarrow> u64 \<Rightarrow> int \<Rightarrow> 'a fkernel_scheme \<Rightarrow> (int \<times> 'a fkernel_scheme) kres" where
  "piperead pi addr n s =
     (let K = kernel_ops (kver s) (cur s) pi
      in case pipes s pi of
           None \<Rightarrow> Inl BadIndex
         | Some (Sub q) \<Rightarrow> pipe_result pi Sub (piperead_v3 K addr n q s)
         | Some (Flat q) \<Rightarrow> pipe_result pi Flat
             (if kver s = 1 then piperead_v1 K addr n q s
              else if kver s = 2 then piperead_v2 K addr n q s
              else if kver s = 4 then piperead_v4 K addr n q s
              else piperead_v5 K addr n q s))"

definition pipeclose :: "u64 \<Rightarrow> bool \<Rightarrow> 'a fkernel_scheme \<Rightarrow> 'a fkernel_scheme kres" where
  "pipeclose pi writable s =
     (case pipes s pi of
        None \<Rightarrow> Inl BadIndex
      | Some p \<Rightarrow>
          let p = close_end writable p;
              s = s\<lparr>pipes := (pipes s)(pi \<mapsto> p)\<rparr>;
              s = wakeup (kver s) (Some (cur s)) (PipeChan pi (if writable then NreadChan else NwriteChan)) s
          in if pipe_hd_of p = (False, False) then
               rbind (if kver s \<ge> 4 then kfree (data_page p) s else Inr s) (\<lambda>s.
               kfree pi (s\<lparr>pipes := (pipes s)(pi := None)\<rparr>))
             else Inr s)"

section \<open>Files\<close>

definition filealloc :: "'a fkernel_scheme \<Rightarrow> nat option \<times> 'a fkernel_scheme" where
  "filealloc s =
     (case List.find (\<lambda>f. f_ref (file_at s f) = 0) [0..<NFILE] of
        Some f \<Rightarrow> (Some f, upd_file f (\<lambda>x. x\<lparr>f_ref := 1\<rparr>) s)
      | None \<Rightarrow> (None, s))"

definition filedup :: "nat \<Rightarrow> 'a fkernel_scheme \<Rightarrow> 'a fkernel_scheme kres" where
  "filedup f s =
     (if f_ref (file_at s f) < 1 then Inl (Panic ''filedup'') else Inr (upd_file f (\<lambda>x. x\<lparr>f_ref := f_ref x + 1\<rparr>) s))"

definition iput_ptr :: "nat option \<Rightarrow> 'a ikernel_scheme \<Rightarrow> 'a ikernel_scheme kres" where
  "iput_ptr p s = (case p of None \<Rightarrow> Inl BadIndex | Some ip \<Rightarrow> iput ip s)"

definition fileclose :: "nat \<Rightarrow> 'a fkernel_scheme \<Rightarrow> 'a fkernel_scheme kres" where
  "fileclose f s =
     (if f_ref (file_at s f) < 1 then Inl (Panic ''fileclose'')
      else
        let s = upd_file f (\<lambda>x. x\<lparr>f_ref := f_ref x - 1\<rparr>) s
        in if f_ref (file_at s f) > 0 then Inr s
           else
             let ff = file_at s f;
                 s = upd_file f (\<lambda>x. x\<lparr>f_ref := 0, f_type := FD_NONE\<rparr>) s
             in case f_type ff of
                  FD_PIPE \<Rightarrow> pipeclose (f_pipe ff) (f_writable ff) s
                | FD_NONE \<Rightarrow> Inr s
                | _ \<Rightarrow> rbind (begin_op s) (\<lambda>s. rbind (iput_ptr (f_ip ff) s) end_op))"

text \<open>A \<^verbatim>\<open>struct stat\<close> is 24 bytes, with four bytes of padding that nobody sets (\<open>pad\<close>).\<close>

definition bytes64 :: "u64 \<Rightarrow> u8 list" where
  "bytes64 v = bytes32 (ucast v) @ bytes32 (ucast (drop_bit 32 v))"

definition stat_bytes :: "u8 list \<Rightarrow> stat \<Rightarrow> u8 list" where
  "stat_bytes pad st = bytes32 (st_dev st) @ bytes32 (st_ino st) @ bytes16 (st_type st) @ bytes16 (st_nlink st) @
     take 4 pad @ bytes64 (st_size st)"

definition copyout_me :: "u64 \<Rightarrow> u8 list \<Rightarrow> 'a ckernel_scheme \<Rightarrow> (bool \<times> 'a ckernel_scheme) kres" where
  "copyout_me addr bs s = (let p = procs s ! cur s in copyout (sz p) (pagetable p) (pagetable p) addr bs s)"

definition filestat :: "u8 list \<Rightarrow> nat \<Rightarrow> u64 \<Rightarrow> 'a fkernel_scheme \<Rightarrow> (int \<times> 'a fkernel_scheme) kres" where
  "filestat pad f addr s =
     (if f_type (file_at s f) = FD_INODE \<or> f_type (file_at s f) = FD_DEVICE then
        let p = f_ip (file_at s f)
        in rbind (ilock p s) (\<lambda>s.
           let st = stati (the p) s
           in rbind (iunlock p s) (\<lambda>s.
              rbind (copyout_me addr (stat_bytes pad st) s) (\<lambda>(ok, s). Inr (if ok then 0 else - 1, s))))
      else Inr (- 1, s))"

definition fileread :: "(int \<Rightarrow> 'a devop option) \<Rightarrow> nat \<Rightarrow> u64 \<Rightarrow> int \<Rightarrow> 'a fkernel_scheme \<Rightarrow> (int \<times> 'a fkernel_scheme) kres" where
  "fileread devs f addr n s =
     (if \<not> f_readable (file_at s f) then Inr (- 1, s)
      else case f_type (file_at s f) of
        FD_PIPE \<Rightarrow> piperead (f_pipe (file_at s f)) addr n s
      | FD_DEVICE \<Rightarrow>
          let m = sint (f_major (file_at s f))
          in if m < 0 \<or> m \<ge> NDEV then Inr (- 1, s)
             else (case devs m of None \<Rightarrow> Inr (- 1, s) | Some rd \<Rightarrow> rd addr n s)
      | FD_INODE \<Rightarrow>
          let p = f_ip (file_at s f)
          in rbind (ilock p s) (\<lambda>s.
             rbind (readi (the p) (UserDst addr) (f_off (file_at s f)) (word_of_int n) s) (\<lambda>((r, _), s).
             let s = (if r > 0 then upd_file f (\<lambda>x. x\<lparr>f_off := f_off x + word_of_int r\<rparr>) s else s)
             in rbind (iunlock p s) (\<lambda>s. Inr (r, s))))
      | FD_NONE \<Rightarrow> Inl (Panic ''fileread''))"

definition WRITE_MAX :: int where
  "WRITE_MAX = (int MAXOPBLOCKS - 1 - 1 - 2) div 2 * int BSIZE"

function filewrite_loop :: "nat \<Rightarrow> u64 \<Rightarrow> int \<Rightarrow> int \<Rightarrow> 'a fkernel_scheme \<Rightarrow> (int \<times> 'a fkernel_scheme) kres" where
  "filewrite_loop f addr n i s =
     (if i < n then
        let n1 = min (n - i) WRITE_MAX; p = f_ip (file_at s f)
        in rbind (begin_op s) (\<lambda>s.
           rbind (ilock p s) (\<lambda>s.
           rbind (writei (the p) (UserSrc (addr + word_of_int i)) (f_off (file_at s f)) (word_of_int n1) s) (\<lambda>(r, s).
           let s = (if r > 0 then upd_file f (\<lambda>x. x\<lparr>f_off := f_off x + word_of_int r\<rparr>) s else s)
           in rbind (iunlock p s) (\<lambda>s.
              rbind (end_op s) (\<lambda>s.
              if r \<noteq> n1 then Inr (i, s) else filewrite_loop f addr n (i + n1) s)))))
      else Inr (i, s))"
  by pat_completeness auto
termination
  by (relation "measure (\<lambda>(f, addr, n, i, s). nat (n - i))")
    (auto simp: WRITE_MAX_def MAXOPBLOCKS_def BSIZE_def)

declare filewrite_loop.simps [simp del]

definition filewrite :: "(int \<Rightarrow> 'a devop option) \<Rightarrow> nat \<Rightarrow> u64 \<Rightarrow> int \<Rightarrow> 'a fkernel_scheme \<Rightarrow> (int \<times> 'a fkernel_scheme) kres" where
  "filewrite devs f addr n s =
     (if \<not> f_writable (file_at s f) then Inr (- 1, s)
      else case f_type (file_at s f) of
        FD_PIPE \<Rightarrow> pipewrite (f_pipe (file_at s f)) addr n s
      | FD_DEVICE \<Rightarrow>
          let m = sint (f_major (file_at s f))
          in if m < 0 \<or> m \<ge> NDEV then Inr (- 1, s)
             else (case devs m of None \<Rightarrow> Inr (- 1, s) | Some wr \<Rightarrow> wr addr n s)
      | FD_INODE \<Rightarrow> rbind (filewrite_loop f addr n 0 s) (\<lambda>(i, s). Inr (if i = n then n else - 1, s))
      | FD_NONE \<Rightarrow> Inl (Panic ''filewrite''))"

section \<open>pipealloc\<close>

definition close_opt :: "nat option \<Rightarrow> 'a fkernel_scheme \<Rightarrow> 'a fkernel_scheme kres" where
  "close_opt f s = (case f of None \<Rightarrow> Inr s | Some f \<Rightarrow> fileclose f s)"

text \<open>The code at the label \<^verbatim>\<open>bad\<close>; there \<^verbatim>\<open>pi\<close> is always null.\<close>

definition pipealloc_bad :: "nat option \<Rightarrow> nat option \<Rightarrow> 'a fkernel_scheme \<Rightarrow> ((nat \<times> nat) option \<times> 'a fkernel_scheme) kres" where
  "pipealloc_bad f0 f1 s = rbind (close_opt f0 s) (\<lambda>s. rbind (close_opt f1 s) (\<lambda>s. Inr (None, s)))"

definition pipealloc_init :: "nat \<Rightarrow> nat \<Rightarrow> u64 \<Rightarrow> u64 \<Rightarrow> 'a fkernel_scheme \<Rightarrow> 'a fkernel_scheme" where
  "pipealloc_init f0 f1 pi d s =
     (let s = s\<lparr>pipes := (pipes s)(pi \<mapsto> new_pipe (kver s) d)\<rparr>;
          s = upd_file f0 (\<lambda>x. x\<lparr>f_type := FD_PIPE, f_readable := True, f_writable := False, f_pipe := pi\<rparr>) s
      in upd_file f1 (\<lambda>x. x\<lparr>f_type := FD_PIPE, f_readable := False, f_writable := True, f_pipe := pi\<rparr>) s)"

definition pipealloc :: "'a fkernel_scheme \<Rightarrow> ((nat \<times> nat) option \<times> 'a fkernel_scheme) kres" where
  "pipealloc s = (case filealloc s of
       (None, s) \<Rightarrow> pipealloc_bad None None s
     | (Some f0, s) \<Rightarrow> (case filealloc s of
         (None, s) \<Rightarrow> pipealloc_bad (Some f0) None s
       | (Some f1, s) \<Rightarrow> (case kalloc s of (pi, s) \<Rightarrow>
           if pi = 0 then pipealloc_bad (Some f0) (Some f1) s
           else if kver s \<ge> 4 then
             (case kalloc s of (d, s) \<Rightarrow>
               if d = 0 then rbind (kfree pi s) (pipealloc_bad (Some f0) (Some f1))
               else Inr (Some (f0, f1), pipealloc_init f0 f1 pi d s))
           else Inr (Some (f0, f1), pipealloc_init f0 f1 pi 0 s))))"

end
