(* ===== verification/Sysfile.thy ===== *)
theory Sysfile
  imports File
begin

text \<open>
  System calls on files: the arguments (\<^verbatim>\<open>kernel/syscall.c\<close>) and \<^verbatim>\<open>kernel/sysfile.c\<close>. A trapframe lies in
  memory; argument \<open>n\<close> is its field at offset \<open>112 + 8 n\<close>. A string argument is the byte list without
  its NUL.
\<close>

unbundle bit_operations_syntax

section \<open>Arguments\<close>

definition NDEV_OK :: "u16 \<Rightarrow> bool" where
  "NDEV_OK m \<longleftrightarrow> \<not> (sint m < 0 \<or> sint m \<ge> NDEV)"

definition MAXPATH :: nat where "MAXPATH = 128"

abbreviation me :: "'a ckernel_scheme \<Rightarrow> proc" where
  "me s \<equiv> procs s ! cur s"

definition fetchaddr :: "u64 \<Rightarrow> 'a ckernel_scheme \<Rightarrow> (u64 option \<times> 'a ckernel_scheme) kres" where
  "fetchaddr addr s =
     (let p = me s
      in if addr \<ge> sz p \<or> addr + 8 > sz p then Inr (None, s)
         else
           rbind (copyin (sz p) (pagetable p) (pagetable p) addr 8 s) (\<lambda>((bs, ok), s).
           if \<not> ok then Inr (None, s)
           else Inr (Some (ucast (get32 bs 0) OR push_bit 32 (ucast (get32 bs 4))), s)))"

text \<open>The bytes that \<^verbatim>\<open>copyinstr\<close> has stored, and the string when there is one.\<close>

definition fetchstr :: "u64 \<Rightarrow> nat \<Rightarrow> 'a ckernel_scheme \<Rightarrow> u8 list \<times> u8 list option" where
  "fetchstr addr mx s =
     (case copyinstr (pagetable (me s)) addr mx [] s of (bs, ok) \<Rightarrow>
      (bs, if ok then Some (takeWhile (\<lambda>c. c \<noteq> 0) bs) else None))"

definition argraw :: "nat \<Rightarrow> 'a ckernel_scheme \<Rightarrow> u64 kres" where
  "argraw n s = (if n \<le> 5 then Inr (load64 (mem s) (trapframe (me s) + of_nat (112 + 8 * n))) else Inl (Panic ''argraw''))"

definition argint :: "nat \<Rightarrow> 'a ckernel_scheme \<Rightarrow> int kres" where
  "argint n s = rbind (argraw n s) (\<lambda>v. Inr (sint (ucast v :: u32)))"

definition argaddr :: "nat \<Rightarrow> 'a ckernel_scheme \<Rightarrow> u64 kres" where
  "argaddr n s = argraw n s"

definition argstr :: "nat \<Rightarrow> nat \<Rightarrow> 'a ckernel_scheme \<Rightarrow> u8 list option kres" where
  "argstr n mx s = rbind (argaddr n s) (\<lambda>a. Inr (snd (fetchstr a mx s)))"

text \<open>The descriptor and its file.\<close>

definition argfd :: "nat \<Rightarrow> 'a ckernel_scheme \<Rightarrow> (nat \<times> nat) option kres" where
  "argfd n s = rbind (argint n s) (\<lambda>fd.
     Inr (if fd < 0 \<or> fd \<ge> int NOFILE then None
          else (case ofile (me s) ! nat fd of None \<Rightarrow> None | Some f \<Rightarrow> Some (nat fd, f))))"

definition set_fd :: "nat \<Rightarrow> nat option \<Rightarrow> 'a ckernel_scheme \<Rightarrow> 'a ckernel_scheme" where
  "set_fd fd f s = upd_proc (cur s) (\<lambda>p. p\<lparr>ofile := (ofile p)[fd := f]\<rparr>) s"

definition fdalloc :: "nat \<Rightarrow> 'a ckernel_scheme \<Rightarrow> nat option \<times> 'a ckernel_scheme" where
  "fdalloc f s =
     (case List.find (\<lambda>fd. ofile (me s) ! fd = None) [0..<NOFILE] of
        Some fd \<Rightarrow> (Some fd, set_fd fd (Some f) s)
      | None \<Rightarrow> (None, s))"

section \<open>Calls on descriptors\<close>

definition sys_dup :: "'a fkernel_scheme \<Rightarrow> (int \<times> 'a fkernel_scheme) kres" where
  "sys_dup s = rbind (argfd 0 s) (\<lambda>r. case r of
       None \<Rightarrow> Inr (- 1, s)
     | Some (_, f) \<Rightarrow> (case fdalloc f s of
         (None, s) \<Rightarrow> Inr (- 1, s)
       | (Some fd, s) \<Rightarrow> rbind (filedup f s) (\<lambda>s. Inr (int fd, s))))"

definition sys_read :: "(int \<Rightarrow> 'a devop option) \<Rightarrow> 'a fkernel_scheme \<Rightarrow> (int \<times> 'a fkernel_scheme) kres" where
  "sys_read devs s =
     rbind (argaddr 1 s) (\<lambda>p. rbind (argint 2 s) (\<lambda>n. rbind (argfd 0 s) (\<lambda>r. case r of
       None \<Rightarrow> Inr (- 1, s)
     | Some (_, f) \<Rightarrow> fileread devs f p n s)))"

definition sys_write :: "(int \<Rightarrow> 'a devop option) \<Rightarrow> 'a fkernel_scheme \<Rightarrow> (int \<times> 'a fkernel_scheme) kres" where
  "sys_write devs s =
     rbind (argaddr 1 s) (\<lambda>p. rbind (argint 2 s) (\<lambda>n. rbind (argfd 0 s) (\<lambda>r. case r of
       None \<Rightarrow> Inr (- 1, s)
     | Some (_, f) \<Rightarrow> filewrite devs f p n s)))"

definition sys_close :: "'a fkernel_scheme \<Rightarrow> (int \<times> 'a fkernel_scheme) kres" where
  "sys_close s = rbind (argfd 0 s) (\<lambda>r. case r of
       None \<Rightarrow> Inr (- 1, s)
     | Some (fd, f) \<Rightarrow> rbind (fileclose f (set_fd fd None s)) (\<lambda>s. Inr (0, s)))"

definition sys_fstat :: "u8 list \<Rightarrow> 'a fkernel_scheme \<Rightarrow> (int \<times> 'a fkernel_scheme) kres" where
  "sys_fstat pad s = rbind (argaddr 1 s) (\<lambda>st. rbind (argfd 0 s) (\<lambda>r. case r of
       None \<Rightarrow> Inr (- 1, s)
     | Some (_, f) \<Rightarrow> filestat pad f st s))"

definition sys_pipe :: "'a fkernel_scheme \<Rightarrow> (int \<times> 'a fkernel_scheme) kres" where
  "sys_pipe s =
     rbind (argaddr 0 s) (\<lambda>fdarray. rbind (pipealloc s) (\<lambda>(r, s). case r of
       None \<Rightarrow> Inr (- 1, s)
     | Some (rfl, wfl) \<Rightarrow>
         let fail = (\<lambda>s. rbind (fileclose rfl s) (\<lambda>s. rbind (fileclose wfl s) (\<lambda>s. Inr (- 1, s))))
         in (case fdalloc rfl s of
               (None, s) \<Rightarrow> fail s
             | (Some fd0, s) \<Rightarrow> (case fdalloc wfl s of
                 (None, s) \<Rightarrow> fail (set_fd fd0 None s)
               | (Some fd1, s) \<Rightarrow>
                   rbind (copyout_me fdarray (int_bytes (int fd0)) s) (\<lambda>(ok, s).
                   rbind (if ok then copyout_me (fdarray + 4) (int_bytes (int fd1)) s else Inr (False, s)) (\<lambda>(ok, s).
                   if \<not> ok then fail (set_fd fd1 None (set_fd fd0 None s))
                   else Inr (0, s)))))))"

section \<open>Calls on paths\<close>

abbreviation DOT :: "u8 list" where "DOT \<equiv> [46]"
abbreviation DOTDOT :: "u8 list" where "DOTDOT \<equiv> [46, 46]"

abbreviation set_nlink :: "nat \<Rightarrow> (u16 \<Rightarrow> u16) \<Rightarrow> 'a ikernel_scheme \<Rightarrow> 'a ikernel_scheme" where
  "set_nlink ip g \<equiv> upd_inode ip (\<lambda>x. x\<lparr>i_nlink := g (i_nlink x)\<rparr>)"

text \<open>\<^verbatim>\<open>end_op()\<close> followed by a return.\<close>

definition end_ret :: "int \<Rightarrow> 'a lkernel_scheme \<Rightarrow> (int \<times> 'a lkernel_scheme) kres" where
  "end_ret v s = rbind (end_op s) (\<lambda>s. Inr (v, s))"

definition unlockput_end :: "nat \<Rightarrow> int \<Rightarrow> 'a ikernel_scheme \<Rightarrow> (int \<times> 'a ikernel_scheme) kres" where
  "unlockput_end ip v s = rbind (iunlockput ip s) (end_ret v)"

definition link_bad :: "nat \<Rightarrow> 'a ikernel_scheme \<Rightarrow> (int \<times> 'a ikernel_scheme) kres" where
  "link_bad ip s =
     rbind (ilock (Some ip) s) (\<lambda>s. rbind (iupdate ip (set_nlink ip (\<lambda>n. n - 1) s)) (unlockput_end ip (- 1)))"

definition link_at :: "nat \<Rightarrow> u8 list \<Rightarrow> 'a ikernel_scheme \<Rightarrow> (int \<times> 'a ikernel_scheme) kres" where
  "link_at ip new s =
     rbind (nameiparent new s) (\<lambda>((dp, name), s). case dp of
       None \<Rightarrow> link_bad ip s
     | Some dp \<Rightarrow>
         rbind (ilock (Some dp) s) (\<lambda>s.
         rbind (if i_dev (inode_at s dp) \<noteq> i_dev (inode_at s ip) then Inr (- 1, s)
                else dirlink dp name (i_inum (inode_at s ip)) s) (\<lambda>(r, s).
         rbind (iunlockput dp s) (\<lambda>s.
         if r < 0 then link_bad ip s else rbind (iput ip s) (end_ret 0)))))"

definition sys_link :: "'a ikernel_scheme \<Rightarrow> (int \<times> 'a ikernel_scheme) kres" where
  "sys_link s =
     rbind (argstr 0 MAXPATH s) (\<lambda>old. case old of None \<Rightarrow> Inr (- 1, s) | Some old \<Rightarrow>
     rbind (argstr 1 MAXPATH s) (\<lambda>new. case new of None \<Rightarrow> Inr (- 1, s) | Some new \<Rightarrow>
     rbind (begin_op s) (\<lambda>s.
     rbind (namei old s) (\<lambda>(ip, s). case ip of
       None \<Rightarrow> end_ret (- 1) s
     | Some ip \<Rightarrow>
         rbind (ilock (Some ip) s) (\<lambda>s.
         if i_type (inode_at s ip) = T_DIR then unlockput_end ip (- 1) s
         else
           rbind (iupdate ip (set_nlink ip (\<lambda>n. n + 1) s)) (\<lambda>s.
           rbind (iunlock (Some ip) s) (link_at ip new)))))))"

primrec isdirempty_over :: "nat \<Rightarrow> nat list \<Rightarrow> 'a ikernel_scheme \<Rightarrow> (bool \<times> 'a ikernel_scheme) kres" where
  "isdirempty_over dp [] s = Inr (True, s)"
| "isdirempty_over dp (off # offs) s =
     rbind (readi dp LocalDst (of_nat off) 16 s) (\<lambda>((r, de), s).
     if r \<noteq> 16 then Inl (Panic ''isdirempty: readi'')
     else if get16 de 0 \<noteq> 0 then Inr (False, s)
     else isdirempty_over dp offs s)"

definition isdirempty :: "nat \<Rightarrow> 'a ikernel_scheme \<Rightarrow> (bool \<times> 'a ikernel_scheme) kres" where
  "isdirempty dp s = isdirempty_over dp (drop 2 (dir_offs (i_size (inode_at s dp)))) s"

definition unlink_entry :: "nat \<Rightarrow> nat \<Rightarrow> nat \<Rightarrow> 'a ikernel_scheme \<Rightarrow> (int \<times> 'a ikernel_scheme) kres" where
  "unlink_entry dp ip off s =
     rbind (writei dp (LocalSrc (replicate 16 0)) (of_nat off) 16 s) (\<lambda>(r, s).
     if r \<noteq> 16 then Inl (Panic ''unlink: writei'')
     else
       rbind (if i_type (inode_at s ip) = T_DIR then iupdate dp (set_nlink dp (\<lambda>n. n - 1) s) else Inr s) (\<lambda>s.
       rbind (iunlockput dp s) (\<lambda>s.
       rbind (iupdate ip (set_nlink ip (\<lambda>n. n - 1) s)) (unlockput_end ip 0))))"

definition sys_unlink :: "'a ikernel_scheme \<Rightarrow> (int \<times> 'a ikernel_scheme) kres" where
  "sys_unlink s =
     rbind (argstr 0 MAXPATH s) (\<lambda>path. case path of None \<Rightarrow> Inr (- 1, s) | Some path \<Rightarrow>
     rbind (begin_op s) (\<lambda>s.
     rbind (nameiparent path s) (\<lambda>((dp, name), s). case dp of
       None \<Rightarrow> end_ret (- 1) s
     | Some dp \<Rightarrow>
         rbind (ilock (Some dp) s) (\<lambda>s.
         if namecmp name DOT = 0 \<or> namecmp name DOTDOT = 0 then unlockput_end dp (- 1) s
         else
           rbind (dirlookup dp name s) (\<lambda>(r, s). case r of
             None \<Rightarrow> unlockput_end dp (- 1) s
           | Some (ip, off) \<Rightarrow>
               rbind (ilock (Some ip) s) (\<lambda>s.
               if sint (i_nlink (inode_at s ip)) < 1 then Inl (Panic ''unlink: nlink < 1'')
               else
                 rbind (if i_type (inode_at s ip) = T_DIR then isdirempty ip s else Inr (True, s)) (\<lambda>(e, s).
                 if \<not> e then rbind (iunlockput ip s) (unlockput_end dp (- 1))
                 else unlink_entry dp ip off s)))))))"

text \<open>The code at the label \<^verbatim>\<open>fail\<close> of \<^verbatim>\<open>create\<close>.\<close>

definition create_fail :: "nat \<Rightarrow> nat \<Rightarrow> 'a ikernel_scheme \<Rightarrow> (nat option \<times> 'a ikernel_scheme) kres" where
  "create_fail dp ip s =
     rbind (iupdate ip (set_nlink ip (\<lambda>_. 0) s)) (\<lambda>s.
     rbind (iunlockput ip s) (\<lambda>s. rbind (iunlockput dp s) (\<lambda>s. Inr (None, s))))"

text \<open>The entries of a new directory, and the entry for the new inode \<open>ip\<close>.\<close>

definition create_dots :: "nat \<Rightarrow> nat \<Rightarrow> u16 \<Rightarrow> 'a ikernel_scheme \<Rightarrow> (int \<times> 'a ikernel_scheme) kres" where
  "create_dots dp ip ty s =
     (if ty = T_DIR then
        rbind (dirlink ip DOT (i_inum (inode_at s ip)) s) (\<lambda>(r, s).
        if r < 0 then Inr (r, s) else dirlink ip DOTDOT (i_inum (inode_at s dp)) s)
      else Inr (0, s))"

definition create_link :: "nat \<Rightarrow> nat \<Rightarrow> u8 list \<Rightarrow> u16 \<Rightarrow> 'a ikernel_scheme \<Rightarrow> (nat option \<times> 'a ikernel_scheme) kres" where
  "create_link dp ip name ty s =
     rbind (dirlink dp name (i_inum (inode_at s ip)) s) (\<lambda>(r, s).
     if r < 0 then create_fail dp ip s
     else
       rbind (if ty = T_DIR then iupdate dp (set_nlink dp (\<lambda>n. n + 1) s) else Inr s) (\<lambda>s.
       rbind (iunlockput dp s) (\<lambda>s. Inr (Some ip, s))))"

definition create_new :: "nat \<Rightarrow> nat \<Rightarrow> u8 list \<Rightarrow> u16 \<Rightarrow> u16 \<Rightarrow> u16 \<Rightarrow> 'a ikernel_scheme \<Rightarrow> (nat option \<times> 'a ikernel_scheme) kres" where
  "create_new dp ip name ty mj mn s =
     rbind (ilock (Some ip) s) (\<lambda>s.
     rbind (iupdate ip (upd_inode ip (\<lambda>x. x\<lparr>i_major := mj, i_minor := mn, i_nlink := 1\<rparr>) s)) (\<lambda>s.
     rbind (create_dots dp ip ty s) (\<lambda>(r, s).
     if r < 0 then create_fail dp ip s else create_link dp ip name ty s)))"

definition create :: "u8 list \<Rightarrow> u16 \<Rightarrow> u16 \<Rightarrow> u16 \<Rightarrow> 'a ikernel_scheme \<Rightarrow> (nat option \<times> 'a ikernel_scheme) kres" where
  "create path ty mj mn s =
     rbind (nameiparent path s) (\<lambda>((dp, name), s). case dp of
       None \<Rightarrow> Inr (None, s)
     | Some dp \<Rightarrow>
         rbind (ilock (Some dp) s) (\<lambda>s.
         rbind (dirlookup dp name s) (\<lambda>(r, s). case r of
           Some (ip, _) \<Rightarrow>
             rbind (iunlockput dp s) (\<lambda>s.
             rbind (ilock (Some ip) s) (\<lambda>s.
             if ty = T_FILE \<and> (i_type (inode_at s ip) = T_FILE \<or> i_type (inode_at s ip) = T_DEVICE) then Inr (Some ip, s)
             else rbind (iunlockput ip s) (\<lambda>s. Inr (None, s))))
         | None \<Rightarrow>
             rbind (ialloc (i_dev (inode_at s dp)) ty s) (\<lambda>(r, s). case r of
               None \<Rightarrow> rbind (iunlockput dp s) (\<lambda>s. Inr (None, s))
             | Some ip \<Rightarrow> create_new dp ip name ty mj mn s))))"

definition O_RDONLY :: int where "O_RDONLY = 0"
definition O_WRONLY :: int where "O_WRONLY = 1"
definition O_RDWR :: int where "O_RDWR = 2"
definition O_CREATE :: int where "O_CREATE = 0x200"
definition O_TRUNC :: int where "O_TRUNC = 0x400"

abbreviation has_flag :: "int \<Rightarrow> int \<Rightarrow> bool" where
  "has_flag m b \<equiv> m AND b \<noteq> 0"

definition open_file :: "int \<Rightarrow> nat \<Rightarrow> inode \<Rightarrow> kfile \<Rightarrow> kfile" where
  "open_file omode ip x f =
     (let f = (if i_type x = T_DEVICE then f\<lparr>f_type := FD_DEVICE, f_major := i_major x\<rparr> else f\<lparr>f_type := FD_INODE, f_off := 0\<rparr>)
      in f\<lparr>f_ip := Some ip, f_readable := \<not> has_flag omode O_WRONLY,
           f_writable := has_flag omode O_WRONLY \<or> has_flag omode O_RDWR\<rparr>)"

text \<open>\<^verbatim>\<open>sys_open\<close> from the test of the device number on, with \<open>ip\<close> locked.\<close>

definition open_inode :: "int \<Rightarrow> nat \<Rightarrow> 'a fkernel_scheme \<Rightarrow> (int \<times> 'a fkernel_scheme) kres" where
  "open_inode omode ip s =
     (if i_type (inode_at s ip) = T_DEVICE \<and> \<not> NDEV_OK (i_major (inode_at s ip)) then unlockput_end ip (- 1) s
      else case filealloc s of
        (None, s) \<Rightarrow> unlockput_end ip (- 1) s
      | (Some f, s) \<Rightarrow> (case fdalloc f s of
          (None, s) \<Rightarrow> rbind (fileclose f s) (unlockput_end ip (- 1))
        | (Some fd, s) \<Rightarrow>
            let s = upd_file f (open_file omode ip (inode_at s ip)) s
            in rbind (if has_flag omode O_TRUNC \<and> i_type (inode_at s ip) = T_FILE then itrunc ip s else Inr s) (\<lambda>s.
               rbind (iunlock (Some ip) s) (end_ret (int fd)))))"

definition sys_open :: "'a fkernel_scheme \<Rightarrow> (int \<times> 'a fkernel_scheme) kres" where
  "sys_open s =
     rbind (argint 1 s) (\<lambda>omode.
     rbind (argstr 0 MAXPATH s) (\<lambda>path. case path of None \<Rightarrow> Inr (- 1, s) | Some path \<Rightarrow>
     rbind (begin_op s) (\<lambda>s.
     if has_flag omode O_CREATE then
       rbind (create path T_FILE 0 0 s) (\<lambda>(ip, s). case ip of
         None \<Rightarrow> end_ret (- 1) s
       | Some ip \<Rightarrow> open_inode omode ip s)
     else
       rbind (namei path s) (\<lambda>(ip, s). case ip of
         None \<Rightarrow> end_ret (- 1) s
       | Some ip \<Rightarrow>
           rbind (ilock (Some ip) s) (\<lambda>s.
           if i_type (inode_at s ip) = T_DIR \<and> omode \<noteq> O_RDONLY then unlockput_end ip (- 1) s
           else open_inode omode ip s)))))"

definition make_node :: "u8 list option \<Rightarrow> u16 \<Rightarrow> u16 \<Rightarrow> u16 \<Rightarrow> 'a ikernel_scheme \<Rightarrow> (int \<times> 'a ikernel_scheme) kres" where
  "make_node path ty mj mn s =
     (case path of None \<Rightarrow> end_ret (- 1) s | Some path \<Rightarrow>
      rbind (create path ty mj mn s) (\<lambda>(ip, s). case ip of None \<Rightarrow> end_ret (- 1) s | Some ip \<Rightarrow> unlockput_end ip 0 s))"

definition sys_mkdir :: "'a ikernel_scheme \<Rightarrow> (int \<times> 'a ikernel_scheme) kres" where
  "sys_mkdir s = rbind (begin_op s) (\<lambda>s. rbind (argstr 0 MAXPATH s) (\<lambda>path. make_node path T_DIR 0 0 s))"

definition sys_mknod :: "'a ikernel_scheme \<Rightarrow> (int \<times> 'a ikernel_scheme) kres" where
  "sys_mknod s = rbind (begin_op s) (\<lambda>s. rbind (argint 1 s) (\<lambda>mj. rbind (argint 2 s) (\<lambda>mn.
     rbind (argstr 0 MAXPATH s) (\<lambda>path. make_node path T_DEVICE (word_of_int mj) (word_of_int mn) s))))"

definition sys_chdir :: "'a ikernel_scheme \<Rightarrow> (int \<times> 'a ikernel_scheme) kres" where
  "sys_chdir s =
     rbind (begin_op s) (\<lambda>s. rbind (argstr 0 MAXPATH s) (\<lambda>path. case path of None \<Rightarrow> end_ret (- 1) s | Some path \<Rightarrow>
     rbind (namei path s) (\<lambda>(ip, s). case ip of
       None \<Rightarrow> end_ret (- 1) s
     | Some ip \<Rightarrow>
         rbind (ilock (Some ip) s) (\<lambda>s.
         if i_type (inode_at s ip) \<noteq> T_DIR then unlockput_end ip (- 1) s
         else
           rbind (iunlock (Some ip) s) (\<lambda>s.
           rbind (iput_ptr (cwd (me s)) s) (\<lambda>s.
           rbind (end_op s) (\<lambda>s. Inr (0, upd_proc (cur s) (\<lambda>p. p\<lparr>cwd := Some ip\<rparr>) s))))))))"

end
