(* ===== verification/Exec.thy ===== *)
theory Exec
  imports Sysfile
begin

text \<open>
  \<^verbatim>\<open>kernel/exec.c\<close> with the layout of \<^verbatim>\<open>kernel/elf.h\<close>, and \<^verbatim>\<open>sys_exec\<close>, whose argument strings travel through
  pages of the kernel. The code at the label \<^verbatim>\<open>bad\<close> is \<open>exec_bad\<close>.
\<close>

definition get64 :: "u8 list \<Rightarrow> nat \<Rightarrow> u64" where
  "get64 bs k = ucast (get32 bs k) OR push_bit 32 (ucast (get32 bs (k + 4)))"

definition ELF_MAGIC :: u32 where "ELF_MAGIC = 0x464C457F"
definition ELF_PROG_LOAD :: u32 where "ELF_PROG_LOAD = 1"
definition MAXARG :: nat where "MAXARG = 32"
definition USERSTACK :: u64 where "USERSTACK = 1"

record elfhdr =
  e_magic :: u32
  e_entry :: u64
  e_phoff :: u64
  e_phnum :: u16

record proghdr =
  p_type :: u32
  p_flags :: u32
  p_off :: u64
  p_vaddr :: u64
  p_filesz :: u64
  p_memsz :: u64

text \<open>The fields \<^verbatim>\<open>kexec\<close> uses, at their offsets in the 64 and 56 bytes of the structures.\<close>

definition get_elfhdr :: "u8 list \<Rightarrow> elfhdr" where
  "get_elfhdr bs = \<lparr>e_magic = get32 bs 0, e_entry = get64 bs 24, e_phoff = get64 bs 32, e_phnum = get16 bs 56\<rparr>"

definition get_proghdr :: "u8 list \<Rightarrow> proghdr" where
  "get_proghdr bs = \<lparr>p_type = get32 bs 0, p_flags = get32 bs 4, p_off = get64 bs 8, p_vaddr = get64 bs 16,
     p_filesz = get64 bs 32, p_memsz = get64 bs 40\<rparr>"

definition flags2perm :: "u32 \<Rightarrow> u64" where
  "flags2perm flags =
     (let perm = (if flags AND 1 \<noteq> 0 then PTE_X else 0) in if flags AND 2 \<noteq> 0 then perm OR PTE_W else perm)"

text \<open>The loop of \<^verbatim>\<open>loadseg\<close> over the page offsets; a size within one page of \<open>2 ^ 32\<close>, for which the
  code's counter would wrap, is more than the machine's memory.\<close>

primrec loadseg_over :: "u64 \<Rightarrow> u64 \<Rightarrow> nat \<Rightarrow> u32 \<Rightarrow> u32 \<Rightarrow> nat list \<Rightarrow> 'a ikernel_scheme \<Rightarrow> (int \<times> 'a ikernel_scheme) kres" where
  "loadseg_over pt va ip off z [] s = Inr (0, s)"
| "loadseg_over pt va ip off z (i # is) s =
     (let pa = walkaddr pt (va + of_nat i) s; n = min (unat z - i) PGSIZE
      in if pa = 0 then Inl (Panic ''loadseg: address should exist'')
         else
           rbind (readi ip (KernDst pa) (off + of_nat i) (of_nat n) s) (\<lambda>((r, _), s).
           if r \<noteq> int n then Inr (- 1, s) else loadseg_over pt va ip off z is s))"

definition loadseg :: "u64 \<Rightarrow> u64 \<Rightarrow> nat \<Rightarrow> u32 \<Rightarrow> u32 \<Rightarrow> 'a ikernel_scheme \<Rightarrow> (int \<times> 'a ikernel_scheme) kres" where
  "loadseg pt va ip off z s =
     loadseg_over pt va ip off z (map (\<lambda>k. k * PGSIZE) [0..<(unat z + PGSIZE - 1) div PGSIZE]) s"

text \<open>The loop over \<open>k\<close> program headers; the result is the size reached and whether all went well.\<close>

primrec load_program :: "nat \<Rightarrow> u64 \<Rightarrow> nat \<Rightarrow> u32 \<Rightarrow> u64 \<Rightarrow> 'a ikernel_scheme \<Rightarrow> ((u64 \<times> bool) \<times> 'a ikernel_scheme) kres" where
  "load_program 0 pt ip off z s = Inr ((z, True), s)"
| "load_program (Suc k) pt ip off z s =
     rbind (readi ip LocalDst off 56 s) (\<lambda>((r, bs), s).
     let ph = get_proghdr bs
     in if r \<noteq> 56 then Inr ((z, False), s)
        else if p_type ph \<noteq> ELF_PROG_LOAD then load_program k pt ip (off + 56) z s
        else if p_memsz ph < p_filesz ph then Inr ((z, False), s)
        else if p_vaddr ph + p_memsz ph < p_vaddr ph then Inr ((z, False), s)
        else if p_vaddr ph mod PGSZ \<noteq> 0 then Inr ((z, False), s)
        else
          rbind (uvmalloc pt z (p_vaddr ph + p_memsz ph) (flags2perm (p_flags ph)) s) (\<lambda>(z1, s).
          if z1 = 0 then Inr ((z, False), s)
          else
            rbind (loadseg pt (p_vaddr ph) ip (ucast (p_off ph)) (ucast (p_filesz ph)) s) (\<lambda>(r, s).
            if r < 0 then Inr ((z1, False), s) else load_program k pt ip (off + 56) z1 s)))"

text \<open>\<^verbatim>\<open>copyout\<close> into the new page table; a fault is handled on the page table of the process.\<close>

definition copyout_to :: "u64 \<Rightarrow> u64 \<Rightarrow> u8 list \<Rightarrow> 'a ckernel_scheme \<Rightarrow> (bool \<times> 'a ckernel_scheme) kres" where
  "copyout_to pt addr bs s = copyout (sz (me s)) (pagetable (me s)) pt addr bs s"

primrec push_args :: "u64 \<Rightarrow> u64 \<Rightarrow> u64 list \<Rightarrow> u64 \<Rightarrow> u64 list \<Rightarrow> 'a ckernel_scheme \<Rightarrow>
    ((u64 \<times> u64 list \<times> bool) \<times> 'a ckernel_scheme) kres" where
  "push_args pt stackbase [] sp ustack s = Inr ((sp, ustack, True), s)"
| "push_args pt stackbase (a # argv) sp ustack s =
     (if length ustack \<ge> MAXARG then Inr ((sp, ustack, False), s)
      else case strlen (mem s) a of
        None \<Rightarrow> Inl OutOfFuel
      | Some n \<Rightarrow>
          let sp = sp - of_nat (n + 1); sp = sp - sp mod 16
          in if sp < stackbase then Inr ((sp, ustack, False), s)
             else
               rbind (copyout_to pt sp (load_bytes (mem s) a (n + 1)) s) (\<lambda>(ok, s).
               if \<not> ok then Inr ((sp, ustack, False), s) else push_args pt stackbase argv sp (ustack @ [sp]) s))"

definition exec_bad :: "u64 \<Rightarrow> u64 \<Rightarrow> nat option \<Rightarrow> 'a ikernel_scheme \<Rightarrow> (int \<times> 'a ikernel_scheme) kres" where
  "exec_bad pt z ip s =
     rbind (if pt \<noteq> 0 then proc_freepagetable pt z s else Inr s) (\<lambda>s.
     case ip of None \<Rightarrow> Inr (- 1, s) | Some ip \<Rightarrow> unlockput_end ip (- 1) s)"

text \<open>A field of the trapframe, by its offset.\<close>

definition tf_store :: "nat \<Rightarrow> u64 \<Rightarrow> 'a ckernel_scheme \<Rightarrow> 'a ckernel_scheme" where
  "tf_store k v s = s\<lparr>mem := store64 (mem s) (trapframe (me s) + of_nat k) v\<rparr>"

text \<open>\<^verbatim>\<open>safestrcpy\<close> into a name of 16 bytes; after a NUL that it has copied it stores another one.\<close>

definition set_name :: "u8 list \<Rightarrow> u8 list \<Rightarrow> u8 list" where
  "set_name old src =
     (let q = takeWhile (\<lambda>c. c \<noteq> 0) (take 15 src) in overwrite old 0 (q @ (if length q < 15 then [0, 0] else [0])))"

definition last_elem :: "u8 list \<Rightarrow> u8 list" where
  "last_elem path = rev (takeWhile (\<lambda>c. c \<noteq> SLASH) (rev path))"

definition exec_commit :: "u8 list \<Rightarrow> u64 \<Rightarrow> u64 \<Rightarrow> u64 \<Rightarrow> u64 \<Rightarrow> nat \<Rightarrow> 'a ikernel_scheme \<Rightarrow> (int \<times> 'a ikernel_scheme) kres" where
  "exec_commit path pt z entry sp argc s =
     (let oldpt = pagetable (me s); oldsz = sz (me s);
          s = tf_store 120 sp s;
          s = upd_proc (cur s) (\<lambda>p. p\<lparr>pname := set_name (pname p) (last_elem path), pagetable := pt, sz := z\<rparr>) s;
          s = tf_store 48 sp (tf_store 24 entry s)
      in rbind (proc_freepagetable oldpt oldsz s) (\<lambda>s. Inr (int argc, s)))"

definition exec_stack :: "u8 list \<Rightarrow> u64 list \<Rightarrow> u64 \<Rightarrow> u64 \<Rightarrow> u64 \<Rightarrow> 'a ikernel_scheme \<Rightarrow> (int \<times> 'a ikernel_scheme) kres" where
  "exec_stack path argv pt z entry s =
     (let z = PGROUNDUP z
      in rbind (uvmalloc pt z (z + (USERSTACK + 1) * PGSZ) PTE_W s) (\<lambda>(z1, s).
         if z1 = 0 then exec_bad pt z None s
         else
           rbind (uvmclear pt (z1 - (USERSTACK + 1) * PGSZ) s) (\<lambda>s.
           let stackbase = z1 - USERSTACK * PGSZ
           in rbind (push_args pt stackbase argv z1 [] s) (\<lambda>((sp, ustack, ok), s).
              if \<not> ok then exec_bad pt z1 None s
              else
                let argc = length ustack;
                    sp = sp - of_nat ((argc + 1) * 8); sp = sp - sp mod 16
                in if sp < stackbase then exec_bad pt z1 None s
                   else
                     rbind (copyout_to pt sp (concat (map bytes64 (ustack @ [0]))) s) (\<lambda>(ok, s).
                     if \<not> ok then exec_bad pt z1 None s
                     else exec_commit path pt z1 entry sp argc s)))))"

definition kexec :: "u8 list \<Rightarrow> u64 list \<Rightarrow> 'a ikernel_scheme \<Rightarrow> (int \<times> 'a ikernel_scheme) kres" where
  "kexec path argv s =
     rbind (begin_op s) (\<lambda>s.
     rbind (namei path s) (\<lambda>(ip, s). case ip of
       None \<Rightarrow> end_ret (- 1) s
     | Some ip \<Rightarrow>
         rbind (ilock (Some ip) s) (\<lambda>s.
         rbind (readi ip LocalDst 0 64 s) (\<lambda>((r, bs), s).
         let elf = get_elfhdr bs
         in if r \<noteq> 64 then exec_bad 0 0 (Some ip) s
            else if e_magic elf \<noteq> ELF_MAGIC then exec_bad 0 0 (Some ip) s
            else
              rbind (proc_pagetable (trapframe (me s)) s) (\<lambda>(pt, s).
              if pt = 0 then exec_bad 0 0 (Some ip) s
              else
                rbind (load_program (unat (e_phnum elf)) pt ip (ucast (e_phoff elf)) 0 s) (\<lambda>((z, ok), s).
                if \<not> ok then exec_bad pt z (Some ip) s
                else
                  rbind (iunlockput ip s) (\<lambda>s.
                  rbind (end_op s) (exec_stack path argv pt z (e_entry elf)))))))))"

section \<open>sys_exec\<close>

text \<open>The first loop, with \<open>k\<close> entries of \<^verbatim>\<open>argv\<close> left: the pages allocated so far, and whether the list
  ended.\<close>

primrec fetch_args :: "nat \<Rightarrow> u64 \<Rightarrow> u64 list \<Rightarrow> 'a ckernel_scheme \<Rightarrow> ((u64 list \<times> bool) \<times> 'a ckernel_scheme) kres" where
  "fetch_args 0 uargv argv s = Inr ((argv, False), s)"
| "fetch_args (Suc k) uargv argv s =
     rbind (fetchaddr (uargv + 8 * of_nat (length argv)) s) (\<lambda>(uarg, s). case uarg of
       None \<Rightarrow> Inr ((argv, False), s)
     | Some uarg \<Rightarrow>
         if uarg = 0 then Inr ((argv, True), s)
         else (case kalloc s of (pg, s) \<Rightarrow>
           if pg = 0 then Inr ((argv, False), s)
           else (case fetchstr uarg PGSIZE s of (bs, str) \<Rightarrow>
             let s = s\<lparr>mem := store_bytes (mem s) pg bs\<rparr>
             in if str = None then Inr ((argv @ [pg], False), s)
                else fetch_args k uargv (argv @ [pg]) s)))"

definition sys_exec :: "'a ikernel_scheme \<Rightarrow> (int \<times> 'a ikernel_scheme) kres" where
  "sys_exec s =
     rbind (argaddr 1 s) (\<lambda>uargv. rbind (argstr 0 MAXPATH s) (\<lambda>path. case path of
       None \<Rightarrow> Inr (- 1, s)
     | Some path \<Rightarrow>
         rbind (fetch_args MAXARG uargv [] s) (\<lambda>((argv, ok), s).
         rbind (if ok then kexec path argv s else Inr (- 1, s)) (\<lambda>(ret, s).
         rbind (rfold kfree argv s) (\<lambda>s. Inr (ret, s))))))"

end
