(* ===== verification/Uart.thy ===== *)
theory Uart
  imports File
begin

text \<open>
  The serial port (\<^verbatim>\<open>kernel/uart.c\<close>) and the echo function of \<^verbatim>\<open>kernel/console.c\<close>. The state of the port is the
  flag \<^verbatim>\<open>tx_busy\<close> and the bytes stored so far in its transmit register. A store into the transmit
  register waits until the port accepts it, which it does at some time.
\<close>

definition BACKSPACE :: int where "BACKSPACE = 0x100"

record ukernel = fkernel +
  tx_busy :: bool
  uart_thr :: "u8 list"

text \<open>The wait channel \<^verbatim>\<open>&tx_chan\<close>.\<close>

abbreviation TxChan :: kchan where "TxChan \<equiv> ObjChan 2"

text \<open>\<^verbatim>\<open>uartinit\<close>: the control registers it writes, in this order, with their values.\<close>

definition uartinit :: "(nat \<times> u8) list" where
  "uartinit =
     (let IER = 1; FCR = 2; LCR = 3
      in [(IER, 0), (LCR, push_bit 7 1), (0, 3), (1, 0), (LCR, push_bit 0 3),
          (FCR, or (push_bit 0 1) (push_bit 1 3)), (IER, or (push_bit 1 1) (push_bit 0 1))])"

text \<open>\<^verbatim>\<open>uartwrite\<close>; while the port is busy it sleeps on \<^verbatim>\<open>tx_chan\<close>.\<close>

primrec uartwrite :: "u8 list \<Rightarrow> 'a ukernel_scheme \<Rightarrow> 'a ukernel_scheme kres" where
  "uartwrite [] s = Inr s"
| "uartwrite (b # bs) s =
     (if tx_busy s then Inl WouldSleep
      else uartwrite bs (s\<lparr>uart_thr := uart_thr s @ [b], tx_busy := True\<rparr>))"

definition uartputc_sync :: "int \<Rightarrow> 'a ukernel_scheme \<Rightarrow> 'a ukernel_scheme" where
  "uartputc_sync c s = s\<lparr>uart_thr := uart_thr s @ [word_of_int c]\<rparr>"

text \<open>\<^verbatim>\<open>uartgetc\<close>: \<open>input\<close> are the characters that wait in the receive register; the result is the first of them
  or \<open>- 1\<close>, with the rest.\<close>

fun uartgetc :: "u8 list \<Rightarrow> int \<times> u8 list" where
  "uartgetc [] = (- 1, [])"
| "uartgetc (b # bs) = (uint b, bs)"

definition consputc :: "int \<Rightarrow> 'a ukernel_scheme \<Rightarrow> 'a ukernel_scheme" where
  "consputc c s =
     (if c = BACKSPACE then uartputc_sync 8 (uartputc_sync 32 (uartputc_sync 8 s)) else uartputc_sync c s)"

section \<open>Output\<close>

text \<open>\<open>emit bs s\<close> is \<open>s\<close> after the bytes \<open>bs\<close> went out; everything the kernel prints has this form.\<close>

definition emit :: "u8 list \<Rightarrow> 'a ukernel_scheme \<Rightarrow> 'a ukernel_scheme" where
  "emit bs s = s\<lparr>uart_thr := uart_thr s @ bs\<rparr>"

lemma emit_Nil [simp]: "emit [] s = s"
  by (simp add: emit_def)

lemma emit_emit [simp]: "emit bs (emit as s) = emit (as @ bs) s"
  by (simp add: emit_def)

lemma uart_thr_emit [simp]: "uart_thr (emit bs s) = uart_thr s @ bs"
  by (simp add: emit_def)

lemma consputc_emit: "consputc c s = emit (if c = BACKSPACE then [8, 32, 8] else [word_of_int c]) s"
  by (simp add: consputc_def uartputc_sync_def emit_def)

lemma consputc_byte [simp]: "consputc (uint (b :: u8)) s = emit [b] s"
proof -
  have "uint b \<noteq> BACKSPACE" using uint_bounded [of b] by (simp add: BACKSPACE_def)
  then show ?thesis by (simp add: consputc_emit)
qed

lemma consputc_backspace [simp]: "consputc BACKSPACE s = emit [8, 32, 8] s"
  by (simp add: consputc_emit)

lemma fold_consputc: "fold (\<lambda>b. consputc (uint (b :: u8))) bs s = emit bs s"
  by (induction bs arbitrary: s) simp_all

end
