(* ===== verification/Printf.thy ===== *)
theory Printf
  imports Uart
begin

text \<open>
  Formatted output (\<^verbatim>\<open>kernel/printf.c\<close>) and \<^verbatim>\<open>procdump\<close> of \<^verbatim>\<open>kernel/proc.c\<close>. A format string is its bytes without
  the final nul. The variable arguments are a list of 64-bit slots and string pointers, \<open>VStr None\<close> the
  null pointer; \<^verbatim>\<open>va_arg\<close> beyond the list, or of the other kind, is the result \<open>BadIndex\<close>. A store behind the
  end of the local array of \<^verbatim>\<open>printint\<close> is \<open>BadIndex\<close> too.
\<close>

section \<open>Numbers\<close>

definition cstr :: "string \<Rightarrow> u8 list" where
  "cstr = map of_char"

definition digits :: "u8 list" where
  "digits = cstr ''0123456789abcdef''"

text \<open>The do-while loop of \<^verbatim>\<open>printint\<close>: the bytes it stores, the lowest digit first, into an array with \<open>room\<close>
  bytes left.\<close>

primrec printint_loop :: "nat \<Rightarrow> u64 \<Rightarrow> u64 \<Rightarrow> u8 list kres" where
  "printint_loop 0 x b = Inl BadIndex"
| "printint_loop (Suc room) x b =
     (let d = digits ! unat (x mod b);
          x = x div b
      in if x \<noteq> 0 then rbind (printint_loop room x b) (\<lambda>ds. Inr (d # ds)) else Inr [d])"

definition printint :: "u64 \<Rightarrow> u64 \<Rightarrow> bool \<Rightarrow> 'a ukernel_scheme \<Rightarrow> 'a ukernel_scheme kres" where
  "printint xx b sign s =
     (let neg = sign \<and> sint xx < 0;
          x = (if neg then - xx else xx)
      in rbind (printint_loop 20 x b) (\<lambda>buf.
         if neg \<and> length buf \<ge> 20 then Inl BadIndex
         else Inr (fold (\<lambda>c. consputc (uint c)) (rev (if neg then buf @ cstr ''-'' else buf)) s)))"

primrec printptr_loop :: "nat \<Rightarrow> u64 \<Rightarrow> 'a ukernel_scheme \<Rightarrow> 'a ukernel_scheme" where
  "printptr_loop 0 x s = s"
| "printptr_loop (Suc k) x s =
     printptr_loop k (push_bit 4 x) (consputc (uint (digits ! unat (drop_bit 60 x))) s)"

definition printptr :: "u64 \<Rightarrow> 'a ukernel_scheme \<Rightarrow> 'a ukernel_scheme" where
  "printptr x s = printptr_loop 16 x (fold (\<lambda>c. consputc (uint c)) (cstr ''0x'') s)"

section \<open>printf\<close>

datatype va = VNum u64 | VStr "u8 list option"

text \<open>What a conversion does: an integer of the given number of bits, with its base and sign, a pointer,
  a character, a string, the percent sign, the end of the format, or nothing known.\<close>

datatype conv = CvInt nat u64 bool | CvPtr | CvChar | CvStr | CvPercent | CvEnd | CvUnknown

text \<open>The chain of tests on the three bytes after the percent sign; the second component is how many bytes
  beyond the first the conversion takes.\<close>

definition conversion :: "u8 \<Rightarrow> u8 \<Rightarrow> u8 \<Rightarrow> conv \<times> nat" where
  "conversion c0 c1 c2 =
     (let d = of_char (CHR ''d''); l = of_char (CHR ''l''); u = of_char (CHR ''u''); x = of_char (CHR ''x'')
      in if c0 = d then (CvInt 32 10 True, 0)
         else if c0 = l \<and> c1 = d then (CvInt 64 10 True, 1)
         else if c0 = l \<and> c1 = l \<and> c2 = d then (CvInt 64 10 True, 2)
         else if c0 = u then (CvInt 32 10 False, 0)
         else if c0 = l \<and> c1 = u then (CvInt 64 10 False, 1)
         else if c0 = l \<and> c1 = l \<and> c2 = u then (CvInt 64 10 False, 2)
         else if c0 = x then (CvInt 32 16 False, 0)
         else if c0 = l \<and> c1 = x then (CvInt 64 16 False, 1)
         else if c0 = l \<and> c1 = l \<and> c2 = x then (CvInt 64 16 False, 2)
         else if c0 = of_char (CHR ''p'') then (CvPtr, 0)
         else if c0 = of_char (CHR ''c'') then (CvChar, 0)
         else if c0 = of_char (CHR ''s'') then (CvStr, 0)
         else if c0 = of_char (CHR ''%'') then (CvPercent, 0)
         else if c0 = 0 then (CvEnd, 0)
         else (CvUnknown, 0))"

definition fmt_at :: "u8 list \<Rightarrow> nat \<Rightarrow> u8" where
  "fmt_at fmt i = (if i < length fmt then fmt ! i else 0)"

definition conversion_at :: "u8 list \<Rightarrow> conv \<times> nat" where
  "conversion_at fmt =
     (let c0 = fmt_at fmt 0;
          c1 = (if c0 \<noteq> 0 then fmt_at fmt 1 else 0);
          c2 = (if c1 \<noteq> 0 then fmt_at fmt 2 else 0)
      in conversion c0 c1 c2)"

fun va_num :: "va list \<Rightarrow> (u64 \<times> va list) kres" where
  "va_num (VNum x # ap) = Inr (x, ap)"
| "va_num _ = Inl BadIndex"

fun va_str :: "va list \<Rightarrow> (u8 list option \<times> va list) kres" where
  "va_str (VStr x # ap) = Inr (x, ap)"
| "va_str _ = Inl BadIndex"

text \<open>The value of a slot read as an \<^verbatim>\<open>int\<close>, \<^verbatim>\<open>uint32\<close> or \<^verbatim>\<open>uint64\<close> and passed on as \<^verbatim>\<open>long long\<close>.\<close>

definition slot_as :: "nat \<Rightarrow> bool \<Rightarrow> u64 \<Rightarrow> u64" where
  "slot_as bits sign x =
     (if bits = 32 then (if sign then scast (ucast x :: u32) else ucast (ucast x :: u32)) else x)"

definition print_arg :: "conv \<Rightarrow> u8 \<Rightarrow> va list \<Rightarrow> 'a ukernel_scheme \<Rightarrow> (va list \<times> 'a ukernel_scheme) kres" where
  "print_arg cv c0 ap s = (case cv of
     CvInt bits b sign \<Rightarrow> rbind (va_num ap) (\<lambda>(x, ap). rbind (printint (slot_as bits sign x) b sign s) (\<lambda>s. Inr (ap, s)))
   | CvPtr \<Rightarrow> rbind (va_num ap) (\<lambda>(x, ap). Inr (ap, printptr x s))
   | CvChar \<Rightarrow> rbind (va_num ap) (\<lambda>(x, ap). Inr (ap, consputc (sint (ucast x :: u32)) s))
   | CvStr \<Rightarrow> rbind (va_str ap) (\<lambda>(p, ap).
       let str = (case p of None \<Rightarrow> cstr ''(null)'' | Some q \<Rightarrow> takeWhile (\<lambda>b. b \<noteq> 0) q)
       in Inr (ap, fold (\<lambda>c. consputc (uint c)) str s))
   | CvPercent \<Rightarrow> Inr (ap, consputc (of_char (CHR ''%'')) s)
   | CvEnd \<Rightarrow> Inr (ap, s)
   | CvUnknown \<Rightarrow> Inr (ap, consputc (uint c0) (consputc (of_char (CHR ''%'')) s)))"

function printf_loop :: "u8 list \<Rightarrow> va list \<Rightarrow> 'a ukernel_scheme \<Rightarrow> 'a ukernel_scheme kres" where
  "printf_loop [] ap s = Inr s"
| "printf_loop (cx # fmt) ap s =
     (if cx = 0 then Inr s
      else if cx \<noteq> of_char (CHR ''%'') then printf_loop fmt ap (consputc (uint cx) s)
      else case conversion_at fmt of (cv, extra) \<Rightarrow>
        if cv = CvEnd then Inr s
        else rbind (print_arg cv (fmt_at fmt 0) ap s) (\<lambda>(ap, s). printf_loop (drop (1 + extra) fmt) ap s))"
  by pat_completeness auto
termination
  by (relation "measure (\<lambda>(fmt, ap, s). length fmt)") auto

declare printf_loop.simps [simp del]

definition printf :: "string \<Rightarrow> va list \<Rightarrow> 'a ukernel_scheme \<Rightarrow> 'a ukernel_scheme kres" where
  "printf fmt ap s = printf_loop (cstr fmt) ap s"

text \<open>What \<^verbatim>\<open>panic\<close> prints before it stops.\<close>

definition panic_print :: "u8 list \<Rightarrow> 'a ukernel_scheme \<Rightarrow> 'a ukernel_scheme kres" where
  "panic_print msg s = rbind (printf ''panic: '' [] s) (printf (''%s'' @ [CHR 0x0A]) [VStr (Some msg)])"

section \<open>The process list\<close>

fun state_name :: "procstate \<Rightarrow> string" where
  "state_name UNUSED = ''unused''"
| "state_name USED = ''used''"
| "state_name SLEEPING = ''sleep ''"
| "state_name RUNNABLE = ''runble''"
| "state_name RUNNING = ''run   ''"
| "state_name ZOMBIE = ''zombie''"

definition procdump_one :: "nat \<Rightarrow> 'a ukernel_scheme \<Rightarrow> 'a ukernel_scheme kres" where
  "procdump_one i s =
     (let p = procs s ! i
      in if pstate p = UNUSED then Inr s
         else rbind (printf ''%d %s %s'' [VNum (word_of_int (pid p)), VStr (Some (cstr (state_name (pstate p)))), VStr (Some (pname p))] s)
           (printf [CHR 0x0A] []))"

definition procdump :: "'a ukernel_scheme \<Rightarrow> 'a ukernel_scheme kres" where
  "procdump s = rbind (printf [CHR 0x0A] [] s) (rfold procdump_one [0..<NPROC])"

end
