(* ===== verification/Console.thy ===== *)
theory Console
  imports Printf
begin

text \<open>
  The console (\<^verbatim>\<open>kernel/console.c\<close>): the line buffer between the receive interrupt and \<^verbatim>\<open>consoleread\<close>, and
  \<^verbatim>\<open>consolewrite\<close>; \<^verbatim>\<open>uartintr\<close> of \<^verbatim>\<open>kernel/uart.c\<close>, which feeds it.
\<close>

unbundle bit_operations_syntax

section \<open>State\<close>

definition INPUT_BUF_SIZE :: nat where "INPUT_BUF_SIZE = 128"
definition CONSOLE :: int where "CONSOLE = 1"

record cons =
  cbuf :: "u8 list"
  c_r :: u32
  c_w :: u32
  c_e :: u32

record tkernel = ukernel +
  cons_of :: cons

text \<open>The wait channel \<^verbatim>\<open>&cons.r\<close>.\<close>

abbreviation ConsChan :: kchan where "ConsChan \<equiv> ObjChan 1"

section \<open>read and write\<close>

function consolewrite_loop :: "bool \<Rightarrow> u64 \<Rightarrow> int \<Rightarrow> int \<Rightarrow> 'a tkernel_scheme \<Rightarrow> (int \<times> 'a tkernel_scheme) kres" where
  "consolewrite_loop user src n i s =
     (if i < n then
        let nn = min 32 (n - i)
        in rbind (either_copyin (cur s) user (src + word_of_int i) (nat nn) s) (\<lambda>((bs, ok), s).
           if \<not> ok then Inr (i, s) else rbind (uartwrite bs s) (\<lambda>s. consolewrite_loop user src n (i + nn) s))
      else Inr (i, s))"
  by pat_completeness auto
termination
  by (relation "measure (\<lambda>(user, src, n, i, s). nat (n - i))") auto

declare consolewrite_loop.simps [simp del]

definition consolewrite :: "bool \<Rightarrow> u64 \<Rightarrow> int \<Rightarrow> 'a tkernel_scheme \<Rightarrow> (int \<times> 'a tkernel_scheme) kres" where
  "consolewrite user src n s = consolewrite_loop user src n 0 s"

definition cons_upd :: "(cons \<Rightarrow> cons) \<Rightarrow> 'a tkernel_scheme \<Rightarrow> 'a tkernel_scheme" where
  "cons_upd f s = s\<lparr>cons_of := f (cons_of s)\<rparr>"

definition cons_at :: "cons \<Rightarrow> u32 \<Rightarrow> u8" where
  "cons_at c i = cbuf c ! unat (i mod of_nat INPUT_BUF_SIZE)"

text \<open>The loop of \<^verbatim>\<open>consoleread\<close> with \<open>n\<close> bytes to go; the result is the final \<open>n\<close>, or \<open>None\<close> for the return of
  a killed process. \<open>target\<close> is the number of bytes asked for.\<close>

primrec consoleread_loop :: "bool \<Rightarrow> nat \<Rightarrow> u64 \<Rightarrow> nat \<Rightarrow> 'a tkernel_scheme \<Rightarrow> (nat option \<times> 'a tkernel_scheme) kres" where
  "consoleread_loop user target dst 0 s = Inr (Some 0, s)"
| "consoleread_loop user target dst (Suc n) s =
     (if c_r (cons_of s) = c_w (cons_of s) then
        (if is_killed (cur s) s then Inr (None, s) else Inl WouldSleep)
      else
        let c = cons_at (cons_of s) (c_r (cons_of s));
            s = cons_upd (\<lambda>x. x\<lparr>c_r := c_r x + 1\<rparr>) s
        in if c = 4 then
             Inr (Some (Suc n), if Suc n < target then cons_upd (\<lambda>x. x\<lparr>c_r := c_r x - 1\<rparr>) s else s)
           else
             rbind (either_copyout (cur s) user dst [c] s) (\<lambda>(ok, s).
             if \<not> ok then Inr (Some (Suc n), s)
             else if c = 10 then Inr (Some n, s)
             else consoleread_loop user target (dst + 1) n s))"

definition consoleread :: "bool \<Rightarrow> u64 \<Rightarrow> int \<Rightarrow> 'a tkernel_scheme \<Rightarrow> (int \<times> 'a tkernel_scheme) kres" where
  "consoleread user dst n s =
     rbind (consoleread_loop user (nat n) dst (nat n) s) (\<lambda>(r, s).
     Inr (case r of None \<Rightarrow> - 1 | Some k \<Rightarrow> int (nat n) - int k, s))"

section \<open>Input\<close>

text \<open>The loop for control-U, at most as often as there are characters to delete.\<close>

primrec kill_line :: "nat \<Rightarrow> 'a tkernel_scheme \<Rightarrow> 'a tkernel_scheme kres" where
  "kill_line 0 s = Inl OutOfFuel"
| "kill_line (Suc k) s =
     (let c = cons_of s
      in if c_e c \<noteq> c_w c \<and> cons_at c (c_e c - 1) \<noteq> 10
         then kill_line k (consputc BACKSPACE (cons_upd (\<lambda>x. x\<lparr>c_e := c_e x - 1\<rparr>) s))
         else Inr s)"

definition cons_store :: "u8 \<Rightarrow> cons \<Rightarrow> cons" where
  "cons_store c x = x\<lparr>cbuf := (cbuf x)[unat (c_e x mod of_nat INPUT_BUF_SIZE) := c], c_e := c_e x + 1\<rparr>"

definition consoleintr :: "int \<Rightarrow> 'a tkernel_scheme \<Rightarrow> 'a tkernel_scheme kres" where
  "consoleintr c s =
     (if c = 16 then procdump s
      else if c = 21 then kill_line (Suc (unat (c_e (cons_of s) - c_w (cons_of s)))) s
      else if c = 8 \<or> c = 127 then
        Inr (if c_e (cons_of s) \<noteq> c_w (cons_of s)
             then consputc BACKSPACE (cons_upd (\<lambda>x. x\<lparr>c_e := c_e x - 1\<rparr>) s) else s)
      else if c \<noteq> 0 \<and> c_e (cons_of s) - c_r (cons_of s) < of_nat INPUT_BUF_SIZE then
        let c = (if c = 13 then 10 else c);
            s = consputc c s;
            s = cons_upd (cons_store (word_of_int c)) s
        in Inr (if c = 10 \<or> c = 4 \<or> c_e (cons_of s) - c_r (cons_of s) = of_nat INPUT_BUF_SIZE
                then wakeup (kver s) (Some (cur s)) ConsChan (cons_upd (\<lambda>x. x\<lparr>c_w := c_e x\<rparr>) s) else s)
      else Inr s)"

lemma uartgetc_shorter: "(c, rest) = uartgetc input \<Longrightarrow> c \<noteq> - 1 \<Longrightarrow> length rest < length input"
  by (cases input) auto

text \<open>The loop of \<^verbatim>\<open>uartintr\<close> over the characters that wait.\<close>

function uart_input :: "u8 list \<Rightarrow> 'a tkernel_scheme \<Rightarrow> 'a tkernel_scheme kres" where
  "uart_input input s =
     (case uartgetc input of (c, rest) \<Rightarrow>
        if c = - 1 then Inr s else rbind (consoleintr c s) (uart_input rest))"
  by pat_completeness auto
termination
  by (relation "measure (\<lambda>(input, s). length input)") (auto dest: uartgetc_shorter)

declare uart_input.simps [simp del]

text \<open>\<open>tx_idle\<close> is the transmitter's bit in the line status register.\<close>

definition uartintr :: "bool \<Rightarrow> u8 list \<Rightarrow> 'a tkernel_scheme \<Rightarrow> 'a tkernel_scheme kres" where
  "uartintr tx_idle input s =
     uart_input input (if tx_idle then wakeup (kver s) (Some (cur s)) TxChan (s\<lparr>tx_busy := False\<rparr>) else s)"

text \<open>\<^verbatim>\<open>consoleinit\<close>: the table \<^verbatim>\<open>devsw\<close> has one entry.\<close>

definition devsw_read :: "int \<Rightarrow> 'a tkernel_ext ukernel_ext devop option" where
  "devsw_read m = (if m = CONSOLE then Some (consoleread True) else None)"

definition devsw_write :: "int \<Rightarrow> 'a tkernel_ext ukernel_ext devop option" where
  "devsw_write m = (if m = CONSOLE then Some (consolewrite True) else None)"

end
