(* ===== verification/Syscall.thy ===== *)
theory Syscall
  imports Exec Console
begin

text \<open>
  \<^verbatim>\<open>kfork\<close>, \<^verbatim>\<open>kexit\<close> and \<^verbatim>\<open>userinit\<close> of \<^verbatim>\<open>kernel/proc.c\<close>, \<^verbatim>\<open>kernel/sysproc.c\<close>, the clock of \<^verbatim>\<open>kernel/trap.c\<close>, and the
  dispatcher of \<^verbatim>\<open>kernel/syscall.c\<close>. The padding of \<^verbatim>\<open>struct stat\<close> is an argument.
\<close>

record skernel = tkernel +
  ticks :: u32

section \<open>fork and exit\<close>

definition dup_fd :: "nat \<Rightarrow> nat \<Rightarrow> 'a fkernel_scheme \<Rightarrow> 'a fkernel_scheme kres" where
  "dup_fd np i s =
     (case ofile (me s) ! i of
        None \<Rightarrow> Inr s
      | Some f \<Rightarrow> rbind (filedup f s) (\<lambda>s. Inr (upd_proc np (\<lambda>q. q\<lparr>ofile := (ofile q)[i := Some f]\<rparr>) s)))"

definition kfork :: "'a fkernel_scheme \<Rightarrow> (int \<times> 'a fkernel_scheme) kres" where
  "kfork s =
     rbind (allocproc s) (\<lambda>(r, s). case r of
       None \<Rightarrow> Inr (- 1, s)
     | Some np \<Rightarrow>
         rbind (uvmcopy (pagetable (me s)) (pagetable (procs s ! np)) (sz (me s)) s) (\<lambda>(r, s).
         if r < 0 then rbind (freeproc np s) (\<lambda>s. Inr (- 1, s))
         else
           let s = upd_proc np (\<lambda>q. q\<lparr>sz := sz (me s)\<rparr>) s;
               tf = trapframe (procs s ! np);
               s = s\<lparr>mem := store_bytes (mem s) tf (load_bytes (mem s) (trapframe (me s)) 288)\<rparr>;
               s = s\<lparr>mem := store64 (mem s) (tf + 112) 0\<rparr>
           in rbind (rfold (dup_fd np) [0..<NOFILE] s) (\<lambda>s. case cwd (me s) of
                None \<Rightarrow> Inl BadIndex
              | Some ip \<Rightarrow>
                  let s = idup ip s;
                      s = upd_proc np (\<lambda>q. q\<lparr>cwd := Some ip, pname := set_name (pname q) (pname (me s)),
                            parent := Some (cur s), pstate := RUNNABLE\<rparr>) s
                  in Inr (pid (procs s ! np), s))))"

definition close_fd :: "nat \<Rightarrow> 'a fkernel_scheme \<Rightarrow> 'a fkernel_scheme kres" where
  "close_fd fd s =
     (case ofile (me s) ! fd of
        None \<Rightarrow> Inr s
      | Some f \<Rightarrow> rbind (fileclose f s) (\<lambda>s. Inr (set_fd fd None s)))"

text \<open>\<^verbatim>\<open>kexit\<close> up to the switch to the scheduler, from which it does not come back.\<close>

definition kexit :: "int \<Rightarrow> 'a fkernel_scheme \<Rightarrow> 'a fkernel_scheme kres" where
  "kexit status s =
     (if Some (cur s) = initproc s then Inl (Panic ''init exiting'')
      else
        rbind (rfold close_fd [0..<NOFILE] s) (\<lambda>s.
        rbind (begin_op s) (\<lambda>s. rbind (iput_ptr (cwd (me s)) s) (\<lambda>s. rbind (end_op s) (\<lambda>s.
        Inr (kexit_zombie (kver s) (cur s) status (upd_proc (cur s) (\<lambda>p. p\<lparr>cwd := None\<rparr>) s)))))))"

definition userinit :: "'a ikernel_scheme \<Rightarrow> 'a ikernel_scheme kres" where
  "userinit s =
     rbind (allocproc s) (\<lambda>(r, s).
     let s = s\<lparr>initproc := r\<rparr>
     in case r of
          None \<Rightarrow> Inl BadIndex
        | Some p \<Rightarrow>
            rbind (namei [SLASH] s) (\<lambda>(ip, s). Inr (upd_proc p (\<lambda>q. q\<lparr>cwd := ip, pstate := RUNNABLE\<rparr>) s)))"

section \<open>Process calls\<close>

definition SBRK_EAGER :: int where "SBRK_EAGER = 1"

definition sys_exit :: "'a fkernel_scheme \<Rightarrow> 'a fkernel_scheme kres" where
  "sys_exit s = rbind (argint 0 s) (\<lambda>n. kexit n s)"

definition sys_getpid :: "'a ckernel_scheme \<Rightarrow> int" where
  "sys_getpid s = pid (me s)"

definition sys_fork :: "'a fkernel_scheme \<Rightarrow> (int \<times> 'a fkernel_scheme) kres" where
  "sys_fork s = kfork s"

definition sys_wait :: "'a ckernel_scheme \<Rightarrow> (int \<times> 'a ckernel_scheme) kres" where
  "sys_wait s = rbind (argaddr 0 s) (\<lambda>p. rbind (kwait_scan (cur s) p s) (\<lambda>(w, s).
     case w of WaitRet n \<Rightarrow> Inr (n, s) | WaitSleep \<Rightarrow> Inl WouldSleep))"

definition sys_kill :: "'a ckernel_scheme \<Rightarrow> (int \<times> 'a ckernel_scheme) kres" where
  "sys_kill s = rbind (argint 0 s) (\<lambda>n. Inr (kkill n s))"

definition sys_sbrk :: "'a ckernel_scheme \<Rightarrow> (u64 \<times> 'a ckernel_scheme) kres" where
  "sys_sbrk s =
     rbind (argint 0 s) (\<lambda>n. rbind (argint 1 s) (\<lambda>t.
     let addr = sz (me s)
     in if t = SBRK_EAGER \<or> n < 0 then
          rbind (growproc (cur s) n s) (\<lambda>(r, s). Inr (if r < 0 then - 1 else addr, s))
        else if addr + word_of_int n < addr then Inr (- 1, s)
        else if addr + word_of_int n > TRAPFRAME then Inr (- 1, s)
        else Inr (addr, upd_proc (cur s) (\<lambda>p. p\<lparr>sz := sz p + word_of_int n\<rparr>) s)))"

text \<open>One turn of the loop of \<^verbatim>\<open>sys_pause\<close>: the value returned, or \<open>None\<close> when it sleeps on \<^verbatim>\<open>ticks\<close>.\<close>

definition pause_turn :: "u32 \<Rightarrow> int \<Rightarrow> 'a skernel_scheme \<Rightarrow> int option \<times> 'a skernel_scheme" where
  "pause_turn ticks0 n s =
     (if ticks s - ticks0 < word_of_int n then
        if is_killed (cur s) s then (Some (- 1), s)
        else (None, upd_proc (cur s) (sleep_on TicksChan) s)
      else (Some 0, s))"

definition sys_pause :: "'a skernel_scheme \<Rightarrow> (int \<times> 'a skernel_scheme) kres" where
  "sys_pause s = rbind (argint 0 s) (\<lambda>n.
     case pause_turn (ticks s) (if n < 0 then 0 else n) s of (None, s) \<Rightarrow> Inl WouldSleep | (Some r, s) \<Rightarrow> Inr (r, s))"

definition sys_uptime :: "'a skernel_scheme \<Rightarrow> u64" where
  "sys_uptime s = ucast (ticks s)"

text \<open>The part of \<^verbatim>\<open>clockintr\<close> that CPU 0 runs.\<close>

definition clockintr :: "'a skernel_scheme \<Rightarrow> 'a skernel_scheme" where
  "clockintr s = wakeup (kver s) (Some (cur s)) TicksChan (s\<lparr>ticks := ticks s + 1\<rparr>)"

section \<open>The dispatcher\<close>

datatype syscall_no =
  SYS_fork | SYS_exit | SYS_wait | SYS_pipe | SYS_read | SYS_kill | SYS_exec | SYS_fstat | SYS_chdir | SYS_dup
  | SYS_getpid | SYS_sbrk | SYS_pause | SYS_uptime | SYS_open | SYS_write | SYS_mknod | SYS_unlink | SYS_link
  | SYS_mkdir | SYS_close

definition syscalls :: "syscall_no list" where
  "syscalls = [SYS_fork, SYS_exit, SYS_wait, SYS_pipe, SYS_read, SYS_kill, SYS_exec, SYS_fstat, SYS_chdir, SYS_dup,
     SYS_getpid, SYS_sbrk, SYS_pause, SYS_uptime, SYS_open, SYS_write, SYS_mknod, SYS_unlink, SYS_link, SYS_mkdir, SYS_close]"

text \<open>The table starts at number 1.\<close>

definition syscall_at :: "int \<Rightarrow> syscall_no option" where
  "syscall_at n = (if n > 0 \<and> n < 22 then Some (syscalls ! nat (n - 1)) else None)"

abbreviation ret_int :: "(int \<times> 's) kres \<Rightarrow> (u64 option \<times> 's) kres" where
  "ret_int r \<equiv> rbind r (\<lambda>(v, s). Inr (Some (word_of_int v), s))"

text \<open>The handlers with the value they return; \<^verbatim>\<open>sys_exit\<close> does not return.\<close>

fun run_call :: "u8 list \<Rightarrow>
    syscall_no \<Rightarrow> 'a skernel_scheme \<Rightarrow> (u64 option \<times> 'a skernel_scheme) kres" where
  "run_call pad SYS_fork s = ret_int (sys_fork s)"
| "run_call pad SYS_exit s = rbind (sys_exit s) (\<lambda>s. Inr (None, s))"
| "run_call pad SYS_wait s = ret_int (sys_wait s)"
| "run_call pad SYS_pipe s = ret_int (sys_pipe s)"
| "run_call pad SYS_read s = ret_int (sys_read devsw_read s)"
| "run_call pad SYS_kill s = ret_int (sys_kill s)"
| "run_call pad SYS_exec s = ret_int (sys_exec s)"
| "run_call pad SYS_fstat s = ret_int (sys_fstat pad s)"
| "run_call pad SYS_chdir s = ret_int (sys_chdir s)"
| "run_call pad SYS_dup s = ret_int (sys_dup s)"
| "run_call pad SYS_getpid s = Inr (Some (word_of_int (sys_getpid s)), s)"
| "run_call pad SYS_sbrk s = rbind (sys_sbrk s) (\<lambda>(v, s). Inr (Some v, s))"
| "run_call pad SYS_pause s = ret_int (sys_pause s)"
| "run_call pad SYS_uptime s = Inr (Some (sys_uptime s), s)"
| "run_call pad SYS_open s = ret_int (sys_open s)"
| "run_call pad SYS_write s = ret_int (sys_write devsw_write s)"
| "run_call pad SYS_mknod s = ret_int (sys_mknod s)"
| "run_call pad SYS_unlink s = ret_int (sys_unlink s)"
| "run_call pad SYS_link s = ret_int (sys_link s)"
| "run_call pad SYS_mkdir s = ret_int (sys_mkdir s)"
| "run_call pad SYS_close s = ret_int (sys_close s)"

definition syscall :: "u8 list \<Rightarrow>
    'a skernel_scheme \<Rightarrow> 'a skernel_scheme kres" where
  "syscall pad s =
     (case syscall_at (sint (ucast (load64 (mem s) (trapframe (me s) + 168)) :: u32)) of
        None \<Rightarrow> Inr (tf_store 112 (- 1) s)
      | Some c \<Rightarrow> rbind (run_call pad c s) (\<lambda>(v, s).
          Inr (case v of None \<Rightarrow> s | Some v \<Rightarrow> tf_store 112 v s)))"

end
