(* ===== verification/Fd_Frame.thy ===== *)
theory Fd_Frame
  imports Syscall
begin

text \<open>
  What the file system and the memory operations leave alone: the file table, the pipes and the
  descriptor tables of the processes. Every operation below the files keeps this view of the
  state, however it ends.
\<close>

definition idle :: "proc \<Rightarrow> bool" where
  "idle p \<longleftrightarrow> pstate p = UNUSED \<or> pstate p = ZOMBIE"

definition pview :: "proc \<Rightarrow> nat option list \<times> bool" where
  "pview p = (ofile p, idle p)"

definition fview :: "'a fkernel_scheme \<Rightarrow>
    kfile list \<times> (u64 \<rightharpoonup> anypipe) \<times> (nat option list \<times> bool) list \<times> nat \<times> nat" where
  "fview s = (ftable s, pipes s, map pview (procs s), cur s, kver s)"

named_theorems keeps

section \<open>Updates\<close>

lemma fview_upd [simp]:
  "fview (s\<lparr>mem := m\<rparr>) = fview s" "fview (s\<lparr>freelist := fl\<rparr>) = fview s" "fview (s\<lparr>nextpid := n\<rparr>) = fview s"
  "fview (s\<lparr>halted := h\<rparr>) = fview s" "fview (s\<lparr>initproc := i\<rparr>) = fview s"
  "fview (s\<lparr>bufs_of := bs\<rparr>) = fview s" "fview (s\<lparr>disk := d\<rparr>) = fview s" "fview (s\<lparr>dwrites := w\<rparr>) = fview s"
  "fview (s\<lparr>outstanding := z\<rparr>) = fview s" "fview (s\<lparr>committing := c\<rparr>) = fview s"
  "fview (s\<lparr>lh_n := z\<rparr>) = fview s" "fview (s\<lparr>lh_block := hb\<rparr>) = fview s"
  "fview (s\<lparr>sb := x\<rparr>) = fview s" "fview (s\<lparr>inodes := is\<rparr>) = fview s"
  by (simp_all add: fview_def)

lemma fview_upd_table [simp]:
  "fview (upd_buf b f s) = fview s" "fview (upd_inode ip g s) = fview s" "fview (upd_buf_lk b h s) = fview s"
  "fview (upd_ilk ip h s) = fview s" "fview (set_bdata b d s) = fview s" "fview (bpin b s) = fview s"
  "fview (bunpin b s) = fview s" "fview (idup ip s) = fview s" "fview (tf_store k v s) = fview s"
  by (simp_all add: upd_buf_def upd_inode_def upd_buf_lk_def upd_ilk_def set_bdata_def bpin_def bunpin_def idup_def
      tf_store_def)

lemma map_list_update_same: "f x = f (xs ! i) \<Longrightarrow> map f (xs[i := x]) = map f xs"
  by (metis list_update_id map_update)

lemma fview_upd_proc: "(\<And>p. pview (f p) = pview p) \<Longrightarrow> fview (upd_proc i f s) = fview s"
  by (simp add: fview_def upd_proc_def map_list_update_same)

lemma pview_wake_proc [simp]: "pview (wake_proc v c p) = pview p"
  by (auto simp: pview_def wake_proc_def idle_def Let_def)

lemma pview_wakeup: "map pview (wakeup_procs v x c ps) = map pview ps"
  by (rule nth_equalityI) (auto simp: wakeup_procs_def)

lemma fview_wakeup [simp]: "fview (wakeup v p c s) = fview s"
  by (simp add: fview_def wakeup_def pview_wakeup)

lemma fview_mframe: "mframe s s' \<Longrightarrow> fview s' = fview s"
  by (auto simp: mframe_def fview_def)

section \<open>Locks, buffers and the log\<close>

lemma fview_list [simp]: "fview (list_push b s) = fview s" "fview (list_unlink b s) = fview s"
  by (simp_all add: list_push_def list_unlink_def Let_def)

lemma fview_acquiresleep [keeps]:
  "acquiresleep lk upd s = Inr s' \<Longrightarrow> (\<And>f s. fview (upd f s) = fview s) \<Longrightarrow> fview s' = fview s"
  by (auto simp: acquiresleep_def split: if_splits)

lemma fview_releasesleep [simp]:
  "fview (releasesleep c (upd_buf_lk b) s) = fview s" "fview (releasesleep c (upd_ilk ip) s) = fview s"
  by (simp_all add: releasesleep_def)

lemma fview_lock_buf [keeps]: "lock_buf b s = Inr (b', s') \<Longrightarrow> fview s' = fview s"
  by (auto simp: lock_buf_def rbind_eq_Inr dest!: fview_acquiresleep)

lemma fview_bget [keeps]: "bget dev bn s = Inr (b, s') \<Longrightarrow> fview s' = fview s"
  by (auto simp: bget_def rbind_eq_Inr split: option.splits dest!: keeps)

lemma fview_bread [keeps]: "bread dev bn s = Inr (b, s') \<Longrightarrow> fview s' = fview s"
  by (auto simp: bread_def disk_read_def rbind_eq_Inr split: if_splits dest!: keeps)

lemma fview_bwrite [keeps]: "bwrite b s = Inr s' \<Longrightarrow> fview s' = fview s"
  by (auto simp: bwrite_def disk_write_def Let_def split: if_splits)

lemma fview_brelse [keeps]: "brelse b s = Inr s' \<Longrightarrow> fview s' = fview s"
  by (auto simp: brelse_def Let_def split: if_splits)

lemma fview_rfold [keeps]:
  "rfold f is s = Inr s' \<Longrightarrow> (\<And>i s s'. f i s = Inr s' \<Longrightarrow> fview s' = fview s) \<Longrightarrow> fview s' = fview s"
  by (induction "is" arbitrary: s) (auto simp: rbind_eq_Inr)

lemma fview_write_head [keeps]: "write_head s = Inr s' \<Longrightarrow> fview s' = fview s"
  by (auto simp: write_head_def rbind_eq_Inr Let_def dest!: keeps)

lemma fview_write_log_one [keeps]: "write_log_one t s = Inr s' \<Longrightarrow> fview s' = fview s"
  by (auto simp: write_log_one_def rbind_eq_Inr dest!: keeps)

lemma fview_install_one [keeps]: "install_one r t s = Inr s' \<Longrightarrow> fview s' = fview s"
  by (auto simp: install_one_def rbind_eq_Inr Let_def split: if_splits dest!: keeps)

lemma fview_commit [keeps]: "commit s = Inr s' \<Longrightarrow> fview s' = fview s"
  by (auto simp: commit_def write_log_def install_trans_def rbind_eq_Inr split: if_splits dest!: keeps)

lemma fview_begin_op [keeps]: "begin_op s = Inr s' \<Longrightarrow> fview s' = fview s"
  by (auto simp: begin_op_def split: if_splits)

lemma fview_end_op [keeps]: "end_op s = Inr s' \<Longrightarrow> fview s' = fview s"
  by (auto simp: end_op_def Let_def rbind_eq_Inr split: if_splits dest!: keeps)

lemma fview_log_write [keeps]: "log_write b s = Inr s' \<Longrightarrow> fview s' = fview s"
  by (auto simp: log_write_def Let_def split: if_splits)

section \<open>Copies\<close>

lemma fview_copyin [keeps]: "copyin a b c d n s = Inr (r, s') \<Longrightarrow> fview s' = fview s"
  unfolding copyin_def by (rule fview_mframe [OF mframe_copyin_loop])

lemma fview_copyout [keeps]: "copyout a b c d bs s = Inr (r, s') \<Longrightarrow> fview s' = fview s"
  by (rule fview_mframe [OF mframe_copyout])

lemma fview_put_out [keeps]: "put_out dst k src s = Inr (ok, s') \<Longrightarrow> fview s' = fview s"
  by (auto simp: put_out_def either_copyout_def Let_def split: iodst.splits dest!: keeps)

lemma fview_get_in [keeps]: "get_in src k m s = Inr (r, s') \<Longrightarrow> fview s' = fview s"
  by (auto simp: get_in_def either_copyin_def Let_def split: iosrc.splits dest!: keeps)

section \<open>The file system\<close>

lemma fview_bzero [keeps]: "bzero dev bn s = Inr s' \<Longrightarrow> fview s' = fview s"
  by (auto simp: bzero_def rbind_eq_Inr dest!: keeps)

lemma fview_balloc_over [keeps]: "balloc_over dev bs s = Inr (b, s') \<Longrightarrow> fview s' = fview s"
  by (induction bs arbitrary: s) (auto simp: rbind_eq_Inr split: option.splits dest!: keeps)

lemma fview_bfree [keeps]: "bfree dev b s = Inr s' \<Longrightarrow> fview s' = fview s"
  by (auto simp: bfree_def rbind_eq_Inr Let_def split: if_splits dest!: keeps)

lemma fview_iget [keeps]: "iget dev i s = Inr (ip, s') \<Longrightarrow> fview s' = fview s"
  by (auto simp: iget_def split: option.splits)

lemma fview_ialloc_over [keeps]: "ialloc_over dev ty is s = Inr (r, s') \<Longrightarrow> fview s' = fview s"
proof (induction "is" arbitrary: s)
  case (Cons i "is")
  obtain bp s1 where b: "bread dev (IBLOCK i (sb s)) s = Inr (bp, s1)"
    using Cons.prems by (auto simp: rbind_eq_Inr)
  show ?case
  proof (cases "d_type (get_dinode (bdata (buf_at s1 bp)) (i mod IPB)) = 0")
    case True
    then show ?thesis using Cons.prems b by (simp add: Let_def) (auto simp: rbind_eq_Inr dest!: keeps)
  next
    case False
    then obtain s2 where "brelse bp s1 = Inr s2" "ialloc_over dev ty is s2 = Inr (r, s')"
      using Cons.prems b by (auto simp: Let_def rbind_eq_Inr)
    then show ?thesis using Cons.IH b by (auto dest!: keeps)
  qed
qed simp

lemma fview_iupdate [keeps]: "iupdate ip s = Inr s' \<Longrightarrow> fview s' = fview s"
  by (auto simp: iupdate_def rbind_eq_Inr Let_def dest!: keeps)

lemma fview_ilock [keeps]: "ilock p s = Inr s' \<Longrightarrow> fview s' = fview s"
  by (auto simp: ilock_def rbind_eq_Inr Let_def split: option.splits if_splits dest!: keeps)

lemma fview_iunlock [keeps]: "iunlock p s = Inr s' \<Longrightarrow> fview s' = fview s"
  by (auto simp: iunlock_def split: option.splits if_splits)

lemma fview_bmap [keeps]: "bmap ip bn s = Inr (a, s') \<Longrightarrow> fview s' = fview s"
  by (auto simp: bmap_def balloc_def rbind_eq_Inr Let_def split: if_splits dest!: keeps)

lemma fview_trunc [keeps]:
  "trunc_direct ip i s = Inr s' \<Longrightarrow> fview s' = fview s"
  "trunc_indirect ip b i s = Inr s' \<Longrightarrow> fview s' = fview s"
  by (auto simp: trunc_direct_def trunc_indirect_def rbind_eq_Inr Let_def split: if_splits dest!: keeps)

lemma fview_itrunc [keeps]: "itrunc ip s = Inr s' \<Longrightarrow> fview s' = fview s"
  by (auto simp: itrunc_def rbind_eq_Inr split: if_splits dest!: keeps)

lemma fview_iput [keeps]: "iput ip s = Inr s' \<Longrightarrow> fview s' = fview s"
  by (auto simp: iput_def rbind_eq_Inr split: if_splits dest!: keeps)

lemma fview_iput_ptr [keeps]: "iput_ptr p s = Inr s' \<Longrightarrow> fview s' = fview s"
  by (auto simp: iput_ptr_def split: option.splits dest!: keeps)

lemma fview_iunlockput [keeps]: "iunlockput ip s = Inr s' \<Longrightarrow> fview s' = fview s"
  by (auto simp: iunlockput_def rbind_eq_Inr dest!: keeps)

lemma fview_readi_loop [keeps]: "readi_loop ip dst off n k acc s = Inr (r, s') \<Longrightarrow> fview s' = fview s"
proof (induction "n - k" arbitrary: off k acc s rule: less_induct)
  case less
  have IH: "readi_loop ip dst off' n (k + chunk off n k) acc' t = Inr (r, s') \<Longrightarrow> k < n \<Longrightarrow> fview s' = fview t" for off' acc' t
    by (rule less.hyps) (use chunk_pos [of k n off] in \<open>simp_all\<close>)
  from less.prems show ?case
    by (subst (asm) readi_loop.simps)
      (auto simp: rbind_eq_Inr Let_def split: if_splits dest!: keeps dest: IH)
qed

lemma fview_writei_loop [keeps]: "writei_loop ip src off n k s = Inr (r, s') \<Longrightarrow> fview s' = fview s"
proof (induction "n - k" arbitrary: off k s rule: less_induct)
  case less
  have IH: "writei_loop ip src off' n (k + chunk off n k) t = Inr (r, s') \<Longrightarrow> k < n \<Longrightarrow> fview s' = fview t" for off' t
    by (rule less.hyps) (use chunk_pos [of k n off] in \<open>simp_all\<close>)
  from less.prems show ?case
    by (subst (asm) writei_loop.simps)
      (auto simp: rbind_eq_Inr Let_def split: if_splits dest!: keeps dest: IH)
qed

lemma fview_readi [keeps]: "readi ip dst off n s = Inr (r, s') \<Longrightarrow> fview s' = fview s"
  by (auto simp: readi_def Let_def split: if_splits dest!: keeps)

lemma fview_writei [keeps]: "writei ip src off n s = Inr (r, s') \<Longrightarrow> fview s' = fview s"
  by (auto simp: writei_def Let_def rbind_eq_Inr split: if_splits dest!: keeps)

lemma fview_dirlookup_over [keeps]: "dirlookup_over dp name offs s = Inr (r, s') \<Longrightarrow> fview s' = fview s"
  by (induction offs arbitrary: s) (auto simp: rbind_eq_Inr split: if_splits dest!: keeps)

lemma fview_dirlookup [keeps]: "dirlookup dp name s = Inr (r, s') \<Longrightarrow> fview s' = fview s"
  by (auto simp: dirlookup_def split: if_splits dest!: keeps)

lemma fview_empty_over [keeps]: "empty_over dp offs s = Inr (r, s') \<Longrightarrow> fview s' = fview s"
  by (induction offs arbitrary: s) (auto simp: rbind_eq_Inr split: if_splits dest!: keeps)

lemma fview_dirlink [keeps]: "dirlink dp name i s = Inr (r, s') \<Longrightarrow> fview s' = fview s"
  by (auto simp: dirlink_def Let_def rbind_eq_Inr split: option.splits if_splits dest!: keeps)

lemma fview_namex_loop [keeps]: "namex_loop nip path name ip s = Inr (r, s') \<Longrightarrow> fview s' = fview s"
proof (induction "length path" arbitrary: nip path name ip s rule: less_induct)
  case less
  have IH: "fview s' = fview t" if "skipelem path = Some (name', rest)" "namex_loop nip' rest name' ip' t = Inr (r, s')"
    for nip' rest name' ip' t
    using less.hyps [OF skipelem_shorter [OF that(1)] that(2)] .
  have "namex_loop nip path name ip s = Inr (r, s')" by (rule less.prems)
  then show ?case
    unfolding namex_loop.simps [of nip path]
    by (auto simp: rbind_eq_Inr split: option.splits if_splits dest!: keeps) (metis IH)+
qed

lemma fview_namex [keeps]: "namex path nip s = Inr (r, s') \<Longrightarrow> fview s' = fview s"
  by (auto simp: namex_def rbind_eq_Inr split: option.splits if_splits dest!: keeps)

lemma fview_namei [keeps]: "namei path s = Inr (r, s') \<Longrightarrow> fview s' = fview s"
  by (auto simp: namei_def rbind_eq_Inr dest!: keeps)

lemma fview_nameiparent [keeps]: "nameiparent path s = Inr (r, s') \<Longrightarrow> fview s' = fview s"
  by (auto simp: nameiparent_def dest!: keeps)

section \<open>Calls on paths\<close>

lemma fview_end_ret [keeps]: "end_ret v s = Inr (r, s') \<Longrightarrow> fview s' = fview s"
  by (auto simp: end_ret_def rbind_eq_Inr dest!: keeps)

lemma fview_unlockput_end [keeps]: "unlockput_end ip v s = Inr (r, s') \<Longrightarrow> fview s' = fview s"
  by (auto simp: unlockput_end_def rbind_eq_Inr dest!: keeps)

lemma fview_link_bad [keeps]: "link_bad ip s = Inr (r, s') \<Longrightarrow> fview s' = fview s"
  by (auto simp: link_bad_def rbind_eq_Inr dest!: keeps)

lemma fview_link_at [keeps]: "link_at ip new s = Inr (r, s') \<Longrightarrow> fview s' = fview s"
  by (auto simp: link_at_def rbind_eq_Inr split: option.splits if_splits dest!: keeps)

lemma fview_sys_link [keeps]: "sys_link s = Inr (r, s') \<Longrightarrow> fview s' = fview s"
  by (auto simp: sys_link_def rbind_eq_Inr split: option.splits if_splits dest!: keeps)

lemma fview_isdirempty_over [keeps]: "isdirempty_over dp offs s = Inr (r, s') \<Longrightarrow> fview s' = fview s"
  by (induction offs arbitrary: s) (auto simp: rbind_eq_Inr split: if_splits dest!: keeps)

lemma fview_unlink_entry [keeps]: "unlink_entry dp ip off s = Inr (r, s') \<Longrightarrow> fview s' = fview s"
  by (auto simp: unlink_entry_def rbind_eq_Inr split: if_splits dest!: keeps)

lemma fview_sys_unlink [keeps]: "sys_unlink s = Inr (r, s') \<Longrightarrow> fview s' = fview s"
  by (auto simp: sys_unlink_def isdirempty_def rbind_eq_Inr split: option.splits if_splits dest!: keeps)

lemma fview_create_fail [keeps]: "create_fail dp ip s = Inr (r, s') \<Longrightarrow> fview s' = fview s"
  by (auto simp: create_fail_def rbind_eq_Inr dest!: keeps)

lemma fview_create_dots [keeps]: "create_dots dp ip ty s = Inr (r, s') \<Longrightarrow> fview s' = fview s"
  by (auto simp: create_dots_def rbind_eq_Inr split: if_splits dest!: keeps)

lemma fview_create_link [keeps]: "create_link dp ip name ty s = Inr (r, s') \<Longrightarrow> fview s' = fview s"
  by (auto simp: create_link_def rbind_eq_Inr split: if_splits dest!: keeps)

lemma fview_create_new [keeps]: "create_new dp ip name ty mj mn s = Inr (r, s') \<Longrightarrow> fview s' = fview s"
  by (auto simp: create_new_def rbind_eq_Inr split: if_splits dest!: keeps)

lemma fview_create [keeps]: "create path ty mj mn s = Inr (r, s') \<Longrightarrow> fview s' = fview s"
  by (auto simp: create_def ialloc_def rbind_eq_Inr split: option.splits if_splits dest!: keeps)

lemma fview_make_node [keeps]: "make_node path ty mj mn s = Inr (r, s') \<Longrightarrow> fview s' = fview s"
  by (auto simp: make_node_def rbind_eq_Inr split: option.splits dest!: keeps)

lemma fview_sys_mkdir [keeps]: "sys_mkdir s = Inr (r, s') \<Longrightarrow> fview s' = fview s"
  by (auto simp: sys_mkdir_def rbind_eq_Inr dest!: keeps)

lemma fview_sys_mknod [keeps]: "sys_mknod s = Inr (r, s') \<Longrightarrow> fview s' = fview s"
  by (auto simp: sys_mknod_def rbind_eq_Inr dest!: keeps)

lemma fview_set_cwd [simp]: "fview (upd_proc i (\<lambda>p. p\<lparr>cwd := c\<rparr>) s) = fview s"
  by (simp add: fview_upd_proc pview_def idle_def)

lemma fview_sys_chdir [keeps]: "sys_chdir s = Inr (r, s') \<Longrightarrow> fview s' = fview s"
  by (auto simp: sys_chdir_def rbind_eq_Inr split: option.splits if_splits dest!: keeps)

section \<open>Page tables\<close>

lemma fview_kalloc [keeps]: "kalloc s = (p, s') \<Longrightarrow> fview s' = fview s"
  by (rule fview_mframe [OF mframe_kalloc])

lemma fview_kfree [keeps]: "kfree p s = Inr s' \<Longrightarrow> fview s' = fview s"
  by (rule fview_mframe [OF mframe_kfree])

lemma fview_walk [keeps]: "walk pt va al s = Inr (q, s') \<Longrightarrow> fview s' = fview s"
  by (rule fview_mframe [OF mframe_walk])

lemma fview_mappages [keeps]: "mappages pt va z pa perm s = Inr (r, s') \<Longrightarrow> fview s' = fview s"
  by (rule fview_mframe [OF mframe_mappages])

lemma fview_uvmunmap_page [keeps]: "uvmunmap_page pt fr a s = Inr s' \<Longrightarrow> fview s' = fview s"
  by (auto simp: uvmunmap_page_def rbind_eq_Inr split: if_splits dest!: keeps)

lemma fview_uvmunmap_loop [keeps]: "uvmunmap_loop k pt fr a stop s = Inr s' \<Longrightarrow> fview s' = fview s"
  by (induction k arbitrary: a s) (auto simp: rbind_eq_Inr split: if_splits dest!: keeps)

lemma fview_uvmunmap [keeps]: "uvmunmap pt va n fr s = Inr s' \<Longrightarrow> fview s' = fview s"
  by (auto simp: uvmunmap_def split: if_splits dest!: keeps)

lemma fview_uvmdealloc [keeps]: "uvmdealloc pt z z' s = Inr (r, s') \<Longrightarrow> fview s' = fview s"
  by (auto simp: uvmdealloc_def Let_def rbind_eq_Inr split: if_splits dest!: keeps)

lemma fview_uvmalloc_loop [keeps]: "uvmalloc_loop k pt a z z' x s = Inr (r, s') \<Longrightarrow> fview s' = fview s"
  by (induction k arbitrary: a s) (auto simp: rbind_eq_Inr split: if_splits prod.splits dest!: keeps)

lemma fview_uvmalloc [keeps]: "uvmalloc pt z z' x s = Inr (r, s') \<Longrightarrow> fview s' = fview s"
  by (auto simp: uvmalloc_def Let_def simp del: uvmalloc_loop.simps split: if_splits dest!: keeps)

lemma fview_freewalk [keeps]: "freewalk d pt s = Inr s' \<Longrightarrow> fview s' = fview s"
proof (induction d arbitrary: pt s s')
  case (Suc d)
  then obtain s1 where s1: "rfold (\<lambda>i s.
        let pte = load64 (mem s) (pt + 8 * of_nat i)
        in if pte_has pte PTE_V \<and> pte AND (PTE_R OR PTE_W OR PTE_X) = 0 then
             rbind (freewalk d (PTE2PA pte) s)
               (\<lambda>s. Inr (s\<lparr>mem := store64 (mem s) (pt + 8 * of_nat i) 0\<rparr>))
           else if pte_has pte PTE_V then Inl (Panic ''freewalk: leaf'')
           else Inr s) [0..<512] s = Inr s1" "kfree pt s1 = Inr s'"
    by (auto simp: rbind_eq_Inr simp del: upt_rec_numeral)
  have "fview s1 = fview s"
    by (rule fview_rfold [OF s1(1)]) (auto simp: Let_def rbind_eq_Inr split: if_splits dest: Suc.IH)
  then show ?case using s1(2) by (auto dest!: keeps)
qed simp

lemma fview_proc_freepagetable [keeps]: "proc_freepagetable pt z s = Inr s' \<Longrightarrow> fview s' = fview s"
  by (auto simp: proc_freepagetable_def uvmfree_def rbind_eq_Inr split: if_splits dest!: keeps)

lemma fview_proc_pagetable [keeps]: "proc_pagetable tf s = Inr (r, s') \<Longrightarrow> fview s' = fview s"
  by (auto simp: proc_pagetable_def uvmcreate_def uvmfree_def rbind_eq_Inr split: if_splits prod.splits dest!: keeps)

lemma fview_uvmcopy_loop [keeps]: "uvmcopy_loop k old new i z s = Inr (r, s') \<Longrightarrow> fview s' = fview s"
proof (induction k arbitrary: i s)
  case (Suc k)
  show ?case
  proof (cases "i < z")
    case True
    then obtain q s1 where w: "walk old i False s = Inr (q, s1)" using Suc.prems by (auto simp: rbind_eq_Inr)
    obtain pg s2 where k: "kalloc s1 = (pg, s2)" by fastforce
    show ?thesis
    proof (cases "q = 0 \<or> \<not> pte_has (load64 (mem s1) q) PTE_V \<or> pg = 0")
      case c: True
      then show ?thesis
        using Suc.prems True w k by (auto simp: Let_def rbind_eq_Inr split: if_splits dest!: keeps Suc.IH)
    next
      case c: False
      then show ?thesis
        using Suc.prems True w k by (simp add: Let_def) (auto simp: rbind_eq_Inr split: if_splits dest!: keeps Suc.IH)
    qed
  qed (use Suc.prems in simp)
qed (simp split: if_splits)

lemma fview_uvmcopy [keeps]: "uvmcopy old new z s = Inr (r, s') \<Longrightarrow> fview s' = fview s"
  unfolding uvmcopy_def by (rule fview_uvmcopy_loop)

lemma fview_uvmclear [keeps]: "uvmclear pt va s = Inr s' \<Longrightarrow> fview s' = fview s"
  by (auto simp: uvmclear_def rbind_eq_Inr split: if_splits dest!: keeps)

lemma fview_set_sz [simp]: "fview (upd_proc i (\<lambda>p. p\<lparr>sz := f p\<rparr>) s) = fview s"
  by (simp add: fview_upd_proc pview_def idle_def)

lemma fview_growproc [keeps]: "growproc i n s = Inr (r, s') \<Longrightarrow> fview s' = fview s"
  by (auto simp: growproc_def Let_def rbind_eq_Inr split: if_splits dest!: keeps)

lemma fview_sys_sbrk [keeps]: "sys_sbrk s = Inr (r, s') \<Longrightarrow> fview s' = fview s"
  by (auto simp: sys_sbrk_def Let_def rbind_eq_Inr split: if_splits dest!: keeps)

section \<open>exec\<close>

lemma fview_loadseg_over [keeps]: "loadseg_over pt va ip off z is s = Inr (r, s') \<Longrightarrow> fview s' = fview s"
  by (induction "is" arbitrary: s) (auto simp: Let_def rbind_eq_Inr split: if_splits dest!: keeps)

lemma fview_load_program [keeps]: "load_program k pt ip off z s = Inr (r, s') \<Longrightarrow> fview s' = fview s"
  by (induction k arbitrary: off z s) (auto simp: Let_def loadseg_def rbind_eq_Inr split: if_splits dest!: keeps)

lemma fview_push_args [keeps]: "push_args pt b argv sp us s = Inr (r, s') \<Longrightarrow> fview s' = fview s"
  by (induction argv arbitrary: sp us s)
    (auto simp: Let_def copyout_to_def rbind_eq_Inr split: if_splits option.splits dest!: keeps)

lemma fview_exec_bad [keeps]: "exec_bad pt z ip s = Inr (r, s') \<Longrightarrow> fview s' = fview s"
  by (auto simp: exec_bad_def rbind_eq_Inr split: if_splits option.splits dest!: keeps)

lemma fview_exec_commit [keeps]: "exec_commit path pt z e sp n s = Inr (r, s') \<Longrightarrow> fview s' = fview s"
  by (auto simp: exec_commit_def Let_def rbind_eq_Inr fview_upd_proc pview_def idle_def dest!: keeps)

lemma fview_exec_stack [keeps]: "exec_stack path argv pt z e s = Inr (r, s') \<Longrightarrow> fview s' = fview s"
  by (auto simp: exec_stack_def copyout_to_def Let_def rbind_eq_Inr split: if_splits dest!: keeps)

lemma fview_kexec [keeps]: "kexec path argv s = Inr (r, s') \<Longrightarrow> fview s' = fview s"
  by (auto simp: kexec_def Let_def rbind_eq_Inr split: if_splits option.splits dest!: keeps)

lemma fview_fetchaddr [keeps]: "fetchaddr a s = Inr (r, s') \<Longrightarrow> fview s' = fview s"
  by (auto simp: fetchaddr_def Let_def rbind_eq_Inr split: if_splits dest!: keeps)

lemma fview_fetch_args [keeps]: "fetch_args k u argv s = Inr (r, s') \<Longrightarrow> fview s' = fview s"
proof (induction k arbitrary: argv s)
  case (Suc k)
  then obtain a s1 where f: "fetchaddr (u + 8 * of_nat (length argv)) s = Inr (a, s1)" by (auto simp: rbind_eq_Inr)
  obtain pg s2 where k: "kalloc s1 = (pg, s2)" by fastforce
  obtain bs str where g: "fetchstr (the a) PGSIZE s2 = (bs, str)" by fastforce
  show ?case
    using Suc.prems f k g by (auto simp: Let_def split: option.splits if_splits dest!: keeps Suc.IH)
qed simp

lemma fview_sys_exec [keeps]: "sys_exec s = Inr (r, s') \<Longrightarrow> fview s' = fview s"
  by (auto simp: sys_exec_def rbind_eq_Inr split: if_splits option.splits dest!: keeps)

end
