(* ===== verification/Fd_Inv.thy ===== *)
theory Fd_Inv
  imports Fd_Frame
begin

text \<open>
  Descriptors and reference counts. \<open>fd_ok e\<close> says that every count in the file table is the number of
  descriptors for the file plus \<open>e\<close>: the references that the code holds in local variables at
  that point of an operation. Between system calls \<open>e\<close> is zero.
\<close>

section \<open>The view\<close>

type_synonym fdview = "kfile list \<times> (nat option list \<times> bool) list"

definition dview :: "'a fkernel_scheme \<Rightarrow> fdview" where
  "dview s = (ftable s, map pview (procs s))"

lemma dview_fview: "fview s' = fview s \<Longrightarrow> dview s' = dview s"
  by (simp add: fview_def dview_def)

definition fd_count :: "(nat option list \<times> bool) list \<Rightarrow> nat \<Rightarrow> nat" where
  "fd_count ps f = sum_list (map (\<lambda>p. count_list (fst p) (Some f)) ps)"

definition slot_ok :: "nat option list \<times> bool \<Rightarrow> bool" where
  "slot_ok p \<longleftrightarrow> length (fst p) = NOFILE \<and> (\<forall>f. Some f \<in> set (fst p) \<longrightarrow> f < NFILE) \<and> (snd p \<longrightarrow> set (fst p) \<subseteq> {None})"

definition fd_ok :: "(nat \<Rightarrow> int) \<Rightarrow> fdview \<Rightarrow> bool" where
  "fd_ok e = (\<lambda>(fs, ps). length fs = NFILE \<and> (\<forall>p \<in> set ps. slot_ok p) \<and>
     (\<forall>f < NFILE. f_ref (fs ! f) = int (fd_count ps f) + e f \<and> (f_ref (fs ! f) = 0 \<longrightarrow> f_type (fs ! f) = FD_NONE)))"

abbreviation one :: "nat \<Rightarrow> nat \<Rightarrow> int" where
  "one f x \<equiv> (if x = f then 1 else 0)"

section \<open>Changes of the view\<close>

lemma sum_list_map_update:
  "i < length xs \<Longrightarrow> int (sum_list (map g (xs[i := x]))) = int (sum_list (map g xs)) - int (g (xs ! i)) + int (g x)"
  by (induction xs arbitrary: i) (auto split: nat.splits)

lemma count_list_update:
  "i < length xs \<Longrightarrow> int (count_list (xs[i := x]) y) = int (count_list xs y) - (if xs ! i = y then 1 else 0) + (if x = y then 1 else 0)"
proof (induction xs arbitrary: i)
  case (Cons a xs)
  show ?case
  proof (cases i)
    case (Suc j)
    then show ?thesis using Cons.IH [of j] Cons.prems by (auto split: if_splits)
  qed simp
qed simp

lemma fd_count_update:
  assumes "i < length ps" "fd < length (fst (ps ! i))"
  shows "int (fd_count (ps[i := ((fst (ps ! i))[fd := x], b)]) f) =
    int (fd_count ps f) - (if fst (ps ! i) ! fd = Some f then 1 else 0) + (if x = Some f then 1 else 0)"
  using assms by (simp add: fd_count_def sum_list_map_update count_list_update)

lemma slot_ok_update:
  assumes "slot_ok p" "\<And>f. x = Some f \<Longrightarrow> f < NFILE" "b \<Longrightarrow> set ((fst p)[fd := x]) \<subseteq> {None}"
  shows "slot_ok ((fst p)[fd := x], b)"
  using assms set_update_subset_insert [of "fst p" fd x] by (auto simp: slot_ok_def)

lemma fd_ok_set:
  assumes "fd_ok e (fs, ps)" "i < length ps" "fd < NOFILE" "\<not> snd (ps ! i)" "\<And>f. x = Some f \<Longrightarrow> f < NFILE"
  shows "fd_ok (\<lambda>f. e f + (if fst (ps ! i) ! fd = Some f then 1 else 0) - (if x = Some f then 1 else 0))
    (fs, ps[i := ((fst (ps ! i))[fd := x], False)])"
proof -
  have s: "slot_ok (ps ! i)" using assms(1,2) by (auto simp: fd_ok_def)
  then have "fd < length (fst (ps ! i))" using assms(3) by (simp add: slot_ok_def)
  moreover have "\<forall>p \<in> set (ps[i := ((fst (ps ! i))[fd := x], False)]). slot_ok p"
    using assms(1) slot_ok_update [where b = False, OF s assms(5)] set_update_subset_insert [of ps i]
    by (fastforce simp: fd_ok_def)
  ultimately show ?thesis using assms(1,2) by (auto simp: fd_ok_def fd_count_update)
qed

lemma fd_ok_idle:
  assumes "fd_ok e (fs, ps)" "i < length ps" "b \<Longrightarrow> set (fst (ps ! i)) \<subseteq> {None}"
  shows "fd_ok e (fs, ps[i := (fst (ps ! i), b)])"
proof -
  have s: "slot_ok (ps ! i)" using assms(1,2) by (auto simp: fd_ok_def)
  then have "slot_ok (fst (ps ! i), b)" using assms(3) by (auto simp: slot_ok_def)
  then have "\<forall>p \<in> set (ps[i := (fst (ps ! i), b)]). slot_ok p"
    using assms(1) set_update_subset_insert [of ps i] by (auto simp: fd_ok_def)
  moreover have "int (fd_count (ps[i := (fst (ps ! i), b)]) f) = int (fd_count ps f)" for f
    using assms(2) by (simp add: fd_count_def sum_list_map_update)
  ultimately show ?thesis using assms(1) by (auto simp: fd_ok_def)
qed

lemma fd_ok_file:
  assumes "fd_ok e (fs, ps)" "f < NFILE" "f_ref x = f_ref (fs ! f) + d" "f_ref x = 0 \<Longrightarrow> f_type x = FD_NONE"
  shows "fd_ok (\<lambda>g. e g + (if g = f then d else 0)) (fs[f := x], ps)"
  using assms by (auto simp: fd_ok_def nth_list_update)

lemma fd_ok_count_pos:
  assumes "fd_ok e (fs, ps)" "i < length ps" "fst (ps ! i) ! fd = Some f" "fd < NOFILE" "0 \<le> e f"
  shows "f < NFILE \<and> 0 < f_ref (fs ! f)"
proof -
  have s: "slot_ok (ps ! i)" using assms(1,2) by (auto simp: fd_ok_def)
  then have m: "Some f \<in> set (fst (ps ! i))" using assms(3,4) by (metis nth_mem slot_ok_def)
  then have f: "f < NFILE" using s by (simp add: slot_ok_def)
  have "count_list (fst (ps ! i)) (Some f) \<noteq> 0" using m by (simp add: count_list_0_iff)
  moreover have "count_list (fst (ps ! i)) (Some f) \<le> fd_count ps f"
    unfolding fd_count_def using member_le_sum_list [of "count_list (fst (ps ! i)) (Some f)"] assms(2) by force
  ultimately have "0 < fd_count ps f" by linarith
  then show ?thesis using assms(1,5) f by (auto simp: fd_ok_def)
qed

section \<open>The operations\<close>

lemma dview_upd_file: "dview (upd_file f g s) = ((ftable s)[f := g (file_at s f)], snd (dview s))"
  by (simp add: dview_def upd_file_def)

lemma dview_upd_proc:
  "i < length (procs s) \<Longrightarrow> dview (upd_proc i g s) = (ftable s, (snd (dview s))[i := pview (g (procs s ! i))])"
  by (simp add: dview_def upd_proc_def map_update)

abbreviation fd_inv :: "(nat \<Rightarrow> int) \<Rightarrow> 'a fkernel_scheme \<Rightarrow> bool" where
  "fd_inv e s \<equiv> fd_ok e (dview s)"

lemma fd_inv_fview: "fd_inv e s \<Longrightarrow> fview s' = fview s \<Longrightarrow> fd_inv e s'"
  by (drule dview_fview) simp

lemma fd_inv_filealloc:
  assumes "fd_inv e s" "filealloc s = (Some f, s')"
  shows "fd_inv (\<lambda>x. e x + one f x) s' \<and> f < NFILE \<and> f_type (file_at s' f) = FD_NONE \<and> f_ref (file_at s' f) = 1 \<and>
    s' = upd_file f (\<lambda>x. x\<lparr>f_ref := 1\<rparr>) s \<and> f_ref (file_at s f) = 0"
proof -
  have f: "f < NFILE" "f_ref (file_at s f) = 0" and s': "s' = upd_file f (\<lambda>x. x\<lparr>f_ref := 1\<rparr>) s"
    using assms(2) by (auto simp: filealloc_def find_Some_iff split: option.splits)
  moreover have "length (ftable s) = NFILE" "f_type (file_at s f) = FD_NONE"
    using assms(1) f by (auto simp: fd_ok_def dview_def)
  moreover have "fd_inv (\<lambda>x. e x + one f x) s'"
    unfolding s' dview_upd_file
    by (rule fd_ok_file) (use assms(1) f in \<open>simp_all add: dview_def\<close>)
  ultimately show ?thesis by (simp add: upd_file_def)
qed

lemma filealloc_None: "filealloc s = (None, s') \<Longrightarrow> s' = s"
  by (auto simp: filealloc_def split: option.splits)

lemma fd_inv_filedup:
  assumes "fd_inv e s" "filedup f s = Inr s'" "f < NFILE"
  shows "fd_inv (\<lambda>x. e x + one f x) s'"
proof -
  have r: "1 \<le> f_ref (file_at s f)" and s': "s' = upd_file f (\<lambda>x. x\<lparr>f_ref := f_ref x + 1\<rparr>) s"
    using assms(2) by (auto simp: filedup_def split: if_splits)
  show ?thesis
    unfolding s' dview_upd_file by (rule fd_ok_file) (use assms r in \<open>simp_all add: dview_def\<close>)
qed

definition running :: "'a ckernel_scheme \<Rightarrow> bool" where
  "running s \<longleftrightarrow> cur s < length (procs s) \<and> \<not> idle (me s)"

lemma running_fview:
  assumes "fview s' = fview s"
  shows "cur s' = cur s" "kver s' = kver s" "length (procs s') = length (procs s)" "running s' = running s"
    "i < length (procs s) \<Longrightarrow> ofile (procs s' ! i) = ofile (procs s ! i)"
proof -
  have m: "map pview (procs s') = map pview (procs s)" and c: "cur s' = cur s" "kver s' = kver s"
    using assms by (simp_all add: fview_def)
  then show "cur s' = cur s" "kver s' = kver s" "length (procs s') = length (procs s)"
    by (auto dest: map_eq_imp_length_eq)
  have n: "pview (procs s' ! i) = pview (procs s ! i)" if "i < length (procs s)" for i
    using m that by (metis length_map nth_map)
  then show "i < length (procs s) \<Longrightarrow> ofile (procs s' ! i) = ofile (procs s ! i)" by (simp add: pview_def)
  show "running s' = running s"
    using n [of "cur s"] c \<open>length (procs s') = length (procs s)\<close> by (auto simp: running_def pview_def)
qed

lemma pview_nth:
  assumes "fview s' = fview s" "i < length (procs s)"
  shows "pview (procs s' ! i) = pview (procs s ! i)"
proof -
  have "map pview (procs s') ! i = map pview (procs s) ! i" using assms(1) by (simp add: fview_def)
  then show ?thesis using assms(2) running_fview(3) [OF assms(1)] by simp
qed

lemma fd_inv_slot: "fd_inv e s \<Longrightarrow> i < length (procs s) \<Longrightarrow> slot_ok (pview (procs s ! i))"
  by (auto simp: fd_ok_def dview_def)

lemma running_set_fd [simp]: "running (set_fd fd x s) = running s" "cur (set_fd fd x s) = cur s"
  "kver (set_fd fd x s) = kver s" "length (procs (set_fd fd x s)) = length (procs s)"
  by (auto simp: running_def set_fd_def upd_proc_def idle_def nth_list_update)

lemma running_upd_file [simp]: "running (upd_file f g s) = running s" "procs (upd_file f g s) = procs s"
  "cur (upd_file f g s) = cur s" "kver (upd_file f g s) = kver s" "pipes (upd_file f g s) = pipes s"
  by (auto simp: running_def upd_file_def)

lemma fd_inv_set_fd:
  assumes "fd_inv e s" "running s" "fd < NOFILE" "\<And>f. x = Some f \<Longrightarrow> f < NFILE"
  shows "fd_inv (\<lambda>f. e f + (if ofile (me s) ! fd = Some f then 1 else 0) - (if x = Some f then 1 else 0)) (set_fd fd x s)"
proof -
  have c: "cur s < length (procs s)" "\<not> idle (me s)" using assms(2) by (simp_all add: running_def)
  have "dview (set_fd fd x s) = (ftable s, (map pview (procs s))[cur s := ((ofile (me s))[fd := x], False)])"
    using c by (simp add: set_fd_def dview_upd_proc) (simp add: dview_def pview_def idle_def)
  moreover have "map pview (procs s) ! cur s = (ofile (me s), False)" using c by (simp add: pview_def)
  ultimately show ?thesis
    using fd_ok_set [of e "ftable s" "map pview (procs s)" "cur s" fd x] assms c by (simp add: dview_def)
qed

lemma fdalloc_cases:
  "fdalloc f s = (r, s') \<Longrightarrow> (r = None \<and> s' = s) \<or>
    (\<exists>fd < NOFILE. r = Some fd \<and> s' = set_fd fd (Some f) s \<and> ofile (me s) ! fd = None)"
  by (auto simp: fdalloc_def find_Some_iff split: option.splits)

lemma fd_inv_fdalloc:
  assumes "fd_inv e s" "fdalloc f s = (Some fd, s')" "running s" "f < NFILE"
  shows "fd_inv (\<lambda>x. e x - one f x) s' \<and> running s' \<and> fd < NOFILE \<and> ofile (me s') ! fd = Some f"
proof -
  have fd: "fd < NOFILE" "s' = set_fd fd (Some f) s" "ofile (me s) ! fd = None"
    using fdalloc_cases [OF assms(2)] by auto
  have "length (ofile (me s)) = NOFILE"
    using fd_inv_slot [OF assms(1)] assms(3) by (simp add: running_def slot_ok_def pview_def)
  then have "ofile (me s') ! fd = Some f"
    using fd assms(3) by (simp add: set_fd_def upd_proc_def running_def)
  moreover have "fd_inv (\<lambda>x. e x - one f x) s'"
    using fd_inv_set_fd [OF assms(1,3) fd(1), of "Some f"] assms(4) fd by (auto simp: eq_commute [of f])
  ultimately show ?thesis using fd(1,2) assms(3) by simp
qed

lemma fd_inv_fd_None:
  assumes "fd_inv e s" "running s" "fd < NOFILE" "ofile (me s) ! fd = Some f"
  shows "fd_inv (\<lambda>x. e x + one f x) (set_fd fd None s)"
  using fd_inv_set_fd [OF assms(1,2,3), of None] assms(4) by (auto simp: eq_commute [of f])

lemma fview_pipes: "dview (s\<lparr>pipes := p\<rparr>) = dview s" "running (s\<lparr>pipes := p\<rparr>) = running s"
  by (simp_all add: dview_def running_def)

text \<open>The view and the process, for operations that also change the pipes.\<close>

definition dkeeps :: "'a fkernel_scheme \<Rightarrow> 'a fkernel_scheme \<Rightarrow> bool" where
  "dkeeps s s' \<longleftrightarrow> fview (s'\<lparr>pipes := pipes s\<rparr>) = fview s"

lemma dkeeps_fview: "fview s' = fview s \<Longrightarrow> dkeeps s s'"
  by (simp add: dkeeps_def fview_def)

lemma dkeeps_refl [simp]: "dkeeps s s"
  by (simp add: dkeeps_fview)

lemma dkeeps_trans: "dkeeps s s1 \<Longrightarrow> dkeeps s1 s2 \<Longrightarrow> dkeeps s s2"
  by (simp add: dkeeps_def fview_def)

lemma dkeeps_pipes [simp]: "dkeeps s (s'\<lparr>pipes := p\<rparr>) = dkeeps s s'"
  by (simp add: dkeeps_def)

lemma dkeeps_dview: "dkeeps s s' \<Longrightarrow> dview s' = dview s"
  by (simp add: dkeeps_def fview_def dview_def)

lemma dkeeps_running: "dkeeps s s' \<Longrightarrow> running s' = running s \<and> cur s' = cur s \<and> kver s' = kver s"
  unfolding dkeeps_def using running_fview [of "s'\<lparr>pipes := pipes s\<rparr>" s] by (auto simp: running_def)

lemma dkeeps_ofile: "dkeeps s s' \<Longrightarrow> i < length (procs s) \<Longrightarrow> ofile (procs s' ! i) = ofile (procs s ! i)"
  unfolding dkeeps_def using running_fview(5) [of "s'\<lparr>pipes := pipes s\<rparr>" s] by simp

lemma dkeeps_length: "dkeeps s s' \<Longrightarrow> length (procs s') = length (procs s)"
  unfolding dkeeps_def using running_fview(3) [of "s'\<lparr>pipes := pipes s\<rparr>" s] by simp

lemma dkeeps_pipeclose: "pipeclose pi w s = Inr s' \<Longrightarrow> dkeeps s s'"
  by (auto simp: pipeclose_def Let_def rbind_eq_Inr dkeeps_def split: option.splits if_splits dest!: keeps)
    (simp_all add: fview_def wakeup_def pview_wakeup)

end
