(* ===== verification/Fd_Ops.thy ===== *)
theory Fd_Ops
  imports Fd_Inv
begin

text \<open>The operations on open files, and \<open>fd_inv\<close> after each of them.\<close>

section \<open>Closing\<close>

lemma upd_file_upd_file: "upd_file f g (upd_file f h s) = upd_file f (\<lambda>x. g (h x)) s"
  by (cases "f < length (ftable s)") (simp_all add: upd_file_def list_update_beyond)

lemma fileclose_cases:
  assumes "fileclose f s = Inr s'" "f < length (ftable s)"
  shows "f_ref (file_at s f) > 1 \<and> s' = upd_file f (\<lambda>x. x\<lparr>f_ref := f_ref x - 1\<rparr>) s \<or>
    f_ref (file_at s f) = 1 \<and> dkeeps (upd_file f (\<lambda>x. x\<lparr>f_ref := 0, f_type := FD_NONE\<rparr>) s) s'"
proof -
  define t where "t = upd_file f (\<lambda>x. x\<lparr>f_ref := 0, f_type := FD_NONE\<rparr>) s"
  have u: "upd_file f (\<lambda>x. x\<lparr>f_ref := 0, f_type := FD_NONE\<rparr>) (upd_file f (\<lambda>x. x\<lparr>f_ref := f_ref x - 1\<rparr>) s) = t"
    by (simp add: upd_file_upd_file t_def)
  have a: "file_at (upd_file f (\<lambda>x. x\<lparr>f_ref := f_ref x - 1\<rparr>) s) f = (file_at s f)\<lparr>f_ref := f_ref (file_at s f) - 1\<rparr>"
    using assms(2) by (simp add: upd_file_def)
  have r: "1 \<le> f_ref (file_at s f)" using assms(1) by (auto simp: fileclose_def split: if_splits)
  show ?thesis
  proof (cases "f_ref (file_at s f) = 1")
    case False
    then show ?thesis using assms(1) a r by (simp add: fileclose_def Let_def)
  next
    case True
    then have "dkeeps t s'"
      using assms(1) a u
      by (cases "f_type (file_at s f)")
        (auto simp: fileclose_def Let_def rbind_eq_Inr dest!: keeps dkeeps_pipeclose intro: dkeeps_fview)
    then show ?thesis using True t_def by simp
  qed
qed

lemma fd_inv_table: "fd_inv e s \<Longrightarrow> length (ftable s) = NFILE"
  by (simp add: fd_ok_def dview_def)

lemma fd_inv_fileclose:
  assumes "fd_inv e s" "fileclose f s = Inr s'" "f < NFILE"
  shows "fd_inv (\<lambda>x. e x - one f x) s'"
proof -
  have l: "f < length (ftable s)" using assms by (simp add: fd_inv_table)
  from fileclose_cases [OF assms(2) l] show ?thesis
  proof
    assume a: "f_ref (file_at s f) > 1 \<and> s' = upd_file f (\<lambda>x. x\<lparr>f_ref := f_ref x - 1\<rparr>) s"
    have "fd_inv (\<lambda>x. e x + (if x = f then - 1 else 0)) s'"
      unfolding conjunct2 [OF a] dview_upd_file
      by (rule fd_ok_file) (use assms a in \<open>simp_all add: dview_def\<close>)
    then show ?thesis by (rule back_subst [where P = "\<lambda>e. fd_inv e s'"]) auto
  next
    assume a: "f_ref (file_at s f) = 1 \<and> dkeeps (upd_file f (\<lambda>x. x\<lparr>f_ref := 0, f_type := FD_NONE\<rparr>) s) s'"
    have "fd_inv (\<lambda>x. e x + (if x = f then - 1 else 0)) (upd_file f (\<lambda>x. x\<lparr>f_ref := 0, f_type := FD_NONE\<rparr>) s)"
      unfolding dview_upd_file by (rule fd_ok_file) (use assms a in \<open>simp_all add: dview_def\<close>)
    then have "fd_inv (\<lambda>x. e x + (if x = f then - 1 else 0)) s'"
      using dkeeps_dview [OF conjunct2 [OF a]] by simp
    then show ?thesis by (rule back_subst [where P = "\<lambda>e. fd_inv e s'"]) auto
  qed
qed

lemma fileclose_procs:
  assumes "fileclose f s = Inr s'" "f < length (ftable s)"
  shows "running s' = running s \<and> cur s' = cur s \<and> length (procs s') = length (procs s) \<and>
    (\<forall>i < length (procs s). ofile (procs s' ! i) = ofile (procs s ! i))"
  using fileclose_cases [OF assms]
proof
  assume "f_ref (file_at s f) > 1 \<and> s' = upd_file f (\<lambda>x. x\<lparr>f_ref := f_ref x - 1\<rparr>) s"
  then show ?thesis by simp
next
  let ?t = "upd_file f (\<lambda>x. x\<lparr>f_ref := 0, f_type := FD_NONE\<rparr>) s"
  assume "f_ref (file_at s f) = 1 \<and> dkeeps ?t s'"
  then have k: "dkeeps ?t s'" by simp
  show ?thesis using dkeeps_running [OF k] dkeeps_length [OF k] dkeeps_ofile [OF k] by simp
qed

section \<open>Reading and writing\<close>

lemma fd_inv_upd_file:
  assumes "fd_inv e s" "f < NFILE" "f_ref (g (file_at s f)) = f_ref (file_at s f)"
    "f_type (g (file_at s f)) = f_type (file_at s f) \<or> f_ref (file_at s f) \<noteq> 0"
  shows "fd_inv e (upd_file f g s)"
proof -
  have "fd_inv (\<lambda>x. e x + (if x = f then 0 else 0)) (upd_file f g s)"
    unfolding dview_upd_file
    by (rule fd_ok_file) (use assms in \<open>auto simp: dview_def fd_ok_def\<close>)
  then show ?thesis by simp
qed

lemma fview_kernel_copy:
  "op_copyin (kernel_ops ver p pg) s a len = (r, s') \<Longrightarrow> fview s' = fview s"
  "op_copyout (kernel_ops ver p pg) s a bs = (ok, s') \<Longrightarrow> fview s' = fview s"
  by (auto simp: kernel_ops_def copyin_def Let_def split: sum.splits
      dest!: mframe_copyin_loop mframe_copyout fview_mframe)

fun wexit_mem :: "('q, 'm) wexit \<Rightarrow> 'm" where
  "wexit_mem (WDone q m i) = m"
| "wexit_mem (WKilled q m) = m"
| "wexit_mem (WBlock q m i) = m"

lemma write_loop_keeps:
  assumes "write_loop body n q m i = Some x"
    and "\<And>q m i q' m'. body q m i = WBreak q' m' \<Longrightarrow> v m' = v m"
    and "\<And>q m i q' m' i'. body q m i = WCont q' m' i' \<Longrightarrow> v m' = v m"
  shows "v (wexit_mem x) = v m"
proof -
  have "(\<forall>q m i q' m'. body q m i = WBreak q' m' \<longrightarrow> v m' = v m) \<and>
      (\<forall>q m i q' m' i'. body q m i = WCont q' m' i' \<longrightarrow> v m' = v m) \<longrightarrow> v (wexit_mem x) = v m"
    using assms(1)
    by (rule write_loop.raw_induct [rotated]) (fastforce split: if_splits witer.splits)
  then show ?thesis using assms(2,3) by blast
qed

lemma read_loop_keeps:
  assumes "read_loop body n q m i = Some (q', m', i')"
    and "\<And>q m i q' m' i'. body q m i = RBreak q' m' i' \<Longrightarrow> v m' = v m"
    and "\<And>q m i q' m' i'. body q m i = RCont q' m' i' \<Longrightarrow> v m' = v m"
  shows "v m' = v m"
proof -
  have "(\<forall>q m i q' m' i'. body q m i = RBreak q' m' i' \<longrightarrow> v m' = v m) \<and>
      (\<forall>q m i q' m' i'. body q m i = RCont q' m' i' \<longrightarrow> v m' = v m) \<longrightarrow> v (fst (snd x)) = v m"
    if "read_loop body n q m i = Some x" for x
  proof (rule read_loop.raw_induct [OF _ that], intro impI, goal_cases)
    case (1 rl body n q m i x)
    show ?case
    proof (cases "i < n")
      case True
      show ?thesis
      proof (cases "body q m i")
        case (RBreak q' m' i')
        then have "x = (q', m', i')" "v m' = v m" using True 1(2) conjunct1 [OF 1(3)] by simp_all blast
        then show ?thesis by simp
      next
        case (RCont q' m' i')
        then have "rl body n q' m' i' = Some x" "v m' = v m" using True 1(2) conjunct2 [OF 1(3)] by simp_all blast
        then show ?thesis using 1(1) 1(3) by metis
      qed
    qed (use 1(2) in auto)
  qed
  from this [OF assms(1)] show ?thesis using assms(2,3) by (metis fst_conv snd_conv)
qed

lemma fview_write_iters:
  "v1_write_iter (kernel_ops ver p pg) addr q m i = WBreak q' m' \<Longrightarrow> fview m' = fview m"
  "v1_write_iter (kernel_ops ver p pg) addr q m i = WCont q' m' i' \<Longrightarrow> fview m' = fview m"
  "bulk_write_iter tot (kernel_ops ver p pg) addr n q m i = WBreak q' m' \<Longrightarrow> fview m' = fview m"
  "bulk_write_iter tot (kernel_ops ver p pg) addr n q m i = WCont q' m' i' \<Longrightarrow> fview m' = fview m"
  "v3_write_iter (kernel_ops ver p pg) addr n q3 m i = WBreak q3' m' \<Longrightarrow> fview m' = fview m"
  "v3_write_iter (kernel_ops ver p pg) addr n q3 m i = WCont q3' m' i' \<Longrightarrow> fview m' = fview m"
  by (auto simp: v1_write_iter_def bulk_write_iter_def v3_write_iter_def Let_def split: if_splits prod.splits
      dest: fview_kernel_copy)

lemma fview_read_iters:
  "v1_read_iter (kernel_ops ver p pg) addr q m i = RBreak q' m' i' \<Longrightarrow> fview m' = fview m"
  "v1_read_iter (kernel_ops ver p pg) addr q m i = RCont q' m' i' \<Longrightarrow> fview m' = fview m"
  "bulk_read_iter tot (kernel_ops ver p pg) addr n q m i = RBreak q' m' i' \<Longrightarrow> fview m' = fview m"
  "bulk_read_iter tot (kernel_ops ver p pg) addr n q m i = RCont q' m' i' \<Longrightarrow> fview m' = fview m"
  "v3_read_iter (kernel_ops ver p pg) addr n q3 m i = RBreak q3' m' i' \<Longrightarrow> fview m' = fview m"
  "v3_read_iter (kernel_ops ver p pg) addr n q3 m i = RCont q3' m' i' \<Longrightarrow> fview m' = fview m"
  by (auto simp: v1_read_iter_def bulk_read_iter_def v3_read_iter_def Let_def split: if_splits prod.splits
      dest: fview_kernel_copy)

lemma fview_eager_finish:
  "eager_finish (kernel_ops ver p pg) x = Ret r q m \<Longrightarrow> fview m = fview (wexit_mem x)"
  "lazy_finish (kernel_ops ver p pg) nw x = Ret r q m \<Longrightarrow> fview m = fview (wexit_mem x)"
  by (cases x; auto simp: eager_finish_def lazy_finish_def split: if_splits)+

lemma fview_write_finish:
  assumes "map_option (eager_finish (kernel_ops ver p pg)) (write_loop body n q s i) = Some (Ret r q' m) \<or>
      map_option (lazy_finish (kernel_ops ver p pg) nw) (write_loop body n q s i) = Some (Ret r q' m)"
    and "\<And>q m i q' m'. body q m i = WBreak q' m' \<Longrightarrow> fview m' = fview m"
    and "\<And>q m i q' m' i'. body q m i = WCont q' m' i' \<Longrightarrow> fview m' = fview m"
  shows "fview m = fview s"
proof -
  obtain x where x: "write_loop body n q s i = Some x" "fview m = fview (wexit_mem x)"
    using assms(1) by (auto dest: fview_eager_finish)
  then show ?thesis using write_loop_keeps [where v = fview, OF x(1) assms(2,3)] by simp
qed

lemmas fview_write_loops =
  fview_write_finish [where body = "v1_write_iter (kernel_ops ver p pg) addr" for ver p pg addr, OF _ fview_write_iters(1,2)]
  fview_write_finish [where body = "bulk_write_iter tot (kernel_ops ver p pg) addr n" for tot ver p pg addr n,
    OF _ fview_write_iters(3,4)]
  fview_write_finish [where body = "v3_write_iter (kernel_ops ver p pg) addr n" for ver p pg addr n, OF _ fview_write_iters(5,6)]

lemma fview_pipewrites:
  "pipewrite_v1 (kernel_ops ver p pg) addr n i q s = Some (Ret r q' m) \<Longrightarrow> fview m = fview s"
  "pipewrite_v2 (kernel_ops ver p pg) addr n i q s = Some (Ret r q' m) \<Longrightarrow> fview m = fview s"
  "pipewrite_v3 (kernel_ops ver p pg) addr n i q3 s = Some (Ret r q3' m) \<Longrightarrow> fview m = fview s"
  "pipewrite_v4 (kernel_ops ver p pg) addr n i q s = Some (Ret r q' m) \<Longrightarrow> fview m = fview s"
  "pipewrite_v5 (kernel_ops ver p pg) addr n q s = Some (Ret r q' m) \<Longrightarrow> fview m = fview s"
  unfolding pipewrite_v1_def pipewrite_v2_def pipewrite_v3_def pipewrite_v4_def pipewrite_v5_def pipewrite_v5_from_def
  using fview_write_loops(1) [OF disjI1] apply fast
  using fview_write_loops(2) [OF disjI1] apply fast
  using fview_write_loops(3) [OF disjI1] apply fast
  using fview_write_loops(2) [OF disjI1] apply fast
  using fview_write_loops(2) [OF disjI2] apply fast
  done

lemma fview_read_finish:
  assumes "read_with_wait w (map_option (eager_read_finish (kernel_ops ver p pg)) (read_loop body n q s 0)) q s = Some (Ret r q' m) \<or>
      read_with_wait w (map_option (lazy_read_finish (kernel_ops ver p pg) fl) (read_loop body n q s 0)) q s = Some (Ret r q' m)"
    and "\<And>q m i q' m' i'. body q m i = RBreak q' m' i' \<Longrightarrow> fview m' = fview m"
    and "\<And>q m i q' m' i'. body q m i = RCont q' m' i' \<Longrightarrow> fview m' = fview m"
  shows "fview m = fview s"
proof (cases w)
  case RGo
  then obtain q1 m1 i1 where x: "read_loop body n q s 0 = Some (q1, m1, i1)" "fview m = fview m1"
    using assms(1) by (auto simp: read_with_wait_def eager_read_finish_def lazy_read_finish_def split: if_splits)
  then show ?thesis using read_loop_keeps [where v = fview, OF x(1) assms(2,3)] by simp
qed (use assms(1) in \<open>auto simp: read_with_wait_def\<close>)

lemmas fview_read_loops =
  fview_read_finish [where body = "v1_read_iter (kernel_ops ver p pg) addr" for ver p pg addr, OF _ fview_read_iters(1,2)]
  fview_read_finish [where body = "bulk_read_iter tot (kernel_ops ver p pg) addr n" for tot ver p pg addr n,
    OF _ fview_read_iters(3,4)]
  fview_read_finish [where body = "v3_read_iter (kernel_ops ver p pg) addr n" for ver p pg addr n, OF _ fview_read_iters(5,6)]

lemma fview_pipereads:
  "piperead_v1 (kernel_ops ver p pg) addr n q s = Some (Ret r q' m) \<Longrightarrow> fview m = fview s"
  "piperead_v2 (kernel_ops ver p pg) addr n q s = Some (Ret r q' m) \<Longrightarrow> fview m = fview s"
  "piperead_v3 (kernel_ops ver p pg) addr n q3 s = Some (Ret r q3' m) \<Longrightarrow> fview m = fview s"
  "piperead_v4 (kernel_ops ver p pg) addr n q s = Some (Ret r q' m) \<Longrightarrow> fview m = fview s"
  "piperead_v5 (kernel_ops ver p pg) addr n q s = Some (Ret r q' m) \<Longrightarrow> fview m = fview s"
  unfolding piperead_v1_def piperead_v2_def piperead_v3_def piperead_v4_def piperead_v5_def
  using fview_read_loops(1) [OF disjI1] apply fast
  using fview_read_loops(2) [OF disjI1] apply fast
  using fview_read_loops(3) [OF disjI1] apply fast
  using fview_read_loops(2) [OF disjI1] apply fast
  using fview_read_loops(2) [OF disjI2] apply fast
  done

lemma dkeeps_pipe_result:
  assumes "pipe_result pi wrap x = Inr (v, s')" "\<And>r q m. x = Some (Ret r q m) \<Longrightarrow> fview m = fview s"
  shows "dkeeps s s'"
proof -
  obtain q m where "x = Some (Ret v q m)" "s' = m\<lparr>pipes := (pipes m)(pi \<mapsto> wrap q)\<rparr>"
    using assms(1) by (auto simp: pipe_result_def split: option.splits pcall.splits)
  then show ?thesis using assms(2) by (simp add: dkeeps_fview)
qed

lemma dkeeps_pipewrite: "pipewrite pi addr n s = Inr (v, s') \<Longrightarrow> dkeeps s s'"
  by (auto simp: pipewrite_def Let_def split: option.splits anypipe.splits if_splits
      elim!: dkeeps_pipe_result dest: fview_pipewrites)

lemma dkeeps_piperead: "piperead pi addr n s = Inr (v, s') \<Longrightarrow> dkeeps s s'"
  by (auto simp: piperead_def Let_def split: option.splits anypipe.splits if_splits
      elim!: dkeeps_pipe_result dest: fview_pipereads)

section \<open>Files\<close>

text \<open>An operation keeps descriptors and counts when it keeps \<open>fd_inv\<close> for all \<open>e\<close>, and the process.\<close>

definition fd_safe :: "'a fkernel_scheme \<Rightarrow> 'a fkernel_scheme \<Rightarrow> bool" where
  "fd_safe s s' \<longleftrightarrow> (\<forall>e. fd_inv e s \<longrightarrow> fd_inv e s')"

lemma fd_safe_dkeeps: "dkeeps s s' \<Longrightarrow> fd_safe s s'"
  by (auto simp: fd_safe_def dest: dkeeps_dview)

lemma fd_safe_fview: "fview s' = fview s \<Longrightarrow> fd_safe s s'"
  by (rule fd_safe_dkeeps [OF dkeeps_fview])

lemma fd_safe_refl [simp]: "fd_safe s s"
  by (simp add: fd_safe_def)

lemma fd_safe_trans: "fd_safe s s1 \<Longrightarrow> fd_safe s1 s2 \<Longrightarrow> fd_safe s s2"
  by (simp add: fd_safe_def)

lemma fd_safe_off: "f < NFILE \<Longrightarrow> fd_safe s (upd_file f (\<lambda>x. x\<lparr>f_off := f_off x + d\<rparr>) s)"
  by (auto simp: fd_safe_def intro: fd_inv_upd_file)

text \<open>The devices: their operations keep the view, which holds of the console.\<close>

locale quiet_devices =
  fixes devs :: "int \<Rightarrow> 'a devop option"
  assumes quiet: "devs m = Some op \<Longrightarrow> op addr n s = Inr (r, s') \<Longrightarrow> fview s' = fview s"
begin

lemma fd_safe_fileread:
  assumes "fileread devs f addr n s = Inr (r, s')" "f < NFILE"
  shows "fd_safe s s'"
proof (cases "f_readable (file_at s f)")
  case True
  show ?thesis
  proof (cases "f_type (file_at s f)")
    case FD_PIPE
    then show ?thesis
      using True assms(1) by (auto simp: fileread_def intro: fd_safe_dkeeps dkeeps_piperead)
  next
    case FD_DEVICE
    then show ?thesis
      using True assms(1)
      by (auto simp: fileread_def Let_def split: if_splits option.splits intro: fd_safe_fview dest: quiet)
  next
    case FD_INODE
    then obtain s1 bs s2 where s: "ilock (f_ip (file_at s f)) s = Inr s1"
      "readi (the (f_ip (file_at s f))) (UserDst addr) (f_off (file_at s1 f)) (word_of_int n) s1 = Inr ((r, bs), s2)"
      "iunlock (f_ip (file_at s f)) (if r > 0 then upd_file f (\<lambda>x. x\<lparr>f_off := f_off x + word_of_int r\<rparr>) s2 else s2) = Inr s'"
      using True assms(1) by (auto simp: fileread_def Let_def rbind_eq_Inr)
    let ?t = "if r > 0 then upd_file f (\<lambda>x. x\<lparr>f_off := f_off x + word_of_int r\<rparr>) s2 else s2"
    have "fd_safe s s1" "fd_safe s1 s2" "fd_safe ?t s'"
      using fview_ilock [OF s(1)] fview_readi [OF s(2)] fview_iunlock [OF s(3)] by (simp_all add: fd_safe_fview)
    moreover have "fd_safe s2 ?t" using fd_safe_off [OF assms(2), of s2 "word_of_int r"] by auto
    ultimately show ?thesis using fd_safe_trans by blast
  next
    case FD_NONE
    then show ?thesis using True assms(1) by (simp add: fileread_def)
  qed
qed (use assms(1) in \<open>simp add: fileread_def\<close>)

lemma fd_safe_filewrite_loop: "filewrite_loop f addr n i s = Inr (r, s') \<Longrightarrow> f < NFILE \<Longrightarrow> fd_safe s s'"
proof (induction "nat (n - i)" arbitrary: i s rule: less_induct)
  case less
  show ?case
  proof (cases "i < n")
    case True
    let ?n1 = "min (n - i) WRITE_MAX"
    let ?t = "\<lambda>k s. if k > 0 then upd_file f (\<lambda>x. x\<lparr>f_off := f_off x + word_of_int k\<rparr>) s else s"
    from less.prems(1) True obtain s1 s2 k s3 s4 s5 where s: "begin_op s = Inr s1" "ilock (f_ip (file_at s f)) s1 = Inr s2"
      "writei (the (f_ip (file_at s f))) (UserSrc (addr + word_of_int i)) (f_off (file_at s2 f)) (word_of_int ?n1) s2 = Inr (k, s3)"
      "iunlock (f_ip (file_at s f)) (?t k s3) = Inr s4" "end_op s4 = Inr s5"
      "(if k \<noteq> ?n1 then Inr (i, s5) else filewrite_loop f addr n (i + ?n1) s5) = Inr (r, s')"
      unfolding filewrite_loop.simps [of f addr n i s] by (auto simp: Let_def rbind_eq_Inr)
    have "fview s3 = fview s" "fview s5 = fview (?t k s3)"
      using fview_begin_op [OF s(1)] fview_ilock [OF s(2)] fview_writei [OF s(3)] fview_iunlock [OF s(4)] fview_end_op [OF s(5)]
      by simp_all
    then have "fd_safe s s3" "fd_safe (?t k s3) s5" by (simp_all add: fd_safe_fview)
    moreover have "fd_safe s3 (?t k s3)" using fd_safe_off [OF less.prems(2), of s3 "word_of_int k"] by auto
    moreover have "nat (n - (i + ?n1)) < nat (n - i)"
      using True by (auto simp: WRITE_MAX_def MAXOPBLOCKS_def BSIZE_def)
    then have "fd_safe s5 s'"
      using s(6) less.hyps [of "i + ?n1" s5] less.prems(2) by (auto split: if_splits)
    ultimately show ?thesis using fd_safe_trans by blast
  next
    case False
    then show ?thesis using less.prems(1) by (subst (asm) filewrite_loop.simps) simp
  qed
qed

lemma fd_safe_filewrite:
  assumes "filewrite devs f addr n s = Inr (r, s')" "f < NFILE"
  shows "fd_safe s s'"
proof (cases "f_writable (file_at s f)")
  case True
  then show ?thesis
    using assms
    by (cases "f_type (file_at s f)")
      (auto simp: filewrite_def Let_def rbind_eq_Inr split: if_splits option.splits
        intro: fd_safe_fview fd_safe_dkeeps dkeeps_pipewrite fd_safe_filewrite_loop dest: quiet)
qed (use assms(1) in \<open>simp add: filewrite_def\<close>)

end

section \<open>The console\<close>

lemma fview_ukernel [simp]:
  fixes s :: "'a ukernel_scheme"
  shows "fview (s\<lparr>tx_busy := b\<rparr>) = fview s" "fview (s\<lparr>uart_thr := ob\<rparr>) = fview s"
  by (simp_all add: fview_def pview_def)

lemma fview_tkernel [simp]: "fview ((s :: 'a tkernel_scheme)\<lparr>cons_of := c\<rparr>) = fview s"
    "fview (cons_upd g s) = fview s"
  by (simp_all add: fview_def cons_upd_def)

lemma fview_uartwrite: "uartwrite bs s = Inr s' \<Longrightarrow> fview s' = fview s"
  by (induction bs arbitrary: s) (auto split: if_splits)

lemma fview_either_copyin [keeps]: "either_copyin p u a n s = Inr (r, s') \<Longrightarrow> fview s' = fview s"
  by (auto simp: either_copyin_def Let_def split: if_splits dest!: keeps)

lemma fview_either_copyout [keeps]: "either_copyout p u a bs s = Inr (r, s') \<Longrightarrow> fview s' = fview s"
  by (auto simp: either_copyout_def Let_def split: if_splits dest!: keeps)

lemma fview_consoleread_loop [keeps]: "consoleread_loop u tg dst n s = Inr (r, s') \<Longrightarrow> fview s' = fview s"
proof (induction n arbitrary: dst s)
  case (Suc n)
  let ?c = "cons_at (cons_of s) (c_r (cons_of s))" and ?s = "cons_upd (\<lambda>x. x\<lparr>c_r := c_r x + 1\<rparr>) s"
  show ?case
  proof (cases "c_r (cons_of s) = c_w (cons_of s) \<or> ?c = 4")
    case True
    then show ?thesis using Suc.prems by (auto simp: Let_def split: if_splits)
  next
    case False
    then obtain ok s1 where c: "either_copyout (cur ?s) u dst [?c] ?s = Inr (ok, s1)"
      "(if \<not> ok then Inr (Some (Suc n), s1) else if ?c = 10 then Inr (Some n, s1)
        else consoleread_loop u tg (dst + 1) n s1) = Inr (r, s')"
      using Suc.prems by (simp add: Let_def rbind_eq_Inr) blast
    have "fview s1 = fview s" using fview_either_copyout [OF c(1)] by simp
    then show ?thesis using c(2) Suc.IH by (auto split: if_splits)
  qed
qed simp

lemma fview_consolewrite_loop: "consolewrite_loop u src n i s = Inr (r, s') \<Longrightarrow> fview s' = fview s"
proof (induction "nat (n - i)" arbitrary: i s rule: less_induct)
  case less
  show ?case
  proof (cases "i < n")
    case True
    then obtain bs ok s1 where c: "either_copyin (cur s) u (src + word_of_int i) (nat (min 32 (n - i))) s = Inr ((bs, ok), s1)"
      "\<not> ok \<and> s' = s1 \<or> (\<exists>s2. uartwrite bs s1 = Inr s2 \<and> consolewrite_loop u src n (i + min 32 (n - i)) s2 = Inr (r, s'))"
      using less.prems unfolding consolewrite_loop.simps [of u src n i s]
      by (auto simp: Let_def rbind_eq_Inr split: if_splits)
    have "fview s1 = fview s" by (rule fview_either_copyin [OF c(1)])
    then show ?thesis
      using c(2) less.hyps [of "i + min 32 (n - i)"] True by (auto dest!: fview_uartwrite)
  qed (use less.prems in \<open>simp add: consolewrite_loop.simps [of u src n i s]\<close>)
qed

interpretation rd: quiet_devices devsw_read
  by unfold_locales
    (auto simp: devsw_read_def consoleread_def rbind_eq_Inr split: if_splits dest!: keeps)

interpretation wr: quiet_devices devsw_write
  by unfold_locales (auto simp: devsw_write_def consolewrite_def split: if_splits dest!: fview_consolewrite_loop)

end
