(* ===== verification/Fd_Calls.thy ===== *)
theory Fd_Calls
  imports Fd_Ops
begin

text \<open>The system calls that open, duplicate and close descriptors, and those that make and end processes.\<close>

lemma fd_inv_eq: "fd_inv e s \<Longrightarrow> (\<And>x. e x = e' x) \<Longrightarrow> fd_inv e' s"
  by (simp add: ext [of e e'])

lemma rfold_upt:
  assumes "rfold f [0..<n] s = Inr s'" "I 0 s" "\<And>i s s'. i < n \<Longrightarrow> I i s \<Longrightarrow> f i s = Inr s' \<Longrightarrow> I (Suc i) s'"
  shows "I n s'"
  using assms
proof (induction n arbitrary: s')
  case (Suc n)
  then obtain s1 where s1: "rfold f [0..<n] s = Inr s1" "f n s1 = Inr s'"
    by (auto simp: rfold_append rbind_eq_Inr)
  have "I n s1" by (rule Suc.IH [OF s1(1)]) (use Suc.prems in auto)
  then show ?case using Suc.prems(3) s1(2) by blast
qed simp

section \<open>Descriptors\<close>

lemma argfd_Some:
  assumes "argfd n s = Inr (Some (fd, f))" "fd_inv e s" "running s"
  shows "fd < NOFILE \<and> ofile (me s) ! fd = Some f \<and> f < NFILE"
proof -
  have fd: "fd < NOFILE" "ofile (me s) ! fd = Some f"
    using assms(1) by (auto simp: argfd_def rbind_eq_Inr split: if_splits option.splits)
  have sl: "slot_ok (ofile (me s), idle (me s))"
    using fd_inv_slot [OF assms(2), of "cur s"] assms(3) by (simp add: running_def pview_def)
  then have "Some f \<in> set (ofile (me s))" using fd by (metis fst_conv nth_mem slot_ok_def)
  then show ?thesis using fd sl by (simp add: slot_ok_def)
qed

lemma fd_inv_sys_dup:
  assumes "fd_inv e s" "running s" "sys_dup s = Inr (r, s')"
  shows "fd_inv e s'"
proof -
  obtain x where x: "argfd 0 s = Inr x" using assms(3) by (auto simp: sys_dup_def rbind_eq_Inr)
  show ?thesis
  proof (cases x)
    case None
    then show ?thesis using assms(1,3) x by (simp add: sys_dup_def)
  next
    case (Some y)
    obtain fd f where y: "y = (fd, f)" by fastforce
    have f: "f < NFILE" using argfd_Some assms(1,2) x Some y by blast
    obtain q s1 where a: "fdalloc f s = (q, s1)" by fastforce
    show ?thesis
    proof (cases q)
      case None
      then show ?thesis using assms(1,3) x Some y a fdalloc_cases [OF a] by (simp add: sys_dup_def)
    next
      case (Some fd')
      then have d: "filedup f s1 = Inr s'"
        using assms(3) x \<open>x = Some y\<close> y a by (auto simp: sys_dup_def rbind_eq_Inr)
      have "fd_inv (\<lambda>x. e x - one f x) s1" using fd_inv_fdalloc [OF assms(1) _ assms(2) f] a Some by blast
      from fd_inv_filedup [OF this d f] show ?thesis by (rule fd_inv_eq) simp
    qed
  qed
qed

lemma fd_inv_sys_close:
  assumes "fd_inv e s" "running s" "sys_close s = Inr (r, s')"
  shows "fd_inv e s'"
proof -
  obtain x where x: "argfd 0 s = Inr x" using assms(3) by (auto simp: sys_close_def rbind_eq_Inr)
  show ?thesis
  proof (cases x)
    case None
    then show ?thesis using assms(1,3) x by (simp add: sys_close_def)
  next
    case (Some y)
    obtain fd f where y: "y = (fd, f)" by fastforce
    have f: "fd < NOFILE" "ofile (me s) ! fd = Some f" "f < NFILE"
      using argfd_Some assms(1,2) x Some y by blast+
    have c: "fileclose f (set_fd fd None s) = Inr s'"
      using assms(3) x Some y by (auto simp: sys_close_def rbind_eq_Inr)
    from fd_inv_fileclose [OF fd_inv_fd_None [OF assms(1,2) f(1,2)] c f(3)] show ?thesis by (rule fd_inv_eq) simp
  qed
qed

section \<open>Opening files\<close>

lemma fd_inv_open_inode:
  assumes "fd_inv e s" "running s" "open_inode omode ip s = Inr (r, s')"
  shows "fd_inv e s'"
proof (cases "i_type (inode_at s ip) = T_DEVICE \<and> \<not> NDEV_OK (i_major (inode_at s ip))")
  case True
  then show ?thesis using assms(1,3) by (auto simp: open_inode_def dest!: keeps dview_fview)
next
  case nodev: False
  obtain q s1 where a: "filealloc s = (q, s1)" by fastforce
  show ?thesis
  proof (cases q)
    case None
    then have "fview s' = fview s"
      using assms(3) nodev a filealloc_None [of s s1] by (auto simp: open_inode_def dest!: keeps)
    then show ?thesis using fd_inv_fview assms(1) by blast
  next
    case (Some f)
    then have fa: "fd_inv (\<lambda>x. e x + one f x) s1" "f < NFILE" "f_ref (file_at s1 f) = 1"
      "s1 = upd_file f (\<lambda>x. x\<lparr>f_ref := 1\<rparr>) s"
      using fd_inv_filealloc [OF assms(1)] a by auto
    have run: "running s1" using fa(4) assms(2) by simp
    obtain q' s2 where b: "fdalloc f s1 = (q', s2)" by fastforce
    show ?thesis
    proof (cases q')
      case None
      then obtain s3 where s3: "fileclose f s1 = Inr s3" "fview s' = fview s3"
        using assms(3) nodev a Some b fdalloc_cases [OF b]
        by (auto simp: open_inode_def rbind_eq_Inr dest!: keeps)
      from fd_inv_fileclose [OF fa(1) s3(1) fa(2)] have "fd_inv e s3" by (rule fd_inv_eq) simp
      then show ?thesis using s3(2) fd_inv_fview by blast
    next
      case fd: (Some fd)
      then have i2: "fd_inv (\<lambda>x. e x + one f x - one f x) s2" "s2 = set_fd fd (Some f) s1"
        using fd_inv_fdalloc [OF fa(1) _ run fa(2)] b fdalloc_cases [OF b] by auto
      let ?s3 = "upd_file f (open_file omode ip (inode_at s2 ip)) s2"
      have "ftable s2 = ftable s1" using i2(2) by (simp add: set_fd_def upd_proc_def)
      then have "fd_inv (\<lambda>x. e x + one f x - one f x) ?s3"
        using fa(3) by (intro fd_inv_upd_file i2 fa(2)) (simp_all add: open_file_def Let_def)
      then have "fd_inv e ?s3" by (rule fd_inv_eq) simp
      moreover have "fview s' = fview ?s3"
        using assms(3) nodev a Some b fd
        by (auto simp: open_inode_def Let_def rbind_eq_Inr split: if_splits dest!: keeps)
      ultimately show ?thesis using fd_inv_fview by blast
    qed
  qed
qed

lemma fd_inv_sys_open:
  assumes "fd_inv e s" "running s" "sys_open s = Inr (r, s')"
  shows "fd_inv e s'"
proof -
  have "fview s' = fview s \<or> (\<exists>om ip s1. open_inode om ip s1 = Inr (r, s') \<and> fview s1 = fview s)"
    using assms(3)
    by (auto simp: sys_open_def rbind_eq_Inr split: option.splits if_splits dest!: keeps)
  then show ?thesis using assms(1,2) fd_inv_open_inode fd_inv_fview running_fview(4) by blast
qed

section \<open>Pipes\<close>

lemma filealloc_running: "filealloc s = (q, s') \<Longrightarrow> running s' = running s"
  by (auto simp: filealloc_def split: option.splits)

lemma fd_inv_close_opt:
  assumes "fd_inv e s" "close_opt q s = Inr s'" "\<And>f. q = Some f \<Longrightarrow> f < NFILE"
  shows "fd_inv (\<lambda>x. e x - (if q = Some x then 1 else 0)) s'"
proof (cases q)
  case (Some f)
  then have "fd_inv (\<lambda>x. e x - one f x) s'"
    using fd_inv_fileclose [OF assms(1), of f s'] assms(2,3) by (simp add: close_opt_def)
  then show ?thesis by (rule fd_inv_eq) (use Some in auto)
qed (use assms in \<open>simp add: close_opt_def\<close>)

lemma fd_inv_pipealloc_bad:
  assumes "fd_inv (\<lambda>x. e x + (if q = Some x then 1 else 0) + (if q' = Some x then 1 else 0)) s"
    "pipealloc_bad q q' s = Inr (r, s')" "\<And>f. q = Some f \<or> q' = Some f \<Longrightarrow> f < NFILE"
  shows "r = None \<and> fd_inv e s'"
proof -
  obtain s1 where c: "close_opt q s = Inr s1" "close_opt q' s1 = Inr s'" "r = None"
    using assms(2) by (auto simp: pipealloc_bad_def rbind_eq_Inr)
  have "fd_inv (\<lambda>x. e x + (if q = Some x then 1 else 0) + (if q' = Some x then 1 else 0) - (if q = Some x then 1 else 0)) s1"
    by (rule fd_inv_close_opt [OF assms(1) c(1)]) (use assms(3) in blast)
  from fd_inv_close_opt [OF this c(2)] have "fd_inv e s'"
    using assms(3) by (rule_tac fd_inv_eq) auto
  then show ?thesis using c(3) by simp
qed

lemma pipealloc_cases:
  assumes "pipealloc s = Inr (r, s')"
  obtains (none) s1 where "filealloc s = (None, s1)" "pipealloc_bad None None s1 = Inr (r, s')"
  | (one) f0 s1 s2 where "filealloc s = (Some f0, s1)" "filealloc s1 = (None, s2)" "pipealloc_bad (Some f0) None s2 = Inr (r, s')"
  | (nomem) f0 f1 s1 s2 s3 where "filealloc s = (Some f0, s1)" "filealloc s1 = (Some f1, s2)" "fview s3 = fview s2"
      "pipealloc_bad (Some f0) (Some f1) s3 = Inr (r, s')"
  | (pipe) f0 f1 s1 s2 pi s3 d s4 where "filealloc s = (Some f0, s1)" "filealloc s1 = (Some f1, s2)" "kalloc s2 = (pi, s3)"
      "pi \<noteq> 0" "if kver s3 \<ge> 4 then kalloc s3 = (d, s4) \<and> d \<noteq> 0 else s4 = s3 \<and> d = 0"
      "r = Some (f0, f1)" "s' = pipealloc_init f0 f1 pi d s4"
proof -
  obtain q s1 where a: "filealloc s = (q, s1)" by fastforce
  show thesis
  proof (cases q)
    case None
    then show ?thesis using assms a none by (simp add: pipealloc_def)
  next
    case f0: (Some f0)
    obtain q' s2 where b: "filealloc s1 = (q', s2)" by fastforce
    show ?thesis
    proof (cases q')
      case None
      then show ?thesis using assms a f0 b one by (simp add: pipealloc_def)
    next
      case f1: (Some f1)
      obtain pi s3 where k: "kalloc s2 = (pi, s3)" by fastforce
      obtain d s4 where k': "kalloc s3 = (d, s4)" by fastforce
      note f = a [unfolded f0] b [unfolded f1]
      note fv = fview_kalloc [OF k] fview_kalloc [OF k']
      consider "pi = 0" | "pi \<noteq> 0" "kver s3 \<ge> 4" "d = 0" | "pi \<noteq> 0" "kver s3 \<ge> 4" "d \<noteq> 0" | "pi \<noteq> 0" "\<not> kver s3 \<ge> 4"
        by blast
      then show ?thesis
      proof cases
        case 1
        then show ?thesis using assms f k fv nomem [OF f] by (simp add: pipealloc_def)
      next
        case 2
        then obtain s5 where "kfree pi s4 = Inr s5" "pipealloc_bad (Some f0) (Some f1) s5 = Inr (r, s')"
          using assms f k k' by (auto simp: pipealloc_def rbind_eq_Inr)
        then show ?thesis using fv nomem [OF f, of s5] by (auto dest!: fview_kfree)
      next
        case 3
        then show ?thesis using assms f k k' pipe [OF f k] by (auto simp: pipealloc_def)
      next
        case 4
        then show ?thesis using assms f k pipe [OF f k, of 0 s3] by (auto simp: pipealloc_def)
      qed
    qed
  qed
qed

lemma fd_inv_pipealloc_init:
  assumes "fd_inv e s" "f0 < NFILE" "f1 < NFILE" "f_ref (file_at s f0) \<noteq> 0" "f_ref (file_at s f1) \<noteq> 0"
  shows "fd_inv e (pipealloc_init f0 f1 pi d s)" "running (pipealloc_init f0 f1 pi d s) = running s"
proof -
  have "length (ftable s) = NFILE" by (rule fd_inv_table [OF assms(1)])
  then show "fd_inv e (pipealloc_init f0 f1 pi d s)"
    unfolding pipealloc_init_def Let_def
    by (intro fd_inv_upd_file)
      (use assms in \<open>auto simp: upd_file_def nth_list_update fview_pipes\<close>)
  show "running (pipealloc_init f0 f1 pi d s) = running s"
    by (simp add: pipealloc_init_def Let_def fview_pipes)
qed

lemma fd_inv_pipealloc:
  assumes "fd_inv e s" "running s" "pipealloc s = Inr (r, s')"
  shows "case r of None \<Rightarrow> fd_inv e s'
    | Some (f0, f1) \<Rightarrow> fd_inv (\<lambda>x. e x + one f0 x + one f1 x) s' \<and> running s' \<and> f0 < NFILE \<and> f1 < NFILE"
  using assms(3)
proof (cases rule: pipealloc_cases)
  case (none s1)
  then show ?thesis
    using assms(1) filealloc_None [OF none(1)] fd_inv_pipealloc_bad [of e None None s1 r s'] by auto
next
  case (one f0 s1 s2)
  note a = fd_inv_filealloc [OF assms(1) one(1)]
  then have "fd_inv (\<lambda>x. e x + (if Some f0 = Some x then 1 else 0) + (if None = Some x then 1 else 0)) s2"
    using filealloc_None [OF one(2)] by (auto intro: fd_inv_eq)
  from fd_inv_pipealloc_bad [OF this one(3)] show ?thesis using a by auto
next
  case (nomem f0 f1 s1 s2 s3)
  note a = fd_inv_filealloc [OF assms(1) nomem(1)]
  note b = fd_inv_filealloc [OF conjunct1 [OF a] nomem(2)]
  have "fd_inv (\<lambda>x. e x + one f0 x + one f1 x) s3" using b nomem(3) fd_inv_fview by blast
  then have "fd_inv (\<lambda>x. e x + (if Some f0 = Some x then 1 else 0) + (if Some f1 = Some x then 1 else 0)) s3"
    by (rule fd_inv_eq) auto
  then have "r = None \<and> fd_inv e s'" by (rule fd_inv_pipealloc_bad [OF _ nomem(4)]) (use a b in blast)
  then show ?thesis by simp
next
  case (pipe f0 f1 s1 s2 pi s3 d s4)
  note a = fd_inv_filealloc [OF assms(1) pipe(1)]
  note b = fd_inv_filealloc [OF conjunct1 [OF a] pipe(2)]
  have "fview s4 = fview s3" using pipe(5) by (auto split: if_splits dest!: fview_kalloc)
  then have v: "fview s4 = fview s2" using fview_kalloc [OF pipe(3)] by simp
  then have i: "fd_inv (\<lambda>x. e x + one f0 x + one f1 x) s4" using b fd_inv_fview by blast
  have t: "ftable s4 = ftable s2" using v by (simp add: fview_def)
  have l: "length (ftable s1) = NFILE" using a fd_inv_table by blast
  have "f0 \<noteq> f1" using a b by auto
  then have "f_ref (file_at s2 f0) = 1" "f_ref (file_at s2 f1) = 1"
    using a b l by (auto simp: upd_file_def nth_list_update)
  then have "f_ref (file_at s4 f0) \<noteq> 0" "f_ref (file_at s4 f1) \<noteq> 0" by (simp_all add: t)
  moreover have "running s4"
    using running_fview(4) [OF v] filealloc_running [OF pipe(1)] filealloc_running [OF pipe(2)] assms(2) by simp
  ultimately show ?thesis
    using fd_inv_pipealloc_init [OF i] a b pipe(6,7) by auto
qed

text \<open>The failure path of \<^verbatim>\<open>sys_pipe\<close> and its end.\<close>

lemma fd_inv_close2:
  assumes "fd_inv (\<lambda>x. e x + one f0 x + one f1 x) s" "f0 < NFILE" "f1 < NFILE"
    "rbind (fileclose f0 s) (\<lambda>s. rbind (fileclose f1 s) (\<lambda>s. Inr (- 1, s))) = Inr (r, s')"
  shows "fd_inv e s'"
proof -
  obtain s1 where c: "fileclose f0 s = Inr s1" "fileclose f1 s1 = Inr s'" using assms(4) by (auto simp: rbind_eq_Inr)
  from fd_inv_fileclose [OF fd_inv_fileclose [OF assms(1) c(1) assms(2)] c(2) assms(3)] show ?thesis
    by (rule fd_inv_eq) simp
qed

lemma sys_pipe_cases:
  assumes "sys_pipe s = Inr (r, s')"
  obtains (noalloc) "pipealloc s = Inr (None, s')" "r = - 1"
  | (fd0) f0 f1 s1 where "pipealloc s = Inr (Some (f0, f1), s1)" "fdalloc f0 s1 = (None, s1)"
      "rbind (fileclose f0 s1) (\<lambda>s. rbind (fileclose f1 s) (\<lambda>s. Inr (- 1, s))) = Inr (r, s')"
  | (fd1) f0 f1 s1 fd0 s2 where "pipealloc s = Inr (Some (f0, f1), s1)" "fdalloc f0 s1 = (Some fd0, s2)" "fdalloc f1 s2 = (None, s2)"
      "rbind (fileclose f0 (set_fd fd0 None s2)) (\<lambda>s. rbind (fileclose f1 s) (\<lambda>s. Inr (- 1, s))) = Inr (r, s')"
  | (copy) f0 f1 s1 fd0 s2 fd1 s3 s4 ok where "pipealloc s = Inr (Some (f0, f1), s1)" "fdalloc f0 s1 = (Some fd0, s2)"
      "fdalloc f1 s2 = (Some fd1, s3)" "fview s4 = fview s3"
      "if ok then r = 0 \<and> s' = s4
       else rbind (fileclose f0 (set_fd fd1 None (set_fd fd0 None s4))) (\<lambda>s. rbind (fileclose f1 s) (\<lambda>s. Inr (- 1, s))) = Inr (r, s')"
proof -
  obtain a q s1 where p: "argaddr 0 s = Inr a" "pipealloc s = Inr (q, s1)"
    using assms by (auto simp: sys_pipe_def rbind_eq_Inr)
  show thesis
  proof (cases q)
    case None
    then show ?thesis using assms p noalloc by (simp add: sys_pipe_def)
  next
    case (Some y)
    obtain f0 f1 where y: "y = (f0, f1)" by fastforce
    obtain g s2 where a0: "fdalloc f0 s1 = (g, s2)" by fastforce
    show ?thesis
    proof (cases g)
      case None
      then show ?thesis
        using assms p Some y a0 fd0 fdalloc_cases [OF a0] by (auto simp: sys_pipe_def Let_def)
    next
      case g: (Some d0)
      obtain h s3 where a1: "fdalloc f1 s2 = (h, s3)" by fastforce
      show ?thesis
      proof (cases h)
        case None
        then show ?thesis
          using assms p Some y a0 g a1 fd1 fdalloc_cases [OF a1] by (auto simp: sys_pipe_def Let_def)
      next
        case h: (Some d1)
        obtain ok0 t ok s4 where c: "copyout_me a (int_bytes (int d0)) s3 = Inr (ok0, t)"
          "(if ok0 then copyout_me (a + 4) (int_bytes (int d1)) t else Inr (False, t)) = Inr (ok, s4)"
          "(if \<not> ok then rbind (fileclose f0 (set_fd d1 None (set_fd d0 None s4))) (\<lambda>s. rbind (fileclose f1 s) (\<lambda>s. Inr (- 1, s)))
            else Inr (0, s4)) = Inr (r, s')"
          using assms p Some y a0 g a1 h by (simp add: sys_pipe_def Let_def rbind_eq_Inr) blast
        have "fview s4 = fview s3"
          using c(1,2) by (auto simp: copyout_me_def Let_def split: if_splits dest!: keeps)
        then show ?thesis
          using copy [of f0 f1 s1 d0 s2 d1 s3 s4 ok] p Some y a0 g a1 h c(3) by (cases ok) auto
      qed
    qed
  qed
qed

lemma set_fd_ofile:
  "running s \<Longrightarrow> length (ofile (me s)) = NOFILE \<Longrightarrow> fd < NOFILE \<Longrightarrow> ofile (me (set_fd fd x s)) = (ofile (me s))[fd := x]"
  by (simp add: set_fd_def upd_proc_def running_def)

lemma fd_inv_length: "fd_inv e s \<Longrightarrow> running s \<Longrightarrow> length (ofile (me s)) = NOFILE"
  using fd_inv_slot [of e s "cur s"] by (simp add: running_def slot_ok_def pview_def)

lemma fd_inv_sys_pipe:
  assumes "fd_inv e s" "running s" "sys_pipe s = Inr (r, s')"
  shows "fd_inv e s'"
  using assms(3)
proof (cases rule: sys_pipe_cases)
  case noalloc
  then show ?thesis using fd_inv_pipealloc [OF assms(1,2)] by fastforce
next
  case (fd0 f0 f1 s1)
  note a = fd_inv_pipealloc [OF assms(1,2) fd0(1)]
  show ?thesis by (rule fd_inv_close2 [OF _ _ _ fd0(3)]) (use a in auto)
next
  case (fd1 f0 f1 s1 d0 s2)
  note a = fd_inv_pipealloc [OF assms(1,2) fd1(1), simplified]
  note b = fd_inv_fdalloc [OF conjunct1 [OF a] fd1(2)]
  have c: "fd_inv (\<lambda>x. e x + one f0 x + one f1 x - one f0 x) s2" "running s2" "d0 < NOFILE" "ofile (me s2) ! d0 = Some f0"
    using a b by auto
  have "fd_inv (\<lambda>x. e x + one f0 x + one f1 x) (set_fd d0 None s2)"
    by (rule fd_inv_eq [OF fd_inv_fd_None [OF c]]) simp
  then show ?thesis by (rule fd_inv_close2 [OF _ _ _ fd1(4)]) (use a in auto)
next
  case (copy f0 f1 s1 d0 s2 d1 s3 s4 ok)
  note a = fd_inv_pipealloc [OF assms(1,2) copy(1), simplified]
  note b = fd_inv_fdalloc [OF conjunct1 [OF a] copy(2)]
  have b': "fd_inv (\<lambda>x. e x + one f0 x + one f1 x - one f0 x) s2" "running s2" "d0 < NOFILE" "ofile (me s2) ! d0 = Some f0"
    using a b by auto
  note c = fd_inv_fdalloc [OF b'(1) copy(3) b'(2)]
  have c': "fd_inv (\<lambda>x. e x + one f0 x + one f1 x - one f0 x - one f1 x) s3" "running s3" "d1 < NOFILE" "ofile (me s3) ! d1 = Some f1"
    using a c by auto
  have r4: "running s4" using running_fview(4) [OF copy(4)] c'(2) by simp
  have i4: "fd_inv e s4" by (rule fd_inv_eq [OF fd_inv_fview [OF c'(1) copy(4)]]) simp
  have s3: "s3 = set_fd d1 (Some f1) s2" "ofile (me s2) ! d1 = None" using fdalloc_cases [OF copy(3)] by auto
  have of3: "ofile (me s3) = (ofile (me s2))[d1 := Some f1]"
    unfolding s3(1) by (rule set_fd_ofile [OF b'(2) fd_inv_length [OF b'(1,2)] c'(3)])
  have d: "d0 \<noteq> d1" using b'(4) s3(2) by auto
  have o4: "ofile (me s4) = ofile (me s3)"
    using running_fview(5) [OF copy(4), of "cur s3"] running_fview(1) [OF copy(4)] c'(2) by (simp add: running_def)
  have e0: "ofile (me s4) ! d0 = Some f0" "ofile (me s4) ! d1 = Some f1" using o4 of3 d b'(4) c'(4) by simp_all
  show ?thesis
  proof (cases ok)
    case True
    then show ?thesis using i4 copy(5) by simp
  next
    case False
    let ?t = "set_fd d0 None s4"
    have t: "fd_inv (\<lambda>x. e x + one f0 x) ?t" by (rule fd_inv_fd_None [OF i4 r4 b'(3) e0(1)])
    have "ofile (me ?t) ! d1 = Some f1"
      using set_fd_ofile [OF r4 fd_inv_length [OF i4 r4] b'(3)] d e0(2) by simp
    then have "fd_inv (\<lambda>x. e x + one f0 x + one f1 x) (set_fd d1 None ?t)"
      using fd_inv_fd_None [OF t _ c'(3)] r4 by simp
    then show ?thesis
      using copy(5) False a by (intro fd_inv_close2 [of e f0 f1]) auto
  qed
qed

end
