(* ===== verification/Fd_Procs.thy ===== *)
theory Fd_Procs
  imports Fd_Calls
begin

text \<open>Descriptors and counts through \<^verbatim>\<open>fork\<close>, \<^verbatim>\<open>exit\<close> and \<^verbatim>\<open>wait\<close>, and through the dispatcher.\<close>

section \<open>Process slots\<close>

definition no_files :: "proc \<Rightarrow> bool" where
  "no_files p \<longleftrightarrow> set (ofile p) \<subseteq> {None}"

lemma no_files_nth: "no_files p \<Longrightarrow> i < length (ofile p) \<Longrightarrow> ofile p ! i = None"
  unfolding no_files_def using nth_mem by fastforce

lemma fd_inv_idle_none: "fd_inv e s \<Longrightarrow> i < length (procs s) \<Longrightarrow> idle (procs s ! i) \<Longrightarrow> no_files (procs s ! i)"
  using fd_inv_slot [of e s i] by (simp add: slot_ok_def pview_def no_files_def)

lemma fd_inv_upd_idle:
  assumes "fd_inv e s" "i < length (procs s)" "ofile (g (procs s ! i)) = ofile (procs s ! i)"
    "idle (g (procs s ! i)) \<Longrightarrow> no_files (procs s ! i)"
  shows "fd_inv e (upd_proc i g s)"
proof -
  have "dview (upd_proc i g s) = (ftable s, (map pview (procs s))[i := (fst (map pview (procs s) ! i), idle (g (procs s ! i)))])"
    using assms(2,3) by (simp add: dview_upd_proc pview_def) (simp add: dview_def)
  then show ?thesis
    using fd_ok_idle [of e "ftable s" "map pview (procs s)" i "idle (g (procs s ! i))"] assms
    by (simp add: dview_def pview_def no_files_def)
qed

lemma fd_inv_freeproc:
  assumes "fd_inv e s" "i < length (procs s)" "no_files (procs s ! i)" "freeproc i s = Inr s'"
  shows "fd_inv e s'"
proof -
  obtain s1 where s1: "fview s1 = fview s" "s' = upd_proc i clear_proc s1"
    using assms(4) by (auto simp: freeproc_def Let_def rbind_eq_Inr split: if_splits dest!: keeps)
  have o: "ofile (procs s1 ! i) = ofile (procs s ! i)" using running_fview(5) [OF s1(1) assms(2)] .
  show ?thesis
    unfolding s1(2)
    by (rule fd_inv_upd_idle [OF fd_inv_fview [OF assms(1) s1(1)]])
      (use running_fview(3) [OF s1(1)] assms(2,3) o in \<open>simp_all add: clear_proc_def no_files_def\<close>)
qed

lemma fview_set_memory [simp]:
  "fview (upd_proc i (\<lambda>p. p\<lparr>pagetable := x\<rparr>) s) = fview s" "fview (upd_proc i (\<lambda>p. p\<lparr>trapframe := x\<rparr>) s) = fview s"
  "fview (upd_proc i (\<lambda>p. p\<lparr>pcontext := g p\<rparr>) s) = fview s"
  by (simp_all add: fview_upd_proc pview_def idle_def)

lemma fd_inv_allocproc:
  assumes "fd_inv e s" "allocproc s = Inr (r, s')"
  shows "fd_inv e s' \<and> (\<forall>np. r = Some np \<longrightarrow> np < length (procs s) \<and> idle (procs s ! np) \<and> cur s' = cur s \<and>
    length (procs s') = length (procs s) \<and> (\<forall>j. j \<noteq> np \<longrightarrow> procs s' ! j = procs s ! j) \<and>
    \<not> idle (procs s' ! np) \<and> no_files (procs s' ! np))"
proof (cases "first_proc (\<lambda>p. pstate p = UNUSED) (procs s)")
  case None
  then show ?thesis using assms by (simp add: allocproc_def)
next
  case (Some i)
  then have i: "i < length (procs s)" "idle (procs s ! i)" by (simp_all add: first_proc_Some idle_def)
  define s1 where "s1 = upd_proc i (\<lambda>p. p\<lparr>pid := nextpid s, pstate := USED, priority := PRIORITY_BASE\<rparr>) (s\<lparr>nextpid := nextpid s + 1\<rparr>)"
  have i1: "fd_inv e s1"
    unfolding s1_def by (rule fd_inv_upd_idle [OF fd_inv_fview [OF assms(1)]]) (use i in \<open>simp_all add: idle_def\<close>)
  have p1: "length (procs s1) = length (procs s)" "no_files (procs s1 ! i)"
    using i fd_inv_idle_none [OF assms(1)] by (simp_all add: s1_def upd_proc_def no_files_def)
  obtain tf s2 where k: "kalloc s1 = (tf, s2)" by fastforce
  define s3 where "s3 = upd_proc i (\<lambda>p. p\<lparr>trapframe := tf\<rparr>) s2"
  have v3: "fview s3 = fview s1"
    unfolding s3_def using fview_kalloc [OF k] by (simp add: fview_upd_proc pview_def idle_def)
  have free: "fd_inv e s'" if "fview t = fview s1" "freeproc i t = Inr s'" for t
  proof (rule fd_inv_freeproc [OF fd_inv_fview [OF i1 that(1)] _ _ that(2)])
    show "i < length (procs t)" using running_fview(3) [OF that(1)] p1 i by simp
    show "no_files (procs t ! i)" using running_fview(5) [OF that(1)] p1 i by (simp add: no_files_def)
  qed
  have alloc: "allocproc s = (if tf = 0 then rbind (freeproc i s3) (\<lambda>s. Inr (None, s))
     else rbind (proc_pagetable tf s3) (\<lambda>(pt, s).
       let s = upd_proc i (\<lambda>p. p\<lparr>pagetable := pt\<rparr>) s
       in if pt = 0 then rbind (freeproc i s) (\<lambda>s. Inr (None, s))
          else Inr (Some i, upd_proc i (\<lambda>p. p\<lparr>pcontext := forkret_addr s # (kstack p + PGSZ) # replicate 12 0\<rparr>) s)))"
    using Some k by (simp add: allocproc_def allocpid_def s1_def s3_def Let_def)
  show ?thesis
  proof (cases r)
    case None
    then have "freeproc i s3 = Inr s' \<or>
        (\<exists>b. fview b = fview s1 \<and> freeproc i (upd_proc i (\<lambda>p. p\<lparr>pagetable := 0\<rparr>) b) = Inr s')"
      using assms(2) v3 unfolding alloc
      by (auto simp: Let_def rbind_eq_Inr split: if_splits dest!: keeps)
    then have "fd_inv e s'" using free v3 fview_set_memory(1) by metis
    then show ?thesis using None by simp
  next
    case np: (Some np)
    have f: "fview s' = fview s1" "np = i"
      using assms(2) v3 np unfolding alloc
      by (auto simp: Let_def rbind_eq_Inr split: if_splits dest!: keeps)
    have "\<not> idle (procs s1 ! i)" using i by (simp add: s1_def upd_proc_def idle_def)
    moreover have "pview (procs s' ! i) = pview (procs s1 ! i)"
      using pview_nth [OF f(1)] i p1(1) by simp
    ultimately have "\<not> idle (procs s' ! i)" "no_files (procs s' ! i)" using p1(2) by (simp_all add: pview_def no_files_def)
    moreover have "cur s' = cur s" using running_fview(1) [OF f(1)] by (simp add: s1_def upd_proc_def)
    ultimately show ?thesis
      using i f np fd_inv_fview [OF i1 f(1)] running_fview(3) [OF f(1)] p1(1) allocproc_others [of s i s'] assms(2)
      by auto
  qed
qed

section \<open>fork\<close>

definition forking :: "(nat \<Rightarrow> int) \<Rightarrow> nat \<Rightarrow> nat \<Rightarrow> nat \<Rightarrow> 'a fkernel_scheme \<Rightarrow> bool" where
  "forking e np c i s \<longleftrightarrow> fd_inv e s \<and> cur s = c \<and> c \<noteq> np \<and> c < length (procs s) \<and> np < length (procs s) \<and>
     \<not> idle (procs s ! np) \<and> (\<forall>j. i \<le> j \<and> j < NOFILE \<longrightarrow> ofile (procs s ! np) ! j = None)"

lemma forking_fview:
  assumes "forking e np c i s" "fview s' = fview s"
  shows "forking e np c i s'"
proof -
  have "np < length (procs s)" using assms(1) by (simp add: forking_def)
  then have "pview (procs s' ! np) = pview (procs s ! np)"
    by (rule pview_nth [OF assms(2)])
  moreover have "fd_inv e s'" using assms fd_inv_fview by (auto simp: forking_def)
  ultimately show ?thesis
    using assms(1) running_fview(1,3) [OF assms(2)] by (simp add: forking_def pview_def)
qed

lemma forking_dup_fd:
  assumes "forking e np c i s" "i < NOFILE" "dup_fd np i s = Inr s'"
  shows "forking e np c (Suc i) s'"
proof (cases "ofile (me s) ! i")
  case None
  then show ?thesis using assms by (auto simp: dup_fd_def forking_def)
next
  case (Some f)
  then obtain s1 where s1: "filedup f s = Inr s1" "s' = upd_proc np (\<lambda>q. q\<lparr>ofile := (ofile q)[i := Some f]\<rparr>) s1"
    using assms(3) by (auto simp: dup_fd_def rbind_eq_Inr)
  have F: "fd_inv e s" "cur s = c" "c \<noteq> np" "c < length (procs s)" "np < length (procs s)" "\<not> idle (procs s ! np)"
    "ofile (procs s ! np) ! i = None" using assms(1,2) by (simp_all add: forking_def)
  have sl: "slot_ok (ofile (procs s ! c), idle (procs s ! c))" "slot_ok (ofile (procs s ! np), idle (procs s ! np))"
    using fd_inv_slot [OF F(1)] F(4,5) by (simp_all add: pview_def)
  have f: "f < NFILE"
    using sl(1) Some assms(2) F(2) by (metis fst_conv nth_mem slot_ok_def)
  have l: "length (ofile (procs s ! np)) = NOFILE" using sl(2) by (simp add: slot_ok_def)
  have i1: "fd_inv (\<lambda>x. e x + one f x) s1" by (rule fd_inv_filedup [OF F(1) s1(1) f])
  have p1: "procs s1 = procs s" "cur s1 = cur s" using s1(1) by (auto simp: filedup_def split: if_splits)
  have "dview s' = (ftable s1, (map pview (procs s))[np := ((fst (map pview (procs s) ! np))[i := Some f], False)])"
    using s1(2) F p1 by (simp add: dview_upd_proc) (simp add: dview_def pview_def idle_def)
  moreover have "dview s1 = (ftable s1, map pview (procs s))" by (simp add: dview_def p1)
  ultimately have "fd_inv (\<lambda>x. e x + one f x + (if ofile (procs s ! np) ! i = Some x then 1 else 0) - (if Some f = Some x then 1 else 0)) s'"
    using fd_ok_set [OF i1 [unfolded \<open>dview s1 = _\<close>], of np i "Some f"] F f assms(2) by (simp add: pview_def)
  then have "fd_inv e s'" by (rule fd_inv_eq) (use F(7) in auto)
  moreover have "procs s' = (procs s)[np := (procs s ! np)\<lparr>ofile := (ofile (procs s ! np))[i := Some f]\<rparr>]" "cur s' = cur s"
    using s1(2) p1 by (simp_all add: upd_proc_def)
  ultimately show ?thesis
    using F l assms(1,2) by (auto simp: forking_def idle_def)
qed

lemma fd_inv_kfork:
  assumes "fd_inv e s" "running s" "kfork s = Inr (r, s')"
  shows "fd_inv e s'"
proof -
  obtain q s1 where a: "allocproc s = Inr (q, s1)" using assms(3) by (auto simp: kfork_def rbind_eq_Inr)
  note al = fd_inv_allocproc [OF assms(1) a]
  show ?thesis
  proof (cases q)
    case None
    then show ?thesis using assms(3) a al by (simp add: kfork_def)
  next
    case (Some np)
    then have np: "fd_inv e s1" "np < length (procs s)" "idle (procs s ! np)" "cur s1 = cur s"
      "length (procs s1) = length (procs s)" "\<not> idle (procs s1 ! np)" "no_files (procs s1 ! np)"
      using al by auto
    have ne: "cur s \<noteq> np" using np(3) assms(2) by (auto simp: running_def)
    have "length (ofile (procs s1 ! np)) = NOFILE"
      using fd_inv_slot [OF np(1)] np(2,5) by (simp add: slot_ok_def pview_def)
    then have f1: "forking e np (cur s) 0 s1"
      using np ne assms(2) no_files_nth [OF np(7)] by (simp add: forking_def running_def)
    obtain u s2 where u: "uvmcopy (pagetable (me s1)) (pagetable (procs s1 ! np)) (sz (me s1)) s1 = Inr (u, s2)"
      using assms(3) a Some by (auto simp: kfork_def rbind_eq_Inr)
    note v2 = fview_uvmcopy [OF u]
    show ?thesis
    proof (cases "u < 0")
      case True
      then have "freeproc np s2 = Inr s'" using assms(3) a Some u by (auto simp: kfork_def rbind_eq_Inr)
      then show ?thesis
        using fd_inv_freeproc [OF fd_inv_fview [OF np(1) v2], of np] running_fview(3,5) [OF v2] np
        by (simp add: no_files_def)
    next
      case False
      define t where "t = upd_proc np (\<lambda>q. q\<lparr>sz := sz (me s2)\<rparr>) s2"
      define t' where "t' = t\<lparr>mem := store_bytes (mem t) (trapframe (procs t ! np)) (load_bytes (mem t) (trapframe (me t)) 288)\<rparr>"
      define t'' where "t'' = t'\<lparr>mem := store64 (mem t') (trapframe (procs t ! np) + 112) 0\<rparr>"
      have vt: "fview t'' = fview s1" using v2 by (simp add: t''_def t'_def t_def)
      obtain s3 ip where s3: "rfold (dup_fd np) [0..<NOFILE] t'' = Inr s3"
        "s' = upd_proc np (\<lambda>q. q\<lparr>cwd := Some ip, pname := set_name (pname q) (pname (me (idup ip s3))),
                parent := Some (cur (idup ip s3)), pstate := RUNNABLE\<rparr>) (idup ip s3)"
        using assms(3) a Some u False
        by (auto simp: kfork_def Let_def rbind_eq_Inr t_def t'_def t''_def split: option.splits)
      have "forking e np (cur s) NOFILE s3"
        by (rule rfold_upt [OF s3(1), where I = "forking e np (cur s)"])
          (use forking_fview [OF f1 vt] forking_dup_fd in blast)+
      then have "forking e np (cur s) NOFILE (idup ip s3)" by (rule forking_fview) simp
      then show ?thesis
        unfolding s3(2) by (intro fd_inv_upd_idle) (simp_all add: forking_def idle_def)
    qed
  qed
qed

section \<open>exit and wait\<close>

lemma fd_inv_close_fd:
  assumes "fd_inv e s" "running s" "close_fd fd s = Inr s'" "fd < NOFILE"
  shows "fd_inv e s' \<and> running s' \<and> ofile (me s') = (ofile (me s))[fd := None]"
proof (cases "ofile (me s) ! fd")
  case None
  then show ?thesis using assms by (simp add: close_fd_def) (metis list_update_id)
next
  case (Some f)
  then obtain s1 where s1: "fileclose f s = Inr s1" "s' = set_fd fd None s1"
    using assms(3) by (auto simp: close_fd_def rbind_eq_Inr)
  have l: "length (ofile (me s)) = NOFILE" by (rule fd_inv_length [OF assms(1,2)])
  have "slot_ok (ofile (me s), idle (me s))"
    using fd_inv_slot [OF assms(1), of "cur s"] assms(2) by (simp add: running_def pview_def)
  then have f: "f < NFILE" using Some assms(4) by (metis fst_conv nth_mem slot_ok_def)
  have i1: "fd_inv (\<lambda>x. e x - one f x) s1" by (rule fd_inv_fileclose [OF assms(1) s1(1) f])
  have p: "running s1" "ofile (me s1) = ofile (me s)"
    using fileclose_procs [OF s1(1)] fd_inv_table [OF assms(1)] f assms(2) by (auto simp: running_def)
  have "fd_inv e s'"
    unfolding s1(2) by (rule fd_inv_eq [OF fd_inv_fd_None [OF i1 p(1) assms(4)]]) (use p(2) Some in simp_all)
  moreover have "ofile (me s') = (ofile (me s))[fd := None]"
    unfolding s1(2) using set_fd_ofile [OF p(1)] l p(2) assms(4) by simp
  ultimately show ?thesis using p(1) s1(2) by simp
qed

lemma fview_reparent_one: "fview (reparent_one ver p i s) = fview s"
  by (simp add: reparent_one_def fview_upd_proc pview_def idle_def)

lemma fview_reparent: "fview (reparent ver p s) = fview s"
proof -
  have "fview (fold (reparent_one ver p) is s) = fview s" for "is"
    by (induction "is" arbitrary: s) (simp_all add: fview_reparent_one)
  then show ?thesis by (simp add: reparent_def)
qed

lemma fd_inv_kexit:
  assumes "fd_inv e s" "running s" "kexit st s = Inr s'"
  shows "fd_inv e s'"
proof -
  obtain s1 x y s2 where e: "rfold close_fd [0..<NOFILE] s = Inr s1" "begin_op s1 = Inr x" "iput_ptr (cwd (me x)) x = Inr y"
    "end_op y = Inr s2"
    "s' = kexit_zombie (kver s2) (cur s2) st (upd_proc (cur s2) (\<lambda>p. p\<lparr>cwd := None\<rparr>) s2)"
    using assms(3) by (auto simp: kexit_def rbind_eq_Inr split: if_splits)
  have v: "fview s2 = fview s1" using e(2-4) by (auto dest!: fview_begin_op fview_iput_ptr fview_end_op)
  note k = e(1) v e(5)
  let ?I = "\<lambda>i s. fd_inv e s \<and> running s \<and> (\<forall>j < i. ofile (me s) ! j = None)"
  have "?I NOFILE s1"
  proof (rule rfold_upt [OF k(1), where I = ?I])
    fix i t t' assume a: "i < NOFILE" "?I i t" "close_fd i t = Inr t'"
    then have c: "fd_inv e t'" "running t'" "ofile (me t') = (ofile (me t))[i := None]"
      using fd_inv_close_fd [of e t i t'] by auto
    have "length (ofile (me t)) = NOFILE" using fd_inv_length a(2) by blast
    then show "?I (Suc i) t'" using a c by (auto simp: less_Suc_eq)
  qed (use assms in simp)
  then have s1: "fd_inv e s1" "running s1" "\<forall>j < NOFILE. ofile (me s1) ! j = None" by auto
  define t where "t = wakeup (kver s2) (Some (cur s2)) (proc_chan (parent (procs (reparent (kver s2) (cur s2)
      (upd_proc (cur s2) (\<lambda>p. p\<lparr>cwd := None\<rparr>) s2)) ! cur s2))) (reparent (kver s2) (cur s2) (upd_proc (cur s2) (\<lambda>p. p\<lparr>cwd := None\<rparr>) s2))"
  have vt: "fview t = fview s1" using k(2) by (simp add: t_def fview_reparent)
  have c: "cur s2 = cur s1" "cur s1 < length (procs s1)" using running_fview(1) [OF k(2)] s1(2) by (auto simp: running_def)
  have "no_files (me s1)"
    using s1(3) fd_inv_length [OF s1(1,2)] by (auto simp: no_files_def in_set_conv_nth)
  then have n: "no_files (procs t ! cur s1)" using running_fview(5) [OF vt c(2)] by (simp add: no_files_def)
  have "s' = upd_proc (cur s1) (\<lambda>q. q\<lparr>xstate := st, pstate := ZOMBIE\<rparr>) t"
    by (simp add: k(3) kexit_zombie_def t_def c(1) Let_def)
  then show ?thesis
    using fd_inv_upd_idle [OF fd_inv_fview [OF s1(1) vt]] n c(2) running_fview(3) [OF vt] by simp
qed

lemma fd_inv_kwait:
  assumes "fd_inv e s" "kwait_scan p addr s = Inr (WaitRet n, s')"
  shows "fd_inv e s'"
proof (cases "first_proc (\<lambda>q. parent q = Some p \<and> pstate q = ZOMBIE) (procs s)")
  case None
  then show ?thesis using assms by (auto simp: kwait_scan_def Let_def split: if_splits)
next
  case (Some i)
  then have i: "i < length (procs s)" "idle (procs s ! i)" by (simp_all add: first_proc_Some idle_def)
  let ?C = "if addr \<noteq> 0 then copyout (sz (procs s ! p)) (pagetable (procs s ! p)) (pagetable (procs s ! p)) addr
      (int_bytes (xstate (procs s ! i))) s else Inr (True, s)"
  have r: "rbind ?C (\<lambda>(ok, s1). if \<not> ok then Inr (WaitRet (- 1), s1)
      else rbind (freeproc i s1) (\<lambda>s2. Inr (WaitRet (pid (procs s ! i)), s2))) = Inr (WaitRet n, s')"
    using assms(2) Some unfolding kwait_scan_def Let_def by simp
  then obtain ok s1 where C: "?C = Inr (ok, s1)" by (cases ?C) auto
  have "if ok then freeproc i s1 = Inr s' else s' = s1"
    using r unfolding C by (cases ok) (auto simp: rbind_eq_Inr)
  with C have c: "fview s1 = fview s" "if ok then freeproc i s1 = Inr s' else s' = s1"
    by (auto split: if_splits dest!: keeps)
  have "no_files (procs s1 ! i)"
    using fd_inv_idle_none [OF assms(1) i] running_fview(5) [OF c(1) i(1)] by (simp add: no_files_def)
  then show ?thesis
    using c fd_inv_fview [OF assms(1) c(1)] fd_inv_freeproc [of e s1 i s'] i(1) running_fview(3) [OF c(1)]
    by (cases ok) auto
qed

end
