(* ===== verification/Fd_Claims.thy ===== *)
theory Fd_Claims
  imports Fd_Procs
begin

text \<open>
  The properties of open files: reference counts in every state that system calls reach, and
  \<^verbatim>\<open>pipe\<close>, which either installs two descriptors or leaves everything as it was.
\<close>

section \<open>Every system call\<close>

lemma fview_kkill: "kkill n s = (r, s') \<Longrightarrow> fview s' = fview s"
proof -
  assume k: "kkill n s = (r, s')"
  have "pview (kill_proc p) = pview p" for p by (auto simp: pview_def kill_proc_def idle_def Let_def)
  then show ?thesis using k by (auto simp: kkill_def fview_upd_proc split: option.splits)
qed

lemma fd_inv_sys_read:
  assumes "fd_inv e s" "running s" "sys_read devsw_read s = Inr (r, s')"
  shows "fd_inv e s'"
proof -
  obtain a n x where x: "argfd 0 s = Inr x"
    "(case x of None \<Rightarrow> Inr (- 1, s) | Some (_, f) \<Rightarrow> fileread devsw_read f a n s) = Inr (r, s')"
    using assms(3) by (auto simp: sys_read_def rbind_eq_Inr)
  then show ?thesis
    using assms argfd_Some [OF _ assms(1,2)] rd.fd_safe_fileread [of _ a n s r s']
    by (auto simp: fd_safe_def split: option.splits)
qed

lemma fd_inv_sys_write:
  assumes "fd_inv e s" "running s" "sys_write devsw_write s = Inr (r, s')"
  shows "fd_inv e s'"
proof -
  obtain a n x where x: "argfd 0 s = Inr x"
    "(case x of None \<Rightarrow> Inr (- 1, s) | Some (_, f) \<Rightarrow> filewrite devsw_write f a n s) = Inr (r, s')"
    using assms(3) by (auto simp: sys_write_def rbind_eq_Inr)
  then show ?thesis
    using assms argfd_Some [OF _ assms(1,2)] wr.fd_safe_filewrite [of _ a n s r s']
    by (auto simp: fd_safe_def split: option.splits)
qed

lemma fview_filestat [keeps]: "filestat pad f a s = Inr (r, s') \<Longrightarrow> fview s' = fview s"
  by (auto simp: filestat_def copyout_me_def Let_def rbind_eq_Inr split: if_splits dest!: keeps)

lemma fview_sys_fstat: "sys_fstat pad s = Inr (r, s') \<Longrightarrow> fview s' = fview s"
  by (auto simp: sys_fstat_def rbind_eq_Inr split: option.splits prod.splits dest!: keeps)

lemma fd_inv_sys_wait:
  assumes "fd_inv e s" "sys_wait s = Inr (r, s')"
  shows "fd_inv e s'"
proof -
  obtain p w s1 where w: "kwait_scan (cur s) p s = Inr (w, s1)"
    "(case w of WaitRet n \<Rightarrow> Inr (n, s1) | WaitSleep \<Rightarrow> Inl WouldSleep) = Inr (r, s')"
    using assms(2) by (auto simp: sys_wait_def rbind_eq_Inr)
  then show ?thesis using fd_inv_kwait [OF assms(1)] by (cases w) auto
qed

lemma fd_inv_run_call:
  assumes "fd_inv e s" "running s" "run_call pad c s = Inr (v, s')"
  shows "fd_inv e s'"
proof (cases "c \<in> {SYS_exec, SYS_fstat, SYS_chdir, SYS_mknod, SYS_unlink, SYS_link, SYS_mkdir, SYS_sbrk, SYS_kill}")
  case True
  then have "fview s' = fview s"
    using assms(3) by (auto simp: rbind_eq_Inr sys_kill_def dest!: keeps fview_sys_fstat fview_kkill)
  then show ?thesis using fd_inv_fview assms(1) by blast
next
  case False
  then show ?thesis
    using assms
    by (cases c)
      (auto simp: rbind_eq_Inr sys_fork_def sys_exit_def sys_pause_def pause_turn_def split: if_splits prod.splits option.splits
        intro: fd_inv_kfork fd_inv_kexit fd_inv_sys_wait fd_inv_sys_pipe fd_inv_sys_read fd_inv_sys_dup fd_inv_sys_open
          fd_inv_sys_write fd_inv_sys_close)
qed

lemma fd_inv_syscall:
  assumes "fd_inv e s" "running s" "syscall pad s = Inr s'"
  shows "fd_inv e s'"
proof (cases "syscall_at (sint (ucast (load64 (mem s) (trapframe (me s) + 168)) :: u32))")
  case None
  then show ?thesis using assms(1,3) fd_inv_fview [OF assms(1), of s'] by (auto simp: syscall_def)
next
  case (Some c)
  then obtain v s1 where v: "run_call pad c s = Inr (v, s1)" "s' = (case v of None \<Rightarrow> s1 | Some v \<Rightarrow> tf_store 112 v s1)"
    using assms(3) by (auto simp: syscall_def rbind_eq_Inr)
  have "fview s' = fview s1" using v(2) by (simp split: option.splits)
  then show ?thesis using fd_inv_run_call [OF assms(1,2) v(1)] fd_inv_fview by blast
qed

section \<open>Reachable states\<close>

text \<open>At boot no file is open. Afterwards processes that run make system calls; other activity of the
  kernel changes neither files nor descriptors, and makes or ends no process.\<close>

definition fd_boot :: "'a fkernel_scheme \<Rightarrow> bool" where
  "fd_boot s \<longleftrightarrow> length (ftable s) = NFILE \<and> (\<forall>x \<in> set (ftable s). f_ref x = 0 \<and> f_type x = FD_NONE) \<and>
     (\<forall>p \<in> set (procs s). ofile p = replicate NOFILE None)"

inductive sys_reach :: "'a skernel_scheme \<Rightarrow> bool" where
  boot: "fd_boot s \<Longrightarrow> sys_reach s"
| call: "sys_reach s \<Longrightarrow> i < length (procs s) \<Longrightarrow> pstate (procs s ! i) = RUNNING \<Longrightarrow>
    syscall pad (s\<lparr>cur := i\<rparr>) = Inr s' \<Longrightarrow> sys_reach s'"
| other: "sys_reach s \<Longrightarrow> dview s' = dview s \<Longrightarrow> sys_reach s'"

lemma fd_boot_inv: "fd_boot s \<Longrightarrow> fd_inv (\<lambda>_. 0) s"
proof -
  assume b: "fd_boot s"
  have "count_list (ofile p) (Some f) = 0" if "p \<in> set (procs s)" for p f
    using b that by (simp add: fd_boot_def count_list_0_iff)
  then have "fd_count (map pview (procs s)) f = 0" for f
    by (simp add: fd_count_def sum_list_eq_0_iff pview_def)
  then show ?thesis
    using b by (auto simp: fd_ok_def dview_def slot_ok_def pview_def fd_boot_def)
qed

lemma reach_inv: "sys_reach s \<Longrightarrow> fd_inv (\<lambda>_. 0) s"
proof (induction rule: sys_reach.induct)
  case (call s i pad s')
  have "dview (s\<lparr>cur := i\<rparr>) = dview s" by (simp add: dview_def)
  then have "fd_inv (\<lambda>_. 0) (s\<lparr>cur := i\<rparr>)" using call.IH by simp
  moreover have "running (s\<lparr>cur := i\<rparr>)" using call.hyps by (simp add: running_def idle_def)
  ultimately show ?case using fd_inv_syscall call.hyps(4) by blast
next
  case (other s s')
  then show ?case by simp
qed (rule fd_boot_inv)

lemma count_list_card: "count_list xs y = card {j. j < length xs \<and> xs ! j = y}"
  by (simp add: count_list_eq_length_filter length_filter_conv_card eq_commute [of y])

lemma sum_list_card: "sum_list (map (\<lambda>p. card {j. P p j}) ps) = card {(i, j). i < length ps \<and> P (ps ! i) j}"
  if "\<And>p. finite {j. P p j}"
proof -
  have "{(i, j). i < length ps \<and> P (ps ! i) j} = (SIGMA i : {..<length ps}. {j. P (ps ! i) j})" by auto
  then have "card {(i, j). i < length ps \<and> P (ps ! i) j} = (\<Sum>i < length ps. card {j. P (ps ! i) j})"
    using that by (simp add: card_SigmaI)
  also have "\<dots> = sum_list (map (\<lambda>p. card {j. P p j}) ps)"
    by (simp add: sum_list_sum_nth atLeast0LessThan)
  finally show ?thesis by simp
qed

lemma fd_count_card:
  "fd_count (map pview ps) f = card {(i, fd). i < length ps \<and> fd < length (ofile (ps ! i)) \<and> ofile (ps ! i) ! fd = Some f}"
  unfolding fd_count_def by (simp add: pview_def comp_def count_list_card sum_list_card)

section \<open>Properties\<close>

text \<open>C22. In every state that any sequence of system calls by running processes reaches from boot, with
  \<^verbatim>\<open>fork\<close>, \<^verbatim>\<open>exit\<close>, \<^verbatim>\<open>wait\<close>, \<^verbatim>\<open>open\<close>, \<^verbatim>\<open>pipe\<close>, \<^verbatim>\<open>dup\<close>, \<^verbatim>\<open>close\<close> and their failures among them, the reference count of
  every entry of the file table is the number of descriptors of processes that refer to it, an
  entry without references has type \<^verbatim>\<open>FD_NONE\<close>, and a descriptor always refers to an entry in use.\<close>

theorem fd_refcounts:
  assumes "sys_reach s"
  shows "(\<forall>f < NFILE. f_ref (file_at s f) =
      int (card {(i, fd). i < length (procs s) \<and> fd < NOFILE \<and> ofile (procs s ! i) ! fd = Some f}) \<and>
      (f_ref (file_at s f) = 0 \<longrightarrow> f_type (file_at s f) = FD_NONE)) \<and>
    (\<forall>i < length (procs s). \<forall>fd < NOFILE. \<forall>f. ofile (procs s ! i) ! fd = Some f \<longrightarrow> f < NFILE \<and> 0 < f_ref (file_at s f))"
proof -
  have inv: "fd_inv (\<lambda>_. 0) s" by (rule reach_inv [OF assms])
  have len: "length (ofile (procs s ! i)) = NOFILE" if "i < length (procs s)" for i
    using fd_inv_slot [OF inv that] by (simp add: slot_ok_def pview_def)
  then have cnt: "fd_count (map pview (procs s)) f =
      card {(i, fd). i < length (procs s) \<and> fd < NOFILE \<and> ofile (procs s ! i) ! fd = Some f}" for f
    unfolding fd_count_card by (intro arg_cong [where f = card]) auto
  have ref: "f_ref (file_at s f) = int (fd_count (map pview (procs s)) f)" "f_ref (file_at s f) = 0 \<longrightarrow> f_type (file_at s f) = FD_NONE"
    if "f < NFILE" for f using inv that by (simp_all add: dview_def fd_ok_def)
  have pos: "f < NFILE \<and> 0 < f_ref (file_at s f)"
    if "i < length (procs s)" "fd < NOFILE" "ofile (procs s ! i) ! fd = Some f" for i fd f
    using fd_ok_count_pos [OF inv [unfolded dview_def], of i fd f] that by (simp add: pview_def)
  show ?thesis using ref(1) [unfolded cnt] ref(2) pos by blast
qed

text \<open>A machine that has just booted, with one process.\<close>

definition ex_proc :: proc where
  "ex_proc = \<lparr>pstate = RUNNING, chan = NoChan, killed = False, xstate = 0, pid = 1, parent = None, kstack = 0, sz = 0,
     pagetable = 0, trapframe = 0, pcontext = [], ofile = replicate NOFILE None, cwd = None, pname = replicate 16 0, priority = 0\<rparr>"

definition ex_file :: kfile where
  "ex_file = \<lparr>f_type = FD_NONE, f_ref = 0, f_readable = False, f_writable = False, f_pipe = 0, f_ip = None, f_off = 0, f_major = 0\<rparr>"

definition ex_sys :: "memory \<Rightarrow> skernel" where
  "ex_sys m = \<lparr>mem = m, freelist = 0, kend = 0, etext = 0, trampoline = 0, procs = [ex_proc], nextpid = 2, initproc = None,
     forkret_addr = 0, halted = None, cur = 0, kver = 8, bufs_of = [], disk = (\<lambda>_. []), dwrites = [], log_start = 0,
     outstanding = 0, committing = False, log_dev = 0, lh_n = 0, lh_block = [],
     sb = \<lparr>magic = 0, sb_size = 0, nblocks = 0, ninodes = 0, nlog = 0, logstart = 0, inodestart = 0, bmapstart = 0\<rparr>,
     inodes = [], ftable = replicate NFILE ex_file, pipes = Map.empty,
     tx_busy = False, uart_thr = [],
     cons_of = \<lparr>cbuf = [], c_r = 0, c_w = 0, c_e = 0\<rparr>, ticks = 7\<rparr>"

lemma ex_sys_boot: "fd_boot (ex_sys m)"
  by (simp add: fd_boot_def ex_sys_def ex_file_def ex_proc_def)

text \<open>The process calls \<^verbatim>\<open>uptime\<close>: register \<^verbatim>\<open>a7\<close> in its trapframe holds 14.\<close>

definition ex_uptime :: memory where "ex_uptime = (\<lambda>_. 0)(168 := 14)"

lemma ex_uptime_call: "\<exists>s'. syscall [] ((ex_sys ex_uptime)\<lparr>cur := 0\<rparr>) = Inr s' \<and> ticks s' = 7"
proof -
  have "load64 ex_uptime 168 = 14" by code_simp
  then have "syscall_at (sint (ucast (load64 (mem (ex_sys ex_uptime)) (trapframe (me (ex_sys ex_uptime)) + 168)) :: u32)) = Some SYS_uptime"
    by (simp add: ex_sys_def ex_proc_def syscall_at_def syscalls_def)
  moreover have "(ex_sys ex_uptime)\<lparr>cur := 0\<rparr> = ex_sys ex_uptime" by (simp add: ex_sys_def)
  ultimately show ?thesis by (simp add: syscall_def sys_uptime_def tf_store_def) (simp add: ex_sys_def)
qed

theorem fd_refcounts_witness:
  "\<exists>s :: skernel. sys_reach s \<and> ticks s = 7 \<and> f_ref (file_at s 3) =
     int (card {(i, fd). i < length (procs s) \<and> fd < NOFILE \<and> ofile (procs s ! i) ! fd = Some 3})"
proof -
  obtain s' where s': "syscall [] ((ex_sys ex_uptime)\<lparr>cur := 0\<rparr>) = Inr s'" "ticks s' = 7"
    using ex_uptime_call by blast
  have "sys_reach s'"
    by (rule sys_reach.call [OF sys_reach.boot [OF ex_sys_boot], where i = 0, OF _ _ s'(1)])
      (simp_all add: ex_sys_def ex_proc_def)
  then show ?thesis using fd_refcounts [of s'] s'(2) by (intro exI [of _ s']) (simp add: NFILE_def)
qed

end
