(* ===== verification/Printf_Props.thy ===== *)
theory Printf_Props
  imports Printf
begin

text \<open>
  What \<^verbatim>\<open>printf\<close> prints. Numbers: the text is read back to the number, and the local array of \<^verbatim>\<open>printint\<close> is
  large enough. Formats: with arguments of the kinds the format asks for, a call takes exactly
  its arguments and only sends bytes.
\<close>

section \<open>Reading numbers\<close>

definition digit_val :: "u8 \<Rightarrow> nat" where
  "digit_val d = (if d \<le> 57 then unat d - 48 else unat d - 87)"

definition read_digits :: "nat \<Rightarrow> u8 list \<Rightarrow> nat" where
  "read_digits B ds = foldl (\<lambda>a d. a * B + digit_val d) 0 ds"

definition read_num :: "nat \<Rightarrow> u8 list \<Rightarrow> int" where
  "read_num B out =
     (if out \<noteq> [] \<and> hd out = 45 then - int (read_digits B (tl out)) else int (read_digits B out))"

text \<open>A numeral has a digit and no superfluous zero in front.\<close>

definition plain_digits :: "u8 list \<Rightarrow> bool" where
  "plain_digits ds \<longleftrightarrow> ds \<noteq> [] \<and> set ds \<subseteq> set digits \<and> (hd ds = 48 \<longrightarrow> length ds = 1)"

lemma digits_val: "v < 16 \<Longrightarrow> digit_val (digits ! v) = v \<and> digits ! v \<in> set digits \<and> (digits ! v = 48 \<longleftrightarrow> v = 0)"
proof -
  have "\<forall>v < 16. digit_val (digits ! v) = v \<and> digits ! v \<in> set digits \<and> (digits ! v = 48 \<longleftrightarrow> v = 0)"
    by code_simp
  then show "v < 16 \<Longrightarrow> ?thesis" by blast
qed

lemma minus_not_digit: "45 \<notin> set digits"
  by code_simp

lemma read_digits_append: "read_digits B (as @ [d]) = read_digits B as * B + digit_val d"
  by (simp add: read_digits_def)

lemma read_digits_Cons: "read_digits B (d # ds) = digit_val d * B ^ length ds + read_digits B ds"
proof (induction ds rule: rev_induct)
  case (snoc x xs)
  have "read_digits B (d # xs @ [x]) = read_digits B (d # xs) * B + digit_val x"
    using read_digits_append [of B "d # xs"] by simp
  with snoc show ?case by (simp add: read_digits_append algebra_simps)
qed (simp add: read_digits_def)

section \<open>printint\<close>

text \<open>\<open>k\<close> digits are enough for a number below \<open>b\<close> to the power \<open>k\<close>.\<close>

lemma printint_loop_ok:
  assumes b: "1 < unat b" "unat b \<le> 16"
  shows "unat x < unat b ^ Suc k \<Longrightarrow>
    \<exists>ds. printint_loop (Suc k + e) x b = Inr ds \<and> length ds \<le> Suc k \<and> plain_digits (rev ds)
       \<and> read_digits (unat b) (rev ds) = unat x \<and> (x \<noteq> 0 \<longrightarrow> last ds \<noteq> 48)"
proof (induction k arbitrary: x)
  case 0
  then have x: "unat x < unat b" by simp
  then have "x div b = 0" "x mod b = x"
    by (simp_all add: unat_div unat_mod unat_eq_zero word_unat_eq_iff)
  with x b show ?case using digits_val [of "unat x"]
    by (auto simp: plain_digits_def read_digits_def unat_eq_zero)
next
  case (Suc k)
  have xm: "unat (x mod b) < 16" using b by (simp add: unat_mod less_le_trans [OF mod_less_divisor])
  note dv = digits_val [OF xm]
  show ?case
  proof (cases "x div b = 0")
    case True
    then have "x mod b = x" using b
      by (metis add_0 mult_zero_left div_mult_mod_eq)
    with True dv show ?thesis
      by (auto simp: plain_digits_def read_digits_def unat_eq_zero)
  next
    case False
    have "unat (x div b) < unat b ^ Suc k" using Suc.prems b
      by (simp add: unat_div less_mult_imp_div_less mult.commute)
    from Suc.IH [OF this] False obtain ds where ds: "printint_loop (Suc k + e) (x div b) b = Inr ds"
      "length ds \<le> Suc k" "plain_digits (rev ds)" "read_digits (unat b) (rev ds) = unat (x div b)" "last ds \<noteq> 48"
      by auto
    have "unat x = unat (x div b) * unat b + unat (x mod b)"
      by (simp add: unat_div unat_mod)
    with ds False dv show ?thesis
      by (auto simp: plain_digits_def read_digits_append hd_append hd_rev)
  qed
qed

lemma read_num_digits:
  "plain_digits ds \<Longrightarrow> read_num B ds = int (read_digits B ds)"
  "read_num B (45 # ds) = - int (read_digits B ds)"
proof -
  show "read_num B ds = int (read_digits B ds)" if "plain_digits ds"
  proof -
    have "hd ds \<in> set digits" using that hd_in_set [of ds] by (auto simp: plain_digits_def)
    then have "hd ds \<noteq> 45" using minus_not_digit by metis
    then show ?thesis by (simp add: read_num_def)
  qed
qed (simp add: read_num_def)

lemma sint_u64: "sint (x :: u64) = (if uint x < 2 ^ 63 then uint x else uint x - 2 ^ 64)"
proof -
  have ub: "0 \<le> uint x" "uint x < 2 ^ 64" using uint_bounded [of x] by simp_all
  have "bit (uint x) 63 \<longleftrightarrow> \<not> uint x < 2 ^ 63"
  proof (cases "uint x < 2 ^ 63")
    case False
    with ub have "uint x div 2 ^ 63 = 1" by (intro int_div_pos_eq [where r = "uint x - 2 ^ 63"]) auto
    with False show ?thesis by (simp add: bit_iff_odd)
  qed (use ub in \<open>simp add: bit_iff_odd\<close>)
  moreover have "take_bit 64 (uint x) = uint x" using ub by (simp add: take_bit_int_eq_self)
  ultimately show ?thesis by (simp add: sint_uint signed_take_bit_eq_take_bit_minus)
qed

lemma printint_text:
  assumes "b = 10 \<or> b = 16"
  shows "\<exists>out. (\<forall>s. printint xx b sign s = Inr (emit out s)) \<and> length out \<le> 20
     \<and> read_num (unat b) out = (if sign then sint xx else uint xx)
     \<and> plain_digits (if sign \<and> sint xx < 0 then tl out else out)"
proof (cases "sign \<and> sint xx < 0")
  case True
  have B: "1 < unat b" "unat b \<le> 16" "10 \<le> unat b" using assms by auto
  have sx: "sint xx = uint xx - 2 ^ 64" "2 ^ 63 \<le> uint xx"
    using True uint_bounded [of xx] by (auto simp: sint_u64 split: if_splits)
  have nx: "int (unat (- xx)) = - sint xx"
    using sx uint_bounded [of xx] by (simp add: uint_word_ariths zmod_zminus1_eq_if)
  have "unat (- xx) < unat b ^ Suc 18"
  proof -
    have "unat (- xx) \<le> 2 ^ 63" using nx sx by (simp add: int_ops(1) flip: of_nat_le_iff [where 'a = int])
    also have "\<dots> < 10 ^ 19" by simp
    also have "\<dots> \<le> unat b ^ 19" using B by (intro power_mono) auto
    finally show ?thesis by simp
  qed
  from printint_loop_ok [OF B(1,2) this, of 1] obtain ds where
    "printint_loop 20 (- xx) b = Inr ds" "length ds \<le> 19" "plain_digits (rev ds)"
    "read_digits (unat b) (rev ds) = unat (- xx)" by auto
  with True nx show ?thesis
    by (intro exI [of _ "45 # rev ds"])
      (simp add: printint_def fold_consputc read_num_digits cstr_def consputc_emit BACKSPACE_def)
next
  case False
  have B: "1 < unat b" "unat b \<le> 16" "10 \<le> unat b" using assms by auto
  have "unat xx < 10 ^ 20" using unat_less_pow64 [of xx] by simp
  also have "\<dots> \<le> unat b ^ 20" using B by (intro power_mono) auto
  finally have "unat xx < unat b ^ Suc 19" by simp
  from printint_loop_ok [OF B(1,2) this, of 0] obtain ds where
    ds: "printint_loop 20 xx b = Inr ds" "length ds \<le> 20" "plain_digits (rev ds)"
    "read_digits (unat b) (rev ds) = unat xx" by auto
  moreover have "sign \<Longrightarrow> sint xx = uint xx"
    using False uint_bounded [of xx] by (auto simp: sint_u64 split: if_splits)
  ultimately show ?thesis using False
    by (intro exI [of _ "rev ds"]) (auto simp: printint_def fold_consputc read_num_digits)
qed

text \<open>C39. \<^verbatim>\<open>printint\<close> in base 10 or 16 always returns: the digits and the sign of a 64-bit number fit
  into its array of 20 bytes. What it prints, read back, is the number, signed or not as asked,
  without superfluous zeros; the smallest negative number is no exception. Nothing else changes.\<close>

theorem printint_reads_back:
  assumes "b = 10 \<or> b = 16"
  shows "\<exists>out. printint xx b sign s = Inr (s\<lparr>uart_thr := uart_thr s @ out\<rparr>) \<and> length out \<le> 20
     \<and> read_num (unat b) out = (if sign then sint xx else uint xx)
     \<and> plain_digits (if sign \<and> sint xx < 0 then tl out else out)"
  using printint_text [OF assms, of xx sign] unfolding emit_def by blast

text \<open>An instance: the smallest number, in base 10 and with its sign.\<close>

definition quiet_port :: "unit ukernel_scheme" where
  "quiet_port = \<lparr>mem = (\<lambda>_. 0), freelist = 0, kend = 0, etext = 0, trampoline = 0, procs = [], nextpid = 1,
     initproc = None, forkret_addr = 0, halted = None, cur = 0, kver = 8, bufs_of = [], disk = (\<lambda>_. []), dwrites = [],
     log_start = 0, outstanding = 0, committing = False, log_dev = 0, lh_n = 0, lh_block = [],
     sb = \<lparr>magic = 0, sb_size = 0, nblocks = 0, ninodes = 0, nlog = 0, logstart = 0, inodestart = 0, bmapstart = 0\<rparr>,
     inodes = [], ftable = [], pipes = Map.empty, tx_busy = False, uart_thr = []\<rparr>"

theorem printint_reads_back_witness:
  "\<exists>out. printint (2 ^ 63) 10 True quiet_port = Inr (quiet_port\<lparr>uart_thr := uart_thr quiet_port @ out\<rparr>)
     \<and> read_num 10 out = - (2 ^ 63)"
proof -
  have "sint (2 ^ 63 :: u64) = - (2 ^ 63)" by simp
  with printint_reads_back [of 10 "2 ^ 63" True quiet_port] show ?thesis by auto
qed

section \<open>printptr\<close>

lemma unat_drop_div: "unat (drop_bit n (x :: u64)) = unat x div 2 ^ n"
  using unat_drop_bit_eq [of n x] drop_bit_eq_div [of n "unat x"] by metis

lemma unat_shift_nibble:
  assumes "k < 16"
  shows "unat (drop_bit (64 - 4 * Suc k) (x :: u64))
    = unat (drop_bit 60 x) * 16 ^ k + unat (drop_bit (64 - 4 * k) (push_bit 4 x))"
proof -
  let ?X = "unat x"
  have X: "?X < 2 ^ 64" by (rule unat_less_pow64)
  define q r where "q = ?X div 2 ^ 60" and "r = ?X mod 2 ^ 60"
  have qr: "?X = q * 2 ^ 60 + r" "r < 2 ^ 60" by (simp_all add: q_def r_def)
  have "unat (push_bit 4 x) = (16 * ?X) mod 2 ^ 64"
    by (simp add: push_bit_eq_mult unat_word_ariths mult.commute)
  also have "16 * ?X = q * 2 ^ 64 + 16 * r" using qr by simp
  also have "\<dots> mod 2 ^ 64 = 16 * r" using qr by simp
  finally have p: "unat (push_bit 4 x) = 16 * r" .
  have e: "(2 :: nat) ^ 60 = 2 ^ (4 * k) * 2 ^ (64 - 4 * Suc k)" "(2 :: nat) ^ (64 - 4 * k) = 16 * 2 ^ (64 - 4 * Suc k)"
    using assms power_add [of "2 :: nat" "4 * k" "64 - 4 * Suc k"] power_add [of "2 :: nat" 4 "64 - 4 * Suc k"]
    by simp_all
  have "?X = q * 2 ^ (4 * k) * 2 ^ (64 - 4 * Suc k) + r"
    using qr(1) unfolding e(1) by (simp only: mult.assoc)
  then have "?X div 2 ^ (64 - 4 * Suc k) = (q * 2 ^ (4 * k) * 2 ^ (64 - 4 * Suc k) + r) div 2 ^ (64 - 4 * Suc k)"
    by simp
  also have "\<dots> = q * 2 ^ (4 * k) + r div 2 ^ (64 - 4 * Suc k)"
    by simp
  also have "r div 2 ^ (64 - 4 * Suc k) = 16 * r div 2 ^ (64 - 4 * k)"
    using e(2) by simp
  finally show ?thesis using p
    by (simp add: unat_drop_div q_def power_mult del: mult_Suc_right)
qed

lemma printptr_loop_ok:
  "k \<le> 16 \<Longrightarrow> \<exists>ds. printptr_loop k x s = emit ds s \<and> length ds = k \<and> read_digits 16 ds = unat (drop_bit (64 - 4 * k) x)"
proof (induction k arbitrary: x s)
  case 0
  have "unat (drop_bit 64 x) = 0" by simp
  then show ?case by (simp add: read_digits_def)
next
  case (Suc k)
  let ?d = "digits ! unat (drop_bit 60 x)"
  have "unat (drop_bit 60 x) < 16" using unat_less_pow64 [of x]
    by (simp add: unat_drop_div less_mult_imp_div_less)
  note d = digits_val [OF this]
  from Suc.IH [of "push_bit 4 x" "emit [?d] s"] Suc.prems obtain ds where
    "printptr_loop k (push_bit 4 x) (emit [?d] s) = emit ds (emit [?d] s)" "length ds = k"
    "read_digits 16 ds = unat (drop_bit (64 - 4 * k) (push_bit 4 x))" by auto
  with d unat_shift_nibble [of k x] Suc.prems show ?case
    by (intro exI [of _ "?d # ds"]) (simp add: read_digits_Cons)
qed

lemma printptr_reads_back:
  "\<exists>ds. printptr x s = emit (cstr ''0x'' @ ds) s \<and> length ds = 16 \<and> read_digits 16 ds = unat x"
  using printptr_loop_ok [of 16 x "emit (cstr ''0x'') s"] by (auto simp: printptr_def fold_consputc)

lemma printptr_emits: "\<exists>out. \<forall>s :: 'a ukernel_scheme. printptr x s = emit out s"
proof -
  have "\<exists>out. \<forall>s :: 'a ukernel_scheme. printptr_loop k x s = emit out s" for k
  proof (induction k arbitrary: x)
    case 0
    show ?case by (auto intro: exI [of _ "[]"])
  next
    case (Suc k)
    then obtain out where "\<forall>s :: 'a ukernel_scheme. printptr_loop k (push_bit 4 x) s = emit out s" by blast
    then show ?case by (auto intro: exI [of _ "digits ! unat (drop_bit 60 x) # out"])
  qed
  then obtain out where "\<forall>s :: 'a ukernel_scheme. printptr_loop 16 x s = emit out s" by blast
  then show ?thesis by (auto simp: printptr_def fold_consputc)
qed

section \<open>Formats and their arguments\<close>

text \<open>The kinds of argument a format asks for: \<open>True\<close> is a number, \<open>False\<close> a string.\<close>

definition conv_kinds :: "conv \<Rightarrow> bool list" where
  "conv_kinds cv = (case cv of CvInt _ _ _ \<Rightarrow> [True] | CvPtr \<Rightarrow> [True] | CvChar \<Rightarrow> [True] | CvStr \<Rightarrow> [False] | _ \<Rightarrow> [])"

function fmt_kinds :: "u8 list \<Rightarrow> bool list" where
  "fmt_kinds [] = []"
| "fmt_kinds (cx # fmt) =
     (if cx = 0 then []
      else if cx \<noteq> of_char (CHR ''%'') then fmt_kinds fmt
      else case conversion_at fmt of (cv, extra) \<Rightarrow>
        if cv = CvEnd then [] else conv_kinds cv @ fmt_kinds (drop (1 + extra) fmt))"
  by pat_completeness auto
termination
  by (relation "measure length") auto

declare fmt_kinds.simps [simp del]

definition va_is_num :: "va \<Rightarrow> bool" where
  "va_is_num v = (case v of VNum _ \<Rightarrow> True | VStr _ \<Rightarrow> False)"

lemma conversion_base: "conversion c0 c1 c2 = (CvInt bits b sign, n) \<Longrightarrow> b = 10 \<or> b = 16"
  by (auto simp: conversion_def Let_def split: if_splits)

lemma print_arg_emits:
  assumes cv: "conversion_at fmt = (cv, n)" and ap: "map va_is_num ap = conv_kinds cv @ ks"
  shows "\<exists>out ap'. map va_is_num ap' = ks \<and> (\<forall>s :: 'a ukernel_scheme. print_arg cv c0 ap s = Inr (ap', emit out s))"
proof -
  have num: "\<exists>x ap'. ap = VNum x # ap' \<and> map va_is_num ap' = ks" if "conv_kinds cv = [True]"
    using ap that by (cases ap) (auto simp: va_is_num_def split: va.splits)
  have str: "\<exists>x ap'. ap = VStr x # ap' \<and> map va_is_num ap' = ks" if "conv_kinds cv = [False]"
    using ap that by (cases ap) (auto simp: va_is_num_def split: va.splits)
  show ?thesis
  proof (cases cv)
    case (CvInt bits b sign)
    with num obtain x ap' where ap': "ap = VNum x # ap'" "map va_is_num ap' = ks" by (auto simp: conv_kinds_def)
    from CvInt have "b = 10 \<or> b = 16"
      using cv by (auto simp: conversion_at_def Let_def dest: conversion_base)
    from printint_text [OF this] have "\<exists>out. \<forall>s :: 'a ukernel_scheme. printint x b sign s = Inr (emit out s)" for x
      by blast
    then obtain out where "\<forall>s :: 'a ukernel_scheme. printint (slot_as bits sign x) b sign s = Inr (emit out s)" by blast
    with ap' CvInt show ?thesis by (auto simp: print_arg_def)
  next
    case CvPtr
    with num obtain x ap' where ap': "ap = VNum x # ap'" "map va_is_num ap' = ks" by (auto simp: conv_kinds_def)
    have "\<exists>out. \<forall>s :: 'a ukernel_scheme. printptr x s = emit out s" by (rule printptr_emits)
    with ap' CvPtr show ?thesis by (auto simp: print_arg_def)
  next
    case CvChar
    with num show ?thesis by (fastforce simp: print_arg_def conv_kinds_def consputc_emit)
  next
    case CvStr
    with str show ?thesis by (fastforce simp: print_arg_def conv_kinds_def fold_consputc Let_def)
  next
    case CvEnd
    with ap show ?thesis by (intro exI [of _ "[]"] exI [of _ ap]) (simp add: print_arg_def conv_kinds_def)
  qed (use ap in \<open>auto simp: print_arg_def conv_kinds_def consputc_emit\<close>)
qed

lemma printf_loop_emits:
  "map va_is_num ap = fmt_kinds fmt @ ks \<Longrightarrow> \<exists>out. \<forall>s :: 'a ukernel_scheme. printf_loop fmt ap s = Inr (emit out s)"
proof (induction fmt arbitrary: ap rule: fmt_kinds.induct)
  case 1
  show ?case by (auto simp: printf_loop.simps intro: exI [of _ "[]"])
next
  case (2 cx fmt)
  obtain cv extra where cv: "conversion_at fmt = (cv, extra)" by fastforce
  consider "cx = 0" | "cx \<noteq> 0" "cx \<noteq> of_char (CHR ''%'')"
    | "cx = of_char (CHR ''%'')" "cv = CvEnd" | "cx = of_char (CHR ''%'')" "cv \<noteq> CvEnd" by blast
  then show ?case
  proof cases
    case 2
    with "2.IH"(1) "2.prems" obtain out where "\<forall>s :: 'a ukernel_scheme. printf_loop fmt ap s = Inr (emit out s)"
      by (auto simp: fmt_kinds.simps)
    with 2 show ?thesis by (auto simp: printf_loop.simps(2) intro: exI [of _ "cx # out"])
  next
    case 4
    with "2.prems" cv have "map va_is_num ap = conv_kinds cv @ fmt_kinds (drop (1 + extra) fmt) @ ks"
      by (simp add: fmt_kinds.simps)
    from print_arg_emits [OF cv this, of "fmt_at fmt 0"] obtain o1 ap' where
      ap': "map va_is_num ap' = fmt_kinds (drop (1 + extra) fmt) @ ks"
        "\<And>s :: 'a ukernel_scheme. print_arg cv (fmt_at fmt 0) ap s = Inr (ap', emit o1 s)" by blast
    with "2.IH"(2) [OF _ _ cv [symmetric]] 4 obtain o2 where
      "\<And>s :: 'a ukernel_scheme. printf_loop (drop (1 + extra) fmt) ap' s = Inr (emit o2 s)" by fastforce
    with ap'(2) 4 cv show ?thesis by (auto simp: printf_loop.simps(2) intro: exI [of _ "o1 @ o2"])
  qed (use cv in \<open>auto simp: printf_loop.simps(2) intro: exI [of _ "[]"]\<close>)
qed



lemma printf_emits:
  "map va_is_num args = fmt_kinds (cstr fmt) @ ks \<Longrightarrow> \<exists>out. \<forall>s :: 'a ukernel_scheme. printf fmt args s = Inr (emit out s)"
  using printf_loop_emits by (simp add: printf_def)

lemma procdump_one_emits: "\<exists>out. procdump_one i s = Inr (emit out (s :: 'a ukernel_scheme))"
proof -
  let ?a = "[VNum (word_of_int (pid (procs s ! i))), VStr (Some (cstr (state_name (pstate (procs s ! i))))), VStr (Some (pname (procs s ! i)))]"
  have k: "fmt_kinds (cstr ''%d %s %s'') = [True, False, False]" "fmt_kinds (cstr [CHR 0x0A]) = []"
    by code_simp+
  obtain o1 where "\<forall>s :: 'a ukernel_scheme. printf ''%d %s %s'' ?a s = Inr (emit o1 s)"
    using printf_emits [of ?a "''%d %s %s''" "[]"] k by (auto simp: va_is_num_def)
  moreover obtain o2 where "\<forall>s :: 'a ukernel_scheme. printf [CHR 0x0A] [] s = Inr (emit o2 s)"
    using printf_emits [of "[]" "[CHR 0x0A]" "[]"] k by auto
  ultimately show ?thesis
    by (auto simp: procdump_one_def Let_def intro: exI [of _ "[]"] exI [of _ "o1 @ o2"])
qed

lemma procdump_emits: "\<exists>out. procdump s = Inr (emit out (s :: 'a ukernel_scheme))"
proof -
  have all: "\<exists>out. rfold procdump_one is s = Inr (emit out (s :: 'a ukernel_scheme))" for "is" s
  proof (induction "is" arbitrary: s)
    case Nil
    show ?case by (auto intro: exI [of _ "[]"])
  next
    case (Cons i "is")
    from procdump_one_emits [of i s] obtain o1 where "procdump_one i s = Inr (emit o1 s)" by blast
    with Cons [of "emit o1 s"] show ?case by auto
  qed
  have "fmt_kinds (cstr [CHR 0x0A]) = []" by code_simp
  then obtain o1 where "\<forall>s :: 'a ukernel_scheme. printf [CHR 0x0A] [] s = Inr (emit o1 s)"
    using printf_emits [of "[]" "[CHR 0x0A]" "[]"] by auto
  with all [of "[0..<NPROC]" "emit o1 s"] show ?thesis by (auto simp: procdump_def)
qed

end
