(* ===== verification/Console_Line.thy ===== *)
theory Console_Line
  imports Console Printf_Props
begin

text \<open>
  The console's input as a line discipline. The abstract state is a pair: the bytes of finished
  lines that wait for a reader, and the line being edited. Both lie in the circular buffer, between
  \<open>r\<close> and \<open>w\<close> and between \<open>w\<close> and \<open>e\<close>; the three indices are 32-bit words that wrap.
\<close>

section \<open>Content\<close>

definition cons_used :: "cons \<Rightarrow> nat" where
  "cons_used c = unat (c_e c - c_r c)"

definition cons_ready :: "cons \<Rightarrow> nat" where
  "cons_ready c = unat (c_w c - c_r c)"

definition cons_all :: "cons \<Rightarrow> u8 list" where
  "cons_all c = ring_list INPUT_BUF_SIZE (cbuf c) (unat (c_r c)) (cons_used c)"

definition cons_view :: "cons \<Rightarrow> u8 list \<times> u8 list" where
  "cons_view c = (take (cons_ready c) (cons_all c), drop (cons_ready c) (cons_all c))"

definition cons_inv :: "cons \<Rightarrow> bool" where
  "cons_inv c \<longleftrightarrow> length (cbuf c) = INPUT_BUF_SIZE \<and> cons_ready c \<le> cons_used c \<and> cons_used c \<le> INPUT_BUF_SIZE
     \<and> 10 \<notin> set (snd (cons_view c))"

lemma length_cons_all [simp]: "length (cons_all c) = cons_used c"
  by (simp add: cons_all_def)

lemma ring_size_128: "ring_size 128"
  by (simp add: ring_size_def)

lemma cons_slot:
  "unat ((c_r c + of_nat k) mod of_nat INPUT_BUF_SIZE) = (unat (c_r c) + k) mod INPUT_BUF_SIZE"
  using slot_eq [OF ring_size_128, of "c_r c + of_nat k"] unat_add_mod_dvd [of 128 "c_r c" k]
  by (simp add: INPUT_BUF_SIZE_def)

lemma c_e_eq: "c_e c = c_r c + of_nat (cons_used c)"
  by (simp add: cons_used_def)

lemma cons_at_all: "k < cons_used c \<Longrightarrow> cons_at c (c_r c + of_nat k) = cons_all c ! k"
  by (simp add: cons_at_def cons_all_def nth_ring_list cons_slot)

lemma e_eq_w: "c_e c = c_w c \<longleftrightarrow> cons_used c = cons_ready c"
  by (auto simp: cons_used_def cons_ready_def word_unat_eq_iff [symmetric])

lemma r_eq_w: "c_r c = c_w c \<longleftrightarrow> cons_ready c = 0"
  by (auto simp: cons_ready_def unat_eq_zero)

section \<open>Storing and erasing\<close>

lemma cons_store_all:
  assumes "length (cbuf c) = INPUT_BUF_SIZE" "cons_used c < INPUT_BUF_SIZE"
  shows "cons_all (cons_store b c) = cons_all c @ [b]" "cons_used (cons_store b c) = Suc (cons_used c)"
    "cons_ready (cons_store b c) = cons_ready c"
proof -
  have "unat (c_e c - c_r c + 1) = Suc (cons_used c)"
    using assms by (simp add: cons_used_def INPUT_BUF_SIZE_def unat_word_ariths)
  then show u: "cons_used (cons_store b c) = Suc (cons_used c)"
    by (simp add: cons_used_def cons_store_def algebra_simps)
  show "cons_ready (cons_store b c) = cons_ready c" by (simp add: cons_ready_def cons_store_def)
  let ?h = "(unat (c_r c) + cons_used c) mod INPUT_BUF_SIZE"
  have h: "unat (c_e c mod of_nat INPUT_BUF_SIZE) = ?h" using cons_slot [of c "cons_used c"] c_e_eq [of c] by simp
  have "?h < INPUT_BUF_SIZE" by (simp add: INPUT_BUF_SIZE_def)
  then have "cbuf (cons_store b c) = overwrite (cbuf c) ?h [b]"
    using assms h by (simp add: cons_store_def overwrite_single)
  moreover have "?h + 1 \<le> INPUT_BUF_SIZE" by (simp add: INPUT_BUF_SIZE_def Suc_le_eq)
  ultimately show "cons_all (cons_store b c) = cons_all c @ [b]"
    using ring_write [of "cbuf c" INPUT_BUF_SIZE "cons_used c" "[b]" "unat (c_r c)"] assms u
    by (simp add: cons_all_def) (simp add: cons_store_def)
qed

lemma cons_erase:
  assumes "k \<le> cons_used c"
  shows "cons_used (c\<lparr>c_e := c_e c - of_nat k\<rparr>) = cons_used c - k"
    "cons_all (c\<lparr>c_e := c_e c - of_nat k\<rparr>) = take (cons_used c - k) (cons_all c)"
proof -
  have "unat (of_nat k :: u32) = k" using assms unat_less_pow32 [of "c_e c - c_r c"]
    by (simp add: cons_used_def unat_of_nat)
  then have "unat ((c_e c - c_r c) - of_nat k) = cons_used c - k"
    using assms by (subst unat_sub) (simp_all add: cons_used_def word_le_nat_alt)
  then show u: "cons_used (c\<lparr>c_e := c_e c - of_nat k\<rparr>) = cons_used c - k"
    by (simp add: cons_used_def algebra_simps)
  show "cons_all (c\<lparr>c_e := c_e c - of_nat k\<rparr>) = take (cons_used c - k) (cons_all c)"
    unfolding cons_all_def u using assms take_ring_list [of "cons_used c - k" INPUT_BUF_SIZE "cbuf c" "unat (c_r c)" k] by simp
qed

lemma cons_ready_upd [simp]: "cons_ready (c\<lparr>c_e := x\<rparr>) = cons_ready c"
  by (simp add: cons_ready_def)

lemma cons_of_emit [simp]: "cons_of (emit bs s) = cons_of s" "procs (emit bs s) = procs s"
    "cur (emit bs s) = cur s" "kver (emit bs s) = kver s"
  by (simp_all add: emit_def)

lemma cons_upd_emit: "cons_upd f (emit bs s) = emit bs (cons_upd f s)"
  by (simp add: cons_upd_def emit_def)

lemma cons_of_upd [simp]: "cons_of (cons_upd f s) = f (cons_of s)" "procs (cons_upd f s) = procs s"
    "cur (cons_upd f s) = cur s" "kver (cons_upd f s) = kver s" "uart_thr (cons_upd f s) = uart_thr s"
  by (simp_all add: cons_upd_def)

text \<open>What one erased character shows on the terminal.\<close>

definition rubout :: "nat \<Rightarrow> u8 list" where
  "rubout n = concat (replicate n [8, 32, 8])"

lemma rubout_simps [simp]: "rubout 0 = []" "rubout (Suc n) = [8, 32, 8] @ rubout n"
  by (simp_all add: rubout_def)

text \<open>Control-U stops at a line feed, but there is none between \<open>w\<close> and \<open>e\<close>: it erases the whole line, within
  its bound.\<close>

lemma kill_line_erases:
  "10 \<notin> set (drop (cons_ready (cons_of s)) (cons_all (cons_of s))) \<Longrightarrow>
   cons_used (cons_of s) = cons_ready (cons_of s) + k \<Longrightarrow>
   kill_line (Suc k) s = Inr (emit (rubout k) (cons_upd (\<lambda>x. x\<lparr>c_e := c_e x - of_nat k\<rparr>) s))"
proof (induction k arbitrary: s)
  case 0
  then show ?case by (simp add: e_eq_w Let_def cons_upd_def)
next
  case (Suc k)
  let ?c = "cons_of s"
  let ?s = "cons_upd (\<lambda>x. x\<lparr>c_e := c_e x - 1\<rparr>) s"
  have k: "1 \<le> cons_used ?c" "cons_used ?c - 1 < cons_used ?c" using Suc.prems(2) by auto
  have "c_e ?c - 1 = c_r ?c + of_nat (cons_used ?c - 1)"
    using k(1) c_e_eq [of ?c] by (simp add: of_nat_diff)
  then have "cons_at ?c (c_e ?c - 1) = cons_all ?c ! (cons_used ?c - 1)" using cons_at_all [OF k(2)] by simp
  moreover have "cons_all ?c ! (cons_used ?c - 1) = drop (cons_ready ?c) (cons_all ?c) ! k"
    using Suc.prems(2) by simp
  then have "cons_all ?c ! (cons_used ?c - 1) \<in> set (drop (cons_ready ?c) (cons_all ?c))"
    using Suc.prems(2) by (simp add: nth_mem del: nth_drop)
  ultimately have nl: "cons_at ?c (c_e ?c - 1) \<noteq> 10" using Suc.prems(1) by metis
  have ne: "c_e ?c \<noteq> c_w ?c" using Suc.prems(2) by (simp add: e_eq_w)
  have "kill_line (Suc k) (emit [8, 32, 8] ?s)
     = Inr (emit (rubout k) (cons_upd (\<lambda>x. x\<lparr>c_e := c_e x - of_nat k\<rparr>) (emit [8, 32, 8] ?s)))"
  proof (rule Suc.IH)
    show "10 \<notin> set (drop (cons_ready (cons_of (emit [8, 32, 8] ?s))) (cons_all (cons_of (emit [8, 32, 8] ?s))))"
      using Suc.prems(1) cons_erase(2) [OF k(1)] by (auto simp: drop_take dest: in_set_takeD)
    show "cons_used (cons_of (emit [8, 32, 8] ?s)) = cons_ready (cons_of (emit [8, 32, 8] ?s)) + k"
      using Suc.prems(2) cons_erase(1) [OF k(1)] by simp
  qed
  moreover have "cons_upd (\<lambda>x. x\<lparr>c_e := c_e x - of_nat k\<rparr>) ?s = cons_upd (\<lambda>x. x\<lparr>c_e := c_e x - of_nat (Suc k)\<rparr>) s"
    by (simp add: cons_upd_def algebra_simps)
  moreover have "kill_line (Suc (Suc k)) s = kill_line (Suc k) (emit [8, 32, 8] ?s)"
    using ne nl by (simp only: kill_line.simps(2) [of "Suc k"] Let_def simp_thms if_True consputc_backspace)
  ultimately show ?case by (simp add: cons_upd_emit del: kill_line.simps)
qed

section \<open>The line discipline\<close>

text \<open>The reference: what a character does to (finished lines, edited line).\<close>

definition commits :: "u8 \<Rightarrow> u8 list \<times> u8 list \<Rightarrow> bool" where
  "commits b v \<longleftrightarrow> b = 10 \<or> b = 4 \<or> length (fst v) + length (snd v) + 1 = INPUT_BUF_SIZE"

definition accepts :: "u8 \<Rightarrow> u8 list \<times> u8 list \<Rightarrow> bool" where
  "accepts b v \<longleftrightarrow> b \<notin> {0, 8, 16, 21, 127} \<and> length (fst v) + length (snd v) < INPUT_BUF_SIZE"

definition cr_to_nl :: "u8 \<Rightarrow> u8" where
  "cr_to_nl b = (if b = 13 then 10 else b)"

definition line_char :: "u8 \<Rightarrow> u8 list \<times> u8 list \<Rightarrow> u8 list \<times> u8 list" where
  "line_char b v =
     (if b = 21 then (fst v, [])
      else if b = 8 \<or> b = 127 then (fst v, butlast (snd v))
      else if accepts b v then
        (if commits (cr_to_nl b) v then (fst v @ snd v @ [cr_to_nl b], []) else (fst v, snd v @ [cr_to_nl b]))
      else v)"

definition line_echo :: "u8 \<Rightarrow> u8 list \<times> u8 list \<Rightarrow> u8 list" where
  "line_echo b v =
     (if b = 21 then rubout (length (snd v))
      else if b = 8 \<or> b = 127 then rubout (min 1 (length (snd v)))
      else if accepts b v then [cr_to_nl b] else [])"

lemma cons_view_parts:
  assumes "cons_inv c"
  shows "length (fst (cons_view c)) = cons_ready c" "length (snd (cons_view c)) = cons_used c - cons_ready c"
    "fst (cons_view c) @ snd (cons_view c) = cons_all c" "length (fst (cons_view c)) + length (snd (cons_view c)) = cons_used c"
  using assms by (auto simp: cons_view_def cons_inv_def)

lemma erase_view:
  assumes inv: "cons_inv c" and k: "k \<le> length (snd (cons_view c))"
  shows "cons_view (c\<lparr>c_e := c_e c - of_nat k\<rparr>) = (fst (cons_view c), take (length (snd (cons_view c)) - k) (snd (cons_view c)))"
    "cons_inv (c\<lparr>c_e := c_e c - of_nat k\<rparr>)"
proof -
  have "k \<le> cons_used c" "cons_ready c \<le> cons_used c - k" using inv k by (auto simp: cons_view_def cons_inv_def)
  then show v: "cons_view (c\<lparr>c_e := c_e c - of_nat k\<rparr>) = (fst (cons_view c), take (length (snd (cons_view c)) - k) (snd (cons_view c)))"
    and "cons_inv (c\<lparr>c_e := c_e c - of_nat k\<rparr>)"
    using inv cons_erase [of k c]
    by (auto simp: cons_view_def cons_inv_def drop_take min_def diff_right_commute add.commute dest: in_set_takeD)
qed

lemma store_view:
  assumes inv: "cons_inv c" and room: "cons_used c < INPUT_BUF_SIZE"
  shows "cons_view (cons_store b c) = (fst (cons_view c), snd (cons_view c) @ [b])"
    "b \<noteq> 10 \<Longrightarrow> cons_inv (cons_store b c)"
proof -
  have st: "cons_all (cons_store b c) = cons_all c @ [b]" "cons_used (cons_store b c) = Suc (cons_used c)"
    "cons_ready (cons_store b c) = cons_ready c" "length (cbuf (cons_store b c)) = INPUT_BUF_SIZE"
    using inv room cons_store_all [of c b] by (auto simp: cons_inv_def cons_store_def)
  then show "cons_view (cons_store b c) = (fst (cons_view c), snd (cons_view c) @ [b])"
    "b \<noteq> 10 \<Longrightarrow> cons_inv (cons_store b c)"
    using inv room by (auto simp: cons_view_def cons_inv_def)
qed

lemma commit_view:
  assumes inv: "cons_inv c" and room: "cons_used c < INPUT_BUF_SIZE"
  shows "cons_view ((cons_store b c)\<lparr>c_w := c_e (cons_store b c)\<rparr>) = (fst (cons_view c) @ snd (cons_view c) @ [b], [])"
    "cons_inv ((cons_store b c)\<lparr>c_w := c_e (cons_store b c)\<rparr>)"
proof -
  let ?c = "cons_store b c"
  have st: "cons_all ?c = cons_all c @ [b]" "cons_used ?c = Suc (cons_used c)" "length (cbuf ?c) = INPUT_BUF_SIZE"
    using inv room cons_store_all [of c b] by (auto simp: cons_inv_def cons_store_def)
  have "cons_all (?c\<lparr>c_w := c_e ?c\<rparr>) = cons_all ?c" "cons_used (?c\<lparr>c_w := c_e ?c\<rparr>) = cons_used ?c"
    "cons_ready (?c\<lparr>c_w := c_e ?c\<rparr>) = cons_used ?c"
    by (simp_all add: cons_all_def cons_used_def cons_ready_def)
  then show "cons_view (?c\<lparr>c_w := c_e ?c\<rparr>) = (fst (cons_view c) @ snd (cons_view c) @ [b], [])"
    "cons_inv (?c\<lparr>c_w := c_e ?c\<rparr>)"
    using st room by (auto simp: cons_view_def cons_inv_def)
qed

lemma used_test: "cons_inv c \<Longrightarrow> c_e c - c_r c < of_nat INPUT_BUF_SIZE \<longleftrightarrow> cons_used c < INPUT_BUF_SIZE"
  "c_e c - c_r c = of_nat INPUT_BUF_SIZE \<longleftrightarrow> cons_used c = INPUT_BUF_SIZE"
  by (simp_all add: word_less_nat_alt cons_used_def INPUT_BUF_SIZE_def word_unat_eq_iff)

section \<open>The branches of the interrupt\<close>

lemma byte_lits [simp]:
  "uint (b :: u8) = 16 \<longleftrightarrow> b = 16" "uint b = 21 \<longleftrightarrow> b = 21" "uint b = 8 \<longleftrightarrow> b = 8" "uint b = 127 \<longleftrightarrow> b = 127"
  "uint b = 13 \<longleftrightarrow> b = 13" "uint b = 0 \<longleftrightarrow> b = 0" "uint b = 10 \<longleftrightarrow> b = 10" "uint b = 4 \<longleftrightarrow> b = 4"
  by (simp_all add: word_uint_eq_iff)

lemma accepts_used: "cons_inv c \<Longrightarrow> accepts b (cons_view c) \<longleftrightarrow> b \<notin> {0, 8, 16, 21, 127} \<and> cons_used c < INPUT_BUF_SIZE"
  by (simp add: accepts_def cons_view_parts(4))

abbreviation erased :: "nat \<Rightarrow> 'a tkernel_scheme \<Rightarrow> 'a tkernel_scheme" where
  "erased k s \<equiv> emit (rubout k) (cons_upd (\<lambda>x. x\<lparr>c_e := c_e x - of_nat k\<rparr>) s)"

lemma intr_kill:
  assumes inv: "cons_inv (cons_of s)"
  shows "consoleintr 21 s = Inr (erased (length (snd (cons_view (cons_of s)))) s)"
proof -
  let ?c = "cons_of s"
  have le: "cons_ready ?c \<le> cons_used ?c" using inv by (simp add: cons_inv_def)
  have "(c_w ?c - c_r ?c) \<le> (c_e ?c - c_r ?c)" using le by (simp add: cons_used_def cons_ready_def word_le_nat_alt)
  from unat_sub [OF this] have "unat (c_e ?c - c_w ?c) = cons_used ?c - cons_ready ?c"
    by (simp add: cons_used_def cons_ready_def)
  with kill_line_erases [of s "cons_used ?c - cons_ready ?c"] inv le show ?thesis
    by (simp add: consoleintr_def cons_inv_def cons_view_def del: kill_line.simps)
qed

lemma intr_backspace:
  assumes inv: "cons_inv (cons_of s)" and b: "b = 8 \<or> b = 127"
  shows "consoleintr (uint (b :: u8)) s = Inr (erased (min 1 (length (snd (cons_view (cons_of s))))) s)"
proof (cases "c_e (cons_of s) = c_w (cons_of s)")
  case True
  then have "length (snd (cons_view (cons_of s))) = 0" using inv by (simp add: cons_view_parts e_eq_w)
  with True b show ?thesis by (auto simp: consoleintr_def cons_upd_def)
next
  case False
  then have "min 1 (length (snd (cons_view (cons_of s)))) = Suc 0"
    using inv by (auto simp: cons_view_parts e_eq_w cons_inv_def)
  with False b show ?thesis by (auto simp: consoleintr_def)
qed

lemma intr_store:
  assumes inv: "cons_inv (cons_of s)" and acc: "accepts b (cons_view (cons_of s))"
  shows "consoleintr (uint b) s = Inr
    (if commits (cr_to_nl b) (cons_view (cons_of s))
     then wakeup (kver s) (Some (cur s)) ConsChan
       (cons_upd (\<lambda>x. (cons_store (cr_to_nl b) x)\<lparr>c_w := c_e (cons_store (cr_to_nl b) x)\<rparr>) (emit [cr_to_nl b] s))
     else cons_upd (cons_store (cr_to_nl b)) (emit [cr_to_nl b] s))"
proof -
  let ?b = "cr_to_nl b" and ?c = "cons_of s"
  have room: "cons_used ?c < INPUT_BUF_SIZE" "b \<notin> {0, 8, 16, 21, 127}" using acc accepts_used [OF inv] by auto
  have cr: "(if uint b = 13 then 10 else uint b) = uint ?b" by (simp add: cr_to_nl_def)
  have "Suc (cons_used ?c) = cons_used (cons_store ?b ?c)"
    using inv room cons_store_all [of ?c] by (simp add: cons_inv_def)
  then have com: "commits ?b (cons_view ?c) \<longleftrightarrow> ?b = 10 \<or> ?b = 4 \<or> c_e (cons_store ?b ?c) - c_r (cons_store ?b ?c) = of_nat INPUT_BUF_SIZE"
    using cons_view_parts(4) [OF inv] by (simp add: commits_def used_test)
  have upd: "cons_upd (\<lambda>x. x\<lparr>c_w := c_e x\<rparr>) (cons_upd (cons_store ?b) s) = cons_upd (\<lambda>x. (cons_store ?b x)\<lparr>c_w := c_e (cons_store ?b x)\<rparr>) s"
    for s :: "'a tkernel_scheme" by (simp add: cons_upd_def)
  show ?thesis using room used_test(1) [OF inv] com
    unfolding consoleintr_def cr Let_def by (simp add: upd cons_upd_emit)
qed

lemma intr_ignore:
  "cons_inv (cons_of s) \<Longrightarrow> b \<notin> {8, 16, 21, 127} \<Longrightarrow> \<not> accepts b (cons_view (cons_of s)) \<Longrightarrow> consoleintr (uint b) s = Inr s"
  by (auto simp: consoleintr_def accepts_used used_test)

section \<open>Refinement\<close>

text \<open>C29. The receive interrupt is a line discipline. For every character, \<^verbatim>\<open>consoleintr\<close> returns, its loop
  for control-U within its bound; it keeps the buffer's invariant; the finished lines and the edited line change as the
  reference \<open>line_char\<close> says (a line feed, control-D or a full buffer finish the line, erasing never reaches
  a finished one, a character that finds the buffer full is dropped); the echo is \<open>line_echo\<close>; and
  the readers are woken exactly when a line is finished.\<close>

theorem console_refines:
  fixes s :: "'a tkernel_scheme"
  assumes inv: "cons_inv (cons_of s)"
  defines "v \<equiv> cons_view (cons_of s)"
  shows "\<exists>s'. consoleintr (uint b) s = Inr s' \<and> cons_inv (cons_of s') \<and> cons_view (cons_of s') = line_char b v
     \<and> (b \<noteq> 16 \<longrightarrow> uart_thr s' = uart_thr s @ line_echo b v)
     \<and> procs s' = (if accepts b v \<and> commits (cr_to_nl b) v
                    then wakeup_procs (kver s) (Some (cur s)) ConsChan (procs s) else procs s)"
proof -
  let ?c = "cons_of s"
  note [simp] = v_def line_char_def line_echo_def wakeup_def
  consider "b = 16" | "b = 21" | "b = 8 \<or> b = 127" | "b \<notin> {8, 16, 21, 127}" "accepts b v" | "b \<notin> {8, 16, 21, 127}" "\<not> accepts b v"
    by blast
  then show ?thesis
  proof cases
    case 1
    with procdump_emits [of s] inv show ?thesis by (auto simp: consoleintr_def accepts_def)
  next
    case 2
    with intr_kill [OF inv] erase_view [OF inv, of "length (snd v)"] show ?thesis by (simp add: accepts_def)
  next
    case 3
    with intr_backspace [OF inv 3] erase_view [OF inv, of "min 1 (length (snd v))"] show ?thesis
      by (auto simp: accepts_def butlast_conv_take min_def Suc_le_eq)
  next
    case 4
    then have "cons_used ?c < INPUT_BUF_SIZE" using accepts_used [OF inv] by simp
    with 4 intr_store [OF inv, of b] store_view [OF inv] commit_view [OF inv] show ?thesis
      by (auto simp: commits_def)
  next
    case 5
    with intr_ignore [OF inv 5(1)] inv show ?thesis by simp
  qed
qed

text \<open>An instance: the buffer holds one finished line and the line \<^verbatim>\<open>ls\<close>, its indices about to wrap; a carriage
  return finishes the second line.\<close>

definition ex_cons :: cons where
  "ex_cons = \<lparr>cbuf = (replicate 128 0)[126 := 97, 127 := 10, 0 := 108, 1 := 115], c_r = 2 ^ 32 - 2, c_w = 0, c_e = 2\<rparr>"

definition ex_term :: "unit tkernel_scheme" where
  "ex_term = ukernel.extend (ukernel.truncate quiet_port) \<lparr>cons_of = ex_cons\<rparr>"

lemma ex_cons_view: "cons_view ex_cons = ([97, 10], [108, 115])" "cons_inv ex_cons"
proof -
  have u: "cons_used ex_cons = 4" "cons_ready ex_cons = 2" by (simp_all add: cons_used_def cons_ready_def ex_cons_def)
  have "[0..<4] = [0, 1, 2, 3 :: nat]" by code_simp
  with u have "cons_all ex_cons = [97, 10, 108, 115]"
    by (simp add: cons_all_def ring_list_def ex_cons_def INPUT_BUF_SIZE_def nth_list_update)
  with u show "cons_view ex_cons = ([97, 10], [108, 115])" "cons_inv ex_cons"
    by (simp_all add: cons_view_def cons_inv_def ex_cons_def INPUT_BUF_SIZE_def)
qed

theorem console_refines_witness:
  "cons_view (cons_of ex_term) = ([97, 10], [108, 115]) \<and>
   (\<exists>s'. consoleintr 13 ex_term = Inr s' \<and> cons_view (cons_of s') = ([97, 10, 108, 115, 10], []) \<and> uart_thr s' = [10])"
proof -
  have c: "cons_of ex_term = ex_cons" "uart_thr ex_term = []"
    by (simp_all add: ex_term_def quiet_port_def ukernel.defs tkernel.defs)
  have "line_char 13 ([97, 10], [108, 115]) = ([97, 10, 108, 115, 10], [])" "line_echo 13 ([97, 10], [108, 115]) = [10]"
    by code_simp+
  with console_refines [of ex_term 13] ex_cons_view c show ?thesis by (auto simp: uint_numeral)
qed

end
