(* ===== verification/Console_Read.thy ===== *)
theory Console_Read
  imports Console_Line Pipe_Props
begin

text \<open>
  \<^verbatim>\<open>consoleread\<close> against a reference on the finished lines: a read ends with a line feed, with the number of
  bytes asked for, or before a control-D, which is left for the next read unless it comes first.
\<close>

fun read_line :: "bool \<Rightarrow> nat \<Rightarrow> u8 list \<Rightarrow> (u8 list \<times> u8 list) option" where
  "read_line at_start 0 ls = Some ([], ls)"
| "read_line at_start (Suc n) [] = None"
| "read_line at_start (Suc n) (c # ls) =
     (if c = 4 then Some ([], if at_start then ls else c # ls)
      else if c = 10 then Some ([c], ls)
      else map_option (\<lambda>(bs, rest). (c # bs, rest)) (read_line False n ls))"

section \<open>Advancing the read index\<close>

lemma cons_advance:
  assumes inv: "cons_inv c" and k: "k \<le> length (fst (cons_view c))"
  shows "cons_view (c\<lparr>c_r := c_r c + of_nat k\<rparr>) = (drop k (fst (cons_view c)), snd (cons_view c))"
    "cons_inv (c\<lparr>c_r := c_r c + of_nat k\<rparr>)"
proof -
  let ?c = "c\<lparr>c_r := c_r c + of_nat k\<rparr>"
  have k': "k \<le> cons_ready c" "k \<le> cons_used c" using k inv cons_view_parts(1) [OF inv] by (auto simp: cons_inv_def)
  have uk: "unat (of_nat k :: u32) = k"
    using k' unat_less_pow32 [of "c_e c - c_r c"] by (simp add: cons_used_def unat_of_nat)
  have le: "of_nat k \<le> c_e c - c_r c" "of_nat k \<le> c_w c - c_r c"
    using k' uk by (simp_all add: word_le_nat_alt cons_used_def cons_ready_def)
  have "cons_used ?c = cons_used c - k" "cons_ready ?c = cons_ready c - k"
    using unat_sub [OF le(1)] unat_sub [OF le(2)] uk by (simp_all add: cons_used_def cons_ready_def diff_diff_eq)
  moreover have "unat (c_r c + of_nat k) mod INPUT_BUF_SIZE = (unat (c_r c) + k) mod INPUT_BUF_SIZE"
    using unat_add_mod_dvd [of 128 "c_r c" k] by (simp add: INPUT_BUF_SIZE_def)
  then have "ring_list INPUT_BUF_SIZE d (unat (c_r c + of_nat k)) n = ring_list INPUT_BUF_SIZE d (unat (c_r c) + k) n"
    for d :: "u8 list" and n by (rule ring_list_cong_mod)
  ultimately have "cons_all ?c = drop k (cons_all c)" by (simp add: cons_all_def ring_drop)
  with \<open>cons_used ?c = _\<close> \<open>cons_ready ?c = _\<close> show "cons_view ?c = (drop k (fst (cons_view c)), snd (cons_view c))" "cons_inv ?c"
    using inv k' by (auto simp: cons_view_def cons_inv_def drop_take)
qed

lemma cons_front:
  assumes "cons_inv c" "fst (cons_view c) = b # ls"
  shows "cons_at c (c_r c) = b" "c_r c \<noteq> c_w c"
proof -
  have "cons_ready c \<noteq> 0" "cons_used c \<noteq> 0" using assms cons_view_parts(1) [OF assms(1)] by (auto simp: cons_inv_def)
  then show "c_r c \<noteq> c_w c" "cons_at c (c_r c) = b"
    using assms(2) cons_at_all [of 0 c] r_eq_w [of c] cons_view_parts(3) [OF assms(1), symmetric] by auto
qed

section \<open>Copies of the running process\<close>

lemma walk_same_mem:
  assumes "mem s' = mem s"
  shows "walkaddr pt va s' = walkaddr pt va s" "fst (walk_levels 2 pt va False s') = fst (walk_levels 2 pt va False s)"
  using assms by (auto intro: walkaddr_frame walk_path_frame(2))

lemma kcopy_upd:
  fixes s :: "'a tkernel_scheme"
  shows "kwritable p (s\<lparr>cons_of := c\<rparr>) a n = kwritable p s a n"
    "kstore p (s\<lparr>cons_of := c\<rparr>) a bs = (kstore p s a bs)\<lparr>cons_of := c\<rparr>"
proof -
  have w: "walkaddr pt va (s\<lparr>cons_of := c\<rparr>) = walkaddr pt va s"
    "fst (walk_levels 2 pt va False (s\<lparr>cons_of := c\<rparr>)) = fst (walk_levels 2 pt va False s)" for pt va
    by (rule walk_same_mem, simp)+
  then have "upa pt (s\<lparr>cons_of := c\<rparr>) = upa pt s" for pt by (simp add: upa_def fun_eq_iff)
  with w show "kwritable p (s\<lparr>cons_of := c\<rparr>) a n = kwritable p s a n"
    "kstore p (s\<lparr>cons_of := c\<rparr>) a bs = (kstore p s a bs)\<lparr>cons_of := c\<rparr>"
    by (simp_all add: kwritable_def uwritable_def upresent_def kstore_def ustore_at_def)
qed

lemma kstore_fields [simp]: "cons_of (kstore p s a bs) = cons_of s" "cur (kstore p s a bs) = cur s"
  by (simp_all add: kstore_def ustore_at_def)

lemma kstore_Nil [simp]: "kstore p s a [] = s"
  by (simp add: kstore_def ustore_at_def)

lemma cons_of_same [simp]: "(s :: 'a tkernel_scheme)\<lparr>cons_of := cons_of s\<rparr> = s"
  by (rule tkernel.equality) simp_all

lemma copyout_one:
  assumes "kwritable (cur s) s a (Suc n)"
  shows "either_copyout (cur s) True a [b] s = Inr (True, kstore (cur s) s a [b])"
    "kwritable (cur s) (kstore (cur s) s a [b]) (a + 1) n"
proof -
  show "either_copyout (cur s) True a [b] s = Inr (True, kstore (cur s) s a [b])"
    using uwritable_sub [OF assms [unfolded kwritable_def], of 0 1] copyout_uwritable [of _ s a "[b]"]
    by (simp add: either_copyout_def kstore_def Let_def)
  have "kwritable (cur s) (kstore (cur s) s a [b]) a (Suc n)"
    using uwritable_store [OF assms [unfolded kwritable_def], of 0 "[b]"] by (simp add: kwritable_def kstore_def)
  then show "kwritable (cur s) (kstore (cur s) s a [b]) (a + 1) n"
    using uwritable_sub [of _ _ a "Suc n" 1 n] by (simp add: kwritable_def)
qed

lemma kstore_Cons:
  assumes "kwritable p s a n" "Suc (length bs) \<le> n"
  shows "kstore p (kstore p s a [b]) (a + 1) bs = kstore p s a (b # bs)"
  using assms ustore_ustore [of "pagetable (procs s ! p)" s a "[b]" bs] uwritable_sub [of _ s a n 0 "Suc (length bs)"]
  by (simp add: kwritable_def kstore_def)

section \<open>The loop\<close>

text \<open>A finished read: \<open>bs\<close> is in user memory, \<open>rest\<close> are the finished lines that remain.\<close>

definition delivered :: "'a tkernel_scheme \<Rightarrow> u64 \<Rightarrow> u8 list \<Rightarrow> u8 list \<Rightarrow> 'a tkernel_scheme \<Rightarrow> bool" where
  "delivered s dst bs rest s' \<longleftrightarrow> (\<exists>c'. s' = (kstore (cur s) s dst bs)\<lparr>cons_of := c'\<rparr> \<and> cons_inv c'
     \<and> cons_view c' = (rest, snd (cons_view (cons_of s))))"

lemma delivered_now:
  assumes "cons_inv c'" "cons_view c' = (rest, snd (cons_view (cons_of s)))"
  shows "delivered s dst bs rest ((kstore (cur s) s dst bs)\<lparr>cons_of := c'\<rparr>)"
  using assms unfolding delivered_def by blast

lemma delivered_nothing:
  "cons_inv (cons_of s) \<Longrightarrow> fst (cons_view (cons_of s)) = ls \<Longrightarrow> delivered s dst [] ls s"
  using delivered_now [of "cons_of s" ls s dst "[]"] by (auto simp: prod_eq_iff)

lemma delivered_Cons:
  assumes "kwritable (cur s) s dst n" "Suc (length bs) \<le> n" "snd (cons_view c) = snd (cons_view (cons_of s))"
    "delivered (kstore (cur s) (s\<lparr>cons_of := c\<rparr>) dst [b]) (dst + 1) bs rest s'"
  shows "delivered s dst (b # bs) rest s'"
proof -
  from assms(4) obtain c' where c': "s' = (kstore (cur s) (kstore (cur s) (s\<lparr>cons_of := c\<rparr>) dst [b]) (dst + 1) bs)\<lparr>cons_of := c'\<rparr>"
    "cons_inv c'" "cons_view c' = (rest, snd (cons_view (cons_of s)))"
    unfolding delivered_def kstore_fields using assms(3) by auto
  then have "s' = (kstore (cur s) s dst (b # bs))\<lparr>cons_of := c'\<rparr>"
    using kstore_Cons [OF assms(1,2), of b] by (simp add: kcopy_upd)
  with c' show ?thesis unfolding delivered_def by blast
qed

lemma consoleread_loop_refines:
  "cons_inv (cons_of s) \<Longrightarrow> kwritable (cur s) s dst n \<Longrightarrow> n \<le> target \<Longrightarrow>
   (case read_line (n = target) n (fst (cons_view (cons_of s))) of
      None \<Rightarrow> if is_killed (cur s) s then \<exists>s'. consoleread_loop True target dst n s = Inr (None, s')
              else consoleread_loop True target dst n s = Inl WouldSleep
    | Some (bs, rest) \<Rightarrow> length bs \<le> n \<and>
        (\<exists>s'. consoleread_loop True target dst n s = Inr (Some (n - length bs), s') \<and> delivered s dst bs rest s'))"
proof (induction n arbitrary: s dst)
  case 0
  then show ?case using delivered_nothing [OF 0(1) refl] by simp
next
  case (Suc n)
  note inv = Suc.prems(1)
  let ?c = "cons_of s" and ?ls = "fst (cons_view (cons_of s))"
  show ?case
  proof (cases ?ls)
    case Nil
    then have "c_r ?c = c_w ?c" using inv cons_view_parts(1) [OF inv] by (simp add: r_eq_w)
    with Nil show ?thesis by simp
  next
    case (Cons b ls)
    let ?c1 = "?c\<lparr>c_r := c_r ?c + 1\<rparr>" and ?s1 = "s\<lparr>cons_of := ?c\<lparr>c_r := c_r ?c + 1\<rparr>\<rparr>"
    have front: "cons_at ?c (c_r ?c) = b" "c_r ?c \<noteq> c_w ?c" "cons_inv ?c1" "cons_view ?c1 = (ls, snd (cons_view ?c))"
      using cons_front [OF inv Cons] cons_advance [OF inv, of 1] Cons by auto
    have "kwritable (cur ?s1) ?s1 dst (Suc n)" using Suc.prems(2) by (simp add: kcopy_upd)
    note one = copyout_one [OF this, of b]
    have upd: "cons_upd (\<lambda>x. x\<lparr>c_r := c_r x + 1\<rparr>) s = ?s1" by (simp add: cons_upd_def)
    consider "b = 4" "Suc n < target" | "b = 4" "target = Suc n" | "b = 10" | "b \<noteq> 4" "b \<noteq> 10"
      using Suc.prems(3) by linarith
    then show ?thesis
    proof cases
      case 1
      have "cons_upd (\<lambda>x. x\<lparr>c_r := c_r x - 1\<rparr>) ?s1 = s" by (simp add: cons_upd_def)
      with 1 front upd Cons delivered_nothing [OF inv Cons] show ?thesis by simp
    next
      case 2
      with front upd Cons delivered_now [OF front(3,4), of dst "[]"] show ?thesis by simp
    next
      case 3
      with front upd Cons one delivered_now [OF front(3,4), of dst "[b]"] show ?thesis by (simp add: kcopy_upd)
    next
      case 4
      let ?s2 = "kstore (cur s) ?s1 dst [b]"
      have loop: "consoleread_loop True target dst (Suc n) s = consoleread_loop True target (dst + 1) n ?s2"
        using 4 front one(1) upd by simp
      have v2: "fst (cons_view (cons_of ?s2)) = ls" "is_killed (cur ?s2) ?s2 = is_killed (cur s) s"
        using front by (simp_all add: is_killed_def)
      have nt: "(n = target) = False" "n \<le> target" using Suc.prems(3) by simp_all
      have "cons_inv (cons_of ?s2)" "kwritable (cur ?s2) ?s2 (dst + 1) n" using front one(2) by simp_all
      from Suc.IH [OF this nt(2), unfolded v2 nt(1)] have IH: "case read_line False n ls of
          None \<Rightarrow> if is_killed (cur s) s then \<exists>s'. consoleread_loop True target (dst + 1) n ?s2 = Inr (None, s')
              else consoleread_loop True target (dst + 1) n ?s2 = Inl WouldSleep
        | Some (bs, rest) \<Rightarrow> length bs \<le> n \<and>
            (\<exists>s'. consoleread_loop True target (dst + 1) n ?s2 = Inr (Some (n - length bs), s') \<and> delivered ?s2 (dst + 1) bs rest s')" .
      have "snd (cons_view ?c1) = snd (cons_view ?c)" using front(4) by simp
      note step = delivered_Cons [OF Suc.prems(2) _ this]
      show ?thesis
      proof (cases "read_line False n ls")
        case None
        with IH loop 4 Cons show ?thesis by (simp del: consoleread_loop.simps)
      next
        case (Some br)
        then obtain bs rest where "read_line False n ls = Some (bs, rest)" by fastforce
        with IH step [of bs b rest] loop 4 Cons show ?thesis by (auto simp del: consoleread_loop.simps)
      qed
    qed
  qed
qed

text \<open>C30. A read of \<open>n\<close> bytes into writable memory is the reference on the finished lines: what it returns is
  the number of bytes \<open>read_line\<close> takes, these are in user memory, \<open>delivered\<close> also says that the
  rest of the lines and the line being edited stay, and that nothing else changes. Without enough input the
  call sleeps, or returns -1 if the process has been killed.\<close>

theorem consoleread_refines:
  fixes s :: "'a tkernel_scheme"
  assumes "cons_inv (cons_of s)" "0 \<le> n" "kwritable (cur s) s dst (nat n)"
  shows "case read_line True (nat n) (fst (cons_view (cons_of s))) of
      None \<Rightarrow> if is_killed (cur s) s then \<exists>s'. consoleread True dst n s = Inr (- 1, s')
              else consoleread True dst n s = Inl WouldSleep
    | Some (bs, rest) \<Rightarrow> \<exists>s'. consoleread True dst n s = Inr (int (length bs), s') \<and> delivered s dst bs rest s'"
proof (cases "read_line True (nat n) (fst (cons_view (cons_of s)))")
  case None
  then show ?thesis using consoleread_loop_refines [OF assms(1,3), of "nat n"] by (auto simp: consoleread_def)
next
  case (Some br)
  obtain bs rest where br: "br = (bs, rest)" by fastforce
  with Some consoleread_loop_refines [OF assms(1,3), of "nat n"] obtain s' where
    "length bs \<le> nat n" "consoleread_loop True (nat n) dst (nat n) s = Inr (Some (nat n - length bs), s')"
    "delivered s dst bs rest s'" by auto
  with Some br show ?thesis by (simp add: consoleread_def of_nat_diff)
qed

definition ex_reader :: "unit tkernel_scheme" where
  "ex_reader = ex_term\<lparr>mem := ex_mem, procs := procs ex_kernel\<rparr>"

theorem consoleread_refines_witness:
  "\<exists>s'. consoleread True 0 3 ex_reader = Inr (2, s') \<and> delivered ex_reader 0 [97, 10] [] s'"
proof -
  have r: "mem ex_reader = mem ex_kernel" "cur ex_reader = 0" "procs ex_reader = procs ex_kernel" "cons_of ex_reader = ex_cons"
    by (simp_all add: ex_reader_def ex_term_def quiet_port_def ukernel.defs tkernel.defs)
  have "walkaddr pt va ex_reader = walkaddr pt va ex_kernel"
    "fst (walk_levels 2 pt va False ex_reader) = fst (walk_levels 2 pt va False ex_kernel)" for pt va
    using r(1) by (rule walk_same_mem)+
  then have "kwritable 0 ex_reader 0 3" using ex_writable r
    by (simp add: kwritable_def uwritable_def upresent_def upa_def)
  moreover have "read_line True 3 [97, 10] = Some ([97, 10], [])" by code_simp
  ultimately show ?thesis using consoleread_refines [of ex_reader 3 0] r ex_cons_view by simp
qed

end
