(* ===== verification/Virtio.thy ===== *)
theory Virtio
  imports Syscall
begin

text \<open>
  The disk driver (\<^verbatim>\<open>kernel/virtio_disk.c\<close>, \<^verbatim>\<open>kernel/virtio.h\<close>): a table of \<open>NUM\<close> descriptors, the ring in
  which the driver names requests to the device, the ring in which the device names the ones it has
  finished, and the driver's book-keeping. A descriptor's address is the kernel object it points to. A
  section under \<^verbatim>\<open>vdisk_lock\<close> is one step; \<^verbatim>\<open>virtio_disk_rw\<close> is three of them, divided where it sleeps.
\<close>

unbundle bit_operations_syntax

section \<open>State\<close>

definition NUM :: nat where "NUM = 8"
definition VRING_DESC_F_NEXT :: u16 where "VRING_DESC_F_NEXT = 1"
definition VRING_DESC_F_WRITE :: u16 where "VRING_DESC_F_WRITE = 2"
definition VIRTIO_BLK_T_IN :: u32 where "VIRTIO_BLK_T_IN = 0"
definition VIRTIO_BLK_T_OUT :: u32 where "VIRTIO_BLK_T_OUT = 1"

text \<open>What a descriptor may point to: \<^verbatim>\<open>&disk.ops[i]\<close>, \<^verbatim>\<open>b->data\<close>, \<^verbatim>\<open>&disk.info[i].status\<close>, or nothing.\<close>

datatype dma = NullAddr | OpAddr nat | DataAddr nat | StatusAddr nat

record virtq_desc =
  d_addr :: dma
  d_len :: u32
  d_flags :: u16
  d_next :: u16

record virtio_blk_req =
  rq_type :: u32
  rq_reserved :: u32
  rq_sector :: u64

text \<open>\<open>avail_idx\<close> and \<open>avail_ring\<close> are \<^verbatim>\<open>disk.avail\<close>, \<open>dev_idx\<close> and \<open>used_ring\<close> are \<^verbatim>\<open>disk.used\<close>, of whose elements the
  driver reads the field \<^verbatim>\<open>id\<close>; \<open>info_b\<close> and \<open>info_status\<close> are the fields of \<^verbatim>\<open>disk.info\<close>.\<close>

record vdisk =
  vdesc :: "virtq_desc list"
  avail_idx :: u16
  avail_ring :: "u16 list"
  dev_idx :: u16
  used_ring :: "u32 list"
  vfree :: "bool list"
  used_idx :: u16
  info_b :: "nat option list"
  info_status :: "u8 list"
  vops :: "virtio_blk_req list"

text \<open>\<open>buf_disk\<close> is the field \<^verbatim>\<open>disk\<close> of the buffers.\<close>

record vkernel = skernel +
  vd :: vdisk
  buf_disk :: "bool list"

text \<open>The wait channels \<^verbatim>\<open>&disk.free[0]\<close> and \<^verbatim>\<open>b\<close>.\<close>

abbreviation FreeChan :: kchan where "FreeChan \<equiv> ObjChan 3"
abbreviation DataChan :: "nat \<Rightarrow> kchan" where "DataChan b \<equiv> ObjChan (16 + of_nat b)"

definition upd_vd :: "(vdisk \<Rightarrow> vdisk) \<Rightarrow> 'a vkernel_scheme \<Rightarrow> 'a vkernel_scheme" where
  "upd_vd f s = s\<lparr>vd := f (vd s)\<rparr>"

section \<open>Descriptors\<close>

primrec first_free :: "bool list \<Rightarrow> nat option" where
  "first_free [] = None"
| "first_free (x # xs) = (if x then Some 0 else map_option Suc (first_free xs))"

definition alloc_desc :: "'a vkernel_scheme \<Rightarrow> int \<times> 'a vkernel_scheme" where
  "alloc_desc s = (case first_free (vfree (vd s)) of
       None \<Rightarrow> (- 1, s)
     | Some i \<Rightarrow> (int i, upd_vd (\<lambda>d. d\<lparr>vfree := (vfree d)[i := False]\<rparr>) s))"

definition free_desc :: "int \<Rightarrow> 'a vkernel_scheme \<Rightarrow> 'a vkernel_scheme kres" where
  "free_desc n s =
     (let i = nat n
      in if n \<ge> int NUM then Inl (Panic ''free_desc 1'')
         else if n < 0 \<or> i \<ge> length (vfree (vd s)) then Inl BadIndex
         else if vfree (vd s) ! i then Inl (Panic ''free_desc 2'')
         else Inr (wakeup (kver s) (Some (cur s)) FreeChan
           (upd_vd (\<lambda>d. d\<lparr>vdesc := (vdesc d)[i := \<lparr>d_addr = NullAddr, d_len = 0, d_flags = 0, d_next = 0\<rparr>],
                          vfree := (vfree d)[i := True]\<rparr>) s)))"

text \<open>\<^verbatim>\<open>free_chain\<close> ends: to free a descriptor twice is a panic, so every turn frees one more.\<close>

definition taken :: "'a vkernel_scheme \<Rightarrow> nat" where
  "taken s = length (filter Not (vfree (vd s)))"

lemma filter_Not_update: "i < length xs \<Longrightarrow> \<not> xs ! i \<Longrightarrow> Suc (length (filter Not (xs[i := True]))) = length (filter Not xs)"
  by (induction xs arbitrary: i) (auto split: nat.splits simp: less_Suc_eq_0_disj)

lemma taken_free_desc: "free_desc n s = Inr s' \<Longrightarrow> Suc (taken s') = taken s"
  by (auto simp: free_desc_def taken_def wakeup_def upd_vd_def Let_def filter_Not_update split: if_splits)

function free_chain :: "int \<Rightarrow> 'a vkernel_scheme \<Rightarrow> 'a vkernel_scheme kres" where
  "free_chain i s =
     (let flag = d_flags (vdesc (vd s) ! nat i);
          nxt = uint (d_next (vdesc (vd s) ! nat i))
      in rbind (free_desc i s) (\<lambda>s'. if flag AND VRING_DESC_F_NEXT \<noteq> 0 then free_chain nxt s' else Inr s'))"
  by pat_completeness auto
termination
  by (relation "measure (\<lambda>(i, s). taken s)") (auto dest!: taken_free_desc)

declare free_chain.simps [simp del]

text \<open>The loop of \<^verbatim>\<open>alloc3_desc\<close>, with \<open>k\<close> descriptors to go and those it has in \<open>idx\<close>; \<open>None\<close> is the return of -1.\<close>

primrec alloc_loop :: "nat \<Rightarrow> nat list \<Rightarrow> 'a vkernel_scheme \<Rightarrow> (nat list option \<times> 'a vkernel_scheme) kres" where
  "alloc_loop 0 idx s = Inr (Some idx, s)"
| "alloc_loop (Suc k) idx s =
     (case alloc_desc s of (i, s) \<Rightarrow>
        if i < 0 then rbind (rfold (\<lambda>j. free_desc (int j)) idx s) (\<lambda>s. Inr (None, s))
        else alloc_loop k (idx @ [nat i]) s)"

definition alloc3_desc :: "'a vkernel_scheme \<Rightarrow> (nat list option \<times> 'a vkernel_scheme) kres" where
  "alloc3_desc s = alloc_loop 3 [] s"

section \<open>Requests\<close>

definition set_desc :: "nat \<Rightarrow> virtq_desc \<Rightarrow> 'a vkernel_scheme \<Rightarrow> 'a vkernel_scheme" where
  "set_desc i x = upd_vd (\<lambda>d. d\<lparr>vdesc := (vdesc d)[i := x]\<rparr>)"

text \<open>\<^verbatim>\<open>virtio_disk_rw\<close> from the three descriptors to the notification of the device. The sector number is
  computed with 32 bits.\<close>

definition rw_submit :: "nat \<Rightarrow> bool \<Rightarrow> nat \<Rightarrow> nat \<Rightarrow> nat \<Rightarrow> 'a vkernel_scheme \<Rightarrow> 'a vkernel_scheme" where
  "rw_submit b write i0 i1 i2 s =
     (let sector = ucast (blockno (buf_at s b) * of_nat (BSIZE div 512) :: u32);
          s = upd_vd (\<lambda>d. d\<lparr>vops := (vops d)[i0 := \<lparr>rq_type = (if write then VIRTIO_BLK_T_OUT else VIRTIO_BLK_T_IN),
                rq_reserved = 0, rq_sector = sector\<rparr>]\<rparr>) s;
          s = set_desc i0 \<lparr>d_addr = OpAddr i0, d_len = 16, d_flags = VRING_DESC_F_NEXT, d_next = of_nat i1\<rparr> s;
          s = set_desc i1 \<lparr>d_addr = DataAddr b, d_len = of_nat BSIZE,
                d_flags = (if write then 0 else VRING_DESC_F_WRITE) OR VRING_DESC_F_NEXT, d_next = of_nat i2\<rparr> s;
          s = upd_vd (\<lambda>d. d\<lparr>info_status := (info_status d)[i0 := 0xff]\<rparr>) s;
          s = set_desc i2 \<lparr>d_addr = StatusAddr i0, d_len = 1, d_flags = VRING_DESC_F_WRITE, d_next = 0\<rparr> s;
          s = s\<lparr>buf_disk := (buf_disk s)[b := True]\<rparr>;
          s = upd_vd (\<lambda>d. d\<lparr>info_b := (info_b d)[i0 := Some b]\<rparr>) s;
          s = upd_vd (\<lambda>d. d\<lparr>avail_ring := (avail_ring d)[unat (avail_idx d mod of_nat NUM) := of_nat i0]\<rparr>) s
      in upd_vd (\<lambda>d. d\<lparr>avail_idx := avail_idx d + 1\<rparr>) s)"

datatype rw_turn = RwWant | RwWait nat nat nat | RwDone

definition rw_finish :: "nat \<Rightarrow> 'a vkernel_scheme \<Rightarrow> 'a vkernel_scheme kres" where
  "rw_finish i0 s = free_chain (int i0) (upd_vd (\<lambda>d. d\<lparr>info_b := (info_b d)[i0 := None]\<rparr>) s)"

text \<open>One test of \<^verbatim>\<open>b->disk\<close>: the process sleeps, or the request is finished.\<close>

definition rw_poll :: "nat \<Rightarrow> nat \<Rightarrow> nat \<Rightarrow> nat \<Rightarrow> 'a vkernel_scheme \<Rightarrow> (rw_turn \<times> 'a vkernel_scheme) kres" where
  "rw_poll b i0 i1 i2 s =
     (if buf_disk s ! b then Inr (RwWait i0 i1 i2, upd_proc (cur s) (sleep_on (DataChan b)) s)
      else rbind (rw_finish i0 s) (\<lambda>s. Inr (RwDone, s)))"

text \<open>One turn of the loop that allocates descriptors: the process sleeps, or the request goes to the
  device.\<close>

definition rw_enter :: "nat \<Rightarrow> bool \<Rightarrow> 'a vkernel_scheme \<Rightarrow> (rw_turn \<times> 'a vkernel_scheme) kres" where
  "rw_enter b write s =
     rbind (alloc3_desc s) (\<lambda>(r, s). case r of
       None \<Rightarrow> Inr (RwWant, upd_proc (cur s) (sleep_on FreeChan) s)
     | Some idx \<Rightarrow> rw_poll b (idx ! 0) (idx ! 1) (idx ! 2) (rw_submit b write (idx ! 0) (idx ! 1) (idx ! 2) s))"

section \<open>The interrupt\<close>

lemma unat_dec: "(x :: 'a::len word) \<noteq> y \<Longrightarrow> unat (y - (x + 1)) < unat (y - x)"
proof -
  assume "x \<noteq> y"
  then have "y - x \<noteq> 0" by simp
  moreover have "y - (x + 1) = (y - x) - 1" by simp
  ultimately show ?thesis by (metis measure_unat)
qed

text \<open>The loop of \<^verbatim>\<open>virtio_disk_intr\<close> over the entries of the ring that are new.\<close>

function virtio_disk_intr :: "'a vkernel_scheme \<Rightarrow> 'a vkernel_scheme kres" where
  "virtio_disk_intr s =
     (let d = vd s
      in if used_idx d = dev_idx d then Inr s
         else
           let id = unat (used_ring d ! unat (used_idx d mod of_nat NUM))
           in if id \<ge> NUM then Inl BadIndex
              else if info_status d ! id \<noteq> 0 then Inl (Panic ''virtio_disk_intr status'')
              else case info_b d ! id of
                None \<Rightarrow> Inl BadIndex
              | Some b \<Rightarrow> virtio_disk_intr (upd_vd (\<lambda>d. d\<lparr>used_idx := used_idx d + 1\<rparr>)
                  (wakeup (kver s) (Some (cur s)) (DataChan b) (s\<lparr>buf_disk := (buf_disk s)[b := False]\<rparr>))))"
  by pat_completeness auto
termination
  by (relation "measure (\<lambda>s. unat (dev_idx (vd s) - used_idx (vd s)))") (auto simp: upd_vd_def wakeup_def unat_dec)

declare virtio_disk_intr.simps [simp del]

section \<open>Initialisation\<close>

text \<open>What the device answers when \<^verbatim>\<open>virtio_disk_init\<close> reads its registers; \<open>r_status\<close> is the status after
  \<^verbatim>\<open>FEATURES_OK\<close> was written.\<close>

record virtio_regs =
  r_magic :: u32
  r_version :: u32
  r_device :: u32
  r_vendor :: u32
  r_features :: u32
  r_status :: u32
  r_ready :: u32
  r_num_max :: u32

text \<open>The bits cleared from the features: \<^verbatim>\<open>BLK_F_RO\<close>, \<^verbatim>\<open>BLK_F_SCSI\<close>, \<^verbatim>\<open>BLK_F_CONFIG_WCE\<close>, \<^verbatim>\<open>BLK_F_MQ\<close>, \<^verbatim>\<open>F_ANY_LAYOUT\<close>,
  \<^verbatim>\<open>RING_F_EVENT_IDX\<close> and \<^verbatim>\<open>RING_F_INDIRECT_DESC\<close>.\<close>

definition virtio_features :: "u32 \<Rightarrow> u32" where
  "virtio_features f = ucast (fold (\<lambda>k x. x AND NOT (push_bit k 1)) [5, 7, 11, 12, 27, 29, 28] (ucast f :: u64))"

text \<open>The checks before the queue memory is allocated, in the order of the code.\<close>

definition virtio_check :: "virtio_regs \<Rightarrow> unit kres" where
  "virtio_check r =
     (if r_magic r \<noteq> 0x74726976 \<or> r_version r \<noteq> 2 \<or> r_device r \<noteq> 2 \<or> r_vendor r \<noteq> 0x554d4551
      then Inl (Panic ''could not find virtio disk'')
      else if r_status r AND 8 = 0 then Inl (Panic ''virtio disk FEATURES_OK unset'')
      else if r_ready r \<noteq> 0 then Inl (Panic ''virtio disk should not be ready'')
      else if r_num_max r = 0 then Inl (Panic ''virtio disk has no queue 0'')
      else if r_num_max r < of_nat NUM then Inl (Panic ''virtio disk max queue too short'')
      else Inr ())"

text \<open>The result is the list of register writes, offset and value, with the state: three pages for the
  queue, zeroed, and all descriptors free.\<close>

definition virtio_disk_init :: "virtio_regs \<Rightarrow> 'a vkernel_scheme \<Rightarrow> ((nat \<times> u32) list \<times> 'a vkernel_scheme) kres" where
  "virtio_disk_init r s =
     rbind (virtio_check r) (\<lambda>_.
     case kalloc s of (desc, s) \<Rightarrow> case kalloc s of (avail, s) \<Rightarrow> case kalloc s of (used, s) \<Rightarrow>
       if desc = 0 \<or> avail = 0 \<or> used = 0 then Inl (Panic ''virtio disk kalloc'')
       else
         let s = s\<lparr>mem := memset (memset (memset (mem s) desc 0 PGSIZE) avail 0 PGSIZE) used 0 PGSIZE\<rparr>;
             s = upd_vd (\<lambda>d. d\<lparr>vdesc := replicate NUM \<lparr>d_addr = NullAddr, d_len = 0, d_flags = 0, d_next = 0\<rparr>,
                   avail_idx := 0, avail_ring := replicate NUM 0, dev_idx := 0, used_ring := replicate NUM 0,
                   vfree := replicate NUM True\<rparr>) s
         in Inr ([(0x070, 0), (0x070, 1), (0x070, 3), (0x020, virtio_features (r_features r)), (0x070, 11), (0x030, 0),
               (0x038, of_nat NUM), (0x080, ucast desc), (0x084, ucast (drop_bit 32 desc)),
               (0x090, ucast avail), (0x094, ucast (drop_bit 32 avail)), (0x0a0, ucast used), (0x0a4, ucast (drop_bit 32 used)),
               (0x044, 1), (0x070, r_status r OR 4)], s))"

end
