(* ===== verification/Virtio_Inv.thy ===== *)
theory Virtio_Inv
  imports Virtio
begin

text \<open>
  The driver and the device together. Any number of processes run \<^verbatim>\<open>virtio_disk_rw\<close>, the device takes
  requests from one ring in their order, finishes them in any order and reports them in the other ring,
  and interrupts come at any time. The invariant: every descriptor that is not free belongs to one
  request, whose descriptors are as the driver wrote them, and a request the device has not
  reported yet is at exactly one place.
\<close>

section \<open>The two rings\<close>

definition wring :: "'b::len word list \<Rightarrow> u16 \<Rightarrow> u16 \<Rightarrow> nat list" where
  "wring rg r w = map unat (ring_list NUM rg (unat r) (unat (w - r)))"

lemma length_wring [simp]: "length (wring rg r w) = unat (w - r)"
  by (simp add: wring_def)

lemma wring_slot: "unat ((x :: u16) mod of_nat NUM) = unat x mod NUM"
  by (simp add: NUM_def unat_mod)

lemma wring_push:
  fixes rg :: "'b::len word list"
  assumes "length rg = NUM" "unat (w - r) < NUM"
  shows "wring (rg[unat (w mod of_nat NUM) := x]) r (w + 1) = wring rg r w @ [unat x]"
proof -
  let ?n = "unat (w - r)"
  let ?h = "(unat r + ?n) mod NUM"
  have n: "unat (w + 1 - r) = ?n + 1"
  proof -
    have e: "w + 1 - r = (w - r) + 1" by simp
    have "unat ((w - r) + 1) = (?n + 1) mod 2 ^ 16" by (simp only: unat_word_ariths) simp
    then show ?thesis unfolding e using assms(2) by (simp add: NUM_def)
  qed
  have "unat w mod NUM = ?h"
    using unat_add_mod_len [of NUM r ?n] by (simp add: NUM_def)
  then have "rg[unat (w mod of_nat NUM) := x] = overwrite rg ?h [x]"
    unfolding wring_slot using assms(1) by (simp add: overwrite_single NUM_def)
  moreover have "?h + 1 \<le> NUM" by (simp add: NUM_def Suc_le_eq)
  ultimately show ?thesis
    using ring_write [of rg NUM ?n "[x]" "unat r"] assms n by (simp add: wring_def)
qed

lemma wring_pop:
  assumes "r \<noteq> w"
  shows "wring rg r w = unat (rg ! unat (r mod of_nat NUM)) # wring rg (r + 1) w"
proof -
  have n: "unat (w - r) = Suc (unat (w - (r + 1)))"
  proof -
    have "w - r \<noteq> 0" "w - (r + 1) = (w - r) - 1" using assms by simp_all
    then show ?thesis by (metis Suc_pred' unat_gt_0 unat_minus_one)
  qed
  have "unat (r + 1) mod NUM = (unat r + 1) mod NUM" using unat_add_mod_len [of NUM r 1] by (simp add: NUM_def)
  then have "ring_list NUM rg (unat (r + 1)) k = ring_list NUM rg (unat r + 1) k" for k by (rule ring_list_cong_mod)
  then show ?thesis unfolding wring_def n
    by (simp add: ring_list_def upt_conv_Cons wring_slot comp_def map_Suc_upt [symmetric] del: upt_Suc)
qed

lemma wring_Nil: "wring rg r r = []"
  by (simp add: wring_def)

section \<open>The device\<close>

text \<open>What the device does with a request, from the comments of \<^verbatim>\<open>kernel/virtio.h\<close> and \<^verbatim>\<open>kernel/virtio_disk.c\<close>: it follows the
  chain from its head, moves the block in the direction the request says, writes 0 into the status
  byte, and appends the head to the used ring. A chain of any other form is \<open>None\<close>.\<close>

abbreviation has_flag :: "virtq_desc \<Rightarrow> u16 \<Rightarrow> bool" where
  "has_flag d f \<equiv> and (d_flags d) f \<noteq> 0"

definition dev_transfer :: "nat \<Rightarrow> 'a vkernel_scheme \<Rightarrow> 'a vkernel_scheme option" where
  "dev_transfer i s =
     (let d = vd s; d0 = vdesc d ! i; d1 = vdesc d ! unat (d_next d0); d2 = vdesc d ! unat (d_next d1)
      in case (d_addr d0, d_addr d1, d_addr d2) of
           (OpAddr k, DataAddr b, StatusAddr j) \<Rightarrow>
             if has_flag d0 VRING_DESC_F_NEXT \<and> has_flag d1 VRING_DESC_F_NEXT \<and> \<not> has_flag d2 VRING_DESC_F_NEXT
                \<and> \<not> has_flag d0 VRING_DESC_F_WRITE \<and> has_flag d2 VRING_DESC_F_WRITE
                \<and> d_len d0 = 16 \<and> unat (d_len d1) = BSIZE \<and> d_len d2 = 1
             then
               let rq = vops d ! k;
                   blk = ucast (rq_sector rq div 2) :: u32;
                   s = upd_vd (\<lambda>d. d\<lparr>info_status := (info_status d)[j := 0]\<rparr>) s
               in if rq_type rq = VIRTIO_BLK_T_OUT \<and> \<not> has_flag d1 VRING_DESC_F_WRITE
                  then Some (s\<lparr>disk := (disk s)(blk := bdata (buf_at s b)), dwrites := dwrites s @ [(blk, bdata (buf_at s b))]\<rparr>)
                  else if rq_type rq = VIRTIO_BLK_T_IN \<and> has_flag d1 VRING_DESC_F_WRITE
                  then Some (upd_buf b (\<lambda>x. x\<lparr>bdata := disk s blk\<rparr>) s)
                  else None
             else None
         | _ \<Rightarrow> None)"

definition dev_complete :: "nat \<Rightarrow> 'a vkernel_scheme \<Rightarrow> 'a vkernel_scheme option" where
  "dev_complete i s = map_option
     (upd_vd (\<lambda>d. d\<lparr>used_ring := (used_ring d)[unat (dev_idx d mod of_nat NUM) := of_nat i], dev_idx := dev_idx d + 1\<rparr>))
     (dev_transfer i s)"

section \<open>Steps\<close>

text \<open>Where a process is in \<^verbatim>\<open>virtio_disk_rw\<close>: outside, waiting for descriptors, or waiting for the device with
  its three descriptors. \<open>v\<close> is the block the transfer has to leave in the buffer and on the disk.\<close>

datatype vphase = VIdle | VWant nat bool | VWait nat bool nat nat nat (goal: block)

fun chain :: "vphase \<Rightarrow> nat list" where
  "chain (VWait b w i0 i1 i2 v) = [i0, i1, i2]"
| "chain _ = []"

fun buf_of :: "vphase \<Rightarrow> nat option" where
  "buf_of VIdle = None"
| "buf_of (VWant b w) = Some b"
| "buf_of (VWait b w i0 i1 i2 v) = Some b"

fun after_turn :: "nat \<Rightarrow> bool \<Rightarrow> block \<Rightarrow> rw_turn \<Rightarrow> vphase" where
  "after_turn b w v RwWant = VWant b w"
| "after_turn b w v (RwWait i0 i1 i2) = VWait b w i0 i1 i2 v"
| "after_turn b w v RwDone = VIdle"

definition target_block :: "nat \<Rightarrow> bool \<Rightarrow> 'a bkernel_scheme \<Rightarrow> block" where
  "target_block b w s = (if w then bdata (buf_at s b) else disk s (blockno (buf_at s b)))"

record vsys =
  vk :: vkernel
  vph :: "nat \<Rightarrow> vphase"
  dseen :: u16
  dbusy :: "nat list"

text \<open>A caller of \<^verbatim>\<open>virtio_disk_rw\<close> holds the sleep lock of its buffer, and the cache has one buffer for a block.\<close>

definition exclusive :: "nat \<Rightarrow> vsys \<Rightarrow> bool" where
  "exclusive b S \<longleftrightarrow> b < length (bufs_of (vk S)) \<and> b < length (buf_disk (vk S)) \<and> unat (blockno (buf_at (vk S) b)) < 2 ^ 31
     \<and> (\<forall>q c. buf_of (vph S q) = Some c \<longrightarrow> c \<noteq> b \<and> blockno (buf_at (vk S) c) \<noteq> blockno (buf_at (vk S) b))"

definition runs :: "nat \<Rightarrow> vsys \<Rightarrow> bool" where
  "runs p S \<longleftrightarrow> p < length (procs (vk S)) \<and> pstate (procs (vk S) ! p) \<noteq> SLEEPING"

abbreviation resumed :: "nat \<Rightarrow> vkernel \<Rightarrow> vkernel" where
  "resumed p s \<equiv> upd_proc p sleep_resume (s\<lparr>cur := p\<rparr>)"

inductive vstep :: "vsys \<Rightarrow> vsys \<Rightarrow> bool" where
  enter: "\<lbrakk> runs p S; vph S p = VIdle; exclusive b S; rw_enter b w ((vk S)\<lparr>cur := p\<rparr>) = Inr (t, s') \<rbrakk>
    \<Longrightarrow> vstep S (S\<lparr>vk := s', vph := (vph S)(p := after_turn b w (target_block b w (vk S)) t)\<rparr>)"
| again: "\<lbrakk> runs p S; vph S p = VWant b w; rw_enter b w (resumed p (vk S)) = Inr (t, s') \<rbrakk>
    \<Longrightarrow> vstep S (S\<lparr>vk := s', vph := (vph S)(p := after_turn b w (target_block b w (vk S)) t)\<rparr>)"
| poll: "\<lbrakk> runs p S; vph S p = VWait b w i0 i1 i2 v; rw_poll b i0 i1 i2 (resumed p (vk S)) = Inr (t, s') \<rbrakk>
    \<Longrightarrow> vstep S (S\<lparr>vk := s', vph := (vph S)(p := after_turn b w v t)\<rparr>)"
| fetch: "dseen S \<noteq> avail_idx (vd (vk S)) \<Longrightarrow>
    vstep S (S\<lparr>dbusy := dbusy S @ [unat (avail_ring (vd (vk S)) ! unat (dseen S mod of_nat NUM))], dseen := dseen S + 1\<rparr>)"
| finish: "\<lbrakk> i \<in> set (dbusy S); dev_complete i (vk S) = Some s' \<rbrakk>
    \<Longrightarrow> vstep S (S\<lparr>vk := s', dbusy := remove1 i (dbusy S)\<rparr>)"
| intr: "\<lbrakk> runs q S; virtio_disk_intr ((vk S)\<lparr>cur := q\<rparr>) = Inr s' \<rbrakk> \<Longrightarrow> vstep S (S\<lparr>vk := s'\<rparr>)"
| kill: "vstep S (S\<lparr>vk := upd_proc p kill_proc (vk S)\<rparr>)"

inductive vreach :: "vsys \<Rightarrow> vsys \<Rightarrow> bool" for S0 where
  start: "vreach S0 S0"
| step: "vreach S0 S \<Longrightarrow> vstep S S' \<Longrightarrow> vreach S0 S'"

section \<open>The invariant\<close>

text \<open>Descriptors have one owner or are free.\<close>

definition owned :: "vdisk \<Rightarrow> (nat \<Rightarrow> vphase) \<Rightarrow> bool" where
  "owned d ph \<longleftrightarrow> length (vfree d) = NUM
     \<and> (\<forall>p. distinct (chain (ph p)) \<and> (\<forall>i \<in> set (chain (ph p)). i < NUM \<and> \<not> vfree d ! i))
     \<and> (\<forall>i < NUM. \<not> vfree d ! i \<longrightarrow> (\<exists>p. i \<in> set (chain (ph p))))
     \<and> (\<forall>p q. p \<noteq> q \<longrightarrow> set (chain (ph p)) \<inter> set (chain (ph q)) = {})"

text \<open>What the driver wrote for a request.\<close>

definition formatted :: "vdisk \<Rightarrow> buf list \<Rightarrow> nat \<Rightarrow> bool \<Rightarrow> nat \<Rightarrow> nat \<Rightarrow> nat \<Rightarrow> bool" where
  "formatted d bs b w i0 i1 i2 \<longleftrightarrow>
     vops d ! i0 = \<lparr>rq_type = (if w then VIRTIO_BLK_T_OUT else VIRTIO_BLK_T_IN), rq_reserved = 0,
       rq_sector = ucast (blockno (bs ! b) * of_nat (BSIZE div 512) :: u32)\<rparr>
     \<and> vdesc d ! i0 = \<lparr>d_addr = OpAddr i0, d_len = 16, d_flags = VRING_DESC_F_NEXT, d_next = of_nat i1\<rparr>
     \<and> vdesc d ! i1 = \<lparr>d_addr = DataAddr b, d_len = of_nat BSIZE,
          d_flags = or (if w then 0 else VRING_DESC_F_WRITE) VRING_DESC_F_NEXT, d_next = of_nat i2\<rparr>
     \<and> vdesc d ! i2 = \<lparr>d_addr = StatusAddr i0, d_len = 1, d_flags = VRING_DESC_F_WRITE, d_next = 0\<rparr>
     \<and> info_b d ! i0 = Some b"

definition tables :: "vdisk \<Rightarrow> buf list \<Rightarrow> (nat \<Rightarrow> vphase) \<Rightarrow> bool" where
  "tables d bs ph \<longleftrightarrow> length (vdesc d) = NUM \<and> length (avail_ring d) = NUM \<and> length (used_ring d) = NUM
     \<and> length (info_b d) = NUM \<and> length (info_status d) = NUM \<and> length (vops d) = NUM
     \<and> (\<forall>p b w i0 i1 i2 v. ph p = VWait b w i0 i1 i2 v \<longrightarrow> formatted d bs b w i0 i1 i2)"

text \<open>The requests the device has not reported to the driver: in the ring of the driver, inside the device, and in the ring of the device.\<close>

definition queued :: "vdisk \<Rightarrow> u16 \<Rightarrow> nat list" where
  "queued d seen = wring (avail_ring d) seen (avail_idx d)"

definition reported :: "vdisk \<Rightarrow> nat list" where
  "reported d = wring (used_ring d) (used_idx d) (dev_idx d)"

definition flight :: "vdisk \<Rightarrow> bool list \<Rightarrow> (nat \<Rightarrow> vphase) \<Rightarrow> u16 \<Rightarrow> nat list \<Rightarrow> bool" where
  "flight d bd ph seen bz \<longleftrightarrow> distinct (queued d seen @ bz @ reported d)
     \<and> (\<forall>i. i \<in> set (queued d seen @ bz @ reported d) \<longleftrightarrow> (\<exists>p b w i1 i2 v. ph p = VWait b w i i1 i2 v \<and> bd ! b))
     \<and> (\<forall>i \<in> set (reported d). info_status d ! i = 0)"

definition users :: "buf list \<Rightarrow> bool list \<Rightarrow> (nat \<Rightarrow> vphase) \<Rightarrow> bool" where
  "users bs bd ph \<longleftrightarrow> (\<forall>p b. buf_of (ph p) = Some b \<longrightarrow> b < length bs \<and> b < length bd \<and> unat (blockno (bs ! b)) < 2 ^ 31)
     \<and> (\<forall>p q b c. p \<noteq> q \<longrightarrow> buf_of (ph p) = Some b \<longrightarrow> buf_of (ph q) = Some c \<longrightarrow> b \<noteq> c \<and> blockno (bs ! b) \<noteq> blockno (bs ! c))"

text \<open>The data: the source of a transfer keeps the block, and once the device has done it both places hold it.\<close>

definition transfers :: "vdisk \<Rightarrow> buf list \<Rightarrow> (u32 \<Rightarrow> block) \<Rightarrow> (nat \<Rightarrow> vphase) \<Rightarrow> u16 \<Rightarrow> nat list \<Rightarrow> bool" where
  "transfers d bs dk ph seen bz \<longleftrightarrow> (\<forall>p b w i0 i1 i2 v. ph p = VWait b w i0 i1 i2 v \<longrightarrow>
     (if w then bdata (bs ! b) = v else dk (blockno (bs ! b)) = v)
     \<and> (i0 \<notin> set (queued d seen @ bz) \<longrightarrow> bdata (bs ! b) = v \<and> dk (blockno (bs ! b)) = v))"

text \<open>A process sleeps only while what it waits for has not happened.\<close>

definition nfree :: "vdisk \<Rightarrow> nat" where
  "nfree d = card {i. i < NUM \<and> vfree d ! i}"

fun asleep_ok :: "vdisk \<Rightarrow> bool list \<Rightarrow> vphase \<Rightarrow> proc \<Rightarrow> bool" where
  "asleep_ok d bd VIdle x = True"
| "asleep_ok d bd (VWant b w) x = (chan x = FreeChan \<and> nfree d < 3)"
| "asleep_ok d bd (VWait b w i0 i1 i2 v) x = (chan x = DataChan b \<and> bd ! b)"

definition sleepers :: "proc list \<Rightarrow> vdisk \<Rightarrow> bool list \<Rightarrow> (nat \<Rightarrow> vphase) \<Rightarrow> bool" where
  "sleepers ps d bd ph \<longleftrightarrow> (\<forall>p < length ps. pstate (ps ! p) = SLEEPING \<longrightarrow> asleep_ok d bd (ph p) (ps ! p))"

definition vinv :: "vsys \<Rightarrow> bool" where
  "vinv S \<longleftrightarrow> (let s = vk S; d = vd s
     in owned d (vph S) \<and> tables d (bufs_of s) (vph S) \<and> flight d (buf_disk s) (vph S) (dseen S) (dbusy S)
        \<and> users (bufs_of s) (buf_disk s) (vph S) \<and> transfers d (bufs_of s) (disk s) (vph S) (dseen S) (dbusy S)
        \<and> sleepers (procs s) d (buf_disk s) (vph S))"

end
