(* ===== verification/Virtio_Ops.thy ===== *)
theory Virtio_Ops
  imports Virtio_Inv
begin

text \<open>What the driver's operations do to the tables, to the processes that sleep, and to nothing else.\<close>

section \<open>Wakeups\<close>

text \<open>After a wakeup on channel \<open>c\<close>, who still sleeps has not changed and, except for the caller, sleeps elsewhere.\<close>

definition woken :: "nat \<Rightarrow> kchan \<Rightarrow> proc list \<Rightarrow> proc list \<Rightarrow> bool" where
  "woken q c ps ps' \<longleftrightarrow> length ps' = length ps
     \<and> (\<forall>p < length ps. pstate (ps' ! p) = SLEEPING \<longrightarrow> ps' ! p = ps ! p \<and> (p \<noteq> q \<longrightarrow> chan (ps ! p) \<noteq> c))
     \<and> (q < length ps \<longrightarrow> ps' ! q = ps ! q)"

definition calm :: "nat \<Rightarrow> proc list \<Rightarrow> proc list \<Rightarrow> bool" where
  "calm q ps ps' \<longleftrightarrow> length ps' = length ps \<and> (\<forall>p < length ps. pstate (ps' ! p) = SLEEPING \<longrightarrow> ps' ! p = ps ! p)
     \<and> (q < length ps \<longrightarrow> ps' ! q = ps ! q)"

lemma woken_wakeup: "woken q c ps (wakeup_procs ver (Some q) c ps)"
  by (auto simp: woken_def wakeup_procs_def wake_proc_def Let_def split: if_splits)

lemma woken_calm: "woken q c ps ps' \<Longrightarrow> calm q ps ps'"
  by (auto simp: woken_def calm_def)

lemma calm_refl [simp]: "calm q ps ps"
  by (simp add: calm_def)

lemma woken_calm_trans: "woken q c ps ps1 \<Longrightarrow> calm q ps1 ps2 \<Longrightarrow> woken q c ps ps2"
  unfolding woken_def calm_def by metis

lemma calm_trans: "calm q ps ps1 \<Longrightarrow> calm q ps1 ps2 \<Longrightarrow> calm q ps ps2"
  unfolding calm_def by metis

section \<open>Freeing\<close>

definition null_desc :: virtq_desc where
  "null_desc = \<lparr>d_addr = NullAddr, d_len = 0, d_flags = 0, d_next = 0\<rparr>"

definition freed :: "nat \<Rightarrow> vdisk \<Rightarrow> vdisk" where
  "freed i d = d\<lparr>vdesc := (vdesc d)[i := null_desc], vfree := (vfree d)[i := True]\<rparr>"

lemma free_desc_ok:
  assumes "length (vfree (vd s)) = NUM" "i < NUM" "\<not> vfree (vd s) ! i"
  shows "\<exists>ps. free_desc (int i) s = Inr (s\<lparr>procs := ps, vd := freed i (vd s)\<rparr>) \<and> woken (cur s) FreeChan (procs s) ps"
proof (intro exI conjI)
  show "woken (cur s) FreeChan (procs s) (wakeup_procs (kver s) (Some (cur s)) FreeChan (procs s))"
    by (rule woken_wakeup)
  show "free_desc (int i) s = Inr (s\<lparr>procs := wakeup_procs (kver s) (Some (cur s)) FreeChan (procs s), vd := freed i (vd s)\<rparr>)"
    using assms by (simp add: free_desc_def freed_def null_desc_def wakeup_def upd_vd_def Let_def)
qed

lemma vfree_freed [simp]: "vfree (freed i d) = (vfree d)[i := True]" "vdesc (freed i d) = (vdesc d)[i := null_desc]"
  "avail_idx (freed i d) = avail_idx d" "avail_ring (freed i d) = avail_ring d" "dev_idx (freed i d) = dev_idx d"
  "used_ring (freed i d) = used_ring d" "used_idx (freed i d) = used_idx d" "info_b (freed i d) = info_b d"
  "info_status (freed i d) = info_status d" "vops (freed i d) = vops d"
  by (simp_all add: freed_def)

lemma rfold_free:
  "length (vfree (vd s)) = NUM \<Longrightarrow> distinct idx \<Longrightarrow> \<forall>i \<in> set idx. i < NUM \<and> \<not> vfree (vd s) ! i \<Longrightarrow>
   \<exists>ps. rfold (\<lambda>j. free_desc (int j)) idx s = Inr (s\<lparr>procs := ps, vd := fold freed idx (vd s)\<rparr>) \<and> calm (cur s) (procs s) ps"
proof (induction idx arbitrary: s)
  case Nil
  show ?case by (auto intro!: exI [of _ "procs s"])
next
  case (Cons i idx)
  then obtain ps where ps: "free_desc (int i) s = Inr (s\<lparr>procs := ps, vd := freed i (vd s)\<rparr>)" "woken (cur s) FreeChan (procs s) ps"
    using free_desc_ok [of s i] by auto
  have "\<forall>j \<in> set idx. j < NUM \<and> \<not> (vfree (vd s))[i := True] ! j" using Cons.prems by (auto simp: nth_list_update)
  then have "\<exists>ps'. rfold (\<lambda>j. free_desc (int j)) idx (s\<lparr>procs := ps, vd := freed i (vd s)\<rparr>)
      = Inr ((s\<lparr>procs := ps, vd := freed i (vd s)\<rparr>)\<lparr>procs := ps', vd := fold freed idx (freed i (vd s))\<rparr>) \<and> calm (cur s) ps ps'"
    using Cons.IH [of "s\<lparr>procs := ps, vd := freed i (vd s)\<rparr>"] Cons.prems by simp
  with ps woken_calm calm_trans show ?case by fastforce
qed

lemma free_chain_step:
  assumes "length (vfree (vd s)) = NUM" "i < NUM" "\<not> vfree (vd s) ! i"
  shows "\<exists>ps. woken (cur s) FreeChan (procs s) ps \<and> free_chain (int i) s =
    (if and (d_flags (vdesc (vd s) ! i)) VRING_DESC_F_NEXT \<noteq> 0
     then free_chain (uint (d_next (vdesc (vd s) ! i))) (s\<lparr>procs := ps, vd := freed i (vd s)\<rparr>)
     else Inr (s\<lparr>procs := ps, vd := freed i (vd s)\<rparr>))"
  using free_desc_ok [OF assms] by (auto simp: free_chain.simps [of "int i"] Let_def)

lemma free_chain_formatted:
  assumes len: "length (vfree (vd s)) = NUM" "length (vdesc (vd s)) = NUM"
    and idx: "distinct [i0, i1, i2]" "\<forall>i \<in> {i0, i1, i2}. i < NUM \<and> \<not> vfree (vd s) ! i"
    and fmt: "formatted d bs b w i0 i1 i2" "vdesc (vd s) = vdesc d"
  shows "\<exists>ps. woken (cur s) FreeChan (procs s) ps \<and>
    free_chain (int i0) s = Inr (s\<lparr>procs := ps, vd := freed i2 (freed i1 (freed i0 (vd s)))\<rparr>)"
proof -
  have small: "unat (of_nat i1 :: u16) = i1" "unat (of_nat i2 :: u16) = i2"
    using idx(2) by (simp_all add: unat_of_nat NUM_def)
  then have next': "uint (of_nat i1 :: u16) = int i1" "uint (of_nat i2 :: u16) = int i2" by (metis uint_nat)+
  have flags: "and VRING_DESC_F_NEXT VRING_DESC_F_NEXT \<noteq> (0 :: u16)"
    "and (or (if w then 0 else VRING_DESC_F_WRITE) VRING_DESC_F_NEXT) VRING_DESC_F_NEXT \<noteq> (0 :: u16)"
    "and VRING_DESC_F_WRITE VRING_DESC_F_NEXT = (0 :: u16)"
    by (simp_all add: VRING_DESC_F_NEXT_def VRING_DESC_F_WRITE_def)
  from free_chain_step [of s i0] len idx fmt flags next' obtain ps0 where 0: "woken (cur s) FreeChan (procs s) ps0"
    "free_chain (int i0) s = free_chain (int i1) (s\<lparr>procs := ps0, vd := freed i0 (vd s)\<rparr>)"
    by (auto simp: formatted_def)
  from free_chain_step [of "s\<lparr>procs := ps0, vd := freed i0 (vd s)\<rparr>" i1] len idx fmt flags next'
  obtain ps1 where 1: "woken (cur s) FreeChan ps0 ps1"
    "free_chain (int i1) (s\<lparr>procs := ps0, vd := freed i0 (vd s)\<rparr>) = free_chain (int i2) (s\<lparr>procs := ps1, vd := freed i1 (freed i0 (vd s))\<rparr>)"
    by (auto simp: formatted_def)
  from free_chain_step [of "s\<lparr>procs := ps1, vd := freed i1 (freed i0 (vd s))\<rparr>" i2] len idx fmt flags next'
  obtain ps2 where 2: "woken (cur s) FreeChan ps1 ps2"
    "free_chain (int i2) (s\<lparr>procs := ps1, vd := freed i1 (freed i0 (vd s))\<rparr>) = Inr (s\<lparr>procs := ps2, vd := freed i2 (freed i1 (freed i0 (vd s)))\<rparr>)"
    by (auto simp: formatted_def)
  have "woken (cur s) FreeChan (procs s) ps2"
    using 0(1) 1(1) 2(1) woken_calm calm_trans woken_calm_trans by metis
  with 0 1 2 show ?thesis by auto
qed

section \<open>Allocating\<close>

lemma first_free_Some: "first_free xs = Some i \<Longrightarrow> i < length xs \<and> xs ! i"
  by (induction xs arbitrary: i) (auto split: if_splits)

lemma first_free_None: "first_free xs = None \<Longrightarrow> \<forall>i < length xs. \<not> xs ! i"
  by (induction xs) (auto split: if_splits simp: less_Suc_eq_0_disj nth_Cons')

definition took :: "nat list \<Rightarrow> vdisk \<Rightarrow> vdisk" where
  "took idx d = d\<lparr>vfree := fold (\<lambda>i xs. xs[i := False]) idx (vfree d)\<rparr>"

lemma length_fold_update [simp]: "length (fold (\<lambda>i xs. xs[i := c]) idx xs) = length xs"
  by (induction idx arbitrary: xs) simp_all

lemma nth_fold_update: "j < length xs \<Longrightarrow> (fold (\<lambda>i xs. xs[i := c]) idx xs) ! j = (if j \<in> set idx then c else xs ! j)"
  by (induction idx arbitrary: xs) (auto simp: nth_list_update)

lemma alloc_loop_cases:
  assumes "length (vfree (vd s)) = NUM"
  obtains (got) new where "length new = k" "distinct new" "\<forall>i \<in> set new. i < NUM \<and> vfree (vd s) ! i"
      "alloc_loop k idx s = Inr (Some (idx @ new), s\<lparr>vd := took new (vd s)\<rparr>)"
  | (short) new where "length new < k" "distinct new" "set new = {i. i < NUM \<and> vfree (vd s) ! i}"
      "alloc_loop k idx s = rbind (rfold (\<lambda>j. free_desc (int j)) (idx @ new) (s\<lparr>vd := took new (vd s)\<rparr>)) (\<lambda>s. Inr (None, s))"
  using assms
proof (induction k arbitrary: idx s thesis)
  case 0
  then show ?case by (simp add: took_def)
next
  case (Suc k)
  show ?case
  proof (cases "first_free (vfree (vd s))")
    case None
    then show ?thesis using first_free_None [OF None] Suc.prems(2) [of "[]"] Suc.prems(3)
      by (simp add: alloc_desc_def took_def)
  next
    case (Some i)
    note i = first_free_Some [OF Some]
    let ?s = "s\<lparr>vd := took [i] (vd s)\<rparr>"
    have eq: "alloc_loop (Suc k) idx s = alloc_loop k (idx @ [i]) ?s"
      using Some by (simp add: alloc_desc_def upd_vd_def took_def)
    have free: "vfree (vd ?s) ! j \<longleftrightarrow> vfree (vd s) ! j \<and> j \<noteq> i" if "j < NUM" for j
      using that Suc.prems(3) by (cases "i = j") (auto simp: took_def)
    have tt: "took new (took [i] d) = took (i # new) d" for new d by (simp add: took_def)
    show ?thesis
    proof (rule Suc.IH [of ?s "idx @ [i]"])
      fix new assume "length new = k" "distinct new" "\<forall>j \<in> set new. j < NUM \<and> vfree (vd ?s) ! j"
        "alloc_loop k (idx @ [i]) ?s = Inr (Some ((idx @ [i]) @ new), ?s\<lparr>vd := took new (vd ?s)\<rparr>)"
      then show thesis using Suc.prems(1) [of "i # new"] i eq free Suc.prems(3) by (auto simp: tt)
    next
      fix new assume n: "length new < k" "distinct new" "set new = {j. j < NUM \<and> vfree (vd ?s) ! j}"
        "alloc_loop k (idx @ [i]) ?s = rbind (rfold (\<lambda>j. free_desc (int j)) ((idx @ [i]) @ new) (?s\<lparr>vd := took new (vd ?s)\<rparr>)) (\<lambda>s. Inr (None, s))"
      have "set (i # new) = {j. j < NUM \<and> vfree (vd s) ! j}" using n(3) i free Suc.prems(3) by auto
      with n i eq free Suc.prems(3) show thesis using Suc.prems(2) [of "i # new"] by (auto simp: tt)
    qed (use Suc.prems(3) in \<open>simp add: took_def\<close>)
  qed
qed

text \<open>\<^verbatim>\<open>alloc3_desc\<close> takes three free descriptors, or finds fewer than three and leaves the free ones as they were.\<close>

definition same_taken :: "vdisk \<Rightarrow> vdisk \<Rightarrow> bool" where
  "same_taken d d' \<longleftrightarrow> (\<exists>t. length t = length (vdesc d) \<and> d' = d\<lparr>vdesc := t\<rparr> \<and> (\<forall>i < NUM. \<not> vfree d ! i \<longrightarrow> t ! i = vdesc d ! i))"

lemma fold_freed:
  "fold freed idx d = d\<lparr>vdesc := fold (\<lambda>i xs. xs[i := null_desc]) idx (vdesc d), vfree := fold (\<lambda>i xs. xs[i := True]) idx (vfree d)\<rparr>"
  by (induction idx arbitrary: d) (simp_all add: freed_def)

lemma freed_took:
  assumes "length (vfree d) = NUM" "length (vdesc d) = NUM" "\<forall>i \<in> set new. i < NUM \<and> vfree d ! i"
  shows "same_taken d (fold freed new (took new d))"
proof -
  have "fold (\<lambda>i xs. xs[i := True]) new (fold (\<lambda>i xs. xs[i := False]) new (vfree d)) = vfree d"
    using assms by (intro nth_equalityI) (auto simp: nth_fold_update)
  then have "fold freed new (took new d) = d\<lparr>vdesc := fold (\<lambda>i xs. xs[i := null_desc]) new (vdesc d)\<rparr>"
    by (simp add: fold_freed took_def)
  with assms show ?thesis unfolding same_taken_def
    by (intro exI [of _ "fold (\<lambda>i xs. xs[i := null_desc]) new (vdesc d)"]) (auto simp: nth_fold_update)
qed

lemma alloc3_cases:
  assumes len: "length (vfree (vd s)) = NUM" "length (vdesc (vd s)) = NUM"
  obtains (got) i0 i1 i2 where "distinct [i0, i1, i2]" "\<forall>i \<in> {i0, i1, i2}. i < NUM \<and> vfree (vd s) ! i"
      "alloc3_desc s = Inr (Some [i0, i1, i2], s\<lparr>vd := took [i0, i1, i2] (vd s)\<rparr>)"
  | (short) d ps where "nfree (vd s) < 3" "same_taken (vd s) d" "calm (cur s) (procs s) ps"
      "alloc3_desc s = Inr (None, s\<lparr>procs := ps, vd := d\<rparr>)"
proof (rule alloc_loop_cases [OF len(1), of 3 "[]"])
  fix new assume n: "length new = 3" "distinct new" "\<forall>i \<in> set new. i < NUM \<and> vfree (vd s) ! i"
    "alloc_loop 3 [] s = Inr (Some ([] @ new), s\<lparr>vd := took new (vd s)\<rparr>)"
  then obtain i0 i1 i2 where "new = [i0, i1, i2]" by (auto simp: numeral_3_eq_3 length_Suc_conv)
  with n show thesis by (intro got [of i0 i1 i2]) (auto simp: alloc3_desc_def)
next
  fix new assume n: "length new < 3" "distinct new" "set new = {i. i < NUM \<and> vfree (vd s) ! i}"
    "alloc_loop 3 [] s = rbind (rfold (\<lambda>j. free_desc (int j)) ([] @ new) (s\<lparr>vd := took new (vd s)\<rparr>)) (\<lambda>s. Inr (None, s))"
  have "\<forall>i \<in> set new. i < NUM \<and> \<not> vfree (took new (vd s)) ! i"
    using n(3) len by (auto simp: took_def nth_fold_update)
  then obtain ps where ps: "rfold (\<lambda>j. free_desc (int j)) new (s\<lparr>vd := took new (vd s)\<rparr>)
      = Inr (s\<lparr>procs := ps, vd := fold freed new (took new (vd s))\<rparr>)" "calm (cur s) (procs s) ps"
    using rfold_free [of "s\<lparr>vd := took new (vd s)\<rparr>" new] len n(2) by (auto simp: took_def)
  have "nfree (vd s) < 3" using n(1,2) by (simp add: nfree_def n(3) [symmetric] distinct_card)
  moreover have "same_taken (vd s) (fold freed new (took new (vd s)))" using n(3) len by (intro freed_took) auto
  ultimately show thesis using ps n(4) by (intro short [of _ ps]) (simp_all add: alloc3_desc_def)
qed

end
