(* ===== verification/Virtio_Steps.thy ===== *)
theory Virtio_Steps
  imports Virtio_Ops
begin

text \<open>Every step of the driver and of the device keeps the invariant, and the driver's functions return from
  every state that has it.\<close>

section \<open>Parts of the invariant\<close>

lemmas vparts = owned_def tables_def flight_def users_def transfers_def sleepers_def

lemma vinvD:
  assumes "vinv S"
  shows "owned (vd (vk S)) (vph S)" "tables (vd (vk S)) (bufs_of (vk S)) (vph S)"
    "flight (vd (vk S)) (buf_disk (vk S)) (vph S) (dseen S) (dbusy S)" "users (bufs_of (vk S)) (buf_disk (vk S)) (vph S)"
    "transfers (vd (vk S)) (bufs_of (vk S)) (disk (vk S)) (vph S) (dseen S) (dbusy S)"
    "sleepers (procs (vk S)) (vd (vk S)) (buf_disk (vk S)) (vph S)"
  using assms by (simp_all add: vinv_def Let_def)

lemma vinvI:
  "owned (vd s) ph \<Longrightarrow> tables (vd s) (bufs_of s) ph \<Longrightarrow> flight (vd s) (buf_disk s) ph seen bz \<Longrightarrow>
   users (bufs_of s) (buf_disk s) ph \<Longrightarrow> transfers (vd s) (bufs_of s) (disk s) ph seen bz \<Longrightarrow>
   sleepers (procs s) (vd s) (buf_disk s) ph \<Longrightarrow> vinv \<lparr>vk = s, vph = ph, dseen = seen, dbusy = bz\<rparr>"
  by (simp add: vinv_def)

text \<open>Two requests never share a descriptor.\<close>

lemma chain_owner:
  "owned d ph \<Longrightarrow> i \<in> set (chain (ph p)) \<Longrightarrow> i \<in> set (chain (ph q)) \<Longrightarrow> p = q"
  unfolding owned_def by blast

lemma chain_taken: "owned d ph \<Longrightarrow> i \<in> set (chain (ph p)) \<Longrightarrow> i < NUM \<and> \<not> vfree d ! i"
  by (auto simp: owned_def)

lemma flight_owner:
  assumes "flight d bd ph seen bz" "i \<in> set (queued d seen @ bz @ reported d)"
  obtains p b w i1 i2 v where "ph p = VWait b w i i1 i2 v" "bd ! b"
  using assms unfolding flight_def by blast

lemma flight_taken:
  assumes "flight d bd ph seen bz" "owned d ph" "i \<in> set (queued d seen @ bz @ reported d)"
  shows "i < NUM" "\<not> vfree d ! i"
proof -
  from flight_owner [OF assms(1,3)] obtain p b w i1 i2 v where "ph p = VWait b w i i1 i2 v" by metis
  then have "i \<in> set (chain (ph p))" by simp
  from chain_taken [OF assms(2) this] show "i < NUM" "\<not> vfree d ! i" by simp_all
qed

text \<open>The rings never overflow: a request in them is the only one of its head, and there are \<open>NUM\<close> heads.\<close>

lemma distinct_below: "distinct xs \<Longrightarrow> set xs \<subseteq> {..<n} - {i} \<Longrightarrow> i < n \<Longrightarrow> length xs < n"
  using card_mono [of "{..<n} - {i}" "set xs"] by (simp add: distinct_card)

lemma queued_room:
  assumes "flight d bd ph seen bz" "owned d ph" "i < NUM" "vfree d ! i"
  shows "unat (avail_idx d - seen) < NUM"
proof -
  have "set (queued d seen) \<subseteq> {..<NUM} - {i}" using flight_taken [OF assms(1,2)] assms(4) by auto
  moreover have "distinct (queued d seen)" using assms(1) by (simp add: flight_def)
  ultimately have "length (queued d seen) < NUM" using distinct_below assms(3) by blast
  then show ?thesis by (simp add: queued_def)
qed

lemma reported_room:
  assumes "flight d bd ph seen bz" "owned d ph" "i \<in> set bz"
  shows "unat (dev_idx d - used_idx d) < NUM"
proof -
  have "i < NUM" using flight_taken(1) [OF assms(1,2), of i] assms(3) by simp
  moreover have dist: "distinct (queued d seen @ bz @ reported d)" using assms(1) unfolding flight_def by blast
  then have "set (reported d) \<subseteq> {..<NUM} - {i}"
    using flight_taken(1) [OF assms(1,2)] assms(3) by auto
  moreover have "distinct (reported d)" using dist by simp
  ultimately have "length (reported d) < NUM" using distinct_below by blast
  then show ?thesis by (simp add: reported_def)
qed

section \<open>A process that does not sleep\<close>

text \<open>Changes to the entry of a process that does not sleep, before and after, do not matter.\<close>

lemma sleepers_update:
  assumes "sleepers ps d bd ph" "pstate x \<noteq> SLEEPING"
  shows "sleepers (ps[p := x]) d bd ph"
  unfolding sleepers_def
proof (intro allI impI)
  fix q assume "q < length (ps[p := x])" "pstate (ps[p := x] ! q) = SLEEPING"
  with assms show "asleep_ok d bd (ph q) (ps[p := x] ! q)"
    by (cases "q = p") (auto simp: sleepers_def)
qed

lemma vinv_cur: "vinv S \<Longrightarrow> vinv (S\<lparr>vk := (vk S)\<lparr>cur := p\<rparr>\<rparr>)"
  by (simp add: vinv_def Let_def)

lemma vinv_resumed:
  assumes "vinv S" "runs p S"
  shows "vinv (S\<lparr>vk := resumed p (vk S)\<rparr>)" "runs p (S\<lparr>vk := resumed p (vk S)\<rparr>)"
  using assms sleepers_update [OF vinvD(6) [OF assms(1)], of "sleep_resume (procs (vk S) ! p)" p]
  by (simp_all add: vinv_def upd_proc_def Let_def runs_def sleep_resume_def)

lemma users_bounds:
  "users bs bd ph \<Longrightarrow> buf_of (ph p) = Some b \<Longrightarrow> b < length bs \<and> b < length bd \<and> unat (blockno (bs ! b)) < 2 ^ 31"
  unfolding users_def by blast

lemma users_apart:
  "users bs bd ph \<Longrightarrow> p \<noteq> q \<Longrightarrow> buf_of (ph p) = Some b \<Longrightarrow> buf_of (ph q) = Some c \<Longrightarrow> b \<noteq> c \<and> blockno (bs ! b) \<noteq> blockno (bs ! c)"
  unfolding users_def by blast

lemma users_upd:
  assumes "users bs bd ph" "buf_of x = Some b" "b < length bs" "b < length bd" "unat (blockno (bs ! b)) < 2 ^ 31"
    "\<And>q c. q \<noteq> p \<Longrightarrow> buf_of (ph q) = Some c \<Longrightarrow> c \<noteq> b \<and> blockno (bs ! c) \<noteq> blockno (bs ! b)"
  shows "users bs bd (ph(p := x))"
  unfolding users_def
proof (intro conjI allI impI)
  fix r c assume "buf_of ((ph(p := x)) r) = Some c"
  then show "c < length bs" "c < length bd" "unat (blockno (bs ! c)) < 2 ^ 31"
    using assms(2-5) users_bounds [OF assms(1), of r c] by (auto split: if_splits)
next
  fix r q c e assume rq: "r \<noteq> q" "buf_of ((ph(p := x)) r) = Some c" "buf_of ((ph(p := x)) q) = Some e"
  then have "c \<noteq> e \<and> blockno (bs ! c) \<noteq> blockno (bs ! e)"
    using assms(2) assms(6) [of q e] assms(6) [of r c] users_apart [OF assms(1) rq(1), of c e]
    by (cases "r = p"; cases "q = p") auto
  then show "c \<noteq> e" "blockno (bs ! c) \<noteq> blockno (bs ! e)" by simp_all
qed

lemma users_idle:
  assumes "users bs bd ph" shows "users bs bd (ph(p := VIdle))"
  unfolding users_def
proof (intro conjI allI impI)
  fix r c assume "buf_of ((ph(p := VIdle)) r) = Some c"
  then show "c < length bs" "c < length bd" "unat (blockno (bs ! c)) < 2 ^ 31"
    using users_bounds [OF assms, of r c] by (auto split: if_splits)
next
  fix r q c e assume "r \<noteq> q" "buf_of ((ph(p := VIdle)) r) = Some c" "buf_of ((ph(p := VIdle)) q) = Some e"
  then show "c \<noteq> e" "blockno (bs ! c) \<noteq> blockno (bs ! e)"
    using users_apart [OF assms, of r q c e] by (auto split: if_splits)
qed

lemma vinv_want:
  assumes "vinv S" "vph S p = VIdle" "exclusive b S" "runs p S"
  shows "vinv (S\<lparr>vph := (vph S)(p := VWant b w)\<rparr>)"
proof -
  have "chain (((vph S)(p := VWant b w)) q) = chain (vph S q)" for q using assms(2) by simp
  then have "owned (vd (vk S)) ((vph S)(p := VWant b w))" using vinvD(1) [OF assms(1)] by (simp add: owned_def)
  moreover have wait: "((vph S)(p := VWant b w)) q = VWait b' w' i0 i1 i2 v \<longleftrightarrow> vph S q = VWait b' w' i0 i1 i2 v"
    for q b' w' i0 i1 i2 v using assms(2) by simp
  have "tables (vd (vk S)) (bufs_of (vk S)) ((vph S)(p := VWant b w))"
    using vinvD(2) [OF assms(1)] unfolding tables_def wait .
  moreover have "flight (vd (vk S)) (buf_disk (vk S)) ((vph S)(p := VWant b w)) (dseen S) (dbusy S)"
    using vinvD(3) [OF assms(1)] unfolding flight_def wait .
  moreover have "transfers (vd (vk S)) (bufs_of (vk S)) (disk (vk S)) ((vph S)(p := VWant b w)) (dseen S) (dbusy S)"
    using vinvD(5) [OF assms(1)] unfolding transfers_def wait .
  moreover have "users (bufs_of (vk S)) (buf_disk (vk S)) ((vph S)(p := VWant b w))"
    using vinvD(4) [OF assms(1)] assms(3) by (intro users_upd) (auto simp: exclusive_def)
  moreover have "sleepers (procs (vk S)) (vd (vk S)) (buf_disk (vk S)) ((vph S)(p := VWant b w))"
    using vinvD(6) [OF assms(1)] assms(4) by (auto simp: sleepers_def runs_def)
  ultimately show ?thesis by (simp add: vinv_def Let_def)
qed

section \<open>No descriptors\<close>

lemma formatted_cong:
  assumes "formatted d bs b w i0 i1 i2" "vops d' ! i0 = vops d ! i0" "\<forall>i \<in> {i0, i1, i2}. vdesc d' ! i = vdesc d ! i"
    "info_b d' ! i0 = info_b d ! i0" "blockno (bs' ! b) = blockno (bs ! b)"
  shows "formatted d' bs' b w i0 i1 i2"
  using assms by (simp add: formatted_def)

lemma tables_formatted: "tables d bs ph \<Longrightarrow> ph p = VWait b w i0 i1 i2 v \<Longrightarrow> formatted d bs b w i0 i1 i2"
  unfolding tables_def by blast

lemma wait_taken:
  assumes "owned d ph" "ph p = VWait b w i0 i1 i2 v"
  shows "\<forall>i \<in> {i0, i1, i2}. i < NUM \<and> \<not> vfree d ! i" "distinct [i0, i1, i2]"
proof -
  have "distinct (chain (ph p)) \<and> (\<forall>i \<in> set (chain (ph p)). i < NUM \<and> \<not> vfree d ! i)"
    using assms(1) unfolding owned_def by blast
  then show "\<forall>i \<in> {i0, i1, i2}. i < NUM \<and> \<not> vfree d ! i" "distinct [i0, i1, i2]" by (simp_all add: assms(2))
qed

lemma same_taken_tables:
  assumes "same_taken d d'" "owned d ph" "tables d bs ph"
  shows "tables d' bs ph"
proof -
  from assms(1) obtain t where t: "length t = length (vdesc d)" "d' = d\<lparr>vdesc := t\<rparr>" "\<forall>i < NUM. \<not> vfree d ! i \<longrightarrow> t ! i = vdesc d ! i"
    unfolding same_taken_def by blast
  have "formatted d' bs b w i0 i1 i2" if "ph p = VWait b w i0 i1 i2 v" for p b w i0 i1 i2 v
  proof (rule formatted_cong [OF tables_formatted [OF assms(3) that]])
    show "\<forall>i \<in> {i0, i1, i2}. vdesc d' ! i = vdesc d ! i" using wait_taken(1) [OF assms(2) that] t(2,3) by simp
  qed (simp_all add: t(2))
  with t assms(3) show ?thesis unfolding tables_def by simp
qed

lemma sleepers_calm:
  assumes sl: "sleepers ps d bd ph" and calm: "calm q ps ps'" and x: "asleep_ok d' bd' (ph' q) x"
    and ok: "\<And>p. p \<noteq> q \<Longrightarrow> p < length ps \<Longrightarrow> pstate (ps' ! p) = SLEEPING \<Longrightarrow> asleep_ok d bd (ph p) (ps' ! p) \<Longrightarrow> asleep_ok d' bd' (ph' p) (ps' ! p)"
  shows "sleepers (ps'[q := x]) d' bd' ph'"
  unfolding sleepers_def
proof (intro allI impI)
  fix p assume p: "p < length (ps'[q := x])" "pstate (ps'[q := x] ! p) = SLEEPING"
  show "asleep_ok d' bd' (ph' p) (ps'[q := x] ! p)"
  proof (cases "p = q")
    case False
    with p calm have "ps' ! p = ps ! p" "p < length ps" "pstate (ps' ! p) = SLEEPING" by (auto simp: calm_def)
    with sl ok [OF False] False show ?thesis by (auto simp: sleepers_def)
  qed (use p x in simp)
qed

text \<open>The process keeps its wish, and sleeps.\<close>

lemma vinv_short:
  assumes inv: "vinv S" and p: "vph S p = VWant b w" "cur (vk S) = p"
    and short: "nfree (vd (vk S)) < 3" "same_taken (vd (vk S)) d" "calm p (procs (vk S)) ps"
  shows "vinv (S\<lparr>vk := upd_proc p (sleep_on FreeChan) ((vk S)\<lparr>procs := ps, vd := d\<rparr>)\<rparr>)"
proof -
  from short(2) obtain t where d: "d = (vd (vk S))\<lparr>vdesc := t\<rparr>" unfolding same_taken_def by blast
  then have nf: "nfree d = nfree (vd (vk S))" by (simp add: nfree_def)
  have "sleepers (ps[p := sleep_on FreeChan (ps ! p)]) d (buf_disk (vk S)) (vph S)"
  proof (rule sleepers_calm [OF vinvD(6) [OF inv] short(3)])
    show "asleep_ok d (buf_disk (vk S)) (vph S p) (sleep_on FreeChan (ps ! p))"
      using p short(1) nf by (simp add: sleep_on_def)
    show "asleep_ok (vd (vk S)) (buf_disk (vk S)) (vph S q) (ps ! q) \<Longrightarrow> asleep_ok d (buf_disk (vk S)) (vph S q) (ps ! q)" for q
      using nf by (cases "vph S q") simp_all
  qed
  moreover have "owned d (vph S)" "flight d (buf_disk (vk S)) (vph S) (dseen S) (dbusy S)"
    "transfers d (bufs_of (vk S)) (disk (vk S)) (vph S) (dseen S) (dbusy S)"
    using vinvD(1,3,5) [OF inv] d by (simp_all add: owned_def flight_def transfers_def queued_def reported_def)
  ultimately show ?thesis using same_taken_tables [OF short(2) vinvD(1,2) [OF inv]] vinvD(4) [OF inv]
    by (simp add: vinv_def upd_proc_def Let_def)
qed

section \<open>A request goes to the device\<close>

definition submitted :: "nat \<Rightarrow> bool \<Rightarrow> u32 \<Rightarrow> nat \<Rightarrow> nat \<Rightarrow> nat \<Rightarrow> vdisk \<Rightarrow> vdisk" where
  "submitted b w bn i0 i1 i2 d = d\<lparr>
     vops := (vops d)[i0 := \<lparr>rq_type = (if w then VIRTIO_BLK_T_OUT else VIRTIO_BLK_T_IN), rq_reserved = 0,
       rq_sector = ucast (bn * of_nat (BSIZE div 512) :: u32)\<rparr>],
     vdesc := (vdesc d)[i0 := \<lparr>d_addr = OpAddr i0, d_len = 16, d_flags = VRING_DESC_F_NEXT, d_next = of_nat i1\<rparr>,
       i1 := \<lparr>d_addr = DataAddr b, d_len = of_nat BSIZE,
          d_flags = or (if w then 0 else VRING_DESC_F_WRITE) VRING_DESC_F_NEXT, d_next = of_nat i2\<rparr>,
       i2 := \<lparr>d_addr = StatusAddr i0, d_len = 1, d_flags = VRING_DESC_F_WRITE, d_next = 0\<rparr>],
     info_status := (info_status d)[i0 := 0xff], info_b := (info_b d)[i0 := Some b],
     avail_ring := (avail_ring d)[unat (avail_idx d mod of_nat NUM) := of_nat i0], avail_idx := avail_idx d + 1\<rparr>"

lemma rw_submit_eq:
  "rw_submit b w i0 i1 i2 s = s\<lparr>vd := submitted b w (blockno (buf_at s b)) i0 i1 i2 (vd s), buf_disk := (buf_disk s)[b := True]\<rparr>"
  by (simp add: rw_submit_def submitted_def set_desc_def upd_vd_def Let_def)

text \<open>The state after three free descriptors were taken for the request of process \<open>p\<close>.\<close>

definition newreq :: "vdisk \<Rightarrow> nat \<Rightarrow> nat \<Rightarrow> nat \<Rightarrow> bool" where
  "newreq d i0 i1 i2 \<longleftrightarrow> distinct [i0, i1, i2] \<and> (\<forall>i \<in> {i0, i1, i2}. i < NUM \<and> vfree d ! i)"

lemma newreq_fresh:
  assumes "newreq d i0 i1 i2" "owned d ph" "j \<in> set (chain (ph q))"
  shows "j \<notin> {i0, i1, i2}"
  using assms chain_taken [OF assms(2,3)] by (auto simp: newreq_def)

lemma submitted_fields [simp]:
  "vfree (submitted b w bn i0 i1 i2 d) = vfree d" "dev_idx (submitted b w bn i0 i1 i2 d) = dev_idx d"
  "used_ring (submitted b w bn i0 i1 i2 d) = used_ring d" "used_idx (submitted b w bn i0 i1 i2 d) = used_idx d"
  "info_status (submitted b w bn i0 i1 i2 d) = (info_status d)[i0 := 0xff]"
  by (simp_all add: submitted_def)

lemma took_fields [simp]:
  "vdesc (took idx d) = vdesc d" "avail_idx (took idx d) = avail_idx d" "avail_ring (took idx d) = avail_ring d"
  "dev_idx (took idx d) = dev_idx d" "used_ring (took idx d) = used_ring d" "used_idx (took idx d) = used_idx d"
  "info_b (took idx d) = info_b d" "info_status (took idx d) = info_status d" "vops (took idx d) = vops d"
  "length (vfree (took idx d)) = length (vfree d)"
  by (simp_all add: took_def)

lemma vfree_took: "length (vfree d) = NUM \<Longrightarrow> j < NUM \<Longrightarrow> vfree (took idx d) ! j \<longleftrightarrow> vfree d ! j \<and> j \<notin> set idx"
  by (simp add: took_def nth_fold_update)

lemma owned_took:
  assumes ow: "owned d ph" and new: "newreq d i0 i1 i2" and p: "chain (ph p) = []"
  shows "owned (took [i0, i1, i2] d) (ph(p := VWait b w i0 i1 i2 v))" (is "owned ?d ?ph")
proof -
  have len: "length (vfree d) = NUM" using ow by (simp add: owned_def)
  have ch: "chain (?ph q) = (if q = p then [i0, i1, i2] else chain (ph q))" for q by simp
  have "distinct (chain (?ph q)) \<and> (\<forall>i \<in> set (chain (?ph q)). i < NUM \<and> \<not> vfree ?d ! i)" for q
  proof (cases "q = p")
    case True
    with new len show ?thesis unfolding ch by (auto simp: newreq_def vfree_took)
  next
    case False
    moreover have "distinct (chain (ph q))" using ow unfolding owned_def by blast
    ultimately show ?thesis using chain_taken [OF ow, of _ q] len unfolding ch by (auto simp: vfree_took)
  qed
  moreover have "\<exists>q. i \<in> set (chain (?ph q))" if i: "i < NUM" "\<not> vfree ?d ! i" for i
  proof (cases "i \<in> {i0, i1, i2}")
    case True
    then show ?thesis unfolding ch by (intro exI [of _ p]) auto
  next
    case False
    then have "\<not> vfree d ! i" using i len by (simp add: vfree_took)
    then obtain q where "i \<in> set (chain (ph q))" using ow i(1) unfolding owned_def by blast
    with p show ?thesis unfolding ch by (intro exI [of _ q]) auto
  qed
  moreover have "set (chain (?ph q)) \<inter> set (chain (?ph r)) = {}" if "q \<noteq> r" for q r
    using that newreq_fresh [OF new ow] chain_owner [OF ow, of _ q r] unfolding ch by auto
  ultimately show ?thesis using len unfolding owned_def by simp
qed

lemma tables_submitted:
  assumes ow: "owned d ph" and new: "newreq d i0 i1 i2" and tab: "tables d bs ph"
  shows "tables (submitted b w (blockno (bs ! b)) i0 i1 i2 (took [i0, i1, i2] d)) bs (ph(p := VWait b w i0 i1 i2 v))"
    (is "tables ?d bs ?ph")
proof -
  have len: "length (vdesc d) = NUM" "length (vops d) = NUM" "length (info_b d) = NUM" using tab by (simp_all add: tables_def)
  have "formatted ?d bs b' w' j0 j1 j2" if q: "?ph q = VWait b' w' j0 j1 j2 v'" for q b' w' j0 j1 j2 v'
  proof (cases "q = p")
    case True
    with q new len show ?thesis by (auto simp: formatted_def submitted_def newreq_def)
  next
    case False
    with q have q': "ph q = VWait b' w' j0 j1 j2 v'" by simp
    have "\<forall>j \<in> {j0, j1, j2}. j \<notin> {i0, i1, i2}" using newreq_fresh [OF new ow, of _ q] q' by auto
    then show ?thesis
      by (intro formatted_cong [OF tables_formatted [OF tab q']]) (simp_all add: submitted_def)
  qed
  with tab show ?thesis unfolding tables_def by (simp add: submitted_def)
qed

lemma flight_parts:
  assumes "flight d bd ph seen bz"
  shows "distinct (queued d seen @ bz @ reported d)" "\<forall>i \<in> set (reported d). info_status d ! i = 0"
    "i \<in> set (queued d seen @ bz @ reported d) \<longleftrightarrow> (\<exists>p b w i1 i2 v. ph p = VWait b w i i1 i2 v \<and> bd ! b)"
  using assms unfolding flight_def by blast+

lemma unat_index: "i < NUM \<Longrightarrow> unat (of_nat i :: u16) = i" "i < NUM \<Longrightarrow> unat (of_nat i :: u32) = i"
  by (simp_all add: unat_of_nat NUM_def)

lemma queued_submitted:
  assumes "flight d bd ph seen bz" "owned d ph" "newreq d i0 i1 i2" "length (avail_ring d) = NUM"
  shows "queued (submitted b w bn i0 i1 i2 (took idx d)) seen = queued d seen @ [i0]"
    "reported (submitted b w bn i0 i1 i2 (took idx d)) = reported d"
proof -
  have "i0 < NUM" "vfree d ! i0" using assms(3) by (auto simp: newreq_def)
  with wring_push [OF assms(4) queued_room [OF assms(1,2)], of i0 "of_nat i0"]
  show "queued (submitted b w bn i0 i1 i2 (took idx d)) seen = queued d seen @ [i0]"
    by (simp add: queued_def submitted_def unat_index)
  show "reported (submitted b w bn i0 i1 i2 (took idx d)) = reported d" by (simp add: reported_def)
qed

lemma flight_submitted:
  assumes fl: "flight d bd ph seen bz" and ow: "owned d ph" and new: "newreq d i0 i1 i2" and len: "length (avail_ring d) = NUM"
    and p: "ph p = VWant b w" "b < length bd" and us: "users bs bd ph"
  shows "flight (submitted b w bn i0 i1 i2 (took idx d)) (bd[b := True]) (ph(p := VWait b w i0 i1 i2 v)) seen bz"
    (is "flight ?d ?bd ?ph seen bz")
proof -
  note q = queued_submitted [OF fl ow new len]
  have fresh: "i0 \<notin> set (queued d seen @ bz @ reported d)"
    using flight_taken(2) [OF fl ow, of i0] new by (auto simp: newreq_def)
  have bd: "?bd ! c = bd ! c" if "ph r = VWait c w' j0 j1 j2 v'" for r c w' j0 j1 j2 v'
  proof -
    have "r \<noteq> p" using that p by auto
    then have "c \<noteq> b" using users_apart [OF us, of r p c b] that p by simp
    then show ?thesis by simp
  qed
  have "(\<exists>r c w' j1 j2 v'. ?ph r = VWait c w' i j1 j2 v' \<and> ?bd ! c) \<longleftrightarrow>
      i = i0 \<or> (\<exists>r c w' j1 j2 v'. ph r = VWait c w' i j1 j2 v' \<and> bd ! c)" (is "?L \<longleftrightarrow> ?R") for i
  proof
    assume ?L
    then obtain r c w' j1 j2 v' where r: "?ph r = VWait c w' i j1 j2 v'" "?bd ! c" by blast
    show ?R
    proof (cases "r = p")
      case False
      then have "ph r = VWait c w' i j1 j2 v'" "bd ! c" using r bd [of r c w' i j1 j2 v'] by auto
      then show ?thesis by blast
    qed (use r in simp)
  next
    assume ?R
    then show ?L
    proof
      assume "i = i0"
      then have "?ph p = VWait b w i i1 i2 v \<and> ?bd ! b" using p(2) by simp
      then show ?L by blast
    next
      assume "\<exists>r c w' j1 j2 v'. ph r = VWait c w' i j1 j2 v' \<and> bd ! c"
      then obtain r c w' j1 j2 v' where r: "ph r = VWait c w' i j1 j2 v'" "bd ! c" by blast
      then have "r \<noteq> p" using p(1) by auto
      then have "?ph r = VWait c w' i j1 j2 v' \<and> ?bd ! c" using r bd [OF r(1)] by simp
      then show ?L by blast
    qed
  qed
  moreover have "\<forall>i \<in> set (reported d). info_status ?d ! i = 0"
  proof
    fix i assume "i \<in> set (reported d)"
    then show "info_status ?d ! i = 0" using flight_parts(2) [OF fl] fresh by (cases "i = i0") auto
  qed
  moreover have "distinct ((queued d seen @ [i0]) @ bz @ reported d)" using flight_parts(1) [OF fl] fresh by auto
  ultimately show ?thesis using flight_parts(3) [OF fl] unfolding flight_def q by auto
qed

lemma transfersD:
  "transfers d bs dk ph seen bz \<Longrightarrow> ph p = VWait b w i0 i1 i2 v \<Longrightarrow>
   (if w then bdata (bs ! b) = v else dk (blockno (bs ! b)) = v)
     \<and> (i0 \<notin> set (queued d seen @ bz) \<longrightarrow> bdata (bs ! b) = v \<and> dk (blockno (bs ! b)) = v)"
  unfolding transfers_def by blast

lemma nfree_took: "length (vfree d) = NUM \<Longrightarrow> nfree (took idx d) \<le> nfree d"
  unfolding nfree_def by (rule card_mono) (auto simp: vfree_took)

lemma vinv_submitted:
  assumes inv: "vinv S" and p: "vph S p = VWant b w" and new: "newreq (vd (vk S)) i0 i1 i2"
  shows "vinv (S\<lparr>vk := upd_proc p (sleep_on (DataChan b)) (rw_submit b w i0 i1 i2 ((vk S)\<lparr>vd := took [i0, i1, i2] (vd (vk S))\<rparr>)),
    vph := (vph S)(p := VWait b w i0 i1 i2 (target_block b w (vk S)))\<rparr>)"
proof -
  let ?d = "vd (vk S)" and ?bs = "bufs_of (vk S)" and ?bd = "buf_disk (vk S)" and ?v = "target_block b w (vk S)"
  let ?D = "submitted b w (blockno (?bs ! b)) i0 i1 i2 (took [i0, i1, i2] ?d)" and ?ph = "(vph S)(p := VWait b w i0 i1 i2 ?v)"
  note I = vinvD [OF inv]
  have b: "b < length ?bd" "b < length ?bs" "unat (blockno (?bs ! b)) < 2 ^ 31" using users_bounds [OF I(4), of p b] p by auto
  have len: "length (avail_ring ?d) = NUM" "length (vfree ?d) = NUM" using I(1,2) by (simp_all add: tables_def owned_def)
  have "owned ?D ?ph"
    using owned_took [OF I(1) new, of p b w ?v] p by (simp add: owned_def)
  moreover have "tables ?D ?bs ?ph" by (rule tables_submitted [OF I(1) new I(2)])
  moreover have "flight ?D (?bd[b := True]) ?ph (dseen S) (dbusy S)"
    by (rule flight_submitted [OF I(3,1) new len(1) p b(1) I(4)])
  moreover have "users ?bs (?bd[b := True]) ?ph"
  proof -
    have "users ?bs ?bd ?ph"
    proof (rule users_upd [OF I(4) _ b(2,1,3)])
      fix q c assume "q \<noteq> p" "buf_of (vph S q) = Some c"
      then show "c \<noteq> b \<and> blockno (?bs ! c) \<noteq> blockno (?bs ! b)" using users_apart [OF I(4), of q p c b] p by simp
    qed simp
    then show ?thesis by (simp only: users_def length_list_update)
  qed
  moreover have "transfers ?D ?bs (disk (vk S)) ?ph (dseen S) (dbusy S)"
    unfolding transfers_def queued_submitted(1) [OF I(3,1) new len(1)]
  proof (intro allI impI)
    fix q c w' j0 j1 j2 v' assume q: "?ph q = VWait c w' j0 j1 j2 v'"
    show "(if w' then bdata (?bs ! c) = v' else disk (vk S) (blockno (?bs ! c)) = v') \<and>
      (j0 \<notin> set ((queued ?d (dseen S) @ [i0]) @ dbusy S) \<longrightarrow> bdata (?bs ! c) = v' \<and> disk (vk S) (blockno (?bs ! c)) = v')"
    proof (cases "q = p")
      case False
      with q transfersD [OF I(5), of q] show ?thesis by simp
    qed (use q in \<open>auto simp: target_block_def\<close>)
  qed
  moreover have "sleepers ((procs (vk S))[p := sleep_on (DataChan b) (procs (vk S) ! p)]) ?D (?bd[b := True]) ?ph"
  proof (rule sleepers_calm [OF I(6) calm_refl])
    show "asleep_ok ?D (?bd[b := True]) (?ph p) (sleep_on (DataChan b) (procs (vk S) ! p))" using b by (simp add: sleep_on_def)
    have "nfree ?D = nfree (took [i0, i1, i2] ?d)" by (simp add: nfree_def)
    then have nf: "nfree ?D \<le> nfree ?d" using nfree_took [OF len(2)] by simp
    show "asleep_ok ?D (?bd[b := True]) (?ph q) x" if "q \<noteq> p" "asleep_ok ?d ?bd (vph S q) x" for q x
      using that nf users_apart [OF I(4), of q p _ b] p by (cases "vph S q") auto
  qed
  ultimately show ?thesis by (simp add: vinv_def upd_proc_def Let_def rw_submit_eq)
qed

end
