(* ===== verification/Virtio_Safe.thy ===== *)
theory Virtio_Safe
  imports Virtio_Steps
begin

text \<open>The functions of the driver, the device and the interrupt as steps of the invariant.\<close>

section \<open>virtio_disk_rw\<close>

lemma rw_enter_step:
  assumes inv: "vinv S" and p: "vph S p = VWant b w" "cur (vk S) = p"
  shows "\<exists>t s'. rw_enter b w (vk S) = Inr (t, s') \<and> length (procs s') = length (procs (vk S)) \<and>
    vinv (S\<lparr>vk := s', vph := (vph S)(p := after_turn b w (target_block b w (vk S)) t)\<rparr>)"
proof -
  have len: "length (vfree (vd (vk S))) = NUM" "length (vdesc (vd (vk S))) = NUM"
    using vinvD(1,2) [OF inv] by (simp_all add: owned_def tables_def)
  have b: "b < length (buf_disk (vk S))" using users_bounds [OF vinvD(4) [OF inv], of p b] p by simp
  show ?thesis
  proof (cases rule: alloc3_cases [OF len])
    case (1 i0 i1 i2)
    then have new: "newreq (vd (vk S)) i0 i1 i2" unfolding newreq_def by blast
    have "rw_enter b w (vk S) = Inr (RwWait i0 i1 i2,
      upd_proc p (sleep_on (DataChan b)) (rw_submit b w i0 i1 i2 ((vk S)\<lparr>vd := took [i0, i1, i2] (vd (vk S))\<rparr>)))"
      using 1(3) b p(2) by (simp add: rw_enter_def rw_poll_def rw_submit_eq)
    with vinv_submitted [OF inv p(1) new] show ?thesis by (simp add: upd_proc_def rw_submit_eq)
  next
    case (2 d ps)
    then have "rw_enter b w (vk S) = Inr (RwWant, upd_proc p (sleep_on FreeChan) ((vk S)\<lparr>procs := ps, vd := d\<rparr>))"
      using p(2) by (simp add: rw_enter_def)
    moreover have "(vph S)(p := VWant b w) = vph S" using p(1) by (simp add: fun_upd_idem)
    ultimately show ?thesis using vinv_short [OF inv p 2(1,2)] 2(3) p(2) by (simp add: upd_proc_def calm_def)
  qed
qed

text \<open>The request is done: its descriptors become free and the processes that wait for some are woken.\<close>

definition released :: "nat \<Rightarrow> nat \<Rightarrow> nat \<Rightarrow> vdisk \<Rightarrow> vdisk" where
  "released i0 i1 i2 d = freed i2 (freed i1 (freed i0 (d\<lparr>info_b := (info_b d)[i0 := None]\<rparr>)))"

lemma released_fields [simp]:
  "avail_idx (released i0 i1 i2 d) = avail_idx d" "avail_ring (released i0 i1 i2 d) = avail_ring d"
  "dev_idx (released i0 i1 i2 d) = dev_idx d" "used_ring (released i0 i1 i2 d) = used_ring d"
  "used_idx (released i0 i1 i2 d) = used_idx d" "info_status (released i0 i1 i2 d) = info_status d"
  "vops (released i0 i1 i2 d) = vops d" "vfree (released i0 i1 i2 d) = (vfree d)[i0 := True, i1 := True, i2 := True]"
  "vdesc (released i0 i1 i2 d) = (vdesc d)[i0 := null_desc, i1 := null_desc, i2 := null_desc]"
  "info_b (released i0 i1 i2 d) = (info_b d)[i0 := None]"
  by (simp_all add: released_def)

lemma vfree_released:
  assumes "length (vfree d) = NUM" "j < NUM"
  shows "vfree (released i0 i1 i2 d) ! j \<longleftrightarrow> vfree d ! j \<or> j \<in> {i0, i1, i2}"
  using assms nth_fold_update [of j "vfree d" True "[i0, i1, i2]"] by auto

lemma owned_released:
  assumes ow: "owned d ph" and p: "ph p = VWait b w i0 i1 i2 v"
  shows "owned (released i0 i1 i2 d) (ph(p := VIdle))" (is "owned ?d ?ph")
proof -
  have len: "length (vfree d) = NUM" using ow by (simp add: owned_def)
  have ch: "chain (?ph q) = (if q = p then [] else chain (ph q))" for q by simp
  have other: "j \<notin> {i0, i1, i2}" if "q \<noteq> p" "j \<in> set (chain (ph q))" for q j
    using chain_owner [OF ow that(2), of p] that p by auto
  have "distinct (chain (?ph q)) \<and> (\<forall>i \<in> set (chain (?ph q)). i < NUM \<and> \<not> vfree ?d ! i)" for q
  proof (cases "q = p")
    case False
    moreover have "distinct (chain (ph q))" using ow unfolding owned_def by blast
    ultimately show ?thesis using chain_taken [OF ow, of _ q] other [OF False] len unfolding ch
      by (simp add: vfree_released del: released_fields)
  qed (simp add: ch)
  moreover have "\<exists>q. i \<in> set (chain (?ph q))" if i: "i < NUM" "\<not> vfree ?d ! i" for i
  proof -
    have i': "\<not> vfree d ! i" "i \<notin> {i0, i1, i2}" using i len by (simp_all add: vfree_released del: released_fields)
    then obtain q where q: "i \<in> set (chain (ph q))" using ow i(1) unfolding owned_def by blast
    then have "q \<noteq> p" using i'(2) p by auto
    with q show ?thesis unfolding ch by (intro exI [of _ q]) simp
  qed
  moreover have "set (chain (?ph q)) \<inter> set (chain (?ph r)) = {}" if "q \<noteq> r" for q r
    using that chain_owner [OF ow, of _ q r] unfolding ch by auto
  ultimately show ?thesis using len unfolding owned_def by simp
qed

lemma tables_released:
  assumes ow: "owned d ph" and p: "ph p = VWait b w i0 i1 i2 v" and tab: "tables d bs ph"
  shows "tables (released i0 i1 i2 d) bs (ph(p := VIdle))" (is "tables ?d bs ?ph")
proof -
  have "formatted ?d bs b' w' j0 j1 j2" if q: "?ph q = VWait b' w' j0 j1 j2 v'" for q b' w' j0 j1 j2 v'
  proof -
    have q': "q \<noteq> p" "ph q = VWait b' w' j0 j1 j2 v'" using q by (auto split: if_splits)
    have "\<forall>j \<in> {j0, j1, j2}. j \<notin> {i0, i1, i2}" using chain_owner [OF ow, of _ p q] p q' by auto
    then show ?thesis by (intro formatted_cong [OF tables_formatted [OF tab q'(2)]]) simp_all
  qed
  with tab show ?thesis unfolding tables_def by simp
qed

text \<open>A request whose buffer is no longer marked is in none of the queues.\<close>

lemma done_not_flying:
  assumes fl: "flight d bd ph seen bz" and ow: "owned d ph" and p: "ph p = VWait b w i0 i1 i2 v" "\<not> bd ! b"
  shows "i0 \<notin> set (queued d seen @ bz @ reported d)"
proof
  assume "i0 \<in> set (queued d seen @ bz @ reported d)"
  from flight_owner [OF fl this] obtain q c w' j1 j2 v' where q: "ph q = VWait c w' i0 j1 j2 v'" "bd ! c" by metis
  then have "q = p" using chain_owner [OF ow, of i0 q p] p by simp
  with q p show False by simp
qed

lemma flight_released:
  assumes fl: "flight d bd ph seen bz" and ow: "owned d ph" and p: "ph p = VWait b w i0 i1 i2 v" "\<not> bd ! b"
  shows "flight (released i0 i1 i2 d) bd (ph(p := VIdle)) seen bz" (is "flight ?d bd ?ph seen bz")
proof -
  have q: "queued ?d seen = queued d seen" "reported ?d = reported d" by (simp_all add: queued_def reported_def)
  have "(\<exists>r c w' j1 j2 v'. ?ph r = VWait c w' i j1 j2 v' \<and> bd ! c) \<longleftrightarrow> (\<exists>r c w' j1 j2 v'. ph r = VWait c w' i j1 j2 v' \<and> bd ! c)"
    (is "?L \<longleftrightarrow> ?R") for i
  proof
    assume ?L
    then obtain r c w' j1 j2 v' where "?ph r = VWait c w' i j1 j2 v'" "bd ! c" by blast
    then have "ph r = VWait c w' i j1 j2 v' \<and> bd ! c" by (auto split: if_splits)
    then show ?R by blast
  next
    assume ?R
    then obtain r c w' j1 j2 v' where r: "ph r = VWait c w' i j1 j2 v'" "bd ! c" by blast
    then have "r \<noteq> p" using p by auto
    with r have "?ph r = VWait c w' i j1 j2 v' \<and> bd ! c" by simp
    then show ?L by blast
  qed
  with flight_parts [OF fl] show ?thesis unfolding flight_def q by simp
qed

lemma vinv_released:
  assumes inv: "vinv S" and p: "vph S p = VWait b w i0 i1 i2 v" "\<not> buf_disk (vk S) ! b"
    and ps: "woken p FreeChan (procs (vk S)) ps"
  shows "vinv (S\<lparr>vk := (vk S)\<lparr>procs := ps, vd := released i0 i1 i2 (vd (vk S))\<rparr>, vph := (vph S)(p := VIdle)\<rparr>)"
proof -
  let ?d = "vd (vk S)" and ?D = "released i0 i1 i2 (vd (vk S))" and ?ph = "(vph S)(p := VIdle)"
  note I = vinvD [OF inv]
  have "users (bufs_of (vk S)) (buf_disk (vk S)) ?ph"
    by (rule users_idle [OF I(4)])
  moreover have "transfers ?D (bufs_of (vk S)) (disk (vk S)) ?ph (dseen S) (dbusy S)"
  proof -
    have q: "queued ?D (dseen S) = queued ?d (dseen S)" by (simp add: queued_def)
    have "?ph r = VWait c w' j0 j1 j2 v' \<Longrightarrow> vph S r = VWait c w' j0 j1 j2 v'" for r c w' j0 j1 j2 v' by (auto split: if_splits)
    with I(5) show ?thesis unfolding transfers_def q by blast
  qed
  moreover have "sleepers ps ?D (buf_disk (vk S)) ?ph"
    unfolding sleepers_def
  proof (intro allI impI)
    fix q assume q: "q < length ps" "pstate (ps ! q) = SLEEPING"
    then have "ps ! q = procs (vk S) ! q" "q < length (procs (vk S))" "q \<noteq> p \<Longrightarrow> chan (ps ! q) \<noteq> FreeChan"
      using ps by (auto simp: woken_def)
    with I(6) q show "asleep_ok ?D (buf_disk (vk S)) (?ph q) (ps ! q)"
      by (cases "q = p"; cases "vph S q") (auto simp: sleepers_def)
  qed
  ultimately show ?thesis
    using owned_released [OF I(1) p(1)] tables_released [OF I(1) p(1) I(2)] flight_released [OF I(3,1) p]
    by (simp add: vinv_def Let_def del: released_fields)
qed

lemma rw_poll_step:
  assumes inv: "vinv S" and p: "vph S p = VWait b w i0 i1 i2 v" "cur (vk S) = p"
  shows "\<exists>t s'. rw_poll b i0 i1 i2 (vk S) = Inr (t, s') \<and> (t = RwDone \<longleftrightarrow> \<not> buf_disk (vk S) ! b) \<and> length (procs s') = length (procs (vk S))
    \<and> vinv (S\<lparr>vk := s', vph := (vph S)(p := after_turn b w v t)\<rparr>)"
proof (cases "buf_disk (vk S) ! b")
  case True
  note I = vinvD [OF inv]
  have "sleepers ((procs (vk S))[p := sleep_on (DataChan b) (procs (vk S) ! p)]) (vd (vk S)) (buf_disk (vk S)) (vph S)"
    by (rule sleepers_calm [OF I(6) calm_refl]) (use p True in \<open>simp_all add: sleep_on_def\<close>)
  with I have "vinv (S\<lparr>vk := upd_proc p (sleep_on (DataChan b)) (vk S)\<rparr>)" by (simp add: vinv_def upd_proc_def Let_def)
  moreover have "(vph S)(p := VWait b w i0 i1 i2 v) = vph S" using p(1) by (simp add: fun_upd_idem)
  ultimately show ?thesis using True p(2) by (simp add: rw_poll_def upd_proc_def)
next
  case False
  note I = vinvD [OF inv]
  let ?d = "vd (vk S)"
  let ?s = "upd_vd (\<lambda>d. d\<lparr>info_b := (info_b d)[i0 := None]\<rparr>) (vk S)"
  have "\<exists>ps. woken (cur ?s) FreeChan (procs ?s) ps \<and> free_chain (int i0) ?s
      = Inr (?s\<lparr>procs := ps, vd := freed i2 (freed i1 (freed i0 (vd ?s)))\<rparr>)"
  proof (rule free_chain_formatted)
    show "formatted ?d (bufs_of (vk S)) b w i0 i1 i2" by (rule tables_formatted [OF I(2) p(1)])
    show "distinct [i0, i1, i2]" "\<forall>i \<in> {i0, i1, i2}. i < NUM \<and> \<not> vfree (vd ?s) ! i"
      using wait_taken [OF I(1) p(1)] by (simp_all add: upd_vd_def)
    show "length (vfree (vd ?s)) = NUM" "length (vdesc (vd ?s)) = NUM" "vdesc (vd ?s) = vdesc ?d"
      using I(1,2) by (simp_all add: upd_vd_def owned_def tables_def)
  qed
  then obtain ps where ps: "woken p FreeChan (procs (vk S)) ps"
    "rw_finish i0 (vk S) = Inr ((vk S)\<lparr>procs := ps, vd := released i0 i1 i2 ?d\<rparr>)"
    using p(2) by (auto simp: rw_finish_def upd_vd_def released_def)
  from False ps(2) have "rw_poll b i0 i1 i2 (vk S) = Inr (RwDone, (vk S)\<lparr>procs := ps, vd := released i0 i1 i2 ?d\<rparr>)"
    by (simp add: rw_poll_def)
  with vinv_released [OF inv p(1) False ps(1)] False ps(1) show ?thesis by (simp add: woken_def)
qed

section \<open>The device\<close>

lemma fetch_step:
  assumes inv: "vinv S" and ne: "dseen S \<noteq> avail_idx (vd (vk S))"
  shows "vinv (S\<lparr>dbusy := dbusy S @ [unat (avail_ring (vd (vk S)) ! unat (dseen S mod of_nat NUM))], dseen := dseen S + 1\<rparr>)"
proof -
  let ?d = "vd (vk S)" and ?i = "unat (avail_ring (vd (vk S)) ! unat (dseen S mod of_nat NUM))"
  have q: "queued ?d (dseen S) = ?i # queued ?d (dseen S + 1)" unfolding queued_def by (rule wring_pop [OF ne])
  note I = vinvD [OF inv]
  have "distinct (queued ?d (dseen S + 1) @ (dbusy S @ [?i]) @ reported ?d)" using flight_parts(1) [OF I(3)] q by auto
  moreover have same: "set (queued ?d (dseen S + 1) @ (dbusy S @ [?i]) @ reported ?d) = set (queued ?d (dseen S) @ dbusy S @ reported ?d)"
    "set (queued ?d (dseen S + 1) @ (dbusy S @ [?i])) = set (queued ?d (dseen S) @ dbusy S)" using q by auto
  ultimately have "flight ?d (buf_disk (vk S)) (vph S) (dseen S + 1) (dbusy S @ [?i])"
    using flight_parts(2,3) [OF I(3)] unfolding flight_def same(1) by blast
  moreover have "transfers ?d (bufs_of (vk S)) (disk (vk S)) (vph S) (dseen S + 1) (dbusy S @ [?i])"
    using I(5) unfolding transfers_def same(2) .
  ultimately show ?thesis using I by (simp add: vinv_def Let_def)
qed

text \<open>The device finds the chain the driver built, and its transfer is the one the buffer cache asked for.\<close>

lemma sector_block: "unat (bn :: u32) < 2 ^ 31 \<Longrightarrow> ucast ((ucast (bn * of_nat (BSIZE div 512) :: u32) :: u64) div 2) = bn"
proof -
  assume b: "unat bn < 2 ^ 31"
  then have "unat (bn * 2) = unat bn * 2" by (simp add: unat_word_ariths)
  moreover have "unat (ucast (bn * 2) :: u64) = unat (bn * 2)"
    using unat_less_pow32 [of "bn * 2"] by (simp add: unsigned_ucast_eq take_bit_eq_mod)
  ultimately have u: "unat ((ucast (bn * 2) :: u64) div 2) = unat bn" by (simp add: unat_div)
  have "unat (ucast ((ucast (bn * 2) :: u64) div 2) :: u32) = unat bn"
    using b unfolding unsigned_ucast_eq u by (simp add: take_bit_eq_mod)
  then show ?thesis by (simp add: BSIZE_def word_unat_eq_iff)
qed

definition moved :: "nat \<Rightarrow> bool \<Rightarrow> 'a bkernel_scheme \<Rightarrow> 'a bkernel_scheme" where
  "moved b w s = (if w then disk_write b s else disk_read b s)"

lemma dev_transfer_formatted:
  assumes fmt: "formatted (vd s) (bufs_of s) b w i0 i1 i2" and i: "i1 < NUM" "i2 < NUM"
    and bn: "unat (blockno (buf_at s b)) < 2 ^ 31"
  shows "dev_transfer i0 s = Some (upd_vd (\<lambda>d. d\<lparr>info_status := (info_status d)[i0 := 0]\<rparr>) (moved b w s))"
proof -
  have flags: "and VRING_DESC_F_NEXT VRING_DESC_F_NEXT \<noteq> (0 :: u16)" "and VRING_DESC_F_WRITE VRING_DESC_F_NEXT = (0 :: u16)"
    "and (or (if w then 0 else VRING_DESC_F_WRITE) VRING_DESC_F_NEXT) VRING_DESC_F_NEXT \<noteq> (0 :: u16)"
    "and VRING_DESC_F_NEXT VRING_DESC_F_WRITE = (0 :: u16)" "and VRING_DESC_F_WRITE VRING_DESC_F_WRITE \<noteq> (0 :: u16)"
    "and (or (if w then 0 else VRING_DESC_F_WRITE) VRING_DESC_F_NEXT) VRING_DESC_F_WRITE \<noteq> (0 :: u16) \<longleftrightarrow> \<not> w"
    by (simp_all add: VRING_DESC_F_NEXT_def VRING_DESC_F_WRITE_def)
  have ty: "VIRTIO_BLK_T_OUT \<noteq> VIRTIO_BLK_T_IN" by (simp add: VIRTIO_BLK_T_OUT_def VIRTIO_BLK_T_IN_def)
  have sec: "ucast (rq_sector (vops (vd s) ! i0) div 2) = blockno (buf_at s b)"
    using fmt sector_block [OF bn] by (simp add: formatted_def)
  show ?thesis
  proof (cases w)
    case True
    with fmt flags ty sec i show ?thesis
      by (simp add: dev_transfer_def Let_def formatted_def unat_index BSIZE_def moved_def disk_write_def upd_vd_def)
  next
    case False
    with fmt flags ty sec i show ?thesis
      by (simp add: dev_transfer_def Let_def formatted_def unat_index BSIZE_def moved_def disk_read_def upd_vd_def upd_buf_def)
  qed
qed

lemma moved_facts:
  assumes "b < length (bufs_of s)"
  shows "length (bufs_of (moved b w s)) = length (bufs_of s)" "blockno (buf_at (moved b w s) c) = blockno (buf_at s c)"
    "bdata (buf_at (moved b w s) c) = (if c = b \<and> \<not> w then disk s (blockno (buf_at s b)) else bdata (buf_at s c))"
    "disk (moved b w s) = (if w then (disk s)(blockno (buf_at s b) := bdata (buf_at s b)) else disk s)"
  using assms by (auto simp: moved_def disk_write_def disk_read_def upd_buf_def Let_def nth_list_update)

lemma moved_same [simp]:
  "vd (moved b w s) = vd s" "buf_disk (moved b w s) = buf_disk s" "procs (moved b w s) = procs s"
  by (simp_all add: moved_def disk_write_def disk_read_def upd_buf_def Let_def)

definition completed :: "nat \<Rightarrow> vdisk \<Rightarrow> vdisk" where
  "completed i d = d\<lparr>info_status := (info_status d)[i := 0],
     used_ring := (used_ring d)[unat (dev_idx d mod of_nat NUM) := of_nat i], dev_idx := dev_idx d + 1\<rparr>"

lemma completed_fields [simp]:
  "vdesc (completed i d) = vdesc d" "avail_idx (completed i d) = avail_idx d" "avail_ring (completed i d) = avail_ring d"
  "used_idx (completed i d) = used_idx d" "info_b (completed i d) = info_b d" "vops (completed i d) = vops d"
  "vfree (completed i d) = vfree d" "info_status (completed i d) = (info_status d)[i := 0]"
  "length (used_ring (completed i d)) = length (used_ring d)"
  by (simp_all add: completed_def)

lemma dev_complete_formatted:
  assumes "formatted (vd s) (bufs_of s) b w i0 i1 i2" "i1 < NUM" "i2 < NUM" "unat (blockno (buf_at s b)) < 2 ^ 31"
  shows "dev_complete i0 s = Some ((moved b w s)\<lparr>vd := completed i0 (vd s)\<rparr>)"
  using dev_transfer_formatted [OF assms] by (simp add: dev_complete_def upd_vd_def completed_def)

lemma flight_completed:
  assumes fl: "flight d bd ph seen bz" and ow: "owned d ph" and tab: "tables d bs ph" and i: "i \<in> set bz"
  shows "flight (completed i d) bd ph seen (remove1 i bz)" "queued (completed i d) seen = queued d seen"
    "reported (completed i d) = reported d @ [i]"
proof -
  have iN: "i < NUM" using flight_taken(1) [OF fl ow, of i] i by simp
  have len: "length (used_ring d) = NUM" "length (info_status d) = NUM" using tab by (simp_all add: tables_def)
  show q: "queued (completed i d) seen = queued d seen" by (simp add: queued_def)
  show r: "reported (completed i d) = reported d @ [i]"
    using wring_push [OF len(1) reported_room [OF fl ow i], of "of_nat i"] iN
    by (simp add: reported_def completed_def unat_index)
  have dist: "distinct (queued d seen @ bz @ reported d)" by (rule flight_parts(1) [OF fl])
  then have "distinct (queued d seen @ remove1 i bz @ reported d @ [i])" using i by (auto simp: distinct_remove1 dest: notin_set_remove1)
  moreover have "set (queued d seen @ remove1 i bz @ reported d @ [i]) = set (queued d seen @ bz @ reported d)"
    using dist i by auto
  moreover have "\<forall>j \<in> set (reported d @ [i]). info_status (completed i d) ! j = 0"
  proof
    fix j assume "j \<in> set (reported d @ [i])"
    then show "info_status (completed i d) ! j = 0" using flight_parts(2) [OF fl] len(2) iN by (cases "j = i") auto
  qed
  ultimately show "flight (completed i d) bd ph seen (remove1 i bz)"
    using flight_parts(3) [OF fl] unfolding flight_def q r by blast
qed

lemma finish_step:
  assumes inv: "vinv S" and i: "i \<in> set (dbusy S)"
  obtains p b w i1 i2 v s' where "vph S p = VWait b w i i1 i2 v" "dev_complete i (vk S) = Some s'"
    "bufs_of s' = bufs_of (moved b w (vk S))" "disk s' = disk (moved b w (vk S))"
    "procs s' = procs (vk S)" "vinv (S\<lparr>vk := s', dbusy := remove1 i (dbusy S)\<rparr>)"
proof -
  let ?s = "vk S" and ?d = "vd (vk S)"
  note I = vinvD [OF inv]
  obtain p b w i1 i2 v where p: "vph S p = VWait b w i i1 i2 v"
    using flight_owner [OF I(3), of i] i by (metis UnCI set_append)
  have b: "b < length (bufs_of ?s)" "unat (blockno (buf_at ?s b)) < 2 ^ 31" using users_bounds [OF I(4), of p b] p by auto
  have idx: "i1 < NUM" "i2 < NUM" using wait_taken(1) [OF I(1) p] by auto
  note M = moved_facts [OF b(1), of w]
  define s' where "s' = (moved b w ?s)\<lparr>vd := completed i ?d\<rparr>"
  have c: "dev_complete i ?s = Some s'"
    using dev_complete_formatted [OF tables_formatted [OF I(2) p] idx b(2)] by (simp add: s'_def)
  have "tables (completed i ?d) (bufs_of (moved b w ?s)) (vph S)"
    using I(2) M(2) unfolding tables_def formatted_def by simp
  moreover have "users (bufs_of (moved b w ?s)) (buf_disk ?s) (vph S)" using I(4) unfolding users_def M(1,2) .
  moreover have "transfers (completed i ?d) (bufs_of (moved b w ?s)) (disk (moved b w ?s)) (vph S) (dseen S) (remove1 i (dbusy S))"
    unfolding transfers_def
  proof (intro allI impI)
    fix q c w' j0 j1 j2 v' assume q: "vph S q = VWait c w' j0 j1 j2 v'"
    note T = transfersD [OF I(5) q]
    show "(if w' then bdata (buf_at (moved b w ?s) c) = v' else disk (moved b w ?s) (blockno (buf_at (moved b w ?s) c)) = v') \<and>
      (j0 \<notin> set (queued (completed i ?d) (dseen S) @ remove1 i (dbusy S)) \<longrightarrow>
        bdata (buf_at (moved b w ?s) c) = v' \<and> disk (moved b w ?s) (blockno (buf_at (moved b w ?s) c)) = v')"
    proof (cases "q = p")
      case True
      with p q have "c = b" "w' = w" by auto
      with T show ?thesis unfolding M by auto
    next
      case False
      then have "c \<noteq> b" "blockno (buf_at ?s c) \<noteq> blockno (buf_at ?s b)" using users_apart [OF I(4), of q p c b] p q by auto
      moreover have "j0 \<noteq> i" using chain_owner [OF I(1), of i q p] False p q by auto
      ultimately show ?thesis using T unfolding M flight_completed(2) [OF I(3,1,2) i] by auto
    qed
  qed
  moreover have "owned (completed i ?d) (vph S)" using I(1) by (simp add: owned_def)
  moreover have "nfree (completed i ?d) = nfree ?d" by (simp add: nfree_def)
  then have "asleep_ok (completed i ?d) bd x y = asleep_ok ?d bd x y" for bd x y by (cases x) simp_all
  then have "sleepers (procs ?s) (completed i ?d) (buf_disk ?s) (vph S)" using I(6) by (simp add: sleepers_def)
  ultimately have "vinv (S\<lparr>vk := s', dbusy := remove1 i (dbusy S)\<rparr>)"
    using flight_completed(1) [OF I(3,1,2) i] by (simp add: vinv_def Let_def s'_def)
  with p c show thesis by (intro that) (auto simp: s'_def)
qed

end
