(* ===== verification/Virtio_Claims.thy ===== *)
theory Virtio_Claims
  imports Virtio_Safe
begin

text \<open>The interrupt, all reachable states, and what follows for the callers of the driver.\<close>

section \<open>The interrupt\<close>

definition acked :: "nat \<Rightarrow> proc list \<Rightarrow> vkernel \<Rightarrow> vkernel" where
  "acked b ps s = s\<lparr>procs := ps, buf_disk := (buf_disk s)[b := False], vd := (vd s)\<lparr>used_idx := used_idx (vd s) + 1\<rparr>\<rparr>"

lemma intr_acked:
  "upd_vd (\<lambda>d. d\<lparr>used_idx := used_idx d + 1\<rparr>) (wakeup (kver s) (Some (cur s)) (DataChan b) (s\<lparr>buf_disk := (buf_disk s)[b := False]\<rparr>))
   = acked b (wakeup_procs (kver s) (Some (cur s)) (DataChan b) (procs s)) s"
  by (simp add: upd_vd_def wakeup_def acked_def)

lemma flight_acked:
  assumes fl: "flight d bd ph seen bz" and ow: "owned d ph" and us: "users bs bd ph"
    and rep: "reported d = i # rest" "reported (d\<lparr>used_idx := used_idx d + 1\<rparr>) = rest"
    and p: "ph p = VWait b w i i1 i2 v"
  shows "flight (d\<lparr>used_idx := used_idx d + 1\<rparr>) (bd[b := False]) ph seen bz"
proof -
  have q: "queued (d\<lparr>used_idx := used_idx d + 1\<rparr>) seen = queued d seen" by (simp add: queued_def)
  have b: "b < length bd" using users_bounds [OF us, of p b] p by simp
  have dist: "distinct (queued d seen @ bz @ i # rest)" using flight_parts(1) [OF fl] rep(1) by simp
  have "(\<exists>r c w' j1 j2 v'. ph r = VWait c w' j j1 j2 v' \<and> bd[b := False] ! c) \<longleftrightarrow> j \<in> set (queued d seen @ bz @ rest)"
    (is "?L \<longleftrightarrow> ?R") for j
  proof
    assume ?L
    then obtain r c w' j1 j2 v' where r: "ph r = VWait c w' j j1 j2 v'" "bd[b := False] ! c" by blast
    then have "c \<noteq> b" using b by auto
    with r have "bd ! c" "r \<noteq> p" using p by auto
    moreover have "j \<noteq> i" using chain_owner [OF ow, of i r p] r p \<open>r \<noteq> p\<close> by auto
    moreover have "j \<in> set (queued d seen @ bz @ reported d)"
      using r(1) \<open>bd ! c\<close> flight_parts(3) [OF fl, of j] by blast
    ultimately show ?R using rep(1) by auto
  next
    assume R: ?R
    then have "j \<noteq> i" using dist by auto
    from R have "j \<in> set (queued d seen @ bz @ reported d)" using rep(1) by auto
    from flight_owner [OF fl this] obtain r c w' j1 j2 v' where r: "ph r = VWait c w' j j1 j2 v'" "bd ! c" by metis
    then have "r \<noteq> p" using p \<open>j \<noteq> i\<close> by auto
    then have "c \<noteq> b" using users_apart [OF us, of r p c b] r p by simp
    then have "ph r = VWait c w' j j1 j2 v' \<and> bd[b := False] ! c" using r by simp
    then show ?L by blast
  qed
  moreover have "\<forall>j \<in> set rest. info_status d ! j = 0" using flight_parts(2) [OF fl] rep(1) by simp
  ultimately show ?thesis using dist unfolding flight_def q rep(2) by simp
qed

lemma vinv_acked:
  assumes inv: "vinv S" and rep: "reported (vd (vk S)) = i # rest"
      "reported ((vd (vk S))\<lparr>used_idx := used_idx (vd (vk S)) + 1\<rparr>) = rest"
    and p: "vph S p = VWait b w i i1 i2 v" and ps: "woken q (DataChan b) (procs (vk S)) ps"
    and q: "pstate (procs (vk S) ! q) \<noteq> SLEEPING"
  shows "vinv (S\<lparr>vk := acked b ps (vk S)\<rparr>)"
proof -
  let ?d = "vd (vk S)" and ?D = "(vd (vk S))\<lparr>used_idx := used_idx (vd (vk S)) + 1\<rparr>" and ?bd = "(buf_disk (vk S))[b := False]"
  note I = vinvD [OF inv]
  have "sleepers ps ?D ?bd (vph S)"
    unfolding sleepers_def
  proof (intro allI impI)
    fix r assume r: "r < length ps" "pstate (ps ! r) = SLEEPING"
    then have ps': "ps ! r = procs (vk S) ! r" "r < length (procs (vk S))" "r \<noteq> q \<Longrightarrow> chan (ps ! r) \<noteq> DataChan b"
      using ps by (auto simp: woken_def)
    then have ch: "chan (ps ! r) \<noteq> DataChan b" using r q by metis
    have ok: "asleep_ok ?d (buf_disk (vk S)) (vph S r) (ps ! r)" using I(6) r ps' by (simp add: sleepers_def)
    show "asleep_ok ?D ?bd (vph S r) (ps ! r)"
    proof (cases "vph S r")
      case (VWait c w' j0 j1 j2 v')
      with ok ch have "c \<noteq> b" by auto
      with VWait ok show ?thesis by simp
    qed (use ok in \<open>simp_all add: nfree_def\<close>)
  qed
  moreover have "users (bufs_of (vk S)) ?bd (vph S)" using I(4) unfolding users_def length_list_update .
  moreover have "owned ?D (vph S)" "tables ?D (bufs_of (vk S)) (vph S)"
    using I(1,2) by (simp_all add: owned_def tables_def formatted_def)
  moreover have "transfers ?D (bufs_of (vk S)) (disk (vk S)) (vph S) (dseen S) (dbusy S)"
    using I(5) by (simp add: transfers_def queued_def)
  ultimately show ?thesis using flight_acked [OF I(3,1,4) rep p] by (simp add: vinv_def Let_def acked_def)
qed

lemma intr_step:
  "vinv S \<Longrightarrow> runs q S \<Longrightarrow> cur (vk S) = q \<Longrightarrow> s = vk S \<Longrightarrow>
   \<exists>s'. virtio_disk_intr s = Inr s' \<and> vinv (S\<lparr>vk := s'\<rparr>) \<and> used_idx (vd s') = dev_idx (vd s')
     \<and> bufs_of s' = bufs_of s \<and> disk s' = disk s \<and> length (procs s') = length (procs s)"
proof (induction s arbitrary: S rule: virtio_disk_intr.induct)
  case (1 s)
  note inv = "1.prems"(1)
  let ?d = "vd (vk S)"
  show ?case
  proof (cases "used_idx ?d = dev_idx ?d")
    case True
    with "1.prems" show ?thesis by (simp add: virtio_disk_intr.simps)
  next
    case False
    note I = vinvD [OF inv]
    let ?i = "unat (used_ring ?d ! unat (used_idx ?d mod of_nat NUM))"
    let ?rest = "reported (?d\<lparr>used_idx := used_idx ?d + 1\<rparr>)"
    have rep: "reported ?d = ?i # ?rest" unfolding reported_def using wring_pop [OF False] by simp
    then have mem: "?i \<in> set (queued ?d (dseen S) @ dbusy S @ reported ?d)" by simp
    obtain p b w i1 i2 v where p: "vph S p = VWait b w ?i i1 i2 v" using flight_owner [OF I(3) mem] by metis
    let ?ps = "wakeup_procs (kver (vk S)) (Some q) (DataChan b) (procs (vk S))"
    let ?S = "S\<lparr>vk := acked b ?ps (vk S)\<rparr>"
    have facts: "?i < NUM" "info_status ?d ! ?i = 0" "info_b ?d ! ?i = Some b"
      using flight_taken(1) [OF I(3,1) mem] flight_parts(2) [OF I(3)] rep tables_formatted [OF I(2) p]
      by (simp_all add: formatted_def)
    have upd: "upd_vd (\<lambda>d. d\<lparr>used_idx := used_idx d + 1\<rparr>)
        (wakeup (kver s) (Some (cur s)) (DataChan b) (s\<lparr>buf_disk := (buf_disk s)[b := False]\<rparr>)) = acked b ?ps (vk S)"
      using "1.prems"(3,4) intr_acked [of s b] by simp
    have w: "woken q (DataChan b) (procs (vk S)) ?ps" by (rule woken_wakeup)
    have "vinv ?S" using "1.prems"(2) by (intro vinv_acked [OF inv rep refl p w]) (simp add: runs_def)
    moreover have "runs q ?S" using "1.prems"(2) w by (auto simp: runs_def acked_def woken_def)
    ultimately have "\<exists>s'. virtio_disk_intr (acked b ?ps (vk S)) = Inr s' \<and> vinv (?S\<lparr>vk := s'\<rparr>) \<and> used_idx (vd s') = dev_idx (vd s')
        \<and> bufs_of s' = bufs_of (acked b ?ps (vk S)) \<and> disk s' = disk (acked b ?ps (vk S))
        \<and> length (procs s') = length (procs (acked b ?ps (vk S)))"
      using "1.IH" [OF refl _ refl, of b ?S] False facts "1.prems"(3,4) unfolding upd by (simp add: acked_def)
    moreover have "virtio_disk_intr s = virtio_disk_intr (acked b ?ps (vk S))"
      using virtio_disk_intr.simps [of s] False facts "1.prems"(4) unfolding upd [symmetric] by (simp add: Let_def)
    ultimately show ?thesis using "1.prems"(4) w by (simp add: acked_def woken_def)
  qed
qed

section \<open>All reachable states\<close>

text \<open>The driver after \<^verbatim>\<open>virtio_disk_init\<close>, with no request and all descriptors free.\<close>

definition vboot :: "vsys \<Rightarrow> bool" where
  "vboot S \<longleftrightarrow> (let d = vd (vk S)
     in vfree d = replicate NUM True \<and> length (vdesc d) = NUM \<and> length (avail_ring d) = NUM \<and> length (used_ring d) = NUM
        \<and> length (info_b d) = NUM \<and> length (info_status d) = NUM \<and> length (vops d) = NUM
        \<and> avail_idx d = dseen S \<and> dev_idx d = used_idx d \<and> dbusy S = [] \<and> vph S = (\<lambda>_. VIdle))"

lemma virtio_init_boot:
  assumes "virtio_disk_init r s = Inr (ws, s')" "used_idx (vd s) = 0" "length (info_b (vd s)) = NUM"
    "length (info_status (vd s)) = NUM" "length (vops (vd s)) = NUM"
  shows "vboot \<lparr>vk = s', vph = (\<lambda>_. VIdle), dseen = 0, dbusy = []\<rparr>"
proof -
  have kal: "vd (snd (kalloc x)) = vd x" for x :: vkernel by (simp add: kalloc_def Let_def)
  obtain a s1 b s2 c s3 where k: "kalloc s = (a, s1)" "kalloc s1 = (b, s2)" "kalloc s2 = (c, s3)" by fastforce
  then have "vd s3 = vd s" using kal [of s] kal [of s1] kal [of s2] by simp
  with assms k show ?thesis
    by (auto simp: virtio_disk_init_def Let_def rbind_eq_Inr upd_vd_def vboot_def split: if_splits)
qed

lemma vinv_boot: "vboot S \<Longrightarrow> vinv S"
  by (simp add: vboot_def vinv_def Let_def owned_def tables_def flight_def users_def transfers_def sleepers_def
      queued_def reported_def wring_Nil)

lemma kill_step:
  assumes "vinv S" shows "vinv (S\<lparr>vk := upd_proc p kill_proc (vk S)\<rparr>)"
proof -
  have "pstate (kill_proc x) \<noteq> SLEEPING" for x by (simp add: kill_proc_def Let_def)
  from sleepers_update [OF vinvD(6) [OF assms] this] vinvD [OF assms] show ?thesis
    by (simp add: vinv_def upd_proc_def Let_def)
qed

lemma target_block_upd [simp]: "target_block b w (s\<lparr>cur := p\<rparr>) = target_block b w s"
  "target_block b w (upd_proc p f s) = target_block b w s"
  by (simp_all add: target_block_def upd_proc_def)

lemma cur_resumed [simp]: "cur (resumed p s) = p"
  by (simp add: upd_proc_def)

text \<open>Only processes of the table are in the driver.\<close>

definition inside :: "vsys \<Rightarrow> bool" where
  "inside S \<longleftrightarrow> (\<forall>p. vph S p \<noteq> VIdle \<longrightarrow> p < length (procs (vk S)))"

lemma vinv_step: "vstep S S' \<Longrightarrow> vinv S \<Longrightarrow> inside S \<Longrightarrow> vinv S' \<and> inside S'"
proof (induction rule: vstep.induct)
  case (enter p S b w t s')
  let ?S = "S\<lparr>vph := (vph S)(p := VWant b w), vk := (vk S)\<lparr>cur := p\<rparr>\<rparr>"
  have "vinv ?S" using vinv_cur [OF vinv_want [OF enter.prems(1) enter.hyps(2,3,1), of w], of p] by simp
  from rw_enter_step [OF this, of p b w] enter show ?case by (auto simp: inside_def runs_def)
next
  case (again p S b w t s')
  have "vph (S\<lparr>vk := resumed p (vk S)\<rparr>) p = VWant b w" using again.hyps(2) by simp
  from rw_enter_step [OF vinv_resumed(1) [OF again.prems(1) again.hyps(1)] this] again show ?case
    by (auto simp: inside_def runs_def)
next
  case (poll p S b w i0 i1 i2 v t s')
  have "vph (S\<lparr>vk := resumed p (vk S)\<rparr>) p = VWait b w i0 i1 i2 v" using poll.hyps(2) by simp
  from rw_poll_step [OF vinv_resumed(1) [OF poll.prems(1) poll.hyps(1)] this] poll show ?case
    by (auto simp: inside_def runs_def)
next
  case (fetch S)
  then show ?case by (simp add: fetch_step inside_def)
next
  case (finish i S s')
  obtain t where "dev_complete i (vk S) = Some t" "procs t = procs (vk S)" "vinv (S\<lparr>vk := t, dbusy := remove1 i (dbusy S)\<rparr>)"
    using finish_step [OF finish.prems(1) finish.hyps(1)] by metis
  with finish show ?case by (auto simp: inside_def)
next
  case (intr q S s')
  have "runs q (S\<lparr>vk := (vk S)\<lparr>cur := q\<rparr>\<rparr>)" using intr.hyps(1) by (simp add: runs_def)
  from intr_step [OF vinv_cur [OF intr.prems(1)] this] intr show ?case by (auto simp: inside_def)
next
  case (kill S p)
  then show ?case using kill_step [of S p] by (simp add: inside_def upd_proc_def)
qed

lemma vinv_reach: "vreach S0 S \<Longrightarrow> vboot S0 \<Longrightarrow> vinv S \<and> inside S"
proof (induction rule: vreach.induct)
  case start
  then show ?case using vinv_boot [of S0] by (simp add: inside_def vboot_def Let_def)
next
  case (step S S')
  then show ?case using vinv_step by blast
qed

section \<open>Descriptors\<close>

definition waiting :: "vsys \<Rightarrow> nat set" where
  "waiting S = {p. chain (vph S p) \<noteq> []}"

text \<open>Every request has three descriptors, and the others are free.\<close>

lemma descriptors_conserved:
  assumes "owned d ph"
  shows "finite {p. chain (ph p) \<noteq> []}" "nfree d + 3 * card {p. chain (ph p) \<noteq> []} = NUM"
proof -
  let ?W = "{p. chain (ph p) \<noteq> []}" and ?T = "{i. i < NUM \<and> \<not> vfree d ! i}"
  have len: "length (chain (ph p)) = 3" if "p \<in> ?W" for p using that by (cases "ph p") auto
  have own: "?T = (\<Union>p \<in> ?W. set (chain (ph p)))"
  proof (intro equalityI subsetI)
    fix i assume "i \<in> ?T"
    then obtain p where "i \<in> set (chain (ph p))" using assms unfolding owned_def by blast
    then show "i \<in> (\<Union>p \<in> ?W. set (chain (ph p)))" by (intro UN_I [of p]) auto
  qed (use chain_taken [OF assms] in blast)
  have card: "card (set (chain (ph p))) = 3" if "p \<in> ?W" for p
    using len [OF that] assms distinct_card [of "chain (ph p)"] unfolding owned_def by metis
  have "inj_on (\<lambda>p. hd (chain (ph p))) ?W"
    by (intro inj_onI) (metis (mono_tags, lifting) assms chain_owner hd_in_set mem_Collect_eq)
  moreover have "(\<lambda>p. hd (chain (ph p))) ` ?W \<subseteq> {..<NUM}"
    using chain_taken [OF assms] hd_in_set by (metis (mono_tags, lifting) image_subsetI lessThan_iff mem_Collect_eq)
  ultimately show fin: "finite ?W" using finite_subset inj_on_finite by blast
  have "card ?T = (\<Sum>p \<in> ?W. card (set (chain (ph p))))"
    unfolding own using fin
  proof (rule card_UN_disjoint)
    show "\<forall>p \<in> ?W. \<forall>q \<in> ?W. p \<noteq> q \<longrightarrow> set (chain (ph p)) \<inter> set (chain (ph q)) = {}"
      using assms unfolding owned_def by blast
  qed simp
  also have "\<dots> = 3 * card ?W" using card by simp
  finally have t: "card ?T = 3 * card ?W" .
  have "{..<NUM} = {i. i < NUM \<and> vfree d ! i} \<union> ?T" by auto
  moreover have "card ({i. i < NUM \<and> vfree d ! i} \<union> ?T) = nfree d + card ?T"
    unfolding nfree_def by (intro card_Un_disjoint) auto
  ultimately show "nfree d + 3 * card ?W = NUM" using t by (metis card_lessThan)
qed

section \<open>What the callers see\<close>

text \<open>C23. The disk driver, in every interleaving of processes, device and interrupts. No call of the driver
  panics or reads outside its tables: descriptors are never freed twice, the interrupt finds a
  finished request of status 0, and the device always finds the chain of three descriptors it expects. When
  \<^verbatim>\<open>virtio_disk_rw\<close> is about to return, the buffer and the disk both hold the block the transfer was for: what
  the buffer held at the call of a write, and what the disk held at the call of a read.\<close>

theorem virtio_transfers:
  assumes "vboot S0" "vreach S0 S"
  shows "(\<forall>p b w i0 i1 i2 v. vph S p = VWait b w i0 i1 i2 v \<longrightarrow> \<not> buf_disk (vk S) ! b \<longrightarrow> runs p S \<longrightarrow>
       bdata (buf_at (vk S) b) = v \<and> disk (vk S) (blockno (buf_at (vk S) b)) = v
       \<and> (\<exists>s'. rw_poll b i0 i1 i2 (resumed p (vk S)) = Inr (RwDone, s')))
     \<and> (\<forall>p b w. vph S p = VWant b w \<longrightarrow> runs p S \<longrightarrow> (\<exists>t s'. rw_enter b w (resumed p (vk S)) = Inr (t, s')))
     \<and> (\<forall>p b w. vph S p = VIdle \<longrightarrow> runs p S \<longrightarrow> exclusive b S \<longrightarrow> (\<exists>t s'. rw_enter b w ((vk S)\<lparr>cur := p\<rparr>) = Inr (t, s')))
     \<and> (\<forall>q. runs q S \<longrightarrow> (\<exists>s'. virtio_disk_intr ((vk S)\<lparr>cur := q\<rparr>) = Inr s'))
     \<and> (\<forall>i \<in> set (dbusy S). \<exists>s'. dev_complete i (vk S) = Some s')"
proof (intro conjI allI impI ballI)
  have inv: "vinv S" using vinv_reach [OF assms(2,1)] by simp
  note I = vinvD [OF inv]
  { fix p b w i0 i1 i2 v assume p: "vph S p = VWait b w i0 i1 i2 v" "\<not> buf_disk (vk S) ! b" "runs p S"
    have "i0 \<notin> set (queued (vd (vk S)) (dseen S) @ dbusy S)" using done_not_flying [OF I(3,1) p(1,2)] by simp
    with transfersD [OF I(5) p(1)] show "bdata (buf_at (vk S) b) = v" "disk (vk S) (blockno (buf_at (vk S) b)) = v" by simp_all
    have "vph (S\<lparr>vk := resumed p (vk S)\<rparr>) p = VWait b w i0 i1 i2 v" using p(1) by simp
    from rw_poll_step [OF vinv_resumed(1) [OF inv p(3)] this] p(2)
    show "\<exists>s'. rw_poll b i0 i1 i2 (resumed p (vk S)) = Inr (RwDone, s')" by (auto simp: upd_proc_def) }
  { fix p b w assume p: "vph S p = VWant b w" "runs p S"
    have "vph (S\<lparr>vk := resumed p (vk S)\<rparr>) p = VWant b w" using p(1) by simp
    from rw_enter_step [OF vinv_resumed(1) [OF inv p(2)] this]
    show "\<exists>t s'. rw_enter b w (resumed p (vk S)) = Inr (t, s')" by auto }
  { fix p b w assume p: "vph S p = VIdle" "runs p S" "exclusive b S"
    from rw_enter_step [OF vinv_cur [OF vinv_want [OF inv p(1,3,2), of w], of p], of p b w]
    show "\<exists>t s'. rw_enter b w ((vk S)\<lparr>cur := p\<rparr>) = Inr (t, s')" by auto }
  { fix q assume "runs q S"
    then have "runs q (S\<lparr>vk := (vk S)\<lparr>cur := q\<rparr>\<rparr>)" by (simp add: runs_def)
    from intr_step [OF vinv_cur [OF inv] this] show "\<exists>s'. virtio_disk_intr ((vk S)\<lparr>cur := q\<rparr>) = Inr s'" by auto }
  show "\<exists>s'. dev_complete i (vk S) = Some s'" if "i \<in> set (dbusy S)" for i using finish_step [OF inv that] by metis
qed

text \<open>A run: process 0 writes block 7 from buffer 0; the device takes and finishes the request, and an interrupt
  comes while process 1 runs.\<close>

definition ex_vp :: "procstate \<Rightarrow> proc" where
  "ex_vp st = \<lparr>pstate = st, chan = NoChan, killed = False, xstate = 0, pid = 1, parent = None, kstack = 0, sz = 0,
     pagetable = 0, trapframe = 0, pcontext = [], ofile = [], cwd = None, pname = [], priority = 0\<rparr>"

definition ex_vd :: vdisk where
  "ex_vd = \<lparr>vdesc = replicate 8 null_desc, avail_idx = 65535, avail_ring = replicate 8 0, dev_idx = 65535, used_ring = replicate 8 0,
     vfree = replicate 8 True, used_idx = 65535, info_b = replicate 8 None, info_status = replicate 8 0,
     vops = replicate 8 \<lparr>rq_type = 0, rq_reserved = 0, rq_sector = 0\<rparr>\<rparr>"

definition ex_vk :: vkernel where
  "ex_vk = \<lparr>mem = (\<lambda>_. 0), freelist = 0, kend = 0, etext = 0, trampoline = 0, procs = [ex_vp RUNNING, ex_vp RUNNABLE], nextpid = 2, initproc = None,
     forkret_addr = 0, halted = None, cur = 0, kver = 8,
     bufs_of = [\<lparr>bvalid = True, bdev = 1, blockno = 7, block_lk = initsleeplock, refcnt = 1, bprev = 0, bnext = 0, bdata = [1, 2, 3]\<rparr>],
     disk = (\<lambda>_. []), dwrites = [], log_start = 0, outstanding = 0, committing = False, log_dev = 0, lh_n = 0, lh_block = [],
     sb = \<lparr>magic = 0, sb_size = 0, nblocks = 0, ninodes = 0, nlog = 0, logstart = 0, inodestart = 0, bmapstart = 0\<rparr>,
     inodes = [], ftable = [], pipes = Map.empty, tx_busy = False, uart_thr = [],
     cons_of = \<lparr>cbuf = [], c_r = 0, c_w = 0, c_e = 0\<rparr>, ticks = 7, vd = ex_vd, buf_disk = [False]\<rparr>"

definition ex_v0 :: vsys where
  "ex_v0 = \<lparr>vk = ex_vk, vph = (\<lambda>_. VIdle), dseen = 65535, dbusy = []\<rparr>"

abbreviation ex_d1 :: vdisk where "ex_d1 \<equiv> submitted 0 True 7 0 1 2 (took [0, 1, 2] ex_vd)"

definition ex_s1 :: vkernel where
  "ex_s1 = ex_vk\<lparr>vd := ex_d1, buf_disk := [True], procs := [sleep_on (DataChan 0) (ex_vp RUNNING), ex_vp RUNNABLE]\<rparr>"

definition ex_s3 :: vkernel where
  "ex_s3 = (moved 0 True ex_s1)\<lparr>vd := completed 0 ex_d1\<rparr>"

definition ex_s4 :: vkernel where
  "ex_s4 = acked 0 (wakeup_procs 8 (Some 1) (DataChan 0) (procs ex_s1)) (ex_s3\<lparr>cur := 1\<rparr>)"

abbreviation ex_ph :: "nat \<Rightarrow> vphase" where "ex_ph \<equiv> (\<lambda>_. VIdle)(0 := VWait 0 True 0 1 2 [1, 2, 3])"

definition ex_v1 :: vsys where "ex_v1 = \<lparr>vk = ex_s1, vph = ex_ph, dseen = 65535, dbusy = []\<rparr>"
definition ex_v2 :: vsys where "ex_v2 = \<lparr>vk = ex_s1, vph = ex_ph, dseen = 65535 + 1, dbusy = [0]\<rparr>"
definition ex_v3 :: vsys where "ex_v3 = \<lparr>vk = ex_s3, vph = ex_ph, dseen = 65535 + 1, dbusy = []\<rparr>"
definition ex_v4 :: vsys where "ex_v4 = \<lparr>vk = ex_s4, vph = ex_ph, dseen = 65535 + 1, dbusy = []\<rparr>"

lemma ex_alloc3: "vfree (vd s) = replicate 8 True \<Longrightarrow> alloc3_desc s = Inr (Some [0, 1, 2], s\<lparr>vd := took [0, 1, 2] (vd s)\<rparr>)"
  by (simp add: alloc3_desc_def numeral_3_eq_3 eval_nat_numeral alloc_desc_def upd_vd_def took_def)

lemma ex_enter: "rw_enter 0 True (ex_vk\<lparr>cur := 0\<rparr>) = Inr (RwWait 0 1 2, ex_s1)"
proof -
  have "alloc3_desc ex_vk = Inr (Some [0, 1, 2], ex_vk\<lparr>vd := took [0, 1, 2] (vd ex_vk)\<rparr>)"
    by (rule ex_alloc3) (simp add: ex_vk_def ex_vd_def)
  moreover have "ex_vk\<lparr>cur := 0\<rparr> = ex_vk" by (simp add: ex_vk_def)
  ultimately show ?thesis
    by (simp add: rw_enter_def rw_poll_def rw_submit_eq upd_proc_def ex_s1_def) (simp add: ex_vk_def)
qed

lemma ex_complete: "dev_complete 0 ex_s1 = Some ex_s3"
proof -
  have "formatted (vd ex_s1) (bufs_of ex_s1) 0 True 0 1 2"
    by (simp add: formatted_def ex_s1_def submitted_def ex_vk_def ex_vd_def)
  from dev_complete_formatted [OF this] show ?thesis
    by (simp add: ex_s3_def ex_s1_def NUM_def ex_vk_def)
qed

lemma ex_intr: "virtio_disk_intr (ex_s3\<lparr>cur := 1\<rparr>) = Inr ex_s4"
proof -
  let ?s = "ex_s3\<lparr>cur := 1\<rparr>"
  have d: "used_idx (vd ?s) = 65535" "dev_idx (vd ?s) = 0" "used_ring (vd ?s) ! 7 = 0" "info_status (vd ?s) ! 0 = 0" "info_b (vd ?s) ! 0 = Some 0"
    by (simp_all add: ex_s3_def completed_def submitted_def ex_vd_def NUM_def)
  have k: "kver ?s = 8" "procs ?s = procs ex_s1" by (simp_all add: ex_s3_def moved_def disk_write_def Let_def ex_s1_def ex_vk_def)
  have "virtio_disk_intr ?s = virtio_disk_intr ex_s4"
    using d k intr_acked [of ?s 0] by (subst virtio_disk_intr.simps) (simp add: Let_def NUM_def ex_s4_def)
  moreover have "used_idx (vd ex_s4) = dev_idx (vd ex_s4)" using d by (simp add: ex_s4_def acked_def)
  ultimately show ?thesis by (simp add: virtio_disk_intr.simps [of ex_s4])
qed

lemma ex_v_run: "vboot ex_v0" "vreach ex_v0 ex_v1" "vreach ex_v0 ex_v4"
proof -
  show "vboot ex_v0"
    by (simp add: vboot_def ex_v0_def ex_vk_def ex_vd_def NUM_def)
  have e: "exclusive 0 ex_v0" by (simp add: exclusive_def ex_v0_def ex_vk_def)
  have r: "runs 0 ex_v0" "vph ex_v0 0 = VIdle" by (simp_all add: runs_def ex_v0_def ex_vk_def ex_vp_def)
  have "rw_enter 0 True ((vk ex_v0)\<lparr>cur := 0\<rparr>) = Inr (RwWait 0 1 2, ex_s1)" using ex_enter by (simp add: ex_v0_def)
  from vstep.enter [OF r e this] have "vstep ex_v0 ex_v1"
    by (simp add: ex_v1_def ex_v0_def target_block_def) (simp add: ex_vk_def)
  with vreach.start show 1: "vreach ex_v0 ex_v1" by (rule vreach.step)
  have "dseen ex_v1 \<noteq> avail_idx (vd (vk ex_v1))" "avail_ring (vd (vk ex_v1)) ! 7 = 0"
    by (simp_all add: ex_v1_def ex_s1_def submitted_def ex_vd_def NUM_def)
  then have "vstep ex_v1 ex_v2" using vstep.fetch [of ex_v1] by (simp add: ex_v1_def ex_v2_def NUM_def)
  with 1 have 2: "vreach ex_v0 ex_v2" by (rule vreach.step)
  have "vstep ex_v2 ex_v3" using vstep.finish [of 0 ex_v2 ex_s3] ex_complete by (simp add: ex_v2_def ex_v3_def)
  with 2 have 3: "vreach ex_v0 ex_v3" by (rule vreach.step)
  have "procs ex_s3 = procs ex_s1" by (simp add: ex_s3_def)
  then have "runs 1 ex_v3" by (simp add: runs_def ex_v3_def ex_s1_def ex_vp_def)
  from vstep.intr [OF this] have "vstep ex_v3 ex_v4" using ex_intr by (simp add: ex_v3_def ex_v4_def)
  with 3 show "vreach ex_v0 ex_v4" by (rule vreach.step)
qed

theorem virtio_transfers_witness:
  "disk (vk ex_v4) 7 = [1, 2, 3] \<and> (\<exists>s'. rw_poll 0 0 1 2 (resumed 0 (vk ex_v4)) = Inr (RwDone, s'))"
proof -
  have p: "vph ex_v4 0 = VWait 0 True 0 1 2 [1, 2, 3]" "\<not> buf_disk (vk ex_v4) ! 0" "blockno (buf_at (vk ex_v4) 0) = 7"
    by (simp_all add: ex_v4_def ex_s4_def acked_def ex_s3_def moved_def disk_write_def Let_def ex_s1_def ex_vk_def)
  have "runs 0 ex_v4"
    by (simp add: runs_def ex_v4_def ex_s4_def acked_def ex_s1_def wakeup_procs_def wake_proc_def sleep_on_def ex_vp_def Let_def)
  with virtio_transfers [OF ex_v_run(1,3)] p show ?thesis by metis
qed

text \<open>C24. Nobody waits for nothing in the disk driver. A process that sleeps for the device has its request with
  the device or in one of the rings; a process that sleeps for descriptors finds fewer than three free ones, all
  others being in use by requests (three each, so that there are at most two requests); and
  while some process is inside the driver, a process there is awake, the device has a request to take or to
  finish, or an interrupt has something to report.\<close>

theorem virtio_no_lost_wakeup:
  assumes "vboot S0" "vreach S0 S"
  shows "nfree (vd (vk S)) + 3 * card (waiting S) = NUM
     \<and> (\<forall>p b w i0 i1 i2 v. vph S p = VWait b w i0 i1 i2 v \<longrightarrow> pstate (procs (vk S) ! p) = SLEEPING \<longrightarrow>
          i0 \<in> set (queued (vd (vk S)) (dseen S) @ dbusy S @ reported (vd (vk S))))
     \<and> (\<forall>p b w. vph S p = VWant b w \<longrightarrow> pstate (procs (vk S) ! p) = SLEEPING \<longrightarrow>
          nfree (vd (vk S)) < 3 \<and> waiting S \<noteq> {})
     \<and> ((\<exists>p. vph S p \<noteq> VIdle) \<longrightarrow>
          (\<exists>p. vph S p \<noteq> VIdle \<and> runs p S) \<or> dseen S \<noteq> avail_idx (vd (vk S)) \<or> dbusy S \<noteq> []
            \<or> used_idx (vd (vk S)) \<noteq> dev_idx (vd (vk S)))"
proof -
  have inv: "vinv S" "inside S" using vinv_reach [OF assms(2,1)] by simp_all
  note I = vinvD [OF inv(1)]
  let ?d = "vd (vk S)"
  have cons: "nfree ?d + 3 * card (waiting S) = NUM" using descriptors_conserved(2) [OF I(1)] by (simp add: waiting_def)
  have ok: "asleep_ok ?d (buf_disk (vk S)) (vph S p) (procs (vk S) ! p)"
    if "vph S p \<noteq> VIdle" "pstate (procs (vk S) ! p) = SLEEPING" for p
    using I(6) inv(2) that unfolding sleepers_def inside_def by blast
  have wait: "i0 \<in> set (queued ?d (dseen S) @ dbusy S @ reported ?d)"
    if "vph S p = VWait b w i0 i1 i2 v" "pstate (procs (vk S) ! p) = SLEEPING" for p b w i0 i1 i2 v
  proof -
    have "vph S p = VWait b w i0 i1 i2 v \<and> buf_disk (vk S) ! b" using ok [of p] that by simp
    then show ?thesis using flight_parts(3) [OF I(3), of i0] by blast
  qed
  have want: "nfree ?d < 3 \<and> waiting S \<noteq> {}"
    if "vph S p = VWant b w" "pstate (procs (vk S) ! p) = SLEEPING" for p b w
    using ok [of p] that cons by (auto simp: NUM_def)
  have prog: "(\<exists>p. vph S p \<noteq> VIdle \<and> runs p S) \<or> dseen S \<noteq> avail_idx ?d \<or> dbusy S \<noteq> [] \<or> used_idx ?d \<noteq> dev_idx ?d"
    if "vph S p \<noteq> VIdle" for p
  proof (rule ccontr)
    assume no: "\<not> ?thesis"
    have asleep: "pstate (procs (vk S) ! q) = SLEEPING" if "vph S q \<noteq> VIdle" for q
      using inv(2) no that unfolding inside_def runs_def by blast
    have "waiting S \<noteq> {}"
    proof (cases "vph S p")
      case (VWant b w)
      then show ?thesis using want [OF VWant] asleep [OF that] by simp
    next
      case (VWait b w i0 i1 i2 v)
      then have "p \<in> waiting S" by (simp add: waiting_def)
      then show ?thesis by blast
    qed (use that in simp)
    then obtain q where "chain (vph S q) \<noteq> []" by (auto simp: waiting_def)
    then obtain b w i0 i1 i2 v where q: "vph S q = VWait b w i0 i1 i2 v" by (cases "vph S q") auto
    have "queued ?d (dseen S) @ dbusy S @ reported ?d = []" using no by (simp add: queued_def reported_def wring_Nil)
    then show False using wait [OF q] asleep [of q] q by simp
  qed
  show ?thesis using cons wait want prog by blast
qed

theorem virtio_no_lost_wakeup_witness:
  "pstate (procs (vk ex_v1) ! 0) = SLEEPING \<and> 0 \<in> set (queued (vd (vk ex_v1)) (dseen ex_v1) @ dbusy ex_v1 @ reported (vd (vk ex_v1)))"
proof -
  have "vph ex_v1 0 = VWait 0 True 0 1 2 [1, 2, 3]" "pstate (procs (vk ex_v1) ! 0) = SLEEPING"
    by (simp_all add: ex_v1_def ex_s1_def sleep_on_def)
  with virtio_no_lost_wakeup [OF ex_v_run(1,2)] show ?thesis by metis
qed

end
