(* ===== verification/Trap.thy ===== *)
theory Trap
  imports Virtio
begin

text \<open>
  Traps (\<^verbatim>\<open>kernel/trap.c\<close>), the interrupt controller (\<^verbatim>\<open>kernel/plic.c\<close>), \<^verbatim>\<open>forkret\<close> of \<^verbatim>\<open>kernel/proc.c\<close>, and the
  supervisor registers of \<^verbatim>\<open>kernel/riscv.h\<close> they use. What the devices and the clock answer is an
  argument. A trap that gives up the CPU or ends its process stops there.
\<close>

unbundle bit_operations_syntax

section \<open>Registers\<close>

definition SSTATUS_SPP :: u64 where "SSTATUS_SPP = push_bit 8 1"
definition SSTATUS_SPIE :: u64 where "SSTATUS_SPIE = push_bit 5 1"
definition SSTATUS_SIE :: u64 where "SSTATUS_SIE = push_bit 1 1"

definition MAKE_SATP :: "u64 \<Rightarrow> u64" where
  "MAKE_SATP pt = push_bit 60 8 OR drop_bit 12 pt"

text \<open>The registers of the CPU that takes the trap, the kernel's page table, the stores to the interrupt controller's
  registers so far, and the flag \<^verbatim>\<open>first\<close> of \<^verbatim>\<open>forkret\<close>.\<close>

record hkernel = vkernel +
  sstatus :: u64
  sepc :: u64
  scause :: u64
  stval :: u64
  stvec :: u64
  satp :: u64
  hartid :: u64
  scounteren :: u64
  stimecmp :: u64
  kernel_pagetable :: u64
  plic_stores :: "(u64 \<times> u32) list"
  first_run :: bool

text \<open>Addresses the linker assigns.\<close>

record ksyms =
  a_kernelvec :: u64
  a_usertrap :: u64
  a_uservec :: u64
  a_userret :: u64
  a_init :: u64

definition w_sstatus :: "u64 \<Rightarrow> 'a hkernel_scheme \<Rightarrow> 'a hkernel_scheme" where
  [simp]: "w_sstatus x s = s\<lparr>sstatus := x\<rparr>"

definition w_sepc :: "u64 \<Rightarrow> 'a hkernel_scheme \<Rightarrow> 'a hkernel_scheme" where
  [simp]: "w_sepc x s = s\<lparr>sepc := x\<rparr>"

definition w_stvec :: "u64 \<Rightarrow> 'a hkernel_scheme \<Rightarrow> 'a hkernel_scheme" where
  [simp]: "w_stvec x s = s\<lparr>stvec := x\<rparr>"

definition w_satp :: "u64 \<Rightarrow> 'a hkernel_scheme \<Rightarrow> 'a hkernel_scheme" where
  [simp]: "w_satp x s = s\<lparr>satp := x\<rparr>"

definition w_scounteren :: "u64 \<Rightarrow> 'a hkernel_scheme \<Rightarrow> 'a hkernel_scheme" where
  [simp]: "w_scounteren x s = s\<lparr>scounteren := x\<rparr>"

definition w_stimecmp :: "u64 \<Rightarrow> 'a hkernel_scheme \<Rightarrow> 'a hkernel_scheme" where
  [simp]: "w_stimecmp x s = s\<lparr>stimecmp := x\<rparr>"

definition intr_on :: "'a hkernel_scheme \<Rightarrow> 'a hkernel_scheme" where
  "intr_on s = w_sstatus (sstatus s OR SSTATUS_SIE) s"

definition intr_off :: "'a hkernel_scheme \<Rightarrow> 'a hkernel_scheme" where
  "intr_off s = w_sstatus (sstatus s AND NOT SSTATUS_SIE) s"

definition intr_get :: "'a hkernel_scheme \<Rightarrow> bool" where
  "intr_get s \<longleftrightarrow> sstatus s AND SSTATUS_SIE \<noteq> 0"

definition trapinithart :: "ksyms \<Rightarrow> 'a hkernel_scheme \<Rightarrow> 'a hkernel_scheme" where
  "trapinithart k s = w_scounteren 1 (w_stvec (a_kernelvec k) s)"

section \<open>Interrupts\<close>

definition UART0_IRQ :: int where "UART0_IRQ = 10"
definition VIRTIO0_IRQ :: int where "VIRTIO0_IRQ = 1"

text \<open>What the devices answer: the number the interrupt controller hands out, the transmitter's status and
  the characters of the serial port, and the time.\<close>

record dev_in =
  in_irq :: u32
  in_tx_idle :: bool
  in_chars :: "u8 list"
  in_time :: u64

definition plic_claim :: "dev_in \<Rightarrow> int" where
  "plic_claim e = sint (in_irq e)"

definition PLIC_SCLAIM :: "u64 \<Rightarrow> u64" where "PLIC_SCLAIM hart = PLIC + 0x201004 + hart * 0x2000"

definition plic_complete :: "int \<Rightarrow> 'a hkernel_scheme \<Rightarrow> 'a hkernel_scheme" where
  "plic_complete irq s = s\<lparr>plic_stores := plic_stores s @ [(PLIC_SCLAIM (hartid s), word_of_int irq)]\<rparr>"

definition PLIC_SENABLE :: "u64 \<Rightarrow> u64" where "PLIC_SENABLE hart = PLIC + 0x2080 + hart * 0x100"
definition PLIC_SPRIORITY :: "u64 \<Rightarrow> u64" where "PLIC_SPRIORITY hart = PLIC + 0x201000 + hart * 0x2000"

definition plicinit :: "'a hkernel_scheme \<Rightarrow> 'a hkernel_scheme" where
  "plicinit s = s\<lparr>plic_stores := plic_stores s @
     [(PLIC + word_of_int UART0_IRQ * 4, 1), (PLIC + word_of_int VIRTIO0_IRQ * 4, 1)]\<rparr>"

definition plicinithart :: "'a hkernel_scheme \<Rightarrow> 'a hkernel_scheme" where
  "plicinithart s = s\<lparr>plic_stores := plic_stores s @
     [(PLIC_SENABLE (hartid s), push_bit (nat UART0_IRQ) 1 OR push_bit (nat VIRTIO0_IRQ) 1), (PLIC_SPRIORITY (hartid s), 0)]\<rparr>"

text \<open>\<^verbatim>\<open>clockintr\<close>: CPU 0 counts the ticks, and every CPU asks for its next interrupt.\<close>

definition hart_clockintr :: "u64 \<Rightarrow> 'a hkernel_scheme \<Rightarrow> 'a hkernel_scheme" where
  "hart_clockintr now s = w_stimecmp (now + 1000000) (if hartid s = 0 then clockintr s else s)"

definition devintr :: "dev_in \<Rightarrow> 'a hkernel_scheme \<Rightarrow> (int \<times> 'a hkernel_scheme) kres" where
  "devintr e s =
     (if scause s = 0x8000000000000009 then
        let irq = plic_claim e
        in rbind (if irq = UART0_IRQ then uartintr (in_tx_idle e) (in_chars e) s
                  else if irq = VIRTIO0_IRQ then virtio_disk_intr s
                  else if irq \<noteq> 0 then printf (''unexpected interrupt irq=%d'' @ [CHR 0x0A]) [VNum (word_of_int irq)] s
                  else Inr s) (\<lambda>s.
           Inr (1, if irq \<noteq> 0 then plic_complete irq s else s))
      else if scause s = 0x8000000000000005 then Inr (2, hart_clockintr (in_time e) s)
      else Inr (0, s))"

section \<open>Traps from user space\<close>

text \<open>How a trap handler ends: back to user space with the page table to load, by exit, or in the scheduler.\<close>

datatype trap_end = ToUser u64 | Exited | Yielded

definition TF_kernel_satp :: nat where "TF_kernel_satp = 0"
definition TF_kernel_sp :: nat where "TF_kernel_sp = 8"
definition TF_kernel_trap :: nat where "TF_kernel_trap = 16"
definition TF_epc :: nat where "TF_epc = 24"
definition TF_kernel_hartid :: nat where "TF_kernel_hartid = 32"

definition tf_load :: "nat \<Rightarrow> 'a ckernel_scheme \<Rightarrow> u64" where
  "tf_load k s = load64 (mem s) (trapframe (me s) + of_nat k)"

definition prepare_return :: "ksyms \<Rightarrow> 'a hkernel_scheme \<Rightarrow> 'a hkernel_scheme" where
  "prepare_return k s =
     (let s = intr_off s;
          s = w_stvec (TRAMPOLINE + (a_uservec k - trampoline s)) s;
          s = tf_store TF_kernel_satp (satp s) s;
          s = tf_store TF_kernel_sp (kstack (me s) + PGSZ) s;
          s = tf_store TF_kernel_trap (a_usertrap k) s;
          s = tf_store TF_kernel_hartid (hartid s) s;
          x = sstatus s;
          x = x AND NOT SSTATUS_SPP;
          x = x OR SSTATUS_SPIE;
          s = w_sstatus x s
      in w_sepc (tf_load TF_epc s) s)"

text \<open>The end of \<^verbatim>\<open>usertrap\<close> and, after a \<^verbatim>\<open>yield\<close>, what is left of it.\<close>

definition trap_return :: "ksyms \<Rightarrow> 'a hkernel_scheme \<Rightarrow> trap_end \<times> 'a hkernel_scheme" where
  "trap_return k s = (let s = prepare_return k s in (ToUser (MAKE_SATP (pagetable (me s))), s))"

definition trap_exit :: "'a hkernel_scheme \<Rightarrow> (trap_end \<times> 'a hkernel_scheme) kres" where
  "trap_exit s = rbind (kexit (- 1) s) (\<lambda>s. Inr (Exited, s))"

text \<open>\<^verbatim>\<open>usertrap\<close> after the trap was handled; \<open>which_dev\<close> is 2 for a timer interrupt.\<close>

definition usertrap_end :: "ksyms \<Rightarrow> int \<Rightarrow> 'a hkernel_scheme \<Rightarrow> (trap_end \<times> 'a hkernel_scheme) kres" where
  "usertrap_end k which_dev s =
     (if is_killed (cur s) s then trap_exit s
      else if which_dev = 2 then Inr (Yielded, upd_proc (cur s) (yield_proc (kver s)) s)
      else Inr (trap_return k s))"

definition usertrap_syscall :: "ksyms \<Rightarrow> u8 list \<Rightarrow> 'a hkernel_scheme \<Rightarrow> (trap_end \<times> 'a hkernel_scheme) kres" where
  "usertrap_syscall k pad s =
     (if is_killed (cur s) s then trap_exit s
      else
        let s = tf_store TF_epc (tf_load TF_epc s + 4) s
        in rbind (syscall pad (intr_on s)) (\<lambda>s.
           if pstate (me s) = ZOMBIE then Inr (Exited, s) else usertrap_end k 0 s))"

definition usertrap_fault :: "'a hkernel_scheme \<Rightarrow> 'a hkernel_scheme kres" where
  "usertrap_fault s =
     rbind (if scause s = 15 \<or> scause s = 13 then vmfault (sz (me s)) (pagetable (me s)) (pagetable (me s)) (stval s) s
            else Inr (0, s)) (\<lambda>(r, s).
     if r \<noteq> 0 then Inr s
     else
       rbind (printf (''usertrap(): unexpected scause 0x%lx pid=%d'' @ [CHR 0x0A]) [VNum (scause s), VNum (word_of_int (pid (me s)))] s) (\<lambda>s.
       rbind (printf (''            sepc=0x%lx stval=0x%lx'' @ [CHR 0x0A]) [VNum (sepc s), VNum (stval s)] s) (\<lambda>s.
       Inr (setkilled (cur s) s))))"

definition usertrap :: "ksyms \<Rightarrow> u8 list \<Rightarrow> dev_in \<Rightarrow> 'a hkernel_scheme \<Rightarrow> (trap_end \<times> 'a hkernel_scheme) kres" where
  "usertrap k pad e s =
     (if sstatus s AND SSTATUS_SPP \<noteq> 0 then Inl (Panic ''usertrap: not from user mode'')
      else
        let s = w_stvec (a_kernelvec k) s;
            s = tf_store TF_epc (sepc s) s
        in if scause s = 8 then usertrap_syscall k pad s
           else rbind (devintr e s) (\<lambda>(which_dev, s).
             if which_dev \<noteq> 0 then usertrap_end k which_dev s
             else rbind (usertrap_fault s) (usertrap_end k 0)))"

section \<open>Traps from the kernel\<close>

text \<open>\<^verbatim>\<open>myproc()\<close> is null when \<open>cur\<close> is not an index of the process table. A timer interrupt gives up the CPU of a
  process; the registers are written back when it runs again, so that \<open>kerneltrap_end\<close> follows for the same
  values.\<close>

definition kerneltrap_end :: "u64 \<Rightarrow> u64 \<Rightarrow> 'a hkernel_scheme \<Rightarrow> 'a hkernel_scheme" where
  "kerneltrap_end epc st s = w_sstatus st (w_sepc epc s)"

definition kerneltrap :: "dev_in \<Rightarrow> 'a hkernel_scheme \<Rightarrow> (bool \<times> 'a hkernel_scheme) kres" where
  "kerneltrap e s =
     (if sstatus s AND SSTATUS_SPP = 0 then Inl (Panic ''kerneltrap: not from supervisor mode'')
      else if intr_get s then Inl (Panic ''kerneltrap: interrupts enabled'')
      else rbind (devintr e s) (\<lambda>(which_dev, s').
        if which_dev = 0 then
          rbind (printf (''scause=0x%lx sepc=0x%lx stval=0x%lx'' @ [CHR 0x0A]) [VNum (scause s), VNum (sepc s'), VNum (stval s')] s')
            (\<lambda>_. Inl (Panic ''kerneltrap''))
        else if which_dev = 2 \<and> cur s' < NPROC then Inr (True, upd_proc (cur s') (yield_proc (kver s')) s')
        else Inr (False, kerneltrap_end (sepc s) (sstatus s) s')))"

section \<open>The first run of a process\<close>

definition init_path :: "u8 list" where "init_path = cstr ''/init''"

definition forkret :: "ksyms \<Rightarrow> 'a hkernel_scheme \<Rightarrow> (u64 \<times> u64 \<times> 'a hkernel_scheme) kres" where
  "forkret k s =
     rbind (if first_run s then
              rbind (fsinit (uint ROOTDEV) s) (\<lambda>s.
              rbind (kexec init_path [a_init k] (s\<lparr>first_run := False\<rparr>)) (\<lambda>(r, s).
              let s = tf_store 112 (word_of_int r) s
              in if tf_load 112 s = - 1 then Inl (Panic ''exec'') else Inr s))
            else Inr s) (\<lambda>s.
     let s = prepare_return k s
     in Inr (TRAMPOLINE + (a_userret k - trampoline s), MAKE_SATP (pagetable (me s)), s))"

end
