(* ===== verification/Trap_Props.thy ===== *)
theory Trap_Props
  imports Trap Printf_Props
begin

text \<open>
  What the handlers of interrupts leave alone, and the state in which a trap handler hands the CPU back to a user
  program: the conditions of \<^verbatim>\<open>prepare_return\<close> that the trampoline and the next trap rely on.
\<close>

unbundle bit_operations_syntax

section \<open>What an interrupt leaves alone\<close>

definition same_regs :: "'a hkernel_scheme \<Rightarrow> 'a hkernel_scheme \<Rightarrow> bool" where
  "same_regs s s' \<longleftrightarrow> sstatus s' = sstatus s \<and> sepc s' = sepc s \<and> scause s' = scause s \<and> stval s' = stval s
     \<and> stvec s' = stvec s \<and> satp s' = satp s \<and> hartid s' = hartid s"

definition intr_frame :: "'a hkernel_scheme \<Rightarrow> 'a hkernel_scheme \<Rightarrow> bool" where
  "intr_frame s s' \<longleftrightarrow> same_regs s s' \<and> mem s' = mem s \<and> cur s' = cur s \<and> trampoline s' = trampoline s
     \<and> length (procs s') = length (procs s) \<and> (cur s < length (procs s) \<longrightarrow> procs s' ! cur s = procs s ! cur s)"

lemma intr_frame_refl [simp, intro]: "intr_frame s s"
  by (simp add: intr_frame_def same_regs_def)

lemma intr_frame_trans [trans]: "intr_frame s s' \<Longrightarrow> intr_frame s' s'' \<Longrightarrow> intr_frame s s''"
  by (auto simp: intr_frame_def same_regs_def)

lemma intr_frame_cur: "intr_frame s s' \<Longrightarrow> cur s' = cur s"
  by (simp add: intr_frame_def)

lemma intr_frame_wakeup [intro]: "intr_frame s s' \<Longrightarrow> i = cur s \<Longrightarrow> intr_frame s (wakeup ver (Some i) c s')"
  by (auto simp: intr_frame_def same_regs_def wakeup_def wakeup_procs_def)

lemma intr_frame_emit [intro]: "intr_frame s s' \<Longrightarrow> intr_frame s (emit out s')"
  by (simp add: intr_frame_def same_regs_def emit_def)

lemma intr_frame_consputc [intro]: "intr_frame s s' \<Longrightarrow> intr_frame s (consputc c s')"
  by (simp add: consputc_emit intr_frame_emit)

lemma intr_frame_cons_upd [intro]: "intr_frame s s' \<Longrightarrow> intr_frame s (cons_upd f s')"
  by (simp add: intr_frame_def same_regs_def cons_upd_def)

lemma intr_frame_upd_vd [intro]: "intr_frame s s' \<Longrightarrow> intr_frame s (upd_vd f s')"
  by (simp add: intr_frame_def same_regs_def upd_vd_def)

lemma intr_frame_fields [intro]:
  "intr_frame s s' \<Longrightarrow> intr_frame s (s'\<lparr>tx_busy := b\<rparr>)"
  "intr_frame s s' \<Longrightarrow> intr_frame s (s'\<lparr>buf_disk := d\<rparr>)"
  "intr_frame s s' \<Longrightarrow> intr_frame s (s'\<lparr>ticks := t\<rparr>)"
  "intr_frame s s' \<Longrightarrow> intr_frame s (s'\<lparr>stimecmp := c\<rparr>)"
  "intr_frame s s' \<Longrightarrow> intr_frame s (s'\<lparr>plic_stores := p\<rparr>)"
  by (simp_all add: intr_frame_def same_regs_def)

lemma cur_output [simp]: "cur (emit out s) = cur s" "cur (consputc c s) = cur s" "cur (cons_upd f t) = cur t"
  by (simp_all add: emit_def consputc_emit cons_upd_def)

lemma kill_line_frame: "intr_frame s0 s \<Longrightarrow> kill_line k s = Inr s' \<Longrightarrow> intr_frame s0 s'"
proof (induction k arbitrary: s)
  case (Suc k)
  from Suc.prems show ?case by (auto simp: Let_def split: if_splits intro: Suc.IH [rotated])
qed simp

lemma consoleintr_frame:
  assumes "intr_frame s0 s" "consoleintr c s = Inr s'" shows "intr_frame s0 s'"
proof -
  obtain out where pd: "procdump s = Inr (emit out s)" using procdump_emits [of s] by blast
  have cs: "cur s = cur s0" using assms(1) by (rule intr_frame_cur)
  show ?thesis using assms unfolding consoleintr_def pd Let_def
    by (auto simp: cs simp del: kill_line.simps split: if_splits intro: kill_line_frame)
qed

lemma uart_input_frame: "intr_frame s0 s \<Longrightarrow> uart_input input s = Inr s' \<Longrightarrow> intr_frame s0 s'"
proof (induction input s rule: uart_input.induct)
  case (1 input s)
  from "1.prems" show ?case
    by (subst (asm) uart_input.simps)
      (auto simp: rbind_eq_Inr split: prod.splits if_splits intro: "1.IH" consoleintr_frame)
qed

lemma virtio_intr_frame: "intr_frame s0 s \<Longrightarrow> virtio_disk_intr s = Inr s' \<Longrightarrow> intr_frame s0 s'"
proof (induction s rule: virtio_disk_intr.induct)
  case (1 s)
  note cs = intr_frame_cur [OF "1.prems"(1)]
  from "1.prems" show ?case
    by (subst (asm) virtio_disk_intr.simps)
      (auto simp: Let_def split: option.splits if_splits intro: "1.IH" cs)
qed

lemma devintr_frame:
  fixes s :: "'a hkernel_scheme"
  assumes "devintr e s = Inr (w, s')"
  shows "intr_frame s s'"
proof -
  have k: "fmt_kinds (cstr (''unexpected interrupt irq=%d'' @ [CHR 0x0A])) = [True]" by code_simp
  have pr: "intr_frame s t" if "printf (''unexpected interrupt irq=%d'' @ [CHR 0x0A]) [VNum x] s = Inr t" for x t
  proof -
    have "map va_is_num [VNum x] = fmt_kinds (cstr (''unexpected interrupt irq=%d'' @ [CHR 0x0A])) @ []"
      unfolding k by (simp add: va_is_num_def)
    from printf_emits [OF this] obtain out where
      "\<forall>s :: 'a hkernel_scheme. printf (''unexpected interrupt irq=%d'' @ [CHR 0x0A]) [VNum x] s = Inr (emit out s)" ..
    with that show ?thesis by auto
  qed
  have ua: "intr_frame s t" if "uartintr a b s = Inr t" for a b t
    using that unfolding uartintr_def by (rule uart_input_frame [rotated]) auto
  have vi: "intr_frame s t" if "virtio_disk_intr s = Inr t" for t
    using that by (rule virtio_intr_frame [rotated]) simp
  show ?thesis using assms
    by (auto simp: devintr_def rbind_eq_Inr Let_def hart_clockintr_def clockintr_def plic_complete_def
        split: if_splits dest!: pr [simplified] ua vi)
qed

lemma devintr_which:
  "devintr e s = Inr (w, s') \<Longrightarrow> w = (if scause s = 0x8000000000000009 then 1 else if scause s = 0x8000000000000005 then 2 else 0)"
  by (auto simp: devintr_def rbind_eq_Inr Let_def split: if_splits)

section \<open>The trap frame\<close>

lemma load64_store64_off:
  assumes "a + 8 \<le> b \<or> b + 8 \<le> a" "a < 2 ^ 32" "b < 2 ^ 32"
  shows "load64 (store64 m (p + of_nat a) v) (p + of_nat b) = load64 m (p + of_nat b)"
proof (rule load64_store64_other)
  fix j :: nat assume j: "j < 8"
  have d: "p + of_nat b + of_nat j - (p + of_nat a) = of_nat (b + j) - (of_nat a :: u64)" by simp
  have u: "unat (of_nat (b + j) :: u64) = b + j" "unat (of_nat a :: u64) = a"
    using assms j by (simp_all add: unat_of_nat del: of_nat_add)
  show "\<not> in_range (p + of_nat b + of_nat j) (p + of_nat a) 8"
    unfolding in_range_def d unat_sub_if' u using assms j by auto
qed

lemma tf_store_regs [simp]:
  "sstatus (tf_store k v s) = sstatus s" "sepc (tf_store k v s) = sepc s" "scause (tf_store k v s) = scause s"
  "stval (tf_store k v s) = stval s" "stvec (tf_store k v s) = stvec s" "satp (tf_store k v s) = satp s"
  "hartid (tf_store k v s) = hartid s" "trampoline (tf_store k v s) = trampoline s" "procs (tf_store k v s) = procs s"
  "cur (tf_store k v s) = cur s"
  for s :: "'a hkernel_scheme"
  by (simp_all add: tf_store_def)

lemma tf_load_same [simp]: "tf_load k (tf_store k v s) = v"
  by (simp add: tf_load_def tf_store_def load64_store64_same)

lemma tf_load_other:
  "j + 8 \<le> k \<or> k + 8 \<le> j \<Longrightarrow> j < 2 ^ 32 \<Longrightarrow> k < 2 ^ 32 \<Longrightarrow> tf_load k (tf_store j v s) = tf_load k s"
  by (simp add: tf_load_def tf_store_def load64_store64_off)

lemma tf_load_regs [simp]:
  "tf_load k (s\<lparr>sstatus := a\<rparr>) = tf_load k s" "tf_load k (s\<lparr>sepc := b\<rparr>) = tf_load k s" "tf_load k (s\<lparr>stvec := c\<rparr>) = tf_load k s"
  for s :: "'a hkernel_scheme"
  by (simp_all add: tf_load_def)

section \<open>Ready for user space\<close>

text \<open>What the trampoline's return and the next trap rely on.\<close>

definition user_ready :: "ksyms \<Rightarrow> u64 \<Rightarrow> 'a hkernel_scheme \<Rightarrow> bool" where
  "user_ready k a s \<longleftrightarrow> sstatus s AND SSTATUS_SPP = 0 \<and> sstatus s AND SSTATUS_SPIE \<noteq> 0 \<and> \<not> intr_get s
     \<and> stvec s = TRAMPOLINE + (a_uservec k - trampoline s) \<and> sepc s = tf_load TF_epc s
     \<and> tf_load TF_kernel_satp s = satp s \<and> tf_load TF_kernel_sp s = kstack (me s) + PGSZ
     \<and> tf_load TF_kernel_trap s = a_usertrap k \<and> tf_load TF_kernel_hartid s = hartid s
     \<and> a = MAKE_SATP (pagetable (me s))"

lemma sstatus_exp: "SSTATUS_SPP = 2 ^ 8" "SSTATUS_SPIE = 2 ^ 5" "SSTATUS_SIE = 2 ^ 1"
  by (simp_all add: SSTATUS_SPP_def SSTATUS_SPIE_def SSTATUS_SIE_def)

lemma SSTATUS_SPIE_nonzero [simp]: "SSTATUS_SPIE \<noteq> 0"
  by (simp add: sstatus_exp)

lemma sstatus_bits:
  "bit SSTATUS_SPP n \<longleftrightarrow> n = 8" "bit SSTATUS_SPIE n \<longleftrightarrow> n = 5" "bit SSTATUS_SIE n \<longleftrightarrow> n = 1"
  unfolding sstatus_exp bit_exp_iff by auto

lemma flag_and:
  "x AND SSTATUS_SPP = 0 \<longleftrightarrow> \<not> bit x 8" "x AND SSTATUS_SPIE = 0 \<longleftrightarrow> \<not> bit x 5" "x AND SSTATUS_SIE = 0 \<longleftrightarrow> \<not> bit x 1"
  unfolding sstatus_exp and_exp_eq_0_iff_not_bit by simp_all

lemma flags_set:
  fixes v :: u64
  defines "x \<equiv> (v AND NOT SSTATUS_SIE) AND NOT SSTATUS_SPP OR SSTATUS_SPIE"
  shows "x AND SSTATUS_SPP = 0" "x AND SSTATUS_SPIE \<noteq> 0" "x AND SSTATUS_SIE = 0"
  unfolding x_def flag_and bit_or_iff bit_and_iff bit_not_iff sstatus_bits by simp_all

lemmas tf_offsets = TF_kernel_satp_def TF_kernel_sp_def TF_kernel_trap_def TF_epc_def TF_kernel_hartid_def

lemma prepare_return_ready: "user_ready k (MAKE_SATP (pagetable (me (prepare_return k s)))) (prepare_return k s)"
  by (simp add: user_ready_def prepare_return_def Let_def intr_off_def intr_get_def flags_set tf_load_other tf_offsets)

lemma prepare_return_frame:
  "cur (prepare_return k s) = cur s" "procs (prepare_return k s) = procs s" "trampoline (prepare_return k s) = trampoline s"
  "trapframe (me (prepare_return k s)) = trapframe (me s)"
  by (simp_all add: prepare_return_def Let_def intr_off_def)

text \<open>It writes to the trap frame's first 40 bytes only, and there not to the saved program counter.\<close>

lemma tf_store_elsewhere:
  "\<not> in_range x (trapframe (me s)) 40 \<Longrightarrow> k + 8 \<le> 40 \<Longrightarrow> mem (tf_store k v s) x = mem s x"
proof -
  assume x: "\<not> in_range x (trapframe (me s)) 40" and k: "k + 8 \<le> 40"
  have k': "unat (of_nat k :: u64) = k" using k by (simp add: unat_of_nat)
  have e: "x - (trapframe (me s) + of_nat k) = (x - trapframe (me s)) - of_nat k" by simp
  have "\<not> in_range x (trapframe (me s) + of_nat k) 8"
    using x k unfolding in_range_def e unat_sub_if' k' by auto
  then show ?thesis by (simp add: tf_store_def store64_other)
qed

lemma prepare_return_mem:
  "\<not> in_range x (trapframe (me s)) 40 \<Longrightarrow> mem (prepare_return k s) x = mem s x"
  by (simp add: prepare_return_def Let_def intr_off_def tf_store_elsewhere tf_offsets)

lemma prepare_return_epc: "tf_load TF_epc (prepare_return k s) = tf_load TF_epc s"
  by (simp add: prepare_return_def Let_def intr_off_def tf_load_other tf_offsets)

lemma trap_return_ready: "trap_return k s = (ToUser a, s') \<Longrightarrow> user_ready k a s'"
  using prepare_return_ready [of k s] by (auto simp: trap_return_def Let_def)

lemma usertrap_end_ready: "usertrap_end k w s = Inr (ToUser a, s') \<Longrightarrow> user_ready k a s' \<and> \<not> killed (me s')"
  using prepare_return_ready [of k s]
  by (auto simp: usertrap_end_def trap_exit_def rbind_eq_Inr is_killed_def trap_return_def Let_def prepare_return_frame split: if_splits)

end
