(* ===== verification/Trap_Claims.thy ===== *)
theory Trap_Claims
  imports Trap_Props Virtio_Claims
begin

text \<open>
  The properties of traps: the CPU is handed to a user program in one state only, an interrupt does not disturb the
  program it stops, a fault ends the program, and a trap inside the kernel restores the registers it was taken with.
\<close>

unbundle bit_operations_syntax

section \<open>Back to user space\<close>

lemma usertrap_ready:
  assumes "usertrap k pad e s = Inr (ToUser a, s')"
  shows "user_ready k a s' \<and> \<not> killed (me s')"
  using assms
  by (auto simp: usertrap_def usertrap_syscall_def trap_exit_def rbind_eq_Inr Let_def dest!: usertrap_end_ready split: if_splits)

lemma forkret_ready: "forkret k s = Inr (pc, a, s') \<Longrightarrow> user_ready k a s'"
  using prepare_return_ready [of k] by (auto simp: forkret_def rbind_eq_Inr Let_def split: if_splits)


section \<open>Interrupts\<close>

text \<open>C26. An interrupt of a device or of the clock, taken in user mode by a process that nobody has killed, is invisible to
  it: memory changes only in the five kernel fields at the start of its trap frame, so the registers saved there are
  kept. After a device it goes on at the same instruction and with its own page table; after the clock it is
  runnable with the same instruction saved.\<close>

theorem interrupt_transparent:
  assumes "usertrap k pad e s = Inr (r, s')" "scause s = 0x8000000000000009 \<or> scause s = 0x8000000000000005"
    "cur s < length (procs s)" "\<not> killed (me s)"
  shows "(\<forall>x. \<not> in_range x (trapframe (me s)) 40 \<longrightarrow> mem s' x = mem s x)
     \<and> (scause s = 0x8000000000000009 \<longrightarrow> r = ToUser (MAKE_SATP (pagetable (me s))) \<and> sepc s' = sepc s \<and> me s' = me s)
     \<and> (scause s = 0x8000000000000005 \<longrightarrow> r = Yielded \<and> tf_load TF_epc s' = sepc s \<and> pstate (me s') = RUNNABLE)"
proof -
  let ?s0 = "tf_store TF_epc (sepc s) (w_stvec (a_kernelvec k) s)"
  from assms(1,2) obtain w s1 where d: "devintr e ?s0 = Inr (w, s1)" and u: "usertrap_end k w s1 = Inr (r, s')"
    by (auto simp: usertrap_def Let_def rbind_eq_Inr dest: devintr_which split: if_splits)
  have fr: "intr_frame ?s0 s1" using d by (rule devintr_frame)
  then have s1: "mem s1 = mem ?s0" "cur s1 = cur s" "procs s1 ! cur s = procs s ! cur s" "length (procs s1) = length (procs s)"
    using assms(3) by (simp_all add: intr_frame_def)
  have epc: "tf_load TF_epc s1 = sepc s" using s1 by (simp add: tf_load_def tf_store_def load64_store64_same)
  have m: "mem s1 x = mem s x" if "\<not> in_range x (trapframe (me s)) 40" for x
    using that tf_store_elsewhere [of x "w_stvec (a_kernelvec k) s" TF_epc "sepc s"] s1 by (simp add: TF_epc_def)
  have w: "w = (if scause s = 0x8000000000000009 then 1 else 2)" using devintr_which [OF d] assms(2) by auto
  have nk: "\<not> is_killed (cur s1) s1" using s1 assms(4) by (simp add: is_killed_def)
  show ?thesis
  proof (cases "scause s = 0x8000000000000009")
    case True
    then have e: "r = ToUser (MAKE_SATP (pagetable (me s)))" "s' = prepare_return k s1"
      using u w nk s1 by (auto simp: usertrap_end_def trap_return_def Let_def prepare_return_frame)
    have "sepc s' = sepc s"
      using prepare_return_ready [of k s1] prepare_return_epc [of k s1] epc e by (simp add: user_ready_def)
    then show ?thesis using True e m s1 by (simp add: prepare_return_mem prepare_return_frame)
  next
    case False
    then have e: "r = Yielded" "s' = upd_proc (cur s1) (yield_proc (kver s1)) s1"
      using u w nk by (auto simp: usertrap_end_def)
    have "tf_load TF_epc s' = tf_load TF_epc s1"
      using s1 assms(3) by (simp add: e tf_load_def upd_proc_def yield_proc_def Let_def)
    then show ?thesis using False e m epc s1 assms(2,3) by (simp add: upd_proc_def yield_proc_def Let_def)
  qed
qed

text \<open>An instance: process 0 runs in user mode at address 64 when a device interrupt is taken that the controller no
  longer has.\<close>

definition ex_ksyms :: ksyms where
  "ex_ksyms = \<lparr>a_kernelvec = 0x80005000, a_usertrap = 0x80002000, a_uservec = 0x80006000, a_userret = 0x8000609c, a_init = 0x80007000\<rparr>"

definition ex_dev :: dev_in where "ex_dev = \<lparr>in_irq = 0, in_tx_idle = False, in_chars = [], in_time = 0\<rparr>"

definition ex_hart :: hkernel where
  "ex_hart = vkernel.extend ex_vk (hkernel.fields 0 64 0x8000000000000009 0 0x3ffffff000 0x8000000000080007 1 1 0 0x80007000 [] False)"

lemma ex_hart_simps [simp]:
  "sstatus ex_hart = 0" "sepc ex_hart = 64" "scause ex_hart = 0x8000000000000009" "cur ex_hart = 0"
  "procs ex_hart = [ex_vp RUNNING, ex_vp RUNNABLE]" "mem ex_hart = (\<lambda>_. 0)" "kver ex_hart = 8" "plic_stores ex_hart = []"
  by (simp_all add: ex_hart_def ex_vk_def vkernel.extend_def hkernel.fields_def)

lemma ex_usertrap:
  "usertrap ex_ksyms [] ex_dev ex_hart
     = Inr (trap_return ex_ksyms (tf_store TF_epc 64 (w_stvec (a_kernelvec ex_ksyms) ex_hart)))"
  by (simp add: usertrap_def devintr_def plic_claim_def ex_dev_def UART0_IRQ_def VIRTIO0_IRQ_def Let_def usertrap_end_def
      is_killed_def ex_vp_def)


theorem interrupt_transparent_witness:
  "\<exists>a s'. usertrap ex_ksyms [] ex_dev ex_hart = Inr (ToUser a, s') \<and> sepc s' = 64 \<and> mem s' 4096 = 0"
proof -
  obtain r s' where u: "usertrap ex_ksyms [] ex_dev ex_hart = Inr (r, s')"
    unfolding ex_usertrap trap_return_def Let_def by blast
  have "\<not> in_range 4096 (trapframe (me ex_hart)) 40" "\<not> killed (me ex_hart)" "cur ex_hart < length (procs ex_hart)"
    by (simp_all add: in_range_def ex_vp_def)
  with interrupt_transparent [OF u] u show ?thesis by simp
qed

section \<open>Every interrupt handler returns\<close>

lemma kill_line_returns: "unat (c_e (cons_of s) - c_w (cons_of s)) < k \<Longrightarrow> \<exists>s'. kill_line k s = Inr s'"
proof (induction k arbitrary: s)
  case (Suc k)
  let ?s = "consputc BACKSPACE (cons_upd (\<lambda>x. x\<lparr>c_e := c_e x - 1\<rparr>) s)"
  have f: "cons_of ?s = (cons_of s)\<lparr>c_e := c_e (cons_of s) - 1\<rparr>" by (simp add: emit_def cons_upd_def)
  show ?case
  proof (cases "c_e (cons_of s) = c_w (cons_of s)")
    case False
    then have "c_e (cons_of s) - c_w (cons_of s) \<noteq> 0" by simp
    then have "unat (c_e (cons_of s) - c_w (cons_of s) - 1) < unat (c_e (cons_of s) - c_w (cons_of s))" by (rule measure_unat)
    moreover have "c_e (cons_of ?s) - c_w (cons_of ?s) = c_e (cons_of s) - c_w (cons_of s) - 1" unfolding f by simp
    ultimately have "\<exists>s'. kill_line k ?s = Inr s'" using Suc.prems by (intro Suc.IH) simp
    then show ?thesis by (simp add: Let_def)
  qed simp
qed simp

lemma consoleintr_returns: "\<exists>s'. consoleintr c s = Inr s'"
proof -
  have "\<exists>s'. procdump s = Inr s'" using procdump_emits [of s] by blast
  moreover have "\<exists>s'. kill_line (Suc (unat (c_e (cons_of s) - c_w (cons_of s)))) s = Inr s'" by (rule kill_line_returns) simp
  ultimately show ?thesis unfolding consoleintr_def Let_def by (auto simp del: kill_line.simps)
qed

lemma uart_input_returns: "\<exists>s'. uart_input input s = Inr s'"
proof (induction input s rule: uart_input.induct)
  case (1 input s)
  obtain c rest where u: "uartgetc input = (c, rest)" by fastforce
  from consoleintr_returns [of c s] obtain s1 where "consoleintr c s = Inr s1" by blast
  with "1.IH" [OF u [symmetric]] u show ?case by (subst uart_input.simps) simp
qed

lemma virtio_intr_errors:
  "P BadIndex \<Longrightarrow> P (Panic ''virtio_disk_intr status'') \<Longrightarrow> virtio_disk_intr s = Inl x \<Longrightarrow> P x"
proof (induction s rule: virtio_disk_intr.induct)
  case (1 s)
  from "1.prems" show ?case
    by (subst (asm) virtio_disk_intr.simps) (auto simp: Let_def split: option.splits if_splits intro: "1.IH")
qed


section \<open>Faults\<close>

lemma usertrap_fault_kills:
  fixes s :: "'a hkernel_scheme"
  assumes "scause s = 13 \<or> scause s = 15 \<longrightarrow> sz (me s) \<le> stval s"
  shows "\<exists>out. usertrap_fault s = Inr (setkilled (cur s) (emit out s))"
proof -
  let ?f1 = "''usertrap(): unexpected scause 0x%lx pid=%d'' @ [CHR 0x0A]" and ?f2 = "''            sepc=0x%lx stval=0x%lx'' @ [CHR 0x0A]"
  let ?a1 = "[VNum (scause s), VNum (word_of_int (pid (me s)))]" and ?a2 = "[VNum (sepc s), VNum (stval s)]"
  have "map va_is_num ?a1 = fmt_kinds (cstr ?f1) @ []" "map va_is_num ?a2 = fmt_kinds (cstr ?f2) @ []"
    unfolding va_is_num_def by code_simp+
  then obtain o1 o2 where "\<forall>s :: 'a hkernel_scheme. printf ?f1 ?a1 s = Inr (emit o1 s)"
    "\<forall>s :: 'a hkernel_scheme. printf ?f2 ?a2 s = Inr (emit o2 s)"
    using printf_emits by metis
  moreover have "(if scause s = 15 \<or> scause s = 13 then vmfault (sz (me s)) (pagetable (me s)) (pagetable (me s)) (stval s) s
      else Inr (0, s)) = Inr (0, s)"
    using assms by (auto simp: vmfault_def)
  moreover have "sepc (emit o1 s) = sepc s" "stval (emit o1 s) = stval s" by (simp_all add: emit_def)
  ultimately show ?thesis unfolding usertrap_fault_def
    by (auto simp del: append_Cons intro!: exI [of _ "o1 @ o2"] simp: emit_def)
qed



section \<open>Traps inside the kernel\<close>

text \<open>\<^verbatim>\<open>kerneltrap\<close> comes back only from an interrupt of a device or of the clock, taken in supervisor mode with
  interrupts off; memory is as before. Without a yield the program counter and the status are those it was
  entered with; it yields exactly when the clock interrupts a process, which becomes runnable. Every other trap inside the kernel panics.\<close>

lemma kerneltrap_restores:
  fixes s :: "'a hkernel_scheme"
  shows "(kerneltrap e s = Inr (y, s') \<longrightarrow>
       (scause s = 0x8000000000000009 \<or> scause s = 0x8000000000000005) \<and> sstatus s AND SSTATUS_SPP \<noteq> 0 \<and> \<not> intr_get s
       \<and> mem s' = mem s \<and> (y \<longleftrightarrow> scause s = 0x8000000000000005 \<and> cur s < NPROC)
       \<and> (\<not> y \<longrightarrow> sepc s' = sepc s \<and> sstatus s' = sstatus s)
       \<and> (y \<longrightarrow> cur s < length (procs s) \<longrightarrow> pstate (me s') = RUNNABLE))
     \<and> (scause s \<noteq> 0x8000000000000009 \<longrightarrow> scause s \<noteq> 0x8000000000000005 \<longrightarrow> (\<exists>m. kerneltrap e s = Inl (Panic m)))"
proof -
  have "(\<exists>m. kerneltrap e s = Inl (Panic m))" if "scause s \<noteq> 0x8000000000000009" "scause s \<noteq> 0x8000000000000005"
  proof -
    let ?f = "''scause=0x%lx sepc=0x%lx stval=0x%lx'' @ [CHR 0x0A]"
    let ?a = "[VNum (scause s), VNum (sepc s), VNum (stval s)]"
    have "map va_is_num ?a = fmt_kinds (cstr ?f) @ []" unfolding va_is_num_def by code_simp
    then obtain out where "\<forall>s :: 'a hkernel_scheme. printf ?f ?a s = Inr (emit out s)" using printf_emits by metis
    moreover have "devintr e s = Inr (0, s)" using that by (simp add: devintr_def)
    ultimately show ?thesis by (auto simp: kerneltrap_def)
  qed
  moreover have "(scause s = 0x8000000000000009 \<or> scause s = 0x8000000000000005) \<and> sstatus s AND SSTATUS_SPP \<noteq> 0 \<and> \<not> intr_get s
       \<and> mem s' = mem s \<and> (y \<longleftrightarrow> scause s = 0x8000000000000005 \<and> cur s < NPROC)
       \<and> (\<not> y \<longrightarrow> sepc s' = sepc s \<and> sstatus s' = sstatus s) \<and> (y \<longrightarrow> cur s < length (procs s) \<longrightarrow> pstate (me s') = RUNNABLE)"
    if r: "kerneltrap e s = Inr (y, s')"
  proof -
    from r obtain w s1 where d: "devintr e s = Inr (w, s1)" and c: "sstatus s AND SSTATUS_SPP \<noteq> 0" "\<not> intr_get s" "w \<noteq> 0"
      and e: "(y, s') = (if w = 2 \<and> cur s1 < NPROC then (True, upd_proc (cur s1) (yield_proc (kver s1)) s1)
        else (False, kerneltrap_end (sepc s) (sstatus s) s1))"
      by (auto simp: kerneltrap_def rbind_eq_Inr split: if_splits)
    from devintr_frame [OF d] devintr_which [OF d] c e show ?thesis
      by (auto simp: intr_frame_def kerneltrap_end_def upd_proc_def yield_proc_def Let_def split: if_splits)
  qed
  ultimately show ?thesis by simp
qed

end
