(* ===== verification/Boot.thy ===== *)
theory Boot
  imports Trap_Props
begin

text \<open>
  The way up: \<^verbatim>\<open>kernel/start.c\<close> in machine mode, \<^verbatim>\<open>kernel/main.c\<close>, and \<^verbatim>\<open>kvminit\<close> and \<^verbatim>\<open>kvminithart\<close> of \<^verbatim>\<open>kernel/vm.c\<close>. The
  locks that \<^verbatim>\<open>main\<close> initialises belong to \<open>Spinlock\<close>.
\<close>

unbundle bit_operations_syntax

section \<open>Machine mode\<close>

definition MSTATUS_MPP_MASK :: u64 where "MSTATUS_MPP_MASK = push_bit 11 3"
definition MSTATUS_MPP_S :: u64 where "MSTATUS_MPP_S = push_bit 11 1"
definition SIE_SEIE :: u64 where "SIE_SEIE = push_bit 9 1"
definition SIE_STIE :: u64 where "SIE_STIE = push_bit 5 1"
definition MIE_STIE :: u64 where "MIE_STIE = push_bit 5 1"

record mregs =
  mstatus :: u64
  mepc :: u64
  m_satp :: u64
  medeleg :: u64
  mideleg :: u64
  m_sie :: u64
  pmpaddr0 :: u64
  pmpcfg0 :: u64
  mie :: u64
  menvcfg :: u64
  mcounteren :: u64
  m_stimecmp :: u64
  mhartid :: u64
  tp :: u64

definition timerinit :: "u64 \<Rightarrow> mregs \<Rightarrow> mregs" where
  "timerinit now m =
     (let m = m\<lparr>mie := mie m OR MIE_STIE\<rparr>;
          m = m\<lparr>menvcfg := menvcfg m OR push_bit 63 1\<rparr>;
          m = m\<lparr>mcounteren := mcounteren m OR 3\<rparr>
      in m\<lparr>m_stimecmp := now + 1000000\<rparr>)"

text \<open>\<open>a_main\<close> is the address of \<^verbatim>\<open>main\<close>. The number of the CPU goes through an \<^verbatim>\<open>int\<close>.\<close>

definition start :: "u64 \<Rightarrow> u64 \<Rightarrow> mregs \<Rightarrow> mregs" where
  "start a_main now m =
     (let x = mstatus m;
          x = x AND NOT MSTATUS_MPP_MASK;
          x = x OR MSTATUS_MPP_S;
          m = m\<lparr>mstatus := x\<rparr>;
          m = m\<lparr>mepc := a_main\<rparr>;
          m = m\<lparr>m_satp := 0\<rparr>;
          m = m\<lparr>medeleg := 0xffff\<rparr>;
          m = m\<lparr>mideleg := 0xffff\<rparr>;
          m = m\<lparr>m_sie := m_sie m OR SIE_SEIE OR SIE_STIE\<rparr>;
          m = m\<lparr>pmpaddr0 := 0x3fffffffffffff\<rparr>;
          m = m\<lparr>pmpcfg0 := 0xf\<rparr>;
          m = timerinit now m
      in m\<lparr>tp := scast (ucast (mhartid m) :: u32)\<rparr>)"

text \<open>The privilege mode and the address to which \<^verbatim>\<open>mret\<close> goes.\<close>

definition mret :: "mregs \<Rightarrow> u64 \<times> u64" where
  "mret m = (drop_bit 11 (mstatus m) AND 3, mepc m)"

section \<open>Supervisor mode\<close>

definition kvminit :: "'a hkernel_scheme \<Rightarrow> 'a hkernel_scheme kres" where
  "kvminit s = rbind (kvmmake s) (\<lambda>(kpgtbl, s). Inr (s\<lparr>kernel_pagetable := kpgtbl\<rparr>))"

definition kvminithart :: "'a hkernel_scheme \<Rightarrow> 'a hkernel_scheme" where
  "kvminithart s = w_satp (MAKE_SATP (kernel_pagetable s)) s"

definition NL :: string where "NL = [CHR 0x0A]"

text \<open>\<^verbatim>\<open>main\<close> on CPU 0 up to the scheduler, with the stores to the serial port and to the disk's registers.\<close>

definition main_boot :: "ksyms \<Rightarrow> virtio_regs \<Rightarrow> 'a hkernel_scheme \<Rightarrow>
    ((nat \<times> u8) list \<times> (nat \<times> u32) list \<times> 'a hkernel_scheme) kres" where
  "main_boot k r s =
     rbind (printf NL [] s) (\<lambda>s.
     rbind (printf (''xv6 kernel is booting'' @ NL) [] s) (\<lambda>s.
     rbind (printf NL [] s) (\<lambda>s.
     rbind (kinit s) (\<lambda>s.
     rbind (kvminit s) (\<lambda>s.
     let s = kvminithart s;
         s = procinit s;
         s = trapinithart k s;
         s = plicinit s;
         s = plicinithart s;
         s = binit s;
         s = iinit s
     in rbind (virtio_disk_init r s) (\<lambda>(stores, s).
        rbind (userinit s) (\<lambda>s. Inr (uartinit, stores, s))))))))"

text \<open>\<^verbatim>\<open>main\<close> on another CPU, from the moment it sees \<^verbatim>\<open>started\<close>.\<close>

definition main_hart :: "ksyms \<Rightarrow> 'a hkernel_scheme \<Rightarrow> 'a hkernel_scheme kres" where
  "main_hart k s =
     rbind (printf (''hart %d starting'' @ NL) [VNum (scast (ucast (hartid s) :: u32))] s) (\<lambda>s.
     Inr (plicinithart (trapinithart k (kvminithart s))))"

section \<open>What they set up\<close>

lemma mpp_exp: "MSTATUS_MPP_MASK = 2 ^ 11 OR 2 ^ 12" "MSTATUS_MPP_S = 2 ^ 11"
  by (simp_all add: MSTATUS_MPP_MASK_def MSTATUS_MPP_S_def)

lemma mpp_bits: "bit MSTATUS_MPP_MASK n \<longleftrightarrow> n = 11 \<or> n = 12" "bit MSTATUS_MPP_S n \<longleftrightarrow> n = 11"
  unfolding mpp_exp bit_or_iff bit_exp_iff by auto

text \<open>Whatever the registers hold at reset, \<^verbatim>\<open>start\<close> enters \<^verbatim>\<open>main\<close> in supervisor mode (1) without paging.\<close>

lemma start_enters_main: "mret (start a now m) = (1, a) \<and> m_satp (start a now m) = 0"
proof -
  have "drop_bit 11 (mstatus (start a now m)) AND 3 = 1"
  proof (rule bit_word_eqI)
    fix n :: nat assume "n < LENGTH(64)"
    have "bit (3 :: u64) n \<longleftrightarrow> n = 0 \<or> n = 1" by (simp add: bit_numeral_rec split: nat.splits) (auto simp: bit_1_iff numeral_eq_Suc)
    then show "bit (drop_bit 11 (mstatus (start a now m)) AND 3) n = bit 1 n"
      by (auto simp: start_def timerinit_def Let_def bit_and_iff bit_or_iff bit_not_iff bit_drop_bit_eq mpp_bits bit_1_iff)
  qed
  then show ?thesis by (simp add: mret_def start_def timerinit_def Let_def)
qed

text \<open>A CPU that joins later always gets through, and ends with the kernel's page table and trap vector installed.\<close>

lemma main_hart_ready:
  fixes s :: "'a hkernel_scheme"
  shows "\<exists>s'. main_hart k s = Inr s' \<and> satp s' = MAKE_SATP (kernel_pagetable s') \<and> kernel_pagetable s' = kernel_pagetable s
     \<and> stvec s' = a_kernelvec k \<and> mem s' = mem s"
proof -
  let ?f = "''hart %d starting'' @ NL" and ?a = "[VNum (scast (ucast (hartid s) :: u32))]"
  have "map va_is_num ?a = fmt_kinds (cstr ?f) @ []" unfolding va_is_num_def NL_def by code_simp
  then obtain out where "\<forall>s :: 'a hkernel_scheme. printf ?f ?a s = Inr (emit out s)" using printf_emits by metis
  then show ?thesis
    by (auto simp: main_hart_def plicinithart_def trapinithart_def kvminithart_def emit_def)
qed

end
