(* ===== verification/Mkfs.thy ===== *)
theory Mkfs
  imports Fs_Dir
begin

text \<open>
  The tool that builds the first file system image (\<^verbatim>\<open>mkfs/mkfs.c\<close>). The image file is the list of its sectors.
  A call of \<^verbatim>\<open>die\<close> and a failed assertion are \<open>Panic\<close>; of the failures of system calls, those that depend on the
  arguments are modelled: a read beyond the end of the image and a file that cannot be opened.
\<close>

section \<open>Layout\<close>

definition FSSIZE :: nat where "FSSIZE = 2000"
definition NINODES :: nat where "NINODES = 200"
definition nbitmap :: nat where "nbitmap = FSSIZE div BPB + 1"
definition ninodeblocks :: nat where "ninodeblocks = NINODES div IPB + 1"
definition mk_nlog :: nat where "mk_nlog = LOGBLOCKS + 1"
definition nmeta :: nat where "nmeta = 2 + mk_nlog + ninodeblocks + nbitmap"

text \<open>The conversions to the byte order of RISC-V, on a host that stores numbers in that order, too.\<close>

definition xshort :: "u16 \<Rightarrow> u16" where "xshort x = get16 (bytes16 x) 0"
definition xint :: "u32 \<Rightarrow> u32" where "xint x = get32 (bytes32 x) 0"

definition mk_sb :: superblock where
  "mk_sb = \<lparr>magic = FSMAGIC, sb_size = xint (of_nat FSSIZE), nblocks = xint (of_nat (FSSIZE - nmeta)), ninodes = xint (of_nat NINODES),
     nlog = xint (of_nat mk_nlog), logstart = xint 2, inodestart = xint (of_nat (2 + mk_nlog)),
     bmapstart = xint (of_nat (2 + mk_nlog + ninodeblocks))\<rparr>"

definition put_sb :: "block \<Rightarrow> superblock \<Rightarrow> block" where
  "put_sb d b = overwrite d 0 (bytes32 (magic b) @ bytes32 (sb_size b) @ bytes32 (nblocks b) @ bytes32 (ninodes b)
     @ bytes32 (nlog b) @ bytes32 (logstart b) @ bytes32 (inodestart b) @ bytes32 (bmapstart b))"

section \<open>Sectors\<close>

record mkstate =
  fsfile :: "block list"
  freeinode :: u32
  freeblock :: u32

abbreviation zeroes :: block where "zeroes \<equiv> replicate BSIZE 0"

text \<open>The sector at the file offset \<^verbatim>\<open>sec * BSIZE\<close>, a product of 32 bits.\<close>

definition sector :: "u32 \<Rightarrow> nat" where "sector sec = unat (sec * of_nat BSIZE) div BSIZE"

text \<open>A write beyond the end leaves a hole that reads as zero.\<close>

definition wsect :: "u32 \<Rightarrow> block \<Rightarrow> mkstate \<Rightarrow> mkstate" where
  "wsect sec buf s = s\<lparr>fsfile := (fsfile s @ replicate (Suc (sector sec) - length (fsfile s)) zeroes)[sector sec := buf]\<rparr>"

definition rsect :: "u32 \<Rightarrow> mkstate \<Rightarrow> block kres" where
  "rsect sec s = (if sector sec < length (fsfile s) then Inr (fsfile s ! sector sec) else Inl (Panic ''read''))"

section \<open>Inodes\<close>

definition winode :: "u32 \<Rightarrow> dinode \<Rightarrow> mkstate \<Rightarrow> mkstate kres" where
  "winode inum ip s =
     (let bn = IBLOCK (unat inum) mk_sb
      in rbind (rsect bn s) (\<lambda>buf. Inr (wsect bn (put_dinode buf (unat inum mod IPB) ip) s)))"

definition rinode :: "u32 \<Rightarrow> mkstate \<Rightarrow> dinode kres" where
  "rinode inum s =
     (let bn = IBLOCK (unat inum) mk_sb
      in rbind (rsect bn s) (\<lambda>buf. Inr (get_dinode buf (unat inum mod IPB))))"

definition mk_ialloc :: "u16 \<Rightarrow> mkstate \<Rightarrow> (u32 \<times> mkstate) kres" where
  "mk_ialloc type s =
     (let inum = freeinode s;
          s = s\<lparr>freeinode := freeinode s + 1\<rparr>;
          din = \<lparr>d_type = xshort type, d_major = 0, d_minor = 0, d_nlink = xshort 1, d_size = xint 0, d_addrs = replicate (NDIRECT + 1) 0\<rparr>
      in rbind (winode inum din s) (\<lambda>s. Inr (inum, s)))"

definition mk_balloc :: "u32 \<Rightarrow> mkstate \<Rightarrow> mkstate kres" where
  "mk_balloc used s =
     (if \<not> sint used < int BPB then Inl (Panic ''assert'')
      else Inr (wsect (bmapstart mk_sb) (fold (\<lambda>i buf. bit_mark buf i) [0..<nat (sint used)] zeroes) s))"

section \<open>Appending\<close>

text \<open>The block of file block \<open>fbn\<close>, allocated when it is missing.\<close>

definition append_block :: "nat \<Rightarrow> dinode \<Rightarrow> mkstate \<Rightarrow> (u32 \<times> dinode \<times> mkstate) kres" where
  "append_block fbn din s =
     (if fbn < NDIRECT then
        let (din, s) = (if xint (d_addrs din ! fbn) = 0
                        then (din\<lparr>d_addrs := (d_addrs din)[fbn := xint (freeblock s)]\<rparr>, s\<lparr>freeblock := freeblock s + 1\<rparr>)
                        else (din, s))
        in Inr (xint (d_addrs din ! fbn), din, s)
      else
        let (din, s) = (if xint (d_addrs din ! NDIRECT) = 0
                        then (din\<lparr>d_addrs := (d_addrs din)[NDIRECT := xint (freeblock s)]\<rparr>, s\<lparr>freeblock := freeblock s + 1\<rparr>)
                        else (din, s))
        in rbind (rsect (xint (d_addrs din ! NDIRECT)) s) (\<lambda>indirect.
           let (indirect, s) = (if get32 indirect (4 * (fbn - NDIRECT)) = 0
                                then let indirect = put32 indirect (4 * (fbn - NDIRECT)) (xint (freeblock s))
                                     in (indirect, wsect (xint (d_addrs din ! NDIRECT)) indirect (s\<lparr>freeblock := freeblock s + 1\<rparr>))
                                else (indirect, s))
           in Inr (xint (get32 indirect (4 * (fbn - NDIRECT))), din, s)))"

lemma block_room: "n < BSIZE + n div BSIZE * BSIZE" for n :: nat
  using mod_less_divisor [of BSIZE n] div_mult_mod_eq [of n BSIZE] by (simp add: BSIZE_def)

text \<open>The loop over the bytes that are left; a turn fills the file's last block.\<close>

function iappend_loop :: "u8 list \<Rightarrow> u32 \<Rightarrow> dinode \<Rightarrow> mkstate \<Rightarrow> (u32 \<times> dinode \<times> mkstate) kres" where
  "iappend_loop p off din s =
     (if p = [] then Inr (off, din, s)
      else
        let fbn = unat off div BSIZE
        in if \<not> fbn < MAXFILE then Inl (Panic ''assert'')
           else rbind (append_block fbn din s) (\<lambda>(x, din, s).
             let n1 = min (length p) ((fbn + 1) * BSIZE - unat off)
             in rbind (rsect x s) (\<lambda>buf.
                iappend_loop (drop n1 p) (off + of_nat n1) din (wsect x (overwrite buf (unat off - fbn * BSIZE) (take n1 p)) s))))"
  by pat_completeness auto
termination
  by (relation "measure (\<lambda>(p, _). length p)") (auto simp: block_room)

declare iappend_loop.simps [simp del]

definition iappend :: "u32 \<Rightarrow> u8 list \<Rightarrow> mkstate \<Rightarrow> mkstate kres" where
  "iappend inum p s =
     rbind (rinode inum s) (\<lambda>din.
     rbind (iappend_loop p (xint (d_size din)) din s) (\<lambda>(off, din, s).
     winode inum (din\<lparr>d_size := xint off\<rparr>) s))"

section \<open>The image\<close>

definition USER_PREFIX :: "u8 list" where "USER_PREFIX = [117, 115, 101, 114, 47]"

definition mk_dirent :: "u32 \<Rightarrow> u8 list \<Rightarrow> u8 list" where
  "mk_dirent inum name = bytes16 (xshort (ucast inum)) @ strncpy_str DIRSIZ name"

text \<open>The name of a file in the image: without a leading \<^verbatim>\<open>user/\<close>, then without a leading underscore.\<close>

definition strip_dir :: "u8 list \<Rightarrow> u8 list" where
  "strip_dir arg = (if take 5 arg = USER_PREFIX then drop 5 arg else arg)"

definition strip_mark :: "u8 list \<Rightarrow> u8 list" where
  "strip_mark name = (if name \<noteq> [] \<and> hd name = 95 then tl name else name)"

text \<open>One turn of the loop over the arguments. A file is its name and what the calls of \<^verbatim>\<open>read\<close> return, up to the
  first that returns no bytes; it is \<open>None\<close> when it cannot be opened.\<close>

definition add_file :: "u8 list \<times> u8 list list option \<Rightarrow> mkstate \<Rightarrow> mkstate kres" where
  "add_file file s =
     (let shortname = strip_dir (fst file)
      in if 47 \<in> set shortname then Inl (Panic ''assert'')
         else case snd file of
           None \<Rightarrow> Inl (Panic ''open'')
         | Some chunks \<Rightarrow>
             let shortname = strip_mark shortname
             in if \<not> length shortname \<le> DIRSIZ then Inl (Panic ''assert'')
                else rbind (mk_ialloc T_FILE s) (\<lambda>(inum, s).
                     rbind (iappend ROOTINO (mk_dirent inum shortname) s) (rfold (iappend inum) chunks)))"

definition mk_empty :: mkstate where
  "mk_empty = fold (\<lambda>i. wsect (of_nat i) zeroes) [0..<FSSIZE] \<lparr>fsfile = [], freeinode = 1, freeblock = of_nat nmeta\<rparr>"

definition mkfs :: "(u8 list \<times> u8 list list option) list \<Rightarrow> mkstate kres" where
  "mkfs files =
     (let s = wsect 1 (put_sb zeroes mk_sb) mk_empty
      in rbind (mk_ialloc T_DIR s) (\<lambda>(rootino, s).
         if rootino \<noteq> ROOTINO then Inl (Panic ''assert'')
         else
           rbind (iappend rootino (mk_dirent rootino [46]) s) (\<lambda>s.
           rbind (iappend rootino (mk_dirent rootino [46, 46]) s) (\<lambda>s.
           rbind (rfold add_file files s) (\<lambda>s.
           rbind (rinode rootino s) (\<lambda>din.
           let off = xint (d_size din);
               off = (off div of_nat BSIZE + 1) * of_nat BSIZE
           in rbind (winode rootino (din\<lparr>d_size := xint off\<rparr>) s) (\<lambda>s.
              mk_balloc (freeblock s) s)))))))"

end
