(* ===== verification/Mkfs_Append.thy ===== *)
theory Mkfs_Append
  imports Mkfs Fs_Inode
begin

text \<open>
  What \<^verbatim>\<open>iappend\<close> of \<^verbatim>\<open>mkfs.c\<close> does to one file: its blocks are its own, blocks that were never allocated are
  zero, and the bytes land at the end of the file.
\<close>

section \<open>Basic facts\<close>

lemma xint_id [simp]: "xint x = x"
  unfolding xint_def by (rule get32_bytes32) simp

lemma xshort_id [simp]: "xshort x = x"
  unfolding xshort_def by (rule get16_bytes16) simp

lemma sector_small: "unat sec < 2 ^ 22 \<Longrightarrow> sector sec = unat sec"
  by (simp add: sector_def unat_mult_lem [THEN iffD1] BSIZE_def unat_of_nat)

lemma layout: "nmeta = 47" "IPB = 16" "BSIZE = 1024" "NDIRECT = 12" "MAXFILE = 268" "FSSIZE = 2000"
  by (simp_all add: nmeta_def mk_nlog_def ninodeblocks_def nbitmap_def NINODES_def IPB_def BSIZE_def NDIRECT_def MAXFILE_def
      NINDIRECT_def FSSIZE_def BPB_def LOGBLOCKS_def MAXOPBLOCKS_def)

lemma get32_zeroes [simp]: "p + 4 \<le> BSIZE \<Longrightarrow> get32 zeroes p = 0"
  by (simp add: get32_def)

section \<open>The blocks of a file\<close>

definition ind :: "dinode \<Rightarrow> nat" where "ind din = unat (d_addrs din ! NDIRECT)"

definition fblk :: "block list \<Rightarrow> dinode \<Rightarrow> nat \<Rightarrow> nat" where
  "fblk f din k = (if k < NDIRECT then unat (d_addrs din ! k) else if ind din = 0 then 0
     else unat (get32 (f ! ind din) (4 * (k - NDIRECT))))"

definition file_blocks :: "block list \<Rightarrow> dinode \<Rightarrow> nat set" where
  "file_blocks f din = insert (ind din) (fblk f din ` {..<MAXFILE}) - {0}"

text \<open>A file of its own: \<open>fb\<close> is the next free block and \<open>O\<close> holds the blocks of the other files.\<close>

definition linv :: "block list \<Rightarrow> nat \<Rightarrow> dinode \<Rightarrow> nat set \<Rightarrow> bool" where
  "linv f fb din O' \<longleftrightarrow> length f = FSSIZE \<and> (\<forall>b \<in> set f. length b = BSIZE) \<and> nmeta \<le> fb \<and> fb \<le> FSSIZE
     \<and> length (d_addrs din) = NDIRECT + 1 \<and> (\<forall>x. fb \<le> x \<longrightarrow> x < FSSIZE \<longrightarrow> f ! x = zeroes)
     \<and> O' \<subseteq> {nmeta..<fb} \<and> file_blocks f din \<subseteq> {nmeta..<fb} - O'
     \<and> (\<forall>k < MAXFILE. \<forall>l < MAXFILE. fblk f din k = fblk f din l \<longrightarrow> fblk f din k \<noteq> 0 \<longrightarrow> k = l)
     \<and> (\<forall>k < MAXFILE. fblk f din k \<noteq> 0 \<longrightarrow> fblk f din k \<noteq> ind din)"

text \<open>The file grew: what it had and what others have is as before, and a block it was given is zero.\<close>

definition grew :: "block list \<Rightarrow> nat \<Rightarrow> dinode \<Rightarrow> nat set \<Rightarrow> block list \<Rightarrow> nat \<Rightarrow> dinode \<Rightarrow> bool" where
  "grew f fb din O' f' fb' din' \<longleftrightarrow> fb \<le> fb' \<and> din'\<lparr>d_addrs := []\<rparr> = din\<lparr>d_addrs := []\<rparr>
     \<and> (\<forall>b. b < nmeta \<or> b \<in> O' \<longrightarrow> f' ! b = f ! b)
     \<and> (\<forall>k < MAXFILE. fblk f din k \<noteq> 0 \<longrightarrow> fblk f' din' k = fblk f din k \<and> f' ! fblk f din k = f ! fblk f din k)
     \<and> (\<forall>k < MAXFILE. fblk f din k = 0 \<longrightarrow> fblk f' din' k = 0 \<or> f' ! fblk f' din' k = zeroes)"

lemma grew_refl: "grew f fb din O' f fb din"
  by (simp add: grew_def)

lemma grew_old:
  "grew f fb din O' f' fb' din' \<Longrightarrow> k < MAXFILE \<Longrightarrow> fblk f din k \<noteq> 0 \<Longrightarrow> fblk f' din' k = fblk f din k \<and> f' ! fblk f din k = f ! fblk f din k"
  by (simp add: grew_def)

lemma grew_new:
  "grew f fb din O' f' fb' din' \<Longrightarrow> k < MAXFILE \<Longrightarrow> fblk f din k = 0 \<Longrightarrow> fblk f' din' k \<noteq> 0 \<Longrightarrow> f' ! fblk f' din' k = zeroes"
  by (auto simp: grew_def)

lemma grew_trans:
  assumes a: "grew f fb din O' f1 fb1 din1" and b: "grew f1 fb1 din1 O' f2 fb2 din2"
  shows "grew f fb din O' f2 fb2 din2"
proof -
  have "fblk f2 din2 k = 0 \<or> f2 ! fblk f2 din2 k = zeroes" if "k < MAXFILE" "fblk f din k = 0" for k
    using that grew_new [OF a] grew_new [OF b] grew_old [OF b] by (cases "fblk f1 din1 k = 0") auto
  moreover have "fblk f2 din2 k = fblk f din k \<and> f2 ! fblk f din k = f ! fblk f din k" if "k < MAXFILE" "fblk f din k \<noteq> 0" for k
    using that grew_old [OF a] grew_old [OF b, of k] by simp
  ultimately show ?thesis using a b unfolding grew_def by simp
qed

lemma linv_blk:
  "linv f fb din O' \<Longrightarrow> k < MAXFILE \<Longrightarrow> fblk f din k \<noteq> 0 \<Longrightarrow> nmeta \<le> fblk f din k \<and> fblk f din k < fb \<and> fblk f din k \<notin> O'"
  unfolding linv_def file_blocks_def by auto

lemma linv_ind: "linv f fb din O' \<Longrightarrow> ind din \<noteq> 0 \<Longrightarrow> nmeta \<le> ind din \<and> ind din < fb \<and> ind din \<notin> O'"
  unfolding linv_def file_blocks_def by auto

section \<open>Allocation\<close>

lemma fblk_direct_upd:
  assumes "length (d_addrs din) = NDIRECT + 1" "i < NDIRECT"
  shows "fblk f (din\<lparr>d_addrs := (d_addrs din)[i := v]\<rparr>) k = (if k = i then unat v else fblk f din k)"
    "ind (din\<lparr>d_addrs := (d_addrs din)[i := v]\<rparr>) = ind din"
  using assms by (simp_all add: fblk_def ind_def nth_list_update)

lemma fblk_ind_upd:
  assumes "length (d_addrs din) = NDIRECT + 1" "unat v \<noteq> 0"
  shows "fblk f (din\<lparr>d_addrs := (d_addrs din)[NDIRECT := v]\<rparr>) k
      = (if k < NDIRECT then fblk f din k else unat (get32 (f ! unat v) (4 * (k - NDIRECT))))"
    "ind (din\<lparr>d_addrs := (d_addrs din)[NDIRECT := v]\<rparr>) = unat v"
  using assms by (simp_all add: fblk_def ind_def)

lemma fblk_zeroes: "k < MAXFILE \<Longrightarrow> get32 zeroes (4 * (k - NDIRECT)) = 0"
  by (intro get32_zeroes) (simp add: layout)

lemma blocks_grow:
  assumes "linv f fb din O'" "A \<subseteq> insert fb (file_blocks f din)"
  shows "A \<subseteq> {nmeta..<Suc fb} - O'"
proof -
  have "nmeta \<le> fb" "file_blocks f din \<subseteq> {nmeta..<fb} - O'" "O' \<subseteq> {nmeta..<fb}" using assms(1) by (simp_all add: linv_def)
  then show ?thesis using assms(2) by fastforce
qed

lemma alloc_direct:
  assumes "linv f fb din O'" "i < NDIRECT" "fblk f din i = 0" "fb < FSSIZE" "unat v = fb"
  shows "linv f (Suc fb) (din\<lparr>d_addrs := (d_addrs din)[i := v]\<rparr>) O'
    \<and> grew f fb din O' f (Suc fb) (din\<lparr>d_addrs := (d_addrs din)[i := v]\<rparr>)"
proof -
  have l: "length (d_addrs din) = NDIRECT + 1" and nm: "nmeta \<le> fb" using assms(1) by (simp_all add: linv_def)
  note u = fblk_direct_upd [OF l assms(2)]
  have n: "fblk f din k \<noteq> fb" if "k < MAXFILE" for k
    using linv_blk [OF assms(1) that] nm by (cases "fblk f din k = 0") (auto simp: layout)
  have ni: "ind din \<noteq> fb" using linv_ind [OF assms(1)] nm by (cases "ind din = 0") (auto simp: layout)
  have fbs: "file_blocks f (din\<lparr>d_addrs := (d_addrs din)[i := v]\<rparr>) \<subseteq> {nmeta..<Suc fb} - O'"
    by (rule blocks_grow [OF assms(1)]) (auto simp: file_blocks_def u assms(5))
  show ?thesis using assms(1-4) nm ni fbs l
    by (auto simp: linv_def grew_def u assms(5) n n [symmetric])
qed

lemma alloc_ind:
  assumes "linv f fb din O'" "ind din = 0" "fb < FSSIZE" "unat v = fb"
  shows "linv f (Suc fb) (din\<lparr>d_addrs := (d_addrs din)[NDIRECT := v]\<rparr>) O'
    \<and> grew f fb din O' f (Suc fb) (din\<lparr>d_addrs := (d_addrs din)[NDIRECT := v]\<rparr>)"
proof -
  have l: "length (d_addrs din) = NDIRECT + 1" and nm: "nmeta \<le> fb" and z: "f ! fb = zeroes"
    using assms by (simp_all add: linv_def)
  have v0: "unat v \<noteq> 0" using nm assms(4) by (simp add: layout)
  let ?d = "din\<lparr>d_addrs := (d_addrs din)[NDIRECT := v]\<rparr>"
  have u: "fblk f ?d k = fblk f din k" if "k < MAXFILE" for k
    using fblk_ind_upd(1) [OF l v0, of f k] fblk_zeroes [OF that] z assms(2,4) by (auto simp: fblk_def)
  have i: "ind ?d = fb" using fblk_ind_upd(2) [OF l v0] assms(4) by simp
  have n: "fblk f din k \<noteq> fb" if "k < MAXFILE" for k
    using linv_blk [OF assms(1) that] nm by (cases "fblk f din k = 0") (auto simp: layout)
  have fbs: "file_blocks f ?d \<subseteq> {nmeta..<Suc fb} - O'"
    by (rule blocks_grow [OF assms(1)]) (auto simp: file_blocks_def u i)
  show ?thesis using assms nm n fbs l
    by (auto simp: linv_def grew_def u i)
qed

lemma alloc_entry:
  assumes "linv f fb din O'" "ind din \<noteq> 0" "NDIRECT \<le> i" "i < MAXFILE" "fblk f din i = 0" "fb < FSSIZE" "unat v = fb"
  defines "f' \<equiv> f[ind din := put32 (f ! ind din) (4 * (i - NDIRECT)) v]"
  shows "linv f' (Suc fb) din O' \<and> grew f fb din O' f' (Suc fb) din \<and> fblk f' din i = fb"
proof -
  have l: "length f = FSSIZE" "\<forall>b \<in> set f. length b = BSIZE" and nm: "nmeta \<le> fb"
    using assms(1) by (simp_all add: linv_def)
  have I: "nmeta \<le> ind din" "ind din < fb" "ind din \<notin> O'" using linv_ind [OF assms(1,2)] by auto
  have lb: "length (f ! ind din) = BSIZE" using l I assms(6) by simp
  have u: "fblk f' din k = (if k = i then fb else fblk f din k)" if "k < MAXFILE" for k
  proof (cases "k < NDIRECT")
    case False
    let ?p = "4 * (i - NDIRECT)" and ?q = "4 * (k - NDIRECT)"
    have b: "?p + 4 \<le> length (f ! ind din)" "?q + 4 \<le> length (f ! ind din)" using assms(4) that by (simp_all add: lb layout)
    have "get32 (put32 (f ! ind din) ?p v) ?q = (if k = i then v else get32 (f ! ind din) ?q)"
    proof (cases "k = i")
      case ne: False
      then have "?q + 4 \<le> ?p \<or> ?p + 4 \<le> ?q" using False assms(3) by linarith
      with get32_put32_other [OF b] ne show ?thesis by simp
    qed (use b in simp)
    then show ?thesis using False I l assms(2,6,7) by (simp add: fblk_def f'_def)
  qed (use assms(3) in \<open>auto simp: fblk_def\<close>)
  have n: "fblk f din k \<noteq> fb" if "k < MAXFILE" for k
    using linv_blk [OF assms(1) that] nm by (cases "fblk f din k = 0") (auto simp: layout)
  have fbs: "file_blocks f' din \<subseteq> {nmeta..<Suc fb} - O'"
    by (rule blocks_grow [OF assms(1)]) (auto simp: file_blocks_def u)
  have f': "length f' = FSSIZE" "\<forall>b \<in> set f'. length b = BSIZE" "\<And>b. b \<noteq> ind din \<Longrightarrow> f' ! b = f ! b"
    using l lb assms(4) by (auto simp: f'_def layout dest: set_update_subset_insert [THEN subsetD])
  have ne: "fblk f din k \<noteq> ind din" if "k < MAXFILE" "fblk f din k \<noteq> 0" for k
    using assms(1) that by (auto simp: linv_def)
  have "linv f' (Suc fb) din O'"
    using assms(1,6) nm n fbs f' I ne u by (auto simp: linv_def)
  moreover have "f' ! fb = zeroes" using f'(3) [of fb] I assms(1,6) by (simp add: linv_def)
  then have "grew f fb din O' f' (Suc fb) din"
    using I ne u assms(5) by (auto simp: grew_def intro!: f'(3))
  ultimately show ?thesis using u assms(4) by simp
qed

section \<open>The block of a file block\<close>

lemma wsect_in: "length (fsfile s) = FSSIZE \<Longrightarrow> unat sec < FSSIZE \<Longrightarrow> wsect sec b s = s\<lparr>fsfile := (fsfile s)[unat sec := b]\<rparr>"
  by (simp add: wsect_def sector_small layout)

lemma rsect_eq:
  "length (fsfile s) = FSSIZE \<Longrightarrow> unat sec \<le> FSSIZE \<Longrightarrow>
    rsect sec s = (if unat sec < FSSIZE then Inr (fsfile s ! unat sec) else Inl (Panic ''read''))"
  by (simp add: rsect_def sector_small layout)

abbreviation fb :: "mkstate \<Rightarrow> nat" where "fb s \<equiv> unat (freeblock s)"

definition grows :: "dinode \<Rightarrow> mkstate \<Rightarrow> nat set \<Rightarrow> dinode \<Rightarrow> mkstate \<Rightarrow> bool" where
  "grows din s O' din' s' \<longleftrightarrow> linv (fsfile s') (fb s') din' O' \<and> grew (fsfile s) (fb s) din O' (fsfile s') (fb s') din'
     \<and> freeinode s' = freeinode s"

lemma grows_trans: "grows din s O' din1 s1 \<Longrightarrow> grows din1 s1 O' din2 s2 \<Longrightarrow> grows din s O' din2 s2"
  by (auto simp: grows_def intro: grew_trans)

lemma grows_refl: "linv (fsfile s) (fb s) din O' \<Longrightarrow> grows din s O' din s"
  by (simp add: grows_def grew_refl)

lemma next_block: "fb s \<le> FSSIZE \<Longrightarrow> unat (freeblock s + 1) = Suc (fb s)"
  by (simp add: layout unat_word_ariths)

lemma linv_len: "linv f n din O' \<Longrightarrow> length f = FSSIZE \<and> n \<le> FSSIZE \<and> nmeta \<le> n"
  by (simp add: linv_def)

lemma append_direct:
  assumes L: "linv (fsfile s) (fb s) din O'" and i: "fbn < NDIRECT" and a: "append_block fbn din s = Inr (x, din', s')"
    and x: "sector x < length (fsfile s')"
  shows "grows din s O' din' s' \<and> fblk (fsfile s') din' fbn = unat x \<and> unat x \<noteq> 0"
proof (cases "d_addrs din ! fbn = 0")
  case True
  then have e: "x = freeblock s" "din' = din\<lparr>d_addrs := (d_addrs din)[fbn := freeblock s]\<rparr>" "s' = s\<lparr>freeblock := freeblock s + 1\<rparr>"
    using a i L by (auto simp: append_block_def linv_def)
  have "fb s < FSSIZE" using x e linv_len [OF L] sector_small [of x] by (simp add: layout)
  moreover from this have "unat (freeblock s + 1) = Suc (fb s)" by (simp add: next_block)
  moreover have "fblk (fsfile s) din fbn = 0" using True i by (simp add: fblk_def)
  moreover have "fblk (fsfile s) din' fbn = fb s" using i L e(2) by (simp add: fblk_def linv_def)
  moreover have "fb s \<noteq> 0" using linv_len [OF L] by (simp add: layout)
  ultimately show ?thesis
    using alloc_direct [OF L i _ _ refl] e by (simp add: grows_def)
next
  case False
  then show ?thesis using a i L by (auto simp: append_block_def grows_refl fblk_def unat_eq_0)
qed

lemma append_entry:
  assumes L: "linv (fsfile s) (fb s) din O'" and i: "NDIRECT \<le> fbn" "fbn < MAXFILE" and I: "ind din \<noteq> 0"
    and x: "sector x < length (fsfile s')" and r: "rsect (d_addrs din ! NDIRECT) s = Inr b"
    and e: "(b', s') = (if get32 b (4 * (fbn - NDIRECT)) = 0
        then let b' = put32 b (4 * (fbn - NDIRECT)) (freeblock s)
             in (b', wsect (d_addrs din ! NDIRECT) b' (s\<lparr>freeblock := freeblock s + 1\<rparr>))
        else (b, s))" "x = get32 b' (4 * (fbn - NDIRECT))"
  shows "grows din s O' din s' \<and> fblk (fsfile s') din fbn = unat x \<and> unat x \<noteq> 0"
proof -
  have len: "length (fsfile s) = FSSIZE" "fb s \<le> FSSIZE" "nmeta \<le> fb s" using linv_len [OF L] by auto
  have J: "ind din < fb s" using linv_ind [OF L I] by simp
  have b: "b = fsfile s ! ind din" using r rsect_eq [OF len(1)] J len(2) by (simp add: ind_def)
  have lb: "length b = BSIZE" using b J len L by (simp add: linv_def)
  have p: "4 * (fbn - NDIRECT) + 4 \<le> length b" using i by (simp add: lb layout)
  have fk: "fblk (fsfile s) din fbn = unat (get32 b (4 * (fbn - NDIRECT)))" using i I b by (simp add: fblk_def)
  show ?thesis
  proof (cases "get32 b (4 * (fbn - NDIRECT)) = 0")
    case True
    let ?f = "(fsfile s)[ind din := put32 (fsfile s ! ind din) (4 * (fbn - NDIRECT)) (freeblock s)]"
    have s': "s' = s\<lparr>freeblock := freeblock s + 1, fsfile := ?f\<rparr>" and xe: "x = freeblock s"
      using True e p J len by (simp_all add: wsect_in ind_def [symmetric] b Let_def)
    have "fb s < FSSIZE" using x s' xe len sector_small [of x] by (simp add: layout)
    moreover from this have "unat (freeblock s + 1) = Suc (fb s)" by (simp add: next_block)
    ultimately show ?thesis
      using alloc_entry [OF L I i _ _ refl] True fk s' xe len(3) by (simp add: grows_def layout)
  qed (use e fk L in \<open>simp add: grows_refl unat_eq_0\<close>)
qed

lemma append_grows:
  assumes L: "linv (fsfile s) (fb s) din O'" and i: "fbn < MAXFILE" and a: "append_block fbn din s = Inr (x, din', s')"
    and x: "sector x < length (fsfile s')"
  shows "grows din s O' din' s' \<and> fblk (fsfile s') din' fbn = unat x \<and> unat x \<noteq> 0"
proof (cases "fbn < NDIRECT")
  case False
  define din1 s1 where "din1 = (if d_addrs din ! NDIRECT = 0 then din\<lparr>d_addrs := (d_addrs din)[NDIRECT := freeblock s]\<rparr> else din)"
    and "s1 = (if d_addrs din ! NDIRECT = 0 then s\<lparr>freeblock := freeblock s + 1\<rparr> else s)"
  have len: "length (fsfile s) = FSSIZE" "fb s \<le> FSSIZE" "nmeta \<le> fb s" using linv_len [OF L] by auto
  define step where "step b = (if get32 b (4 * (fbn - NDIRECT)) = 0
        then let b' = put32 b (4 * (fbn - NDIRECT)) (freeblock s1)
             in (b', wsect (d_addrs din1 ! NDIRECT) b' (s1\<lparr>freeblock := freeblock s1 + 1\<rparr>))
        else (b, s1))" for b
  have "append_block fbn din s = rbind (rsect (d_addrs din1 ! NDIRECT) s1)
      (\<lambda>b. case step b of (b', s') \<Rightarrow> Inr (get32 b' (4 * (fbn - NDIRECT)), din1, s'))"
    unfolding append_block_def step_def din1_def s1_def xint_id Let_def using False
    by (cases "d_addrs din ! NDIRECT = 0") (simp_all only: simp_thms if_True if_False prod.case)
  with a obtain b where r: "rsect (d_addrs din1 ! NDIRECT) s1 = Inr b"
    and c: "(case step b of (b', s') \<Rightarrow> Inr (get32 b' (4 * (fbn - NDIRECT)), din1, s')) = (Inr (x, din', s') :: _ kres)"
    by (auto simp: rbind_eq_Inr)
  obtain b' where e: "(b', s') = step b" "x = get32 b' (4 * (fbn - NDIRECT))" "din' = din1"
    using c by (cases "step b") auto
  have g: "grows din s O' din1 s1 \<and> ind din1 \<noteq> 0"
  proof (cases "d_addrs din ! NDIRECT = 0")
    case True
    have d1: "d_addrs din1 ! NDIRECT = freeblock s" using True L by (simp add: din1_def linv_def)
    have "fb s < FSSIZE" using r rsect_eq [of s1 "freeblock s"] len d1 by (auto simp: s1_def split: if_splits)
    moreover from this have "unat (freeblock s + 1) = Suc (fb s)" by (simp add: next_block)
    ultimately show ?thesis
      using alloc_ind [OF L, of "freeblock s"] True len(3) d1 by (simp add: grows_def ind_def din1_def s1_def layout)
  next
    case F: False
    then show ?thesis using L by (simp add: din1_def s1_def grows_refl ind_def unat_eq_0)
  qed
  then have "linv (fsfile s1) (fb s1) din1 O'" by (simp add: grows_def)
  from append_entry [OF this _ i _ x r e(1,2) [unfolded step_def]] g False show ?thesis using e(3) by (auto intro: grows_trans)
qed (use append_direct [OF L _ a x] in blast)

section \<open>The content of a file\<close>

definition fcontent :: "block list \<Rightarrow> dinode \<Rightarrow> nat \<Rightarrow> u8 list" where
  "fcontent f din n = map (\<lambda>j. f ! fblk f din (j div BSIZE) ! (j mod BSIZE)) [0..<n]"

text \<open>The first \<open>n\<close> bytes have blocks, and what the file's blocks hold beyond is zero.\<close>

definition covered :: "block list \<Rightarrow> dinode \<Rightarrow> nat \<Rightarrow> bool" where
  "covered f din n \<longleftrightarrow> n \<le> MAXFILE * BSIZE \<and> (\<forall>j < n. fblk f din (j div BSIZE) \<noteq> 0)
     \<and> (\<forall>j. n \<le> j \<longrightarrow> j < MAXFILE * BSIZE \<longrightarrow> fblk f din (j div BSIZE) \<noteq> 0 \<longrightarrow> f ! fblk f din (j div BSIZE) ! (j mod BSIZE) = 0)"

lemma div_MAXFILE: "j < n \<Longrightarrow> n \<le> MAXFILE * BSIZE \<Longrightarrow> j div BSIZE < MAXFILE"
  by (simp add: layout less_mult_imp_div_less)

lemma write_data:
  assumes "linv f n din O'" "k < MAXFILE" "fblk f din k \<noteq> 0" "length b = BSIZE"
  defines "f' \<equiv> f[fblk f din k := b]"
  shows "linv f' n din O'" "\<And>l. fblk f' din l = fblk f din l" "f' ! fblk f din k = b" "\<And>y. y \<noteq> fblk f din k \<Longrightarrow> f' ! y = f ! y"
proof -
  have B: "nmeta \<le> fblk f din k" "fblk f din k < n" "fblk f din k \<notin> O'" using linv_blk [OF assms(1-3)] by auto
  have l: "length f = FSSIZE" "n \<le> FSSIZE" "\<forall>b \<in> set f. length b = BSIZE" using assms(1) by (simp_all add: linv_def)
  have I: "fblk f din k \<noteq> ind din" using assms(1-3) by (simp add: linv_def)
  show e: "fblk f' din l = fblk f din l" for l using I by (simp add: fblk_def f'_def)
  show "f' ! fblk f din k = b" "\<And>y. y \<noteq> fblk f din k \<Longrightarrow> f' ! y = f ! y" using B l by (simp_all add: f'_def)
  have fbs: "file_blocks f' din = file_blocks f din" by (simp add: file_blocks_def e)
  have "\<forall>b \<in> set f'. length b = BSIZE"
    using l(3) assms(4) by (auto simp: f'_def dest: set_update_subset_insert [THEN subsetD])
  moreover have "length f' = FSSIZE" "\<forall>x. n \<le> x \<longrightarrow> f' ! x = f ! x" using l B by (auto simp: f'_def)
  ultimately show "linv f' n din O'" using assms(1) e fbs unfolding linv_def by auto
qed

lemma content_grew:
  assumes "grew f n din O' f' n' din'" "covered f din m"
  shows "fcontent f' din' m = fcontent f din m" "covered f' din' m"
proof -
  have g: "fblk f' din' (j div BSIZE) = fblk f din (j div BSIZE) \<and> f' ! fblk f din (j div BSIZE) = f ! fblk f din (j div BSIZE)"
    if "j < m" for j
    using assms that div_MAXFILE [OF that] unfolding grew_def covered_def by blast
  show "fcontent f' din' m = fcontent f din m" by (simp add: fcontent_def g)
  have z: "f' ! fblk f' din' (j div BSIZE) ! (j mod BSIZE) = 0"
    if j: "m \<le> j" "j < MAXFILE * BSIZE" "fblk f' din' (j div BSIZE) \<noteq> 0" for j
  proof (cases "fblk f din (j div BSIZE) = 0")
    case True
    then have "f' ! fblk f' din' (j div BSIZE) = zeroes"
      using grew_new [OF assms(1) div_MAXFILE [OF j(2) order_refl]] j(3) by simp
    then show ?thesis by (simp add: layout)
  next
    case False
    then have "fblk f' din' (j div BSIZE) = fblk f din (j div BSIZE) \<and> f' ! fblk f din (j div BSIZE) = f ! fblk f din (j div BSIZE)"
      using grew_old [OF assms(1) div_MAXFILE [OF j(2) order_refl]] by simp
    with False j assms(2) show ?thesis unfolding covered_def by metis
  qed
  show "covered f' din' m" unfolding covered_def
    using assms(2) g z unfolding covered_def by metis
qed

lemma content_append:
  assumes L: "linv f n din O'" and c: "covered f din off" and k: "k = off div BSIZE" "k < MAXFILE" "fblk f din k \<noteq> 0"
    and m: "length xs \<le> (k + 1) * BSIZE - off"
  defines "f' \<equiv> f[fblk f din k := overwrite (f ! fblk f din k) (off - k * BSIZE) xs]"
  shows "fcontent f' din (off + length xs) = fcontent f din off @ xs" "covered f' din (off + length xs)" "linv f' n din O'"
proof -
  have B: "fblk f din k < n" "n \<le> FSSIZE" "length f = FSSIZE" "\<forall>b \<in> set f. length b = BSIZE"
    using linv_blk [OF L k(2,3)] L by (simp_all add: linv_def)
  then have lb: "length (f ! fblk f din k) = BSIZE" by simp
  have o: "off - k * BSIZE = off mod BSIZE" "off = k * BSIZE + off mod BSIZE" by (simp_all add: k(1) minus_div_mult_eq_mod)
  have "(k + 1) * BSIZE = k * BSIZE + BSIZE" "off mod BSIZE < BSIZE" by (simp_all add: layout)
  then have r: "off mod BSIZE + length xs \<le> BSIZE" using m o(2) by linarith
  let ?b = "overwrite (f ! fblk f din k) (off mod BSIZE) xs"
  have lb': "length ?b = BSIZE" using r lb by simp
  note w = write_data [OF L k(2,3) lb']
  have f': "f' = f[fblk f din k := ?b]" by (simp add: f'_def o(1))
  show "linv f' n din O'" unfolding f' by (rule w(1))
  have jd: "j div BSIZE = k" if "off \<le> j" "j < off + length xs" for j
    using that o(2) r by (intro div_nat_eqI) (simp_all add: algebra_simps)
  show "covered f' din (off + length xs)"
    unfolding covered_def f' w(2)
  proof (intro conjI allI impI)
    have "off + length xs \<le> (k + 1) * BSIZE" using o(2) r by (simp add: algebra_simps)
    also have "\<dots> \<le> MAXFILE * BSIZE" using k(2) by (intro mult_right_mono) simp_all
    finally show "off + length xs \<le> MAXFILE * BSIZE" .
    show "fblk f din (j div BSIZE) \<noteq> 0" if "j < off + length xs" for j
      using that c k(3) jd by (cases "j < off") (auto simp: covered_def)
    show "f[fblk f din k := ?b] ! fblk f din (j div BSIZE) ! (j mod BSIZE) = 0"
      if j: "off + length xs \<le> j" "j < MAXFILE * BSIZE" "fblk f din (j div BSIZE) \<noteq> 0" for j
    proof (cases "j div BSIZE = k")
      case True
      have "j = k * BSIZE + j mod BSIZE" using True div_mult_mod_eq [of j BSIZE] by simp
      then have "off mod BSIZE + length xs \<le> j mod BSIZE" using j(1) o(2) by linarith
      moreover have "j mod BSIZE < BSIZE" by (simp add: layout)
      ultimately have "?b ! (j mod BSIZE) = f ! fblk f din k ! (j mod BSIZE)" using r lb by (subst nth_overwrite) simp_all
      then show ?thesis using c j True w(3) by (auto simp: covered_def)
    next
      case False
      then have "fblk f din (j div BSIZE) \<noteq> fblk f din k"
        using L k(2) j(3) div_MAXFILE [OF j(2) order_refl] by (auto simp: linv_def)
      then show ?thesis using c j w(4) by (auto simp: covered_def)
    qed
  qed
  show "fcontent f' din (off + length xs) = fcontent f din off @ xs"
  proof (rule nth_equalityI)
    fix j assume "j < length (fcontent f' din (off + length xs))"
    then have j: "j < off + length xs" by (simp add: fcontent_def)
    have v: "fcontent f' din (off + length xs) ! j = f' ! fblk f din (j div BSIZE) ! (j mod BSIZE)"
      using j by (simp add: fcontent_def f' w(2))
    have modj: "j = k * BSIZE + j mod BSIZE" if "j div BSIZE = k" using that div_mult_mod_eq [of j BSIZE] by simp
    have nb: "?b ! i = (if off mod BSIZE \<le> i \<and> i < off mod BSIZE + length xs then xs ! (i - off mod BSIZE) else f ! fblk f din k ! i)"
      if "i < BSIZE" for i using that r lb by (intro nth_overwrite) simp_all
    show "fcontent f' din (off + length xs) ! j = (fcontent f din off @ xs) ! j"
    proof (cases "j < off")
      case False
      then have jk: "j div BSIZE = k" using j jd by simp
      have "off mod BSIZE \<le> j mod BSIZE" "j mod BSIZE < off mod BSIZE + length xs" "j mod BSIZE - off mod BSIZE = j - off"
        using modj [OF jk] o(2) False j by linarith+
      moreover have "j mod BSIZE < BSIZE" by (simp add: layout)
      ultimately have "?b ! (j mod BSIZE) = xs ! (j - off)" using nb [of "j mod BSIZE"] by simp
      then show ?thesis using v jk False by (simp add: f' w(3) fcontent_def nth_append)
    next
      case True
      have "f' ! fblk f din (j div BSIZE) ! (j mod BSIZE) = f ! fblk f din (j div BSIZE) ! (j mod BSIZE)"
      proof (cases "j div BSIZE = k")
        case jk: True
        have "j mod BSIZE < off mod BSIZE" using modj [OF jk] True o(2) by linarith
        moreover have "j mod BSIZE < BSIZE" by (simp add: layout)
        ultimately show ?thesis using jk nb [of "j mod BSIZE"] by (simp add: f' w(3))
      next
        case jk: False
        have "fblk f din (j div BSIZE) \<noteq> 0" "j div BSIZE < MAXFILE" using c True div_MAXFILE by (auto simp: covered_def)
        then have "fblk f din (j div BSIZE) \<noteq> fblk f din k" using L k(2) jk by (auto simp: linv_def)
        then show ?thesis by (simp add: f' w(4))
      qed
      then show ?thesis using v True by (simp add: fcontent_def nth_append)
    qed
  qed (simp add: fcontent_def)
qed

section \<open>The loop\<close>

text \<open>What the loop keeps: everything but the file itself.\<close>

definition keeps :: "dinode \<Rightarrow> mkstate \<Rightarrow> nat set \<Rightarrow> dinode \<Rightarrow> mkstate \<Rightarrow> bool" where
  "keeps din s O' din' s' \<longleftrightarrow> linv (fsfile s') (fb s') din' O' \<and> fb s \<le> fb s' \<and> din'\<lparr>d_addrs := []\<rparr> = din\<lparr>d_addrs := []\<rparr>
     \<and> freeinode s' = freeinode s \<and> (\<forall>b. b < nmeta \<or> b \<in> O' \<longrightarrow> fsfile s' ! b = fsfile s ! b)"

lemma keeps_trans: "keeps din s O' din1 s1 \<Longrightarrow> keeps din1 s1 O' din2 s2 \<Longrightarrow> keeps din s O' din2 s2"
  by (auto simp: keeps_def)

lemma append_turn:
  assumes L: "linv (fsfile s) (fb s) din O'" and c: "covered (fsfile s) din (unat off)" and k: "k = unat off div BSIZE" "k < MAXFILE"
    and a: "append_block k din s = Inr (x, din1, s1)" and r: "rsect x s1 = Inr buf" and m: "length xs \<le> (k + 1) * BSIZE - unat off"
  defines "s2 \<equiv> wsect x (overwrite buf (unat off - k * BSIZE) xs) s1"
  shows "keeps din s O' din1 s2 \<and> covered (fsfile s2) din1 (unat off + length xs)
    \<and> fcontent (fsfile s2) din1 (unat off + length xs) = fcontent (fsfile s) din (unat off) @ xs"
proof -
  have x: "sector x < length (fsfile s1)" using r by (simp add: rsect_def split: if_splits)
  have g: "grows din s O' din1 s1" and xb: "fblk (fsfile s1) din1 k = unat x" "unat x \<noteq> 0"
    using append_grows [OF L k(2) a x] by auto
  have L1: "linv (fsfile s1) (fb s1) din1 O'" and gr: "grew (fsfile s) (fb s) din O' (fsfile s1) (fb s1) din1"
    using g by (simp_all add: grows_def)
  have B: "nmeta \<le> unat x" "unat x < fb s1" "unat x \<notin> O'" using linv_blk [OF L1 k(2)] xb by auto
  have len: "length (fsfile s1) = FSSIZE" "unat x < FSSIZE" using linv_len [OF L1] B by auto
  have buf: "buf = fsfile s1 ! unat x" using r rsect_eq [OF len(1), of x] len by simp
  have s2: "s2 = s1\<lparr>fsfile := (fsfile s1)[fblk (fsfile s1) din1 k := overwrite (fsfile s1 ! fblk (fsfile s1) din1 k) (unat off - k * BSIZE) xs]\<rparr>"
    unfolding s2_def buf xb using len by (simp add: wsect_in)
  note ca = content_append [OF L1 content_grew(2) [OF gr c] k xb(2) [folded xb(1)] m]
  have "(fsfile s1)[unat x := z] ! b = fsfile s1 ! b" if "b < nmeta \<or> b \<in> O'" for z b
    using B that by (auto intro!: nth_list_update_neq)
  then have "keeps din s O' din1 s2"
    using ca(3) g unfolding s2 xb keeps_def grows_def grew_def by simp
  then show ?thesis using ca(1,2) content_grew(1) [OF gr c] by (simp add: s2)
qed

lemma iappend_loop_ok:
  "linv (fsfile s) (fb s) din O' \<Longrightarrow> covered (fsfile s) din (unat off) \<Longrightarrow> iappend_loop p off din s = Inr (off', din', s') \<Longrightarrow>
     unat off' = unat off + length p \<and> keeps din s O' din' s' \<and> covered (fsfile s') din' (unat off')
     \<and> fcontent (fsfile s') din' (unat off') = fcontent (fsfile s) din (unat off) @ p"
proof (induction p off din s rule: iappend_loop.induct)
  case (1 p off din s)
  show ?case
  proof (cases "p = []")
    case True
    then show ?thesis using "1.prems" by (simp add: iappend_loop.simps keeps_def)
  next
    case False
    let ?k = "unat off div BSIZE"
    let ?n = "min (length p) ((?k + 1) * BSIZE - unat off)"
    from "1.prems"(3) False obtain x din1 s1 buf where k: "?k < MAXFILE" and a: "append_block ?k din s = Inr (x, din1, s1)"
      and r: "rsect x s1 = Inr buf"
      and l: "iappend_loop (drop ?n p) (off + of_nat ?n) din1 (wsect x (overwrite buf (unat off - ?k * BSIZE) (take ?n p)) s1) = Inr (off', din', s')"
      by (subst (asm) iappend_loop.simps) (auto simp: rbind_eq_Inr Let_def split: if_splits)
    let ?s2 = "wsect x (overwrite buf (unat off - ?k * BSIZE) (take ?n p)) s1"
    have m: "length (take ?n p) \<le> (?k + 1) * BSIZE - unat off" "length (take ?n p) = ?n" by simp_all
    note t = append_turn [OF "1.prems"(1,2) refl k a r m(1), unfolded m(2)]
    have "unat off + ?n \<le> MAXFILE * BSIZE" using t by (simp add: covered_def)
    then have o: "unat (off + of_nat ?n) = unat off + ?n" by (simp add: layout unat_word_ariths unat_of_nat)
    have IH: "unat off' = unat (off + of_nat ?n) + length (drop ?n p) \<and> keeps din1 ?s2 O' din' s' \<and> covered (fsfile s') din' (unat off')
       \<and> fcontent (fsfile s') din' (unat off') = fcontent (fsfile ?s2) din1 (unat (off + of_nat ?n)) @ drop ?n p"
      by (rule "1.IH" [OF False refl _ a refl refl refl r]) (use k t o l in \<open>auto simp: keeps_def\<close>)
    have "keeps din s O' din' s'" using t IH keeps_trans by blast
    moreover have "unat off' = unat off + length p" using IH o by simp
    moreover have "fcontent (fsfile s') din' (unat off') = fcontent (fsfile s) din (unat off) @ take ?n p @ drop ?n p"
      unfolding IH [THEN conjunct2, THEN conjunct2, THEN conjunct2] o t [THEN conjunct2, THEN conjunct2] by simp
    moreover have "covered (fsfile s') din' (unat off')" using IH by blast
    ultimately show ?thesis unfolding append_take_drop_id by blast
  qed
qed

section \<open>The loop ends with a result\<close>

lemma append_returns:
  assumes L: "linv (fsfile s) (fb s) din O'" and k: "k < MAXFILE" and room: "fb s + 2 \<le> FSSIZE"
  shows "\<exists>x din1 s1 buf. append_block k din s = Inr (x, din1, s1) \<and> rsect x s1 = Inr buf \<and> fb s1 \<le> fb s + 2"
proof (cases "k < NDIRECT")
  case True
  have len: "length (fsfile s) = FSSIZE" using linv_len [OF L] by simp
  show ?thesis
  proof (cases "d_addrs din ! k = 0")
    case z: True
    then show ?thesis using True L room len rsect_eq [of "s\<lparr>freeblock := freeblock s + 1\<rparr>" "freeblock s"] next_block [of s]
      by (simp add: append_block_def linv_def)
  next
    case z: False
    then have "unat (d_addrs din ! k) < fb s" using linv_blk [OF L k] True by (simp add: fblk_def unat_eq_0)
    then show ?thesis using z True room len rsect_eq [of s "d_addrs din ! k"] by (simp add: append_block_def)
  qed
next
  case False
  have len: "length (fsfile s) = FSSIZE" "nmeta \<le> fb s" using linv_len [OF L] by simp_all
  define din1 s1 where "din1 = (if d_addrs din ! NDIRECT = 0 then din\<lparr>d_addrs := (d_addrs din)[NDIRECT := freeblock s]\<rparr> else din)"
    and "s1 = (if d_addrs din ! NDIRECT = 0 then s\<lparr>freeblock := freeblock s + 1\<rparr> else s)"
  have L1: "linv (fsfile s1) (fb s1) din1 O'" and I: "ind din1 \<noteq> 0" and r1: "fb s1 < FSSIZE" "fb s1 \<le> fb s + 1" and f1: "fsfile s1 = fsfile s"
  proof -
    have "linv (fsfile s1) (fb s1) din1 O' \<and> ind din1 \<noteq> 0 \<and> fb s1 < FSSIZE \<and> fb s1 \<le> fb s + 1 \<and> fsfile s1 = fsfile s"
    proof (cases "d_addrs din ! NDIRECT = 0")
      case True
      have "d_addrs din1 ! NDIRECT = freeblock s" using True L by (simp add: din1_def linv_def)
      then show ?thesis
        using alloc_ind [OF L, of "freeblock s"] True len(2) room next_block [of s] by (simp add: ind_def din1_def s1_def layout)
    next
      case F: False
      then show ?thesis using L room by (simp add: din1_def s1_def ind_def unat_eq_0)
    qed
    then show "linv (fsfile s1) (fb s1) din1 O'" "ind din1 \<noteq> 0" "fb s1 < FSSIZE" "fb s1 \<le> fb s + 1" "fsfile s1 = fsfile s" by blast+
  qed
  let ?p = "4 * (k - NDIRECT)" and ?b = "fsfile s1 ! ind din1"
  have J: "ind din1 < fb s1" using linv_ind [OF L1 I] by simp
  have rs: "rsect (d_addrs din1 ! NDIRECT) s1 = Inr ?b" using rsect_eq [of s1 "d_addrs din1 ! NDIRECT"] J r1 len f1 by (simp add: ind_def)
  have ab: "append_block k din s = (case (if get32 ?b ?p = 0
        then let b' = put32 ?b ?p (freeblock s1) in (b', wsect (d_addrs din1 ! NDIRECT) b' (s1\<lparr>freeblock := freeblock s1 + 1\<rparr>))
        else (?b, s1)) of (b', s') \<Rightarrow> Inr (get32 b' ?p, din1, s'))"
    using False rs unfolding append_block_def din1_def s1_def xint_id Let_def
    by (cases "d_addrs din ! NDIRECT = 0") (simp_all only: simp_thms if_True if_False prod.case rbind_simps)
  have "length ?b = BSIZE" using L1 J r1 by (simp add: linv_def)
  then have p: "?p + 4 \<le> length ?b" using k False by (simp add: layout)
  show ?thesis
  proof (cases "get32 ?b ?p = 0")
    case True
    let ?s2 = "wsect (d_addrs din1 ! NDIRECT) (put32 ?b ?p (freeblock s1)) (s1\<lparr>freeblock := freeblock s1 + 1\<rparr>)"
    have s2: "length (fsfile ?s2) = FSSIZE" "freeblock ?s2 = freeblock s1 + 1"
      using wsect_in [of "s1\<lparr>freeblock := freeblock s1 + 1\<rparr>" "d_addrs din1 ! NDIRECT"] J r1 len f1 by (simp_all add: ind_def)
    have "append_block k din s = Inr (freeblock s1, din1, ?s2)" using ab True p by (simp add: Let_def)
    moreover have "\<exists>buf. rsect (freeblock s1) ?s2 = Inr buf" using rsect_eq [OF s2(1), of "freeblock s1"] r1 by simp
    moreover have "fb ?s2 \<le> fb s + 2" using s2 r1 next_block [of s1] by simp
    ultimately show ?thesis by blast
  next
    case F: False
    have "fblk (fsfile s1) din1 k = unat (get32 ?b ?p)" using False I by (simp add: fblk_def)
    then have "unat (get32 ?b ?p) < fb s1" using linv_blk [OF L1 k] F by (simp add: unat_eq_0)
    then have "\<exists>buf. rsect (get32 ?b ?p) s1 = Inr buf" using rsect_eq [of s1 "get32 ?b ?p"] r1 len f1 by simp
    moreover have "append_block k din s = Inr (get32 ?b ?p, din1, s1)" using ab F by simp
    ultimately show ?thesis using r1 by fastforce
  qed
qed

text \<open>The number of turns for \<open>n\<close> bytes at offset \<open>off\<close>.\<close>

definition turns :: "nat \<Rightarrow> nat \<Rightarrow> nat" where
  "turns off n = (off mod BSIZE + n + BSIZE - 1) div BSIZE"

lemma turns_next:
  assumes "0 < n" "m = min n ((off div BSIZE + 1) * BSIZE - off)"
  shows "turns (off + m) (n - m) < turns off n \<or> n - m = 0 \<and> 0 < turns off n"
proof (cases "n \<le> (off div BSIZE + 1) * BSIZE - off")
  case True
  then have "m = n" using assms(2) by simp
  moreover have "0 < turns off n" using assms(1) by (simp add: turns_def layout div_greater_zero_iff)
  ultimately show ?thesis by simp
next
  case False
  have e: "(off div BSIZE + 1) * BSIZE - off = BSIZE - off mod BSIZE"
    using div_mult_mod_eq [of off BSIZE] unfolding distrib_right mult_1 by linarith
  have lt: "off mod BSIZE < BSIZE" by (simp add: layout)
  have m: "m = BSIZE - off mod BSIZE" using False assms(2) e by simp
  have "off + m = (off div BSIZE + 1) * BSIZE" using m lt div_mult_mod_eq [of off BSIZE] unfolding distrib_right mult_1 by linarith
  then have z: "(off + m) mod BSIZE = 0" by simp
  have "off mod BSIZE + n + BSIZE - 1 = (n - m + BSIZE - 1) + BSIZE" using m lt False e by linarith
  then have "turns off n = Suc ((n - m + BSIZE - 1) div BSIZE)" by (simp add: turns_def layout)
  then show ?thesis by (simp add: turns_def z)
qed

lemma iappend_loop_returns:
  "linv (fsfile s) (fb s) din O' \<Longrightarrow> covered (fsfile s) din (unat off) \<Longrightarrow> unat off + length p \<le> MAXFILE * BSIZE \<Longrightarrow>
     fb s + 2 * turns (unat off) (length p) \<le> FSSIZE \<Longrightarrow>
     \<exists>off' din' s'. iappend_loop p off din s = Inr (off', din', s') \<and> fb s' \<le> fb s + 2 * turns (unat off) (length p)"
proof (induction p off din s rule: iappend_loop.induct)
  case (1 p off din s)
  show ?case
  proof (cases "p = []")
    case False
    let ?k = "unat off div BSIZE"
    let ?n = "min (length p) ((?k + 1) * BSIZE - unat off)"
    have k: "?k < MAXFILE" using "1.prems"(3) False by (intro div_MAXFILE [of _ "unat off + length p"]) simp_all
    have tn: "turns (unat off + ?n) (length p - ?n) < turns (unat off) (length p) \<or> length p - ?n = 0 \<and> 0 < turns (unat off) (length p)"
      using False by (intro turns_next) simp_all
    then have "0 < turns (unat off) (length p)" by linarith
    with "1.prems"(4) have room: "fb s + 2 \<le> FSSIZE" by linarith
    obtain x din1 s1 buf where a: "append_block ?k din s = Inr (x, din1, s1)" and r: "rsect x s1 = Inr buf" and b: "fb s1 \<le> fb s + 2"
      using append_returns [OF "1.prems"(1) k room] by blast
    let ?s2 = "wsect x (overwrite buf (unat off - ?k * BSIZE) (take ?n p)) s1"
    have e: "iappend_loop p off din s = iappend_loop (drop ?n p) (off + of_nat ?n) din1 ?s2"
      using False k a r by (subst iappend_loop.simps) (simp add: Let_def)
    have m: "length (take ?n p) \<le> (?k + 1) * BSIZE - unat off" "length (take ?n p) = ?n" by simp_all
    note t = append_turn [OF "1.prems"(1,2) refl k a r m(1), unfolded m(2)]
    have "unat off + ?n \<le> MAXFILE * BSIZE" using "1.prems"(3) by simp
    then have o: "unat (off + of_nat ?n) = unat off + ?n" by (simp add: layout unat_word_ariths unat_of_nat)
    have f2: "freeblock ?s2 = freeblock s1" by (simp add: wsect_def)
    show ?thesis
    proof (cases "length p - ?n = 0")
      case True
      then have "drop ?n p = []" by simp
      then show ?thesis using e b f2 \<open>0 < turns (unat off) (length p)\<close> by (simp add: iappend_loop.simps)
    next
      case N: False
      have ld: "length (drop ?n p) = length p - ?n" by simp
      have tt: "turns (unat off + ?n) (length p - ?n) < turns (unat off) (length p)" using tn N by blast
      have "\<exists>off' din' s'. iappend_loop (drop ?n p) (off + of_nat ?n) din1 ?s2 = Inr (off', din', s')
          \<and> fb s' \<le> fb ?s2 + 2 * turns (unat (off + of_nat ?n)) (length (drop ?n p))"
      proof (rule "1.IH" [OF False refl _ a refl refl refl r])
        show "linv (fsfile ?s2) (fb ?s2) din1 O'" using t by (simp add: keeps_def)
        show "covered (fsfile ?s2) din1 (unat (off + of_nat ?n))" using t o by simp
        show "unat (off + of_nat ?n) + length (drop ?n p) \<le> MAXFILE * BSIZE" using "1.prems"(3) o ld by linarith
        show "fb ?s2 + 2 * turns (unat (off + of_nat ?n)) (length (drop ?n p)) \<le> FSSIZE"
          unfolding o ld f2 using tt b "1.prems"(4) by linarith
      qed (use k in simp)
      then obtain off' din' s' where "iappend_loop (drop ?n p) (off + of_nat ?n) din1 ?s2 = Inr (off', din', s')"
        "fb s' \<le> fb s1 + 2 * turns (unat off + ?n) (length p - ?n)" unfolding o ld f2 by blast
      then show ?thesis using e tt b by (intro exI conjI) (simp, linarith)
    qed
  qed (simp add: iappend_loop.simps)
qed

end
