(* ===== verification/Mkfs_Image.thy ===== *)
theory Mkfs_Image
  imports Mkfs_Append
begin

text \<open>
  The image as a list of files: every inode with its type and its content. \<^verbatim>\<open>ialloc\<close> of \<^verbatim>\<open>mkfs.c\<close> adds an empty
  file to that list and \<^verbatim>\<open>iappend\<close> appends to one of its files, and no two files share a block.
\<close>

section \<open>Inodes on the image\<close>

definition NSLOTS :: nat where "NSLOTS = ninodeblocks * IPB"

definition isect :: "nat \<Rightarrow> nat" where "isect i = 33 + i div IPB"

definition inode_of :: "block list \<Rightarrow> nat \<Rightarrow> dinode" where
  "inode_of f i = get_dinode (f ! isect i) (i mod IPB)"

lemma slots: "NSLOTS = 208"
  by (simp add: NSLOTS_def ninodeblocks_def NINODES_def IPB_def BSIZE_def)

lemma isect_meta: "i < NSLOTS \<Longrightarrow> 33 \<le> isect i \<and> isect i < 46 \<and> isect i < nmeta"
  by (auto simp: isect_def slots layout div_less_iff_less_mult)

lemma IBLOCK_isect: "unat inum < NSLOTS \<Longrightarrow> unat (IBLOCK (unat inum) mk_sb) = isect (unat inum)"
  by (simp add: IBLOCK_def mk_sb_def mk_nlog_def LOGBLOCKS_def MAXOPBLOCKS_def isect_def layout slots unat_word_ariths unat_of_nat)

definition base :: "block list \<Rightarrow> nat \<Rightarrow> bool" where
  "base f n \<longleftrightarrow> length f = FSSIZE \<and> (\<forall>b \<in> set f. length b = BSIZE) \<and> nmeta \<le> n \<and> n \<le> FSSIZE
     \<and> (\<forall>x. n \<le> x \<longrightarrow> x < FSSIZE \<longrightarrow> f ! x = zeroes)"

definition own :: "block list \<Rightarrow> nat \<Rightarrow> dinode \<Rightarrow> bool" where
  "own f n d \<longleftrightarrow> length (d_addrs d) = NDIRECT + 1 \<and> file_blocks f d \<subseteq> {nmeta..<n}
     \<and> (\<forall>k < MAXFILE. \<forall>l < MAXFILE. fblk f d k = fblk f d l \<longrightarrow> fblk f d k \<noteq> 0 \<longrightarrow> k = l)
     \<and> (\<forall>k < MAXFILE. fblk f d k \<noteq> 0 \<longrightarrow> fblk f d k \<noteq> ind d)"

lemma linv_iff: "linv f n d O' \<longleftrightarrow> base f n \<and> own f n d \<and> O' \<subseteq> {nmeta..<n} \<and> file_blocks f d \<inter> O' = {}"
  unfolding linv_def base_def own_def by blast

lemma base_upd:
  assumes "base f n" "x < n" "length b = BSIZE"
  shows "base (f[x := b]) n"
  using assms by (auto simp: base_def dest: set_update_subset_insert [THEN subsetD])

lemma winode_ok:
  assumes "base (fsfile s) n" "unat inum = i" "i < NSLOTS" "length (d_addrs d) = NDIRECT + 1"
  shows "\<exists>f'. winode inum d s = Inr (s\<lparr>fsfile := f'\<rparr>) \<and> base f' n \<and> inode_of f' i = d
    \<and> (\<forall>j < NSLOTS. j \<noteq> i \<longrightarrow> inode_of f' j = inode_of (fsfile s) j) \<and> (\<forall>x. x < 33 \<or> 46 \<le> x \<longrightarrow> f' ! x = fsfile s ! x)"
proof -
  let ?f = "fsfile s" and ?x = "isect i"
  let ?b = "put_dinode (?f ! ?x) (i mod IPB) d"
  have x: "33 \<le> ?x" "?x < 46" "?x < nmeta" using isect_meta [OF assms(3)] by auto
  have len: "length ?f = FSSIZE" "length (?f ! ?x) = BSIZE" "?x < FSSIZE" "nmeta \<le> n"
    using assms(1) x by (simp_all add: base_def layout)
  have u: "unat (IBLOCK (unat inum) mk_sb) = ?x" using IBLOCK_isect [of inum] assms(2,3) by simp
  have slot: "64 * (i mod IPB) + 64 \<le> length (?f ! ?x)" by (rule IPB_slot [OF len(2)])
  note pd = put_dinode_get [OF slot assms(4)]
  have w: "winode inum d s = Inr (s\<lparr>fsfile := ?f[?x := ?b]\<rparr>)"
    using rsect_eq [OF len(1), of "IBLOCK (unat inum) mk_sb"] wsect_in [OF len(1), of "IBLOCK (unat inum) mk_sb"] u len(3) assms(2)
    by (simp add: winode_def Let_def)
  have b: "base (?f[?x := ?b]) n" by (rule base_upd [OF assms(1)]) (use x len pd(2) in simp_all)
  have o: "inode_of (?f[?x := ?b]) j = inode_of ?f j" if "j < NSLOTS" "j \<noteq> i" for j
  proof (cases "isect j = ?x")
    case True
    then have "j mod IPB \<noteq> i mod IPB" using that(2) by (metis isect_def add_left_cancel div_mult_mod_eq)
    then show ?thesis using True len pd(3) IPB_slot [OF len(2), of j] by (simp add: inode_of_def)
  qed (simp add: inode_of_def)
  have "inode_of (?f[?x := ?b]) i = d" using len pd(1) by (simp add: inode_of_def)
  moreover have "\<forall>x. x < 33 \<or> 46 \<le> x \<longrightarrow> ?f[?x := ?b] ! x = ?f ! x" using x by (auto intro!: nth_list_update_neq)
  ultimately show ?thesis using w b o by blast
qed

lemma rinode_ok:
  assumes "base (fsfile s) n" "unat inum < NSLOTS"
  shows "rinode inum s = Inr (inode_of (fsfile s) (unat inum))"
proof -
  have "length (fsfile s) = FSSIZE" "isect (unat inum) < FSSIZE" using assms isect_meta [of "unat inum"] by (simp_all add: base_def layout)
  then show ?thesis
    using rsect_eq [of s "IBLOCK (unat inum) mk_sb"] IBLOCK_isect [OF assms(2)] by (simp add: rinode_def Let_def inode_of_def)
qed

section \<open>Files that are left alone\<close>

lemma untouched:
  assumes "own f n d" "n \<le> n'" "\<forall>x \<in> file_blocks f d. f' ! x = f ! x"
  shows "own f' n' d" "\<And>k. k < MAXFILE \<Longrightarrow> fblk f' d k = fblk f d k" "file_blocks f' d = file_blocks f d"
    "covered f d m \<Longrightarrow> covered f' d m" "covered f d m \<Longrightarrow> fcontent f' d m = fcontent f d m"
proof -
  have i: "ind d \<noteq> 0 \<Longrightarrow> f' ! ind d = f ! ind d" using assms(3) by (simp add: file_blocks_def)
  have k: "fblk f' d k = fblk f d k" for k using i by (simp add: fblk_def)
  then show "\<And>k. k < MAXFILE \<Longrightarrow> fblk f' d k = fblk f d k" by simp
  have b: "f' ! fblk f d k = f ! fblk f d k" if "k < MAXFILE" "fblk f d k \<noteq> 0" for k
    using assms(3) that by (auto simp: file_blocks_def)
  show fb: "file_blocks f' d = file_blocks f d" by (simp add: file_blocks_def k)
  show "own f' n' d" using assms(1,2) unfolding own_def fb k by auto
  have bj: "f' ! fblk f d (j div BSIZE) = f ! fblk f d (j div BSIZE)" if "j < MAXFILE * BSIZE" "fblk f d (j div BSIZE) \<noteq> 0" for j
    using b that div_MAXFILE by blast
  show "covered f' d m" if "covered f d m" using that bj unfolding covered_def k by simp
  show "fcontent f' d m = fcontent f d m" if "covered f d m"
    using that bj unfolding covered_def fcontent_def k by simp
qed

section \<open>The image\<close>

abbreviation ni :: "mkstate \<Rightarrow> nat" where "ni s \<equiv> unat (freeinode s)"

abbreviation isize :: "block list \<Rightarrow> nat \<Rightarrow> nat" where "isize f i \<equiv> unat (d_size (inode_of f i))"

definition icontent :: "block list \<Rightarrow> nat \<Rightarrow> u8 list" where
  "icontent f i = fcontent f (inode_of f i) (isize f i)"

definition mk_inv :: "mkstate \<Rightarrow> bool" where
  "mk_inv s \<longleftrightarrow> base (fsfile s) (fb s) \<and> 1 \<le> ni s \<and> ni s \<le> NSLOTS
     \<and> (\<forall>i \<in> {1..<ni s}. own (fsfile s) (fb s) (inode_of (fsfile s) i) \<and> covered (fsfile s) (inode_of (fsfile s) i) (isize (fsfile s) i))
     \<and> (\<forall>i \<in> {1..<ni s}. \<forall>j \<in> {1..<ni s}. i \<noteq> j \<longrightarrow>
          file_blocks (fsfile s) (inode_of (fsfile s) i) \<inter> file_blocks (fsfile s) (inode_of (fsfile s) j) = {})"

text \<open>The list of files; inode \<open>i\<close> is at position \<open>i - 1\<close>.\<close>

definition mk_files :: "mkstate \<Rightarrow> (u16 \<times> u8 list) list" where
  "mk_files s = map (\<lambda>i. (d_type (inode_of (fsfile s) i), icontent (fsfile s) i)) [1..<ni s]"

lemma size_irrelevant [simp]:
  "ind (d\<lparr>d_size := v\<rparr>) = ind d" "fblk f (d\<lparr>d_size := v\<rparr>) k = fblk f d k" "file_blocks f (d\<lparr>d_size := v\<rparr>) = file_blocks f d"
  "own f n (d\<lparr>d_size := v\<rparr>) = own f n d" "covered f (d\<lparr>d_size := v\<rparr>) m = covered f d m" "fcontent f (d\<lparr>d_size := v\<rparr>) m = fcontent f d m"
  by (simp_all add: ind_def fblk_def file_blocks_def own_def covered_def fcontent_def)

lemma length_files [simp]: "length (mk_files s) = ni s - 1"
  by (simp add: mk_files_def)

lemma nth_files: "i \<in> {1..<ni s} \<Longrightarrow> mk_files s ! (i - 1) = (d_type (inode_of (fsfile s) i), icontent (fsfile s) i)"
  by (subst mk_files_def, subst nth_map) auto

text \<open>The blocks of the files other than \<open>i\<close>.\<close>

definition other_blocks :: "mkstate \<Rightarrow> nat \<Rightarrow> nat set" where
  "other_blocks s i = (\<Union>j \<in> {1..<ni s} - {i}. file_blocks (fsfile s) (inode_of (fsfile s) j))"

lemma mk_inv_linv:
  assumes "mk_inv s" "i \<in> {1..<ni s}"
  shows "linv (fsfile s) (fb s) (inode_of (fsfile s) i) (other_blocks s i)" "covered (fsfile s) (inode_of (fsfile s) i) (isize (fsfile s) i)"
proof -
  have "other_blocks s i \<subseteq> {nmeta..<fb s}" using assms(1) unfolding mk_inv_def other_blocks_def own_def by blast
  moreover have "file_blocks (fsfile s) (inode_of (fsfile s) i) \<inter> other_blocks s i = {}"
    using assms unfolding mk_inv_def other_blocks_def by blast
  ultimately show "linv (fsfile s) (fb s) (inode_of (fsfile s) i) (other_blocks s i)"
    using assms unfolding linv_iff mk_inv_def by blast
  show "covered (fsfile s) (inode_of (fsfile s) i) (isize (fsfile s) i)" using assms unfolding mk_inv_def by blast
qed

text \<open>A new version \<open>d'\<close> of inode \<open>i\<close> with blocks of its own keeps the invariant.\<close>

lemma mk_inv_replace:
  assumes I: "mk_inv s" "i \<in> {1..<ni s}"
    and b: "base f' n'" "fb s \<le> n'" and d: "inode_of f' i = d'" "own f' n' d'" "covered f' d' (unat (d_size d'))"
      "file_blocks f' d' \<inter> other_blocks s i = {}"
    and o: "\<forall>j \<in> {1..<ni s}. j \<noteq> i \<longrightarrow> inode_of f' j = inode_of (fsfile s) j" "\<forall>x \<in> other_blocks s i. f' ! x = fsfile s ! x"
    and s': "fsfile s' = f'" "fb s' = n'" "freeinode s' = freeinode s"
  shows "mk_inv s'" "mk_files s' = (mk_files s)[i - 1 := (d_type d', fcontent f' d' (unat (d_size d')))]"
proof -
  let ?f = "fsfile s"
  have u: "own f' n' (inode_of f' j) \<and> covered f' (inode_of f' j) (isize f' j) \<and> inode_of f' j = inode_of ?f j
      \<and> file_blocks f' (inode_of f' j) = file_blocks ?f (inode_of ?f j) \<and> icontent f' j = icontent ?f j"
    if j: "j \<in> {1..<ni s}" "j \<noteq> i" for j
  proof -
    have ow: "own ?f (fb s) (inode_of ?f j)" "covered ?f (inode_of ?f j) (isize ?f j)" using I(1) j(1) unfolding mk_inv_def by blast+
    have "\<forall>x \<in> file_blocks ?f (inode_of ?f j). f' ! x = ?f ! x" using o(2) j unfolding other_blocks_def by blast
    note U = untouched [OF ow(1) b(2) this]
    have e: "inode_of f' j = inode_of ?f j" using o(1) j by blast
    show ?thesis unfolding e icontent_def using U(1,3,4,5) ow(2) by blast
  qed
  have disj: "file_blocks f' (inode_of f' i) \<inter> file_blocks f' (inode_of f' j) = {}" if "j \<in> {1..<ni s}" "j \<noteq> i" for j
  proof -
    have "file_blocks ?f (inode_of ?f j) \<subseteq> other_blocks s i" using that unfolding other_blocks_def by blast
    then show ?thesis using u [OF that] d(1,4) by blast
  qed
  have "file_blocks f' (inode_of f' j) \<inter> file_blocks f' (inode_of f' l) = {}" if "j \<in> {1..<ni s}" "l \<in> {1..<ni s}" "j \<noteq> l" for j l
  proof (cases "j = i \<or> l = i")
    case True
    then show ?thesis using disj that by blast
  next
    case False
    have "file_blocks ?f (inode_of ?f j) \<inter> file_blocks ?f (inode_of ?f l) = {}" using I(1) that unfolding mk_inv_def by blast
    moreover have "file_blocks f' (inode_of f' j) = file_blocks ?f (inode_of ?f j)"
      "file_blocks f' (inode_of f' l) = file_blocks ?f (inode_of ?f l)" using False u that by blast+
    ultimately show ?thesis by (simp only:)
  qed
  moreover have "own f' n' (inode_of f' j) \<and> covered f' (inode_of f' j) (isize f' j)" if "j \<in> {1..<ni s}" for j
  proof (cases "j = i")
    case False
    from u [OF that False] show ?thesis by blast
  qed (use d in simp)
  ultimately show "mk_inv s'" using b(1) I(1) unfolding mk_inv_def s' by blast
  show "mk_files s' = (mk_files s)[i - 1 := (d_type d', fcontent f' d' (unat (d_size d')))]"
  proof (rule nth_equalityI)
    fix k assume "k < length (mk_files s')"
    then have k: "Suc k \<in> {1..<ni s}" using s' by auto
    have "mk_files s' ! k = (d_type (inode_of f' (Suc k)), icontent f' (Suc k))" using nth_files [of "Suc k" s'] k s' by simp
    also have "\<dots> = (mk_files s)[i - 1 := (d_type d', fcontent f' d' (unat (d_size d')))] ! k"
    proof (cases "Suc k = i")
      case True
      then have i: "i = Suc k" by simp
      show ?thesis using d(1) k unfolding i by (simp add: icontent_def)
    next
      case False
      then have "k \<noteq> i - 1" using I(2) by auto
      then show ?thesis using u [OF k False] nth_files [OF k] by simp
    qed
    finally show "mk_files s' ! k = (mk_files s)[i - 1 := (d_type d', fcontent f' d' (unat (d_size d')))] ! k" .
  qed (use s' in simp)
qed

section \<open>Appending to a file of the image\<close>

lemma iappend_image:
  assumes I: "mk_inv s" "unat inum = i" "i \<in> {1..<ni s}" and a: "iappend inum p s = Inr s'"
  shows "mk_inv s' \<and> freeinode s' = freeinode s \<and> fb s \<le> fb s' \<and> (\<forall>x < 33. fsfile s' ! x = fsfile s ! x)
    \<and> mk_files s' = (mk_files s)[i - 1 := (fst (mk_files s ! (i - 1)), snd (mk_files s ! (i - 1)) @ p)]"
proof -
  let ?f = "fsfile s" and ?O = "other_blocks s i"
  let ?d = "inode_of ?f i"
  have ni: "i < NSLOTS" "\<forall>j \<in> {1..<ni s}. j < NSLOTS" using I unfolding mk_inv_def by auto
  have B: "base ?f (fb s)" using I(1) unfolding mk_inv_def by blast
  note L = mk_inv_linv [OF I(1,3)]
  from a rinode_ok [OF B, of inum] I(2) ni(1) obtain off d1 s1 where
    l: "iappend_loop p (d_size ?d) ?d s = Inr (off, d1, s1)" and w: "winode inum (d1\<lparr>d_size := off\<rparr>) s1 = Inr s'"
    by (auto simp: iappend_def rbind_eq_Inr)
  from iappend_loop_ok [OF L l] have o: "keeps ?d s ?O d1 s1" "covered (fsfile s1) d1 (unat off)"
    "fcontent (fsfile s1) d1 (unat off) = icontent ?f i @ p" by (auto simp: icontent_def)
  then have L1: "linv (fsfile s1) (fb s1) d1 ?O" and K: "fb s \<le> fb s1" "d_type d1 = d_type ?d" "freeinode s1 = freeinode s"
    "\<And>b. b < nmeta \<or> b \<in> ?O \<Longrightarrow> fsfile s1 ! b = ?f ! b"
    unfolding keeps_def by (auto dest: arg_cong [where f = d_type])
  have own1: "base (fsfile s1) (fb s1)" "own (fsfile s1) (fb s1) d1" "file_blocks (fsfile s1) d1 \<inter> ?O = {}" "?O \<subseteq> {nmeta..<fb s1}"
    using L1 unfolding linv_iff by auto
  then have "length (d_addrs (d1\<lparr>d_size := off\<rparr>)) = NDIRECT + 1" by (simp add: own_def)
  from winode_ok [OF own1(1) I(2) ni(1) this] obtain f2 where w2: "winode inum (d1\<lparr>d_size := off\<rparr>) s1 = Inr (s1\<lparr>fsfile := f2\<rparr>)"
    and f2b: "base f2 (fb s1)" "inode_of f2 i = d1\<lparr>d_size := off\<rparr>" "\<forall>j < NSLOTS. j \<noteq> i \<longrightarrow> inode_of f2 j = inode_of (fsfile s1) j"
      "\<forall>x. x < 33 \<or> 46 \<le> x \<longrightarrow> f2 ! x = fsfile s1 ! x" by blast
  have f2: "s' = s1\<lparr>fsfile := f2\<rparr>" "base f2 (fb s1)" "inode_of f2 i = d1\<lparr>d_size := off\<rparr>"
    "\<And>j. j < NSLOTS \<Longrightarrow> j \<noteq> i \<Longrightarrow> inode_of f2 j = inode_of (fsfile s1) j" "\<And>x. x < 33 \<or> 46 \<le> x \<Longrightarrow> f2 ! x = fsfile s1 ! x"
    using w w2 f2b by auto
  have hi: "f2 ! x = fsfile s1 ! x" if "nmeta \<le> x" for x using f2(5) that by (simp add: layout)
  have "\<forall>x \<in> file_blocks (fsfile s1) d1. f2 ! x = fsfile s1 ! x" using own1(2) hi unfolding own_def by auto
  note U = untouched [OF own1(2) order_refl this]
  have oth: "\<forall>j \<in> {1..<ni s}. j \<noteq> i \<longrightarrow> inode_of f2 j = inode_of ?f j"
    using f2(4) ni(2) K(4) isect_meta by (auto simp: inode_of_def)
  have ob: "\<forall>x \<in> ?O. f2 ! x = ?f ! x" using hi K(4) own1(4) by fastforce
  have r: "mk_inv s'" "mk_files s' = (mk_files s)[i - 1 := (d_type (d1\<lparr>d_size := off\<rparr>),
      fcontent f2 (d1\<lparr>d_size := off\<rparr>) (unat (d_size (d1\<lparr>d_size := off\<rparr>))))]"
    by (rule mk_inv_replace [OF I(1,3) f2(2) K(1) f2(3) _ _ _ oth ob]; use U o(2) own1(3) f2(1) K(3) in simp)+
  have "\<forall>x < 33. fsfile s' ! x = ?f ! x" using f2 K(4) by (simp add: layout)
  then show ?thesis using r f2(1) K U(5) [OF o(2)] o(3) nth_files [OF I(3)] by simp
qed

lemma iappend_returns:
  assumes I: "mk_inv s" "unat inum = i" "i \<in> {1..<ni s}" and sz: "length (snd (mk_files s ! (i - 1))) + length p \<le> MAXFILE * BSIZE"
    and p: "length p \<le> BSIZE" "fb s + 4 \<le> FSSIZE"
  shows "\<exists>s'. iappend inum p s = Inr s' \<and> fb s' \<le> fb s + 4"
proof -
  let ?f = "fsfile s" and ?O = "other_blocks s i"
  let ?d = "inode_of ?f i"
  have ni: "i < NSLOTS" using I unfolding mk_inv_def by auto
  have B: "base ?f (fb s)" using I(1) unfolding mk_inv_def by blast
  note L = mk_inv_linv [OF I(1,3)]
  have t: "turns (isize ?f i) (length p) \<le> 2"
  proof -
    have "isize ?f i mod BSIZE + length p + BSIZE - 1 < 3 * BSIZE"
      using p(1) mod_less_divisor [of BSIZE "isize ?f i"] by (simp add: layout)
    then show ?thesis by (simp add: turns_def layout less_Suc_eq_le [symmetric] div_less_iff_less_mult)
  qed
  have "length (snd (mk_files s ! (i - 1))) = isize ?f i" using nth_files [OF I(3)] by (simp add: icontent_def fcontent_def)
  then obtain off d1 s1 where l: "iappend_loop p (d_size ?d) ?d s = Inr (off, d1, s1)" "fb s1 \<le> fb s + 2 * turns (isize ?f i) (length p)"
    using iappend_loop_returns [OF L, of p] sz t p(2) by fastforce
  have "keeps ?d s ?O d1 s1" using iappend_loop_ok [OF L l(1)] by blast
  then have "base (fsfile s1) (fb s1)" "own (fsfile s1) (fb s1) d1" by (auto simp: keeps_def linv_iff)
  then obtain f2 where "winode inum (d1\<lparr>d_size := off\<rparr>) s1 = Inr (s1\<lparr>fsfile := f2\<rparr>)"
    using winode_ok [of s1 "fb s1" inum i "d1\<lparr>d_size := off\<rparr>"] I(2) ni by (auto simp: own_def)
  then show ?thesis using rinode_ok [OF B, of inum] I(2) ni l t by (simp add: iappend_def)
qed

section \<open>A new file\<close>

lemma ialloc_image:
  assumes I: "mk_inv s" "ni s < NSLOTS"
  shows "\<exists>s'. mk_ialloc ty s = Inr (freeinode s, s') \<and> mk_inv s' \<and> ni s' = Suc (ni s) \<and> freeblock s' = freeblock s
    \<and> (\<forall>x < 33. fsfile s' ! x = fsfile s ! x) \<and> mk_files s' = mk_files s @ [(ty, [])]"
proof -
  let ?f = "fsfile s" and ?n = "ni s"
  let ?d = "\<lparr>d_type = ty, d_major = 0, d_minor = 0, d_nlink = 1, d_size = 0, d_addrs = replicate (NDIRECT + 1) 0\<rparr>"
  have B: "base ?f (fb s)" "1 \<le> ?n" using I(1) unfolding mk_inv_def by blast+
  let ?s1 = "s\<lparr>freeinode := freeinode s + 1\<rparr>"
  have B1: "base (fsfile ?s1) (fb s)" using B by simp
  obtain f' where f': "winode (freeinode s) ?d ?s1 = Inr (?s1\<lparr>fsfile := f'\<rparr>)" "base f' (fb s)" "inode_of f' ?n = ?d"
    "\<And>j. j < NSLOTS \<Longrightarrow> j \<noteq> ?n \<Longrightarrow> inode_of f' j = inode_of ?f j" "\<And>x. x < 33 \<or> 46 \<le> x \<Longrightarrow> f' ! x = ?f ! x"
    using winode_ok [OF B1 refl I(2), of ?d] by auto
  let ?s' = "?s1\<lparr>fsfile := f'\<rparr>"
  have n': "unat (freeinode s + 1) = Suc ?n" using I(2) by (simp add: slots unat_word_ariths)
  have z: "fblk f' ?d k = 0" "ind ?d = 0" for k by (simp_all add: fblk_def ind_def del: replicate_Suc)
  have new: "file_blocks f' ?d = {}" "own f' (fb s) ?d" "covered f' ?d 0"
    using z by (auto simp: file_blocks_def own_def covered_def simp del: replicate_Suc)
  have old: "own f' (fb s) (inode_of f' j) \<and> covered f' (inode_of f' j) (isize f' j) \<and> inode_of f' j = inode_of ?f j
      \<and> file_blocks f' (inode_of f' j) = file_blocks ?f (inode_of ?f j) \<and> icontent f' j = icontent ?f j"
    if j: "j \<in> {1..<?n}" for j
  proof -
    have ow: "own ?f (fb s) (inode_of ?f j)" "covered ?f (inode_of ?f j) (isize ?f j)" using I(1) j unfolding mk_inv_def by blast+
    have "file_blocks ?f (inode_of ?f j) \<subseteq> {nmeta..<fb s}" using ow(1) unfolding own_def by blast
    then have "\<forall>x \<in> file_blocks ?f (inode_of ?f j). f' ! x = ?f ! x" by (intro ballI f'(5)) (auto simp: layout)
    note U = untouched [OF ow(1) order_refl this]
    have e: "inode_of f' j = inode_of ?f j" using f'(4) j I(2) by simp
    show ?thesis unfolding e icontent_def using U(1,3,4,5) ow(2) by blast
  qed
  have o1: "own f' (fb s) (inode_of f' j) \<and> covered f' (inode_of f' j) (isize f' j)" if "j \<in> {1..<Suc ?n}" for j
  proof (cases "j = ?n")
    case False
    with that have "j \<in> {1..<?n}" by auto
    from old [OF this] show ?thesis by blast
  qed (use new f'(3) in \<open>simp del: replicate_Suc\<close>)
  have o2: "file_blocks f' (inode_of f' j) \<inter> file_blocks f' (inode_of f' l) = {}" if "j \<in> {1..<Suc ?n}" "l \<in> {1..<Suc ?n}" "j \<noteq> l" for j l
  proof (cases "j = ?n \<or> l = ?n")
    case True
    then show ?thesis using new(1) f'(3) by (auto simp del: replicate_Suc)
  next
    case False
    with that have jl: "j \<in> {1..<?n}" "l \<in> {1..<?n}" by auto
    have "file_blocks ?f (inode_of ?f j) \<inter> file_blocks ?f (inode_of ?f l) = {}" using I(1) jl that(3) unfolding mk_inv_def by blast
    moreover have "file_blocks f' (inode_of f' j) = file_blocks ?f (inode_of ?f j)"
      "file_blocks f' (inode_of f' l) = file_blocks ?f (inode_of ?f l)" using old jl by blast+
    ultimately show ?thesis by (simp only:)
  qed
  have s': "fsfile ?s' = f'" "fb ?s' = fb s" "ni ?s' = Suc ?n" using n' by simp_all
  have "mk_inv ?s'" unfolding mk_inv_def s' using o1 o2 f'(2) I(2) by simp
  moreover have "mk_files ?s' = mk_files s @ [(ty, [])]"
  proof -
    have e: "map (\<lambda>i. (d_type (inode_of f' i), icontent f' i)) [1..<?n] = mk_files s"
      unfolding mk_files_def
    proof (rule map_cong)
      fix j assume "j \<in> set [1..<?n]"
      then have "inode_of f' j = inode_of ?f j" "icontent f' j = icontent ?f j" using old [of j] by auto
      then show "(d_type (inode_of f' j), icontent f' j) = (d_type (inode_of ?f j), icontent ?f j)" by simp
    qed simp
    have "icontent f' ?n = []" by (simp add: icontent_def fcontent_def f'(3))
    moreover have "mk_files ?s' = map (\<lambda>i. (d_type (inode_of f' i), icontent f' i)) ([1..<?n] @ [?n])"
      unfolding mk_files_def s' using B(2) by simp
    ultimately show ?thesis using e by (simp add: f'(3))
  qed
  ultimately show ?thesis using f'(1,5) n' by (simp add: mk_ialloc_def Let_def)
qed

end
