(* ===== verification/Mkfs_Claims.thy ===== *)
theory Mkfs_Claims
  imports Mkfs_Image Fs_Bitmap
begin

text \<open>
  The image that \<^verbatim>\<open>mkfs\<close> builds, as the kernel reads it.
\<close>

section \<open>The empty image\<close>

lemma get32_here: "get32 (bytes32 a @ r) 0 = a"
  by (rule get32_bytes32) (simp add: nth_append)

lemma get32_skip: "4 \<le> p \<Longrightarrow> get32 (bytes32 a @ r) p = get32 r (p - 4)"
proof -
  have "get32 (bytes32 a @ r) (q + 4) = get32 r q" for q by (simp add: get32_def nth_append add.commute)
  then show "4 \<le> p \<Longrightarrow> ?thesis" by (metis le_add_diff_inverse2)
qed

lemma put_sb_get: "get_sb (put_sb zeroes b) = b" "length (put_sb zeroes b) = BSIZE"
  by (simp_all add: get_sb_def put_sb_def overwrite_def get32_here get32_skip layout)

lemma wsect_next: "length (fsfile s) = n \<Longrightarrow> n < FSSIZE \<Longrightarrow> wsect (of_nat n) zeroes s = s\<lparr>fsfile := fsfile s @ [zeroes]\<rparr>"
  by (simp add: wsect_def sector_small unat_of_nat layout list_update_append)

lemma mk_empty_fsfile: "mk_empty = \<lparr>fsfile = replicate FSSIZE zeroes, freeinode = 1, freeblock = of_nat nmeta\<rparr>"
proof -
  have "fold (\<lambda>i. wsect (of_nat i) zeroes) [0..<n] \<lparr>fsfile = [], freeinode = 1, freeblock = of_nat nmeta\<rparr>
      = \<lparr>fsfile = replicate n zeroes, freeinode = 1, freeblock = of_nat nmeta\<rparr>" if "n \<le> FSSIZE" for n
    using that by (induction n) (simp_all add: wsect_next replicate_append_same)
  then show ?thesis unfolding mk_empty_def by blast
qed

definition mk_first :: mkstate where "mk_first = wsect 1 (put_sb zeroes mk_sb) mk_empty"

lemma mk_first_ok: "mk_inv mk_first" "mk_files mk_first = []" "ni mk_first = 1" "fb mk_first = nmeta" "fsfile mk_first ! 1 = put_sb zeroes mk_sb"
    "freeinode mk_first = 1"
proof -
  have e: "mk_first = \<lparr>fsfile = (replicate FSSIZE zeroes)[1 := put_sb zeroes mk_sb], freeinode = 1, freeblock = of_nat nmeta\<rparr>"
    unfolding mk_first_def by (subst wsect_in) (simp_all add: mk_empty_fsfile layout)
  have "base (replicate FSSIZE zeroes) nmeta" by (simp add: base_def layout)
  from base_upd [OF this _ put_sb_get(2)] have "base (fsfile mk_first) nmeta" by (simp add: e layout)
  moreover show n: "ni mk_first = 1" "fb mk_first = nmeta" by (simp_all add: e layout)
  ultimately show "mk_inv mk_first" unfolding mk_inv_def by (simp add: slots)
  show "mk_files mk_first = []" by (simp add: mk_files_def n)
  show "fsfile mk_first ! 1 = put_sb zeroes mk_sb" "freeinode mk_first = 1" by (simp_all add: e layout)
qed

section \<open>Files\<close>

lemma length_mk_dirent: "length (mk_dirent inum name) = 16"
proof -
  have "length (takeWhile (\<lambda>c. c \<noteq> 0) (take DIRSIZ name)) \<le> DIRSIZ"
    by (rule order_trans [OF length_takeWhile_le]) simp
  then show ?thesis by (simp add: mk_dirent_def strncpy_str_def Let_def DIRSIZ_def)
qed

text \<open>What is kept while files are added: the blocks in front of the inodes, and the invariant.\<close>

definition mk_step :: "mkstate \<Rightarrow> mkstate \<Rightarrow> bool" where
  "mk_step s s' \<longleftrightarrow> mk_inv s' \<and> fb s \<le> fb s' \<and> (\<forall>x < 33. fsfile s' ! x = fsfile s ! x)"

lemma mk_step_trans: "mk_step s s1 \<Longrightarrow> mk_step s1 s2 \<Longrightarrow> mk_step s s2"
  by (simp add: mk_step_def)

definition fappend :: "nat \<Rightarrow> u8 list \<Rightarrow> (u16 \<times> u8 list) list \<Rightarrow> (u16 \<times> u8 list) list" where
  "fappend i p fs = fs[i := (fst (fs ! i), snd (fs ! i) @ p)]"

lemma iappend_step:
  assumes "mk_inv s" "unat inum = Suc i" "Suc i < ni s" "iappend inum p s = Inr s'"
  shows "mk_step s s'" "freeinode s' = freeinode s" "mk_files s' = fappend i p (mk_files s)"
  using iappend_image [OF assms(1,2) _ assms(4)] assms(3) by (simp_all add: mk_step_def fappend_def)

lemma fappend_fappend: "i < length fs \<Longrightarrow> fappend i q (fappend i p fs) = fappend i (p @ q) fs"
  by (simp add: fappend_def)

lemma length_fappend [simp]: "length (fappend i p fs) = length fs"
  by (simp add: fappend_def)

text \<open>What the loops over files and over chunks rely on: a store of files that are extended at their end. \<open>keep\<close> is what an
  operation leaves alone.\<close>

locale file_store =
  fixes inv :: "'s \<Rightarrow> bool" and files :: "'s \<Rightarrow> (u16 \<times> u8 list) list" and keep :: "'s \<Rightarrow> 's \<Rightarrow> bool"
    and extend :: "u32 \<Rightarrow> u8 list \<Rightarrow> 's \<Rightarrow> 's kres"
  assumes extend: "inv s \<Longrightarrow> unat inum = Suc i \<Longrightarrow> i < length (files s) \<Longrightarrow> extend inum p s = Inr s' \<Longrightarrow>
      inv s' \<and> keep s s' \<and> files s' = fappend i p (files s)"
    and keep_refl: "inv s \<Longrightarrow> keep s s"
    and keep_trans: "keep s s1 \<Longrightarrow> keep s1 s2 \<Longrightarrow> keep s s2"
begin

lemma extend_all:
  "inv s \<Longrightarrow> unat inum = Suc i \<Longrightarrow> i < length (files s) \<Longrightarrow> rfold (extend inum) ps s = Inr s' \<Longrightarrow>
     inv s' \<and> keep s s' \<and> files s' = fappend i (concat ps) (files s)"
proof (induction ps arbitrary: s)
  case Nil
  then show ?case using keep_refl by (simp add: fappend_def)
next
  case (Cons p ps)
  from Cons.prems(4) obtain s1 where a: "extend inum p s = Inr s1" "rfold (extend inum) ps s1 = Inr s'" by (auto simp: rbind_eq_Inr)
  note t = extend [OF Cons.prems(1-3) a(1)]
  have "inv s' \<and> keep s1 s' \<and> files s' = fappend i (concat ps) (files s1)"
    using t Cons.prems by (intro Cons.IH a(2)) simp_all
  then show ?case using t Cons.prems(3) keep_trans by (auto simp: fappend_fappend)
qed

end

interpretation mks: file_store mk_inv mk_files "\<lambda>s s'. mk_step s s' \<and> freeinode s' = freeinode s" iappend
proof
  fix s s' :: mkstate and inum i p
  assume a: "mk_inv s" "unat inum = Suc i" "i < length (mk_files s)" "iappend inum p s = Inr s'"
  then have "Suc i < ni s" by simp
  from iappend_step [OF a(1,2) this a(4)]
  show "mk_inv s' \<and> (mk_step s s' \<and> freeinode s' = freeinode s) \<and> mk_files s' = fappend i p (mk_files s)" by (simp add: mk_step_def)
qed (auto simp: mk_step_def)

lemma chunks_step:
  assumes "mk_inv s" "unat inum = Suc i" "Suc i < ni s" "rfold (iappend inum) chunks s = Inr s'"
  shows "mk_step s s' \<and> freeinode s' = freeinode s \<and> mk_files s' = fappend i (concat chunks) (mk_files s)"
  using mks.extend_all [OF assms(1,2) _ assms(4)] assms(3) by simp

section \<open>Adding files\<close>

abbreviation img_name :: "u8 list \<times> u8 list list option \<Rightarrow> u8 list" where
  "img_name x \<equiv> strip_mark (strip_dir (fst x))"

abbreviation img_data :: "u8 list \<times> u8 list list option \<Rightarrow> u8 list" where
  "img_data x \<equiv> concat (the (snd x))"

lemma fappend_snoc: "i < length fs \<Longrightarrow> fappend i p (fs @ gs) = fappend i p fs @ gs"
  by (simp add: fappend_def nth_append list_update_append)

lemma fappend_last: "fappend (length fs) p (fs @ [(t, c)]) = fs @ [(t, c @ p)]"
  by (simp add: fappend_def)

lemma add_file_step:
  assumes I: "mk_inv s" "2 \<le> ni s" "ni s < NSLOTS" and a: "add_file x s = Inr s'"
  shows "mk_step s s' \<and> ni s' = Suc (ni s)
    \<and> mk_files s' = fappend 0 (mk_dirent (freeinode s) (img_name x)) (mk_files s) @ [(T_FILE, img_data x)]"
proof -
  let ?n = "ni s - 1"
  obtain s1 where s1: "mk_ialloc T_FILE s = Inr (freeinode s, s1)" "mk_inv s1" "ni s1 = Suc (ni s)" "freeblock s1 = freeblock s"
    "\<forall>x < 33. fsfile s1 ! x = fsfile s ! x" "mk_files s1 = mk_files s @ [(T_FILE, [])]"
    using ialloc_image [OF I(1,3), of T_FILE] by blast
  from a s1(1) obtain chunks s2 where c: "snd x = Some chunks" and r: "iappend ROOTINO (mk_dirent (freeinode s) (img_name x)) s1 = Inr s2"
    "rfold (iappend (freeinode s)) chunks s2 = Inr s'"
    by (auto simp: add_file_def Let_def rbind_eq_Inr split: if_splits option.splits)
  have "unat ROOTINO = Suc 0" "Suc 0 < ni s1" using I(2) s1(3) by (simp_all add: ROOTINO_def)
  note t = iappend_step [OF s1(2) this r(1)]
  have n: "unat (freeinode s) = Suc ?n" "Suc ?n < ni s2" using I(2) t(2) s1(3) by simp_all
  have "mk_inv s2" using t(1) by (simp add: mk_step_def)
  note u = chunks_step [OF this n r(2)]
  have "mk_step s s1" using s1 by (simp add: mk_step_def)
  then have "mk_step s s'" using t(1) u mk_step_trans by blast
  moreover have "mk_files s2 = fappend 0 (mk_dirent (freeinode s) (img_name x)) (mk_files s) @ [(T_FILE, [])]"
    using t(3) s1(6) I(2) by (simp add: fappend_snoc)
  then have "mk_files s' = fappend 0 (mk_dirent (freeinode s) (img_name x)) (mk_files s) @ [(T_FILE, img_data x)]"
    using u c fappend_last [of "fappend 0 (mk_dirent (freeinode s) (img_name x)) (mk_files s)" "concat chunks" T_FILE "[]"] by simp
  moreover have "ni s' = Suc (ni s)" using u t(2) s1(3) by simp
  ultimately show ?thesis by blast
qed

text \<open>The directory entries of files that are added from inode number \<open>k\<close> on.\<close>

primrec dir_entries :: "nat \<Rightarrow> (u8 list \<times> u8 list list option) list \<Rightarrow> u8 list" where
  "dir_entries k [] = []"
| "dir_entries k (x # xs) = mk_dirent (of_nat k) (img_name x) @ dir_entries (Suc k) xs"

lemma length_dir_entries: "length (dir_entries k xs) = 16 * length xs"
  by (induction xs arbitrary: k) (simp_all add: length_mk_dirent)

lemma add_files_step:
  assumes "mk_inv s" "2 \<le> ni s" "ni s + length xs \<le> NSLOTS" "rfold add_file xs s = Inr s'"
  shows "mk_step s s' \<and> ni s' = ni s + length xs
    \<and> mk_files s' = fappend 0 (dir_entries (ni s) xs) (mk_files s) @ map (\<lambda>x. (T_FILE, img_data x)) xs"
  using assms
proof (induction xs arbitrary: s)
  case Nil
  then show ?case by (simp add: mk_step_def fappend_def)
next
  case (Cons x xs)
  from Cons.prems(4) obtain s1 where a: "add_file x s = Inr s1" "rfold add_file xs s1 = Inr s'" by (auto simp: rbind_eq_Inr)
  have lt: "ni s < NSLOTS" using Cons.prems(3) by simp
  note t = add_file_step [OF Cons.prems(1,2) lt a(1)]
  have IH: "mk_step s1 s' \<and> ni s' = ni s1 + length xs
      \<and> mk_files s' = fappend 0 (dir_entries (ni s1) xs) (mk_files s1) @ map (\<lambda>x. (T_FILE, img_data x)) xs"
    using t Cons.prems(2,3) by (intro Cons.IH a(2)) (simp_all add: mk_step_def)
  have l: "0 < length (mk_files s)" using Cons.prems(2) by simp
  have "mk_files s' = fappend 0 (dir_entries (ni s) (x # xs)) (mk_files s) @ map (\<lambda>x. (T_FILE, img_data x)) (x # xs)"
    using t IH l by (simp add: fappend_snoc fappend_fappend)
  moreover have "mk_step s s'" using t IH mk_step_trans by blast
  ultimately show ?case using t IH by simp
qed

section \<open>The bitmap\<close>

lemma marks: "n \<le> BPB \<Longrightarrow> length (fold (\<lambda>i d. bit_mark d i) [0..<n] zeroes) = BSIZE
    \<and> (\<forall>b. bit_used (fold (\<lambda>i d. bit_mark d i) [0..<n] zeroes) b \<longleftrightarrow> b < n \<or> bit_used zeroes b)"
proof (induction n)
  case (Suc n)
  let ?d = "fold (\<lambda>i d. bit_mark d i) [0..<n] zeroes"
  have IH: "length ?d = BSIZE" "\<And>b. bit_used ?d b \<longleftrightarrow> b < n \<or> bit_used zeroes b" using Suc by simp_all
  have "n div 8 < length ?d" unfolding IH(1) using Suc.prems by (simp add: BPB_def div_less_iff_less_mult)
  then show ?case using IH by (simp add: bit_used_mark less_Suc_eq disj_ac)
qed simp

lemma zero_unused: "b < BPB \<Longrightarrow> \<not> bit_used zeroes b"
  by (simp add: bit_used_def BPB_def div_less_iff_less_mult)

lemma mk_balloc_ok:
  assumes "length (fsfile s) = FSSIZE" "fb s \<le> FSSIZE"
  shows "\<exists>d. mk_balloc (freeblock s) s = Inr (s\<lparr>fsfile := (fsfile s)[46 := d]\<rparr>) \<and> length d = BSIZE \<and> (\<forall>b < BPB. bit_used d b \<longleftrightarrow> b < fb s)"
proof -
  have "int (fb s) \<le> 2000" using assms(2) by (simp only: layout of_nat_le_iff [symmetric, where 'a = int])
  then have ub: "0 \<le> uint (freeblock s)" "uint (freeblock s) \<le> 2000" by simp_all
  then have u: "sint (freeblock s) = int (fb s)"
    using int_word_sint [of "uint (freeblock s)", where 'a = 32] by simp
  let ?d = "fold (\<lambda>i d. bit_mark d i) [0..<fb s] zeroes"
  have n: "fb s \<le> BPB" "int (fb s) < int BPB" using assms(2) ub by (simp_all add: layout BPB_def)
  have b: "unat (bmapstart mk_sb) = 46" by (simp add: mk_sb_def mk_nlog_def ninodeblocks_def NINODES_def layout LOGBLOCKS_def MAXOPBLOCKS_def)
  have "mk_balloc (freeblock s) s = Inr (s\<lparr>fsfile := (fsfile s)[46 := ?d]\<rparr>)"
    using n u b wsect_in [OF assms(1), of "bmapstart mk_sb"] by (simp add: mk_balloc_def layout)
  then show ?thesis using marks [OF n(1)] zero_unused by (intro exI [of _ ?d]) simp
qed

section \<open>The whole image\<close>

definition root_dir :: "(u8 list \<times> u8 list list option) list \<Rightarrow> u8 list" where
  "root_dir files = mk_dirent 1 [46] @ mk_dirent 1 [46, 46] @ dir_entries 2 files"

lemma length_root_dir: "length (root_dir files) = 16 * (length files + 2)"
  by (simp add: root_dir_def length_dir_entries length_mk_dirent)

text \<open>The image before the size of the root directory is rounded and the bitmap is written.\<close>

definition mk_body :: "(u8 list \<times> u8 list list option) list \<Rightarrow> mkstate kres" where
  "mk_body files =
     rbind (mk_ialloc T_DIR mk_first) (\<lambda>(rootino, s).
     rbind (iappend rootino (mk_dirent rootino [46]) s) (\<lambda>s.
     rbind (iappend rootino (mk_dirent rootino [46, 46]) s) (rfold add_file files)))"

lemma mk_body_ok:
  assumes "length files + 2 \<le> NSLOTS" "mk_body files = Inr s"
  shows "mk_inv s \<and> ni s = length files + 2 \<and> fsfile s ! 1 = put_sb zeroes mk_sb
    \<and> mk_files s = (T_DIR, root_dir files) # map (\<lambda>x. (T_FILE, img_data x)) files"
proof -
  have "ni mk_first < NSLOTS" by (simp add: mk_first_ok slots)
  from ialloc_image [OF mk_first_ok(1) this, of T_DIR] obtain s1 where
    s1: "mk_ialloc T_DIR mk_first = Inr (freeinode mk_first, s1)" "mk_inv s1" "ni s1 = 2" "\<forall>x < 33. fsfile s1 ! x = fsfile mk_first ! x"
      "mk_files s1 = [(T_DIR, [])]" by (auto simp: mk_first_ok)
  from assms(2) s1(1) mk_first_ok(6) obtain s2 s3 where a: "iappend 1 (mk_dirent 1 [46]) s1 = Inr s2" "iappend 1 (mk_dirent 1 [46, 46]) s2 = Inr s3"
    "rfold add_file files s3 = Inr s" by (auto simp: mk_body_def rbind_eq_Inr)
  have t2: "mk_step s1 s2" "ni s2 = 2" "mk_files s2 = [(T_DIR, mk_dirent 1 [46])]"
    using iappend_step [OF s1(2) _ _ a(1), of 0] s1 by (simp_all add: fappend_def)
  then have t3: "mk_step s2 s3" "ni s3 = 2" "mk_files s3 = [(T_DIR, mk_dirent 1 [46] @ mk_dirent 1 [46, 46])]"
    using iappend_step [OF _ _ _ a(2), of 0] by (simp_all add: fappend_def mk_step_def)
  have "mk_inv s3" using t3 by (simp add: mk_step_def)
  from add_files_step [OF this _ _ a(3)] t3(2) assms(1) have
    t4: "mk_step s3 s" "ni s = length files + 2" "mk_files s = fappend 0 (dir_entries 2 files) (mk_files s3) @ map (\<lambda>x. (T_FILE, img_data x)) files"
    by auto
  have "mk_step s1 s" using t2(1) t3(1) t4(1) mk_step_trans by blast
  then show ?thesis using s1(4) t4 t3(3) mk_first_ok(5) by (simp add: mk_step_def root_dir_def fappend_def)
qed

lemma mkfs_body:
  assumes "mkfs files = Inr s"
  obtains s1 s2 din where "mk_body files = Inr s1" "rinode 1 s1 = Inr din"
    "winode 1 (din\<lparr>d_size := (d_size din div of_nat BSIZE + 1) * of_nat BSIZE\<rparr>) s1 = Inr s2" "mk_balloc (freeblock s2) s2 = Inr s"
proof -
  have f: "wsect 1 (put_sb zeroes mk_sb) mk_empty = mk_first" by (simp add: mk_first_def)
  from assms obtain s1 s2 din where "mk_body files = Inr s1" "rinode ROOTINO s1 = Inr din"
    "winode ROOTINO (din\<lparr>d_size := (d_size din div of_nat BSIZE + 1) * of_nat BSIZE\<rparr>) s1 = Inr s2" "mk_balloc (freeblock s2) s2 = Inr s"
    by (auto simp: mkfs_def mk_body_def f Let_def rbind_eq_Inr split: if_splits)
  then show ?thesis by (intro that) (simp_all add: ROOTINO_def)
qed

lemma mkfs_final:
  assumes "length files + 2 \<le> NSLOTS" "mk_body files = Inr s1" "rinode 1 s1 = Inr din"
    "winode 1 (din\<lparr>d_size := v\<rparr>) s1 = Inr s2" "mk_balloc (freeblock s2) s2 = Inr s"
  shows "length (fsfile s) = FSSIZE \<and> fb s = fb s1 \<and> (\<forall>x. x < 33 \<or> nmeta \<le> x \<longrightarrow> fsfile s ! x = fsfile s1 ! x)
    \<and> din = inode_of (fsfile s1) 1 \<and> inode_of (fsfile s) 1 = din\<lparr>d_size := v\<rparr>
    \<and> (\<forall>j \<in> {2..<length files + 2}. inode_of (fsfile s) j = inode_of (fsfile s1) j)
    \<and> (\<forall>b < BPB. bit_used (fsfile s ! 46) b \<longleftrightarrow> b < fb s)"
proof -
  have I: "mk_inv s1" "ni s1 = length files + 2" using mk_body_ok [OF assms(1,2)] by auto
  have B: "base (fsfile s1) (fb s1)" using I(1) by (simp add: mk_inv_def)
  have d: "din = inode_of (fsfile s1) 1" using rinode_ok [OF B, of 1] assms(3) by (simp add: slots)
  have "own (fsfile s1) (fb s1) din" using I unfolding mk_inv_def d by auto
  then have "length (d_addrs (din\<lparr>d_size := v\<rparr>)) = NDIRECT + 1" by (simp add: own_def)
  from winode_ok [OF B _ _ this, of 1 1] assms(4) obtain f2 where f2: "s2 = s1\<lparr>fsfile := f2\<rparr>" "base f2 (fb s1)" "inode_of f2 1 = din\<lparr>d_size := v\<rparr>"
    "\<forall>j < NSLOTS. j \<noteq> 1 \<longrightarrow> inode_of f2 j = inode_of (fsfile s1) j" "\<forall>x. x < 33 \<or> 46 \<le> x \<longrightarrow> f2 ! x = fsfile s1 ! x"
    by (auto simp: slots)
  have l2: "length (fsfile s2) = FSSIZE" "fb s2 \<le> FSSIZE" using f2(1,2) by (simp_all add: base_def)
  from mk_balloc_ok [OF l2] assms(5) obtain bm where bm: "s = s2\<lparr>fsfile := (fsfile s2)[46 := bm]\<rparr>" "\<forall>b < BPB. bit_used bm b \<longleftrightarrow> b < fb s2"
    by auto
  have io: "inode_of (fsfile s) j = inode_of f2 j" if "j < NSLOTS" for j
    using isect_meta [OF that] f2(1) bm(1) by (simp add: inode_of_def)
  have "\<forall>x. x < 33 \<or> nmeta \<le> x \<longrightarrow> fsfile s ! x = fsfile s1 ! x" using f2(1,5) bm(1) by (auto simp: layout)
  moreover have "\<forall>j \<in> {2..<length files + 2}. inode_of (fsfile s) j = inode_of (fsfile s1) j"
    using io f2(4) assms(1) by auto
  moreover have "fsfile s ! 46 = bm" using bm(1) l2 by (simp add: layout)
  ultimately show ?thesis using d f2(1,3) bm l2(1) io [of 1] by (simp add: slots)
qed

section \<open>Enough room\<close>

text \<open>A file that \<^verbatim>\<open>mkfs\<close> accepts, and a bound on the blocks that files need: four for every call of \<^verbatim>\<open>iappend\<close>, which
  may open two file blocks and an indirect block.\<close>

definition file_fits :: "u8 list \<times> u8 list list option \<Rightarrow> bool" where
  "file_fits x \<longleftrightarrow> 47 \<notin> set (strip_dir (fst x)) \<and> length (img_name x) \<le> DIRSIZ \<and> snd x \<noteq> None
     \<and> (\<forall>c \<in> set (the (snd x)). length c \<le> BSIZE) \<and> length (img_data x) \<le> MAXFILE * BSIZE"

definition mk_cost :: "(u8 list \<times> u8 list list option) list \<Rightarrow> nat" where
  "mk_cost files = sum_list (map (\<lambda>x. 1 + length (the (snd x))) files)"

lemma chunks_return:
  assumes "mk_inv s" "unat inum = Suc i" "Suc i < ni s" "\<forall>c \<in> set chunks. length c \<le> BSIZE"
    "length (snd (mk_files s ! i)) + length (concat chunks) \<le> MAXFILE * BSIZE" "fb s + 4 * length chunks \<le> FSSIZE"
  shows "\<exists>s'. rfold (iappend inum) chunks s = Inr s' \<and> fb s' \<le> fb s + 4 * length chunks"
  using assms
proof (induction chunks arbitrary: s)
  case (Cons c cs)
  obtain s1 where a: "iappend inum c s = Inr s1" "fb s1 \<le> fb s + 4"
    using iappend_returns [OF Cons.prems(1,2), of c] Cons.prems(3-6) by auto
  note t = iappend_step [OF Cons.prems(1-3) a(1)]
  have "length (snd (mk_files s1 ! i)) = length (snd (mk_files s ! i)) + length c"
    using t(3) Cons.prems(3) by (simp add: fappend_def)
  then have "\<exists>s'. rfold (iappend inum) cs s1 = Inr s' \<and> fb s' \<le> fb s1 + 4 * length cs"
    using t a(2) Cons.prems by (intro Cons.IH) (simp_all add: mk_step_def)
  then show ?case using a by fastforce
qed simp

lemma add_file_returns:
  assumes I: "mk_inv s" "2 \<le> ni s" "ni s < NSLOTS" and x: "file_fits x" and r: "length (snd (mk_files s ! 0)) + 16 \<le> MAXFILE * BSIZE"
    and room: "fb s + 4 * (1 + length (the (snd x))) \<le> FSSIZE"
  shows "\<exists>s'. add_file x s = Inr s' \<and> fb s' \<le> fb s + 4 * (1 + length (the (snd x)))"
proof -
  let ?n = "ni s - 1" and ?de = "mk_dirent (freeinode s) (img_name x)"
  obtain s1 where s1: "mk_ialloc T_FILE s = Inr (freeinode s, s1)" "mk_inv s1" "ni s1 = Suc (ni s)" "freeblock s1 = freeblock s"
    "mk_files s1 = mk_files s @ [(T_FILE, [])]"
    using ialloc_image [OF I(1,3), of T_FILE] by blast
  have h: "unat ROOTINO = Suc 0" "Suc 0 < ni s1" using I(2) s1(3) by (simp_all add: ROOTINO_def)
  have "mk_files s1 ! 0 = mk_files s ! 0" using s1(5) I(2) by (simp add: nth_append)
  then obtain s2 where a: "iappend ROOTINO ?de s1 = Inr s2" "fb s2 \<le> fb s1 + 4"
    using iappend_returns [OF s1(2) h(1), of ?de] h(2) r room s1(4) by (auto simp: length_mk_dirent layout)
  note t = iappend_step [OF s1(2) h a(1)]
  have n: "unat (freeinode s) = Suc ?n" "Suc ?n < ni s2" using I(2) t(2) s1(3) by simp_all
  have "mk_files s2 ! ?n = (T_FILE, [])" using t(3) s1(5) I(2) by (simp add: fappend_def nth_append)
  moreover have "mk_inv s2" using t(1) by (simp add: mk_step_def)
  ultimately obtain s' where "rfold (iappend (freeinode s)) (the (snd x)) s2 = Inr s'" "fb s' \<le> fb s2 + 4 * length (the (snd x))"
    using chunks_return [OF _ n, of "the (snd x)"] x a(2) room s1(4) by (auto simp: file_fits_def)
  then show ?thesis using x a s1(1,4) by (auto simp: add_file_def Let_def file_fits_def)
qed

lemma add_files_return:
  assumes "mk_inv s" "2 \<le> ni s" "ni s + length xs \<le> NSLOTS" "\<forall>x \<in> set xs. file_fits x"
    "length (snd (mk_files s ! 0)) = 16 * ni s" "fb s + 4 * mk_cost xs \<le> FSSIZE"
  shows "\<exists>s'. rfold add_file xs s = Inr s' \<and> fb s' \<le> fb s + 4 * mk_cost xs"
  using assms
proof (induction xs arbitrary: s)
  case (Cons x xs)
  have lt: "ni s < NSLOTS" using Cons.prems(3) by simp
  have c: "mk_cost (x # xs) = (1 + length (the (snd x))) + mk_cost xs" by (simp add: mk_cost_def)
  obtain s1 where a: "add_file x s = Inr s1" "fb s1 \<le> fb s + 4 * (1 + length (the (snd x)))"
    using add_file_returns [OF Cons.prems(1,2) lt, of x] Cons.prems(4-6) lt c by (auto simp: slots layout)
  note t = add_file_step [OF Cons.prems(1,2) lt a(1)]
  have "length (snd (mk_files s1 ! 0)) = 16 * ni s1"
    using t Cons.prems(2,5) by (simp add: fappend_def nth_append length_mk_dirent)
  then have "\<exists>s'. rfold add_file xs s1 = Inr s' \<and> fb s' \<le> fb s1 + 4 * mk_cost xs"
    using t a(2) Cons.prems c by (intro Cons.IH) (simp_all add: mk_step_def)
  then show ?case using a c by fastforce
qed (simp add: mk_cost_def)

lemma mk_body_returns:
  assumes "length files + 2 \<le> NSLOTS" "\<forall>x \<in> set files. file_fits x" "nmeta + 4 * (2 + mk_cost files) \<le> FSSIZE"
  shows "\<exists>s. mk_body files = Inr s"
proof -
  have "ni mk_first < NSLOTS" by (simp add: mk_first_ok slots)
  from ialloc_image [OF mk_first_ok(1) this, of T_DIR] obtain s1 where
    s1: "mk_ialloc T_DIR mk_first = Inr (1, s1)" "mk_inv s1" "ni s1 = 2" "fb s1 = nmeta" "mk_files s1 = [(T_DIR, [])]"
    by (auto simp: mk_first_ok)
  obtain s2 where a: "iappend 1 (mk_dirent 1 [46]) s1 = Inr s2" "fb s2 \<le> nmeta + 4"
    using iappend_returns [OF s1(2), of 1 1 "mk_dirent 1 [46]"] s1 by (auto simp: length_mk_dirent layout)
  have t2: "mk_step s1 s2" "ni s2 = 2" "mk_files s2 = [(T_DIR, mk_dirent 1 [46])]"
    using iappend_step [OF s1(2) _ _ a(1), of 0] s1 by (simp_all add: fappend_def)
  then have i2: "mk_inv s2" by (simp add: mk_step_def)
  obtain s3 where b: "iappend 1 (mk_dirent 1 [46, 46]) s2 = Inr s3" "fb s3 \<le> nmeta + 8"
    using iappend_returns [OF i2, of 1 1 "mk_dirent 1 [46, 46]"] t2 a(2) by (force simp: length_mk_dirent layout)
  have t3: "mk_step s2 s3" "ni s3 = 2" "mk_files s3 = [(T_DIR, mk_dirent 1 [46] @ mk_dirent 1 [46, 46])]"
    using iappend_step [OF i2 _ _ b(1), of 0] t2 by (simp_all add: fappend_def)
  then have "\<exists>s. rfold add_file files s3 = Inr s \<and> fb s \<le> fb s3 + 4 * mk_cost files"
    using b(2) assms by (intro add_files_return) (simp_all add: mk_step_def length_mk_dirent)
  then show ?thesis using s1(1) a b by (auto simp: mk_body_def)
qed

lemma mkfs_returns:
  assumes "length files + 2 \<le> NSLOTS" "\<forall>x \<in> set files. file_fits x" "nmeta + 4 * (2 + mk_cost files) \<le> FSSIZE"
  shows "\<exists>s. mkfs files = Inr s"
proof -
  obtain s1 where s1: "mk_body files = Inr s1" using mk_body_returns [OF assms] by blast
  have I: "mk_inv s1" "ni s1 = length files + 2" using mk_body_ok [OF assms(1) s1] by auto
  have B: "base (fsfile s1) (fb s1)" using I(1) by (simp add: mk_inv_def)
  let ?d = "inode_of (fsfile s1) 1"
  have r: "rinode 1 s1 = Inr ?d" using rinode_ok [OF B, of 1] by (simp add: slots)
  let ?d' = "?d\<lparr>d_size := (d_size ?d div of_nat BSIZE + 1) * of_nat BSIZE\<rparr>"
  have "own (fsfile s1) (fb s1) ?d" using I unfolding mk_inv_def by auto
  then have "length (d_addrs ?d') = NDIRECT + 1" by (simp add: own_def)
  from winode_ok [OF B _ _ this, of 1 1] obtain f2 where f2: "winode 1 ?d' s1 = Inr (s1\<lparr>fsfile := f2\<rparr>)" "base f2 (fb s1)" by (auto simp: slots)
  obtain s where "mk_balloc (freeblock s1) (s1\<lparr>fsfile := f2\<rparr>) = Inr s"
    using mk_balloc_ok [of "s1\<lparr>fsfile := f2\<rparr>"] f2(2) by (auto simp: base_def)
  moreover have "freeinode mk_first = ROOTINO" by (simp add: mk_first_ok ROOTINO_def)
  moreover obtain s0 where "mk_ialloc T_DIR mk_first = Inr (1, s0)"
    using ialloc_image [OF mk_first_ok(1), of T_DIR] by (auto simp: mk_first_ok slots)
  ultimately show ?thesis using s1 r f2(1)
    by (auto simp: mkfs_def mk_body_def mk_first_def [symmetric] ROOTINO_def Let_def rbind_eq_Inr)
qed

section \<open>The property\<close>

lemma mkfs_image:
  assumes N: "length files + 2 \<le> NSLOTS" and m: "mkfs files = Inr s"
  defines "f \<equiv> fsfile s" and "n \<equiv> 16 * (length files + 2)"
  shows "length f = FSSIZE" "get_sb (f ! 1) = mk_sb" "d_type (inode_of f 1) = T_DIR" "isize f 1 = (n div BSIZE + 1) * BSIZE"
    "fcontent f (inode_of f 1) n = root_dir files"
    "\<forall>j. n \<le> j \<longrightarrow> j < isize f 1 \<longrightarrow> fblk f (inode_of f 1) (j div BSIZE) = 0 \<or> f ! fblk f (inode_of f 1) (j div BSIZE) ! (j mod BSIZE) = 0"
    "\<forall>k < length files. d_type (inode_of f (k + 2)) = T_FILE \<and> icontent f (k + 2) = img_data (files ! k)"
    "\<forall>i \<in> {1..length files + 1}. file_blocks f (inode_of f i) \<subseteq> {nmeta..<fb s}"
    "\<forall>i \<in> {1..length files + 1}. \<forall>j \<in> {1..length files + 1}. i \<noteq> j \<longrightarrow> file_blocks f (inode_of f i) \<inter> file_blocks f (inode_of f j) = {}"
    "\<forall>b < FSSIZE. bit_used (f ! 46) b \<longleftrightarrow> b < fb s"
proof -
  obtain s1 s2 din where b: "mk_body files = Inr s1" "rinode 1 s1 = Inr din"
    "winode 1 (din\<lparr>d_size := (d_size din div of_nat BSIZE + 1) * of_nat BSIZE\<rparr>) s1 = Inr s2" "mk_balloc (freeblock s2) s2 = Inr s"
    using mkfs_body [OF m] .
  let ?g = "fsfile s1" and ?v = "(d_size din div of_nat BSIZE + 1) * of_nat BSIZE"
  note B = mk_body_ok [OF N b(1)]
  note F = mkfs_final [OF N b, folded f_def]
  have dd: "din = inode_of ?g 1" and d1: "inode_of f 1 = (inode_of ?g 1)\<lparr>d_size := ?v\<rparr>" and fs: "fb s = fb s1"
    and hi: "\<And>x. x < 33 \<or> nmeta \<le> x \<Longrightarrow> f ! x = ?g ! x" and bits: "\<forall>b < BPB. bit_used (f ! 46) b \<longleftrightarrow> b < fb s"
    and dj: "\<And>j. j \<in> {2..<length files + 2} \<Longrightarrow> inode_of f j = inode_of ?g j" and len: "length f = FSSIZE"
    using F by blast+
  have I: "mk_inv s1" "{1..<ni s1} = {1..length files + 1}" using B by auto
  have ow: "own ?g (fb s1) (inode_of ?g i)" "covered ?g (inode_of ?g i) (isize ?g i)" if "i \<in> {1..length files + 1}" for i
    using I that unfolding mk_inv_def by auto
  have un: "\<forall>x \<in> file_blocks ?g (inode_of ?g i). f ! x = ?g ! x" if "i \<in> {1..length files + 1}" for i
  proof -
    have "file_blocks ?g (inode_of ?g i) \<subseteq> {nmeta..<fb s1}" using ow(1) [OF that] by (simp add: own_def)
    then show ?thesis using hi by auto
  qed
  note U = untouched [OF ow(1) order_refl un]
  have fbs: "file_blocks f (inode_of f i) = file_blocks ?g (inode_of ?g i)" if "i \<in> {1..length files + 1}" for i
  proof -
    have "file_blocks f (inode_of f i) = file_blocks f (inode_of ?g i)"
      using d1 dj [of i] that by (cases "i = 1") simp_all
    then show ?thesis using U(3) [OF that that] by simp
  qed
  have fl: "mk_files s1 ! (i - 1) = (d_type (inode_of ?g i), icontent ?g i)" if "i \<in> {1..length files + 1}" for i
    by (rule nth_files) (use I(2) that in blast)
  have one: "1 \<in> {1..length files + 1}" by simp
  have root: "d_type (inode_of ?g 1) = T_DIR" "icontent ?g 1 = root_dir files" using fl [OF one] B by simp_all
  have "length (icontent ?g 1) = isize ?g 1" by (simp add: icontent_def fcontent_def)
  then have sz: "unat (d_size din) = n" using root(2) dd by (simp add: length_root_dir n_def)
  have nb: "n \<le> 3328" using N by (simp add: n_def slots)
  show "length f = FSSIZE" by (rule len)
  show "get_sb (f ! 1) = mk_sb" using hi [of 1] B by (simp add: put_sb_get)
  show "d_type (inode_of f 1) = T_DIR" using d1 root by simp
  have v: "unat ?v = (n div BSIZE + 1) * BSIZE"
  proof -
    have "unat (d_size din div of_nat BSIZE) = n div BSIZE" using sz by (simp add: unat_div layout)
    moreover have "(n div BSIZE + 1) * BSIZE \<le> 4096" using nb by (simp add: layout)
    ultimately show ?thesis by (simp add: unat_word_ariths layout)
  qed
  then show "isize f 1 = (n div BSIZE + 1) * BSIZE" using d1 by simp
  have cg: "covered f (inode_of ?g 1) n" "fcontent f (inode_of ?g 1) n = root_dir files"
    using U(4,5) [OF one one] ow(2) [OF one] sz root(2) dd by (simp_all add: icontent_def)
  show "fcontent f (inode_of f 1) n = root_dir files" using cg(2) unfolding d1 by simp
  have "isize f 1 \<le> MAXFILE * BSIZE" using d1 v nb by (simp add: layout)
  then show "\<forall>j. n \<le> j \<longrightarrow> j < isize f 1 \<longrightarrow> fblk f (inode_of f 1) (j div BSIZE) = 0 \<or> f ! fblk f (inode_of f 1) (j div BSIZE) ! (j mod BSIZE) = 0"
    using cg(1) unfolding covered_def d1 size_irrelevant by (meson less_le_trans)
  show "\<forall>k < length files. d_type (inode_of f (k + 2)) = T_FILE \<and> icontent f (k + 2) = img_data (files ! k)"
  proof (intro allI impI)
    fix k assume k: "k < length files"
    then have k2: "k + 2 \<in> {1..length files + 1}" by simp
    have e: "inode_of f (k + 2) = inode_of ?g (k + 2)" using dj k by simp
    have "mk_files s1 ! (k + 2 - 1) = (T_FILE, img_data (files ! k))" using B k by simp
    then show "d_type (inode_of f (k + 2)) = T_FILE \<and> icontent f (k + 2) = img_data (files ! k)"
      using fl [OF k2] U(5) [OF k2 k2 ow(2) [OF k2]] unfolding icontent_def e by simp
  qed
  show "\<forall>i \<in> {1..length files + 1}. file_blocks f (inode_of f i) \<subseteq> {nmeta..<fb s}" using fbs ow(1) fs by (simp add: own_def)
  show "\<forall>i \<in> {1..length files + 1}. \<forall>j \<in> {1..length files + 1}. i \<noteq> j \<longrightarrow> file_blocks f (inode_of f i) \<inter> file_blocks f (inode_of f j) = {}"
  proof (intro ballI impI)
    fix i j assume ij: "i \<in> {1..length files + 1}" "j \<in> {1..length files + 1}" "i \<noteq> j"
    then have "file_blocks ?g (inode_of ?g i) \<inter> file_blocks ?g (inode_of ?g j) = {}" using I unfolding mk_inv_def by blast
    then show "file_blocks f (inode_of f i) \<inter> file_blocks f (inode_of f j) = {}" using fbs ij by simp
  qed
  show "\<forall>b < FSSIZE. bit_used (f ! 46) b \<longleftrightarrow> b < fb s" using bits by (simp add: layout BPB_def)
qed



end
