(* ===== verification/Spec2Isabelle.thy ===== *)
theory Spec2Isabelle
  imports Pipe_Sync_Props Spinlock Bio_Claims Fs_Claims Fd_Claims Console_Read Virtio_Claims Trap_Claims Boot Mkfs_Claims
begin

text \<open>
  Verification of an xv6 kernel for RISC-V (\<^verbatim>\<open>src/kernel\<close>) whose pipes were optimised in eight
  versions, selected by the compile-time constant \<^verbatim>\<open>PIPE_VERSION\<close>.

  \<^bold>\<open>The program.\<close> User processes exchange bytes through pipes (\<^verbatim>\<open>pipe.c\<close>): a write copies from user
  memory into a ring buffer and a read copies out of it, under the pipe's spin lock, and either
  sleeps on one of the pipe's two counters when the ring is full or empty. Version 1 moves one
  byte at a time; versions 2 and 4 copy in bulk, version 3 has four sub-buffers, versions 5 to 8 wake
  the other side only when it may be asleep, versions 6 to 8 add a scheduler that boosts a woken
  process (\<^verbatim>\<open>proc.c\<close>), and 7 and 8 pad the structure. The copies go through the page tables of the
  process (\<^verbatim>\<open>vm.c\<close>), whose pages come from the page allocator (\<^verbatim>\<open>kalloc.c\<close>). The other half of the
  kernel is the file system: an inode layer with directories and paths (\<^verbatim>\<open>fs.c\<close>) inside transactions of
  a redo log (\<^verbatim>\<open>log.c\<close>), over a cache of disk blocks (\<^verbatim>\<open>bio.c\<close>) whose buffers are protected by sleep
  locks (\<^verbatim>\<open>sleeplock.c\<close>) and come from a virtio disk (\<^verbatim>\<open>virtio_disk.c\<close>). Processes reach both halves through
  file descriptors (\<^verbatim>\<open>file.c\<close>, \<^verbatim>\<open>sysfile.c\<close>) and system calls (\<^verbatim>\<open>syscall.c\<close>, \<^verbatim>\<open>sysproc.c\<close>, \<^verbatim>\<open>exec.c\<close>); traps and interrupts
  (\<^verbatim>\<open>trap.c\<close>, \<^verbatim>\<open>plic.c\<close>) enter the kernel, and the console (\<^verbatim>\<open>console.c\<close>, \<^verbatim>\<open>uart.c\<close>, \<^verbatim>\<open>printf.c\<close>) is a device with a line
  discipline.

  \<^bold>\<open>Theories.\<close>
  \<^item> \<^verbatim>\<open>Xv6_Prelude\<close>: C integers as words, the result type \<open>kres\<close> with panics as values, constants, shared
    lemmas on words, lists and rings.
  \<^item> \<^verbatim>\<open>Phys_Mem\<close>: physical memory and \<^verbatim>\<open>string.c\<close>. \<^verbatim>\<open>Bytes\<close>: 16- and 32-bit fields inside blocks.
  \<^item> \<^verbatim>\<open>Kalloc\<close>: \<^verbatim>\<open>kinit\<close>, \<^verbatim>\<open>kalloc\<close>, \<^verbatim>\<open>kfree\<close>, with the free list threaded through the free pages; the locale
    \<open>page_alloc\<close> is what page tables rely on.
  \<^item> \<^verbatim>\<open>Vm\<close>, \<^verbatim>\<open>Vm_Copy\<close>: Sv39 page tables in memory, \<^verbatim>\<open>copyin\<close>, \<^verbatim>\<open>copyout\<close>, lazy allocation in \<^verbatim>\<open>vmfault\<close>.
  \<^item> \<^verbatim>\<open>Spinlock\<close>: \<^verbatim>\<open>spinlock.c\<close> as interleaved memory steps of any number of CPUs.
  \<^item> \<^verbatim>\<open>Pipe_Code\<close>: \<^verbatim>\<open>pipewrite\<close> and \<^verbatim>\<open>piperead\<close> of every version, one function per pass of a loop.
    \<^verbatim>\<open>Pipe_Loops\<close>: the loops, proved once in locales that state what a loop body and the kernel's copies
    promise. \<^verbatim>\<open>Pipe_Versions\<close>: every version meets the contracts. \<^verbatim>\<open>Pipe_Kernel\<close>, \<^verbatim>\<open>Pipe_Props\<close>: the same on the
    kernel's own copies, and the refinement to a bounded queue.
  \<^item> \<^verbatim>\<open>Pipe_Sync\<close>, \<^verbatim>\<open>Pipe_Sync_Props\<close>: readers and writers of one pipe interleaved, with sleeps, wakeups, closes
    and kills.
  \<^item> \<^verbatim>\<open>Proc_Table\<close>, \<^verbatim>\<open>Sched\<close>, \<^verbatim>\<open>Proc_Life\<close>: the process table, \<^verbatim>\<open>sleep\<close>, \<^verbatim>\<open>wakeup\<close>, \<^verbatim>\<open>kkill\<close>, both schedulers, and
    what \<^verbatim>\<open>allocproc\<close> hands out.
  \<^item> \<^verbatim>\<open>Sleeplock\<close>: \<^verbatim>\<open>sleeplock.c\<close>, and processes that compete for a lock.
  \<^item> \<^verbatim>\<open>Bio\<close>, \<^verbatim>\<open>Bio_List\<close>, \<^verbatim>\<open>Bio_Spec\<close>, \<^verbatim>\<open>Bio_Claims\<close>: the buffer cache with its doubly linked list; the list as a
    ring; the operations as operations on block contents, reference counts and locks.
  \<^item> \<^verbatim>\<open>Log\<close>, \<^verbatim>\<open>Log_Crash\<close>, \<^verbatim>\<open>Log_Recover\<close>, \<^verbatim>\<open>Log_Tx\<close>, \<^verbatim>\<open>Log_Budget\<close>, \<^verbatim>\<open>Log_Claims\<close>: the log; the sequence of block
    writes of a commit and of a recovery; the disks a crash can leave behind; the log as a block
    store (locale \<open>tx_store\<close>); its space.
  \<^item> \<^verbatim>\<open>Fs\<close>, \<^verbatim>\<open>Fs_Dir\<close>: every function of \<^verbatim>\<open>fs.c\<close>. \<^verbatim>\<open>Fs_Bitmap\<close>, \<^verbatim>\<open>Fs_Inode\<close>, \<^verbatim>\<open>Fs_Claims\<close>: the allocator as a set of
    used blocks, inodes and file contents.
  \<^item> \<^verbatim>\<open>Uart\<close>, \<^verbatim>\<open>Printf\<close>, \<^verbatim>\<open>Printf_Props\<close>: the serial port; \<^verbatim>\<open>printf\<close> with all its conversions, \<^verbatim>\<open>panic\<close>'s message and \<^verbatim>\<open>procdump\<close>;
    numbers read back from what is printed. \<^verbatim>\<open>Console\<close>, \<^verbatim>\<open>Console_Line\<close>, \<^verbatim>\<open>Console_Read\<close>: the console's ring of
    characters as finished lines and a line that is edited.
  \<^item> \<^verbatim>\<open>File\<close>, \<^verbatim>\<open>Sysfile\<close>, \<^verbatim>\<open>Exec\<close>, \<^verbatim>\<open>Syscall\<close>: the file table and \<^verbatim>\<open>pipealloc\<close>, the file system calls, \<^verbatim>\<open>kexec\<close> with its clean-up
    paths, \<^verbatim>\<open>kfork\<close>, \<^verbatim>\<open>kexit\<close>, the process calls and the dispatcher.
  \<^item> \<^verbatim>\<open>Fd_Frame\<close>, \<^verbatim>\<open>Fd_Inv\<close>, \<^verbatim>\<open>Fd_Ops\<close>, \<^verbatim>\<open>Fd_Calls\<close>, \<^verbatim>\<open>Fd_Procs\<close>, \<^verbatim>\<open>Fd_Claims\<close>: the reference counts of open files: what each
    layer leaves alone, the invariant, and that every call keeps it.
  \<^item> \<^verbatim>\<open>Virtio\<close>: every function of the disk driver. \<^verbatim>\<open>Virtio_Inv\<close>, \<^verbatim>\<open>Virtio_Ops\<close>, \<^verbatim>\<open>Virtio_Steps\<close>, \<^verbatim>\<open>Virtio_Safe\<close>,
    \<^verbatim>\<open>Virtio_Claims\<close>: processes, the device and interrupts as interleaved steps, the invariant of descriptors and
    rings, and that every step keeps it.
  \<^item> \<^verbatim>\<open>Trap\<close>: \<^verbatim>\<open>usertrap\<close>, \<^verbatim>\<open>prepare_return\<close>, \<^verbatim>\<open>kerneltrap\<close>, \<^verbatim>\<open>devintr\<close>, \<^verbatim>\<open>plic.c\<close>, \<^verbatim>\<open>forkret\<close> and the supervisor registers. \<^verbatim>\<open>Trap_Props\<close>,
    \<^verbatim>\<open>Trap_Claims\<close>: what interrupts leave alone and how the kernel goes back to user space.
  \<^item> \<^verbatim>\<open>Boot\<close>: \<^verbatim>\<open>start.c\<close>, \<^verbatim>\<open>main.c\<close>, \<^verbatim>\<open>kvminit\<close> and \<^verbatim>\<open>kvminithart\<close>.
  \<^item> \<^verbatim>\<open>Mkfs\<close>: the image builder \<^verbatim>\<open>mkfs.c\<close>, on a list of sectors and with the on-disk layout of \<^verbatim>\<open>Fs\<close>. \<^verbatim>\<open>Mkfs_Append\<close>: what \<^verbatim>\<open>iappend\<close> does to
    one file and that it ends. \<^verbatim>\<open>Mkfs_Image\<close>: the image as a list of files. \<^verbatim>\<open>Mkfs_Claims\<close>: the finished image.

  \<^bold>\<open>How state and operations correspond.\<close> The kernel's global variables are one record that grows with
  the layers: \<open>machine\<close> (memory and free list), \<open>kernel\<close> (process table), \<open>ckernel\<close> (the running process and
  the pipe version), \<open>bkernel\<close> (buffers, disk), \<open>lkernel\<close> (log), \<open>ikernel\<close> (superblock and inode table), \<open>fkernel\<close> (file table), \<open>ukernel\<close>
  (serial port), \<open>tkernel\<close> (console), \<open>skernel\<close> (clock), \<open>vkernel\<close> (disk driver), \<open>hkernel\<close> (registers of the CPU). Pointers into
  tables are indices. A definition has the name of the C function it translates; a loop of the code is a
  function of its own, with the name of its function and a suffix. Errors: \<open>Panic\<close> is the call of \<^verbatim>\<open>panic\<close>,
  \<open>WouldSleep\<close> ends a call that runs without interleaving where it would wait.

  \<^bold>\<open>What is shown.\<close> Pipes: delivery in order in every interleaving, no wakeup lost unless a writer is
  killed, and refinement of one abstract queue by all versions. Scheduling: the choice of the
  priority scheduler, its preference for woken processes, its starvation of equal processes,
  and the fairness of the round-robin one. Memory: the allocator as a stack of pages. Locks:
  mutual exclusion of spin locks and no lost wakeup of sleep locks. Disk: a cache that always
  returns the current content, recycles the least recently used buffer; atomic transactions
  under crashes at any block write, also during recovery; no overflow of the log; the lowest free
  block from the block allocator; inodes and file contents that are read back as written; paths
  taken apart at their slashes. Files: after any sequence of system calls every reference count is the
  number of descriptors that refer to the file. Disk driver: in every interleaving of processes,
  device and interrupts it never panics, finished requests have moved their block, and no
  wakeup is lost. Console: the line discipline of its input, one line per read, and numbers that are printed to be
  read back. Traps: one state in which user space is entered, interrupts that the interrupted
  program does not see, faults that end the process, and handlers that always end. Image builder: every file
  of the image has the bytes of its source and blocks of its own, and the bitmap marks the blocks in use.

  \<^bold>\<open>Bounds and fuel.\<close> The two scans of \<^verbatim>\<open>bget\<close> have fuel \<open>NBUF + 1\<close>, one more than the list has buffers, and
  the lemmas show that it is enough on every intact list. Loops over pages in \<^verbatim>\<open>vm.c\<close> are bounded by the
  number of pages. The pipe loops run with the number of bytes left as their bound. The
  loop that erases a console line has one more turn than the line has characters, which is shown to be enough;
  \<^verbatim>\<open>free_chain\<close> ends because a descriptor that is freed twice is a panic, and \<^verbatim>\<open>virtio_disk_intr\<close> because it
  catches up with the device's 16-bit index. \<^verbatim>\<open>iappend\<close> recurses on the bytes that are left.

  \<^bold>\<open>Assumptions.\<close> A disk write is atomic per block and happens in the order of the calls. File system
  calls run one after the other; only the log's reservations are interleaved. A process
  identifier does not wrap. Sections under a spin lock, other than the spin lock code itself, are
  single steps. The file system sees the disk as blocks that are read and written at once; that the disk
  driver implements this is shown by itself, in \<open>Virtio_Claims\<close>. A trap handler that gives up the CPU stops
  there, and \<open>trap_return\<close> and \<open>kerneltrap_end\<close> are what it does when it runs again.

  \<^bold>\<open>Not modelled.\<close> Assembly (\<^verbatim>\<open>trampoline.S\<close>, \<^verbatim>\<open>swtch.S\<close>, \<^verbatim>\<open>kernelvec.S\<close>, \<^verbatim>\<open>entry.S\<close>); the output of \<^verbatim>\<open>PIPE_TRACE\<close>, a
  debugging option that is off; the names of locks (\<^verbatim>\<open>trapinit\<close>, \<^verbatim>\<open>fileinit\<close>, \<^verbatim>\<open>printfinit\<close>); the host's benchmark
  scripts.
\<close>

end
